(* ===== verification/Prelude.thy ===== *)
theory Prelude
  imports Main "HOL-Library.Char_ord" "HOL-Library.List_Lexorder"
begin

text \<open>
  Shared vocabulary of the development: the JavaScript string and collection operations the
  program uses, the error values its handlers throw, and the generic lemmas about them.

  A JavaScript string is a \<^typ>\<open>string\<close>, read as a sequence of code units below 256 (the Latin-1
  repertoire); \<open>trim\<close> and \<open>toLowerCase\<close> are written out for that repertoire. A JavaScript \<open>Map\<close>
  or \<open>Set\<close> whose insertion order the code relies on (an LRU cache, a \<open>[...new Set(xs)]\<close>) is a
  list in insertion order; one that is only looked up is a HOL map or set.
\<close>

named_theorems js_string \<open>facts about the JavaScript string operations\<close>

section \<open>Characters and strings\<close>

definition is_digit :: "char \<Rightarrow> bool" where
  "is_digit c \<longleftrightarrow> CHR ''0'' \<le> c \<and> c \<le> CHR ''9''"

text \<open>White space as \<open>String.prototype.trim\<close> and the class \<open>\s\<close> know it, below 256.\<close>

definition js_ws :: "char \<Rightarrow> bool" where
  "js_ws c \<longleftrightarrow> (let n = (of_char c :: nat) in n \<in> {9, 10, 11, 12, 13, 32, 160})"

definition trim :: "string \<Rightarrow> string" where
  "trim s = rev (dropWhile js_ws (rev (dropWhile js_ws s)))"

definition lower_char :: "char \<Rightarrow> char" where
  "lower_char c =
     (let n = (of_char c :: nat)
      in if (65 \<le> n \<and> n \<le> 90) \<or> (192 \<le> n \<and> n \<le> 222 \<and> n \<noteq> 215) then char_of (n + 32) else c)"

definition toLowerCase :: "string \<Rightarrow> string" where
  "toLowerCase s = map lower_char s"

text \<open>\<open>s.split(c)\<close> for a one-character separator: never the empty list.\<close>

fun split_on :: "'a \<Rightarrow> 'a list \<Rightarrow> 'a list list" where
  "split_on c [] = [[]]"
| "split_on c (x # xs) =
     (if x = c then [] # split_on c xs
      else (case split_on c xs of [] \<Rightarrow> [[x]] | y # ys \<Rightarrow> (x # y) # ys))"

text \<open>\<open>s.indexOf(c)\<close> and \<open>s.lastIndexOf(c)\<close>, with \<open>None\<close> for the source's \<open>-1\<close>.\<close>

fun indexOf :: "'a \<Rightarrow> 'a list \<Rightarrow> nat option" where
  "indexOf c [] = None"
| "indexOf c (x # xs) = (if x = c then Some 0 else map_option Suc (indexOf c xs))"

fun lastIndexOf :: "'a \<Rightarrow> 'a list \<Rightarrow> nat option" where
  "lastIndexOf c [] = None"
| "lastIndexOf c (x # xs) =
     (case lastIndexOf c xs of Some i \<Rightarrow> Some (Suc i) | None \<Rightarrow> if x = c then Some 0 else None)"

text \<open>The regular expression \<open>/^\d{5,}$/\<close>, which two modules spell out.\<close>

definition digits5 :: "string \<Rightarrow> bool" where
  "digits5 s \<longleftrightarrow> 5 \<le> length s \<and> list_all is_digit s"

text \<open>\<open>[...new Set(xs)]\<close>: the first occurrence of each element, in order.\<close>

fun js_set :: "'a list \<Rightarrow> 'a list" where
  "js_set [] = []"
| "js_set (x # xs) = x # filter (\<lambda>y. y \<noteq> x) (js_set xs)"

lemma set_js_set [simp]: "set (js_set xs) = set xs"
  by (induction xs) auto

lemma distinct_js_set [simp]: "distinct (js_set xs)"
  by (induction xs) auto

lemma js_set_eq_Nil [simp]: "js_set xs = [] \<longleftrightarrow> xs = []"
  by (cases xs) auto

declare js_set.simps [simp del]

section \<open>Lemmas on the string operations\<close>

lemma lower_char_code:
  "of_char (lower_char c) =
     (let n = (of_char c :: nat)
      in if (65 \<le> n \<and> n \<le> 90) \<or> (192 \<le> n \<and> n \<le> 222 \<and> n \<noteq> 215) then n + 32 else n)"
proof -
  have "(of_char c :: nat) < 256"
    by simp
  then show ?thesis
    by (auto simp: lower_char_def Let_def)
qed

lemma lower_char_idem [simp]: "lower_char (lower_char c) = lower_char c"
proof -
  have "(of_char (lower_char (lower_char c)) :: nat) = of_char (lower_char c)"
    by (simp add: lower_char_code Let_def)
  then show ?thesis
    by (simp only: of_char_eq_iff)
qed

lemma js_ws_lower [simp]: "js_ws (lower_char c) = js_ws c"
  by (auto simp: js_ws_def lower_char_code Let_def)

lemma toLowerCase_idem [simp]: "toLowerCase (toLowerCase s) = toLowerCase s"
  by (simp add: toLowerCase_def)

lemma toLowerCase_append [simp]: "toLowerCase (s @ t) = toLowerCase s @ toLowerCase t"
  by (simp add: toLowerCase_def)

lemma toLowerCase_fix_iff: "toLowerCase s = s \<longleftrightarrow> (\<forall>c \<in> set s. lower_char c = c)"
  unfolding toLowerCase_def by (induction s) auto

lemma dropWhile_hd_fix: "xs = [] \<or> \<not> P (hd xs) \<Longrightarrow> dropWhile P xs = xs"
  by (cases xs) auto

lemma trim_fix:
  assumes "s = [] \<or> (\<not> js_ws (hd s) \<and> \<not> js_ws (last s))"
  shows "trim s = s"
proof (cases s)
  case (Cons c t)
  with assms have "\<not> js_ws (hd s)" and "\<not> js_ws (hd (rev s))"
    unfolding hd_rev by auto
  then have "dropWhile js_ws s = s" and "dropWhile js_ws (rev s) = rev s"
    by (blast intro: dropWhile_hd_fix)+
  then show ?thesis
    by (simp add: trim_def)
qed (simp add: trim_def)

lemma hd_rev_dropWhile:
  assumes "ys = rev (dropWhile P (rev xs))" and "ys \<noteq> []"
  shows "hd ys = hd xs"
proof -
  have "xs = ys @ rev (takeWhile P (rev xs))"
    using assms(1) by (metis rev_append rev_rev_ident takeWhile_dropWhile_id)
  with assms(2) show ?thesis
    by (metis hd_append2)
qed

lemma trim_hd: "trim s \<noteq> [] \<Longrightarrow> \<not> js_ws (hd (trim s))"
proof -
  assume ne: "trim s \<noteq> []"
  let ?t = "dropWhile js_ws s"
  have "?t \<noteq> []"
    using ne unfolding trim_def by (metis dropWhile.simps(1) rev.simps(1))
  then have "\<not> js_ws (hd ?t)"
    by (rule hd_dropWhile)
  with hd_rev_dropWhile [of "trim s" js_ws ?t] ne show ?thesis
    by (simp add: trim_def)
qed

lemma trim_last: "trim s \<noteq> [] \<Longrightarrow> \<not> js_ws (last (trim s))"
  by (simp add: trim_def last_rev hd_dropWhile)

lemma trim_idem [simp]: "trim (trim s) = trim s"
  using trim_hd trim_last trim_fix by blast

lemma split_on_not_Nil [simp]: "split_on c s \<noteq> []"
  by (induction s) (auto split: list.splits)

lemma hd_split_on: "hd (split_on c s) = takeWhile (\<lambda>x. x \<noteq> c) s"
proof (induction s)
  case (Cons x s)
  then show ?case
    by (cases "split_on c s") auto
qed simp

lemma hd_takeWhile_ne: "takeWhile P xs \<noteq> [] \<Longrightarrow> xs \<noteq> [] \<and> hd (takeWhile P xs) = hd xs"
  by (cases xs) (auto split: if_splits)

lemma split_on_absent [simp]: "c \<notin> set s \<Longrightarrow> split_on c s = [s]"
  by (induction s) auto

lemma indexOf_None [simp]: "indexOf c s = None \<longleftrightarrow> c \<notin> set s"
  by (induction s) auto

lemma lastIndexOf_None [simp]: "lastIndexOf c s = None \<longleftrightarrow> c \<notin> set s"
  by (induction s) (auto split: option.splits)

lemma indexOf_split: "c \<notin> set u \<Longrightarrow> indexOf c (u @ c # v) = Some (length u)"
  by (induction u) auto

lemma lastIndexOf_split: "c \<notin> set v \<Longrightarrow> lastIndexOf c (u @ c # v) = Some (length u)"
  by (induction u) (auto split: option.splits simp flip: lastIndexOf_None)

lemma lastIndexOf_Some:
  "lastIndexOf c s = Some i \<Longrightarrow>
     i < length s \<and> s = take i s @ c # drop (Suc i) s \<and> c \<notin> set (drop (Suc i) s)"
proof (induction s arbitrary: i)
  case (Cons x s)
  show ?case
  proof (cases "lastIndexOf c s")
    case None
    with Cons.prems have "x = c" "i = 0" "c \<notin> set s"
      by (auto split: if_splits simp flip: lastIndexOf_None)
    then show ?thesis by simp
  next
    case (Some j)
    with Cons.prems have "i = Suc j" by simp
    with Cons.IH [OF Some] show ?thesis by simp
  qed
qed simp

text \<open>Every separator is at the last position exactly when the prefix before it has none.\<close>

lemma indexOf_eq_lastIndexOf:
  "lastIndexOf c s = Some i \<Longrightarrow> indexOf c s = Some i \<longleftrightarrow> c \<notin> set (take i s)"
proof -
  assume "lastIndexOf c s = Some i"
  then have *: "s = take i s @ c # drop (Suc i) s" "i < length s"
    by (auto dest: lastIndexOf_Some)
  show ?thesis
  proof
    assume i: "indexOf c s = Some i"
    show "c \<notin> set (take i s)"
    proof
      assume "c \<in> set (take i s)"
      then obtain j where "indexOf c (take i s) = Some j"
        using indexOf_None by fastforce
      then have "j < i \<and> indexOf c s = Some j"
        by (induction s arbitrary: i j) (auto split: if_splits simp: take_Cons split: nat.splits)
      with i show False by simp
    qed
  next
    assume "c \<notin> set (take i s)"
    then have "indexOf c (take i s @ c # drop (Suc i) s) = Some (length (take i s))"
      by (rule indexOf_split)
    with * show "indexOf c s = Some i" by simp
  qed
qed

lemma is_digit_props:
  assumes "is_digit c"
  shows "\<not> js_ws c" "lower_char c = c" "c \<noteq> CHR ''@''" "c \<noteq> CHR '':''"
proof -
  have n: "48 \<le> (of_char c :: nat)" "(of_char c :: nat) \<le> 57"
    using assms by (auto simp: is_digit_def less_eq_char_def)
  then show "\<not> js_ws c" "lower_char c = c"
    by (auto simp: js_ws_def lower_char_def Let_def)
  show "c \<noteq> CHR ''@''" "c \<noteq> CHR '':''"
    using n by auto
qed

lemma not_digit_separator [simp]: "\<not> is_digit (CHR ''@'')" "\<not> is_digit (CHR '':'')"
  using is_digit_props by blast+

lemma lower_char_toLowerCase: "c \<in> set (toLowerCase s) \<Longrightarrow> lower_char c = c"
  by (auto simp: toLowerCase_def)

section \<open>Errors\<close>

text \<open>
  The HTTP exceptions the handlers throw, each with its message. \<open>UnresolvedApiKey\<close> is the
  source's subclass \<open>UnresolvedApiKeyException\<close> of the unauthorized exception.
\<close>

datatype http_error =
    BadRequest string
  | Unauthorized string
  | UnresolvedApiKey string
  | Forbidden string
  | NotFound string
  | Conflict string
  | Unavailable string

type_synonym 'a result = "http_error + 'a"

definition bind_result :: "'a result \<Rightarrow> ('a \<Rightarrow> 'b result) \<Rightarrow> 'b result" where
  "bind_result r f = (case r of Inl e \<Rightarrow> Inl e | Inr x \<Rightarrow> f x)"

lemma bind_result_simps [simp]:
  "bind_result (Inl e) f = Inl e"
  "bind_result (Inr x) f = f x"
  by (simp_all add: bind_result_def)

lemma bind_result_Inr: "bind_result r f = Inr y \<longleftrightarrow> (\<exists>x. r = Inr x \<and> f x = Inr y)"
  by (cases r) auto

lemma bind_result_Inl: "bind_result r f = Inl e \<longleftrightarrow> r = Inl e \<or> (\<exists>x. r = Inr x \<and> f x = Inl e)"
  by (cases r) auto

section \<open>Optional values read as truthy\<close>

text \<open>A JavaScript string that may be absent counts as true when present and not empty.\<close>

fun truthy :: "string option \<Rightarrow> bool" where
  "truthy None = False"
| "truthy (Some s) = (s \<noteq> [])"

text \<open>\<open>(xs?.length ?? 0) > 0\<close> for an optional list.\<close>

fun nonempty_opt :: "'a list option \<Rightarrow> bool" where
  "nonempty_opt None = False"
| "nonempty_opt (Some xs) = (xs \<noteq> [])"

lemma truthy_iff: "truthy x \<longleftrightarrow> (\<exists>s. x = Some s \<and> s \<noteq> [])"
  by (cases x) auto

lemma nonempty_opt_iff: "nonempty_opt x \<longleftrightarrow> (\<exists>s. x = Some s \<and> s \<noteq> [])"
  by (cases x) auto

lemmas truthy_simps = truthy_iff nonempty_opt_iff

section \<open>Insertion-ordered maps\<close>

text \<open>
  A JavaScript \<open>Map\<close> whose iteration order matters, as an association list with distinct keys:
  \<open>delete\<close> drops the key, \<open>set\<close> keeps the position of a present key and appends a new one.
\<close>

definition js_delete :: "'k \<Rightarrow> ('k \<times> 'v) list \<Rightarrow> ('k \<times> 'v) list" where
  "js_delete k m = filter (\<lambda>e. fst e \<noteq> k) m"

fun js_put :: "'k \<Rightarrow> 'v \<Rightarrow> ('k \<times> 'v) list \<Rightarrow> ('k \<times> 'v) list" where
  "js_put k v [] = [(k, v)]"
| "js_put k v (e # m) = (if fst e = k then (k, v) # m else e # js_put k v m)"

text \<open>\<open>size\<close> items at a time, as the loop \<open>for (i = 0; i < n; i += size)\<close> slices them.\<close>

function chunk :: "nat \<Rightarrow> 'a list \<Rightarrow> 'a list list" where
  "chunk n xs = (if xs = [] \<or> n = 0 then [] else take n xs # chunk n (drop n xs))"
  by pat_completeness auto
termination
  by (relation "measure (\<lambda>(n, xs). length xs)") auto

declare chunk.simps [simp del]

lemma concat_chunk: "0 < n \<Longrightarrow> concat (chunk n xs) = xs"
proof (induction n xs rule: chunk.induct)
  case (1 n xs)
  then show ?case
    by (cases "xs = []") (simp_all add: chunk.simps [of n xs] chunk.simps [of n "[]"])
qed

lemma chunk_size: "b \<in> set (chunk n xs) \<Longrightarrow> b \<noteq> [] \<and> length b \<le> n"
proof (induction n xs rule: chunk.induct)
  case (1 n xs)
  then show ?case
    by (cases "xs = [] \<or> n = 0") (auto simp: chunk.simps [of n xs])
qed

lemma map_of_js_delete [simp]: "map_of (js_delete k m) = (map_of m)(k := None)"
  by (induction m) (auto simp: js_delete_def fun_eq_iff)

lemma keys_js_delete [simp]: "set (map fst (js_delete k m)) = set (map fst m) - {k}"
  by (auto simp: js_delete_def)

lemma distinct_js_delete [simp]: "distinct (map fst m) \<Longrightarrow> distinct (map fst (js_delete k m))"
  by (induction m) (auto simp: js_delete_def)

lemma map_of_js_put [simp]: "map_of (js_put k v m) = (map_of m)(k \<mapsto> v)"
  by (induction m) (auto simp: fun_eq_iff)

lemma keys_js_put [simp]: "set (map fst (js_put k v m)) = insert k (set (map fst m))"
  by (induction m) auto

lemma distinct_js_put [simp]: "distinct (map fst m) \<Longrightarrow> distinct (map fst (js_put k v m))"
proof (induction m)
  case (Cons e m)
  then show ?case
    using keys_js_put [of k v m] by (cases "fst e = k") auto
qed simp

lemma length_js_put: "distinct (map fst m) \<Longrightarrow>
    length (js_put k v m) = (if k \<in> set (map fst m) then length m else Suc (length m))"
  by (induction m) auto

lemma map_of_snoc: "k \<notin> set (map fst m) \<Longrightarrow> map_of (m @ [(k, v)]) = (map_of m)(k \<mapsto> v)"
  by (induction m) auto

text \<open>The rows of a table keyed by its primary key, each key once.\<close>

definition table_rows :: "('k \<times> 'r) list \<Rightarrow> ('k \<times> 'r) list" where
  "table_rows t = map (\<lambda>k. (k, the (map_of t k))) (remdups (map fst t))"

lemma in_table_rows [simp]: "(k, r) \<in> set (table_rows t) \<longleftrightarrow> map_of t k = Some r"
  by (auto simp: table_rows_def dest: map_of_SomeD simp: map_of_eq_Some_iff)
     (metis image_eqI map_of_eq_None_iff option.collapse option.distinct(1) fst_conv, force dest: map_of_SomeD)

end
