(* ===== verification/Ip.thy ===== *)
theory Ip
  imports Prelude
begin

text \<open>
  Client addresses: \<^verbatim>\<open>src/src/common/utils/ip.ts\<close> (IPv4-mapped normalisation, the trusted-proxy walk
  over X-Forwarded-For, exact and CIDR matching), over a model of what it uses of Node's \<open>net\<close>
  module: \<open>isIP\<close> and the numeric subnet test of \<open>BlockList\<close>. An IPv4 address is its value below
  \<open>2^32\<close>, an IPv6 address its eight hextets; a zone suffix (\<open>%eth0\<close>) is accepted by \<open>isIPv6\<close> and
  ignored by the subnet test.
\<close>

section \<open>Numbers in address literals\<close>

definition digit_val :: "char \<Rightarrow> int" where
  "digit_val c = of_char c - 48"

definition dec_val :: "string \<Rightarrow> int" where
  "dec_val s = foldl (\<lambda>n c. 10 * n + digit_val c) 0 s"

definition is_hex :: "char \<Rightarrow> bool" where
  "is_hex c \<longleftrightarrow> is_digit c \<or> (CHR ''a'' \<le> c \<and> c \<le> CHR ''f'') \<or> (CHR ''A'' \<le> c \<and> c \<le> CHR ''F'')"

definition hex_digit_val :: "char \<Rightarrow> int" where
  "hex_digit_val c =
     (if is_digit c then digit_val c else if c \<le> CHR ''F'' then of_char c - 55 else of_char c - 87)"

definition hex_val :: "string \<Rightarrow> int" where
  "hex_val s = foldl (\<lambda>n c. 16 * n + hex_digit_val c) 0 s"

text \<open>\<open>\d{1,3}\<close> and four of them with dots between, as three regular expressions of the source have.\<close>

definition digits13 :: "string \<Rightarrow> bool" where
  "digits13 s \<longleftrightarrow> 1 \<le> length s \<and> length s \<le> 3 \<and> list_all is_digit s"

definition dotted_quad :: "string \<Rightarrow> bool" where
  "dotted_quad s \<longleftrightarrow> (let ps = split_on (CHR ''.'') s in length ps = 4 \<and> list_all digits13 ps)"

section \<open>Node's net module\<close>

text \<open>An octet as \<open>isIPv4\<close> reads it: no leading zero, at most 255.\<close>

definition octet :: "string \<Rightarrow> int option" where
  "octet s =
     (if digits13 s \<and> dec_val s \<le> 255 \<and> (length s = 1 \<or> hd s \<noteq> CHR ''0'') then Some (dec_val s) else None)"

definition ipv4_value :: "string \<Rightarrow> int option" where
  "ipv4_value s =
     (case map octet (split_on (CHR ''.'') s) of
        [Some a, Some b, Some c, Some d] \<Rightarrow> Some (((a * 256 + b) * 256 + c) * 256 + d)
      | _ \<Rightarrow> None)"

definition hextet :: "string \<Rightarrow> int option" where
  "hextet s = (if 1 \<le> length s \<and> length s \<le> 4 \<and> list_all is_hex s then Some (hex_val s) else None)"

text \<open>The groups of one side of an IPv6 literal; the last may be a dotted quad standing for two.\<close>

fun groups :: "bool \<Rightarrow> string list \<Rightarrow> int list option" where
  "groups dotted [] = Some []"
| "groups dotted [g] =
     (case hextet g of
        Some n \<Rightarrow> Some [n]
      | None \<Rightarrow> if dotted then map_option (\<lambda>v. [v div 65536, v mod 65536]) (ipv4_value g) else None)"
| "groups dotted (g # gs) =
     (case (hextet g, groups dotted gs) of (Some n, Some ns) \<Rightarrow> Some (n # ns) | _ \<Rightarrow> None)"

text \<open>Cut a string at the first occurrence of \<open>::\<close>, as \<open>split\<close> does.\<close>

fun cut2 :: "string \<Rightarrow> (string \<times> string) option" where
  "cut2 (a # b # s) =
     (if a = CHR '':'' \<and> b = CHR '':'' then Some ([], s)
      else map_option (\<lambda>(h, t). (a # h, t)) (cut2 (b # s)))"
| "cut2 s = None"

definition colon_parts :: "string \<Rightarrow> string list" where
  "colon_parts s = (if s = [] then [] else split_on (CHR '':'') s)"

definition ipv6_groups :: "string \<Rightarrow> int list option" where
  "ipv6_groups s =
     (case cut2 s of
        None \<Rightarrow> (case groups True (split_on (CHR '':'') s) of
                  Some ns \<Rightarrow> if length ns = 8 then Some ns else None | None \<Rightarrow> None)
      | Some (h, t) \<Rightarrow>
          if cut2 t \<noteq> None then None
          else (case (groups False (colon_parts h), groups True (colon_parts t)) of
                  (Some a, Some b) \<Rightarrow>
                    if length a + length b \<le> 7
                    then Some (a @ replicate (8 - length a - length b) 0 @ b) else None
                | _ \<Rightarrow> None))"

definition zone_char :: "char \<Rightarrow> bool" where
  "zone_char c \<longleftrightarrow> is_digit c \<or> (CHR ''a'' \<le> c \<and> c \<le> CHR ''z'') \<or> (CHR ''A'' \<le> c \<and> c \<le> CHR ''Z'')
     \<or> c = CHR ''-'' \<or> c = CHR ''.'' \<or> c = CHR '':''"

definition ipv6_value :: "string \<Rightarrow> int list option" where
  "ipv6_value s =
     (let addr = takeWhile (\<lambda>c. c \<noteq> CHR ''%'') s; rest = drop (length addr) s
      in if rest = [] \<or> (tl rest \<noteq> [] \<and> list_all zone_char (tl rest)) then ipv6_groups addr else None)"

definition isIPv4 :: "string \<Rightarrow> bool" where
  "isIPv4 s = (ipv4_value s \<noteq> None)"

definition isIPv6 :: "string \<Rightarrow> bool" where
  "isIPv6 s = (ipv6_value s \<noteq> None)"

definition isIP :: "string \<Rightarrow> nat" where
  "isIP s = (if isIPv4 s then 4 else if isIPv6 s then 6 else 0)"

definition hextets_num :: "int list \<Rightarrow> int" where
  "hextets_num hs = foldl (\<lambda>n h. 65536 * n + h) 0 hs"

datatype ip_type = IPv4 | IPv6

definition width :: "ip_type \<Rightarrow> nat" where
  "width t = (case t of IPv4 \<Rightarrow> 32 | IPv6 \<Rightarrow> 128)"

definition ip_num :: "ip_type \<Rightarrow> string \<Rightarrow> int option" where
  "ip_num t s = (case t of IPv4 \<Rightarrow> ipv4_value s | IPv6 \<Rightarrow> map_option hextets_num (ipv6_value s))"

text \<open>\<open>addSubnet(base, bits, t)\<close> and then \<open>check(s, t)\<close>; \<open>None\<close> where Node throws on an invalid address.\<close>

definition subnet_check :: "ip_type \<Rightarrow> string \<Rightarrow> nat \<Rightarrow> string \<Rightarrow> bool option" where
  "subnet_check t base bits s =
     (case (ip_num t base, ip_num t s) of
        (Some b, Some v) \<Rightarrow> Some (v div 2 ^ (width t - bits) = b div 2 ^ (width t - bits))
      | _ \<Rightarrow> None)"

section \<open>ip.ts\<close>

definition normalizeIp :: "string \<Rightarrow> string" where
  "normalizeIp ip =
     (if toLowerCase (take 7 ip) = ''::ffff:'' \<and> dotted_quad (drop 7 ip) then drop 7 ip else ip)"

record request_like =
  req_ip :: "string option"
  remoteAddress :: "string option"
  x_forwarded_for :: "string list"

text \<open>
  The header \<open>x-forwarded-for\<close>: no value, one, or several that the source joins with a comma.
\<close>

fun join_comma :: "string list \<Rightarrow> string" where
  "join_comma [] = []"
| "join_comma [s] = s"
| "join_comma (s # ss) = s @ '','' @ join_comma ss"

text \<open>The regular expressions \<open>/^(quad):\d+$/\<close> and \<open>/^\[([0-9a-f:.]+)\](?::\d+)?$/i\<close>, by their capture.\<close>

definition hop_v4 :: "string \<Rightarrow> string option" where
  "hop_v4 hop =
     (case split_on (CHR '':'') hop of
        [a, p] \<Rightarrow> if dotted_quad a \<and> p \<noteq> [] \<and> list_all is_digit p then Some a else None
      | _ \<Rightarrow> None)"

definition hop_v6 :: "string \<Rightarrow> string option" where
  "hop_v6 hop =
     (let body = takeWhile (\<lambda>c. c \<noteq> CHR '']'') (tl hop); rest = drop (Suc (length body)) hop
      in if hop \<noteq> [] \<and> hd hop = CHR ''['' \<and> body \<noteq> []
           \<and> list_all (\<lambda>c. is_hex c \<or> c = CHR '':'' \<or> c = CHR ''.'') body \<and> rest \<noteq> []
           \<and> (tl rest = [] \<or> (hd (tl rest) = CHR '':'' \<and> tl (tl rest) \<noteq> [] \<and> list_all is_digit (tl (tl rest))))
         then Some body else None)"

definition stripHopPort :: "string \<Rightarrow> string" where
  "stripHopPort hop =
     (case hop_v4 hop of Some a \<Rightarrow> a | None \<Rightarrow> (case hop_v6 hop of Some a \<Rightarrow> a | None \<Rightarrow> hop))"

record ip_target =
  address :: string
  target_type :: ip_type
  bits :: "int option"

definition parseIpTarget :: "string \<Rightarrow> ip_target option" where
  "parseIpTarget entry =
     (let ref = trim entry; slash = indexOf (CHR ''/'') ref;
          address = normalizeIp (case slash of None \<Rightarrow> ref | Some i \<Rightarrow> take i ref);
          family = isIP address
      in if family = 0 then None
         else let type = (if family = 6 then IPv6 else IPv4)
         in case slash of
              None \<Rightarrow> Some \<lparr>address = address, target_type = type, bits = None\<rparr>
            | Some i \<Rightarrow>
                let bitsRaw = drop (Suc i) ref
                in if \<not> digits13 bitsRaw then None
                   else let bits = dec_val bitsRaw
                   in if bits > (if family = 6 then 128 else 32) then None
                      else Some \<lparr>address = address, target_type = type, bits = Some bits\<rparr>)"

definition isIpOrCidrEntry :: "string \<Rightarrow> bool" where
  "isIpOrCidrEntry entry \<longleftrightarrow> parseIpTarget entry \<noteq> None"

definition parseTrustedProxies :: "string option \<Rightarrow> string list" where
  "parseTrustedProxies raw =
     filter (\<lambda>e. e \<noteq> []) (map trim (split_on (CHR '','') (case raw of None \<Rightarrow> [] | Some r \<Rightarrow> r)))"

definition invalidTrustedProxies :: "string option \<Rightarrow> string list" where
  "invalidTrustedProxies raw = filter (\<lambda>e. \<not> isIpOrCidrEntry e) (parseTrustedProxies raw)"

text \<open>
  \<open>ipMatches\<close>: an exact target is the subnet of full width; where Node throws, the \<open>catch\<close>
  answers false.
\<close>

definition ipMatches :: "string \<Rightarrow> string \<Rightarrow> bool" where
  "ipMatches ip target =
     (let candidate = normalizeIp (trim ip)
      in case parseIpTarget target of
           None \<Rightarrow> False
         | Some p \<Rightarrow>
             if isIP candidate \<noteq> (if target_type p = IPv6 then 6 else 4) then False
             else (case subnet_check (target_type p) (address p)
                          (case bits p of None \<Rightarrow> width (target_type p) | Some b \<Rightarrow> nat b) candidate of
                     None \<Rightarrow> False
                   | Some b \<Rightarrow> b))"

definition isTrusted :: "string list \<Rightarrow> string \<Rightarrow> bool" where
  "isTrusted trustedProxies ip \<longleftrightarrow> list_ex (\<lambda>proxy. ipMatches ip proxy) trustedProxies"

definition hops_of :: "string list \<Rightarrow> string list" where
  "hops_of forwarded =
     filter (\<lambda>h. h \<noteq> [])
       (map (\<lambda>hop. normalizeIp (stripHopPort (trim hop))) (split_on (CHR '','') (join_comma forwarded)))"

definition socket_ip :: "request_like \<Rightarrow> string" where
  "socket_ip req =
     normalizeIp (if truthy (remoteAddress req) then the (remoteAddress req)
                  else case req_ip req of Some ip \<Rightarrow> ip | None \<Rightarrow> [])"

text \<open>The walk from the right over the forwarded chain.\<close>

fun last_untrusted :: "(string \<Rightarrow> bool) \<Rightarrow> string list \<Rightarrow> string option" where
  "last_untrusted trusted [] = None"
| "last_untrusted trusted (h # hs) =
     (case last_untrusted trusted hs of
        Some x \<Rightarrow> Some x
      | None \<Rightarrow> if trusted h then None else Some h)"

definition resolveClientIp :: "request_like \<Rightarrow> string list \<Rightarrow> string" where
  "resolveClientIp req trustedProxies =
     (let socketIp = socket_ip req
      in if trustedProxies = [] then socketIp
         else if \<not> isTrusted trustedProxies socketIp then socketIp
         else if x_forwarded_for req = [] \<or> x_forwarded_for req = [[]] then socketIp
         else (case last_untrusted (isTrusted trustedProxies) (hops_of (x_forwarded_for req)) of
                 Some h \<Rightarrow> h
               | None \<Rightarrow> socketIp))"

section \<open>The address an allowlist or a rate limit sees\<close>

lemma last_untrusted_None: "last_untrusted t hs = None \<longleftrightarrow> list_all t hs"
  by (induction hs) (auto split: option.splits)

lemma Cons_split_at:
  "(\<exists>pre post. x # xs = pre @ h # post \<and> Q post) \<longleftrightarrow> (h = x \<and> Q xs) \<or> (\<exists>pre post. xs = pre @ h # post \<and> Q post)"
  (is "?l \<longleftrightarrow> ?r")
proof
  assume ?l
  then obtain pre post where "x # xs = pre @ h # post" "Q post"
    by blast
  then show ?r
    by (cases pre) auto
next
  assume ?r
  then show ?l
    by (metis append_Cons append_Nil)
qed

lemma last_untrusted_Some:
  "last_untrusted t hs = Some h \<longleftrightarrow> (\<exists>pre post. hs = pre @ h # post \<and> (\<not> t h \<and> list_all t post))"
proof (induction hs)
  case (Cons x hs)
  show ?case
  proof (cases "last_untrusted t hs")
    case None
    with Cons.IH have "\<not> (\<exists>pre post. hs = pre @ h # post \<and> (\<not> t h \<and> list_all t post))"
      by simp
    moreover have "list_all t hs"
      using None unfolding last_untrusted_None .
    ultimately show ?thesis
      unfolding Cons_split_at using None by auto
  next
    case (Some y)
    then have "\<not> list_all t hs"
      by (simp flip: last_untrusted_None)
    with Some Cons.IH show ?thesis
      unfolding Cons_split_at by simp
  qed
qed simp

text \<open>
  C19: What the IP allowlist and the rate limiter see of a client. When no proxy is configured or the
  peer is not one, it is the socket's address whatever the client wrote into X-Forwarded-For.
  Otherwise it is the hop of the chain that the rightmost run of trusted proxies vouches for: every
  hop to its right is trusted and it is not, and where every hop is trusted it is the socket's
  address. So text a client puts to the left of the hop its first trusted proxy appended never
  changes the answer.
\<close>

theorem client_ip_not_spoofable:
  "(\<not> isTrusted ps (socket_ip req) \<longrightarrow> resolveClientIp req ps = socket_ip req) \<and>
   (isTrusted ps (socket_ip req) \<longrightarrow>
      (list_all (isTrusted ps) (hops_of (x_forwarded_for req)) \<longrightarrow> resolveClientIp req ps = socket_ip req) \<and>
      (\<forall>spoofed h post. hops_of (x_forwarded_for req) = spoofed @ h # post \<and> \<not> isTrusted ps h \<and> list_all (isTrusted ps) post
         \<longrightarrow> resolveClientIp req ps = h))"
proof -
  have nil: "isTrusted ps (socket_ip req) \<Longrightarrow> ps \<noteq> []"
    by (auto simp: isTrusted_def)
  have empty: "hops_of [] = []" "hops_of [[]] = []"
    by code_simp+
  have "resolveClientIp req ps = h"
    if "isTrusted ps (socket_ip req)" "hops_of (x_forwarded_for req) = a @ h # b" "\<not> isTrusted ps h" "list_all (isTrusted ps) b"
    for a h b
  proof -
    have "last_untrusted (isTrusted ps) (hops_of (x_forwarded_for req)) = Some h"
      unfolding last_untrusted_Some using that(2-4) by blast
    moreover have "x_forwarded_for req \<noteq> []" "x_forwarded_for req \<noteq> [[]]"
      using that(2) empty by (metis append_is_Nil_conv list.distinct(1))+
    ultimately show ?thesis
      using that(1) nil by (simp add: resolveClientIp_def Let_def)
  qed
  moreover have "resolveClientIp req ps = socket_ip req"
    if "isTrusted ps (socket_ip req)" "list_all (isTrusted ps) (hops_of (x_forwarded_for req))"
    using that unfolding last_untrusted_None [symmetric] by (simp add: resolveClientIp_def Let_def)
  moreover have "\<not> isTrusted ps (socket_ip req) \<Longrightarrow> resolveClientIp req ps = socket_ip req"
    by (simp add: resolveClientIp_def Let_def)
  ultimately show ?thesis
    by blast
qed

theorem client_ip_not_spoofable_witness:
  "resolveClientIp \<lparr>req_ip = None, remoteAddress = Some ''::ffff:172.18.0.5'',
      x_forwarded_for = [''10.0.0.1, 203.0.113.7:51000, 172.18.0.9'']\<rparr> [''172.18.0.0/16''] = ''203.0.113.7''"
proof -
  let ?r = "\<lparr>req_ip = None, remoteAddress = Some ''::ffff:172.18.0.5'',
      x_forwarded_for = [''10.0.0.1, 203.0.113.7:51000, 172.18.0.9'']\<rparr>"
  have "isTrusted [''172.18.0.0/16''] (socket_ip ?r)"
    by code_simp
  moreover have "hops_of (x_forwarded_for ?r) = [''10.0.0.1''] @ ''203.0.113.7'' # [''172.18.0.9'']"
    by code_simp
  moreover have "\<not> isTrusted [''172.18.0.0/16''] ''203.0.113.7''" "list_all (isTrusted [''172.18.0.0/16'']) [''172.18.0.9'']"
    by code_simp+
  ultimately show ?thesis
    using client_ip_not_spoofable [of "[''172.18.0.0/16'']" ?r] by blast
qed

end
