(* ===== verification/Ssrf_Address.thy ===== *)
theory Ssrf_Address
  imports Ip
begin

text \<open>
  The address classifier of the guard on outbound requests, \<^verbatim>\<open>src/src/common/security/ssrf-guard.ts\<close>. It
  works on text as the code does (prefix test, expansion of a literal to eight hextets, the ladder
  of IPv4 embeddings, the block lists); the lemmas relate it to a classification of the 128-bit
  address. The fetch path built on it is in \<^verbatim>\<open>Ssrf_Fetch\<close>.
\<close>

section \<open>Printing numbers\<close>

text \<open>\<open>String(n)\<close> and \<open>n.toString(16)\<close> for \<open>n\<close> not negative.\<close>

definition digit_char :: "int \<Rightarrow> char" where
  "digit_char d = char_of (nat (if d < 10 then 48 + d else 87 + d))"

fun radix_digits :: "nat \<Rightarrow> int \<Rightarrow> int \<Rightarrow> string" where
  "radix_digits 0 r n = []"
| "radix_digits (Suc k) r n = (if n < r then [digit_char n] else radix_digits k r (n div r) @ [digit_char (n mod r)])"

text \<open>The numbers printed here are below \<open>2^16\<close>: five digits are enough in either radix.\<close>

definition dec_string :: "int \<Rightarrow> string" where
  "dec_string n = radix_digits 5 10 n"

definition hex_string :: "int \<Rightarrow> string" where
  "hex_string n = radix_digits 5 16 n"

section \<open>The address classifier\<close>

definition BLOCKED_V4_RANGES :: "(string \<times> nat) list" where
  "BLOCKED_V4_RANGES =
     [(''0.0.0.0'', 8), (''10.0.0.0'', 8), (''100.64.0.0'', 10), (''127.0.0.0'', 8), (''169.254.0.0'', 16),
      (''172.16.0.0'', 12), (''192.0.0.0'', 24), (''192.168.0.0'', 16), (''198.18.0.0'', 15),
      (''224.0.0.0'', 4), (''240.0.0.0'', 4)]"

definition BLOCKED_V6_RANGES :: "(string \<times> nat) list" where
  "BLOCKED_V6_RANGES =
     [(''::'', 128), (''::1'', 128), (''0000::'', 3), (''fc00::'', 7), (''fe80::'', 10), (''fec0::'', 10)]"

text \<open>A block list filled with \<open>addSubnet\<close>, asked with \<open>check(ip, type)\<close>.\<close>

definition blocklist_check :: "ip_type \<Rightarrow> (string \<times> nat) list \<Rightarrow> string \<Rightarrow> bool" where
  "blocklist_check t ranges ip = list_ex (\<lambda>(subnet, prefix). subnet_check t subnet prefix ip = Some True) ranges"

definition BLOCKED_V4 :: "string \<Rightarrow> bool" where
  "BLOCKED_V4 ip = blocklist_check IPv4 BLOCKED_V4_RANGES ip"

definition BLOCKED_V6 :: "string \<Rightarrow> bool" where
  "BLOCKED_V6 ip = blocklist_check IPv6 BLOCKED_V6_RANGES ip"

definition GLOBAL_UNICAST_V6 :: "string \<Rightarrow> bool" where
  "GLOBAL_UNICAST_V6 ip = blocklist_check IPv6 [(''2000::'', 3)] ip"

definition hextetsToV4 :: "int \<Rightarrow> int \<Rightarrow> string" where
  "hextetsToV4 hi lo =
     dec_string (hi div 256 mod 256) @ ''.'' @ dec_string (hi mod 256) @ ''.'' @
     dec_string (lo div 256 mod 256) @ ''.'' @ dec_string (lo mod 256)"

text \<open>
  The regular expression for a trailing dotted quad, unanchored on the left: the last three
  dot-separated parts are one to three digits and the part before them ends in a digit; the leftmost
  match takes up to three digits of it. The value is the text before the match and the four captures.
\<close>

definition trailing_digits :: "string \<Rightarrow> string" where
  "trailing_digits p = rev (takeWhile is_digit (take 3 (rev p)))"

definition dotted_tail :: "string \<Rightarrow> (string \<times> string list) option" where
  "dotted_tail s =
     (case rev (split_on (CHR ''.'') s) of
        d # c # b # p # _ \<Rightarrow>
          (let a = trailing_digits p
           in if a \<noteq> [] \<and> digits13 b \<and> digits13 c \<and> digits13 d
              then Some (take (length s - length a - length b - length c - length d - 3) s, [a, b, c, d]) else None)
      | _ \<Rightarrow> None)"

definition lower_hextet :: "string \<Rightarrow> int option" where
  "lower_hextet h =
     (if 1 \<le> length h \<and> length h \<le> 4 \<and> list_all (\<lambda>c. is_digit c \<or> (CHR ''a'' \<le> c \<and> c \<le> CHR ''f'')) h
      then Some (hex_val h) else None)"

text \<open>The pure-hex remainder of \<open>expandIPv6\<close>, after a dotted tail is folded into two hextets.\<close>

definition expand_hex :: "string \<Rightarrow> int list option" where
  "expand_hex s =
     (let halves = (case cut2 s of None \<Rightarrow> (s, None) | Some (h, t) \<Rightarrow> (h, Some t));
          head = colon_parts (fst halves);
          tail = (case snd halves of None \<Rightarrow> [] | Some t \<Rightarrow> colon_parts t);
          gap = 8 - int (length head) - int (length tail)
      in if (case snd halves of None \<Rightarrow> False | Some t \<Rightarrow> cut2 t \<noteq> None) then None
         else if (if snd halves = None then length head \<noteq> 8 else gap < 1) then None
         else let parts = head @ replicate (nat (max gap 0)) ''0'' @ tail
         in if length parts \<noteq> 8 then None
            else let nums = map lower_hextet parts
            in if list_ex (\<lambda>n. n = None) nums then None else Some (map the nums))"

definition expandIPv6 :: "string \<Rightarrow> int list option" where
  "expandIPv6 lower =
     (case dotted_tail lower of
        None \<Rightarrow> expand_hex lower
      | Some (pre, caps) \<Rightarrow>
          let octets = map dec_val caps
          in if list_ex (\<lambda>ob. ob > 255) octets then None
             else expand_hex (pre @ hex_string (256 * (octets ! 0) + octets ! 1) @ '':'' @
                                hex_string (256 * (octets ! 2) + octets ! 3)))"

text \<open>
  \<open>isBlockedAddress\<close>. Every recursive call is on a dotted quad, so the recursion is one level deep
  (the termination proof below).
\<close>

definition mapped_tail :: "string \<Rightarrow> string option" where
  "mapped_tail lower = (if take 7 lower = ''::ffff:'' then Some (drop 7 lower) else None)"

definition mapped_v4 :: "string \<Rightarrow> string option" where
  "mapped_v4 lower =
     (case mapped_tail lower of
        None \<Rightarrow> None
      | Some tail \<Rightarrow>
          if dotted_quad tail then Some tail
          else (case map lower_hextet (split_on (CHR '':'') tail) of
                  [Some hi, Some lo] \<Rightarrow> Some (hextetsToV4 hi lo)
                | _ \<Rightarrow> None))"

definition embedded_v4 :: "int list \<Rightarrow> string option" where
  "embedded_v4 hs =
     (if hs ! 0 = 0x2002 then Some (hextetsToV4 (hs ! 1) (hs ! 2))
      else if hs ! 0 = 0x64 \<and> hs ! 1 = 0xff9b \<and> hs ! 2 \<le> 1 \<and> hs ! 3 = 0 \<and> hs ! 4 = 0 \<and> hs ! 5 = 0
        then Some (hextetsToV4 (hs ! 6) (hs ! 7))
      else if list_all (\<lambda>h. h = 0) (take 6 hs) \<and> (hs ! 6 \<noteq> 0 \<or> hs ! 7 \<noteq> 0)
        then Some (hextetsToV4 (hs ! 6) (hs ! 7))
      else if hs ! 0 = 0 \<and> hs ! 1 = 0 \<and> hs ! 2 = 0 \<and> hs ! 3 = 0 \<and> hs ! 4 = 0xffff \<and> hs ! 5 = 0
        then Some (hextetsToV4 (hs ! 6) (hs ! 7))
      else if hs ! 0 = 0 \<and> hs ! 1 = 0 \<and> hs ! 2 = 0 \<and> hs ! 3 = 0 \<and> hs ! 4 = 0 \<and> hs ! 5 = 0xffff
        then Some (hextetsToV4 (hs ! 6) (hs ! 7))
      else None)"

text \<open>The IPv4 text the IPv6 branch recurses on, if any: the mapped prefix first, then the ladder.\<close>

definition inner_v4 :: "string \<Rightarrow> string option" where
  "inner_v4 lower =
     (case mapped_v4 lower of
        Some q \<Rightarrow> Some q
      | None \<Rightarrow> (case expandIPv6 lower of Some hs \<Rightarrow> embedded_v4 hs | None \<Rightarrow> None))"

section \<open>Splitting and cutting\<close>

lemma split_on_snoc_sep: "split_on c (p @ c # s) = split_on c p @ split_on c s"
  by (induction p) (auto split: list.splits)

lemma split_on_sep [simp]: "c \<notin> set p \<Longrightarrow> split_on c (p @ c # s) = p # split_on c s"
  by (simp add: split_on_snoc_sep)

lemma split_on_append_absent:
  assumes "split_on c s = p # ps" and "c \<notin> set x"
  shows "split_on c (x @ s) = (x @ p) # ps"
  using assms by (induction x) auto

lemma split_on_map:
  assumes "\<And>x. x \<in> set s \<Longrightarrow> f x = c \<longleftrightarrow> x = c"
  shows "split_on c (map f s) = map (map f) (split_on c s)"
  using assms by (induction s) (auto split: list.splits)

lemma split_on_members: "\<forall>p \<in> set (split_on c s). \<forall>x \<in> set p. x \<in> set s \<and> x \<noteq> c"
proof (induction s)
  case (Cons y s)
  then show ?case
    by (cases "split_on c s") auto
qed simp

lemma split_on_covers: "x \<in> set s \<Longrightarrow> x \<noteq> c \<Longrightarrow> \<exists>p \<in> set (split_on c s). x \<in> set p"
proof (induction s)
  case (Cons y s)
  then show ?case
    by (auto split: list.splits)
qed simp

lemma cut2_append:
  assumes "s = [] \<or> last s = CHR '':''" and "g \<noteq> []" and "hd g \<noteq> CHR '':''" and "cut2 g = None"
  shows "cut2 (s @ g) = map_option (\<lambda>(h, t). (h, t @ g)) (cut2 s)"
  using assms(1)
proof (induction s rule: cut2.induct)
  case (1 a b s)
  then show ?case
    by (auto simp: option.map_comp comp_def split_beta split: if_splits)
qed (insert assms(2-4), (cases g; simp)+)

lemma cut2_map:
  assumes "\<And>x. x \<in> set s \<Longrightarrow> f x = CHR '':'' \<longleftrightarrow> x = CHR '':''"
  shows "cut2 (map f s) = map_option (\<lambda>(h, t). (map f h, map f t)) (cut2 s)"
  using assms by (induction s rule: cut2.induct) (auto simp: option.map_comp comp_def split_beta)

lemma cut2_absent: "CHR '':'' \<notin> set s \<Longrightarrow> cut2 s = None"
  by (induction s rule: cut2.induct) auto

lemma cut2_Some: "cut2 s = Some (h, t) \<Longrightarrow> s = h @ '':'' @ '':'' @ t"
  by (induction s arbitrary: h t rule: cut2.induct) (auto split: if_splits)

section \<open>Digits\<close>

lemma is_digit_code: "is_digit c \<longleftrightarrow> 48 \<le> (of_char c :: nat) \<and> (of_char c :: nat) \<le> 57"
  by (auto simp: is_digit_def less_eq_char_def)

lemma is_hex_code: "is_hex c \<longleftrightarrow> (let n = (of_char c :: nat) in (48 \<le> n \<and> n \<le> 57) \<or> (97 \<le> n \<and> n \<le> 102) \<or> (65 \<le> n \<and> n \<le> 70))"
  by (auto simp: is_hex_def is_digit_code less_eq_char_def Let_def)

lemma of_char_int: "(of_char c :: int) = int (of_char c)"
  by (simp add: of_nat_of_char)

lemma hex_digit_val_code:
  "hex_digit_val c = (let n = (of_char c :: nat) in int n - (if 48 \<le> n \<and> n \<le> 57 then 48 else if n \<le> 70 then 55 else 87))"
  by (auto simp: hex_digit_val_def digit_val_def of_char_int is_digit_code less_eq_char_def Let_def)

lemma hex_lower:
  assumes "is_hex c"
  shows "is_digit (lower_char c) \<or> (CHR ''a'' \<le> lower_char c \<and> lower_char c \<le> CHR ''f'')"
    and "hex_digit_val (lower_char c) = hex_digit_val c" and "0 \<le> hex_digit_val c" and "hex_digit_val c < 16"
  using assms
  by (auto simp: is_hex_code is_digit_code less_eq_char_def lower_char_code hex_digit_val_code Let_def split: if_splits)

lemma lower_char_sep:
  "lower_char c = CHR '':'' \<longleftrightarrow> c = CHR '':''" "lower_char c = CHR ''.'' \<longleftrightarrow> c = CHR ''.''"
  "lower_char c = CHR ''%'' \<longleftrightarrow> c = CHR ''%''"
  by (auto simp: of_char_eq_iff [where ?'a = nat, symmetric] lower_char_code Let_def simp del: of_char_eq_iff split: if_splits)

lemma digit_char_code: "0 \<le> n \<Longrightarrow> n < 16 \<Longrightarrow> of_char (digit_char n) = (if n < 10 then 48 + nat n else 87 + nat n)"
  by (auto simp: digit_char_def nat_add_distrib)

lemma digit_char_hex:
  assumes "0 \<le> n" and "n < 16"
  shows "is_hex (digit_char n)" and "hex_digit_val (digit_char n) = n"
  using assms by (auto simp: is_hex_code hex_digit_val_code digit_char_code Let_def)

lemma digit_char_dec:
  assumes "0 \<le> n" and "n < 10"
  shows "is_digit (digit_char n)" and "digit_val (digit_char n) = n"
    and "digit_char n = CHR ''0'' \<longleftrightarrow> n = 0"
proof -
  show "is_digit (digit_char n)" "digit_val (digit_char n) = n"
    using assms by (auto simp: is_digit_code digit_val_def of_char_int digit_char_code)
  show "digit_char n = CHR ''0'' \<longleftrightarrow> n = 0"
    using assms by (auto simp: of_char_eq_iff [where ?'a = nat, symmetric] digit_char_code simp del: of_char_eq_iff)
qed

lemma is_hex_not_sep [simp]: "\<not> is_hex (CHR '':'')" "\<not> is_hex (CHR ''.'')" "\<not> is_hex (CHR ''%'')" "\<not> is_digit (CHR ''.'')"
   "\<not> is_digit (CHR ''%'')"
  by (auto simp: is_hex_code is_digit_code Let_def)

lemma dec_string_digits:
  assumes "0 \<le> n" and "n < 1000"
  shows "dec_string n =
    (if n < 10 then [digit_char n] else if n < 100 then [digit_char (n div 10), digit_char (n mod 10)]
     else [digit_char (n div 10 div 10), digit_char (n div 10 mod 10), digit_char (n mod 10)])"
proof -
  have "dec_string n = radix_digits (Suc (Suc (Suc (Suc (Suc 0))))) 10 n"
    by (simp add: dec_string_def eval_nat_numeral)
  moreover have "n div 10 div 10 < 10" "n div 10 < 10 \<longleftrightarrow> n < 100" "\<not> n < 100 \<Longrightarrow> \<not> n < 10"
    using assms by linarith+
  ultimately show ?thesis
    by simp
qed

lemma octet_digits:
  assumes "0 \<le> a" "a < 10" "0 \<le> b" "b < 10" "0 \<le> c" "c < 10"
  shows "octet [digit_char a] = Some a"
    and "a \<noteq> 0 \<Longrightarrow> octet [digit_char a, digit_char b] = Some (10 * a + b)"
    and "a \<noteq> 0 \<Longrightarrow> 10 * (10 * a + b) + c < 256 \<Longrightarrow>
           octet [digit_char a, digit_char b, digit_char c] = Some (10 * (10 * a + b) + c)"
  using assms digit_char_dec [of a] digit_char_dec [of b] digit_char_dec [of c]
  by (simp_all add: octet_def digits13_def dec_val_def)

lemma octet_dec_string:
  assumes "0 \<le> n" and "n < 256"
  shows "octet (dec_string n) = Some n"
proof -
  consider "n < 10" | "10 \<le> n" "n < 100" | "100 \<le> n"
    by linarith
  then show ?thesis
  proof cases
    case 1
    with assms octet_digits(1) [of n 0 0] show ?thesis
      by (simp add: dec_string_digits)
  next
    case 2
    have "octet [digit_char (n div 10), digit_char (n mod 10)] = Some (10 * (n div 10) + n mod 10)"
      by (rule octet_digits(2) [where c = 0]) (use 2 in linarith)+
    with 2 show ?thesis
      by (simp add: dec_string_digits)
  next
    case 3
    have n: "10 * (10 * (n div 10 div 10) + n div 10 mod 10) + n mod 10 = n"
      by presburger
    have "octet [digit_char (n div 10 div 10), digit_char (n div 10 mod 10), digit_char (n mod 10)] = Some n"
      using octet_digits(3) [of "n div 10 div 10" "n div 10 mod 10" "n mod 10"] 3 assms unfolding n by linarith
    with 3 assms show ?thesis
      by (simp add: dec_string_digits)
  qed
qed

lemma octet_digits_only: "octet s = Some n \<Longrightarrow> list_all is_digit s \<and> 1 \<le> length s \<and> length s \<le> 3 \<and> dec_val s = n \<and> n \<le> 255"
  by (auto simp: octet_def digits13_def split: if_splits)

lemma digits_no_sep: "list_all is_digit s \<Longrightarrow> CHR ''.'' \<notin> set s \<and> CHR '':'' \<notin> set s \<and> CHR ''%'' \<notin> set s \<and> toLowerCase s = s"
  by (auto simp: list_all_iff toLowerCase_fix_iff is_digit_props)

section \<open>IPv4 and hextet text\<close>

lemma split_on_join: "s = hd (split_on c s) @ concat (map (\<lambda>q. c # q) (tl (split_on c s)))"
proof (induction s)
  case (Cons x s)
  obtain p ps where "split_on c s = p # ps"
    by (cases "split_on c s") auto
  with Cons.IH show ?case
    by simp
qed simp

lemma ipv4_value_Some:
  assumes "ipv4_value g = Some v"
  obtains a b c d x y z w where "g = a @ ''.'' @ b @ ''.'' @ c @ ''.'' @ d"
    and "octet a = Some x" "octet b = Some y" "octet c = Some z" "octet d = Some w"
    and "v = ((x * 256 + y) * 256 + z) * 256 + w"
proof -
  obtain x y z w where m: "map octet (split_on (CHR ''.'') g) = [Some x, Some y, Some z, Some w]"
    and v: "v = ((x * 256 + y) * 256 + z) * 256 + w"
    using assms unfolding ipv4_value_def by (auto split: list.splits option.splits)
  then obtain a b c d where s: "split_on (CHR ''.'') g = [a, b, c, d]"
    and o: "octet a = Some x" "octet b = Some y" "octet c = Some z" "octet d = Some w"
    by auto
  show thesis
    using split_on_join [of g "CHR ''.''"] s o v by (intro that) auto
qed

lemma ipv4_value_quad:
  assumes "octet a = Some x" "octet b = Some y" "octet c = Some z" "octet d = Some w"
  shows "ipv4_value (a @ ''.'' @ b @ ''.'' @ c @ ''.'' @ d) = Some (((x * 256 + y) * 256 + z) * 256 + w)"
proof -
  have "CHR ''.'' \<notin> set a" "CHR ''.'' \<notin> set b" "CHR ''.'' \<notin> set c" "CHR ''.'' \<notin> set d"
    using assms by (meson octet_digits_only digits_no_sep)+
  then show ?thesis
    using assms by (simp add: ipv4_value_def)
qed

lemma hextetsToV4_raw:
  "ipv4_value (hextetsToV4 hi lo) =
     Some (((hi div 256 mod 256 * 256 + hi mod 256) * 256 + lo div 256 mod 256) * 256 + lo mod 256)"
  unfolding hextetsToV4_def
  by (rule ipv4_value_quad; rule octet_dec_string) simp_all

lemma hextetsToV4_value:
  assumes "0 \<le> hi" "hi < 65536" "0 \<le> lo" "lo < 65536"
  shows "ipv4_value (hextetsToV4 hi lo) = Some (hi * 65536 + lo)"
proof -
  have split: "(((a * 256 + b) * 256 + c) * 256 + d = hi * 65536 + lo)" if "hi = 256 * a + b" "lo = 256 * c + d" for a b c d
    using that by simp
  have "hi div 256 mod 256 = hi div 256" "lo div 256 mod 256 = lo div 256"
    using assms by (auto intro!: mod_pos_pos_trivial pos_imp_zdiv_nonneg_iff [THEN iffD2])
  then have "((hi div 256 mod 256 * 256 + hi mod 256) * 256 + lo div 256 mod 256) * 256 + lo mod 256 = hi * 65536 + lo"
    by (intro split) simp_all
  then show ?thesis
    unfolding hextetsToV4_raw by (rule arg_cong)
qed

lemma isIPv4_hextetsToV4: "isIPv4 (hextetsToV4 hi lo)"
  by (simp add: isIPv4_def hextetsToV4_raw del: mod_mult_self1)

lemma foldl_hex_bound:
  assumes "list_all is_hex s" and "0 \<le> n"
  shows "0 \<le> foldl (\<lambda>n c. 16 * n + hex_digit_val c) n s
       \<and> foldl (\<lambda>n c. 16 * n + hex_digit_val c) n s < (n + 1) * 16 ^ length s"
  using assms
proof (induction s arbitrary: n)
  case (Cons c s)
  then have c: "0 \<le> hex_digit_val c" "hex_digit_val c < 16"
    by (auto intro: hex_lower)
  have "0 \<le> 16 * n + hex_digit_val c" "16 * n + hex_digit_val c + 1 \<le> 16 * (n + 1)"
    using c Cons.prems by auto
  with Cons.IH [of "16 * n + hex_digit_val c"] Cons.prems
  show ?case
    by (auto intro: order.strict_trans2 mult_right_mono simp: algebra_simps)
qed simp

lemma hextet_bound:
  assumes "hextet h = Some n"
  shows "0 \<le> n" and "n < 65536"
proof -
  have h: "list_all is_hex h" "length h \<le> 4" "n = hex_val h"
    using assms by (auto simp: hextet_def split: if_splits)
  then have "0 \<le> n" "n < 16 ^ length h"
    using foldl_hex_bound [of h 0] by (auto simp: hex_val_def)
  moreover have "(16 :: int) ^ length h \<le> 16 ^ 4"
    using h by (intro power_increasing) auto
  ultimately show "0 \<le> n" and "n < 65536"
    by simp_all
qed

lemma lower_hextet_of:
  assumes "hextet h = Some n"
  shows "lower_hextet (toLowerCase h) = Some n"
proof -
  have "list_all is_hex h"
    using assms by (auto simp: hextet_def split: if_splits)
  then have "foldl (\<lambda>n c. 16 * n + hex_digit_val c) m (map lower_char h) = foldl (\<lambda>n c. 16 * n + hex_digit_val c) m h" for m
    by (induction h arbitrary: m) (auto simp: hex_lower)
  then have "hex_val (toLowerCase h) = hex_val h"
    by (simp add: hex_val_def toLowerCase_def)
  with assms show ?thesis
    by (auto simp: hextet_def lower_hextet_def toLowerCase_def list_all_iff hex_lower split: if_splits)
qed

lemma lower_hextet_hextet: "lower_hextet h = Some n \<Longrightarrow> hextet h = Some n"
  by (auto simp: hextet_def lower_hextet_def is_hex_def list_all_iff split: if_splits)

lemma radix16_val:
  assumes "0 \<le> n" and "n < 16 ^ k" and "0 < k"
  shows "list_all is_hex (radix_digits k 16 n) \<and> radix_digits k 16 n \<noteq> [] \<and> length (radix_digits k 16 n) \<le> k
       \<and> hex_val (radix_digits k 16 n) = n"
  using assms
proof (induction k arbitrary: n)
  case (Suc k)
  show ?case
  proof (cases "n < 16")
    case True
    with Suc.prems show ?thesis
      by (simp add: digit_char_hex hex_val_def)
  next
    case False
    with Suc.prems have "0 \<le> n div 16" "n div 16 < 16 ^ k" "0 < k"
      by (auto simp: div_less_iff_less_mult mult.commute intro: Suc.prems gr0I)
    note IH = Suc.IH [OF this]
    have "16 * (n div 16) + n mod 16 = n"
      by simp
    with IH False show ?thesis
      by (simp add: digit_char_hex hex_val_def)
  qed
qed simp

lemma radix16_length: "0 \<le> n \<Longrightarrow> n < 16 ^ j \<Longrightarrow> 0 < j \<Longrightarrow> length (radix_digits k 16 n) \<le> j"
proof (induction k arbitrary: n j)
  case (Suc k)
  show ?case
  proof (cases "n < 16")
    case False
    with Suc.prems obtain i where j: "j = Suc i" "0 < i"
      by (cases j; cases "j - 1") auto
    with False Suc.prems have "0 \<le> n div 16" "n div 16 < 16 ^ i"
      by (auto simp: div_less_iff_less_mult mult.commute)
    with Suc.IH j have "length (radix_digits k 16 (n div 16)) \<le> i"
      by blast
    with False j show ?thesis
      by simp
  qed (use Suc.prems in simp)
qed simp

lemma hextet_hex_string:
  assumes "0 \<le> n" and "n < 65536"
  shows "hextet (hex_string n) = Some n"
  using radix16_val [of n 5] radix16_length [of n 4 5] assms
  by (simp add: hextet_def hex_string_def Suc_le_eq)

lemma hextet_chars: "hextet h = Some n \<Longrightarrow> h \<noteq> [] \<and> list_all is_hex h"
  by (auto simp: hextet_def split: if_splits)

lemma hex_no_sep: "list_all is_hex h \<Longrightarrow> CHR '':'' \<notin> set h \<and> CHR ''.'' \<notin> set h \<and> CHR ''%'' \<notin> set h"
  by (auto simp: list_all_iff)

lemma hextet_no_sep: "hextet h = Some n \<Longrightarrow> CHR '':'' \<notin> set h \<and> CHR ''.'' \<notin> set h \<and> CHR ''%'' \<notin> set h"
  using hextet_chars hex_no_sep by blast

section \<open>IPv6 literals\<close>

lemma groups_False_Cons:
  "groups False (q # qs) = (case (hextet q, groups False qs) of (Some n, Some ns) \<Rightarrow> Some (n # ns) | _ \<Rightarrow> None)"
  by (cases qs) (auto split: option.splits)

lemma groups_False: "groups False ps = Some ns \<longleftrightarrow> map hextet ps = map Some ns"
proof (induction ps arbitrary: ns)
  case (Cons p ps)
  then show ?case
    unfolding groups_False_Cons by (cases ns; cases "hextet p"; cases "groups False ps") auto
qed auto

lemma groups_snoc:
  "groups True (qs @ [g]) =
     (case (groups False qs, groups True [g]) of (Some a, Some b) \<Rightarrow> Some (a @ b) | _ \<Rightarrow> None)"
proof (induction qs)
  case (Cons q qs)
  obtain r rs where "qs @ [g] = r # rs"
    by (cases "qs @ [g]") auto
  then have "groups True ((q # qs) @ [g]) =
      (case (hextet q, groups True (qs @ [g])) of (Some n, Some ns) \<Rightarrow> Some (n # ns) | _ \<Rightarrow> None)"
    by simp
  then show ?case
    unfolding Cons.IH groups_False_Cons by (auto split: option.splits)
qed (auto split: option.splits)

lemma ipv4_has_dot: "ipv4_value g = Some v \<Longrightarrow> CHR ''.'' \<in> set g"
  by (erule ipv4_value_Some) auto

lemma groups_no_dot:
  assumes "groups d ps = Some ns" and "\<forall>p \<in> set ps. CHR ''.'' \<notin> set p"
  shows "map hextet ps = map Some ns"
  using assms
proof (induction d ps arbitrary: ns rule: groups.induct)
  case (2 d g)
  then show ?case
    using ipv4_has_dot by (auto split: option.splits if_splits)
qed (auto split: option.splits)

lemma colon_parts_lower: "colon_parts (toLowerCase s) = map toLowerCase (colon_parts s)"
  by (simp add: colon_parts_def toLowerCase_def split_on_map lower_char_sep)

lemma cut2_lower: "cut2 (toLowerCase s) = map_option (\<lambda>(h, t). (toLowerCase h, toLowerCase t)) (cut2 s)"
  by (simp add: toLowerCase_def cut2_map lower_char_sep)

lemma lower_hextets: "map hextet ps = map Some ns \<Longrightarrow> map lower_hextet (map toLowerCase ps) = map Some ns"
proof (induction ps arbitrary: ns)
  case (Cons p ps)
  then show ?case
    by (cases ns) (auto simp: lower_hextet_of)
qed simp

lemma lower_hextet_zero: "lower_hextet ''0'' = Some 0"
  by code_simp

lemma colon_parts_no_dot: "CHR ''.'' \<notin> set s \<Longrightarrow> \<forall>p \<in> set (colon_parts s). CHR ''.'' \<notin> set p"
  using split_on_members [of "CHR '':''" s] by (auto simp: colon_parts_def)

lemma expand_hex_groups:
  assumes "ipv6_groups s = Some hs" and "CHR ''.'' \<notin> set s"
  shows "expand_hex (toLowerCase s) = Some hs"
proof (cases "cut2 s")
  case None
  then have s: "s \<noteq> []" "length hs = 8" and g: "groups True (colon_parts s) = Some hs"
    using assms(1) by (auto simp: ipv6_groups_def colon_parts_def split: option.splits if_splits)
  have h: "map hextet (colon_parts s) = map Some hs"
    by (rule groups_no_dot [OF g colon_parts_no_dot [OF assms(2)]])
  then have "length (colon_parts s) = 8"
    using s by (metis length_map)
  with None s lower_hextets [OF h] show ?thesis
    by (simp add: expand_hex_def cut2_lower colon_parts_lower list_ex_iff)
next
  case (Some ht)
  obtain h t where ht: "ht = (h, t)"
    by fastforce
  have st: "s = h @ '':'' @ '':'' @ t"
    using Some ht cut2_Some by blast
  obtain a b where g: "groups False (colon_parts h) = Some a" "groups True (colon_parts t) = Some b"
    and l: "length a + length b \<le> 7" "hs = a @ replicate (8 - length a - length b) 0 @ b" and c: "cut2 t = None"
    using assms(1) Some ht by (cases "cut2 t") (auto simp: ipv6_groups_def split: option.splits if_splits)
  have m: "map hextet (colon_parts h) = map Some a" "map hextet (colon_parts t) = map Some b"
    using g assms(2) st by (auto intro!: groups_no_dot colon_parts_no_dot)
  then have len: "length (colon_parts h) = length a" "length (colon_parts t) = length b"
    by (metis length_map)+
  have gap: "nat (8 - int (length a) - int (length b)) = 8 - length a - length b"
    using l(1) by linarith
  have nums: "map lower_hextet (map toLowerCase (colon_parts h) @ replicate (8 - length a - length b) ''0'' @
      map toLowerCase (colon_parts t)) = map Some hs"
    using lower_hextets [OF m(1)] lower_hextets [OF m(2)] l(2) lower_hextet_zero by simp
  have "length hs = 8"
    using l by simp
  then show ?thesis
    using Some ht c len gap nums l(1)
    by (simp add: expand_hex_def cut2_lower colon_parts_lower list_ex_iff Let_def max_def)
qed

section \<open>Folding a dotted tail\<close>

lemma cut2_one_colon: "CHR '':'' \<notin> set p \<Longrightarrow> cut2 (p @ '':'') = None"
proof (induction p)
  case (Cons a p)
  then show ?case
    by (cases "p @ '':''") auto
qed simp

lemma split_on_tail:
  assumes "s = [] \<or> last s = c"
  shows "\<exists>init. \<forall>g. split_on c (s @ g) = init @ split_on c g"
proof (cases s rule: rev_cases)
  case (snoc t x)
  with assms show ?thesis
    by (intro exI [of _ "split_on c t"]) (simp add: split_on_snoc_sep)
qed (auto intro: exI [of _ "[]"])

lemma groups_fold_dotted:
  assumes "groups True (init @ [g]) = Some ns" and "ipv4_value g = Some v" and "hextet g = None"
    and "hextet p = Some (v div 65536)" and "hextet q = Some (v mod 65536)"
  shows "groups True (init @ [p, q]) = Some ns"
proof -
  obtain a where a: "groups False init = Some a" "ns = a @ [v div 65536, v mod 65536]"
    using assms(1-3) unfolding groups_snoc by (auto split: option.splits)
  then have "groups False (init @ [p]) = Some (a @ [v div 65536])"
    using assms(4) by (simp add: groups_False)
  then have "groups True ((init @ [p]) @ [q]) = Some ns"
    using assms(5) a(2) unfolding groups_snoc by simp
  then show ?thesis
    by simp
qed

lemma ipv6_groups_fold_dotted:
  assumes "ipv6_groups (s @ g) = Some hs" and v: "ipv4_value g = Some v" "hextet g = None" and s: "s \<noteq> []" "last s = CHR '':''"
    and g: "CHR '':'' \<notin> set g" "g \<noteq> []"
    and pq: "hextet p = Some (v div 65536)" "hextet q = Some (v mod 65536)"
  shows "ipv6_groups (s @ p @ '':'' @ q) = Some hs"
proof -
  define w where "w = p @ '':'' @ q"
  have p: "p \<noteq> []" "CHR '':'' \<notin> set p" "CHR '':'' \<notin> set q" "q \<noteq> []"
    using pq hextet_chars hextet_no_sep by blast+
  then have pc: "split_on (CHR '':'') w = [p, q]" and "hd w \<noteq> CHR '':''" and "w \<noteq> []"
    by (auto simp: neq_Nil_conv w_def)
  moreover have cp: "cut2 w = None"
  proof -
    have "hd q \<noteq> CHR '':''"
      using p hd_in_set by metis
    then show ?thesis
      using cut2_append [of "p @ '':''" q] p cut2_absent [of q] cut2_one_colon [of p] by (simp add: w_def)
  qed
  ultimately have cut': "cut2 (t @ w) = map_option (\<lambda>(h, u). (h, u @ w)) (cut2 t)" 
    if "t = [] \<or> last t = CHR '':''" for t
    using cut2_append [OF that, of w] by simp
  have cut: "cut2 (t @ g) = map_option (\<lambda>(h, u). (h, u @ g)) (cut2 t)" if "t = [] \<or> last t = CHR '':''" for t
    using cut2_append [OF that g(2)] g cut2_absent [OF g(1)] hd_in_set [OF g(2)] by metis
  have fold: "groups True (split_on (CHR '':'') (t @ w)) = Some ns"
    if t: "t = [] \<or> last t = CHR '':''" and gr: "groups True (split_on (CHR '':'') (t @ g)) = Some ns" for t ns
  proof -
    obtain init where i: "\<And>g. split_on (CHR '':'') (t @ g) = init @ split_on (CHR '':'') g"
      using split_on_tail [OF t] by blast
    from gr have "groups True (init @ [g]) = Some ns"
      unfolding i using g by simp
    from groups_fold_dotted [OF this v pq] show ?thesis
      unfolding i pc .
  qed
  have "ipv6_groups (s @ w) = Some hs"
  proof (cases "cut2 s")
    case None
    then show "ipv6_groups (s @ w) = Some hs"
      using assms(1) fold [of s hs] s by (auto simp: ipv6_groups_def cut cut' split: option.splits if_splits)
  next
    case (Some ht)
    obtain h t where ht: "cut2 s = Some (h, t)"
      using Some by fastforce
    then have t: "t = [] \<or> last t = CHR '':''"
      using s cut2_Some [OF ht] by (auto split: if_splits)
    have ne: "t @ g \<noteq> []" "t @ w \<noteq> []"
      using g \<open>w \<noteq> []\<close> by auto
    obtain a b where ab: "groups False (colon_parts h) = Some a" "groups True (split_on (CHR '':'') (t @ g)) = Some b"
      "length a + length b \<le> 7" "hs = a @ replicate (8 - length a - length b) 0 @ b" "cut2 t = None"
      using assms(1) ht s t ne by (cases "cut2 t") (auto simp: ipv6_groups_def cut colon_parts_def split: option.splits if_splits)
    then show "ipv6_groups (s @ w) = Some hs"
      using fold [OF t ab(2)] ht s t ne cut' [of s] cut' [OF t] \<open>w \<noteq> []\<close>
      by (auto simp: ipv6_groups_def colon_parts_def split: option.splits)
  qed
  then show ?thesis
    by (simp add: w_def)
qed

lemma split_on_last:
  assumes "split_on c t = init @ [g]"
  obtains u where "t = u @ g" "u = [] \<or> last u = c" "c \<notin> set g" "u = [] \<longleftrightarrow> init = []"
    "\<And>x. x \<in> set u \<Longrightarrow> x \<noteq> c \<Longrightarrow> \<exists>p \<in> set init. x \<in> set p"
proof (cases "c \<in> set t")
  case False
  then show thesis
    using assms by (intro that [of "[]"]) auto
next
  case True
  then obtain u g' where t: "t = u @ c # g'" "c \<notin> set g'"
    by (meson split_list_last)
  then have "init = split_on c u" "g = g'"
    using assms by (auto simp: split_on_snoc_sep)
  with t show thesis
    by (intro that [of "u @ [c]"]) (auto intro: split_on_covers)
qed

lemma groups_dotted:
  assumes "groups True ps = Some ns" and "\<exists>p \<in> set ps. CHR ''.'' \<in> set p"
  obtains init g v where "ps = init @ [g]" "ipv4_value g = Some v" "hextet g = None" "\<forall>p \<in> set init. CHR ''.'' \<notin> set p"
proof -
  obtain init g where ps: "ps = init @ [g]"
    using assms by (cases ps rule: rev_cases) auto
  then obtain a where a: "groups False init = Some a" and g: "groups True [g] \<noteq> None"
    using assms(1) unfolding ps groups_snoc by (auto split: option.splits)
  have init: "\<forall>p \<in> set init. CHR ''.'' \<notin> set p"
  proof
    fix p assume "p \<in> set init"
    then have "hextet p \<in> set (map Some a)"
      using a unfolding groups_False by (metis image_eqI set_map)
    then show "CHR ''.'' \<notin> set p"
      using hextet_no_sep by auto
  qed
  then have "hextet g = None"
    using assms(2) ps hextet_no_sep by (cases "hextet g") auto
  with g init ps show thesis
    by (auto intro!: that split: option.splits)
qed

lemma groups_False_no_dot:
  assumes "groups False (colon_parts h) = Some a"
  shows "CHR ''.'' \<notin> set h"
proof
  assume "CHR ''.'' \<in> set h"
  then obtain p where "p \<in> set (colon_parts h)" "CHR ''.'' \<in> set p"
    using split_on_covers [of "CHR ''.''" h "CHR '':''"] by (cases "h = []") (auto simp: colon_parts_def)
  then have "hextet p \<in> set (map Some a)"
    using assms unfolding groups_False by (metis image_eqI set_map)
  then show False
    using \<open>CHR ''.'' \<in> set p\<close> hextet_no_sep by auto
qed

lemma ipv6_dotted_shape:
  assumes "ipv6_groups s = Some hs" and "CHR ''.'' \<in> set s"
  obtains x g v where "s = x @ g" "x \<noteq> []" "last x = CHR '':''" "CHR ''.'' \<notin> set x" "CHR '':'' \<notin> set g"
    "ipv4_value g = Some v" "hextet g = None"
proof (cases "cut2 s")
  case None
  then have gr: "groups True (split_on (CHR '':'') s) = Some hs" "length hs = 8"
    using assms(1) by (auto simp: ipv6_groups_def split: option.splits if_splits)
  from groups_dotted [OF gr(1) split_on_covers [OF assms(2)]] obtain init g v
    where i: "split_on (CHR '':'') s = init @ [g]" "ipv4_value g = Some v" "hextet g = None" "\<forall>p \<in> set init. CHR ''.'' \<notin> set p"
    by auto
  have "init \<noteq> []"
    using gr i by (auto split: option.splits)
  obtain u where u: "s = u @ g" "u = [] \<or> last u = CHR '':''" "CHR '':'' \<notin> set g" "u = [] \<longleftrightarrow> init = []"
    "\<And>x. x \<in> set u \<Longrightarrow> x \<noteq> CHR '':'' \<Longrightarrow> \<exists>p \<in> set init. x \<in> set p"
    using split_on_last [OF i(1)] by blast
  from u(5) [of "CHR ''.''"] i(4) have "CHR ''.'' \<notin> set u"
    by auto
  with u \<open>init \<noteq> []\<close> i show thesis
    by (intro that) auto
next
  case (Some ht)
  obtain h t where c: "cut2 s = Some (h, t)"
    using Some by fastforce
  note st = cut2_Some [OF c]
  obtain a b where gr: "groups False (colon_parts h) = Some a" "groups True (colon_parts t) = Some b"
    using assms(1) c by (auto simp: ipv6_groups_def split: option.splits if_splits)
  then have "CHR ''.'' \<in> set t"
    using assms(2) st groups_False_no_dot by auto
  then have ne: "colon_parts t = split_on (CHR '':'') t"
    by (auto simp: colon_parts_def)
  from groups_dotted [OF gr(2)] split_on_covers [OF \<open>CHR ''.'' \<in> set t\<close>] obtain init g v
    where i: "split_on (CHR '':'') t = init @ [g]" "ipv4_value g = Some v" "hextet g = None" "\<forall>p \<in> set init. CHR ''.'' \<notin> set p"
    unfolding ne by auto
  obtain u where u: "t = u @ g" "u = [] \<or> last u = CHR '':''" "CHR '':'' \<notin> set g" "u = [] \<longleftrightarrow> init = []"
    and cov: "\<And>x. x \<in> set u \<Longrightarrow> x \<noteq> CHR '':'' \<Longrightarrow> \<exists>p \<in> set init. x \<in> set p"
    using split_on_last [OF i(1)] by blast
  from cov [of "CHR ''.''"] i(4) have "CHR ''.'' \<notin> set u"
    by auto
  show thesis
    using st u i groups_False_no_dot [OF gr(1)] \<open>CHR ''.'' \<notin> set u\<close> by (intro that [of "h @ '':'' @ '':'' @ u" g v]) auto
qed

lemma trailing_digits_append:
  assumes "list_all is_digit a" "length a \<le> 3" "x \<noteq> []" "\<not> is_digit (last x)"
  shows "trailing_digits (x @ a) = a"
proof -
  obtain y c where x: "x = y @ [c]" "\<not> is_digit c"
    using assms by (cases x rule: rev_cases) auto
  have "takeWhile is_digit (take 3 (rev a @ c # rev y)) = rev a"
    using assms x by (cases "3 - length a") (auto simp: takeWhile_append list_all_iff)
  then show ?thesis
    by (simp add: trailing_digits_def x)
qed

lemma dotted_tail_append:
  assumes "x \<noteq> []" "last x = CHR '':''" "CHR ''.'' \<notin> set x"
    and "octet a = Some p" "octet b = Some q" "octet c = Some r" "octet d = Some w"
  shows "dotted_tail (x @ a @ ''.'' @ b @ ''.'' @ c @ ''.'' @ d) = Some (x, [a, b, c, d])"
proof -
  have o: "CHR ''.'' \<notin> set z \<and> digits13 z" if "octet z = Some n" for z n
    using octet_digits_only [OF that] digits_no_sep [of z] by (auto simp: digits13_def)
  have "split_on (CHR ''.'') (a @ ''.'' @ b @ ''.'' @ c @ ''.'' @ d) = [a, b, c, d]"
    using o assms(4-7) by simp
  then have "split_on (CHR ''.'') (x @ a @ ''.'' @ b @ ''.'' @ c @ ''.'' @ d) = [x @ a, b, c, d]"
    using assms(3) by (rule split_on_append_absent)
  moreover have "trailing_digits (x @ a) = a" "a \<noteq> []"
    using assms octet_digits_only [OF assms(4)] trailing_digits_append [of a x] by auto
  ultimately show ?thesis
    using o assms(4-7) by (simp add: dotted_tail_def Let_def)
qed

lemma octet_nonneg: "octet s = Some n \<Longrightarrow> 0 \<le> n"
proof -
  have "0 \<le> m \<Longrightarrow> list_all is_digit s \<Longrightarrow> 0 \<le> foldl (\<lambda>n c. 10 * n + digit_val c) m s" for m
    by (induction s arbitrary: m) (auto simp: digit_val_def of_char_int is_digit_code)
  then show "octet s = Some n \<Longrightarrow> 0 \<le> n"
    by (auto simp: octet_def dec_val_def digits13_def split: if_splits)
qed

lemma radix16_lower: "0 \<le> n \<Longrightarrow> toLowerCase (radix_digits k 16 n) = radix_digits k 16 n"
proof (induction k arbitrary: n)
  case (Suc k)
  have "lower_char (digit_char d) = digit_char d" if "0 \<le> d" "d < 16" for d
  proof -
    have "(of_char (lower_char (digit_char d)) :: nat) = of_char (digit_char d)"
      using that by (auto simp: lower_char_code digit_char_code Let_def)
    then show ?thesis
      by (simp only: of_char_eq_iff)
  qed
  with Suc show ?case
    by (auto simp: toLowerCase_def)
qed (simp add: toLowerCase_def)

lemma lower_dot: "lower_char (CHR ''.'') = CHR ''.''"
  by (simp add: lower_char_sep)

lemma in_toLowerCase:
  assumes "\<And>x. lower_char x = c \<longleftrightarrow> x = c"
  shows "c \<in> set (toLowerCase s) \<longleftrightarrow> c \<in> set s"
proof -
  have "(c = lower_char x) = (x = c)" for x
    using assms [of x] by metis
  then show ?thesis
    by (auto simp: toLowerCase_def image_iff)
qed

lemmas no_dot_lower = in_toLowerCase [OF lower_char_sep(2)]

lemmas no_zone_lower = in_toLowerCase [OF lower_char_sep(3)]

lemma lower_colon: "toLowerCase '':'' = '':''"
  by (simp add: toLowerCase_def lower_char_sep)

lemma ipv4_lower: "ipv4_value g = Some v \<Longrightarrow> toLowerCase g = g"
proof (erule ipv4_value_Some)
  fix a b c d p q r w
  assume g: "g = a @ ''.'' @ b @ ''.'' @ c @ ''.'' @ d"
    and o: "octet a = Some p" "octet b = Some q" "octet c = Some r" "octet d = Some w"
  show "toLowerCase g = g"
    using o [THEN octet_digits_only] digits_no_sep [of a] digits_no_sep [of b] digits_no_sep [of c] digits_no_sep [of d] lower_dot
    by (simp add: g) (simp add: toLowerCase_def)
qed

lemma groups_lower: "groups d ps = Some ns \<Longrightarrow> groups d (map toLowerCase ps) = Some ns"
proof (induction d ps arbitrary: ns rule: groups.induct)
  case (2 d g)
  then show ?case
    using lower_hextet_hextet [OF lower_hextet_of, of g] ipv4_lower [of g] by (auto split: option.splits if_splits)
next
  case (3 d g h gs)
  then show ?case
    using lower_hextet_hextet [OF lower_hextet_of, of g] by (auto split: option.splits)
qed simp

lemma ipv6_groups_lower: "ipv6_groups s = Some hs \<Longrightarrow> ipv6_groups (toLowerCase s) = Some hs"
proof -
  have split: "split_on (CHR '':'') (toLowerCase s) = map toLowerCase (split_on (CHR '':'') s)"
    by (simp add: toLowerCase_def split_on_map lower_char_sep)
  assume g: "ipv6_groups s = Some hs"
  show ?thesis
  proof (cases "cut2 s")
    case None
    with g show ?thesis
      by (auto simp: ipv6_groups_def split cut2_lower dest: groups_lower split: option.splits if_splits)
  next
    case (Some ht)
    then obtain h t where c: "cut2 s = Some (h, t)"
      by fastforce
    obtain a b where ab: "groups False (colon_parts h) = Some a" "groups True (colon_parts t) = Some b"
      "length a + length b \<le> 7" "hs = a @ replicate (8 - length a - length b) 0 @ b" "cut2 t = None"
      using g c by (cases "cut2 t") (auto simp: ipv6_groups_def split: option.splits if_splits)
    with c groups_lower [OF ab(1)] groups_lower [OF ab(2)] show ?thesis
      by (simp add: ipv6_groups_def cut2_lower colon_parts_lower)
  qed
qed

lemma expandIPv6_groups:
  assumes "ipv6_groups s = Some hs"
  shows "expandIPv6 (toLowerCase s) = Some hs"
proof (cases "CHR ''.'' \<in> set s")
  case False
  then have "CHR ''.'' \<notin> set (toLowerCase s)"
    by (simp add: no_dot_lower)
  then have "dotted_tail (toLowerCase s) = None"
    by (simp add: dotted_tail_def)
  with expand_hex_groups [OF assms False] show ?thesis
    by (simp add: expandIPv6_def)
next
  case True
  from ipv6_dotted_shape [OF assms True] obtain x g v where s: "s = x @ g" "x \<noteq> []" "last x = CHR '':''"
    "CHR ''.'' \<notin> set x" and g: "CHR '':'' \<notin> set g" "ipv4_value g = Some v" "hextet g = None"
    by blast
  obtain a b c d p q r w where gv1: "g = a @ ''.'' @ b @ ''.'' @ c @ ''.'' @ d"
    and o: "octet a = Some p" "octet b = Some q" "octet c = Some r" "octet d = Some w"
    and gv2: "v = ((p * 256 + q) * 256 + r) * 256 + w"
    by (rule ipv4_value_Some [OF g(2)])
  note gv = gv1 gv2
  have b: "0 \<le> p" "p \<le> 255" "0 \<le> q" "q \<le> 255" "0 \<le> r" "r \<le> 255" "0 \<le> w" "w \<le> 255"
    using o [THEN octet_nonneg] o [THEN octet_digits_only] by simp_all
  have v: "v div 65536 = 256 * p + q" "v mod 65536 = 256 * r + w"
  proof -
    have "v = (256 * r + w) + (256 * p + q) * 65536" and rw: "0 \<le> 256 * r + w" "256 * r + w < 65536"
      using b unfolding gv(2) by simp_all
    then show "v div 65536 = 256 * p + q" "v mod 65536 = 256 * r + w"
      by (simp_all only: div_mult_self1 mod_mult_self1) (use rw in simp_all)
  qed
  let ?h = "hex_string (v div 65536)" and ?l = "hex_string (v mod 65536)"
  have pq: "hextet ?h = Some (v div 65536)" "hextet ?l = Some (v mod 65536)"
    unfolding v using b by (auto intro!: hextet_hex_string)
  have low: "toLowerCase ?h = ?h" "toLowerCase ?l = ?l"
    using b unfolding v hex_string_def by (auto intro!: radix16_lower)
  note lowg = ipv4_lower [OF g(2)]
  have "ipv6_groups (x @ ?h @ '':'' @ ?l) = Some hs"
    using assms g s pq gv(1) by (intro ipv6_groups_fold_dotted [where g = g and v = v]) auto
  moreover have "CHR ''.'' \<notin> set (x @ ?h @ '':'' @ ?l)"
    using s(4) pq hextet_no_sep by auto
  ultimately have "expand_hex (toLowerCase (x @ ?h @ '':'' @ ?l)) = Some hs"
    by (rule expand_hex_groups)
  then have "expand_hex (toLowerCase x @ ?h @ '':'' @ ?l) = Some hs"
    unfolding toLowerCase_append low lower_colon .
  moreover have "dotted_tail (toLowerCase x @ g) = Some (toLowerCase x, [a, b, c, d])"
    unfolding gv(1) using s(2-4) o
    by (intro dotted_tail_append) (auto simp: no_dot_lower, auto simp: toLowerCase_def last_map lower_char_sep)
  moreover have "dec_val a = p" "dec_val b = q" "dec_val c = r" "dec_val d = w"
    using o [THEN octet_digits_only] by simp_all
  ultimately show ?thesis
    using b unfolding s(1) v by (simp add: expandIPv6_def lowg Let_def)
qed

lemma ipv6_value_zone_free: "CHR ''%'' \<notin> set ip \<Longrightarrow> ipv6_value ip = ipv6_groups ip"
proof -
  assume "CHR ''%'' \<notin> set ip"
  then have "takeWhile (\<lambda>c. c \<noteq> CHR ''%'') ip = ip"
    unfolding takeWhile_eq_all_conv by metis
  then show ?thesis
    unfolding ipv6_value_def Let_def by (simp only:) simp
qed

text \<open>A mapped prefix over a dotted quad or two hextets is the mapped address of that value.\<close>

lemma cut2_mapped: "cut2 (''::ffff:'' @ t) = Some ([], ''ffff:'' @ t)"
  by simp

lemma mapped_groups:
  assumes "ipv6_groups (''::ffff:'' @ t) = Some hs" and "split_on (CHR '':'') t = ps" and "length ps \<le> 2"
  shows "\<exists>b. groups True ps = Some b \<and> hs = replicate (7 - length b) 0 @ 65535 # b \<and> length b \<le> 6"
proof -
  have f: "hextet ''ffff'' = Some 65535"
    by code_simp
  have sp: "split_on (CHR '':'') (''ffff:'' @ t) = ''ffff'' # ps"
    using assms(2) by simp
  show ?thesis
    using assms sp f
    by (cases ps) (auto simp: ipv6_groups_def colon_parts_def cut2_mapped simp del: append_Cons split: option.splits if_splits)
qed

lemma dotted_quad_chars: "dotted_quad t \<Longrightarrow> c \<in> set t \<Longrightarrow> is_digit c \<or> c = CHR ''.''"
  using split_on_covers [of c t "CHR ''.''"]
  by (auto simp: dotted_quad_def digits13_def list_all_iff Let_def)

lemma dotted_quad_sep:
  assumes "dotted_quad t"
  shows "CHR ''%'' \<notin> set t" "CHR '':'' \<notin> set t" "CHR ''.'' \<in> set t"
proof -
  show "CHR ''%'' \<notin> set t" "CHR '':'' \<notin> set t"
    using dotted_quad_chars [OF assms] by fastforce+
  show "CHR ''.'' \<in> set t"
  proof (rule ccontr)
    assume "CHR ''.'' \<notin> set t"
    then show False
      using assms by (simp add: dotted_quad_def)
  qed
qed

lemma mapped_lower:
  assumes "mapped_tail (toLowerCase ip) = Some t" and "CHR ''%'' \<notin> set t"
  shows "toLowerCase ip = ''::ffff:'' @ t" and "CHR ''%'' \<notin> set ip"
proof -
  show l: "toLowerCase ip = ''::ffff:'' @ t"
    using assms(1) unfolding mapped_tail_def by (metis append_take_drop_id option.distinct(1) option.inject)
  show "CHR ''%'' \<notin> set ip"
  proof
    assume "CHR ''%'' \<in> set ip"
    then have "lower_char (CHR ''%'') \<in> set (toLowerCase ip)"
      by (simp add: toLowerCase_def)
    then have "CHR ''%'' \<in> set (''::ffff:'' @ t)"
      unfolding l using lower_char_sep(3) by metis
    then show False
      using assms(2) by simp
  qed
qed

lemma mapped_dotted:
  assumes "ipv6_groups (''::ffff:'' @ t) = Some hs" and "dotted_quad t"
  obtains v where "ipv4_value t = Some v" "hs = [0, 0, 0, 0, 0, 65535, v div 65536, v mod 65536]"
proof -
  have sp: "split_on (CHR '':'') t = [t]"
    using dotted_quad_sep [OF assms(2)] by simp
  have "hextet t = None"
    using dotted_quad_sep(3) [OF assms(2)] hextet_no_sep by (cases "hextet t") auto
  with mapped_groups [OF assms(1) sp] show thesis
    by (auto intro!: that split: option.splits simp: eval_nat_numeral)
qed

lemma mapped_hextets:
  assumes "ipv6_groups (''::ffff:'' @ t) = Some hs" and "map lower_hextet (split_on (CHR '':'') t) = [Some hi, Some lo]"
  shows "hs = [0, 0, 0, 0, 0, 65535, hi, lo]" "0 \<le> hi" "hi < 65536" "0 \<le> lo" "lo < 65536"
proof -
  obtain p q where sp: "split_on (CHR '':'') t = [p, q]" "hextet p = Some hi" "hextet q = Some lo"
    using assms(2) lower_hextet_hextet by auto
  then show "0 \<le> hi" "hi < 65536" "0 \<le> lo" "lo < 65536"
    using hextet_bound by blast+
  show "hs = [0, 0, 0, 0, 0, 65535, hi, lo]"
    using mapped_groups [OF assms(1) sp(1)] sp by (auto simp: eval_nat_numeral)
qed

lemma mapped_v4_isIPv4:
  assumes "isIPv6 ip" and "mapped_v4 (toLowerCase ip) = Some q"
  shows "isIPv4 q"
proof -
  obtain t where t: "mapped_tail (toLowerCase ip) = Some t"
    and q: "(if dotted_quad t then Some t else case map lower_hextet (split_on (CHR '':'') t) of
               [Some hi, Some lo] \<Rightarrow> Some (hextetsToV4 hi lo) | _ \<Rightarrow> None) = Some q"
    using assms(2) by (auto simp: mapped_v4_def split: option.splits)
  show ?thesis
  proof (cases "dotted_quad t")
    case True
    note l = mapped_lower [OF t dotted_quad_sep(1) [OF True]]
    obtain hs where "ipv6_groups ip = Some hs"
      using assms(1) ipv6_value_zone_free [OF l(2)] by (auto simp: isIPv6_def)
    then have g: "ipv6_groups (''::ffff:'' @ t) = Some hs"
      using ipv6_groups_lower l(1) by metis
    obtain v where "ipv4_value t = Some v"
      by (rule mapped_dotted [OF g True])
    then show ?thesis
      using True q by (simp add: isIPv4_def)
  next
    case False
    with q show ?thesis
      by (auto simp: isIPv4_hextetsToV4 split: list.splits option.splits)
  qed
qed

lemma inner_v4_isIPv4: "isIPv6 ip \<Longrightarrow> inner_v4 (toLowerCase ip) = Some q \<Longrightarrow> isIPv4 q"
  using mapped_v4_isIPv4 by (auto simp: inner_v4_def embedded_v4_def isIPv4_hextetsToV4 split: option.splits if_splits)

function isBlockedAddress :: "string \<Rightarrow> bool" where
  "isBlockedAddress ip =
     (if isIPv4 ip then BLOCKED_V4 ip
      else if isIPv6 ip then
        (let lower = toLowerCase ip
         in case inner_v4 lower of
              Some q \<Rightarrow> isBlockedAddress q
            | None \<Rightarrow> BLOCKED_V6 lower \<or> \<not> GLOBAL_UNICAST_V6 lower)
      else True)"
  by auto
termination
  by (relation "measure (\<lambda>ip. if isIPv4 ip then 0 else 1)") (auto dest: inner_v4_isIPv4)

declare isBlockedAddress.simps [simp del]

section \<open>The classification of an address\<close>

definition in_v4 :: "int \<Rightarrow> int \<Rightarrow> int \<Rightarrow> int \<Rightarrow> nat \<Rightarrow> int \<Rightarrow> bool" where
  "in_v4 a b c d n v \<longleftrightarrow> v div 2 ^ (32 - n) = (((a * 256 + b) * 256 + c) * 256 + d) div 2 ^ (32 - n)"

text \<open>The IPv4 addresses no webhook may reach, by value.\<close>

definition reserved_v4 :: "int \<Rightarrow> bool" where
  "reserved_v4 v \<longleftrightarrow>
     in_v4 0 0 0 0 8 v \<or> in_v4 10 0 0 0 8 v \<or> in_v4 100 64 0 0 10 v \<or> in_v4 127 0 0 0 8 v \<or> in_v4 169 254 0 0 16 v \<or>
     in_v4 172 16 0 0 12 v \<or> in_v4 192 0 0 0 24 v \<or> in_v4 192 168 0 0 16 v \<or> in_v4 198 18 0 0 15 v \<or>
     in_v4 224 0 0 0 4 v \<or> in_v4 240 0 0 0 4 v"

text \<open>
  The IPv4 address an IPv6 address stands for: 6to4, NAT64 (well-known and local-use), IPv4-compatible,
  IPv4-translatable and IPv4-mapped.
\<close>

definition embedded_value :: "int list \<Rightarrow> int option" where
  "embedded_value hs =
     (case hs of
        [a, b, c, d, e, f, g, h] \<Rightarrow>
          if a = 0x2002 then Some (b * 65536 + c)
          else if [a, b, d, e, f] = [0x64, 0xff9b, 0, 0, 0] \<and> c \<le> 1
               \<or> [a, b, c, d, e, f] = [0, 0, 0, 0, 0, 0] \<and> (g \<noteq> 0 \<or> h \<noteq> 0)
               \<or> [a, b, c, d, e, f] = [0, 0, 0, 0, 0xffff, 0]
               \<or> [a, b, c, d, e, f] = [0, 0, 0, 0, 0, 0xffff]
            then Some (g * 65536 + h)
          else None
      | _ \<Rightarrow> None)"

text \<open>An address that embeds none is reachable only inside 2000::/3, global unicast.\<close>

definition reserved_v6 :: "int list \<Rightarrow> bool" where
  "reserved_v6 hs =
     (case embedded_value hs of Some v \<Rightarrow> reserved_v4 v | None \<Rightarrow> hs ! 0 div 2 ^ 13 \<noteq> 1)"

lemma BLOCKED_V4_value:
  assumes "ipv4_value ip = Some v"
  shows "BLOCKED_V4 ip = reserved_v4 v"
proof -
  have "ipv4_value ''0.0.0.0'' = Some 0" "ipv4_value ''10.0.0.0'' = Some 167772160" "ipv4_value ''100.64.0.0'' = Some 1681915904"
    "ipv4_value ''127.0.0.0'' = Some 2130706432" "ipv4_value ''169.254.0.0'' = Some 2851995648"
    "ipv4_value ''172.16.0.0'' = Some 2886729728" "ipv4_value ''192.0.0.0'' = Some 3221225472"
    "ipv4_value ''192.168.0.0'' = Some 3232235520" "ipv4_value ''198.18.0.0'' = Some 3323068416"
    "ipv4_value ''224.0.0.0'' = Some 3758096384" "ipv4_value ''240.0.0.0'' = Some 4026531840"
    by code_simp+
  with assms show ?thesis
    by (simp add: BLOCKED_V4_def blocklist_check_def BLOCKED_V4_RANGES_def subnet_check_def ip_num_def reserved_v4_def in_v4_def width_def)
qed

lemma isBlocked_v4: "ipv4_value ip = Some v \<Longrightarrow> isBlockedAddress ip = reserved_v4 v"
  by (simp add: isBlockedAddress.simps [of ip] isIPv4_def BLOCKED_V4_value)

lemma ipv4_value_bound: "ipv4_value g = Some v \<Longrightarrow> 0 \<le> v \<and> v < 65536 * 65536"
proof (erule ipv4_value_Some)
  fix a b c d p q r w
  assume o: "octet a = Some p" "octet b = Some q" "octet c = Some r" "octet d = Some w"
    and v: "v = ((p * 256 + q) * 256 + r) * 256 + w"
  show "0 \<le> v \<and> v < 65536 * 65536"
    using o [THEN octet_nonneg] o [THEN octet_digits_only] unfolding v by simp
qed

lemma groups_bound: "groups d ps = Some ns \<Longrightarrow> list_all (\<lambda>n. 0 \<le> n \<and> n < 65536) ns"
proof (induction d ps arbitrary: ns rule: groups.induct)
  case (2 d g)
  then show ?case
    using hextet_bound [of g] ipv4_value_bound [of g]
    by (auto simp: pos_imp_zdiv_nonneg_iff div_less_iff_less_mult split: option.splits if_splits)
next
  case (3 d g h gs)
  then show ?case
    using hextet_bound [of g] by (auto split: option.splits)
qed simp

lemma ipv6_groups_shape:
  assumes "ipv6_groups s = Some hs"
  shows "length hs = 8" and "list_all (\<lambda>n. 0 \<le> n \<and> n < 65536) hs"
proof -
  have "length hs = 8 \<and> list_all (\<lambda>n. 0 \<le> n \<and> n < 65536) hs"
  proof (cases "cut2 s")
    case None
    then show ?thesis
      using assms by (auto simp: ipv6_groups_def dest: groups_bound split: option.splits if_splits)
  next
    case (Some ht)
    then obtain h t where c: "cut2 s = Some (h, t)"
      by fastforce
    obtain a b where ab: "groups False (colon_parts h) = Some a" "groups True (colon_parts t) = Some b"
      "length a + length b \<le> 7" "hs = a @ replicate (8 - length a - length b) 0 @ b"
      using assms c by (auto simp: ipv6_groups_def split: option.splits if_splits)
    with ab(1,2) [THEN groups_bound] show ?thesis
      by (auto simp: list_all_iff)
  qed
  then show "length hs = 8" and "list_all (\<lambda>n. 0 \<le> n \<and> n < 65536) hs"
    by auto
qed

lemma eight_hextets:
  assumes "length hs = 8"
  obtains a b c d e f g h where "hs = [a, b, c, d, e, f, g, h]"
  using assms by (auto simp: eval_nat_numeral length_Suc_conv)

lemma hextets_num_div:
  assumes "length hs = 8" and "list_all (\<lambda>n. 0 \<le> n \<and> n < 65536) hs"
  shows "hextets_num hs div 2 ^ (112 + k) = hs ! 0 div 2 ^ k"
proof -
  obtain a b c d e f g h where hs: "hs = [a, b, c, d, e, f, g, h]"
    by (rule eight_hextets [OF assms(1)])
  define r where "r = (((((b * 65536 + c) * 65536 + d) * 65536 + e) * 65536 + f) * 65536 + g) * 65536 + h"
  have num: "hextets_num hs = r + a * 2 ^ 112"
    by (simp add: hs hextets_num_def r_def)
  have "0 \<le> r" "r < 2 ^ 112"
    using assms(2) unfolding r_def by (simp_all add: hs)
  then have "hextets_num hs div 2 ^ 112 = a"
    unfolding num by (simp only: div_mult_self1) simp
  then show ?thesis
    by (simp add: hs power_add zdiv_zmult2_eq)
qed

lemma subnet_v6:
  assumes "ipv6_value s = Some hs" "length hs = 8" "list_all (\<lambda>n. 0 \<le> n \<and> n < 65536) hs"
    and "ipv6_value base = Some bs" "length bs = 8" "list_all (\<lambda>n. 0 \<le> n \<and> n < 65536) bs" and "n \<le> 16"
  shows "subnet_check IPv6 base n s = Some (hs ! 0 div 2 ^ (16 - n) = bs ! 0 div 2 ^ (16 - n))"
proof -
  have w: "128 - n = 112 + (16 - n)"
    using assms(7) by simp
  have "subnet_check IPv6 base n s = Some (hextets_num hs div 2 ^ (128 - n) = hextets_num bs div 2 ^ (128 - n))"
    using assms(1,4) by (simp add: subnet_check_def ip_num_def width_def)
  then show ?thesis
    unfolding w hextets_num_div [OF assms(2,3)] hextets_num_div [OF assms(5,6)] .
qed

lemma v6_range_value:
  assumes "ipv6_value s = Some hs" "length hs = 8" "list_all (\<lambda>n. 0 \<le> n \<and> n < 65536) hs"
  shows "(BLOCKED_V6 s \<or> \<not> GLOBAL_UNICAST_V6 s) \<longleftrightarrow> hs ! 0 div 2 ^ 13 \<noteq> 1"
proof -
  have base: "ipv6_value ''2000::'' = Some [8192, 0, 0, 0, 0, 0, 0, 0]" "ipv6_value ''0000::'' = Some [0, 0, 0, 0, 0, 0, 0, 0]"
    "ipv6_value ''fc00::'' = Some [64512, 0, 0, 0, 0, 0, 0, 0]" "ipv6_value ''fe80::'' = Some [65152, 0, 0, 0, 0, 0, 0, 0]"
    "ipv6_value ''fec0::'' = Some [65216, 0, 0, 0, 0, 0, 0, 0]" "ipv6_value ''::'' = Some [0, 0, 0, 0, 0, 0, 0, 0]"
    "ipv6_value ''::1'' = Some [0, 0, 0, 0, 0, 0, 0, 1]"
    by code_simp+
  have "GLOBAL_UNICAST_V6 s \<longleftrightarrow> hs ! 0 div 2 ^ 13 = 1"
    by (simp add: GLOBAL_UNICAST_V6_def blocklist_check_def subnet_v6 [OF assms base(1)])
  moreover have "\<not> BLOCKED_V6 s" if one: "hs ! 0 div 2 ^ 13 = 1"
  proof -
    have b: "8192 \<le> hs ! 0" "hs ! 0 < 16384"
      using one by auto
    have "hextets_num hs div 2 ^ (112 + 13) = 1"
      unfolding hextets_num_div [OF assms(2,3)] by (rule one)
    then have "1 < hextets_num hs"
      by auto
    then have "subnet_check IPv6 ''::'' 128 s = Some False" "subnet_check IPv6 ''::1'' 128 s = Some False"
      using assms base by (auto simp: subnet_check_def ip_num_def width_def hextets_num_def)
    moreover have "hs ! 0 div 2 ^ 9 < 126" "hs ! 0 div 2 ^ 6 < 1018"
      using b by auto
    ultimately show ?thesis
      using one by (auto simp: BLOCKED_V6_def blocklist_check_def BLOCKED_V6_RANGES_def
          subnet_v6 [OF assms base(2)] subnet_v6 [OF assms base(3)] subnet_v6 [OF assms base(4)] subnet_v6 [OF assms base(5)])
  qed
  ultimately show ?thesis
    by blast
qed

lemma embedded_v4_value:
  assumes "length hs = 8" and "list_all (\<lambda>n. 0 \<le> n \<and> n < 65536) hs"
  shows "(case embedded_v4 hs of Some q \<Rightarrow> ipv4_value q | None \<Rightarrow> None) = embedded_value hs"
    and "embedded_v4 hs = None \<longleftrightarrow> embedded_value hs = None"
proof -
  obtain a b c d e f g h where hs: "hs = [a, b, c, d, e, f, g, h]"
    by (rule eight_hextets [OF assms(1)])
  have v: "ipv4_value (hextetsToV4 b c) = Some (b * 65536 + c)" "ipv4_value (hextetsToV4 g h) = Some (g * 65536 + h)"
    using assms(2) by (auto simp: hs intro!: hextetsToV4_value)
  show "(case embedded_v4 hs of Some q \<Rightarrow> ipv4_value q | None \<Rightarrow> None) = embedded_value hs"
    "embedded_v4 hs = None \<longleftrightarrow> embedded_value hs = None"
    by (auto simp: hs embedded_v4_def embedded_value_def v)
qed

lemma isBlocked_v6:
  assumes "ipv4_value ip = None" and "CHR ''%'' \<notin> set ip" and "ipv6_groups ip = Some hs"
  shows "isBlockedAddress ip = reserved_v6 hs"
proof -
  let ?l = "toLowerCase ip"
  note shape = ipv6_groups_shape [OF assms(3)]
  have l: "ipv6_groups ?l = Some hs" "CHR ''%'' \<notin> set ?l"
    using ipv6_groups_lower [OF assms(3)] assms(2) no_zone_lower by auto
  have unfold: "isBlockedAddress ip =
      (case inner_v4 ?l of Some q \<Rightarrow> isBlockedAddress q | None \<Rightarrow> BLOCKED_V6 ?l \<or> \<not> GLOBAL_UNICAST_V6 ?l)"
    using assms by (simp add: isBlockedAddress.simps [of ip] isIPv4_def isIPv6_def ipv6_value_zone_free Let_def)
  have val: "(case inner_v4 ?l of Some q \<Rightarrow> ipv4_value q | None \<Rightarrow> None) = embedded_value hs
      \<and> (inner_v4 ?l = None \<longleftrightarrow> embedded_value hs = None)"
  proof (cases "mapped_v4 ?l")
    case None
    then show ?thesis
      using embedded_v4_value [OF shape] expandIPv6_groups [OF assms(3)] by (simp add: inner_v4_def)
  next
    case (Some q)
    then obtain t where t: "mapped_tail ?l = Some t"
      and q: "(if dotted_quad t then Some t else case map lower_hextet (split_on (CHR '':'') t) of
                 [Some hi, Some lo] \<Rightarrow> Some (hextetsToV4 hi lo) | _ \<Rightarrow> None) = Some q"
      by (auto simp: mapped_v4_def split: option.splits)
    have eq: "?l = ''::ffff:'' @ t"
      using t unfolding mapped_tail_def by (metis append_take_drop_id option.distinct(1) option.inject)
    note g = l(1) [unfolded eq]
    show ?thesis
    proof (cases "dotted_quad t")
      case True
      obtain v where v: "ipv4_value t = Some v" "hs = [0, 0, 0, 0, 0, 65535, v div 65536, v mod 65536]"
        by (rule mapped_dotted [OF g True])
      with True q Some show ?thesis
        by (simp add: inner_v4_def embedded_value_def)
    next
      case False
      with q obtain hi lo where hl: "map lower_hextet (split_on (CHR '':'') t) = [Some hi, Some lo]" "q = hextetsToV4 hi lo"
        by (auto split: list.splits option.splits)
      from mapped_hextets [OF g hl(1)] hl(2) Some show ?thesis
        by (simp add: inner_v4_def embedded_value_def hextetsToV4_value)
    qed
  qed
  show ?thesis
  proof (cases "inner_v4 ?l")
    case None
    with val unfold v6_range_value [OF _ shape, of ?l] l show ?thesis
      by (simp add: reserved_v6_def ipv6_value_zone_free)
  next
    case (Some q)
    with val obtain v where "ipv4_value q = Some v" "embedded_value hs = Some v"
      by (cases "embedded_value hs") auto
    with Some unfold isBlocked_v4 show ?thesis
      by (simp add: reserved_v6_def)
  qed
qed

text \<open>
  C13: The classifier that decides where an outbound request may go depends on the address and not on
  its spelling. An IPv4 literal is blocked exactly when its value is reserved. A zone-free IPv6
  literal, in any case, compression or dotted-tail spelling, is blocked exactly as its 128-bit value
  demands: by the reserved ranges of the IPv4 address it embeds (6to4, NAT64, IPv4-compatible,
  translatable, mapped), and otherwise unless it is global unicast. Text that is no address is blocked.
\<close>

theorem classifier_by_value:
  "(\<forall>v. ipv4_value ip = Some v \<longrightarrow> isBlockedAddress ip = reserved_v4 v) \<and>
   (\<forall>hs. ipv4_value ip = None \<and> CHR ''%'' \<notin> set ip \<and> ipv6_value ip = Some hs \<longrightarrow> isBlockedAddress ip = reserved_v6 hs) \<and>
   (isIP ip = 0 \<longrightarrow> isBlockedAddress ip)"
proof (intro conjI allI impI)
  show "isBlockedAddress ip" if "isIP ip = 0"
    using that by (auto simp: isIP_def isBlockedAddress.simps [of ip] split: if_splits)
qed (auto simp: isBlocked_v4 isBlocked_v6 ipv6_value_zone_free)

theorem classifier_by_value_witness:
  "isBlockedAddress ''64:FF9B::169.254.169.254'' \<and> \<not> isBlockedAddress ''2002:808:808::1'' \<and>
   isBlockedAddress ''10.1.2.3'' \<and> isBlockedAddress ''localhost''"
proof -
  have v6: "ipv4_value ''64:FF9B::169.254.169.254'' = None" "CHR ''%'' \<notin> set ''64:FF9B::169.254.169.254''"
    "ipv6_value ''64:FF9B::169.254.169.254'' = Some [100, 65435, 0, 0, 0, 0, 43518, 43518]"
    "ipv4_value ''2002:808:808::1'' = None" "CHR ''%'' \<notin> set ''2002:808:808::1''"
    "ipv6_value ''2002:808:808::1'' = Some [8194, 2056, 2056, 0, 0, 0, 0, 1]"
    "ipv4_value ''10.1.2.3'' = Some 167838211" "isIP ''localhost'' = 0"
    by code_simp+
  have r: "reserved_v6 [100, 65435, 0, 0, 0, 0, 43518, 43518]" "\<not> reserved_v6 [8194, 2056, 2056, 0, 0, 0, 0, 1]"
    "reserved_v4 167838211"
    by code_simp+
  show ?thesis
    using classifier_by_value [of "''64:FF9B::169.254.169.254''"] classifier_by_value [of "''2002:808:808::1''"]
      classifier_by_value [of "''10.1.2.3''"] classifier_by_value [of "''localhost''"] v6 r by blast
qed

end
