(* ===== verification/Ssrf_Fetch.thy ===== *)
theory Ssrf_Fetch
  imports Ssrf_Address
begin

text \<open>
  The guarded fetch of \<^verbatim>\<open>src/src/common/security/ssrf-guard.ts\<close>: validation of the target
  (\<open>resolveSafeFetchTarget\<close>), the dispatcher that pins a connection to the vetted addresses or sends it
  through the session's proxy (\<^verbatim>\<open>src/src/common/security/proxy-dispatcher.ts\<close>), the redirect loop and
  \<open>withSafeFetch\<close>. The URL parser, the resolver and the HTTP client are the fields
  of \<open>fetch_world\<close>; the resolver and the client may answer differently at every call (the call's
  number is an argument), so a name may be rebound between two lookups. A run returns its outcome
  with the requests it issued, in order.
\<close>

section \<open>Targets\<close>

record url =
  protocol :: string
  hostname :: string
  origin :: string

datatype lookup_outcome = Resolved "string list" | LookupFailed | LookupTimedOut | LookupAborted

datatype block_reason =
  InvalidUrl | BlockedScheme | InternalLiteral | Unresolvable | InternalAddress | RedirectRefused | NoLocation

text \<open>\<open>SsrfBlockedError\<close> apart from the errors that are passed on as they are.\<close>

datatype fetch_error = SsrfBlocked block_reason | TooManyRedirects | InsecureDowngrade | Aborted | NetworkError | BadUrl
  | UnsupportedProxy | SocksUnreachable

record response =
  status :: int
  opaque_redirect :: bool
  location :: "string option"

record req_init =
  init_method :: "string option"
  init_headers :: "(string \<times> string) list option"
  init_body :: "string option"

text \<open>A proxied request goes through an HTTP proxy, or a SOCKS proxy of version 4 or 5 with the pinned addresses.\<close>

datatype dispatcher =
    HttpProxy string | SocksProxy nat string "string list option" | PinnedAgent "string list" | NoDispatcher

datatype redirect_mode = Follow | ErrorOnRedirect | Manual

record issued =
  req_url :: string
  req_init :: req_init
  req_redirect :: redirect_mode
  req_dispatcher :: dispatcher

record fetch_world =
  parse_url :: "string \<Rightarrow> url option"
  join_url :: "string \<Rightarrow> string \<Rightarrow> string option"
  dns_lookup :: "nat \<Rightarrow> string \<Rightarrow> lookup_outcome"
  dns_lookup_v4 :: "string \<Rightarrow> string option"
  undiciFetch :: "nat \<Rightarrow> issued \<Rightarrow> response option"

record fetch_env =
  ssrf_allowed_hosts :: "string option"
  webhook_ssrf_redirects :: "string option"
  allow_insecure_redirects :: "string option"

definition strip_brackets :: "string \<Rightarrow> string" where
  "strip_brackets s =
     (let t = (if s \<noteq> [] \<and> hd s = CHR ''['' then tl s else s)
      in if t \<noteq> [] \<and> last t = CHR '']'' then butlast t else t)"

definition allowedHostEntries :: "fetch_env \<Rightarrow> string list" where
  "allowedHostEntries env =
     map (\<lambda>h. toLowerCase (strip_brackets (trim h)))
       (split_on (CHR '','') (case ssrf_allowed_hosts env of Some s \<Rightarrow> s | None \<Rightarrow> []))"

definition getAllowedHosts :: "fetch_env \<Rightarrow> string set" where
  "getAllowedHosts env = set (filter (\<lambda>h. h \<noteq> []) (allowedHostEntries env))"

definition lookupWithDeadline :: "lookup_outcome \<Rightarrow> fetch_error + string list" where
  "lookupWithDeadline outcome =
     (case outcome of
        Resolved addresses \<Rightarrow> Inr addresses
      | LookupFailed \<Rightarrow> Inl (SsrfBlocked Unresolvable)
      | LookupTimedOut \<Rightarrow> Inl (SsrfBlocked Unresolvable)
      | LookupAborted \<Rightarrow> Inl Aborted)"

definition url_host :: "url \<Rightarrow> string" where
  "url_host u = strip_brackets (hostname u)"

text \<open>\<open>Inr (Some as)\<close>: pin to \<open>as\<close>; \<open>Inr None\<close>: a literal, connect straight to it.\<close>

definition resolveSafeFetchTarget :: "fetch_world \<Rightarrow> fetch_env \<Rightarrow> nat \<Rightarrow> string \<Rightarrow> fetch_error + string list option" where
  "resolveSafeFetchTarget w env n rawUrl =
     (case parse_url w rawUrl of
        None \<Rightarrow> Inl (SsrfBlocked InvalidUrl)
      | Some url \<Rightarrow>
          if protocol url \<noteq> ''http:'' \<and> protocol url \<noteq> ''https:'' then Inl (SsrfBlocked BlockedScheme)
          else let host = url_host url
          in if toLowerCase host \<in> getAllowedHosts env then
               (case lookupWithDeadline (dns_lookup w n host) of Inl e \<Rightarrow> Inl e | Inr as \<Rightarrow> Inr (Some as))
             else if isIPv4 host \<or> isIPv6 host then
               (if isBlockedAddress host then Inl (SsrfBlocked InternalLiteral) else Inr None)
             else
               (case lookupWithDeadline (dns_lookup w n host) of
                  Inl e \<Rightarrow> Inl e
                | Inr resolved \<Rightarrow>
                    if resolved = [] then Inl (SsrfBlocked Unresolvable)
                    else if list_ex isBlockedAddress resolved then Inl (SsrfBlocked InternalAddress)
                    else Inr (Some resolved)))"

definition assertSafeFetchUrl :: "fetch_world \<Rightarrow> fetch_env \<Rightarrow> nat \<Rightarrow> string \<Rightarrow> fetch_error + unit" where
  "assertSafeFetchUrl w env n rawUrl =
     (case resolveSafeFetchTarget w env n rawUrl of Inl e \<Rightarrow> Inl e | Inr _ \<Rightarrow> Inr ())"

definition createProxyDispatcher :: "fetch_world \<Rightarrow> string \<Rightarrow> string list option \<Rightarrow> fetch_error + dispatcher" where
  "createProxyDispatcher w p pinnedAddresses =
     (case parse_url w p of
        None \<Rightarrow> Inl BadUrl
      | Some u \<Rightarrow>
          if protocol u = ''http:'' \<or> protocol u = ''https:'' then Inr (HttpProxy p)
          else if protocol u = ''socks4:'' then Inr (SocksProxy 4 p pinnedAddresses)
          else if protocol u = ''socks5:'' then Inr (SocksProxy 5 p pinnedAddresses)
          else Inl UnsupportedProxy)"

text \<open>
  The destinations a SOCKS request may carry, in the order they are tried: the pinned addresses, or the
  URL's host; for version 4 only IPv4 addresses, a name being resolved here.
\<close>

definition socksDestinations :: "fetch_world \<Rightarrow> nat \<Rightarrow> string \<Rightarrow> string list option \<Rightarrow> fetch_error + string list" where
  "socksDestinations w version host pinnedAddresses =
     (let hosts = (if nonempty_opt pinnedAddresses then the pinnedAddresses else [strip_brackets host]);
          ipv4 = filter isIPv4 hosts
      in if version = 5 then Inr hosts
         else if ipv4 \<noteq> [] then Inr ipv4
         else if isIPv6 (hd hosts) then Inl SocksUnreachable
         else (case dns_lookup_v4 w (hd hosts) of None \<Rightarrow> Inl NetworkError | Some a \<Rightarrow> Inr [a]))"

definition requestDispatcher :: "fetch_world \<Rightarrow> string option \<Rightarrow> string list option \<Rightarrow> fetch_error + dispatcher" where
  "requestDispatcher w proxyUrl target =
     (if truthy proxyUrl then createProxyDispatcher w (the proxyUrl) target
      else Inr (case target of Some as \<Rightarrow> PinnedAgent as | None \<Rightarrow> NoDispatcher))"

text \<open>\<open>pinnedLookup\<close>: what a connection with that agent is told instead of asking the resolver.\<close>

definition pinnedLookup :: "string list \<Rightarrow> bool \<Rightarrow> string list" where
  "pinnedLookup addresses all = (if all then addresses else take 1 addresses)"

section \<open>Redirects\<close>

definition assertNoRedirect :: "response \<Rightarrow> fetch_error + response" where
  "assertNoRedirect r =
     (if opaque_redirect r \<or> (status r \<ge> 300 \<and> status r < 400) then Inl (SsrfBlocked RedirectRefused) else Inr r)"

definition REDIRECT_STATUSES :: "int list" where
  "REDIRECT_STATUSES = [301, 302, 303, 307, 308]"

definition MAX_REDIRECT_HOPS :: nat where
  "MAX_REDIRECT_HOPS = 5"

definition isInsecureRedirectHopAllowed :: "fetch_env \<Rightarrow> bool" where
  "isInsecureRedirectHopAllowed env \<longleftrightarrow> allow_insecure_redirects env = Some ''true''"

definition credential_header :: "string \<Rightarrow> bool" where
  "credential_header name \<longleftrightarrow> toLowerCase name = ''authorization'' \<or> toLowerCase name = ''cookie''"

definition bodiless_get :: "req_init \<Rightarrow> int \<Rightarrow> req_init" where
  "bodiless_get init st =
     (if st \<noteq> 307 \<and> st \<noteq> 308 \<and> init_method init \<noteq> None \<and> init_method init \<noteq> Some ''GET'' \<and> init_method init \<noteq> Some ''HEAD''
      then init\<lparr>init_method := Some ''GET'', init_body := None\<rparr> else init)"

definition nextRedirectHopInit :: "fetch_world \<Rightarrow> req_init \<Rightarrow> int \<Rightarrow> string \<Rightarrow> string \<Rightarrow> fetch_error + req_init" where
  "nextRedirectHopInit w init st nextUrl initialOrigin =
     (let next = bodiless_get init st
      in case parse_url w nextUrl of
           None \<Rightarrow> Inl BadUrl
         | Some u \<Rightarrow>
             if origin u \<noteq> initialOrigin \<and> init_headers next \<noteq> None
             then Inr (next\<lparr>init_headers := Some (filter (\<lambda>(name, _). \<not> credential_header name) (the (init_headers next)))\<rparr>)
             else Inr next)"

text \<open>
  The body of the loop over the hops of a download. The number of the hop numbers the calls to the
  resolver and the client too. A hop is validated before its request is issued. It ends the loop
  (with the requests it issued) or leads to the next hop.
\<close>

datatype hop_result = Stop "fetch_error + response" "issued list" | Next issued string string req_init bool

definition hop_request :: "string \<Rightarrow> req_init \<Rightarrow> dispatcher \<Rightarrow> issued" where
  "hop_request u init d = \<lparr>req_url = u, req_init = init, req_redirect = Manual, req_dispatcher = d\<rparr>"

definition follow_hop :: "fetch_world \<Rightarrow> fetch_env \<Rightarrow> string option \<Rightarrow> nat \<Rightarrow> string \<Rightarrow> string option \<Rightarrow> req_init \<Rightarrow> bool \<Rightarrow> hop_result" where
  "follow_hop w env proxyUrl hop currentUrl initialOrigin hopInit sawSecureHop =
     (case resolveSafeFetchTarget w env hop currentUrl of
        Inl e \<Rightarrow> Stop (Inl e) []
      | Inr target \<Rightarrow>
          (case parse_url w currentUrl of
             None \<Rightarrow> Stop (Inl BadUrl) []
           | Some current \<Rightarrow>
               let origin0 = (case initialOrigin of Some o' \<Rightarrow> o' | None \<Rightarrow> origin current)
               in if protocol current = ''http:'' \<and> sawSecureHop \<and> \<not> isInsecureRedirectHopAllowed env
                  then Stop (Inl InsecureDowngrade) []
                  else
                    (case requestDispatcher w proxyUrl target of
                       Inl e \<Rightarrow> Stop (Inl e) []
                     | Inr d \<Rightarrow>
                         let req = hop_request currentUrl hopInit d
                         in case undiciFetch w hop req of
                              None \<Rightarrow> Stop (Inl NetworkError) [req]
                            | Some response \<Rightarrow>
                                if status response \<notin> set REDIRECT_STATUSES then Stop (Inr response) [req]
                                else if \<not> truthy (location response) then Stop (Inl (SsrfBlocked NoLocation)) [req]
                                else if hop \<ge> MAX_REDIRECT_HOPS then Stop (Inl TooManyRedirects) [req]
                                else (case join_url w (the (location response)) currentUrl of
                                        None \<Rightarrow> Stop (Inl BadUrl) [req]
                                      | Some nextUrl \<Rightarrow>
                                          (case nextRedirectHopInit w hopInit (status response) nextUrl origin0 of
                                             Inl e \<Rightarrow> Stop (Inl e) [req]
                                           | Inr nextInit \<Rightarrow>
                                               Next req nextUrl origin0 nextInit (sawSecureHop \<or> protocol current = ''https:''))))))"

lemma follow_hop_Stop:
  assumes "follow_hop w env p hop u ori i saw = Stop r rs"
  shows "rs = [] \<or> (\<exists>target current d. resolveSafeFetchTarget w env hop u = Inr target \<and> parse_url w u = Some current
     \<and> \<not> (protocol current = ''http:'' \<and> saw \<and> \<not> isInsecureRedirectHopAllowed env)
     \<and> requestDispatcher w p target = Inr d \<and> rs = [hop_request u i d])"
  using assms unfolding follow_hop_def Let_def by (simp split: sum.splits option.splits if_splits)

lemma follow_hop_Next:
  assumes "follow_hop w env p hop u ori i saw = Next req nextUrl o0 nextInit saw'"
  shows "\<exists>target current st d. hop < MAX_REDIRECT_HOPS \<and> resolveSafeFetchTarget w env hop u = Inr target
     \<and> parse_url w u = Some current
     \<and> \<not> (protocol current = ''http:'' \<and> saw \<and> \<not> isInsecureRedirectHopAllowed env)
     \<and> requestDispatcher w p target = Inr d \<and> req = hop_request u i d
     \<and> o0 = (case ori of Some x \<Rightarrow> x | None \<Rightarrow> origin current)
     \<and> nextRedirectHopInit w i st nextUrl o0 = Inr nextInit
     \<and> saw' = (saw \<or> protocol current = ''https:'')"
  using assms unfolding follow_hop_def Let_def by (auto split: sum.splits option.splits if_splits)

function follow :: "fetch_world \<Rightarrow> fetch_env \<Rightarrow> string option \<Rightarrow> nat \<Rightarrow> string \<Rightarrow> string option \<Rightarrow> req_init \<Rightarrow> bool
    \<Rightarrow> (fetch_error + response) \<times> issued list" where
  "follow w env p hop currentUrl initialOrigin hopInit sawSecureHop =
     (case follow_hop w env p hop currentUrl initialOrigin hopInit sawSecureHop of
        Stop r rs \<Rightarrow> (r, rs)
      | Next req nextUrl origin0 nextInit saw \<Rightarrow>
          let (r, rest) = follow w env p (Suc hop) nextUrl (Some origin0) nextInit saw
          in (r, req # rest))"
  by pat_completeness auto
termination
  by (relation "measure (\<lambda>(w, env, p, hop, u, ori, i, s). Suc MAX_REDIRECT_HOPS - hop)") (auto dest: follow_hop_Next)

record fetch_opts =
  guard :: "bool option"
  followRedirects :: bool
  proxyUrl :: "string option"

definition withSafeFetch :: "fetch_world \<Rightarrow> fetch_env \<Rightarrow> string \<Rightarrow> req_init \<Rightarrow> fetch_opts \<Rightarrow> (fetch_error + response) \<times> issued list" where
  "withSafeFetch w env rawUrl init opts =
     (if guard opts = Some False then
        (let follow_them = (webhook_ssrf_redirects env = Some ''true'')
         in case requestDispatcher w (proxyUrl opts) None of
              Inl e \<Rightarrow> (Inl e, [])
            | Inr d \<Rightarrow>
                let req = \<lparr>req_url = rawUrl, req_init = init, req_redirect = (if follow_them then Follow else ErrorOnRedirect),
                           req_dispatcher = d\<rparr>
                in (case undiciFetch w 0 req of None \<Rightarrow> Inl NetworkError | Some r \<Rightarrow> Inr r, [req]))
      else if followRedirects opts then follow w env (proxyUrl opts) 0 rawUrl None init False
      else
        (case resolveSafeFetchTarget w env 0 rawUrl of
           Inl e \<Rightarrow> (Inl e, [])
         | Inr target \<Rightarrow>
             (case requestDispatcher w (proxyUrl opts) target of
                Inl e \<Rightarrow> (Inl e, [])
              | Inr d \<Rightarrow>
                  let req = hop_request rawUrl init d
                  in (case undiciFetch w 0 req of None \<Rightarrow> Inl NetworkError | Some r \<Rightarrow> assertNoRedirect r, [req]))))"

declare follow.simps [simp del]

section \<open>What a guarded fetch contacts\<close>

text \<open>
  What a request makes the network contact: an address this process connects to, or tells a SOCKS proxy
  to connect to; or a name it leaves to the proxy, which resolves it on its own.
\<close>

datatype contact = Connects string | HandsName string

definition contact_of :: "string \<Rightarrow> contact" where
  "contact_of h = (if isIPv4 h \<or> isIPv6 h then Connects h else HandsName h)"

definition contacts :: "fetch_world \<Rightarrow> issued \<Rightarrow> contact set" where
  "contacts w r =
     (case parse_url w (req_url r) of
        None \<Rightarrow> {}
      | Some u \<Rightarrow>
          (case req_dispatcher r of
             PinnedAgent as \<Rightarrow> Connects ` set as
           | NoDispatcher \<Rightarrow> {Connects (url_host u)}
           | SocksProxy v _ pinned \<Rightarrow>
               (case socksDestinations w v (hostname u) pinned of Inl _ \<Rightarrow> {} | Inr hs \<Rightarrow> contact_of ` set hs)
           | HttpProxy _ \<Rightarrow> {HandsName (url_host u)}))"

text \<open>
  What the guard promises of its \<open>n\<close>-th request: no address that is blocked is contacted; a name is left
  to a proxy only when that is an HTTP proxy, and then it is an allowed literal or had only allowed
  addresses at the lookup made just before the request.
\<close>

definition name_checked :: "fetch_world \<Rightarrow> nat \<Rightarrow> string \<Rightarrow> bool" where
  "name_checked w n h \<longleftrightarrow>
     \<not> isBlockedAddress h \<or> (\<exists>as. dns_lookup w n h = Resolved as \<and> as \<noteq> [] \<and> (\<forall>a \<in> set as. \<not> isBlockedAddress a))"

definition vetted :: "fetch_world \<Rightarrow> fetch_env \<Rightarrow> nat \<Rightarrow> issued \<Rightarrow> bool" where
  "vetted w env n r \<longleftrightarrow>
     req_redirect r = Manual \<and>
     (\<exists>u. parse_url w (req_url r) = Some u \<and> protocol u \<in> {''http:'', ''https:''} \<and>
          (toLowerCase (url_host u) \<in> getAllowedHosts env
           \<or> ((\<forall>a. Connects a \<in> contacts w r \<longrightarrow> \<not> isBlockedAddress a)
              \<and> (\<forall>h. HandsName h \<in> contacts w r \<longrightarrow>
                   (\<exists>p. req_dispatcher r = HttpProxy p) \<and> h = url_host u \<and> name_checked w n h))))"

lemma unblocked_is_address: "\<not> isBlockedAddress a \<Longrightarrow> isIPv4 a \<or> isIPv6 a"
  by (subst (asm) isBlockedAddress.simps) (auto split: if_splits)

lemma socks_contacts:
  assumes "socksDestinations w v host pinned = Inr hs"
    and "\<forall>a \<in> set (if nonempty_opt pinned then the pinned else [strip_brackets host]). \<not> isBlockedAddress a"
  shows "\<forall>a \<in> set hs. \<not> isBlockedAddress a"
proof -
  define hosts where "hosts = (if nonempty_opt pinned then the pinned else [strip_brackets host])"
  have ne: "hosts \<noteq> []"
    by (auto simp: hosts_def truthy_simps)
  have ok: "\<forall>a \<in> set hosts. \<not> isBlockedAddress a"
    using assms(2) by (simp only: hosts_def)
  then have "isIPv6 (hd hosts)" if "filter isIPv4 hosts = []"
    using that ne unblocked_is_address by (cases hosts) (auto split: if_splits)
  then show ?thesis
    using assms(1) ok unfolding socksDestinations_def hosts_def [symmetric] Let_def by (auto split: if_splits option.splits)
qed

lemma resolve_cases:
  assumes "resolveSafeFetchTarget w env n raw = Inr target"
  obtains u where "parse_url w raw = Some u" "protocol u \<in> {''http:'', ''https:''}"
    "toLowerCase (url_host u) \<in> getAllowedHosts env
     \<or> (target = None \<and> \<not> isBlockedAddress (url_host u))
     \<or> (\<exists>as. target = Some as \<and> as \<noteq> [] \<and> dns_lookup w n (url_host u) = Resolved as \<and> (\<forall>a \<in> set as. \<not> isBlockedAddress a))"
proof -
  obtain u where u: "parse_url w raw = Some u" "protocol u \<in> {''http:'', ''https:''}"
    using assms by (auto simp: resolveSafeFetchTarget_def split: option.splits if_splits)
  moreover have "toLowerCase (url_host u) \<in> getAllowedHosts env
     \<or> (target = None \<and> \<not> isBlockedAddress (url_host u))
     \<or> (\<exists>as. target = Some as \<and> as \<noteq> [] \<and> dns_lookup w n (url_host u) = Resolved as \<and> (\<forall>a \<in> set as. \<not> isBlockedAddress a))"
    using assms u by (auto simp: resolveSafeFetchTarget_def lookupWithDeadline_def Let_def list_ex_iff
        split: sum.splits if_splits lookup_outcome.splits)
  ultimately show ?thesis
    using that by blast
qed

lemma hop_vetted:
  assumes "resolveSafeFetchTarget w env n raw = Inr target" and "requestDispatcher w p target = Inr d"
  shows "vetted w env n (hop_request raw i d)"
proof -
  obtain u where u: "parse_url w raw = Some u" "protocol u \<in> {''http:'', ''https:''}"
    and t: "toLowerCase (url_host u) \<in> getAllowedHosts env
     \<or> (target = None \<and> \<not> isBlockedAddress (url_host u))
     \<or> (\<exists>as. target = Some as \<and> as \<noteq> [] \<and> dns_lookup w n (url_host u) = Resolved as \<and> (\<forall>a \<in> set as. \<not> isBlockedAddress a))"
    by (rule resolve_cases [OF assms(1)])
  show ?thesis
  proof (cases "toLowerCase (url_host u) \<in> getAllowedHosts env")
    case False
    then have pinned: "\<forall>a \<in> set (if nonempty_opt target then the target else [strip_brackets (hostname u)]). \<not> isBlockedAddress a"
      and name: "name_checked w n (url_host u)"
      using t by (auto simp: url_host_def name_checked_def)
    show ?thesis
    proof (cases d)
      case (SocksProxy v q pinned')
      then have "pinned' = target"
        using assms(2) by (auto simp: requestDispatcher_def createProxyDispatcher_def split: option.splits if_splits)
      with SocksProxy u pinned socks_contacts [of w v "hostname u" target] unblocked_is_address show ?thesis
        by (fastforce simp: vetted_def contacts_def hop_request_def contact_of_def split: sum.splits)
    next
      case (HttpProxy q)
      with u name show ?thesis
        by (auto simp: vetted_def contacts_def hop_request_def)
    next
      case (PinnedAgent as)
      then have "target = Some as"
        using assms(2) by (auto simp: requestDispatcher_def createProxyDispatcher_def split: option.splits if_splits)
      with PinnedAgent u t False show ?thesis
        by (auto simp: vetted_def contacts_def hop_request_def)
    next
      case NoDispatcher
      then have "target = None"
        using assms(2) by (auto simp: requestDispatcher_def createProxyDispatcher_def split: option.splits if_splits)
      with NoDispatcher u t False show ?thesis
        by (auto simp: vetted_def contacts_def hop_request_def)
    qed
  qed (use u in \<open>auto simp: vetted_def hop_request_def\<close>)
qed

definition all_vetted :: "fetch_world \<Rightarrow> fetch_env \<Rightarrow> nat \<Rightarrow> issued list \<Rightarrow> bool" where
  "all_vetted w env n rs \<longleftrightarrow> (\<forall>j < length rs. vetted w env (n + j) (rs ! j))"

lemma all_vetted_simps [simp]:
  "all_vetted w env n []" "all_vetted w env n (r # rs) \<longleftrightarrow> vetted w env n r \<and> all_vetted w env (Suc n) rs"
  by (auto simp: all_vetted_def nth_Cons' less_Suc_eq_0_disj)

lemma follow_vetted:
  "all_vetted w env hop (snd (follow w env p hop u ori i saw))
   \<and> (hop \<le> MAX_REDIRECT_HOPS \<longrightarrow> length (snd (follow w env p hop u ori i saw)) \<le> Suc MAX_REDIRECT_HOPS - hop)"
proof (induction w env p hop u ori i saw rule: follow.induct)
  case (1 w env p hop u ori i saw)
  show ?case
  proof (cases "follow_hop w env p hop u ori i saw")
    case (Stop r rs)
    then show ?thesis
      using follow_hop_Stop [OF Stop] hop_vetted by (subst (1 2) follow.simps) auto
  next
    case (Next req nextUrl o0 nextInit saw')
    then show ?thesis
      using follow_hop_Next [OF Next] hop_vetted 1 [OF Next]
      by (subst (1 2) follow.simps) (auto simp: split_beta Let_def)
  qed
qed

text \<open>A release host that redirects to a CDN, which redirects to the metadata service.\<close>

definition sample_world :: fetch_world where
  "sample_world =
     \<lparr>parse_url = (\<lambda>s. if s = ''https://rel.example/p'' then Some \<lparr>protocol = ''https:'', hostname = ''rel.example'', origin = ''https://rel.example''\<rparr>
                       else if s = ''https://cdn.example/p'' then Some \<lparr>protocol = ''https:'', hostname = ''cdn.example'', origin = ''https://cdn.example''\<rparr>
                       else if s = ''https://169.254.169.254/'' then Some \<lparr>protocol = ''https:'', hostname = ''169.254.169.254'', origin = ''https://169.254.169.254''\<rparr>
                       else None),
      join_url = (\<lambda>l b. Some l),
      dns_lookup = (\<lambda>n h. if h = ''rel.example'' then Resolved [''93.184.216.34''] else Resolved [''2606:4700::6810'']),
      dns_lookup_v4 = (\<lambda>h. None),
      undiciFetch = (\<lambda>n r. if n = 0 then Some \<lparr>status = 302, opaque_redirect = False, location = Some ''https://cdn.example/p''\<rparr>
                            else Some \<lparr>status = 302, opaque_redirect = False, location = Some ''https://169.254.169.254/''\<rparr>)\<rparr>"

definition sample_env :: fetch_env where
  "sample_env = \<lparr>ssrf_allowed_hosts = None, webhook_ssrf_redirects = None, allow_insecure_redirects = None\<rparr>"

definition sample_init :: req_init where
  "sample_init = \<lparr>init_method = None, init_headers = Some [(''Authorization'', ''t''), (''Accept'', ''zip'')], init_body = None\<rparr>"

definition sample_opts :: fetch_opts where
  "sample_opts = \<lparr>guard = None, followRedirects = True, proxyUrl = None\<rparr>"

text \<open>
  C4: No guarded fetch contacts an internal address on its own account. Whatever the resolver answers at
  each lookup (rebinding included) and wherever a redirect points, every request a guarded fetch issues
  has an http or https URL and does not let the client follow redirects; and unless its host is one the
  operator allowlisted, a request made directly or through a SOCKS proxy is for addresses the classifier
  does not block, while behind an HTTP proxy, which is handed the host by name and resolves it itself,
  that host is an allowed literal or had only allowed addresses at the lookup just before the request. At
  most six requests are issued, one when redirects are not followed.
\<close>

theorem guarded_fetch_vetted:
  assumes "guard opts \<noteq> Some False"
  shows "all_vetted w env 0 (snd (withSafeFetch w env raw init opts))
    \<and> length (snd (withSafeFetch w env raw init opts)) \<le> (if followRedirects opts then 6 else 1)"
proof (cases "followRedirects opts")
  case True
  then show ?thesis
    using assms follow_vetted [of w env 0 "proxyUrl opts" raw None init False]
    by (auto simp: withSafeFetch_def MAX_REDIRECT_HOPS_def)
next
  case False
  then show ?thesis
    using assms by (auto simp: withSafeFetch_def Let_def intro: hop_vetted split: sum.splits)
qed

theorem guarded_fetch_vetted_witness:
  "fst (withSafeFetch sample_world sample_env ''https://rel.example/p'' sample_init sample_opts) = Inl (SsrfBlocked InternalLiteral)
   \<and> length (snd (withSafeFetch sample_world sample_env ''https://rel.example/p'' sample_init sample_opts)) = 2
   \<and> all_vetted sample_world sample_env 0 (snd (withSafeFetch sample_world sample_env ''https://rel.example/p'' sample_init sample_opts))"
proof -
  have "guard sample_opts \<noteq> Some False"
    by (simp add: sample_opts_def)
  from guarded_fetch_vetted [OF this, of sample_world sample_env "''https://rel.example/p''" sample_init]
  have "all_vetted sample_world sample_env 0 (snd (withSafeFetch sample_world sample_env ''https://rel.example/p'' sample_init sample_opts))"
    by blast
  moreover have "fst (withSafeFetch sample_world sample_env ''https://rel.example/p'' sample_init sample_opts) = Inl (SsrfBlocked InternalLiteral)"
    by code_simp
  moreover have "length (snd (withSafeFetch sample_world sample_env ''https://rel.example/p'' sample_init sample_opts)) = 2"
    by code_simp
  ultimately show ?thesis
    by blast
qed

section \<open>What a redirect carries\<close>

definition credential_free :: "req_init \<Rightarrow> bool" where
  "credential_free i \<longleftrightarrow> (case init_headers i of None \<Rightarrow> True | Some hs \<Rightarrow> \<forall>(name, v) \<in> set hs. \<not> credential_header name)"

definition request_url :: "fetch_world \<Rightarrow> issued \<Rightarrow> url" where
  "request_url w r = the (parse_url w (req_url r))"

lemma nextRedirect_credentials:
  assumes "nextRedirectHopInit w i st nextUrl o0 = Inr nextInit"
  obtains u where "parse_url w nextUrl = Some u" "credential_free i \<or> origin u \<noteq> o0 \<longrightarrow> credential_free nextInit"
  using assms
  by (auto simp: nextRedirectHopInit_def bodiless_get_def credential_free_def Let_def split: option.splits if_splits)

lemma follow_credentials:
  assumes "parse_url w u = Some cur" and "o0 = (case ori of Some x \<Rightarrow> x | None \<Rightarrow> origin cur)"
    and "origin cur \<noteq> o0 \<longrightarrow> credential_free i"
  shows "\<forall>r \<in> set (snd (follow w env p hop u ori i saw)). origin (request_url w r) \<noteq> o0 \<longrightarrow> credential_free (req_init r)"
  using assms
proof (induction w env p hop u ori i saw arbitrary: cur rule: follow.induct)
  case (1 w env p hop u ori i saw)
  show ?case
  proof (cases "follow_hop w env p hop u ori i saw")
    case (Stop r rs)
    then show ?thesis
      using follow_hop_Stop [OF Stop] 1(2-4) by (subst follow.simps) (auto simp: hop_request_def request_url_def)
  next
    case (Next req nextUrl o1 nextInit saw')
    then obtain d st where h: "req = hop_request u i d" "o1 = o0" "nextRedirectHopInit w i st nextUrl o0 = Inr nextInit"
      using follow_hop_Next [OF Next] 1(2,3) by auto
    obtain n where n: "parse_url w nextUrl = Some n" "credential_free i \<or> origin n \<noteq> o0 \<longrightarrow> credential_free nextInit"
      by (rule nextRedirect_credentials [OF h(3)])
    have "\<forall>r \<in> set (snd (follow w env p (Suc hop) nextUrl (Some o1) nextInit saw')).
        origin (request_url w r) \<noteq> o0 \<longrightarrow> credential_free (req_init r)"
      using 1(1) [OF Next n(1)] h(2) n(2) by auto
    then show ?thesis
      using Next h(1) 1(2-4) by (subst follow.simps) (auto simp: split_beta Let_def hop_request_def request_url_def)
  qed
qed

lemma follow_secure:
  assumes "\<not> isInsecureRedirectHopAllowed env"
  shows "(saw \<longrightarrow> (\<forall>r \<in> set (snd (follow w env p hop u ori i saw)). protocol (request_url w r) \<noteq> ''http:''))
    \<and> sorted_wrt (\<lambda>r q. protocol (request_url w r) = ''https:'' \<longrightarrow> protocol (request_url w q) \<noteq> ''http:'')
        (snd (follow w env p hop u ori i saw))"
  using assms
proof (induction w env p hop u ori i saw rule: follow.induct)
  case (1 w env p hop u ori i saw)
  show ?case
  proof (cases "follow_hop w env p hop u ori i saw")
    case (Stop r rs)
    then show ?thesis
      using follow_hop_Stop [OF Stop] 1(2) by (subst (1 2) follow.simps) (auto simp: hop_request_def request_url_def)
  next
    case (Next req nextUrl o1 nextInit saw')
    then show ?thesis
      using follow_hop_Next [OF Next] 1(1) [OF Next 1(2)] 1(2)
      by (subst (1 2) follow.simps) (auto simp: split_beta Let_def hop_request_def request_url_def)
  qed
qed

text \<open>
  C30: What a download that follows redirects discloses on the way. A request to an origin other than
  the first one carries no Authorization and no Cookie header, not even when an earlier hop was back
  at the first origin; and, unless the operator allowed it, no hop after an https hop is plain http.
\<close>

theorem redirects_keep_secrets:
  assumes "guard opts \<noteq> Some False" and "followRedirects opts" and "parse_url w raw = Some first"
  shows "(\<forall>r \<in> set (snd (withSafeFetch w env raw init opts)).
           origin (request_url w r) \<noteq> origin first \<longrightarrow> credential_free (req_init r))
    \<and> (isInsecureRedirectHopAllowed env \<or>
       sorted_wrt (\<lambda>r q. protocol (request_url w r) = ''https:'' \<longrightarrow> protocol (request_url w q) \<noteq> ''http:'')
         (snd (withSafeFetch w env raw init opts)))"
  using assms follow_credentials [OF assms(3), of "origin first" None init env "proxyUrl opts" 0 False]
    follow_secure [of env False w "proxyUrl opts" 0 raw None init]
  by (auto simp: withSafeFetch_def)

theorem redirects_keep_secrets_witness:
  "list_all (\<lambda>r. origin (request_url sample_world r) \<noteq> ''https://rel.example'' \<longrightarrow> credential_free (req_init r))
     (snd (withSafeFetch sample_world sample_env ''https://rel.example/p'' sample_init sample_opts))"
proof -
  have "guard sample_opts \<noteq> Some False" "followRedirects sample_opts"
    "parse_url sample_world ''https://rel.example/p'' =
       Some \<lparr>protocol = ''https:'', hostname = ''rel.example'', origin = ''https://rel.example''\<rparr>"
    by (simp_all add: sample_opts_def sample_world_def)
  from redirects_keep_secrets [OF this, of sample_env sample_init] show ?thesis
    by (simp add: list_all_iff)
qed

end
