(* ===== verification/Wa_Id.thy ===== *)
theory Wa_Id
  imports Prelude
begin

text \<open>
  Engine-neutral WhatsApp identity: \<^verbatim>\<open>src/src/engine/identity/wa-id.ts\<close> (parsing a JID, the neutral
  dialect, participant ids) and \<^verbatim>\<open>jid-candidates.ts\<close> (every stored form of one entity). The lemmas
  describe what a parsed user part looks like, that reparsing a qualified id gives its parts back,
  and hence that the neutral form is a normal form.
\<close>

section \<open>Parsing\<close>

datatype wa_id_kind = UserKind | GroupKind | LidKind | StatusKind | NewsletterKind | BroadcastKind | UnknownKind

record parsed_wa_id =
  kind :: wa_id_kind
  user_part :: string
  device :: "string option"
  raw :: string

definition DOMAIN_KINDS :: "string \<rightharpoonup> wa_id_kind" where
  "DOMAIN_KINDS = map_of
     [(''c.us'', UserKind),
      (''s.whatsapp.net'', UserKind),
      (''lid'', LidKind),
      (''hosted'', UserKind),
      (''hosted.lid'', LidKind),
      (''g.us'', GroupKind),
      (''newsletter'', NewsletterKind),
      (''broadcast'', BroadcastKind)]"

definition userPart :: "string \<Rightarrow> string" where
  "userPart jid = hd (split_on (CHR '':'') (hd (split_on (CHR ''@'') jid)))"

definition parseWaId :: "string \<Rightarrow> parsed_wa_id" where
  "parseWaId jid =
     (let lower = toLowerCase (trim jid)
      in if lower = ''status@broadcast''
         then \<lparr>kind = StatusKind, user_part = ''status'', device = None, raw = jid\<rparr>
         else case lastIndexOf (CHR ''@'') lower of
           None \<Rightarrow> \<lparr>kind = UnknownKind, user_part = lower, device = None, raw = jid\<rparr>
         | Some at \<Rightarrow>
             (let domain = drop (Suc at) lower;
                  parts = split_on (CHR '':'') (take at lower);
                  local = hd parts;
                  dev = (case tl parts of [] \<Rightarrow> None | d # _ \<Rightarrow> Some d)
              in if indexOf (CHR ''@'') lower \<noteq> Some at \<or> local = []
                 then \<lparr>kind = UnknownKind, user_part = [], device = None, raw = jid\<rparr>
                 else \<lparr>kind = (case DOMAIN_KINDS domain of Some k \<Rightarrow> k | None \<Rightarrow> UnknownKind),
                       user_part = local, device = dev, raw = jid\<rparr>))"

section \<open>Predicates and the neutral dialect\<close>

definition NUMERIC_ID :: "string \<Rightarrow> bool" where
  "NUMERIC_ID s = digits5 s"

definition isIndividualWid :: "string \<Rightarrow> bool" where
  "isIndividualWid v =
     (let p = parseWaId (trim v)
      in (kind p = UserKind \<or> kind p = LidKind) \<and> NUMERIC_ID (user_part p))"

definition isAddressableParticipant :: "string \<Rightarrow> bool" where
  "isAddressableParticipant v = (isIndividualWid (trim v) \<or> NUMERIC_ID (trim v))"

text \<open>The optional \<open>resolvePhone\<close> callback; \<open>None\<close> where the caller passes none.\<close>

type_synonym phone_resolver = "(string \<Rightarrow> string option) option"

definition toNeutralJid :: "string \<Rightarrow> phone_resolver \<Rightarrow> string" where
  "toNeutralJid jid resolvePhone =
     (if jid = [] then jid
      else let p = parseWaId jid
           in case kind p of
             UserKind \<Rightarrow> user_part p @ ''@c.us''
           | GroupKind \<Rightarrow> user_part p @ ''@g.us''
           | LidKind \<Rightarrow>
               (let phone = (case resolvePhone of None \<Rightarrow> None | Some f \<Rightarrow> f jid)
                in if truthy phone then the phone @ ''@c.us'' else user_part p @ ''@lid'')
           | StatusKind \<Rightarrow> ''status@broadcast''
           | NewsletterKind \<Rightarrow> user_part p @ ''@newsletter''
           | BroadcastKind \<Rightarrow> user_part p @ ''@broadcast''
           | UnknownKind \<Rightarrow> jid)"

definition toParticipantWid :: "string \<Rightarrow> string" where
  "toParticipantWid v =
     (let t = trim v
      in if NUMERIC_ID t then t @ ''@c.us''
         else if isIndividualWid t then toNeutralJid t None else t)"

definition isChannelJid :: "string \<Rightarrow> bool" where
  "isChannelJid jid = (kind (parseWaId jid) = NewsletterKind)"

datatype chat_kind = IndividualChat | GroupChat | ChannelChat | StatusChat | BroadcastChat | UnknownChat

definition chatKind :: "string \<Rightarrow> chat_kind" where
  "chatKind jid =
     (case kind (parseWaId jid) of
        UserKind \<Rightarrow> IndividualChat
      | LidKind \<Rightarrow> IndividualChat
      | GroupKind \<Rightarrow> GroupChat
      | NewsletterKind \<Rightarrow> ChannelChat
      | StatusKind \<Rightarrow> StatusChat
      | BroadcastKind \<Rightarrow> BroadcastChat
      | UnknownKind \<Rightarrow> UnknownChat)"

section \<open>Candidates: every stored form of one entity\<close>

text \<open>
  The \<open>ContactDirectory\<close> a caller may pass: the two lookups, awaited in the source. \<open>resolveLid\<close>
  answers \<open>None\<close> for null and undefined.
\<close>

record contact_directory =
  resolveLid :: "string \<Rightarrow> string option"
  lidsForPhone :: "string \<Rightarrow> string list"

definition resolveJidCandidates :: "string \<Rightarrow> contact_directory option \<Rightarrow> string list" where
  "resolveJidCandidates v directory =
     (let p = parseWaId v
      in if kind p = GroupKind then [user_part p @ ''@g.us'']
         else if kind p \<noteq> UserKind \<and> kind p \<noteq> LidKind
                 \<and> (kind p \<noteq> UnknownKind \<or> CHR ''@'' \<in> set v) then [v]
         else if kind p = LidKind then
           (let resolved = (case directory of None \<Rightarrow> None | Some d \<Rightarrow> resolveLid d (user_part p))
            in js_set ((user_part p @ ''@lid'') #
                 (if truthy resolved then [the resolved @ ''@c.us'', the resolved @ ''@s.whatsapp.net'']
                  else [])))
         else
           (let phone = user_part p;
                lids = (case directory of None \<Rightarrow> [] | Some d \<Rightarrow> lidsForPhone d phone)
            in js_set (v # (phone @ ''@c.us'') # (phone @ ''@s.whatsapp.net'') #
                 map (\<lambda>lid. lid @ ''@lid'') lids)))"

text \<open>
  What a directory promises its clients: on user parts (which hold no separator) the two lookups are
  one relation read in both directions, and the batched lookups of the list filters answer what the
  single ones do.
\<close>

definition sep_free :: "string \<Rightarrow> bool" where
  "sep_free u \<longleftrightarrow> CHR ''@'' \<notin> set u \<and> CHR '':'' \<notin> set u"

locale contact_directory_laws =
  fixes phone_of :: "string \<Rightarrow> string option"
    and lids_of :: "string \<Rightarrow> string list"
  assumes inverse: "sep_free l \<Longrightarrow> p \<noteq> [] \<Longrightarrow> l \<in> set (lids_of p) \<longleftrightarrow> phone_of l = Some p"

locale scope_directory_laws = contact_directory_laws +
  fixes phones_for :: "string list \<Rightarrow> (string \<times> string option) list"
    and lids_for :: "string list \<Rightarrow> (string \<times> string list) list"
  assumes batch_phones: "list_all sep_free ls \<Longrightarrow> set (phones_for ls) = (\<lambda>l. (l, phone_of l)) ` set ls"
    and batch_lids_keys: "fst ` set (lids_for ps) = set ps"
    and batch_lids: "(p, ls) \<in> set (lids_for ps) \<Longrightarrow> set ls = set (lids_of p)"

section \<open>What a parsed user part looks like\<close>

text \<open>The user part of a recognised id: nonempty, lower case, no separator, no leading space.\<close>

definition clean_local :: "string \<Rightarrow> bool" where
  "clean_local u \<longleftrightarrow>
     u \<noteq> [] \<and> CHR ''@'' \<notin> set u \<and> CHR '':'' \<notin> set u \<and> toLowerCase u = u \<and> \<not> js_ws (hd u)"

definition clean_domain :: "string \<Rightarrow> bool" where
  "clean_domain d \<longleftrightarrow> d \<noteq> [] \<and> CHR ''@'' \<notin> set d \<and> toLowerCase d = d \<and> \<not> js_ws (last d)"

lemma clean_domains [simp]:
  "clean_domain ''c.us''" "clean_domain ''s.whatsapp.net''" "clean_domain ''lid''"
  "clean_domain ''hosted''" "clean_domain ''hosted.lid''" "clean_domain ''g.us''"
  "clean_domain ''newsletter''" "clean_domain ''broadcast''"
  by code_simp+

lemma clean_local_digits: "digits5 u \<Longrightarrow> clean_local u"
  unfolding digits5_def clean_local_def
  by (cases u) (auto simp: toLowerCase_fix_iff list_all_iff is_digit_props)

lemma clean_local_sep_free: "clean_local u \<Longrightarrow> sep_free u"
  by (simp add: clean_local_def sep_free_def)

lemma lower_trim_hd:
  assumes "toLowerCase (trim j) = c # s"
  shows "\<not> js_ws c"
  using assms trim_hd [of j] by (cases "trim j") (auto simp: toLowerCase_def)

text \<open>Reparsing a qualified id gives its parts back.\<close>

lemma parse_qualified:
  assumes u: "clean_local u" and d: "clean_domain d" and ns: "u @ CHR ''@'' # d \<noteq> ''status@broadcast''"
  shows "parseWaId (u @ CHR ''@'' # d) =
    \<lparr>kind = (case DOMAIN_KINDS d of Some k \<Rightarrow> k | None \<Rightarrow> UnknownKind),
     user_part = u, device = None, raw = u @ CHR ''@'' # d\<rparr>"
proof -
  let ?j = "u @ CHR ''@'' # d"
  have "trim ?j = ?j"
    using u d by (intro trim_fix) (auto simp: clean_local_def clean_domain_def)
  moreover have "toLowerCase ?j = ?j"
    using u d by (auto simp: clean_local_def clean_domain_def toLowerCase_def lower_char_def)
  moreover have "lastIndexOf (CHR ''@'') ?j = Some (length u)"
    using d by (intro lastIndexOf_split) (auto simp: clean_domain_def)
  moreover have "indexOf (CHR ''@'') ?j = Some (length u)"
    using u by (intro indexOf_split) (auto simp: clean_local_def)
  moreover have "split_on (CHR '':'') u = [u]" "u \<noteq> []"
    using u by (auto simp: clean_local_def)
  ultimately show ?thesis
    using ns by (simp add: parseWaId_def Let_def)
qed

lemma parse_known_clean:
  assumes "kind (parseWaId j) \<noteq> UnknownKind"
  shows "clean_local (user_part (parseWaId j))"
proof -
  let ?l = "toLowerCase (trim j)"
  show ?thesis
  proof (cases "?l = ''status@broadcast''")
    case True
    then have "user_part (parseWaId j) = ''status''"
      by (simp add: parseWaId_def)
    moreover have "clean_local ''status''" by code_simp
    ultimately show ?thesis by simp
  next
    case False
    with assms obtain at where at: "lastIndexOf (CHR ''@'') ?l = Some at"
      by (auto simp: parseWaId_def Let_def split: option.splits)
    let ?u = "hd (split_on (CHR '':'') (take at ?l))"
    from False at assms have i: "indexOf (CHR ''@'') ?l = Some at" and ne: "?u \<noteq> []"
      and up: "user_part (parseWaId j) = ?u"
      by (auto simp: parseWaId_def Let_def split: if_splits)
    have no_at: "CHR ''@'' \<notin> set (take at ?l)"
      using i indexOf_eq_lastIndexOf [OF at] by blast
    have u: "?u = takeWhile (\<lambda>x. x \<noteq> CHR '':'') (take at ?l)"
      by (rule hd_split_on)
    have "set ?u \<subseteq> set ?l"
      using u by (metis set_take_subset set_takeWhileD subset_code(1))
    then have "toLowerCase ?u = ?u"
      unfolding toLowerCase_fix_iff by (blast intro: lower_char_toLowerCase)
    moreover have "\<not> js_ws (hd ?u)"
    proof -
      from ne u have "take at ?l \<noteq> []" "hd ?u = hd (take at ?l)"
        using hd_takeWhile_ne [of "\<lambda>x. x \<noteq> CHR '':''" "take at ?l"] by auto
      then show ?thesis
        using lower_trim_hd [of j] by (cases ?l; cases at) auto
    qed
    moreover have "CHR ''@'' \<notin> set ?u" "CHR '':'' \<notin> set ?u"
      using no_at u by (auto dest: set_takeWhileD)
    ultimately show ?thesis
      using ne up by (simp add: clean_local_def)
  qed
qed

lemma DOMAIN_KINDS_simps [simp]:
  "DOMAIN_KINDS ''c.us'' = Some UserKind"
  "DOMAIN_KINDS ''s.whatsapp.net'' = Some UserKind"
  "DOMAIN_KINDS ''lid'' = Some LidKind"
  "DOMAIN_KINDS ''hosted'' = Some UserKind"
  "DOMAIN_KINDS ''hosted.lid'' = Some LidKind"
  "DOMAIN_KINDS ''g.us'' = Some GroupKind"
  "DOMAIN_KINDS ''newsletter'' = Some NewsletterKind"
  "DOMAIN_KINDS ''broadcast'' = Some BroadcastKind"
  by (simp_all add: DOMAIN_KINDS_def)

lemma parse_dialects:
  assumes "clean_local u"
  shows "parseWaId (u @ ''@c.us'') = \<lparr>kind = UserKind, user_part = u, device = None, raw = u @ ''@c.us''\<rparr>"
    and "parseWaId (u @ ''@s.whatsapp.net'') =
           \<lparr>kind = UserKind, user_part = u, device = None, raw = u @ ''@s.whatsapp.net''\<rparr>"
    and "parseWaId (u @ ''@lid'') = \<lparr>kind = LidKind, user_part = u, device = None, raw = u @ ''@lid''\<rparr>"
    and "parseWaId (u @ ''@g.us'') = \<lparr>kind = GroupKind, user_part = u, device = None, raw = u @ ''@g.us''\<rparr>"
    and "parseWaId (u @ ''@newsletter'') =
           \<lparr>kind = NewsletterKind, user_part = u, device = None, raw = u @ ''@newsletter''\<rparr>"
  using parse_qualified [OF assms clean_domains(1)] parse_qualified [OF assms clean_domains(2)]
    parse_qualified [OF assms clean_domains(3)] parse_qualified [OF assms clean_domains(6)]
    parse_qualified [OF assms clean_domains(7)]
  by (auto dest: arg_cong [where f = last])

lemma parse_broadcast:
  assumes "clean_local u"
  shows "kind (parseWaId (u @ ''@broadcast'')) = (if u = ''status'' then StatusKind else BroadcastKind)
       \<and> user_part (parseWaId (u @ ''@broadcast'')) = u"
proof (cases "u = ''status''")
  case True
  have "kind (parseWaId ''status@broadcast'') = StatusKind"
    "user_part (parseWaId ''status@broadcast'') = ''status''"
    by code_simp+
  with True show ?thesis by simp
next
  case False
  then have "u @ CHR ''@'' # ''broadcast'' \<noteq> ''status@broadcast''"
    using append_same_eq [of u "''@broadcast''" "''status''"] by simp
  from parse_qualified [OF assms clean_domains(8) this] False show ?thesis
    by simp
qed

lemma digits_dialects:
  assumes "digits5 u"
  shows "kind (parseWaId (u @ ''@c.us'')) = UserKind" "user_part (parseWaId (u @ ''@c.us'')) = u"
    "kind (parseWaId (u @ ''@lid'')) = LidKind" "user_part (parseWaId (u @ ''@lid'')) = u"
  using parse_dialects [OF clean_local_digits [OF assms]] by simp_all

lemma parse_Nil: "kind (parseWaId []) = UnknownKind"
  by code_simp

section \<open>The neutral form is a normal form\<close>

text \<open>The ids of the neutral dialect that name an entity by its user part.\<close>

definition neutral_forms :: "string \<Rightarrow> string list" where
  "neutral_forms u = [u @ ''@c.us'', u @ ''@g.us'', u @ ''@lid'', u @ ''@newsletter'', u @ ''@broadcast'']"

lemma toNeutral_fixes_forms:
  assumes "clean_local u" and "j \<in> set (neutral_forms u)"
  shows "toNeutralJid j None = j"
proof -
  have "j \<noteq> []" using assms(2) by (auto simp: neutral_forms_def)
  with assms parse_dialects [OF assms(1)] parse_broadcast [OF assms(1)] show ?thesis
    by (auto simp: neutral_forms_def toNeutralJid_def Let_def split: if_splits)
qed

lemma toNeutral_in_forms:
  assumes "kind (parseWaId j) \<noteq> UnknownKind"
    and "\<And>f p. r = Some f \<Longrightarrow> f j = Some p \<Longrightarrow> digits5 p"
  shows "\<exists>u. clean_local u \<and> toNeutralJid j r \<in> set (neutral_forms u)"
proof -
  let ?p = "parseWaId j"
  let ?phone = "case r of None \<Rightarrow> None | Some f \<Rightarrow> f j"
  have clean: "clean_local (user_part ?p)"
    using assms(1) by (rule parse_known_clean)
  have ne: "j \<noteq> []"
    using assms(1) parse_Nil by auto
  have phone: "truthy ?phone \<Longrightarrow> clean_local (the ?phone)"
    using assms(2) by (auto simp: truthy_iff intro: clean_local_digits split: option.splits)
  have status: "clean_local ''status''" by code_simp
  show ?thesis
  proof (cases "kind ?p")
    case LidKind
    then show ?thesis
      using clean phone ne by (cases "truthy ?phone") (auto simp: toNeutralJid_def Let_def neutral_forms_def)
  next
    case StatusKind
    then have "toNeutralJid j r \<in> set (neutral_forms ''status'')"
      using ne by (simp add: toNeutralJid_def neutral_forms_def)
    with status show ?thesis by blast
  qed (use clean ne assms(1) in \<open>auto simp: toNeutralJid_def Let_def neutral_forms_def\<close>)
qed

text \<open>
  Reducing a JID to the neutral dialect is idempotent, whatever phone resolver the first
  reduction used (phones being digit strings), and a recognised id always lands in the neutral
  dialect: a separator-free, lower-case user part under \<open>c.us\<close>, \<open>g.us\<close>, \<open>lid\<close>, \<open>newsletter\<close> or
  \<open>broadcast\<close>, so never under \<open>s.whatsapp.net\<close> and never with a device suffix.
\<close>

theorem neutral_normal_form:
  assumes "\<And>f p. r = Some f \<Longrightarrow> f j = Some p \<Longrightarrow> digits5 p"
  shows "toNeutralJid (toNeutralJid j r) None = toNeutralJid j r
       \<and> (kind (parseWaId j) \<noteq> UnknownKind \<longrightarrow>
            (\<exists>u. clean_local u \<and> toNeutralJid j r \<in> set (neutral_forms u)))"
proof (cases "kind (parseWaId j) = UnknownKind")
  case True
  then have "toNeutralJid j r' = j" for r'
    by (simp add: toNeutralJid_def Let_def)
  with True show ?thesis by simp
next
  case False
  then have "\<exists>u. clean_local u \<and> toNeutralJid j r \<in> set (neutral_forms u)"
    using assms by (rule toNeutral_in_forms)
  with toNeutral_fixes_forms show ?thesis by blast
qed

theorem neutral_normal_form_witness:
  "toNeutralJid (toNeutralJid ''628:12@S.whatsapp.net'' (Some (\<lambda>_. Some ''62812345''))) None = ''628@c.us''"
proof -
  have "toNeutralJid ''628:12@S.whatsapp.net'' (Some (\<lambda>_. Some ''62812345'')) = ''628@c.us''"
    by code_simp
  moreover have "digits5 ''62812345''" by code_simp
  ultimately show ?thesis
    using neutral_normal_form [of "Some (\<lambda>_. Some ''62812345'')" "''628:12@S.whatsapp.net''"]
    by auto
qed

section \<open>Participants\<close>

lemma isIndividualWid_forms:
  "digits5 u \<Longrightarrow> isIndividualWid (u @ ''@c.us'') \<and> isIndividualWid (u @ ''@lid'')"
proof -
  assume u: "digits5 u"
  then have "trim (u @ ''@c.us'') = u @ ''@c.us''" "trim (u @ ''@lid'') = u @ ''@lid''"
    using clean_local_digits [OF u] by (auto intro!: trim_fix simp: clean_local_def js_ws_def)
  with digits_dialects [OF u] u show ?thesis
    by (simp add: isIndividualWid_def NUMERIC_ID_def)
qed

lemma toParticipantWid_form:
  assumes "isAddressableParticipant v"
  obtains d where "digits5 d" "toParticipantWid v = d @ ''@c.us'' \<or> toParticipantWid v = d @ ''@lid''"
proof (cases "NUMERIC_ID (trim v)")
  case True
  then show ?thesis
    by (intro that [of "trim v"]) (simp_all add: toParticipantWid_def NUMERIC_ID_def)
next
  case False
  let ?p = "parseWaId (trim v)"
  from False assms have ind: "isIndividualWid (trim v)"
    by (simp add: isAddressableParticipant_def)
  then have k: "kind ?p = UserKind \<or> kind ?p = LidKind" and d: "digits5 (user_part ?p)"
    by (auto simp: isIndividualWid_def NUMERIC_ID_def Let_def)
  from k have "trim v \<noteq> []"
    using parse_Nil by auto
  with False ind k show ?thesis
    by (intro that [OF d]) (auto simp: toParticipantWid_def toNeutralJid_def Let_def)
qed

text \<open>
  Every string the group endpoints accept as a participant is sent to the engine as a digit
  string under \<open>c.us\<close> or \<open>lid\<close>, which the check accepts again and the conversion leaves alone; a
  string the check refuses is only trimmed.
\<close>

theorem participant_wid_qualified:
  "(isAddressableParticipant v \<longrightarrow>
      (\<exists>d. digits5 d \<and> toParticipantWid v \<in> {d @ ''@c.us'', d @ ''@lid''})
      \<and> isAddressableParticipant (toParticipantWid v)
      \<and> toParticipantWid (toParticipantWid v) = toParticipantWid v)
   \<and> (\<not> isAddressableParticipant v \<longrightarrow> toParticipantWid v = trim v)"
proof (intro conjI impI)
  assume "isAddressableParticipant v"
  then obtain d where d: "digits5 d"
    and w: "toParticipantWid v = d @ ''@c.us'' \<or> toParticipantWid v = d @ ''@lid''"
    by (rule toParticipantWid_form)
  let ?w = "toParticipantWid v"
  show "\<exists>d. digits5 d \<and> ?w \<in> {d @ ''@c.us'', d @ ''@lid''}"
    using d w by auto
  have c: "clean_local d" using d by (rule clean_local_digits)
  have t: "trim ?w = ?w"
    using w c by (intro trim_fix) (auto simp: clean_local_def js_ws_def)
  have ind: "isIndividualWid ?w"
    using w isIndividualWid_forms [OF d] by auto
  then show "isAddressableParticipant ?w"
    by (simp add: isAddressableParticipant_def t)
  have "\<not> NUMERIC_ID ?w"
    using w by (auto simp: NUMERIC_ID_def digits5_def)
  moreover have "toNeutralJid ?w None = ?w"
    using w c by (intro toNeutral_fixes_forms [OF c]) (auto simp: neutral_forms_def)
  ultimately show "toParticipantWid ?w = ?w"
    using ind t by (simp add: toParticipantWid_def Let_def)
next
  assume "\<not> isAddressableParticipant v"
  then show "toParticipantWid v = trim v"
    by (simp add: isAddressableParticipant_def toParticipantWid_def Let_def)
qed

theorem participant_wid_qualified_witness:
  "isAddressableParticipant '' 628123:4@HOSTED.LID '' \<and> toParticipantWid '' 628123:4@HOSTED.LID '' = ''628123@lid''
   \<and> toParticipantWid (toParticipantWid '' 628123:4@HOSTED.LID '') = ''628123@lid''"
proof -
  have "isAddressableParticipant '' 628123:4@HOSTED.LID ''"
    and "toParticipantWid '' 628123:4@HOSTED.LID '' = ''628123@lid''"
    by code_simp+
  then show ?thesis
    using participant_wid_qualified [of "'' 628123:4@HOSTED.LID ''"] by simp
qed

end
