(* ===== verification/Lid_Store.thy ===== *)
theory Lid_Store
  imports Wa_Id
begin

text \<open>
  The persisted lid-to-phone table and its in-memory mirror
  (\<^verbatim>\<open>src/src/engine/identity/lid-mapping-store.service.ts\<close>): the LRU forward map, its reverse index,
  the remembered absences, the warm-back reads, the vetoed table reads the chat fence awaits, the reload,
  and what the writes (\<open>remember\<close>, \<open>rememberIfUnknown\<close>, \<open>clear\<close>, \<open>releaseSession\<close>) do to the mirror
  before, between and after their statements. The statements themselves are represented by their
  outcome (landed with or without an affected row, or failed); the second-lid warnings are left out. The
  invariant \<open>mirror_inv\<close> says that the two indexes describe one relation, that every side
  set is about resident lids, and that the cache respects its cap.
\<close>

section \<open>State\<close>

record lid_row =
  row_phone :: "string option"
  row_session :: "string option"
  is_reported :: bool
  updated_at :: int

text \<open>The table \<open>lid_mappings\<close>, keyed by lid; a read that throws is \<open>None\<close> where it is passed.\<close>

type_synonym lid_table = "(string \<times> lid_row) list"

text \<open>
  An entry of \<open>unsettledWrites\<close>: how many writes of the lid are in flight, and the identity of the
  latest report and of the latest operation (with the phone it carries).
\<close>

record writing =
  write_count :: nat
  latestReport :: "nat option"
  latestOperation :: "(nat \<times> string option) option"

record lid_mirror =
  lidToPhone :: "(string \<times> string option) list"
  unreported :: "string set"
  phoneToLids :: "string \<rightharpoonup> string list"
  pendingLookups :: "string set"
  absentFromTable :: "string list"
  unsettledWrites :: "string \<rightharpoonup> writing"
  racedLookups :: "string set"
  seenBy :: "string \<rightharpoonup> string set"
  failedWrites :: "string set"
  maxCachedLids :: nat

abbreviation cachedPhone :: "lid_mirror \<Rightarrow> string \<Rightarrow> string option option" where
  "cachedPhone s lid \<equiv> map_of (lidToPhone s) lid"

definition empty_mirror :: "nat \<Rightarrow> lid_mirror" where
  "empty_mirror cap =
     \<lparr>lidToPhone = [], unreported = {}, phoneToLids = Map.empty, pendingLookups = {},
      absentFromTable = [], unsettledWrites = Map.empty, racedLookups = {}, seenBy = Map.empty,
      failedWrites = {}, maxCachedLids = cap\<rparr>"

section \<open>Writing the two indexes\<close>

definition unindex :: "string \<Rightarrow> string \<Rightarrow> lid_mirror \<Rightarrow> lid_mirror" where
  "unindex lid phone s =
     (case phoneToLids s phone of
        None \<Rightarrow> s
      | Some ls \<Rightarrow>
          if lid \<in> set ls then
            (let ls' = removeAll lid ls
             in s\<lparr>phoneToLids := (phoneToLids s)(phone := (if ls' = [] then None else Some ls'))\<rparr>)
          else s)"

definition evictOldest :: "string \<Rightarrow> string option \<Rightarrow> lid_mirror \<Rightarrow> lid_mirror" where
  "evictOldest oldest phone s =
     (let s1 = s\<lparr>lidToPhone := js_delete oldest (lidToPhone s),
                 unreported := unreported s - {oldest},
                 seenBy := (seenBy s)(oldest := None),
                 failedWrites := failedWrites s - {oldest},
                 unsettledWrites := (case unsettledWrites s oldest of
                     None \<Rightarrow> unsettledWrites s
                   | Some w \<Rightarrow> (unsettledWrites s)(oldest \<mapsto> w\<lparr>latestReport := None, latestOperation := None\<rparr>))\<rparr>
      in if truthy phone then unindex oldest (the phone) s1 else s1)"

lemma lidToPhone_unindex [simp]: "lidToPhone (unindex l p s) = lidToPhone s"
  by (auto simp: unindex_def Let_def split: option.splits)

lemma lidToPhone_evictOldest [simp]: "lidToPhone (evictOldest l p s) = js_delete l (lidToPhone s)"
  by (simp add: evictOldest_def Let_def)

function evictIfOverCap :: "lid_mirror \<Rightarrow> lid_mirror" where
  "evictIfOverCap s =
     (if maxCachedLids s = 0 then s
      else if maxCachedLids s < length (lidToPhone s) then
        (case lidToPhone s of
           [] \<Rightarrow> s
         | (oldest, phone) # _ \<Rightarrow> evictIfOverCap (evictOldest oldest phone s))
      else s)"
  by pat_completeness auto
termination
  by (relation "measure (\<lambda>s. length (lidToPhone s))")
     (auto simp: js_delete_def less_Suc_eq_le)

declare evictIfOverCap.simps [simp del]

text \<open>The writes of \<open>index\<close> after the stale reverse entry is gone, before it evicts.\<close>

definition storeEntry :: "string \<Rightarrow> string option \<Rightarrow> string set \<Rightarrow> lid_mirror \<Rightarrow> lid_mirror" where
  "storeEntry lid phone seen s =
     (let s1 = s\<lparr>seenBy := (seenBy s)(lid := (if truthy phone then Some seen else None)),
                 lidToPhone := js_delete lid (lidToPhone s) @ [(lid, phone)]\<rparr>;
          s2 = (if truthy phone then
                  (let ls = (case phoneToLids s1 (the phone) of None \<Rightarrow> [] | Some x \<Rightarrow> x)
                   in s1\<lparr>phoneToLids := (phoneToLids s1)(the phone \<mapsto> (if lid \<in> set ls then ls else ls @ [lid]))\<rparr>)
                else s1)
      in s2\<lparr>absentFromTable := removeAll lid (absentFromTable s2)\<rparr>)"

definition index :: "string \<Rightarrow> string option \<Rightarrow> string option \<Rightarrow> bool \<Rightarrow> lid_mirror \<Rightarrow> lid_mirror" where
  "index lid phone sessionId isReported s =
     (let previouslyReported = (lid \<notin> unreported s);
          s1 = s\<lparr>unreported := (if isReported then unreported s - {lid} else insert lid (unreported s))\<rparr>;
          prev = (case cachedPhone s1 lid of None \<Rightarrow> None | Some p \<Rightarrow> p);
          s2 = (if truthy prev \<and> prev \<noteq> phone then unindex lid (the prev) s1 else s1);
          seen0 = (if isReported \<and> previouslyReported \<and> cachedPhone s1 lid = Some phone
                   then (case seenBy s2 lid of None \<Rightarrow> {} | Some x \<Rightarrow> x) else {});
          seen = (if isReported \<and> truthy sessionId then insert (the sessionId) seen0 else seen0)
      in evictIfOverCap (storeEntry lid phone seen s2))"

definition noteAbsent :: "string \<Rightarrow> lid_mirror \<Rightarrow> lid_mirror" where
  "noteAbsent lid s =
     (if maxCachedLids s = 0 then s
      else let a = (if lid \<in> set (absentFromTable s) then absentFromTable s else absentFromTable s @ [lid])
           in s\<lparr>absentFromTable := drop (length a - maxCachedLids s) a\<rparr>)"

section \<open>Synchronous reads\<close>

definition warmFromTable :: "string \<Rightarrow> lid_mirror \<Rightarrow> lid_mirror" where
  "warmFromTable lid s =
     (if lid = [] \<or> lid \<in> pendingLookups s \<or> lid \<in> set (absentFromTable s) then s
      else s\<lparr>pendingLookups := insert lid (pendingLookups s)\<rparr>)"

text \<open>
  The continuation of the warm-back read: \<open>writeInFlight\<close> was captured before the query, \<open>answer\<close> is
  what it returned (\<open>None\<close> when it threw).
\<close>

definition warmAnswered :: "string \<Rightarrow> bool \<Rightarrow> lid_row option option \<Rightarrow> lid_mirror \<Rightarrow> lid_mirror" where
  "warmAnswered lid writeInFlight answer s =
     (let s1 = (case answer of
                  None \<Rightarrow> s
                | Some row \<Rightarrow>
                    if writeInFlight \<or> lid \<in> racedLookups s then s
                    else (case row of
                            Some r \<Rightarrow> if cachedPhone s lid = None
                                      then index lid (row_phone r) (row_session r) (is_reported r) s else s
                          | None \<Rightarrow> if cachedPhone s lid = None then noteAbsent lid s else s))
      in s1\<lparr>pendingLookups := pendingLookups s1 - {lid}, racedLookups := racedLookups s1 - {lid}\<rparr>)"

definition getCached :: "string \<Rightarrow> lid_mirror \<Rightarrow> string option option \<times> lid_mirror" where
  "getCached lid s =
     (case cachedPhone s lid of
        Some p \<Rightarrow> (Some p, s\<lparr>lidToPhone := js_delete lid (lidToPhone s) @ [(lid, p)]\<rparr>)
      | None \<Rightarrow> (None, warmFromTable lid s))"

definition resolveLid_cached :: "string \<Rightarrow> lid_mirror \<Rightarrow> string option \<times> lid_mirror" where
  "resolveLid_cached jid s =
     (let lid = userPart jid
      in if lid \<in> unreported s then (None, s)
         else let (r, s') = getCached lid s in (case r of Some p \<Rightarrow> p | None \<Rightarrow> None, s'))"

definition lidsForPhone_cached :: "string \<Rightarrow> lid_mirror \<Rightarrow> string list" where
  "lidsForPhone_cached phone s =
     (case phoneToLids s phone of
        None \<Rightarrow> []
      | Some ls \<Rightarrow> filter (\<lambda>l. l \<notin> unreported s) ls)"

section \<open>Reads that await the table\<close>

definition unstored :: "lid_mirror \<Rightarrow> string \<Rightarrow> bool" where
  "unstored s lid = (unsettledWrites s lid \<noteq> None \<or> lid \<in> failedWrites s)"

definition rowPhone :: "lid_mirror \<Rightarrow> string \<Rightarrow> string option \<Rightarrow> bool \<Rightarrow> string option" where
  "rowPhone s lid phone isReported =
     (if \<not> isReported \<or> (lid \<in> unreported s \<and> unstored s lid) then None
      else if unstored s lid \<and> cachedPhone s lid \<noteq> None \<and> cachedPhone s lid \<noteq> Some phone then None
      else phone)"

definition findPhoneForLid :: "lid_table option \<Rightarrow> string \<Rightarrow> lid_mirror \<Rightarrow> string option \<times> lid_mirror" where
  "findPhoneForLid db jid s =
     (let lid = userPart jid
      in case db of
           Some t \<Rightarrow>
             ((case map_of t lid of
                 None \<Rightarrow> None
               | Some r \<Rightarrow> rowPhone s lid (row_phone r) (is_reported r)), s)
         | None \<Rightarrow>
             if lid \<in> unreported s then (None, s)
             else let (r, s') = getCached lid s in (case r of Some p \<Rightarrow> p | None \<Rightarrow> None, s'))"

definition LID_QUERY_CHUNK :: nat where
  "LID_QUERY_CHUNK = 500"

text \<open>One row of the reverse read, added to its phone's set when the veto lets it answer.\<close>

definition add_read_row :: "lid_mirror \<Rightarrow> string \<times> lid_row \<Rightarrow> (string \<rightharpoonup> string list) \<Rightarrow> (string \<rightharpoonup> string list)" where
  "add_read_row s e out =
     (let lid = fst e; phone = row_phone (snd e)
      in if truthy phone \<and> out (the phone) \<noteq> None
            \<and> rowPhone s lid phone (is_reported (snd e)) = phone
         then out(the phone \<mapsto> (let ls = the (out (the phone)) in if lid \<in> set ls then ls else ls @ [lid]))
         else out)"

definition readLidsForPhones :: "lid_table \<Rightarrow> lid_mirror \<Rightarrow> string list \<Rightarrow> (string \<times> string list) list" where
  "readLidsForPhones t s phones =
     (let out0 = (\<lambda>p. if p \<in> set phones then Some [] else None);
          out = fold (\<lambda>batch. fold (add_read_row s)
                   (filter (\<lambda>e. \<exists>p \<in> set batch. row_phone (snd e) = Some p) (table_rows t)))
                 (chunk LID_QUERY_CHUNK phones) out0
      in map (\<lambda>p. (p, the (out p))) phones)"

definition findLidsForPhone :: "lid_table option \<Rightarrow> lid_mirror \<Rightarrow> string \<Rightarrow> string list" where
  "findLidsForPhone db s phone =
     (case db of
        Some t \<Rightarrow> the (map_of (readLidsForPhones t s [phone]) phone)
      | None \<Rightarrow> filter (\<lambda>l. l \<notin> unreported s) (lidsForPhone_cached phone s))"

text \<open>
  The batched forward read. The reads of the chunks succeed up to the first that throws, of which
  \<open>reads\<close> is the number; the mirror answers for the lids of the others.
\<close>

definition phonesForLidsPersisted ::
    "lid_table \<Rightarrow> nat \<Rightarrow> lid_mirror \<Rightarrow> string list \<Rightarrow> (string \<times> string option) list" where
  "phonesForLidsPersisted t reads s lids =
     (let read = concat (take reads (chunk LID_QUERY_CHUNK lids));
          answer = (\<lambda>lid.
            if lid \<in> set read then
              (case map_of t lid of
                 None \<Rightarrow> None
               | Some r \<Rightarrow> rowPhone s lid (row_phone r) (is_reported r))
            else if lid \<in> unreported s then None
            else (case cachedPhone s lid of Some p \<Rightarrow> p | None \<Rightarrow> None))
      in map (\<lambda>lid. (lid, answer lid)) lids)"

definition lidsForPhonesPersisted ::
    "lid_table option \<Rightarrow> lid_mirror \<Rightarrow> string list \<Rightarrow> (string \<times> string list) list" where
  "lidsForPhonesPersisted db s phones =
     (case db of
        Some t \<Rightarrow> readLidsForPhones t s phones
      | None \<Rightarrow> map (\<lambda>p. (p, filter (\<lambda>l. l \<notin> unreported s) (lidsForPhone_cached p s))) phones)"

section \<open>Reload\<close>

definition reload :: "lid_table option \<Rightarrow> lid_mirror \<Rightarrow> lid_mirror" where
  "reload db s =
     (let s0 = s\<lparr>absentFromTable := []\<rparr>
      in case db of
           None \<Rightarrow> s0
         | Some t \<Rightarrow>
             (let sorted = sort_key (\<lambda>e. - updated_at (snd e)) (table_rows t);
                  rows = (if 0 < maxCachedLids s then take (maxCachedLids s) sorted else sorted);
                  s1 = s0\<lparr>lidToPhone := [], unreported := {}, phoneToLids := Map.empty, seenBy := Map.empty,
                          failedWrites := {},
                          unsettledWrites := (\<lambda>l. map_option
                            (\<lambda>w. w\<lparr>latestReport := None, latestOperation := None\<rparr>) (unsettledWrites s0 l))\<rparr>
              in fold (\<lambda>(lid, r). index lid (row_phone r) (row_session r) (is_reported r)) (rev rows) s1))"

section \<open>Writes\<close>

text \<open>
  A write of a lid is an object with an identity (a number here) and a phone. \<open>beginWrite\<close> runs before
  its statements, \<open>endWrite\<close> after them; the entry of \<open>unsettledWrites\<close> lives as long as some write of
  the lid is unsettled, so it is the same object for all of them.
\<close>

definition beginWrite :: "string \<Rightarrow> nat \<Rightarrow> string option \<Rightarrow> bool \<Rightarrow> lid_mirror \<Rightarrow> lid_mirror" where
  "beginWrite lid operation phone actual s =
     (let w = (case unsettledWrites s lid of
                 None \<Rightarrow> \<lparr>write_count = 0, latestReport = None, latestOperation = None\<rparr> | Some w \<Rightarrow> w);
          w' = w\<lparr>write_count := write_count w + 1, latestOperation := Some (operation, phone),
                 latestReport := (if actual then Some operation else latestReport w)\<rparr>
      in s\<lparr>unsettledWrites := (unsettledWrites s)(lid \<mapsto> w'),
           racedLookups := (if lid \<in> pendingLookups s then insert lid (racedLookups s) else racedLookups s)\<rparr>)"

definition endWrite :: "string \<Rightarrow> lid_mirror \<Rightarrow> lid_mirror" where
  "endWrite lid s =
     (case unsettledWrites s lid of
        None \<Rightarrow> s
      | Some w \<Rightarrow>
          s\<lparr>unsettledWrites := (unsettledWrites s)
              (lid := (if write_count w - 1 > 0 then Some (w\<lparr>write_count := write_count w - 1\<rparr>) else None))\<rparr>)"

definition is_latest_operation :: "string \<Rightarrow> nat \<Rightarrow> lid_mirror \<Rightarrow> bool" where
  "is_latest_operation lid operation s =
     (case unsettledWrites s lid of None \<Rightarrow> False | Some w \<Rightarrow> map_option fst (latestOperation w) = Some operation)"

definition is_latest_report :: "string \<Rightarrow> nat \<Rightarrow> lid_mirror \<Rightarrow> bool" where
  "is_latest_report lid report s =
     (case unsettledWrites s lid of None \<Rightarrow> False | Some w \<Rightarrow> latestReport w = Some report)"

text \<open>
  \<open>rememberIfUnknown\<close> before its statements, after both landed (\<open>affected\<close>: the second changed a row)
  and after one failed. \<open>same\<close> is whether \<open>seenBy\<close> still holds the set object it held at the start.
\<close>

definition rememberIfUnknown_start :: "string \<Rightarrow> string \<Rightarrow> nat \<Rightarrow> lid_mirror \<Rightarrow> lid_mirror" where
  "rememberIfUnknown_start lid phone lookup s =
     (if lid = [] then s
      else let cached = (case cachedPhone s lid of None \<Rightarrow> None | Some p \<Rightarrow> p);
               s1 = (if truthy cached \<and> cached \<noteq> Some phone
                     then s\<lparr>unreported := insert lid (unreported s), seenBy := (seenBy s)(lid \<mapsto> {})\<rparr> else s)
           in beginWrite lid lookup (Some phone) False s1)"

definition rememberIfUnknown_stored :: "string \<Rightarrow> nat \<Rightarrow> bool \<Rightarrow> bool \<Rightarrow> lid_mirror \<Rightarrow> lid_mirror" where
  "rememberIfUnknown_stored lid lookup affected same s =
     (let s1 = (if affected \<and> is_latest_operation lid lookup s \<and> same \<and> cachedPhone s lid \<noteq> None
                then s\<lparr>unreported := insert lid (unreported s)\<rparr> else s)
      in endWrite lid (s1\<lparr>absentFromTable := removeAll lid (absentFromTable s1)\<rparr>))"

definition rememberIfUnknown_failed :: "string \<Rightarrow> nat \<Rightarrow> bool \<Rightarrow> lid_mirror \<Rightarrow> lid_mirror" where
  "rememberIfUnknown_failed lid lookup same s =
     (let s1 = (if is_latest_operation lid lookup s \<and> same \<and> lid \<in> unreported s
                then s\<lparr>failedWrites := insert lid (failedWrites s)\<rparr> else s)
      in endWrite lid s1)"

text \<open>\<open>remember\<close>: whether this node counted the report already, and its part before the statements.\<close>

definition report_seen :: "string \<Rightarrow> string option \<Rightarrow> string option \<Rightarrow> lid_mirror \<Rightarrow> bool" where
  "report_seen lid phone sessionId s \<longleftrightarrow>
     lid \<notin> unreported s \<and> cachedPhone s lid = Some phone
     \<and> (phone = None \<or> \<not> truthy sessionId \<or> (case seenBy s lid of None \<Rightarrow> False | Some x \<Rightarrow> the sessionId \<in> x))"

definition remember_start :: "string \<Rightarrow> string option \<Rightarrow> string option \<Rightarrow> nat \<Rightarrow> lid_mirror \<Rightarrow> lid_mirror" where
  "remember_start lid phone sessionId report s =
     (if lid = [] then s
      else let s1 = (if \<not> report_seen lid phone sessionId s \<and> phone \<noteq> None then index lid phone None True s else s);
               s2 = (if phone \<noteq> None then s1\<lparr>failedWrites := insert lid (failedWrites s1)\<rparr> else s1)
           in beginWrite lid report phone True s2)"

text \<open>\<open>clear\<close> once its statements ran: the cached entry goes when the row was taken and no newer report came.\<close>

definition clear_done :: "string \<Rightarrow> nat \<Rightarrow> bool \<Rightarrow> lid_mirror \<Rightarrow> lid_mirror" where
  "clear_done lid report affected s =
     (if \<not> affected \<or> \<not> is_latest_report lid report s then s
      else let cached = (case cachedPhone s lid of None \<Rightarrow> None | Some p \<Rightarrow> p);
               s1 = s\<lparr>lidToPhone := js_delete lid (lidToPhone s), unreported := unreported s - {lid},
                      seenBy := (seenBy s)(lid := None), failedWrites := failedWrites s - {lid}\<rparr>;
               s2 = (if truthy cached then unindex lid (the cached) s1 else s1)
           in s2\<lparr>absentFromTable := removeAll lid (absentFromTable s2)\<rparr>)"

text \<open>
  The end of a \<open>remember\<close> whose write landed. A phone counts only while \<open>seenBy\<close> still holds the set of
  the start (\<open>same\<close>); \<open>operation\<close> is the latest operation when the write landed. When the lid was
  unreported then, the table is read again: \<open>reread\<close> is that read's answer (\<open>Some None\<close>: no row, or it
  failed), and \<open>None\<close> when there was no such read, so that this is still the moment the write landed.
\<close>

definition remember_stored ::
    "string \<Rightarrow> string option \<Rightarrow> string option \<Rightarrow> nat \<Rightarrow> (nat \<times> string option) option \<Rightarrow> lid_row option option \<Rightarrow> bool \<Rightarrow> lid_mirror \<Rightarrow> lid_mirror" where
  "remember_stored lid phone sessionId report operation reread same s =
     (let reported = (case reread of
                        None \<Rightarrow> lid \<notin> unreported s
                      | Some None \<Rightarrow> False
                      | Some (Some row) \<Rightarrow> is_reported row \<and> row_phone row = phone);
          current = (is_latest_report lid report s \<and> map_option snd operation = Some phone
                     \<and> (case unsettledWrites s lid of None \<Rightarrow> False | Some w \<Rightarrow> latestOperation w = operation));
          s1 = (if phone \<noteq> None \<and> same \<and> reported \<and> current
                then s\<lparr>failedWrites := failedWrites s - {lid}, unreported := unreported s - {lid}\<rparr> else s);
          s2 = (case seenBy s1 lid of
                  None \<Rightarrow> s1
                | Some x \<Rightarrow> if phone \<noteq> None \<and> same \<and> truthy sessionId
                            then s1\<lparr>seenBy := (seenBy s1)(lid \<mapsto> insert (the sessionId) x)\<rparr> else s1)
      in endWrite lid s2)"

definition remember_cleared :: "string \<Rightarrow> nat \<Rightarrow> bool \<Rightarrow> lid_mirror \<Rightarrow> lid_mirror" where
  "remember_cleared lid report affected s = endWrite lid (clear_done lid report affected s)"

text \<open>\<open>releaseSession\<close> drops every set of counted reporters, whether or not its statement lands.\<close>

definition releaseSession :: "lid_mirror \<Rightarrow> lid_mirror" where
  "releaseSession s = s\<lparr>seenBy := Map.empty\<rparr>"

section \<open>The mirror invariant\<close>

definition rev_lids :: "lid_mirror \<Rightarrow> string \<Rightarrow> string set" where
  "rev_lids s p = (case phoneToLids s p of None \<Rightarrow> {} | Some ls \<Rightarrow> set ls)"

text \<open>The lids resident in the forward map, and those of them that hold a phone.\<close>

definition resident :: "lid_mirror \<Rightarrow> string set" where
  "resident s = set (map fst (lidToPhone s))"

definition mapped :: "lid_mirror \<Rightarrow> string set" where
  "mapped s = {l. \<exists>p. p \<noteq> [] \<and> cachedPhone s l = Some (Some p)}"

definition mirror_core :: "lid_mirror \<Rightarrow> bool" where
  "mirror_core s \<longleftrightarrow>
     distinct (map fst (lidToPhone s))
   \<and> (\<forall>p l. l \<in> rev_lids s p \<longleftrightarrow> p \<noteq> [] \<and> cachedPhone s l = Some (Some p))
   \<and> (\<forall>p ls. phoneToLids s p = Some ls \<longrightarrow> ls \<noteq> [])
   \<and> unreported s \<subseteq> resident s
   \<and> failedWrites s \<subseteq> resident s
   \<and> dom (seenBy s) \<subseteq> mapped s"

definition mirror_inv :: "lid_mirror \<Rightarrow> bool" where
  "mirror_inv s \<longleftrightarrow> mirror_core s
   \<and> (0 < maxCachedLids s \<longrightarrow>
        length (lidToPhone s) \<le> maxCachedLids s \<and> length (absentFromTable s) \<le> maxCachedLids s)"

lemma mirror_inv_empty: "mirror_inv (empty_mirror cap)"
  by (simp add: mirror_inv_def mirror_core_def empty_mirror_def rev_lids_def)

lemma removeAll_eq_Nil: "removeAll x xs = [] \<longleftrightarrow> set xs \<subseteq> {x}"
  by (induction xs) auto

lemma unindex_fields [simp]:
  "unreported (unindex l p s) = unreported s" "seenBy (unindex l p s) = seenBy s"
  "failedWrites (unindex l p s) = failedWrites s" "maxCachedLids (unindex l p s) = maxCachedLids s"
  "absentFromTable (unindex l p s) = absentFromTable s" "unsettledWrites (unindex l p s) = unsettledWrites s"
  by (auto simp: unindex_def Let_def split: option.splits)

lemma rev_lids_unindex: "rev_lids (unindex l p s) q = rev_lids s q - (if q = p then {l} else {})"
  by (auto simp: rev_lids_def unindex_def Let_def removeAll_eq_Nil split: option.splits if_splits)

lemma unindex_entries:
  "(\<forall>p ls. phoneToLids s p = Some ls \<longrightarrow> ls \<noteq> []) \<Longrightarrow> phoneToLids (unindex l q s) p = Some ls \<Longrightarrow> ls \<noteq> []"
  by (auto simp: unindex_def Let_def split: option.splits if_splits)

lemma mirror_coreI:
  assumes "distinct (map fst (lidToPhone s))"
    and "\<And>p l. l \<in> rev_lids s p \<longleftrightarrow> p \<noteq> [] \<and> cachedPhone s l = Some (Some p)"
    and "\<And>p ls. phoneToLids s p = Some ls \<Longrightarrow> ls \<noteq> []"
    and "unreported s \<subseteq> resident s" and "failedWrites s \<subseteq> resident s" and "dom (seenBy s) \<subseteq> mapped s"
  shows "mirror_core s"
  using assms by (simp add: mirror_core_def)

lemma mirror_coreD:
  assumes "mirror_core s"
  shows "distinct (map fst (lidToPhone s))"
    and "l \<in> rev_lids s p \<longleftrightarrow> p \<noteq> [] \<and> cachedPhone s l = Some (Some p)"
    and "phoneToLids s p = Some ls \<Longrightarrow> ls \<noteq> []"
    and "unreported s \<subseteq> resident s" and "failedWrites s \<subseteq> resident s" and "dom (seenBy s) \<subseteq> mapped s"
  using assms by (simp_all add: mirror_core_def)

lemma evictOldest_fields [simp]:
  "unreported (evictOldest l p s) = unreported s - {l}" "seenBy (evictOldest l p s) = (seenBy s)(l := None)"
  "failedWrites (evictOldest l p s) = failedWrites s - {l}" "maxCachedLids (evictOldest l p s) = maxCachedLids s"
  "absentFromTable (evictOldest l p s) = absentFromTable s"
  by (auto simp: evictOldest_def Let_def)

lemma rev_lids_evictOldest:
  "rev_lids (evictOldest l ph s) q = rev_lids s q - (if truthy ph \<and> q = the ph then {l} else {})"
proof -
  have "rev_lids (s\<lparr>lidToPhone := a, unreported := b, seenBy := c, failedWrites := d, unsettledWrites := e\<rparr>) q
      = rev_lids s q" for q a b c d e
    by (simp add: rev_lids_def)
  then show ?thesis
    by (simp add: evictOldest_def Let_def rev_lids_unindex)
qed

lemma evictOldest_core:
  assumes core: "mirror_core s" and l: "cachedPhone s l = Some ph"
  shows "mirror_core (evictOldest l ph s)"
proof (rule mirror_coreI)
  show "distinct (map fst (lidToPhone (evictOldest l ph s)))"
    using mirror_coreD(1) [OF core] by simp
  show "k \<in> rev_lids (evictOldest l ph s) p \<longleftrightarrow> p \<noteq> [] \<and> cachedPhone (evictOldest l ph s) k = Some (Some p)" for p k
    using mirror_coreD(2) [OF core, of k p] l by (auto simp: rev_lids_evictOldest truthy_iff)
  show "phoneToLids (evictOldest l ph s) p = Some ls \<Longrightarrow> ls \<noteq> []" for p ls
    using mirror_coreD(3) [OF core]
    by (auto simp: evictOldest_def Let_def unindex_def split: option.splits if_splits)
  show "unreported (evictOldest l ph s) \<subseteq> resident (evictOldest l ph s)"
    "failedWrites (evictOldest l ph s) \<subseteq> resident (evictOldest l ph s)"
    using mirror_coreD(4,5) [OF core] by (auto simp: resident_def js_delete_def)
  show "dom (seenBy (evictOldest l ph s)) \<subseteq> mapped (evictOldest l ph s)"
    using mirror_coreD(6) [OF core] by (auto simp: mapped_def split: if_splits)
qed

text \<open>The eviction loop drops exactly the oldest entries past the cap.\<close>

lemma evictIfOverCap_spec:
  assumes "mirror_core s"
  shows "mirror_core (evictIfOverCap s)
       \<and> lidToPhone (evictIfOverCap s) =
           (if maxCachedLids s = 0 then lidToPhone s
            else drop (length (lidToPhone s) - maxCachedLids s) (lidToPhone s))
       \<and> maxCachedLids (evictIfOverCap s) = maxCachedLids s
       \<and> absentFromTable (evictIfOverCap s) = absentFromTable s"
  using assms
proof (induction s rule: evictIfOverCap.induct)
  case (1 s)
  show ?case
  proof (cases "0 < maxCachedLids s \<and> maxCachedLids s < length (lidToPhone s)")
    case False
    with "1.prems" show ?thesis
      by (auto simp: evictIfOverCap.simps [of s])
  next
    case True
    then obtain l ph rest where s: "lidToPhone s = (l, ph) # rest"
      by (cases "lidToPhone s") auto
    have rest: "js_delete l (lidToPhone s) = rest"
      using mirror_coreD(1) [OF "1.prems"] s by (auto simp: js_delete_def filter_id_conv)
    have "mirror_core (evictOldest l ph s)"
      using "1.prems" s by (intro evictOldest_core) simp_all
    from "1.IH" [OF _ _ s refl this] True
    have IH: "mirror_core (evictIfOverCap (evictOldest l ph s))"
      "lidToPhone (evictIfOverCap (evictOldest l ph s)) = drop (length rest - maxCachedLids s) rest"
      "maxCachedLids (evictIfOverCap (evictOldest l ph s)) = maxCachedLids s"
      "absentFromTable (evictIfOverCap (evictOldest l ph s)) = absentFromTable s"
      by (auto simp: rest)
    have "length (lidToPhone s) - maxCachedLids s = Suc (length rest - maxCachedLids s)"
      using True s by auto
    with IH True s show ?thesis
      by (simp add: evictIfOverCap.simps [of s])
  qed
qed

text \<open>The mirror just before \<open>index\<close> evicts: both maps updated, at most one entry over the cap.\<close>

lemma index_core:
  assumes core: "mirror_core s"
  shows "mirror_core (index lid phone sess rep s)
       \<and> lidToPhone (index lid phone sess rep s) =
           (let m = js_delete lid (lidToPhone s) @ [(lid, phone)]
            in if maxCachedLids s = 0 then m else drop (length m - maxCachedLids s) m)
       \<and> maxCachedLids (index lid phone sess rep s) = maxCachedLids s
       \<and> absentFromTable (index lid phone sess rep s) = removeAll lid (absentFromTable s)"
proof -
  define s1 where "s1 = s\<lparr>unreported := (if rep then unreported s - {lid} else insert lid (unreported s))\<rparr>"
  define prev where "prev = (case cachedPhone s1 lid of None \<Rightarrow> None | Some p \<Rightarrow> p)"
  define s2 where "s2 = (if truthy prev \<and> prev \<noteq> phone then unindex lid (the prev) s1 else s1)"
  obtain seen where s5: "index lid phone sess rep s = evictIfOverCap (storeEntry lid phone seen s2)"
    (is "_ = evictIfOverCap ?s5")
    unfolding index_def Let_def prev_def [symmetric] s1_def [symmetric] s2_def [symmetric]
    by blast
  have fields: "lidToPhone ?s5 = js_delete lid (lidToPhone s) @ [(lid, phone)]"
    "unreported ?s5 = (if rep then unreported s - {lid} else insert lid (unreported s))"
    "seenBy ?s5 = (seenBy s)(lid := (if truthy phone then Some seen else None))"
    "failedWrites ?s5 = failedWrites s" "maxCachedLids ?s5 = maxCachedLids s"
    "absentFromTable ?s5 = removeAll lid (absentFromTable s)"
    by (simp_all add: storeEntry_def Let_def s2_def s1_def)
  have look: "cachedPhone ?s5 = (cachedPhone s)(lid \<mapsto> phone)"
    unfolding fields by (subst map_of_snoc) (simp_all only: keys_js_delete map_of_js_delete, auto)
  have "rev_lids s1 q = rev_lids s q" for q
    by (simp add: s1_def rev_lids_def)
  then have rev2: "rev_lids s2 q = rev_lids s q - (if truthy prev \<and> prev \<noteq> phone \<and> q = the prev then {lid} else {})" for q
    by (simp add: s2_def rev_lids_unindex)
  have rev5: "rev_lids ?s5 q = rev_lids s2 q \<union> (if truthy phone \<and> q = the phone then {lid} else {})" for q
    by (auto simp: rev_lids_def storeEntry_def Let_def split: option.splits)
  have "mirror_core ?s5"
  proof (rule mirror_coreI)
    show "distinct (map fst (lidToPhone ?s5))"
      using mirror_coreD(1) [OF core] unfolding fields
      by (auto simp: js_delete_def distinct_map_filter)
    show "l \<in> rev_lids ?s5 p \<longleftrightarrow> p \<noteq> [] \<and> cachedPhone ?s5 l = Some (Some p)" for p l
      unfolding look rev5 rev2 using mirror_coreD(2) [OF core, of l p]
      by (cases "l = lid") (auto simp: truthy_iff prev_def s1_def split: option.splits)
    show "phoneToLids ?s5 p = Some ls \<Longrightarrow> ls \<noteq> []" for p ls
      using mirror_coreD(3) [OF core]
      by (auto simp: storeEntry_def Let_def s2_def s1_def unindex_def split: option.splits if_splits)
    show "unreported ?s5 \<subseteq> resident ?s5" "failedWrites ?s5 \<subseteq> resident ?s5"
      using mirror_coreD(4,5) [OF core] unfolding resident_def fields by (auto simp: js_delete_def)
    show "dom (seenBy ?s5) \<subseteq> mapped ?s5"
      using mirror_coreD(6) [OF core] unfolding mapped_def look fields(3)
      by (auto simp: truthy_iff split: if_splits)
  qed
  from evictIfOverCap_spec [OF this] show ?thesis
    unfolding s5 fields by (simp add: Let_def)
qed

lemma length_js_delete_le: "length (js_delete k m) \<le> length m"
  by (simp add: js_delete_def)

lemma index_inv: "mirror_inv s \<Longrightarrow> mirror_inv (index lid phone sess rep s)"
  using index_core [of s lid phone sess rep]
  by (auto simp: mirror_inv_def Let_def intro: order_trans [OF length_removeAll_less_eq])

text \<open>Operations that write neither index keep the core of the invariant.\<close>

lemma mirror_core_cong:
  assumes "lidToPhone s' = lidToPhone s" "phoneToLids s' = phoneToLids s" "unreported s' = unreported s"
    "failedWrites s' = failedWrites s" "seenBy s' = seenBy s"
  shows "mirror_core s' = mirror_core s"
  unfolding mirror_core_def rev_lids_def resident_def mapped_def assms by (rule refl)

lemma mirror_inv_frame:
  assumes "mirror_inv s" "lidToPhone s' = lidToPhone s" "phoneToLids s' = phoneToLids s"
    "unreported s' = unreported s" "failedWrites s' = failedWrites s" "seenBy s' = seenBy s"
    "maxCachedLids s' = maxCachedLids s"
    "0 < maxCachedLids s \<Longrightarrow> length (absentFromTable s') \<le> maxCachedLids s"
  shows "mirror_inv s'"
  using assms mirror_core_cong [of s' s] by (simp add: mirror_inv_def)

lemma noteAbsent_inv: "mirror_inv s \<Longrightarrow> mirror_inv (noteAbsent lid s)"
  by (erule mirror_inv_frame) (auto simp: noteAbsent_def Let_def)

lemma warmFromTable_inv: "mirror_inv s \<Longrightarrow> mirror_inv (warmFromTable lid s)"
  by (frule mirror_inv_frame [of _ "warmFromTable lid s"])
     (auto simp: warmFromTable_def mirror_inv_def)

lemma mirror_core_reorder:
  assumes core: "mirror_core s" and d: "distinct (map fst m)" and look: "map_of m = cachedPhone s"
  shows "mirror_core (s\<lparr>lidToPhone := m\<rparr>)"
proof -
  have "set (map fst m) = set (map fst (lidToPhone s))"
    using look by (metis dom_map_of_conv_image_fst set_map)
  then have "resident (s\<lparr>lidToPhone := m\<rparr>) = resident s"
    unfolding resident_def by simp
  moreover have "mapped (s\<lparr>lidToPhone := m\<rparr>) = mapped s"
    using look by (simp add: mapped_def)
  moreover have "rev_lids (s\<lparr>lidToPhone := m\<rparr>) = rev_lids s"
    by (simp add: rev_lids_def fun_eq_iff)
  ultimately show ?thesis
    using mirror_coreD [OF core] d look by (intro mirror_coreI) simp_all
qed

lemma touch_core:
  assumes core: "mirror_core s" and l: "cachedPhone s lid = Some p"
  shows "mirror_core (s\<lparr>lidToPhone := js_delete lid (lidToPhone s) @ [(lid, p)]\<rparr>)"
    and "length (js_delete lid (lidToPhone s) @ [(lid, p)]) = length (lidToPhone s)"
proof -
  let ?m = "js_delete lid (lidToPhone s) @ [(lid, p)]"
  have d: "distinct (map fst (lidToPhone s))"
    using core by (rule mirror_coreD)
  have n: "lid \<notin> set (map fst (js_delete lid (lidToPhone s)))"
    by (simp only: keys_js_delete) simp
  from map_of_snoc [OF n] have look: "map_of ?m = cachedPhone s"
    using l by (auto simp: fun_eq_iff)
  have d': "distinct (map fst ?m)"
    using d n by simp
  from core d' look show "mirror_core (s\<lparr>lidToPhone := ?m\<rparr>)"
    by (rule mirror_core_reorder)
  have "set (map fst ?m) = set (map fst (lidToPhone s))"
    using look by (metis dom_map_of_conv_image_fst set_map)
  with d d' show "length ?m = length (lidToPhone s)"
    by (metis distinct_card length_map)
qed

lemma getCached_inv: "mirror_inv s \<Longrightarrow> mirror_inv (snd (getCached lid s))"
proof (cases "cachedPhone s lid")
  case None
  assume "mirror_inv s"
  with None show ?thesis
    by (simp add: getCached_def warmFromTable_inv)
next
  case (Some p)
  assume "mirror_inv s"
  with touch_core [OF _ Some] show ?thesis
    by (simp add: mirror_inv_def getCached_def Some)
qed

lemma warmAnswered_inv: "mirror_inv s \<Longrightarrow> mirror_inv (warmAnswered lid inflight answer s)"
proof -
  assume inv: "mirror_inv s"
  have drop: "mirror_inv s' \<Longrightarrow> mirror_inv (s'\<lparr>pendingLookups := a, racedLookups := b\<rparr>)" for s' a b
    by (frule mirror_inv_frame [of _ "s'\<lparr>pendingLookups := a, racedLookups := b\<rparr>"])
       (auto simp: mirror_inv_def)
  show ?thesis
    using inv unfolding warmAnswered_def Let_def
    by (intro drop) (auto intro: index_inv noteAbsent_inv split: option.splits)
qed

lemma fold_index_inv:
  "mirror_inv s \<Longrightarrow>
     mirror_inv (fold (\<lambda>(lid, r). index lid (row_phone r) (row_session r) (is_reported r)) rows s)"
  by (induction rows arbitrary: s) (auto intro: index_inv)

lemma reload_inv: "mirror_inv s \<Longrightarrow> mirror_inv (reload db s)"
proof (cases db)
  case None
  assume "mirror_inv s"
  then have "mirror_inv (s\<lparr>absentFromTable := []\<rparr>)"
    by (rule mirror_inv_frame) simp_all
  with None show ?thesis
    by (simp add: reload_def)
next
  case (Some t)
  have *: "mirror_inv (s\<lparr>absentFromTable := [], lidToPhone := [], unreported := {}, phoneToLids := Map.empty,
      seenBy := Map.empty, failedWrites := {}, unsettledWrites := w\<rparr>)" for w
    by (simp add: mirror_inv_def mirror_core_def rev_lids_def)
  show ?thesis
    unfolding reload_def Let_def Some option.case by (rule fold_index_inv) (use * in simp)
qed

section \<open>What the awaited reads answer\<close>

lemma fold_fold_concat: "fold (\<lambda>b. fold f (g b)) bs a = fold f (concat (map g bs)) a"
  by (induction bs arbitrary: a) auto

text \<open>The lids of the given rows whose row answers the phone.\<close>

definition answering :: "lid_mirror \<Rightarrow> (string \<times> lid_row) list \<Rightarrow> string \<Rightarrow> string set" where
  "answering s rows p =
     {l. \<exists>r. (l, r) \<in> set rows \<and> row_phone r = Some p \<and> p \<noteq> [] \<and> rowPhone s l (Some p) (is_reported r) = Some p}"

lemma answering_Cons:
  "answering s (e # rows) p =
     (if row_phone (snd e) = Some p \<and> p \<noteq> [] \<and> rowPhone s (fst e) (Some p) (is_reported (snd e)) = Some p
      then {fst e} else {}) \<union> answering s rows p"
  by (cases e) (auto simp: answering_def)

lemma fold_add_read_row:
  assumes "out p = Some ls"
  shows "\<exists>ls'. fold (add_read_row s) rows out p = Some ls' \<and> set ls' = set ls \<union> answering s rows p"
  using assms
proof (induction rows arbitrary: out ls)
  case Nil
  then show ?case by (simp add: answering_def)
next
  case (Cons e rows)
  have "\<exists>ls1. add_read_row s e out p = Some ls1 \<and>
      set ls1 = set ls \<union>
        (if row_phone (snd e) = Some p \<and> p \<noteq> [] \<and> rowPhone s (fst e) (Some p) (is_reported (snd e)) = Some p
         then {fst e} else {})"
    using Cons.prems by (auto simp: add_read_row_def Let_def truthy_iff)
  then obtain ls1 where "add_read_row s e out p = Some ls1" and
    ls1: "set ls1 = set ls \<union>
        (if row_phone (snd e) = Some p \<and> p \<noteq> [] \<and> rowPhone s (fst e) (Some p) (is_reported (snd e)) = Some p
         then {fst e} else {})"
    by blast
  with Cons.IH [of "add_read_row s e out" ls1] show ?case
    by (simp add: answering_Cons Un_assoc)
qed

lemma answering_mono_filter:
  "answering s (filter (\<lambda>e. \<exists>p \<in> set b. row_phone (snd e) = Some p) rows) p =
     (if p \<in> set b then answering s rows p else {})"
  by (auto simp: answering_def)

lemma answering_concat: "answering s (concat rss) p = (\<Union>rs \<in> set rss. answering s rs p)"
  by (auto simp: answering_def)

lemma answering_table:
  "answering s (table_rows t) p =
     {l. \<exists>r. map_of t l = Some r \<and> row_phone r = Some p \<and> p \<noteq> [] \<and> rowPhone s l (Some p) (is_reported r) = Some p}"
  by (simp add: answering_def)

text \<open>Chunking does not show: each phone asked for gets the lids whose rows answer it.\<close>

lemma readLidsForPhones_spec:
  "map fst (readLidsForPhones t s phones) = phones"
  "(p, ls) \<in> set (readLidsForPhones t s phones) \<Longrightarrow> p \<in> set phones \<and> set ls = answering s (table_rows t) p"
proof -
  show "map fst (readLidsForPhones t s phones) = phones"
    by (simp add: readLidsForPhones_def Let_def comp_def)
next
  assume *: "(p, ls) \<in> set (readLidsForPhones t s phones)"
  let ?rows = "\<lambda>b. filter (\<lambda>e. \<exists>p \<in> set b. row_phone (snd e) = Some p) (table_rows t)"
  let ?bs = "chunk LID_QUERY_CHUNK phones"
  let ?out0 = "\<lambda>p. if p \<in> set phones then Some [] else None"
  from * have p: "p \<in> set phones"
    and ls: "ls = the (fold (\<lambda>b. fold (add_read_row s) (?rows b)) ?bs ?out0 p)"
    by (auto simp: readLidsForPhones_def Let_def)
  have "concat ?bs = phones"
    by (rule concat_chunk) (simp add: LID_QUERY_CHUNK_def)
  with p have "\<exists>b \<in> set ?bs. p \<in> set b"
    by (metis in_set_conv_decomp_first set_concat UN_E)
  then have "answering s (concat (map ?rows ?bs)) p = answering s (table_rows t) p"
    by (auto simp: answering_concat answering_mono_filter)
  moreover from p have "?out0 p = Some []" by simp
  ultimately show "p \<in> set phones \<and> set ls = answering s (table_rows t) p"
    using p ls fold_add_read_row [of ?out0 p "[]" s "concat (map ?rows ?bs)"]
    by (auto simp: fold_fold_concat)
qed

lemma set_findLidsForPhone:
  "set (findLidsForPhone (Some t) s p) = answering s (table_rows t) p"
proof -
  obtain ls where "readLidsForPhones t s [p] = [(p, ls)]"
    using readLidsForPhones_spec(1) [of t s "[p]"] by (auto simp: map_eq_Cons_conv)
  with readLidsForPhones_spec(2) [of p ls t s "[p]"] show ?thesis
    by (simp add: findLidsForPhone_def)
qed

lemma userPart_id: "sep_free l \<Longrightarrow> userPart l = l"
  by (simp add: userPart_def sep_free_def)

lemma rowPhone_answer: "rowPhone s l ph rep = Some p \<longleftrightarrow> ph = Some p \<and> rowPhone s l (Some p) rep = Some p"
  by (auto simp: rowPhone_def split: if_splits)

text \<open>The phone a lid's row answers when the table can be read.\<close>

abbreviation lid_phone :: "lid_table \<Rightarrow> lid_mirror \<Rightarrow> string \<Rightarrow> string option" where
  "lid_phone t s l \<equiv> fst (findPhoneForLid (Some t) l s)"

lemma lid_phone_Some:
  assumes "sep_free l"
  shows "lid_phone t s l = Some p \<longleftrightarrow>
     (\<exists>r. map_of t l = Some r \<and> row_phone r = Some p \<and> rowPhone s l (Some p) (is_reported r) = Some p)"
proof (cases "map_of t l")
  case None
  with assms show ?thesis
    by (simp add: findPhoneForLid_def Let_def userPart_id)
next
  case (Some r)
  with assms have "lid_phone t s l = rowPhone s l (row_phone r) (is_reported r)"
    by (simp add: findPhoneForLid_def Let_def userPart_id)
  with Some rowPhone_answer [of s l "row_phone r" "is_reported r" p] show ?thesis
    by simp
qed

lemma phonesForLidsPersisted_spec:
  assumes "length (chunk LID_QUERY_CHUNK ls) \<le> reads" and "list_all sep_free ls"
  shows "set (phonesForLidsPersisted t reads s ls) = (\<lambda>l. (l, lid_phone t s l)) ` set ls"
proof -
  have "concat (take reads (chunk LID_QUERY_CHUNK ls)) = ls"
    using assms(1) by (simp add: concat_chunk LID_QUERY_CHUNK_def)
  moreover have "lid_phone t s l =
      (case map_of t l of None \<Rightarrow> None | Some r \<Rightarrow> rowPhone s l (row_phone r) (is_reported r))"
    if "l \<in> set ls" for l
    using that assms(2) by (simp add: list_all_iff findPhoneForLid_def userPart_id)
  ultimately show ?thesis
    by (auto simp: phonesForLidsPersisted_def Let_def)
qed

text \<open>
  The store keeps the directory's promises whenever the table can be read, in any state of the mirror
  and with any writes in flight: the veto hides a row in both directions at once.
\<close>

interpretation lid_directory: scope_directory_laws
  "lid_phone t s" "findLidsForPhone (Some t) s"
  "\<lambda>ls. phonesForLidsPersisted t (length (chunk LID_QUERY_CHUNK ls)) s ls"
  "lidsForPhonesPersisted (Some t) s" for t s
proof unfold_locales
  show "l \<in> set (findLidsForPhone (Some t) s p) \<longleftrightarrow> lid_phone t s l = Some p"
    if "sep_free l" "p \<noteq> []" for l p
    using that by (simp add: set_findLidsForPhone answering_table lid_phone_Some)
next
  show "set (phonesForLidsPersisted t (length (chunk LID_QUERY_CHUNK ls)) s ls) = (\<lambda>l. (l, lid_phone t s l)) ` set ls"
    if "list_all sep_free ls" for ls
    using that by (simp add: phonesForLidsPersisted_spec)
next
  show "fst ` set (lidsForPhonesPersisted (Some t) s ps) = set ps" for ps
    using readLidsForPhones_spec(1) [of t s ps] by (simp add: lidsForPhonesPersisted_def flip: set_map)
next
  show "set ls = set (findLidsForPhone (Some t) s p)" if "(p, ls) \<in> set (lidsForPhonesPersisted (Some t) s ps)" for p ls ps
    using that readLidsForPhones_spec(2) [of p ls t s ps]
    by (simp add: lidsForPhonesPersisted_def set_findLidsForPhone)
qed

section \<open>Properties\<close>

text \<open>
  The same reads when the table may fail: \<open>db\<close> is \<open>None\<close> when every read throws, and the mirror answers.
\<close>

definition phones_read :: "lid_table option \<Rightarrow> lid_mirror \<Rightarrow> string list \<Rightarrow> (string \<times> string option) list" where
  "phones_read db s lids =
     (case db of
        Some t \<Rightarrow> phonesForLidsPersisted t (length (chunk LID_QUERY_CHUNK lids)) s lids
      | None \<Rightarrow> phonesForLidsPersisted [] 0 s lids)"

abbreviation db_phone :: "lid_table option \<Rightarrow> lid_mirror \<Rightarrow> string \<Rightarrow> string option" where
  "db_phone db s l \<equiv> fst (findPhoneForLid db l s)"

lemma db_phone_None: "sep_free l \<Longrightarrow> db_phone None s l = Some p \<longleftrightarrow> l \<notin> unreported s \<and> cachedPhone s l = Some (Some p)"
  by (auto simp: findPhoneForLid_def userPart_id getCached_def Let_def split: option.splits)

lemma phones_read_spec: "list_all sep_free ls \<Longrightarrow> set (phones_read db s ls) = (\<lambda>l. (l, db_phone db s l)) ` set ls"
proof (cases db)
  case None
  assume "list_all sep_free ls"
  then have "(if l \<in> unreported s then None else case cachedPhone s l of Some p \<Rightarrow> p | None \<Rightarrow> None) = db_phone None s l" if "l \<in> set ls" for l
    using that by (auto simp: list_all_iff findPhoneForLid_def userPart_id getCached_def Let_def split: option.splits)
  then show ?thesis
    by (auto simp: None phones_read_def phonesForLidsPersisted_def)
qed (simp add: phones_read_def phonesForLidsPersisted_spec)

lemma lids_read_keys: "fst ` set (lidsForPhonesPersisted db s ps) = set ps"
  using lid_directory.batch_lids_keys by (cases db) (auto simp: lidsForPhonesPersisted_def image_image)

lemma lids_read: "(p, ls) \<in> set (lidsForPhonesPersisted db s ps) \<Longrightarrow> set ls = set (findLidsForPhone db s p)"
  using lid_directory.batch_lids by (cases db) (auto simp: lidsForPhonesPersisted_def findLidsForPhone_def)

lemma directory_laws:
  assumes "db = None \<Longrightarrow> mirror_core s"
  shows "scope_directory_laws (db_phone db s) (findLidsForPhone db s) (phones_read db s) (lidsForPhonesPersisted db s)"
proof unfold_locales
  show "l \<in> set (findLidsForPhone db s p) \<longleftrightarrow> db_phone db s l = Some p" if "sep_free l" "p \<noteq> []" for l p
  proof (cases db)
    case None
    then have "l \<in> rev_lids s p \<longleftrightarrow> p \<noteq> [] \<and> cachedPhone s l = Some (Some p)"
      using mirror_coreD(2) assms by blast
    then show ?thesis
      using that by (auto simp: None db_phone_None findLidsForPhone_def lidsForPhone_cached_def rev_lids_def split: option.splits)
  next
    case (Some t)
    then show ?thesis
      using lid_directory.inverse that by simp
  qed
qed (auto simp: phones_read_spec lids_read_keys dest: lids_read)

text \<open>
  The states of the mirror of a running store: LRU touches, warm-back answers in any order and with any
  table answer, reloads, and the parts of the writes, in any interleaving and with any outcome of their
  statements. (A part may even occur without its beginning, which only adds states.)
\<close>

inductive mirror_reach :: "nat \<Rightarrow> lid_mirror \<Rightarrow> bool" for cap where
  boot: "mirror_reach cap (empty_mirror cap)"
| touched: "mirror_reach cap s \<Longrightarrow> mirror_reach cap (snd (getCached lid s))"
| warmed: "mirror_reach cap s \<Longrightarrow> mirror_reach cap (warmAnswered lid inflight answer s)"
| reloaded: "mirror_reach cap s \<Longrightarrow> mirror_reach cap (reload db s)"
| looked_up: "mirror_reach cap s \<Longrightarrow> mirror_reach cap (rememberIfUnknown_start lid phone lookup s)"
| lookup_stored: "mirror_reach cap s \<Longrightarrow> mirror_reach cap (rememberIfUnknown_stored lid lookup affected same s)"
| lookup_failed: "mirror_reach cap s \<Longrightarrow> mirror_reach cap (rememberIfUnknown_failed lid lookup same s)"
| remembered: "mirror_reach cap s \<Longrightarrow> mirror_reach cap (remember_start lid ph sess report s)"
| stored: "mirror_reach cap s \<Longrightarrow> mirror_reach cap (remember_stored lid ph sess report op reread same s)"
| cleared: "mirror_reach cap s \<Longrightarrow> mirror_reach cap (remember_cleared lid report affected s)"
| failed: "mirror_reach cap s \<Longrightarrow> mirror_reach cap (endWrite lid s)"
| released: "mirror_reach cap s \<Longrightarrow> mirror_reach cap (releaseSession s)"

text \<open>The parts of a write that leave both maps alone keep the invariant when the side sets stay within them.\<close>

lemma mirror_inv_sides:
  assumes "mirror_inv s" and "lidToPhone s' = lidToPhone s" and "phoneToLids s' = phoneToLids s"
    and "maxCachedLids s' = maxCachedLids s" and "length (absentFromTable s') \<le> length (absentFromTable s)"
    and "unreported s' \<subseteq> resident s" and "failedWrites s' \<subseteq> resident s" and "dom (seenBy s') \<subseteq> mapped s"
  shows "mirror_inv s'"
proof -
  have "resident s' = resident s" "mapped s' = mapped s" "rev_lids s' = rev_lids s"
    using assms(2,3) by (auto simp: resident_def mapped_def rev_lids_def fun_eq_iff)
  then have "mirror_core s'"
    using assms mirror_coreD [of s] by (intro mirror_coreI) (auto simp: mirror_inv_def)
  with assms show ?thesis
    by (auto simp: mirror_inv_def)
qed

lemma endWrite_fields [simp]:
  "lidToPhone (endWrite l s) = lidToPhone s" "phoneToLids (endWrite l s) = phoneToLids s" "unreported (endWrite l s) = unreported s"
  "failedWrites (endWrite l s) = failedWrites s" "seenBy (endWrite l s) = seenBy s" "maxCachedLids (endWrite l s) = maxCachedLids s"
  "absentFromTable (endWrite l s) = absentFromTable s"
  by (simp_all add: endWrite_def split: option.splits)

lemma beginWrite_fields [simp]:
  "lidToPhone (beginWrite l t p a s) = lidToPhone s" "phoneToLids (beginWrite l t p a s) = phoneToLids s"
  "unreported (beginWrite l t p a s) = unreported s" "failedWrites (beginWrite l t p a s) = failedWrites s"
  "seenBy (beginWrite l t p a s) = seenBy s" "maxCachedLids (beginWrite l t p a s) = maxCachedLids s"
  "absentFromTable (beginWrite l t p a s) = absentFromTable s"
  by (simp_all add: beginWrite_def Let_def)

lemma mirror_inv_sets:
  assumes "mirror_inv s"
  shows "unreported s \<subseteq> resident s" "failedWrites s \<subseteq> resident s" "dom (seenBy s) \<subseteq> mapped s" "mapped s \<subseteq> resident s"
  using assms mirror_coreD(4-6) [of s] unfolding mirror_inv_def
  by (auto simp: mapped_def resident_def dest!: map_of_SomeD intro: rev_image_eqI)

lemma resident_iff: "l \<in> resident s \<longleftrightarrow> cachedPhone s l \<noteq> None"
  by (simp add: resident_def map_of_eq_None_iff)

lemma endWrite_inv: "mirror_inv s \<Longrightarrow> mirror_inv (endWrite l s)"
  by (rule mirror_inv_sides) (auto dest: mirror_inv_sets)

lemma rememberIfUnknown_inv:
  assumes "mirror_inv s"
  shows "mirror_inv (rememberIfUnknown_start lid phone lookup s)"
    and "mirror_inv (rememberIfUnknown_stored lid lookup affected same s)"
    and "mirror_inv (rememberIfUnknown_failed lid lookup same s)"
proof -
  note sets = mirror_inv_sets [OF assms]
  show "mirror_inv (rememberIfUnknown_start lid phone lookup s)"
    using assms sets
    by (intro mirror_inv_sides [OF assms])
       (auto simp: rememberIfUnknown_start_def Let_def resident_iff mapped_def truthy_iff split: option.splits if_splits)
  show "mirror_inv (rememberIfUnknown_stored lid lookup affected same s)"
    using assms sets
    by (intro mirror_inv_sides [OF assms])
       (auto simp: rememberIfUnknown_stored_def Let_def resident_iff split: option.splits if_splits)
  show "mirror_inv (rememberIfUnknown_failed lid lookup same s)"
    using assms sets
    by (intro mirror_inv_sides [OF assms])
       (auto simp: rememberIfUnknown_failed_def Let_def resident_iff split: option.splits if_splits)
qed

lemma index_resident: "mirror_inv s \<Longrightarrow> lid \<in> resident (index lid phone sess rep s)"
  using index_core [of s lid phone sess rep] by (auto simp: mirror_inv_def resident_def Let_def)

lemma remember_start_inv:
  assumes "mirror_inv s"
  shows "mirror_inv (remember_start lid phone sess report s)"
proof -
  define s1 where "s1 = (if \<not> report_seen lid phone sess s \<and> phone \<noteq> None then index lid phone None True s else s)"
  have inv: "mirror_inv s1" and res: "phone \<noteq> None \<Longrightarrow> lid \<in> resident s1"
    using assms index_inv index_resident by (auto simp: s1_def report_seen_def resident_iff)
  have "mirror_inv (beginWrite lid report phone True (if phone \<noteq> None then s1\<lparr>failedWrites := insert lid (failedWrites s1)\<rparr> else s1))"
    using mirror_inv_sets [OF inv] res by (intro mirror_inv_sides [OF inv]) auto
  then show ?thesis
    using assms unfolding s1_def remember_start_def Let_def by (cases "lid = []") simp_all
qed

lemma remember_stored_inv:
  assumes "mirror_inv s"
  shows "mirror_inv (remember_stored lid phone sess report op reread same s)"
  using mirror_inv_sets [OF assms]
  by (intro mirror_inv_sides [OF assms]) (auto simp: remember_stored_def Let_def split: option.splits if_splits)

lemma clear_done_inv:
  assumes "mirror_inv s"
  shows "mirror_inv (clear_done lid report affected s)"
proof (cases "affected \<and> is_latest_report lid report s \<and> cachedPhone s lid \<noteq> None")
  case True
  then obtain ph where ph: "cachedPhone s lid = Some ph"
    by blast
  have "mirror_core (evictOldest lid ph s)"
    using assms ph by (intro evictOldest_core) (simp_all add: mirror_inv_def)
  moreover have "clear_done lid report affected s
      = (evictOldest lid ph s)\<lparr>unsettledWrites := unsettledWrites s, absentFromTable := removeAll lid (absentFromTable s)\<rparr>"
    using True ph by (auto simp: clear_done_def evictOldest_def Let_def unindex_def split: option.splits)
  moreover have "mirror_core ((evictOldest lid ph s)\<lparr>unsettledWrites := u, absentFromTable := a\<rparr>) = mirror_core (evictOldest lid ph s)" for u a
    by (rule mirror_core_cong) simp_all
  ultimately show ?thesis
    using assms length_js_delete_le [of lid "lidToPhone s"]
    by (auto simp: mirror_inv_def intro: order_trans [OF length_removeAll_less_eq])
next
  case False
  have del: "cachedPhone s lid = None \<Longrightarrow> js_delete lid (lidToPhone s) = lidToPhone s"
    by (auto simp: js_delete_def filter_id_conv map_of_eq_None_iff)
  show ?thesis
    using mirror_inv_sets [OF assms] False del
    by (intro mirror_inv_sides [OF assms]) (auto simp: clear_done_def Let_def split: option.splits)
qed

lemma releaseSession_inv: "mirror_inv s \<Longrightarrow> mirror_inv (releaseSession s)"
  by (rule mirror_inv_sides) (auto simp: releaseSession_def dest: mirror_inv_sets)

lemma evict_cap: "mirror_core s \<Longrightarrow> maxCachedLids (evictIfOverCap s) = maxCachedLids s"
  by (simp add: evictIfOverCap_spec)

lemma mirror_reach_inv: "mirror_reach cap s \<Longrightarrow> mirror_inv s"
  by (induction rule: mirror_reach.induct)
     (auto simp: remember_cleared_def intro: mirror_inv_empty getCached_inv warmAnswered_inv reload_inv rememberIfUnknown_inv
        remember_start_inv remember_stored_inv endWrite_inv clear_done_inv releaseSession_inv)

lemma index_cap: "mirror_inv s \<Longrightarrow> maxCachedLids (index lid phone sess rep s) = maxCachedLids s"
  using index_core by (auto simp: mirror_inv_def)

lemma fold_index_cap:
  "mirror_inv s \<Longrightarrow>
     maxCachedLids (fold (\<lambda>(lid, r). index lid (row_phone r) (row_session r) (is_reported r)) rows s) = maxCachedLids s"
  by (induction rows arbitrary: s) (auto simp: index_inv index_cap)

lemma reload_cap: "maxCachedLids (reload db s) = maxCachedLids s"
proof (cases db)
  case (Some t)
  have *: "mirror_inv (s\<lparr>absentFromTable := [], lidToPhone := [], unreported := {}, phoneToLids := Map.empty,
      seenBy := Map.empty, failedWrites := {}, unsettledWrites := w\<rparr>)" for w
    by (simp add: mirror_inv_def mirror_core_def rev_lids_def)
  show ?thesis
    unfolding reload_def Let_def Some option.case by (subst fold_index_cap) (use * in simp_all)
qed (simp add: reload_def)

lemma mirror_reach_cap: "mirror_reach cap s \<Longrightarrow> maxCachedLids s = cap"
proof (induction rule: mirror_reach.induct)
  case (warmed s lid inflight answer)
  then show ?case
    by (auto simp: warmAnswered_def Let_def index_cap mirror_reach_inv noteAbsent_def split: option.splits)
qed (auto simp: empty_mirror_def index_cap mirror_reach_inv reload_cap getCached_def warmFromTable_def
       rememberIfUnknown_start_def rememberIfUnknown_stored_def rememberIfUnknown_failed_def remember_start_def remember_stored_def
       remember_cleared_def clear_done_def releaseSession_def Let_def split: option.splits)

lemma resolveLid_cached_Some:
  assumes "sep_free l"
  shows "fst (resolveLid_cached l s) = Some p \<longleftrightarrow> l \<notin> unreported s \<and> cachedPhone s l = Some (Some p)"
  using assms
  by (auto simp: resolveLid_cached_def getCached_def userPart_id Let_def split: option.splits prod.splits)

text \<open>
  C17: In every state the mirror can reach, through its reads, reloads and warm-back answers and through
  the parts of all its writes (reports, display lookups, negatives that clear an entry, releases of a
  session) in any interleaving and with any outcome, its synchronous forward and reverse lookups are one
  relation (a lid is listed under a phone exactly when it resolves to it), the reverse map keeps no
  empty entry, and with a positive cap neither the forward map nor the set of remembered absences
  outgrows it.
\<close>

theorem mirror_lookups_inverse_and_bounded:
  assumes "mirror_reach cap s"
  shows "(\<forall>l p. sep_free l \<and> p \<noteq> [] \<longrightarrow>
           (l \<in> set (lidsForPhone_cached p s) \<longleftrightarrow> fst (resolveLid_cached l s) = Some p))
       \<and> (\<forall>p. phoneToLids s p \<noteq> Some [])
       \<and> (0 < cap \<longrightarrow> length (lidToPhone s) \<le> cap \<and> length (absentFromTable s) \<le> cap)"
proof (intro conjI)
  from assms have inv: "mirror_inv s" and cap: "maxCachedLids s = cap"
    by (rule mirror_reach_inv, rule mirror_reach_cap)
  then have core: "mirror_core s" by (simp add: mirror_inv_def)
  show "0 < cap \<longrightarrow> length (lidToPhone s) \<le> cap \<and> length (absentFromTable s) \<le> cap"
    using inv cap by (simp add: mirror_inv_def)
  show "\<forall>p. phoneToLids s p \<noteq> Some []"
    using mirror_coreD(3) [OF core] by blast
  have "l \<in> set (lidsForPhone_cached p s) \<longleftrightarrow> l \<in> rev_lids s p \<and> l \<notin> unreported s" for l p
    by (auto simp: lidsForPhone_cached_def rev_lids_def split: option.splits)
  then show "\<forall>l p. sep_free l \<and> p \<noteq> [] \<longrightarrow>
      (l \<in> set (lidsForPhone_cached p s) \<longleftrightarrow> fst (resolveLid_cached l s) = Some p)"
    using mirror_coreD(2) [OF core] by (auto simp: resolveLid_cached_Some)
qed

theorem mirror_lookups_inverse_and_bounded_witness:
  "let s = remember_start ''77'' (Some ''628111'') (Some ''s1'') 0 (empty_mirror 1);
       s' = remember_cleared ''77'' 1 True (remember_start ''77'' None (Some ''s1'') 1 s)
   in lidsForPhone_cached ''628111'' s = [''77''] \<and> fst (resolveLid_cached ''77'' s) = Some ''628111''
      \<and> lidsForPhone_cached ''628111'' s' = [] \<and> fst (resolveLid_cached ''77'' s') \<noteq> Some ''628111''"
proof -
  let ?s = "remember_start ''77'' (Some ''628111'') (Some ''s1'') 0 (empty_mirror 1)"
  let ?s' = "remember_cleared ''77'' 1 True (remember_start ''77'' None (Some ''s1'') 1 ?s)"
  have r: "mirror_reach 1 ?s" "mirror_reach 1 ?s'"
    by (intro mirror_reach.remembered mirror_reach.cleared mirror_reach.boot)+
  have "''77'' \<in> set (lidsForPhone_cached ''628111'' ?s) \<longleftrightarrow> fst (resolveLid_cached ''77'' ?s) = Some ''628111''"
    "''77'' \<in> set (lidsForPhone_cached ''628111'' ?s') \<longleftrightarrow> fst (resolveLid_cached ''77'' ?s') = Some ''628111''"
    using mirror_lookups_inverse_and_bounded [OF r(1)] mirror_lookups_inverse_and_bounded [OF r(2)]
    by (simp_all add: sep_free_def)
  moreover have "lidsForPhone_cached ''628111'' ?s = [''77'']" "lidsForPhone_cached ''628111'' ?s' = []"
    by code_simp+
  ultimately show ?thesis
    by (simp add: Let_def)
qed

text \<open>
  C32: What the reads behind the chat fence answer, whatever writes are in flight. While the table can
  be read, a lid resolves to a phone exactly when its row holds that phone, an engine reported it, and
  this process holds no newer value the table lacks: neither a doubt about the lid nor another value
  (none included) under a write in flight or failed. When the reads fail, it resolves exactly to the
  reported phone of the mirror. The single reverse read and both batched reads give the same relation
  as this forward read, in every reachable state of the mirror.
\<close>

theorem fence_read_vetoed:
  assumes "mirror_reach cap s" and "sep_free l" and "p \<noteq> []"
  shows "(db_phone (Some t) s l = Some p \<longleftrightarrow>
           (\<exists>r. map_of t l = Some r \<and> row_phone r = Some p \<and> is_reported r)
           \<and> (unstored s l \<longrightarrow> l \<notin> unreported s \<and> (\<forall>held. cachedPhone s l = Some held \<longrightarrow> held = Some p)))
    \<and> (db_phone None s l = Some p \<longleftrightarrow> l \<notin> unreported s \<and> cachedPhone s l = Some (Some p))
    \<and> (l \<in> set (findLidsForPhone db s p) \<longleftrightarrow> db_phone db s l = Some p)
    \<and> (\<forall>ls. list_all sep_free ls \<and> l \<in> set ls \<longrightarrow> ((l, Some p) \<in> set (phones_read db s ls) \<longleftrightarrow> db_phone db s l = Some p))
    \<and> (\<forall>ps. p \<in> set ps \<longrightarrow> ((\<exists>ls. (p, ls) \<in> set (lidsForPhonesPersisted db s ps) \<and> l \<in> set ls) \<longleftrightarrow> db_phone db s l = Some p))"
proof (intro conjI allI impI)
  have core: "mirror_core s"
    using mirror_reach_inv [OF assms(1)] by (simp add: mirror_inv_def)
  note laws = directory_laws [of db s, OF core]
  have inverse: "l \<in> set (findLidsForPhone db s p) \<longleftrightarrow> db_phone db s l = Some p"
    using contact_directory_laws.inverse [OF scope_directory_laws.axioms(1) [OF laws]] assms(2,3) by blast
  show "db_phone (Some t) s l = Some p \<longleftrightarrow>
      (\<exists>r. map_of t l = Some r \<and> row_phone r = Some p \<and> is_reported r)
      \<and> (unstored s l \<longrightarrow> l \<notin> unreported s \<and> (\<forall>held. cachedPhone s l = Some held \<longrightarrow> held = Some p))"
    unfolding lid_phone_Some [OF assms(2)] by (auto simp: rowPhone_def split: if_splits)
  show "db_phone None s l = Some p \<longleftrightarrow> l \<notin> unreported s \<and> cachedPhone s l = Some (Some p)"
    by (rule db_phone_None [OF assms(2)])
  show "l \<in> set (findLidsForPhone db s p) \<longleftrightarrow> db_phone db s l = Some p"
    by (rule inverse)
  show "(l, Some p) \<in> set (phones_read db s ls) \<longleftrightarrow> db_phone db s l = Some p" if "list_all sep_free ls \<and> l \<in> set ls" for ls
    using phones_read_spec [of ls db s] that by auto
  show "(\<exists>ls. (p, ls) \<in> set (lidsForPhonesPersisted db s ps) \<and> l \<in> set ls) \<longleftrightarrow> db_phone db s l = Some p" if "p \<in> set ps" for ps
  proof -
    have "p \<in> fst ` set (lidsForPhonesPersisted db s ps)"
      using that by (simp only: lids_read_keys)
    then obtain ls where "(p, ls) \<in> set (lidsForPhonesPersisted db s ps)"
      by auto
    then show ?thesis
      using inverse lids_read by metis
  qed
qed

theorem fence_read_vetoed_witness:
  "let t = [(''77'', \<lparr>row_phone = Some ''628111'', row_session = None, is_reported = True, updated_at = 0\<rparr>)];
       s = remember_start ''77'' (Some ''628222'') None 0 (empty_mirror 9)
   in db_phone (Some t) s ''77'' \<noteq> Some ''628111'' \<and> db_phone (Some t) (empty_mirror 9) ''77'' = Some ''628111''
      \<and> ''77'' \<in> set (findLidsForPhone (Some t) (empty_mirror 9) ''628111'')"
proof -
  let ?t = "[(''77'', \<lparr>row_phone = Some ''628111'', row_session = None, is_reported = True, updated_at = 0\<rparr>)]"
  let ?s = "remember_start ''77'' (Some ''628222'') None 0 (empty_mirror 9)"
  have r: "mirror_reach 9 ?s" "mirror_reach 9 (empty_mirror 9)"
    by (intro mirror_reach.remembered mirror_reach.boot)+
  have c: "unstored ?s ''77''" "cachedPhone ?s ''77'' = Some (Some ''628222'')" "\<not> unstored (empty_mirror 9) ''77''"
    by code_simp+
  have l: "sep_free ''77''" "''628111'' \<noteq> []"
    by code_simp+
  note v1 = fence_read_vetoed [OF r(1) l, of ?t "Some ?t", THEN conjunct1]
    and v2 = fence_read_vetoed [OF r(2) l, of ?t "Some ?t", THEN conjunct1]
    and v3 = fence_read_vetoed [OF r(2) l, of ?t "Some ?t", THEN conjunct2, THEN conjunct2, THEN conjunct1]
  have "db_phone (Some ?t) ?s ''77'' \<noteq> Some ''628111''"
    unfolding v1 using c(1,2) by simp
  moreover have "db_phone (Some ?t) (empty_mirror 9) ''77'' = Some ''628111''"
    unfolding v2 using c(3) by simp
  moreover from this have "''77'' \<in> set (findLidsForPhone (Some ?t) (empty_mirror 9) ''628111'')"
    unfolding v3 .
  ultimately show ?thesis
    by (simp add: Let_def)
qed

end
