(* ===== verification/Chat_Scope.thy ===== *)
theory Chat_Scope
  imports Lid_Store
begin

text \<open>
  The chat and session fences of an API key: \<^verbatim>\<open>src/src/common/security/chat-scope.ts\<close>,
  \<^verbatim>\<open>session-scope.ts\<close> and the service \<^verbatim>\<open>src/src/modules/auth/chat-scope.service.ts\<close> that wires the
  lid table in. The client lemmas live in the directory's locale: the guard, which expands the one
  requested id, and the list filters, which expand the allowlist, decide alike.
\<close>

section \<open>chat-scope.ts\<close>

text \<open>A compiled allowlist: the \<open>allowed\<close> set, in insertion order.\<close>

record chat_scope =
  allowed :: "string list"

definition BARE_NUMBER :: "string \<Rightarrow> bool" where
  "BARE_NUMBER s = digits5 s"

definition isChatScopeRestricted :: "string list option \<Rightarrow> bool" where
  "isChatScopeRestricted allowedChats = nonempty_opt allowedChats"

definition normalizeChatAllowList :: "string list option \<Rightarrow> string list option" where
  "normalizeChatAllowList list =
     (case list of
        None \<Rightarrow> None
      | Some xs \<Rightarrow>
          (let cleaned = filter (\<lambda>e. e \<noteq> []) (map trim xs);
               qualified = js_set (map (\<lambda>e. if BARE_NUMBER e then e @ ''@c.us'' else e) cleaned)
           in if qualified \<noteq> [] then Some qualified else None))"

definition addressForms :: "string \<Rightarrow> string list" where
  "addressForms chatId =
     (let p = parseWaId chatId
      in case kind p of
           UserKind \<Rightarrow> [user_part p @ ''@c.us'', user_part p @ ''@s.whatsapp.net'']
         | LidKind \<Rightarrow> [user_part p @ ''@lid'']
         | GroupKind \<Rightarrow> [user_part p @ ''@g.us'']
         | _ \<Rightarrow> [])"

definition entries :: "string list option \<Rightarrow> string list" where
  "entries allowedChats = (case normalizeChatAllowList allowedChats of None \<Rightarrow> [] | Some xs \<Rightarrow> xs)"

definition buildChatScope :: "string list option \<Rightarrow> chat_scope option" where
  "buildChatScope allowedChats =
     (if \<not> isChatScopeRestricted allowedChats then None
      else Some \<lparr>allowed = js_set (concat (map addressForms (entries allowedChats)))\<rparr>)"

definition chatScopeAllows :: "chat_scope option \<Rightarrow> string \<Rightarrow> bool" where
  "chatScopeAllows scope chatId =
     (case scope of
        None \<Rightarrow> True
      | Some sc \<Rightarrow> list_ex (\<lambda>form. form \<in> set (allowed sc)) (addressForms chatId))"

definition chatIdAllowed :: "chat_scope option \<Rightarrow> string \<Rightarrow> contact_directory option \<Rightarrow> bool" where
  "chatIdAllowed scope chatId directory =
     (case scope of
        None \<Rightarrow> True
      | Some sc \<Rightarrow> list_ex (\<lambda>c. c \<in> set (allowed sc)) (resolveJidCandidates chatId directory))"

text \<open>The batched lookups, awaited in the source: records from a lid or a phone to its answer.\<close>

record scope_directory =
  phonesForLids :: "string list \<Rightarrow> (string \<times> string option) list"
  lidsForPhones :: "string list \<Rightarrow> (string \<times> string list) list"

definition user_parts :: "wa_id_kind \<Rightarrow> string list option \<Rightarrow> string list" where
  "user_parts k allowedChats =
     js_set (map (\<lambda>e. user_part (parseWaId e)) (filter (\<lambda>e. kind (parseWaId e) = k) (entries allowedChats)))"

definition buildExpandedChatScope :: "string list option \<Rightarrow> scope_directory option \<Rightarrow> chat_scope option" where
  "buildExpandedChatScope allowedChats directory =
     (case (buildChatScope allowedChats, directory) of
        (None, _) \<Rightarrow> None
      | (Some scope, None) \<Rightarrow> Some scope
      | (Some scope, Some d) \<Rightarrow>
          (let phones = user_parts UserKind allowedChats;
               lids = user_parts LidKind allowedChats;
               lidToPhone = phonesForLids d lids;
               phoneToLids = lidsForPhones d phones
           in Some \<lparr>allowed = js_set (allowed scope @
                concat (map (\<lambda>(_, phone). if truthy phone
                               then [the phone @ ''@c.us'', the phone @ ''@s.whatsapp.net''] else []) lidToPhone) @
                concat (map (\<lambda>(_, ls). map (\<lambda>l. l @ ''@lid'') ls) phoneToLids))\<rparr>))"

definition filterByChatScope :: "chat_scope option \<Rightarrow> 'a list \<Rightarrow> ('a \<Rightarrow> string option) \<Rightarrow> 'a list" where
  "filterByChatScope scope items chatIdOf =
     (case scope of
        None \<Rightarrow> items
      | Some _ \<Rightarrow> filter (\<lambda>item. case chatIdOf item of None \<Rightarrow> False | Some i \<Rightarrow> chatScopeAllows scope i) items)"

section \<open>session-scope.ts\<close>

definition resolveSessionScope :: "string list option \<Rightarrow> string option \<Rightarrow> string list option" where
  "resolveSessionScope allowedSessions requestedSessionId =
     (if nonempty_opt allowedSessions then
        (if truthy requestedSessionId
         then Some (filter (\<lambda>s. s = the requestedSessionId) (the allowedSessions))
         else allowedSessions)
      else if truthy requestedSessionId then Some [the requestedSessionId] else None)"

definition sessionScopeVisible :: "string list option \<Rightarrow> string option \<Rightarrow> bool" where
  "sessionScopeVisible allowedSessions sessionScope =
     (if \<not> nonempty_opt allowedSessions then True
      else (case sessionScope of
              None \<Rightarrow> False
            | Some s \<Rightarrow> s \<noteq> ''*'' \<and> s \<in> set (the allowedSessions)))"

section \<open>chat-scope.service.ts\<close>

text \<open>
  The service over an optional lid store. \<open>db\<close> is the table the store reads, \<open>None\<close> when its reads fail
  and the mirror \<open>m\<close> answers in its place; a stripped build without a store is \<open>None\<close>. The allowlist is
  the key's \<open>allowedChats\<close>.
\<close>

type_synonym lid_store = "(lid_table option \<times> lid_mirror) option"

definition isRestricted :: "string list option \<Rightarrow> bool" where
  "isRestricted allowedChats = isChatScopeRestricted allowedChats"

definition requireChat :: "string list option \<Rightarrow> string option \<Rightarrow> unit result" where
  "requireChat allowedChats chatId =
     (if isRestricted allowedChats \<and> (case chatId of None \<Rightarrow> True | Some c \<Rightarrow> trim c = [])
      then Inl (Forbidden ''chatId is required for a key restricted to selected chats'')
      else Inr ())"

definition scopeFor :: "string list option \<Rightarrow> chat_scope option" where
  "scopeFor allowedChats = buildChatScope allowedChats"

definition singleDirectory :: "lid_store \<Rightarrow> contact_directory option" where
  "singleDirectory store =
     (case store of
        None \<Rightarrow> None
      | Some (db, m) \<Rightarrow> Some \<lparr>resolveLid = db_phone db m, lidsForPhone = findLidsForPhone db m\<rparr>)"

definition batchDirectory :: "lid_store \<Rightarrow> scope_directory option" where
  "batchDirectory store =
     (case store of
        None \<Rightarrow> None
      | Some (db, m) \<Rightarrow> Some \<lparr>phonesForLids = phones_read db m, lidsForPhones = lidsForPhonesPersisted db m\<rparr>)"

definition allows :: "lid_store \<Rightarrow> string list option \<Rightarrow> string \<Rightarrow> bool" where
  "allows store allowedChats chatId = chatIdAllowed (scopeFor allowedChats) chatId (singleDirectory store)"

definition candidatesFor :: "lid_store \<Rightarrow> string \<Rightarrow> string list" where
  "candidatesFor store i = js_set (i # resolveJidCandidates i (singleDirectory store))"

definition scopeForFilter :: "lid_store \<Rightarrow> string list option \<Rightarrow> chat_scope option" where
  "scopeForFilter store allowedChats = buildExpandedChatScope allowedChats (batchDirectory store)"

definition idsForFilter :: "lid_store \<Rightarrow> string list option \<Rightarrow> string list option" where
  "idsForFilter store allowedChats = map_option allowed (scopeForFilter store allowedChats)"

definition filter_chats :: "lid_store \<Rightarrow> string list option \<Rightarrow> 'a list \<Rightarrow> ('a \<Rightarrow> string option) \<Rightarrow> 'a list" where
  "filter_chats store allowedChats items chatIdOf =
     filterByChatScope (scopeForFilter store allowedChats) items chatIdOf"

section \<open>What a compiled allowlist holds\<close>

lemma form_distinct [simp]:
  "u @ ''@c.us'' \<noteq> v @ ''@lid''" "u @ ''@c.us'' \<noteq> v @ ''@g.us''" "u @ ''@c.us'' \<noteq> v @ ''@s.whatsapp.net''"
  "u @ ''@s.whatsapp.net'' \<noteq> v @ ''@lid''" "u @ ''@s.whatsapp.net'' \<noteq> v @ ''@g.us''"
  "u @ ''@s.whatsapp.net'' \<noteq> v @ ''@c.us''" "u @ ''@lid'' \<noteq> v @ ''@c.us''"
  "u @ ''@lid'' \<noteq> v @ ''@s.whatsapp.net''" "u @ ''@lid'' \<noteq> v @ ''@g.us''"
  "u @ ''@g.us'' \<noteq> v @ ''@c.us''" "u @ ''@g.us'' \<noteq> v @ ''@s.whatsapp.net''" "u @ ''@g.us'' \<noteq> v @ ''@lid''"
  by (auto dest: arg_cong [where f = rev])

lemma user_parts_iff:
  "u \<in> set (user_parts k a) \<longleftrightarrow> (\<exists>e \<in> set (entries a). kind (parseWaId e) = k \<and> user_part (parseWaId e) = u)"
  by (auto simp: user_parts_def)

lemma user_parts_clean: "u \<in> set (user_parts k a) \<Longrightarrow> k \<noteq> UnknownKind \<Longrightarrow> clean_local u"
  using parse_known_clean by (auto simp: user_parts_iff)

text \<open>The literal forms of the entries of an allowlist.\<close>

definition literal :: "string list option \<Rightarrow> string \<Rightarrow> bool" where
  "literal a x \<longleftrightarrow>
     (\<exists>u \<in> set (user_parts UserKind a). x = u @ ''@c.us'' \<or> x = u @ ''@s.whatsapp.net'')
   \<or> (\<exists>l \<in> set (user_parts LidKind a). x = l @ ''@lid'')
   \<or> (\<exists>g \<in> set (user_parts GroupKind a). x = g @ ''@g.us'')"

lemma addressForms_iff:
  "x \<in> set (addressForms e) \<longleftrightarrow>
     (kind (parseWaId e) = UserKind \<and>
        (x = user_part (parseWaId e) @ ''@c.us'' \<or> x = user_part (parseWaId e) @ ''@s.whatsapp.net''))
   \<or> (kind (parseWaId e) = LidKind \<and> x = user_part (parseWaId e) @ ''@lid'')
   \<or> (kind (parseWaId e) = GroupKind \<and> x = user_part (parseWaId e) @ ''@g.us'')"
  by (auto simp: addressForms_def Let_def split: wa_id_kind.splits)

lemma literal_iff: "literal a x \<longleftrightarrow> (\<exists>e \<in> set (entries a). x \<in> set (addressForms e))"
  unfolding literal_def Bex_def user_parts_iff addressForms_iff by blast

lemma buildChatScope_Some: "buildChatScope a = Some sc \<Longrightarrow> x \<in> set (allowed sc) \<longleftrightarrow> literal a x"
  by (auto simp: buildChatScope_def literal_iff split: if_splits)

text \<open>A literal form parses to its own kind and user part.\<close>

lemma literal_parse:
  assumes "literal a x"
  shows "kind (parseWaId x) = UserKind \<and> user_part (parseWaId x) \<in> set (user_parts UserKind a)
       \<or> kind (parseWaId x) = LidKind \<and> x = user_part (parseWaId x) @ ''@lid''
       \<or> kind (parseWaId x) = GroupKind \<and> x = user_part (parseWaId x) @ ''@g.us''"
proof -
  from assms consider
      u where "u \<in> set (user_parts UserKind a)" "x = u @ ''@c.us'' \<or> x = u @ ''@s.whatsapp.net''"
    | l where "l \<in> set (user_parts LidKind a)" "x = l @ ''@lid''"
    | g where "g \<in> set (user_parts GroupKind a)" "x = g @ ''@g.us''"
    unfolding literal_def by blast
  then show ?thesis
  proof cases
    case (1 u)
    then have "clean_local u" by (blast intro: user_parts_clean)
    from parse_dialects(1,2) [OF this] 1 show ?thesis by auto
  next
    case (2 l)
    then have "clean_local l" by (blast intro: user_parts_clean)
    from parse_dialects(3) [OF this] 2 show ?thesis by simp
  next
    case (3 g)
    then have "clean_local g" by (blast intro: user_parts_clean)
    from parse_dialects(4) [OF this] 3 show ?thesis by simp
  qed
qed

lemma literal_dialects [simp]:
  "literal a (u @ ''@c.us'') \<longleftrightarrow> u \<in> set (user_parts UserKind a)"
  "literal a (u @ ''@s.whatsapp.net'') \<longleftrightarrow> u \<in> set (user_parts UserKind a)"
  "literal a (u @ ''@lid'') \<longleftrightarrow> u \<in> set (user_parts LidKind a)"
  "literal a (u @ ''@g.us'') \<longleftrightarrow> u \<in> set (user_parts GroupKind a)"
  by (auto simp: literal_def)

text \<open>Which literal forms the candidates of a requested id meet, by the id's kind.\<close>

lemma candidates_user:
  assumes "kind (parseWaId i) = UserKind"
  shows "(\<exists>c \<in> set (resolveJidCandidates i (Some d)). literal a c) \<longleftrightarrow>
     user_part (parseWaId i) \<in> set (user_parts UserKind a)
   \<or> (\<exists>l \<in> set (lidsForPhone d (user_part (parseWaId i))). l \<in> set (user_parts LidKind a))"
proof -
  let ?u = "user_part (parseWaId i)"
  have "set (resolveJidCandidates i (Some d)) =
      {i, ?u @ ''@c.us'', ?u @ ''@s.whatsapp.net''} \<union> (\<lambda>l. l @ ''@lid'') ` set (lidsForPhone d ?u)"
    using assms by (simp add: resolveJidCandidates_def Let_def insert_commute)
  moreover have "literal a i \<longrightarrow> ?u \<in> set (user_parts UserKind a)"
    using literal_parse [of a i] assms by auto
  ultimately show ?thesis by auto
qed

lemma candidates_lid:
  assumes "kind (parseWaId i) = LidKind"
  shows "(\<exists>c \<in> set (resolveJidCandidates i (Some d)). literal a c) \<longleftrightarrow>
     user_part (parseWaId i) \<in> set (user_parts LidKind a)
   \<or> (\<exists>p. resolveLid d (user_part (parseWaId i)) = Some p \<and> p \<noteq> [] \<and> p \<in> set (user_parts UserKind a))"
  using assms by (auto simp: resolveJidCandidates_def Let_def truthy_iff)

lemma candidates_other:
  assumes "kind (parseWaId i) \<noteq> UserKind" "kind (parseWaId i) \<noteq> LidKind" "CHR ''@'' \<in> set i"
  shows "(\<exists>c \<in> set (resolveJidCandidates i d). literal a c) \<longleftrightarrow>
     kind (parseWaId i) = GroupKind \<and> user_part (parseWaId i) \<in> set (user_parts GroupKind a)"
  using assms literal_parse [of a i] by (auto simp: resolveJidCandidates_def Let_def)

context scope_directory_laws
begin

lemma expanded_iff:
  assumes "buildExpandedChatScope a (Some \<lparr>phonesForLids = phones_for, lidsForPhones = lids_for\<rparr>) = Some sc"
  shows "x \<in> set (allowed sc) \<longleftrightarrow> literal a x
     \<or> (\<exists>l \<in> set (user_parts LidKind a). \<exists>p. phone_of l = Some p \<and> p \<noteq> [] \<and> (x = p @ ''@c.us'' \<or> x = p @ ''@s.whatsapp.net''))
     \<or> (\<exists>u \<in> set (user_parts UserKind a). \<exists>l \<in> set (lids_of u). x = l @ ''@lid'')"
proof -
  let ?L = "user_parts LidKind a" and ?U = "user_parts UserKind a"
  obtain lit where lit: "buildChatScope a = Some lit"
    using assms by (auto simp: buildExpandedChatScope_def split: option.splits)
  have "list_all sep_free ?L"
    by (auto simp: list_all_iff dest: user_parts_clean intro: clean_local_sep_free)
  from batch_phones [OF this] have phones:
    "x \<in> set (concat (map (\<lambda>(_, phone). if truthy phone
        then [the phone @ ''@c.us'', the phone @ ''@s.whatsapp.net''] else []) (phones_for ?L))) \<longleftrightarrow>
     (\<exists>l \<in> set ?L. \<exists>p. phone_of l = Some p \<and> p \<noteq> [] \<and> (x = p @ ''@c.us'' \<or> x = p @ ''@s.whatsapp.net''))"
    by (auto simp: truthy_iff)
  have lids: "x \<in> set (concat (map (\<lambda>(_, ls). map (\<lambda>l. l @ ''@lid'') ls) (lids_for ?U))) \<longleftrightarrow>
     (\<exists>u \<in> set ?U. \<exists>l \<in> set (lids_of u). x = l @ ''@lid'')" (is "?lhs \<longleftrightarrow> ?rhs")
  proof
    assume ?lhs
    then obtain u ls l where e: "(u, ls) \<in> set (lids_for ?U)" and l: "l \<in> set ls" "x = l @ ''@lid''"
      by auto
    from e have "u \<in> set ?U"
      using batch_lids_keys [of ?U] by force
    with batch_lids [OF e] l show ?rhs by blast
  next
    assume ?rhs
    then obtain u l where u: "u \<in> set ?U" and l: "l \<in> set (lids_of u)" "x = l @ ''@lid''"
      by blast
    from u obtain ls where "(u, ls) \<in> set (lids_for ?U)"
      using batch_lids_keys [of ?U] by (metis image_iff prod.collapse)
    with batch_lids [OF this] l show ?lhs
      by (auto intro!: bexI [of _ "(u, ls)"])
  qed
  have "sc = \<lparr>allowed = js_set (allowed lit @
                concat (map (\<lambda>(_, phone). if truthy phone
                               then [the phone @ ''@c.us'', the phone @ ''@s.whatsapp.net''] else []) (phones_for ?L)) @
                concat (map (\<lambda>(_, ls). map (\<lambda>l. l @ ''@lid'') ls) (lids_for ?U)))\<rparr>"
    using assms lit by (simp add: buildExpandedChatScope_def Let_def)
  then show ?thesis
    using phones lids buildChatScope_Some [OF lit] by (simp only: chat_scope.simps set_js_set set_append Un_iff)
qed

text \<open>The guard's decision on one id is the list filter's decision on a row with that id.\<close>

lemma guard_iff_filter:
  assumes at: "CHR ''@'' \<in> set i"
  shows "chatIdAllowed (buildChatScope a) i (Some \<lparr>resolveLid = phone_of, lidsForPhone = lids_of\<rparr>) \<longleftrightarrow>
     chatScopeAllows (buildExpandedChatScope a (Some \<lparr>phonesForLids = phones_for, lidsForPhones = lids_for\<rparr>)) i"
proof (cases "buildChatScope a")
  case None
  then show ?thesis
    by (simp add: chatIdAllowed_def chatScopeAllows_def buildExpandedChatScope_def)
next
  case (Some lit)
  then obtain sc where sc:
    "buildExpandedChatScope a (Some \<lparr>phonesForLids = phones_for, lidsForPhones = lids_for\<rparr>) = Some sc"
    by (simp add: buildExpandedChatScope_def Let_def)
  let ?u = "user_part (parseWaId i)"
  let ?U = "set (user_parts UserKind a)" and ?L = "set (user_parts LidKind a)"
  note lit = buildChatScope_Some [OF Some] and exp = expanded_iff [OF sc]
  have lhs: "chatIdAllowed (buildChatScope a) i (Some \<lparr>resolveLid = phone_of, lidsForPhone = lids_of\<rparr>) \<longleftrightarrow>
      (\<exists>c \<in> set (resolveJidCandidates i (Some \<lparr>resolveLid = phone_of, lidsForPhone = lids_of\<rparr>)). literal a c)"
    by (simp add: chatIdAllowed_def Some list_ex_iff lit)
  have rhs: "chatScopeAllows (Some sc) i \<longleftrightarrow> (\<exists>c \<in> set (addressForms i). c \<in> set (allowed sc))"
    by (simp add: chatScopeAllows_def list_ex_iff)
  have L: "sep_free l" if "l \<in> ?L" for l
    using that by (auto dest: user_parts_clean intro: clean_local_sep_free)
  have U: "u \<noteq> []" if "u \<in> ?U" for u
    using that by (auto dest!: user_parts_clean simp: clean_local_def)
  consider "kind (parseWaId i) = UserKind" | "kind (parseWaId i) = LidKind"
    | "kind (parseWaId i) \<noteq> UserKind" "kind (parseWaId i) \<noteq> LidKind"
    by blast
  then show ?thesis
  proof cases
    case 1
    then have "clean_local ?u" by (intro parse_known_clean) simp
    then have "?u \<noteq> []" by (simp add: clean_local_def)
    moreover have "set (addressForms i) = {?u @ ''@c.us'', ?u @ ''@s.whatsapp.net''}"
      using 1 by (simp add: addressForms_def Let_def)
    ultimately show ?thesis
      unfolding lhs sc rhs candidates_user [OF 1] using inverse [of _ ?u] L by (auto simp: exp)
  next
    case 2
    then have "clean_local ?u" by (intro parse_known_clean) simp
    then have "sep_free ?u" by (rule clean_local_sep_free)
    moreover have "set (addressForms i) = {?u @ ''@lid''}"
      using 2 by (simp add: addressForms_def Let_def)
    ultimately show ?thesis
      unfolding lhs sc rhs candidates_lid [OF 2] using inverse [of ?u] U by (auto simp: exp)
  next
    case 3
    then show ?thesis
      unfolding lhs sc rhs candidates_other [OF 3 at] by (auto simp: addressForms_iff exp)
  qed
qed

end

section \<open>Properties\<close>

text \<open>Without a store the service reads a directory that maps nothing.\<close>

lemma no_directory:
  "resolveJidCandidates i None = resolveJidCandidates i (Some \<lparr>resolveLid = \<lambda>_. None, lidsForPhone = \<lambda>_. []\<rparr>)"
  by (simp add: resolveJidCandidates_def Let_def)

lemma no_directory_expanded:
  "chatScopeAllows (buildExpandedChatScope a None) i \<longleftrightarrow>
   chatScopeAllows (buildExpandedChatScope a
     (Some \<lparr>phonesForLids = map (\<lambda>l. (l, None)), lidsForPhones = map (\<lambda>p. (p, []))\<rparr>)) i"
proof -
  have "concat (map (\<lambda>(_, phone). if truthy phone then [the phone @ ''@c.us'', the phone @ ''@s.whatsapp.net''] else [])
          (map (\<lambda>l. (l, None)) ls)) = []" for ls :: "string list"
    by (induction ls) auto
  moreover have "concat (map (\<lambda>(_, ls). map (\<lambda>l. l @ ''@lid'') ls) (map (\<lambda>p. (p, [])) ps)) = []" for ps :: "string list"
    by (induction ps) auto
  ultimately show ?thesis
    by (simp add: buildExpandedChatScope_def Let_def chatScopeAllows_def list_ex_iff split: option.splits)
qed

lemma empty_directory_laws:
  "scope_directory_laws (\<lambda>_. None) (\<lambda>_. []) (map (\<lambda>l. (l, None))) (map (\<lambda>p. (p, [])))"
  by unfold_locales (auto simp: image_image)

text \<open>A store as it runs: its mirror is in a state it can reach.\<close>

definition running_store :: "lid_store \<Rightarrow> bool" where
  "running_store store \<longleftrightarrow> (case store of None \<Rightarrow> True | Some (db, m) \<Rightarrow> \<exists>cap. mirror_reach cap m)"

lemma allows_iff_scopeForFilter:
  assumes "CHR ''@'' \<in> set i" and "running_store store"
  shows "allows store a i \<longleftrightarrow> chatScopeAllows (scopeForFilter store a) i"
proof (cases store)
  case None
  then show ?thesis
    using scope_directory_laws.guard_iff_filter [OF empty_directory_laws assms(1), of a]
    by (simp add: allows_def scopeFor_def scopeForFilter_def singleDirectory_def batchDirectory_def
        no_directory_expanded chatIdAllowed_def no_directory split: option.splits)
next
  case (Some st)
  obtain db m where st: "st = (db, m)"
    by fastforce
  have "mirror_core m"
    using assms(2) mirror_reach_inv by (auto simp: running_store_def Some st mirror_inv_def)
  then show ?thesis
    using scope_directory_laws.guard_iff_filter [OF directory_laws assms(1), of db m a]
    by (simp add: Some st allows_def scopeFor_def scopeForFilter_def singleDirectory_def batchDirectory_def)
qed

text \<open>
  C5: The fence on a whole list is the fence on one request. For rows whose chat ids contain an '@' (a
  bare id is taken by the guard for a phone number and by the filter for no chat), a list endpoint keeps
  exactly the rows whose id the guard would admit for that key, in order, and a row without a chat id
  only for an unrestricted key. The guard expands the requested id through the lid table and the filter
  expands the allowlist through batched reads of it; this holds without a store, when the reads of both
  succeed on the same table and mirror, and when they fail and the mirror answers, in any state it can
  reach.
\<close>

theorem list_filter_is_guard:
  assumes "\<And>x i. x \<in> set items \<Longrightarrow> chatIdOf x = Some i \<Longrightarrow> CHR ''@'' \<in> set i" and "running_store store"
  shows "filter_chats store a items chatIdOf =
     filter (\<lambda>x. case chatIdOf x of None \<Rightarrow> \<not> isRestricted a | Some i \<Rightarrow> allows store a i) items"
proof (cases "scopeForFilter store a")
  case None
  then have "\<not> isRestricted a"
    by (auto simp: scopeForFilter_def buildExpandedChatScope_def buildChatScope_def isRestricted_def
        split: option.splits if_splits)
  then have "allows store a i" for i
    by (simp add: allows_def scopeFor_def buildChatScope_def isRestricted_def chatIdAllowed_def)
  with \<open>\<not> isRestricted a\<close> None show ?thesis
    by (auto simp: filter_chats_def filterByChatScope_def filter_id_conv intro!: sym [of _ items] split: option.splits)
next
  case (Some sc)
  then have "isRestricted a"
    by (auto simp: scopeForFilter_def buildExpandedChatScope_def buildChatScope_def isRestricted_def
        split: option.splits if_splits)
  with Some assms show ?thesis
    by (auto simp: filter_chats_def filterByChatScope_def allows_iff_scopeForFilter
        intro!: filter_cong split: option.splits)
qed

theorem list_filter_is_guard_witness:
  "filter_chats (Some (Some [(''77777'', \<lparr>row_phone = Some ''628111'', row_session = None, is_reported = True, updated_at = 0\<rparr>)],
       empty_mirror 9)) (Some [''628111'']) [''77777@lid'', ''628111@c.us'', ''88888@lid''] Some
   = [''77777@lid'', ''628111@c.us'']"
  (is "filter_chats ?st ?a ?xs Some = _")
proof -
  have "running_store ?st"
    using mirror_reach.boot by (auto simp: running_store_def)
  then have "filter_chats ?st ?a ?xs Some = filter (\<lambda>x. case Some x of None \<Rightarrow> \<not> isRestricted ?a | Some i \<Rightarrow> allows ?st ?a i) ?xs"
    by (intro list_filter_is_guard) auto
  moreover have "filter (\<lambda>x. case Some x of None \<Rightarrow> \<not> isRestricted ?a | Some i \<Rightarrow> allows ?st ?a i) ?xs
      = [''77777@lid'', ''628111@c.us'']"
    by code_simp
  ultimately show ?thesis by simp
qed

lemma entries_single: "clean_local d \<Longrightarrow> sfx \<noteq> [] \<Longrightarrow> \<not> js_ws (last sfx) \<Longrightarrow> CHR ''@'' \<in> set sfx \<Longrightarrow>
    entries (Some [d @ sfx]) = [d @ sfx]"
proof -
  assume *: "clean_local d" "sfx \<noteq> []" "\<not> js_ws (last sfx)" "CHR ''@'' \<in> set sfx"
  then have "trim (d @ sfx) = d @ sfx"
    by (intro trim_fix) (auto simp: clean_local_def)
  moreover have "\<not> BARE_NUMBER (d @ sfx)"
    using *(4) by (auto simp: BARE_NUMBER_def digits5_def list_all_iff intro!: bexI [of _ "CHR ''@''"])
  ultimately show ?thesis
    using * by (simp add: entries_def normalizeChatAllowList_def js_set.simps)
qed

lemma single_lid_entry:
  assumes "digits5 d"
  shows "user_parts UserKind (Some [d @ ''@lid'']) = []" "user_parts LidKind (Some [d @ ''@lid'']) = [d]"
    "user_parts GroupKind (Some [d @ ''@lid'']) = []"
proof -
  have "entries (Some [d @ ''@lid'']) = [d @ ''@lid'']"
    using clean_local_digits [OF assms] by (intro entries_single) (auto simp: js_ws_def)
  then show "user_parts UserKind (Some [d @ ''@lid'']) = []" "user_parts LidKind (Some [d @ ''@lid'']) = [d]"
    "user_parts GroupKind (Some [d @ ''@lid'']) = []"
    using digits_dialects(3,4) [OF assms] by (simp_all add: user_parts_def js_set.simps)
qed

text \<open>
  A lid's digits are not a phone number. A key allowlisted for one lid reaches a phone's chat
  exactly when the store maps that lid to that phone; in particular the lid never admits the chat of
  the number with its own digits unless the store says so, and without a store it admits none.
\<close>

theorem lid_entry_admits_only_its_phone:
  assumes "digits5 d" and "digits5 e" and "running_store store"
  shows "allows store (Some [d @ ''@lid'']) (e @ ''@c.us'') \<longleftrightarrow>
     (\<exists>db m. store = Some (db, m) \<and> db_phone db m d = Some e)"
proof -
  let ?a = "Some [d @ ''@lid'']"
  note e = digits_dialects(1,2) [OF assms(2)]
  obtain sc where sc: "buildChatScope ?a = Some sc"
    by (auto simp: buildChatScope_def isChatScopeRestricted_def)
  have lhs: "allows store ?a (e @ ''@c.us'') \<longleftrightarrow>
      (\<exists>c \<in> set (resolveJidCandidates (e @ ''@c.us'') (singleDirectory store)). literal ?a c)"
    by (simp add: allows_def scopeFor_def chatIdAllowed_def sc list_ex_iff buildChatScope_Some [OF sc])
  have d: "sep_free d" "e \<noteq> []"
    using clean_local_digits [OF assms(1)] clean_local_digits [OF assms(2)]
    by (simp_all add: clean_local_sep_free clean_local_def)
  have inverse: "d \<in> set (findLidsForPhone db m e) \<longleftrightarrow> db_phone db m d = Some e" if "store = Some (db, m)" for db m
  proof -
    have "mirror_core m"
      using assms(3) mirror_reach_inv by (auto simp: running_store_def that mirror_inv_def)
    then show ?thesis
      using contact_directory_laws.inverse [OF scope_directory_laws.axioms(1) [OF directory_laws]] d by blast
  qed
  show ?thesis
    unfolding lhs using candidates_user [OF e(1)] inverse single_lid_entry [OF assms(1)] e(2)
    by (cases store) (simp_all add: singleDirectory_def no_directory split: prod.splits)
qed

theorem lid_entry_admits_only_its_phone_witness:
  "\<not> allows (Some (Some [], empty_mirror 9)) (Some [''555000111@lid'']) ''555000111@c.us''"
proof -
  have d: "digits5 ''555000111''" by code_simp
  have "running_store (Some (Some [], empty_mirror 9))"
    using mirror_reach.boot by (auto simp: running_store_def)
  from lid_entry_admits_only_its_phone [OF d d this] show ?thesis
    by (simp add: findPhoneForLid_def Let_def)
qed

end
