(* ===== verification/Api_Key.thy ===== *)
theory Api_Key
  imports Chat_Scope Ip
begin

text \<open>
  The API-key entity (\<^verbatim>\<open>src/src/modules/auth/entities/api-key.entity.ts\<close>), what a key is authorised to
  do (\<^verbatim>\<open>api-key-authorization.ts\<close>), the coalesced usage statistics
  (\<^verbatim>\<open>api-key-usage-tracker.service.ts\<close>) and the advisory index of active keys
  (\<^verbatim>\<open>active-key-index.ts\<close>).

  A date is its time in milliseconds or the invalid date. The key table is an association list from
  ids to rows. A \<open>simple-array\<close> column is written as its comma-joined text and read back by splitting:
  \<open>column\<close> is what a row holds after the round trip.
\<close>

section \<open>The entity\<close>

datatype role = ADMIN | OPERATOR | VIEWER

datatype jsdate = At int | InvalidDate

record api_key =
  key_id :: string
  key_name :: string
  keyHash :: string
  keyPrefix :: string
  key_role :: role
  allowedIps :: "string list option"
  allowedSessions :: "string list option"
  allowedChats :: "string list option"
  isActive :: bool
  expiresAt :: "jsdate option"
  lastUsedAt :: "int option"
  usageCount :: int

type_synonym key_table = "(string \<times> api_key) list"

definition column :: "string list option \<Rightarrow> string list option" where
  "column v =
     map_option (\<lambda>xs. let text = join_comma xs in if text = [] then [] else split_on (CHR '','') text) v"

text \<open>\<open>d1 >= d2\<close> for dates: every comparison with the invalid date is false.\<close>

fun date_ge :: "jsdate \<Rightarrow> int \<Rightarrow> bool" where
  "date_ge (At t) now = (t \<ge> now)"
| "date_ge InvalidDate now = False"

section \<open>Authorization\<close>

definition normalizeScopeList :: "string list option \<Rightarrow> string list option" where
  "normalizeScopeList list =
     (case list of
        None \<Rightarrow> None
      | Some xs \<Rightarrow>
          (let cleaned = filter (\<lambda>e. length e > 0) (map trim xs) in if length cleaned > 0 then Some cleaned else None))"

definition apiKeyExpiryTime :: "jsdate option \<Rightarrow> int option" where
  "apiKeyExpiryTime v = (case v of None \<Rightarrow> None | Some (At t) \<Rightarrow> Some t | Some InvalidDate \<Rightarrow> Some 0)"

definition scope_sorted :: "string list option \<Rightarrow> string list option" where
  "scope_sorted list = map_option sort (normalizeScopeList list)"

text \<open>The fingerprint, as the tuple \<open>JSON.stringify\<close> prints: printing it loses nothing.\<close>

type_synonym fingerprint = "role \<times> string list option \<times> string list option \<times> string list option \<times> int option"

definition apiKeyAuthorizationFingerprint :: "api_key \<Rightarrow> fingerprint" where
  "apiKeyAuthorizationFingerprint key =
     (key_role key, scope_sorted (allowedIps key), scope_sorted (allowedSessions key),
      scope_sorted (normalizeChatAllowList (allowedChats key)), apiKeyExpiryTime (expiresAt key))"

section \<open>Usage statistics\<close>

text \<open>
  A windowed write is awaited, so other requests run between its start and its end: it is two steps.
  \<open>stat_writes\<close> holds the writes that are under way (key, increment, new \<open>lastUsedAt\<close> or \<open>None\<close> for the
  shutdown flush's plain increment).
\<close>

record usage_state =
  pending :: "(string \<times> int) list"
  stat_writes :: "(string \<times> int \<times> int option) list"

definition STAT_FLUSH_INTERVAL_MS :: int where
  "STAT_FLUSH_INTERVAL_MS = 60000"

definition pending_of :: "string \<Rightarrow> usage_state \<Rightarrow> int" where
  "pending_of k u = (case map_of (pending u) k of Some n \<Rightarrow> n | None \<Rightarrow> 0)"

text \<open>\<open>record\<close> up to its \<open>await\<close>: the entity handed back to the caller and the state.\<close>

definition record_use :: "int \<Rightarrow> api_key \<Rightarrow> usage_state \<Rightarrow> api_key \<times> usage_state" where
  "record_use now apiKey u =
     (let p = pending_of (key_id apiKey) u + 1;
          entity = apiKey\<lparr>lastUsedAt := Some now, usageCount := usageCount apiKey + p\<rparr>;
          due = (case lastUsedAt apiKey of None \<Rightarrow> True | Some prev \<Rightarrow> now - prev \<ge> STAT_FLUSH_INTERVAL_MS)
      in if \<not> due then (entity, u\<lparr>pending := js_put (key_id apiKey) p (pending u)\<rparr>)
         else (entity, u\<lparr>pending := js_delete (key_id apiKey) (pending u),
                         stat_writes := (key_id apiKey, p, Some now) # stat_writes u\<rparr>))"

text \<open>A write that reaches the database: an increment of the row, of no row when the key is gone.\<close>

definition bump :: "int \<Rightarrow> int option \<Rightarrow> api_key \<Rightarrow> api_key" where
  "bump n at k = k\<lparr>usageCount := usageCount k + n, lastUsedAt := (case at of Some t \<Rightarrow> Some t | None \<Rightarrow> lastUsedAt k)\<rparr>"

definition write_landed :: "string \<times> int \<times> int option \<Rightarrow> key_table \<times> usage_state \<Rightarrow> key_table \<times> usage_state" where
  "write_landed w s =
     (case (w, s) of
        ((k, n, at), (t, u)) \<Rightarrow>
          (map (\<lambda>(i, r). (i, if i = k then bump n at r else r)) t, u\<lparr>stat_writes := remove1 w (stat_writes u)\<rparr>))"

text \<open>A write that fails: its increments are merged back into the pending count.\<close>

definition write_failed :: "string \<times> int \<times> int option \<Rightarrow> usage_state \<Rightarrow> usage_state" where
  "write_failed w u =
     (case w of (k, n, at) \<Rightarrow>
        u\<lparr>pending := js_put k (pending_of k u + n) (pending u), stat_writes := remove1 w (stat_writes u)\<rparr>)"

text \<open>
  \<open>record\<close> as its caller awaits it, when nothing else touches the key meanwhile: a write that is due lands
  or fails before the request goes on. What other requests do in between is in \<open>usage_run\<close> below.
\<close>

definition stat_due :: "int \<Rightarrow> api_key \<Rightarrow> bool" where
  "stat_due now k = (case lastUsedAt k of None \<Rightarrow> True | Some prev \<Rightarrow> now - prev \<ge> STAT_FLUSH_INTERVAL_MS)"

definition record_awaited :: "bool \<Rightarrow> int \<Rightarrow> api_key \<Rightarrow> key_table \<times> usage_state \<Rightarrow> api_key \<times> key_table \<times> usage_state" where
  "record_awaited lands now k s =
     (case s of (t, u) \<Rightarrow>
        let (entity, u1) = record_use now k u; w = (key_id k, pending_of (key_id k) u + 1, Some now)
        in if \<not> stat_due now k then (entity, t, u1)
           else if lands then (entity, write_landed w (t, u1))
           else (entity, t, write_failed w u1))"

definition forget :: "string \<Rightarrow> usage_state \<Rightarrow> usage_state" where
  "forget keyId u = u\<lparr>pending := js_delete keyId (pending u)\<rparr>"

text \<open>\<open>flushPending\<close> takes the whole batch out of the map before its first write.\<close>

definition flushPending_start :: "usage_state \<Rightarrow> usage_state" where
  "flushPending_start u =
     u\<lparr>pending := [], stat_writes := map (\<lambda>(k, n). (k, n, None)) (filter (\<lambda>(k, n). n > 0) (pending u)) @ stat_writes u\<rparr>"

section \<open>The active-key index\<close>

record active_key_index =
  index_keys :: "string \<rightharpoonup> (string list option \<times> jsdate option)"
  loading :: bool
  reloadAgain :: bool
  index_destroyed :: bool

definition refreshSoon :: "active_key_index \<Rightarrow> active_key_index" where
  "refreshSoon x =
     (if index_destroyed x then x
      else if loading x then x\<lparr>reloadAgain := True\<rparr>
      else x\<lparr>loading := True, reloadAgain := False\<rparr>)"

text \<open>
  \<open>load\<close> with the rows its SELECT saw (\<open>None\<close> when it failed: the last good view is kept), and the
  end of that turn of the loop: run again or stop.
\<close>

definition index_of :: "key_table \<Rightarrow> string \<rightharpoonup> (string list option \<times> jsdate option)" where
  "index_of rows = map_of (rev (map (\<lambda>(i, r). (keyHash r, (allowedIps r, expiresAt r))) (filter (\<lambda>(i, r). isActive r) rows)))"

definition load :: "key_table option \<Rightarrow> active_key_index \<Rightarrow> active_key_index" where
  "load rows x = (case rows of Some t \<Rightarrow> x\<lparr>index_keys := index_of t\<rparr> | None \<Rightarrow> x)"

definition onModuleDestroy_index :: "active_key_index \<Rightarrow> active_key_index" where
  "onModuleDestroy_index x = x\<lparr>index_destroyed := True\<rparr>"

definition load_done :: "key_table option \<Rightarrow> active_key_index \<Rightarrow> active_key_index" where
  "load_done rows x =
     (let y = load rows x
      in if reloadAgain y \<and> \<not> index_destroyed y then y\<lparr>reloadAgain := False\<rparr> else y\<lparr>loading := False\<rparr>)"

definition recognise :: "(string \<Rightarrow> string) \<Rightarrow> int \<Rightarrow> string option \<Rightarrow> string \<Rightarrow> active_key_index \<Rightarrow> string option" where
  "recognise hash now presented clientIp x =
     (case map_option trim presented of
        None \<Rightarrow> None
      | Some key \<Rightarrow>
          if key = [] then None
          else let h = hash key
          in case index_keys x h of
               None \<Rightarrow> None
             | Some (ips, expiry) \<Rightarrow>
                 if (case expiry of None \<Rightarrow> False | Some d \<Rightarrow> \<not> date_ge d now) then None
                 else if nonempty_opt ips \<and> \<not> list_ex (\<lambda>entry. ipMatches clientIp entry) (the ips) then None
                 else Some h)"

section \<open>No use is lost or counted twice\<close>

definition in_flight :: "string \<Rightarrow> usage_state \<Rightarrow> int" where
  "in_flight k u = sum_list (map (\<lambda>(i, n, at). if i = k then n else 0) (stat_writes u))"

definition count_of :: "key_table \<Rightarrow> string \<Rightarrow> int option" where
  "count_of t k = map_option usageCount (map_of t k)"

text \<open>
  Runs of the tracker beside other work on the table: requests recording a use of an entity they
  loaded at some point, their writes landing or failing in any order, the shutdown flush, and edits of
  the rows that leave the counter alone. The last component counts the uses recorded per key.
\<close>

inductive usage_run :: "key_table \<Rightarrow> key_table \<Rightarrow> usage_state \<Rightarrow> (string \<Rightarrow> int) \<Rightarrow> bool" for t0 where
  usage_start: "usage_run t0 t0 \<lparr>pending = [], stat_writes = []\<rparr> (\<lambda>k. 0)"
| usage_record: "usage_run t0 t u r \<Longrightarrow>
    usage_run t0 t (snd (record_use now entity u)) (r(key_id entity := r (key_id entity) + 1))"
| usage_landed: "usage_run t0 t u r \<Longrightarrow> w \<in> set (stat_writes u) \<Longrightarrow> write_landed w (t, u) = (t', u') \<Longrightarrow> usage_run t0 t' u' r"
| usage_failed: "usage_run t0 t u r \<Longrightarrow> w \<in> set (stat_writes u) \<Longrightarrow> usage_run t0 t (write_failed w u) r"
| usage_flush: "usage_run t0 t u r \<Longrightarrow> usage_run t0 t (flushPending_start u) r"
| usage_edit: "usage_run t0 t u r \<Longrightarrow> (\<And>k. count_of t' k = count_of t k) \<Longrightarrow> usage_run t0 t' u r"

definition usage_inv :: "key_table \<Rightarrow> key_table \<Rightarrow> usage_state \<Rightarrow> (string \<Rightarrow> int) \<Rightarrow> bool" where
  "usage_inv t0 t u r \<longleftrightarrow>
     distinct (map fst (pending u)) \<and> (\<forall>(k, n) \<in> set (pending u). 0 < n) \<and> (\<forall>(k, n, at) \<in> set (stat_writes u). 0 < n) \<and>
     (\<forall>k. map_option (\<lambda>c. c + pending_of k u + in_flight k u) (count_of t k) = map_option (\<lambda>c. c + r k) (count_of t0 k))"

lemma pending_of_js_put: "pending_of k (u\<lparr>pending := js_put i n (pending u)\<rparr>) = (if k = i then n else pending_of k u)"
  by (simp add: pending_of_def)

lemma pending_of_js_delete: "pending_of k (u\<lparr>pending := js_delete i (pending u)\<rparr>) = (if k = i then 0 else pending_of k u)"
  by (simp add: pending_of_def)

lemma pending_of_writes [simp]: "pending_of k (u\<lparr>stat_writes := ws\<rparr>) = pending_of k u"
  by (simp add: pending_of_def)

lemma in_flight_pending [simp]: "in_flight k (u\<lparr>pending := p\<rparr>) = in_flight k u"
  by (simp add: in_flight_def)

lemma in_flight_Cons: "in_flight k (u\<lparr>stat_writes := (i, n, at) # stat_writes u\<rparr>) = (if i = k then n else 0) + in_flight k u"
  by (simp add: in_flight_def)

lemma in_flight_remove1:
  assumes "(i, n, at) \<in> set (stat_writes u)"
  shows "in_flight k u = (if i = k then n else 0) + in_flight k (u\<lparr>stat_writes := remove1 (i, n, at) (stat_writes u)\<rparr>)"
  using sum_list_map_remove1 [OF assms, of "\<lambda>(i, n, at). if i = k then n else 0"] by (simp add: in_flight_def)

lemma pending_of_nonneg: "\<forall>(k, n) \<in> set (pending u). 0 < n \<Longrightarrow> 0 \<le> pending_of k u"
  by (fastforce simp: pending_of_def dest: map_of_SomeD split: option.splits)

lemma set_js_put: "(k, n) \<in> set (js_put i m xs) \<Longrightarrow> (k, n) \<in> set xs \<or> (k = i \<and> n = m)"
  by (induction i m xs rule: js_put.induct) (auto split: if_splits)

lemma set_js_delete: "(k, n) \<in> set (js_delete i xs) \<Longrightarrow> (k, n) \<in> set xs"
  by (auto simp: js_delete_def)

lemma usage_inv_record:
  assumes "usage_inv t0 t u r"
  shows "usage_inv t0 t (snd (record_use now e u)) (r(key_id e := r (key_id e) + 1))"
proof -
  let ?k = "key_id e" and ?u = "snd (record_use now e u)"
  have p: "0 < pending_of ?k u + 1"
    using assms pending_of_nonneg [of u ?k] by (auto simp: usage_inv_def)
  have sum: "pending_of k ?u + in_flight k ?u = pending_of k u + in_flight k u + (if k = ?k then 1 else 0)" for k
    by (auto simp: record_use_def Let_def pending_of_js_put pending_of_js_delete in_flight_def pending_of_def
        split: option.splits)
  have "distinct (map fst (pending ?u))" "\<forall>(k, n) \<in> set (pending ?u). 0 < n" "\<forall>(k, n, at) \<in> set (stat_writes ?u). 0 < n"
    using assms p by (auto simp: usage_inv_def record_use_def Let_def dest!: set_js_put set_js_delete)
  moreover have "map_option (\<lambda>c. c + pending_of k ?u + in_flight k ?u) (count_of t k)
      = map_option (\<lambda>c. c + (r(?k := r ?k + 1)) k) (count_of t0 k)" for k
  proof -
    have "map_option (\<lambda>c. c + pending_of k u + in_flight k u) (count_of t k) = map_option (\<lambda>c. c + r k) (count_of t0 k)"
      using assms by (simp add: usage_inv_def)
    with sum [of k] show ?thesis
      by (cases "count_of t k"; cases "count_of t0 k") auto
  qed
  ultimately show ?thesis
    by (simp add: usage_inv_def)
qed

lemma count_of_bump:
  "count_of (map (\<lambda>(i, r). (i, if i = k then bump n at r else r)) t) j = map_option (\<lambda>c. c + (if j = k then n else 0)) (count_of t j)"
  by (induction t) (auto simp: count_of_def bump_def)

lemma usage_inv_landed:
  assumes "usage_inv t0 t u r" and "w \<in> set (stat_writes u)" and "write_landed w (t, u) = (t', u')"
  shows "usage_inv t0 t' u' r"
proof -
  obtain k n at where w: "w = (k, n, at)"
    by (cases w)
  have t': "t' = map (\<lambda>(i, r). (i, if i = k then bump n at r else r)) t"
    and u': "u' = u\<lparr>stat_writes := remove1 (k, n, at) (stat_writes u)\<rparr>"
    using assms(3) by (simp_all add: write_landed_def w)
  have "map_option (\<lambda>c. c + pending_of j u' + in_flight j u') (count_of t' j) = map_option (\<lambda>c. c + r j) (count_of t0 j)" for j
  proof -
    have "map_option (\<lambda>c. c + pending_of j u + in_flight j u) (count_of t j) = map_option (\<lambda>c. c + r j) (count_of t0 j)"
      using assms(1) by (simp add: usage_inv_def)
    with in_flight_remove1 [of k n at u j] assms(2) show ?thesis
      unfolding t' u' count_of_bump by (cases "count_of t j"; cases "count_of t0 j") (auto simp: w)
  qed
  moreover have "\<forall>(k, n, at) \<in> set (stat_writes u'). 0 < n"
    using assms(1) set_remove1_subset [of w "stat_writes u"] by (auto simp: usage_inv_def u' w)
  ultimately show ?thesis
    using assms(1) by (simp add: usage_inv_def u')
qed

lemma usage_inv_failed:
  assumes "usage_inv t0 t u r" and "w \<in> set (stat_writes u)"
  shows "usage_inv t0 t (write_failed w u) r"
proof -
  obtain k n at where w: "w = (k, n, at)"
    by (cases w)
  have sum: "pending_of j (write_failed w u) + in_flight j (write_failed w u) = pending_of j u + in_flight j u" for j
    using in_flight_remove1 [of k n at u j] assms(2)
    by (simp add: write_failed_def w pending_of_def in_flight_def)
  have "0 < n"
    using assms by (auto simp: usage_inv_def w)
  then have "0 < pending_of k u + n"
    using assms(1) pending_of_nonneg [of u k] by (auto simp: usage_inv_def)
  then have "distinct (map fst (pending (write_failed w u)))" "\<forall>(k, n) \<in> set (pending (write_failed w u)). 0 < n"
    "\<forall>(k, n, at) \<in> set (stat_writes (write_failed w u)). 0 < n"
    using assms(1) set_remove1_subset [of w "stat_writes u"] by (auto simp: usage_inv_def write_failed_def w dest!: set_js_put)
  with sum show ?thesis
    using assms(1) by (simp add: usage_inv_def add.assoc)
qed

lemma usage_inv_flush:
  assumes "usage_inv t0 t u r"
  shows "usage_inv t0 t (flushPending_start u) r"
proof -
  have all: "filter (\<lambda>(k, n). n > 0) (pending u) = pending u"
    using assms by (auto simp: usage_inv_def filter_id_conv)
  have "sum_list (map (\<lambda>(i, n). if i = k then n else 0) ps) = (case map_of ps k of Some n \<Rightarrow> n | None \<Rightarrow> 0)"
    if "distinct (map fst ps)" for ps :: "(string \<times> int) list" and k
    using that
  proof (induction ps)
    case (Cons p ps)
    then show ?case
      by (cases p) (auto simp: map_of_eq_None_iff image_iff split: option.splits)
  qed simp
  then have *: "sum_list (map (\<lambda>(i, n). if i = k then n else 0) (pending u)) = pending_of k u" for k
    using assms by (simp add: usage_inv_def pending_of_def)
  have sum: "pending_of k (flushPending_start u) + in_flight k (flushPending_start u) = pending_of k u + in_flight k u" for k
  proof -
    have "(\<lambda>(i, n, at). if i = k then n else 0) \<circ> (\<lambda>(i, n). (i, n, None :: int option)) = (\<lambda>(i, n). if i = k then n else (0 :: int))"
      by auto
    with * [of k] show ?thesis
      by (simp add: flushPending_start_def all in_flight_def pending_of_def)
  qed
  have "distinct (map fst (pending (flushPending_start u)))" "\<forall>(k, n) \<in> set (pending (flushPending_start u)). 0 < n"
    "\<forall>(k, n, at) \<in> set (stat_writes (flushPending_start u)). 0 < n"
    using assms by (auto simp: usage_inv_def flushPending_start_def)
  with sum show ?thesis
    using assms by (simp add: usage_inv_def add.assoc)
qed

lemma usage_run_inv: "usage_run t0 t u r \<Longrightarrow> usage_inv t0 t u r"
proof (induction rule: usage_run.induct)
  case usage_start
  then show ?case
    by (simp add: usage_inv_def pending_of_def in_flight_def)
next
  case (usage_edit t u r t')
  then show ?case
    by (simp add: usage_inv_def)
qed (blast intro: usage_inv_record usage_inv_landed usage_inv_failed usage_inv_flush)+

text \<open>
  C21: Usage counting conserves uses. However requests, windowed writes that land or fail, and the
  shutdown flush interleave, a key's stored count plus what is pending plus what is in flight equals
  its count at the start plus the uses recorded since: none is lost to a failed or concurrent write
  and none is written twice.
\<close>

theorem usage_conserved:
  assumes "usage_run t0 t u r" and "count_of t k = Some c" and "count_of t0 k = Some c0"
  shows "c + pending_of k u + in_flight k u = c0 + r k"
proof -
  have "map_option (\<lambda>c. c + pending_of k u + in_flight k u) (count_of t k) = map_option (\<lambda>c. c + r k) (count_of t0 k)"
    using usage_run_inv [OF assms(1)] by (simp add: usage_inv_def)
  then show ?thesis
    by (simp add: assms(2,3))
qed

definition sample_key :: api_key where
  "sample_key = \<lparr>key_id = ''k1'', key_name = ''ops'', keyHash = ''h1'', keyPrefix = ''owa_k1_abcde'', key_role = ADMIN,
     allowedIps = None, allowedSessions = None, allowedChats = None, isActive = True, expiresAt = None,
     lastUsedAt = Some 0, usageCount = 5\<rparr>"

theorem usage_conserved_witness:
  "let u1 = snd (record_use 70000 sample_key (snd (record_use 10 sample_key \<lparr>pending = [], stat_writes = []\<rparr>)))
   in in_flight ''k1'' u1 = 2 \<and> pending_of ''k1'' (write_failed (''k1'', 2, Some 70000) u1) = 2
      \<and> 5 + pending_of ''k1'' u1 + in_flight ''k1'' u1 = 5 + (2 :: int)"
proof -
  let ?u0 = "\<lparr>pending = [], stat_writes = []\<rparr> :: usage_state" and ?t = "[(''k1'', sample_key)]"
  let ?u1 = "snd (record_use 70000 sample_key (snd (record_use 10 sample_key ?u0)))"
  let ?r1 = "(\<lambda>k. 0 :: int)(key_id sample_key := (\<lambda>k. 0) (key_id sample_key) + 1)"
  let ?r2 = "?r1(key_id sample_key := ?r1 (key_id sample_key) + 1)"
  have run: "usage_run ?t ?t ?u1 ?r2"
    by (rule usage_record [OF usage_record [OF usage_start]])
  have c: "count_of ?t ''k1'' = Some 5"
    by (simp add: count_of_def sample_key_def)
  have "5 + pending_of ''k1'' ?u1 + in_flight ''k1'' ?u1 = 5 + (2 :: int)"
    using usage_conserved [OF run c c] by (simp add: sample_key_def)
  moreover have "in_flight ''k1'' ?u1 = 2" "pending_of ''k1'' (write_failed (''k1'', 2, Some 70000) ?u1) = 2"
    by code_simp+
  ultimately show ?thesis
    by (simp add: Let_def)
qed

section \<open>A coalesced refresh misses no write\<close>

text \<open>
  The index beside the table it mirrors: writes commit, the service announces them with
  \<open>refreshSoon\<close> (which the timer calls too), and each turn of the running load reads the table at some
  moment and later installs what it read, or fails before or after the read; the module may be
  destroyed at any point. Three ghosts say what happened: \<open>unannounced\<close> is set while a committed write
  has not been announced yet, \<open>turn_failed\<close> tells how the last finished turn ended, and \<open>last_read\<close> is
  the table the last successful turn read.
\<close>

record index_world =
  idx :: active_key_index
  key_rows :: key_table
  selected :: "key_table option"
  unannounced :: bool
  turn_failed :: bool
  last_read :: "key_table option"

definition index_fresh :: "key_table \<Rightarrow> index_world" where
  "index_fresh t = \<lparr>idx = \<lparr>index_keys = Map.empty, loading = False, reloadAgain = False, index_destroyed = False\<rparr>,
     key_rows = t, selected = None, unannounced = True, turn_failed = False, last_read = None\<rparr>"

definition announced :: "index_world \<Rightarrow> index_world" where
  "announced w = w\<lparr>idx := refreshSoon (idx w), selected := (if loading (idx w) then selected w else None), unannounced := False\<rparr>"

definition turn_done :: "key_table option \<Rightarrow> index_world \<Rightarrow> index_world" where
  "turn_done rows w = w\<lparr>idx := load_done rows (idx w), selected := None, turn_failed := rows = None,
     last_read := (case rows of None \<Rightarrow> last_read w | Some t \<Rightarrow> Some t)\<rparr>"

inductive index_run :: "index_world \<Rightarrow> bool" where
  index_start: "index_run (index_fresh t)"
| index_write: "index_run w \<Longrightarrow> index_run (w\<lparr>key_rows := t, unannounced := True\<rparr>)"
| index_refresh: "index_run w \<Longrightarrow> index_run (announced w)"
| index_select: "index_run w \<Longrightarrow> loading (idx w) \<Longrightarrow> selected w = None \<Longrightarrow> index_run (w\<lparr>selected := Some (key_rows w)\<rparr>)"
| index_done: "index_run w \<Longrightarrow> loading (idx w) \<Longrightarrow> selected w = Some t \<Longrightarrow> index_run (turn_done (Some t) w)"
| index_fail: "index_run w \<Longrightarrow> loading (idx w) \<Longrightarrow> index_run (turn_done None w)"
| index_destroy: "index_run w \<Longrightarrow> index_run (w\<lparr>idx := onModuleDestroy_index (idx w)\<rparr>)"

lemmas index_step_defs = index_fresh_def announced_def turn_done_def refreshSoon_def load_done_def load_def
  onModuleDestroy_index_def

lemma index_run_inv:
  "index_run w \<Longrightarrow> \<not> unannounced w \<Longrightarrow> \<not> index_destroyed (idx w) \<Longrightarrow>
     (loading (idx w) \<longrightarrow> reloadAgain (idx w) \<or> selected w = None \<or> selected w = Some (key_rows w)) \<and>
     (\<not> loading (idx w) \<longrightarrow> turn_failed w \<or> index_keys (idx w) = index_of (key_rows w))"
  by (induction rule: index_run.induct) (auto simp: index_step_defs Let_def split: if_splits)

lemma index_run_view:
  "index_run w \<Longrightarrow> index_keys (idx w) = (case last_read w of None \<Rightarrow> Map.empty | Some t \<Rightarrow> index_of t)"
  by (induction rule: index_run.induct) (auto simp: index_step_defs Let_def split: if_splits)

text \<open>
  C22: The in-memory key index follows the table. It always holds exactly the active keys of the table
  its last successful load read (none before the first), so a failed load keeps the previous view; and
  while the module is not destroyed, whenever every committed write has been announced, no load is
  running and the last turn of the load did not fail, it holds exactly the active keys of the table as
  it is now, although a burst of announcements during a load queues only one more turn.
\<close>

theorem index_converges:
  assumes "index_run w"
  shows "index_keys (idx w) = (case last_read w of None \<Rightarrow> Map.empty | Some t \<Rightarrow> index_of t)
    \<and> (\<not> index_destroyed (idx w) \<and> \<not> unannounced w \<and> \<not> loading (idx w) \<and> \<not> turn_failed w \<longrightarrow>
      index_keys (idx w) = index_of (key_rows w))"
  using index_run_view [OF assms] index_run_inv [OF assms] by blast

theorem index_converges_witness:
  "index_keys (load_done (Some [(''k1'', sample_key)]) (load_done None
      (refreshSoon (refreshSoon (idx (index_fresh []))))))
   = index_of [(''k1'', sample_key)]"
proof -
  define w1 where "w1 = announced (index_fresh [])"
  define w2 where "w2 = announced (w1\<lparr>key_rows := [(''k1'', sample_key)], unannounced := True\<rparr>)"
  define w3 where "w3 = turn_done None w2"
  define w4 where "w4 = w3\<lparr>selected := Some (key_rows w3)\<rparr>"
  define w5 where "w5 = turn_done (Some [(''k1'', sample_key)]) w4"
  note ws = w1_def w2_def w3_def w4_def w5_def
  have "index_run w2"
    unfolding w2_def w1_def by (intro index_refresh index_write index_start)
  then have "index_run w3"
    unfolding w3_def by (rule index_fail) (simp add: ws index_step_defs)
  then have "index_run w4"
    unfolding w4_def by (rule index_select) (simp_all add: ws index_step_defs)
  then have run: "index_run w5"
    unfolding w5_def by (rule index_done) (simp_all add: ws index_step_defs)
  have "\<not> index_destroyed (idx w5)" "\<not> unannounced w5" "\<not> loading (idx w5)" "\<not> turn_failed w5"
    by (simp_all add: ws index_step_defs)
  then have "index_keys (idx w5) = index_of (key_rows w5)"
    using index_converges [OF run] by blast
  then show ?thesis
    by (simp add: ws index_step_defs)
qed

end
