(* ===== verification/Auth_Service.thy ===== *)
theory Auth_Service
  imports Api_Key
begin

text \<open>
  The key service, \<^verbatim>\<open>src/src/modules/auth/auth.service.ts\<close> with \<^verbatim>\<open>bootstrap-key-file.ts\<close>: seeding on
  first boot, creation, update, deletion and revocation of keys with the last-admin guard, and
  validation of a presented key.

  Each lifecycle handler reads a row, runs one SQL statement and reads the row again; another process
  may commit between these. The argument \<open>others\<close> is what happens to the table in the gaps, so every
  theorem about a handler holds under arbitrary interference. The statement itself is atomic. The hash
  (SHA-256, keyed with the pepper when set), the text-to-date conversion, the random key and the new
  row's id are arguments, as is whether the statistics write of a validation lands
  (\<open>statWriteLands\<close>). Stored dates are compared as their UTC text, which for years of four digits
  is the order of the times; the text of an invalid date begins with a letter and sorts last.
\<close>

section \<open>State\<close>

datatype eviction_reason = Revoked | Deleted | AuthorizationChanged

record auth_state =
  rows :: key_table
  usage :: usage_state
  key_index :: active_key_index
  evictions :: "(string \<times> eviction_reason) list"
  key_file :: "string option"

record auth_env =
  hashKey :: "string \<Rightarrow> string"
  dateOf :: "string \<Rightarrow> jsdate"
  API_MASTER_KEY :: "string option"
  ALLOW_DEV_API_KEY :: "string option"
  statWriteLands :: bool

type_synonym interference = "nat \<Rightarrow> key_table \<Rightarrow> key_table"

definition evictActiveSockets :: "string \<Rightarrow> eviction_reason \<Rightarrow> auth_state \<Rightarrow> auth_state" where
  "evictActiveSockets keyId reason s = s\<lparr>evictions := (keyId, reason) # evictions s\<rparr>"

definition refresh_index :: "auth_state \<Rightarrow> auth_state" where
  "refresh_index s = s\<lparr>key_index := refreshSoon (key_index s)\<rparr>"

section \<open>The bootstrap key file\<close>

definition readBootstrapKey :: "auth_state \<Rightarrow> string option" where
  "readBootstrapKey s =
     (case key_file s of None \<Rightarrow> None | Some txt \<Rightarrow> if trim txt = [] then None else Some (trim txt))"

definition removeBootstrapKey :: "auth_state \<Rightarrow> auth_state" where
  "removeBootstrapKey s = s\<lparr>key_file := None\<rparr>"

definition removeBootstrapKeyFileIfMatching :: "auth_env \<Rightarrow> api_key \<Rightarrow> auth_state \<Rightarrow> auth_state" where
  "removeBootstrapKeyFileIfMatching env apiKey s =
     (case readBootstrapKey s of
        None \<Rightarrow> s
      | Some fileKey \<Rightarrow> if hashKey env fileKey \<noteq> keyHash apiKey then s else removeBootstrapKey s)"

section \<open>Seeding and the banner\<close>

definition configuredMasterKey :: "auth_env \<Rightarrow> string option" where
  "configuredMasterKey env =
     (case API_MASTER_KEY env of None \<Rightarrow> None | Some k \<Rightarrow> if trim k = [] then None else Some (trim k))"

definition MASTER_KEY_PREFIX :: string where
  "MASTER_KEY_PREFIX = ''(master key)''"

definition resolveSeedApiKey :: "auth_env \<Rightarrow> string \<Rightarrow> string" where
  "resolveSeedApiKey env random_hex =
     (case configuredMasterKey env of
        Some k \<Rightarrow> k
      | None \<Rightarrow> if ALLOW_DEV_API_KEY env = Some ''true'' then ''dev-admin-key'' else ''owa_k1_'' @ random_hex)"

definition starts_with :: "string \<Rightarrow> string \<Rightarrow> bool" where
  "starts_with p s \<longleftrightarrow> take (length p) s = p"

text \<open>The line of the startup banner; the ellipsis of the source is written as three dots.\<close>

definition bannerKeyLine :: "string option \<Rightarrow> bool \<Rightarrow> string option \<Rightarrow> string \<Rightarrow> string" where
  "bannerKeyLine displayKey isNewKey storedPrefix path =
     (case displayKey of
        None \<Rightarrow> ''(check dashboard for keys)''
      | Some k \<Rightarrow>
          if isNewKey then k
          else let generated = (starts_with ''owa_k1_'' k \<and> (case storedPrefix of None \<Rightarrow> False | Some p \<Rightarrow> starts_with ''owa_k1_'' p));
                   fingerprint = (if generated then take 8 k @ ''... '' else [])
               in fingerprint @ ''(full key in '' @ path @ '')'')"

definition masterKeyBannerLine :: "bool \<Rightarrow> string \<Rightarrow> string" where
  "masterKeyBannerLine savedToFile path =
     ''(the configured API_MASTER_KEY'' @ (if savedToFile then ''; also in '' @ path else []) @ '')''"

definition new_key :: "string \<Rightarrow> string \<Rightarrow> string \<Rightarrow> string \<Rightarrow> role \<Rightarrow> api_key" where
  "new_key i n h p r =
     \<lparr>key_id = i, key_name = n, keyHash = h, keyPrefix = p, key_role = r, allowedIps = None, allowedSessions = None,
      allowedChats = None, isActive = True, expiresAt = None, lastUsedAt = None, usageCount = 0\<rparr>"

definition seedApiKey :: "auth_env \<Rightarrow> string \<Rightarrow> string \<Rightarrow> string \<Rightarrow> role \<Rightarrow> string option \<Rightarrow> auth_state \<Rightarrow> api_key \<times> auth_state" where
  "seedApiKey env newId rawKey n r prefix s =
     (let k = new_key newId n (hashKey env rawKey) (case prefix of Some p \<Rightarrow> p | None \<Rightarrow> take 12 rawKey) r
      in (k, s\<lparr>rows := rows s @ [(newId, k)]\<rparr>))"

definition find_hash :: "string \<Rightarrow> key_table \<Rightarrow> api_key option" where
  "find_hash h t = map_option snd (List.find (\<lambda>(i, k). keyHash k = h) t)"

definition find_prefix :: "string \<Rightarrow> key_table \<Rightarrow> api_key option" where
  "find_prefix p t = map_option snd (List.find (\<lambda>(i, k). keyPrefix k = p) t)"

definition date_gt :: "jsdate \<Rightarrow> int \<Rightarrow> bool" where
  "date_gt d now = (case d of At t \<Rightarrow> t > now | InvalidDate \<Rightarrow> False)"

definition readLiveBootstrapKey :: "auth_env \<Rightarrow> int \<Rightarrow> auth_state \<Rightarrow> (string \<times> string) option \<times> auth_state" where
  "readLiveBootstrapKey env now s =
     (case readBootstrapKey s of
        None \<Rightarrow> (None, s)
      | Some rawKey \<Rightarrow>
          (case find_hash (hashKey env rawKey) (rows s) of
             Some stored \<Rightarrow>
               if isActive stored \<and> (case expiresAt stored of None \<Rightarrow> True | Some d \<Rightarrow> date_gt d now)
               then (Some (rawKey, if Some rawKey = configuredMasterKey env then MASTER_KEY_PREFIX else keyPrefix stored), s)
               else (None, removeBootstrapKey s)
           | None \<Rightarrow>
               if find_prefix (take 12 rawKey) (rows s) \<noteq> None \<or> find_prefix MASTER_KEY_PREFIX (rows s) \<noteq> None
               then (None, s)
               else (None, removeBootstrapKey s)))"

text \<open>\<open>onModuleInit\<close>: the banner line and the state. \<open>writable\<close> is whether the key file can be written.\<close>

definition onModuleInit :: "auth_env \<Rightarrow> int \<Rightarrow> string \<Rightarrow> string \<Rightarrow> bool \<Rightarrow> string \<Rightarrow> auth_state \<Rightarrow> string \<times> auth_state" where
  "onModuleInit env now newId random_hex writable path s =
     (if rows s = [] then
        (let seedKey = resolveSeedApiKey env random_hex;
             fromMasterKey = (Some seedKey = configuredMasterKey env);
             (k, s1) = seedApiKey env newId seedKey ''Default Admin Key'' ADMIN (if fromMasterKey then Some MASTER_KEY_PREFIX else None) s;
             s2 = refresh_index s1;
             s3 = (if writable then s2\<lparr>key_file := Some seedKey\<rparr> else s2)
         in (bannerKeyLine (Some (if fromMasterKey then masterKeyBannerLine writable path else seedKey)) True None path, s3))
      else
        (let (live, s1) = readLiveBootstrapKey env now s
         in (bannerKeyLine (map_option fst live) False (map_option snd live) path, s1)))"

section \<open>Creation and reading\<close>

record create_dto =
  c_name :: string
  c_role :: "role option"
  c_allowedIps :: "string list option"
  c_allowedSessions :: "string list option"
  c_allowedChats :: "string list option"
  c_expiresAt :: "string option"

definition parseExpiry :: "auth_env \<Rightarrow> string \<Rightarrow> jsdate result" where
  "parseExpiry env v =
     (case dateOf env v of
        InvalidDate \<Rightarrow> Inl (BadRequest ''expiresAt is not a parseable date'')
      | At t \<Rightarrow> Inr (At t))"

text \<open>\<open>dto.expiresAt ? parseExpiry(dto.expiresAt) : null\<close>\<close>

definition expiry_of :: "auth_env \<Rightarrow> string option \<Rightarrow> jsdate option result" where
  "expiry_of env v = (if truthy v then bind_result (parseExpiry env (the v)) (\<lambda>d. Inr (Some d)) else Inr None)"

definition createApiKey :: "auth_env \<Rightarrow> string \<Rightarrow> string \<Rightarrow> create_dto \<Rightarrow> auth_state \<Rightarrow> (api_key \<times> string) result \<times> auth_state" where
  "createApiKey env newId random_hex dto s =
     (let rawKey = ''owa_k1_'' @ random_hex
      in case expiry_of env (c_expiresAt dto) of
           Inl e \<Rightarrow> (Inl e, s)
         | Inr expiry \<Rightarrow>
             let k = (new_key newId (c_name dto) (hashKey env rawKey) (take 12 rawKey)
                        (case c_role dto of Some r \<Rightarrow> r | None \<Rightarrow> OPERATOR))
                       \<lparr>allowedIps := column (c_allowedIps dto),
                        allowedSessions := column (normalizeScopeList (c_allowedSessions dto)),
                        allowedChats := column (normalizeChatAllowList (c_allowedChats dto)),
                        expiresAt := expiry\<rparr>
             in (Inr (k, rawKey), refresh_index (s\<lparr>rows := rows s @ [(newId, k)]\<rparr>)))"

definition findOne :: "string \<Rightarrow> key_table \<Rightarrow> api_key result" where
  "findOne i t =
     (case map_of t i of
        None \<Rightarrow> Inl (NotFound (''API key with id '' @ i @ '' not found''))
      | Some k \<Rightarrow> Inr k)"

definition findAuthorizationStates :: "string list \<Rightarrow> key_table \<Rightarrow> api_key list" where
  "findAuthorizationStates ids t = (if ids = [] then [] else map snd (filter (\<lambda>(i, k). i \<in> set ids) t))"

section \<open>The last-admin guard\<close>

text \<open>SQL comparisons on a stored date: NULL satisfies none of them.\<close>

fun sql_gt :: "jsdate option \<Rightarrow> int \<Rightarrow> bool" where
  "sql_gt (Some (At t)) n = (t > n)"
| "sql_gt (Some InvalidDate) n = True"
| "sql_gt None n = False"

fun sql_le :: "jsdate option \<Rightarrow> jsdate option \<Rightarrow> bool" where
  "sql_le (Some (At a)) (Some (At b)) = (a \<le> b)"
| "sql_le (Some a) (Some InvalidDate) = True"
| "sql_le (Some InvalidDate) (Some (At b)) = False"
| "sql_le _ _ = False"

text \<open>\<open>column = '' OR column IS NULL\<close>\<close>

definition sql_blank :: "string list option \<Rightarrow> bool" where
  "sql_blank c = (case c of None \<Rightarrow> True | Some xs \<Rightarrow> join_comma xs = [])"

definition usableAdminCondition :: "int \<Rightarrow> api_key \<Rightarrow> bool" where
  "usableAdminCondition guardNow k \<longleftrightarrow>
     key_role k = ADMIN \<and> isActive k \<and> (expiresAt k = None \<or> sql_gt (expiresAt k) guardNow)
     \<and> sql_blank (allowedSessions k) \<and> sql_blank (allowedChats k)"

definition OUTLASTS_TARGET :: "api_key \<Rightarrow> api_key \<Rightarrow> bool" where
  "OUTLASTS_TARGET other target \<longleftrightarrow>
     expiresAt other = None \<or> (expiresAt target \<noteq> None \<and> sql_le (expiresAt target) (expiresAt other))"

definition withLastAdminGuard :: "int \<Rightarrow> string \<Rightarrow> jsdate option \<Rightarrow> key_table \<Rightarrow> api_key \<Rightarrow> bool" where
  "withLastAdminGuard guardNow i extendsTo t target \<longleftrightarrow>
     \<not> usableAdminCondition guardNow target
     \<or> (extendsTo \<noteq> None \<and> expiresAt target \<noteq> None \<and> sql_le (expiresAt target) extendsTo)
     \<or> list_ex (\<lambda>(j, other). j \<noteq> i \<and> usableAdminCondition guardNow other \<and> OUTLASTS_TARGET other target) t"

text \<open>A guarded single-row UPDATE or DELETE: the number of affected rows and the table.\<close>

definition guarded_update :: "int \<Rightarrow> string \<Rightarrow> jsdate option \<Rightarrow> (api_key \<Rightarrow> api_key) \<Rightarrow> key_table \<Rightarrow> nat \<times> key_table" where
  "guarded_update now i extendsTo patch t =
     (let hit = (\<lambda>(j, k). j = i \<and> withLastAdminGuard now i extendsTo t k)
      in (length (filter hit t), map (\<lambda>(j, k). (j, if hit (j, k) then patch k else k)) t))"

definition guarded_delete :: "int \<Rightarrow> string \<Rightarrow> key_table \<Rightarrow> nat \<times> key_table" where
  "guarded_delete now i t =
     (let hit = (\<lambda>(j, k). j = i \<and> withLastAdminGuard now i None t k)
      in (length (filter hit t), filter (\<lambda>r. \<not> hit r) t))"

definition assertMutationApplied :: "string \<Rightarrow> nat \<Rightarrow> key_table \<Rightarrow> unit result" where
  "assertMutationApplied i affected t =
     (if affected \<noteq> 0 then Inr ()
      else bind_result (findOne i t)
             (\<lambda>_. Inl (Conflict ''Cannot remove the last active admin key: no other admin key lasts as long'')))"

definition applyUnguardedUpdate :: "(api_key \<Rightarrow> api_key) \<Rightarrow> string \<Rightarrow> key_table \<Rightarrow> unit result \<times> key_table" where
  "applyUnguardedUpdate patch i t =
     (let affected = length (filter (\<lambda>(j, k). j = i) t);
          t' = map (\<lambda>(j, k). (j, if j = i then patch k else k)) t
      in (if affected \<noteq> 0 then Inr () else bind_result (findOne i t) (\<lambda>_. Inr ()), t'))"

section \<open>Update, delete, revoke\<close>

text \<open>A field of the update: \<open>None\<close> when undefined, \<open>Some None\<close> when null.\<close>

record update_dto =
  u_name :: "string option"
  u_role :: "role option"
  u_allowedIps :: "string list option option"
  u_allowedSessions :: "string list option option"
  u_allowedChats :: "string list option option"
  u_expiresAt :: "string option option"

definition or_null :: "'a option option \<Rightarrow> 'a option" where
  "or_null v = (case v of None \<Rightarrow> None | Some x \<Rightarrow> x)"

definition stripsAdmin :: "update_dto \<Rightarrow> bool" where
  "stripsAdmin dto \<longleftrightarrow>
     (u_role dto \<noteq> None \<and> u_role dto \<noteq> Some ADMIN)
     \<or> nonempty_opt (normalizeScopeList (or_null (u_allowedSessions dto)))
     \<or> nonempty_opt (normalizeChatAllowList (or_null (u_allowedChats dto)))"

definition apply_patch :: "update_dto \<Rightarrow> jsdate option \<Rightarrow> api_key \<Rightarrow> api_key" where
  "apply_patch dto expiry k =
     k\<lparr>key_name := (if truthy (u_name dto) then the (u_name dto) else key_name k),
       key_role := (case u_role dto of Some r \<Rightarrow> r | None \<Rightarrow> key_role k),
       allowedIps := (case u_allowedIps dto of Some v \<Rightarrow> column v | None \<Rightarrow> allowedIps k),
       allowedSessions := (case u_allowedSessions dto of Some v \<Rightarrow> column (normalizeScopeList v) | None \<Rightarrow> allowedSessions k),
       allowedChats := (case u_allowedChats dto of Some v \<Rightarrow> column (normalizeChatAllowList v) | None \<Rightarrow> allowedChats k),
       expiresAt := (case u_expiresAt dto of Some v \<Rightarrow> expiry | None \<Rightarrow> expiresAt k)\<rparr>"

definition update_statement :: "int \<Rightarrow> string \<Rightarrow> update_dto \<Rightarrow> jsdate option \<Rightarrow> key_table \<Rightarrow> unit result \<times> key_table" where
  "update_statement now i dto expiry t =
     (if stripsAdmin dto \<or> expiry \<noteq> None then
        (let (affected, t') = guarded_update now i (if stripsAdmin dto then None else expiry) (apply_patch dto expiry) t
         in (assertMutationApplied i affected t', t'))
      else applyUnguardedUpdate (apply_patch dto expiry) i t)"

definition update :: "auth_env \<Rightarrow> int \<Rightarrow> interference \<Rightarrow> string \<Rightarrow> update_dto \<Rightarrow> auth_state \<Rightarrow> api_key result \<times> auth_state" where
  "update env now others i dto s =
     (case findOne i (rows s) of
        Inl e \<Rightarrow> (Inl e, s)
      | Inr before \<Rightarrow>
          (case expiry_of env (or_null (u_expiresAt dto)) of
             Inl e \<Rightarrow> (Inl e, s)
           | Inr expiry \<Rightarrow>
               let (applied, t1) = update_statement now i dto expiry (others 0 (rows s));
                   t2 = others 1 t1; s1 = s\<lparr>rows := t2\<rparr>
               in case bind_result applied (\<lambda>_. findOne i t2) of
                    Inl e \<Rightarrow> (Inl e, s1)
                  | Inr saved \<Rightarrow>
                      let s2 = refresh_index s1
                      in (Inr saved,
                          if apiKeyAuthorizationFingerprint saved \<noteq> apiKeyAuthorizationFingerprint before
                          then evictActiveSockets i AuthorizationChanged s2 else s2)))"

definition delete :: "auth_env \<Rightarrow> int \<Rightarrow> interference \<Rightarrow> string \<Rightarrow> auth_state \<Rightarrow> unit result \<times> auth_state" where
  "delete env now others i s =
     (case findOne i (rows s) of
        Inl e \<Rightarrow> (Inl e, s)
      | Inr apiKey \<Rightarrow>
          let (affected, t1) = guarded_delete now i (others 0 (rows s));
              t2 = others 1 t1; s1 = s\<lparr>rows := t2\<rparr>
          in case assertMutationApplied i affected t2 of
               Inl e \<Rightarrow> (Inl e, s1)
             | Inr _ \<Rightarrow>
                 (Inr (), refresh_index (evictActiveSockets i Deleted
                    (removeBootstrapKeyFileIfMatching env apiKey (s1\<lparr>usage := forget i (usage s1)\<rparr>)))))"

definition revoke :: "auth_env \<Rightarrow> int \<Rightarrow> interference \<Rightarrow> string \<Rightarrow> auth_state \<Rightarrow> api_key result \<times> auth_state" where
  "revoke env now others i s =
     (case findOne i (rows s) of
        Inl e \<Rightarrow> (Inl e, s)
      | Inr apiKey \<Rightarrow>
          let (affected, t1) = guarded_update now i None (\<lambda>k. k\<lparr>isActive := False\<rparr>) (others 0 (rows s));
              t2 = others 1 t1; s1 = s\<lparr>rows := t2\<rparr>
          in case bind_result (assertMutationApplied i affected t2) (\<lambda>_. findOne i t2) of
               Inl e \<Rightarrow> (Inl e, s1)
             | Inr saved \<Rightarrow>
                 (Inr saved, refresh_index (evictActiveSockets i Revoked
                    (removeBootstrapKeyFileIfMatching env apiKey (s1\<lparr>usage := forget i (usage s1)\<rparr>)))))"

section \<open>Validation\<close>

definition isIpAllowed :: "string \<Rightarrow> string list \<Rightarrow> bool" where
  "isIpAllowed clientIp ips = list_ex (\<lambda>entry. ipMatches clientIp entry) ips"

text \<open>The checks on a stored key, in order, and the error of the first that fails.\<close>

definition refusal :: "int \<Rightarrow> string option \<Rightarrow> string option \<Rightarrow> api_key \<Rightarrow> http_error option" where
  "refusal now clientIp sessionId k =
     (if \<not> isActive k then Some (Unauthorized ''API key is revoked'')
      else if (case expiresAt k of None \<Rightarrow> False | Some d \<Rightarrow> \<not> date_ge d now) then Some (Unauthorized ''API key has expired'')
      else if nonempty_opt (allowedIps k) \<and> \<not> truthy clientIp then Some (Forbidden ''Client IP could not be determined'')
      else if nonempty_opt (allowedIps k) \<and> \<not> isIpAllowed (the clientIp) (the (allowedIps k)) then Some (Forbidden ''IP address not allowed'')
      else if nonempty_opt (allowedSessions k) \<and> truthy sessionId \<and> the sessionId \<notin> set (the (allowedSessions k))
        then Some (Forbidden ''API key not authorized for this session'')
      else None)"

definition validateApiKey :: "auth_env \<Rightarrow> int \<Rightarrow> string \<Rightarrow> string option \<Rightarrow> string option \<Rightarrow> bool \<Rightarrow> auth_state \<Rightarrow> api_key result \<times> auth_state" where
  "validateApiKey env now rawKey clientIp sessionId recordUsage s =
     (case find_hash (hashKey env (trim rawKey)) (rows s) of
        None \<Rightarrow> (Inl (UnresolvedApiKey ''Invalid API key''), s)
      | Some k \<Rightarrow>
          (case refusal now clientIp sessionId k of
             Some e \<Rightarrow> (Inl e, s)
           | None \<Rightarrow>
               if recordUsage
               then (let (entity, t, u) = record_awaited (statWriteLands env) now k (rows s, usage s)
                     in (Inr entity, s\<lparr>rows := t, usage := u\<rparr>))
               else (Inr k, s)))"

definition role_level :: "role \<Rightarrow> nat" where
  "role_level r = (case r of VIEWER \<Rightarrow> 1 | OPERATOR \<Rightarrow> 2 | ADMIN \<Rightarrow> 3)"

definition hasPermission :: "api_key \<Rightarrow> role \<Rightarrow> bool" where
  "hasPermission apiKey requiredRole \<longleftrightarrow> role_level (key_role apiKey) \<ge> role_level requiredRole"

section \<open>The last admin\<close>

text \<open>A key that can manage keys at time \<open>T\<close>: what the routes behind \<open>@RequireUnscopedKey\<close> accept.\<close>

definition admin_at :: "int \<Rightarrow> api_key \<Rightarrow> bool" where
  "admin_at T k \<longleftrightarrow> key_role k = ADMIN \<and> isActive k \<and> sql_blank (allowedSessions k) \<and> sql_blank (allowedChats k)
     \<and> (case expiresAt k of None \<Rightarrow> True | Some (At t) \<Rightarrow> t > T | Some InvalidDate \<Rightarrow> False)"

definition managed_at :: "int \<Rightarrow> key_table \<Rightarrow> bool" where
  "managed_at T t \<longleftrightarrow> (\<exists>k \<in> snd ` set t. admin_at T k)"

definition wf_table :: "key_table \<Rightarrow> bool" where
  "wf_table t \<longleftrightarrow> distinct (map fst t) \<and> (\<forall>k \<in> snd ` set t. expiresAt k \<noteq> Some InvalidDate)"

text \<open>No instant from \<open>now\<close> on loses its last admin.\<close>

definition keeps_admins :: "int \<Rightarrow> key_table \<Rightarrow> key_table \<Rightarrow> bool" where
  "keeps_admins now t t' \<longleftrightarrow> (wf_table t \<longrightarrow> wf_table t' \<and> (\<forall>T \<ge> now. managed_at T t \<longrightarrow> managed_at T t'))"

lemma keeps_admins_refl [simp]: "keeps_admins now t t"
  by (simp add: keeps_admins_def)

lemma keeps_admins_trans: "keeps_admins now t t' \<Longrightarrow> keeps_admins now t' t'' \<Longrightarrow> keeps_admins now t t''"
  by (auto simp: keeps_admins_def)

lemma admin_at_usable: "admin_at T k \<Longrightarrow> now \<le> T \<Longrightarrow> usableAdminCondition now k"
  by (auto simp: admin_at_def usableAdminCondition_def split: option.splits jsdate.splits)

lemma outlasting_admin:
  assumes "admin_at T k" and "usableAdminCondition now other" and "OUTLASTS_TARGET other k" and "expiresAt other \<noteq> Some InvalidDate"
  shows "admin_at T other"
  using assms
  by (cases "expiresAt other"; cases "expiresAt k")
     (auto simp: admin_at_def usableAdminCondition_def OUTLASTS_TARGET_def split: jsdate.splits)

text \<open>What the guard leaves standing: the target still an admin, or another row that outlasts it.\<close>

lemma guard_leaves_admin:
  assumes "wf_table t" and "admin_at T k" and "now \<le> T" and "withLastAdminGuard now i ext t k"
  shows "(\<exists>(j, other) \<in> set t. j \<noteq> i \<and> admin_at T other) \<or> (ext \<noteq> None \<and> expiresAt k \<noteq> None \<and> sql_le (expiresAt k) ext)"
proof -
  have "\<forall>(j, other) \<in> set t. expiresAt other \<noteq> Some InvalidDate"
    using assms(1) by (force simp: wf_table_def)
  moreover have "(ext \<noteq> None \<and> expiresAt k \<noteq> None \<and> sql_le (expiresAt k) ext) \<or>
      (\<exists>(j, other) \<in> set t. j \<noteq> i \<and> usableAdminCondition now other \<and> OUTLASTS_TARGET other k)"
    using assms(4) admin_at_usable [OF assms(2,3)] by (auto simp: withLastAdminGuard_def list_ex_iff)
  ultimately show ?thesis
    using outlasting_admin [OF assms(2)] by fast
qed

lemma guarded_update_keeps:
  assumes patch: "\<And>k. expiresAt k \<noteq> Some InvalidDate \<Longrightarrow> expiresAt (p k) \<noteq> Some InvalidDate"
    and ext: "\<And>k T. ext \<noteq> None \<Longrightarrow> admin_at T k \<Longrightarrow> sql_le (expiresAt k) ext \<Longrightarrow> admin_at T (p k)"
  shows "keeps_admins now t (snd (guarded_update now i ext p t))"
  unfolding keeps_admins_def
proof (intro impI conjI allI)
  assume wf: "wf_table t"
  let ?hit = "\<lambda>(j, k). j = i \<and> withLastAdminGuard now i ext t k"
  have t': "snd (guarded_update now i ext p t) = map (\<lambda>(j, k). (j, if ?hit (j, k) then p k else k)) t"
    by (simp add: guarded_update_def)
  have fsts: "map fst (map (\<lambda>(j, k). (j, if ?hit (j, k) then p k else k)) t) = map fst t"
    by (simp add: split_beta comp_def)
  show "wf_table (snd (guarded_update now i ext p t))"
    using wf patch unfolding t' wf_table_def fsts by (auto simp: split_beta)
  fix T assume "now \<le> T" and "managed_at T t"
  then obtain j k where jk: "(j, k) \<in> set t" "admin_at T k"
    by (auto simp: managed_at_def)
  have row: "(j', if ?hit (j', k') then p k' else k') \<in> set (snd (guarded_update now i ext p t))" if "(j', k') \<in> set t" for j' k'
    using that unfolding t' by force
  show "managed_at T (snd (guarded_update now i ext p t))"
  proof (cases "?hit (j, k)")
    case False
    with row [OF jk(1)] jk(2) show ?thesis
      by (force simp: managed_at_def)
  next
    case True
    then consider j' other where "(j', other) \<in> set t" "j' \<noteq> i" "admin_at T other"
      | "ext \<noteq> None" "sql_le (expiresAt k) ext"
      using guard_leaves_admin [OF wf jk(2) \<open>now \<le> T\<close>, of i ext] by auto
    then show ?thesis
    proof cases
      case 1
      with row [OF 1(1)] show ?thesis
        by (force simp: managed_at_def)
    next
      case 2
      then have "admin_at T (p k)"
        using ext jk(2) by blast
      with row [OF jk(1)] True show ?thesis
        by (force simp: managed_at_def)
    qed
  qed
qed

lemma guarded_delete_keeps: "keeps_admins now t (snd (guarded_delete now i t))"
  unfolding keeps_admins_def
proof (intro impI conjI allI)
  assume wf: "wf_table t"
  then show "wf_table (snd (guarded_delete now i t))"
    by (auto simp: guarded_delete_def wf_table_def distinct_map_filter Let_def)
  fix T assume "now \<le> T" and "managed_at T t"
  then obtain j k where jk: "(j, k) \<in> set t" "admin_at T k"
    by (auto simp: managed_at_def)
  show "managed_at T (snd (guarded_delete now i t))"
  proof (cases "j = i \<and> withLastAdminGuard now i None t k")
    case False
    with jk show ?thesis
      by (force simp: managed_at_def guarded_delete_def Let_def)
  next
    case True
    with guard_leaves_admin [OF wf jk(2) \<open>now \<le> T\<close>, of i None] show ?thesis
      by (force simp: managed_at_def guarded_delete_def Let_def)
  qed
qed

lemma normalizeScopeList_cases: "normalizeScopeList v = None \<or> nonempty_opt (normalizeScopeList v)"
  by (auto simp: normalizeScopeList_def truthy_simps Let_def split: option.splits)

lemma normalizeChat_cases: "normalizeChatAllowList v = None \<or> nonempty_opt (normalizeChatAllowList v)"
  by (auto simp: normalizeChatAllowList_def truthy_simps Let_def split: option.splits)

lemma patch_keeps_admin:
  assumes "\<not> stripsAdmin dto" and "admin_at T k"
    and "case expiry of None \<Rightarrow> True | Some d \<Rightarrow> u_expiresAt dto = None \<or> sql_le (expiresAt k) (Some d) \<and> d \<noteq> InvalidDate"
  shows "admin_at T (apply_patch dto expiry k)"
proof -
  have s: "case u_allowedSessions dto of Some v \<Rightarrow> normalizeScopeList v = None | None \<Rightarrow> True"
    using assms(1) normalizeScopeList_cases by (auto simp: stripsAdmin_def or_null_def split: option.splits)
  have c: "case u_allowedChats dto of Some v \<Rightarrow> normalizeChatAllowList v = None | None \<Rightarrow> True"
    using assms(1) normalizeChat_cases by (auto simp: stripsAdmin_def or_null_def split: option.splits)
  have r: "u_role dto = None \<or> u_role dto = Some ADMIN"
    using assms(1) by (auto simp: stripsAdmin_def)
  have e: "case expiresAt (apply_patch dto expiry k) of None \<Rightarrow> True | Some (At t) \<Rightarrow> t > T | Some InvalidDate \<Rightarrow> False"
    using assms(2,3) by (cases "expiresAt k"; cases expiry) (auto simp: apply_patch_def admin_at_def split: option.splits jsdate.splits)
  show ?thesis
    using assms(2) s c r e
    by (auto simp: admin_at_def apply_patch_def sql_blank_def column_def split: option.splits)
qed

lemma expiry_of_valid: "expiry_of env v = Inr (Some d) \<Longrightarrow> d \<noteq> InvalidDate"
  by (auto simp: expiry_of_def parseExpiry_def bind_result_Inr split: if_splits jsdate.splits)

lemma update_statement_keeps:
  assumes "expiry_of env (or_null (u_expiresAt dto)) = Inr expiry"
  shows "keeps_admins now t (snd (update_statement now i dto expiry t))"
proof (cases "stripsAdmin dto \<or> expiry \<noteq> None")
  case True
  have valid: "expiry \<noteq> Some InvalidDate"
    using assms expiry_of_valid by blast
  have "keeps_admins now t (snd (guarded_update now i (if stripsAdmin dto then None else expiry) (apply_patch dto expiry) t))"
  proof (rule guarded_update_keeps)
    show "expiresAt (apply_patch dto expiry k) \<noteq> Some InvalidDate" if "expiresAt k \<noteq> Some InvalidDate" for k
      using that valid by (auto simp: apply_patch_def split: option.splits)
    show "admin_at T (apply_patch dto expiry k)"
      if "(if stripsAdmin dto then None else expiry) \<noteq> None" "admin_at T k" "sql_le (expiresAt k) (if stripsAdmin dto then None else expiry)" for k T
      using that valid by (intro patch_keeps_admin) (auto split: if_splits option.splits)
  qed
  with True show ?thesis
    by (simp add: update_statement_def split_beta)
next
  case False
  let ?p = "apply_patch dto expiry"
  have t': "snd (update_statement now i dto expiry t) = map (\<lambda>(j, k). (j, if j = i then ?p k else k)) t"
    using False by (auto simp: update_statement_def applyUnguardedUpdate_def Let_def)
  have fsts: "map fst (map (\<lambda>(j, k). (j, if j = i then ?p k else k)) t) = map fst t"
    by (simp add: split_beta comp_def)
  have "wf_table (snd (update_statement now i dto expiry t))" if "wf_table t"
    using that False unfolding t' wf_table_def fsts by (auto simp: split_beta apply_patch_def split: option.splits)
  moreover have "managed_at T (snd (update_statement now i dto expiry t))" if m: "managed_at T t" for T
  proof -
    obtain j k where jk: "(j, k) \<in> set t" "admin_at T k"
      using m by (auto simp: managed_at_def)
    then have "admin_at T (?p k)"
      using False by (intro patch_keeps_admin) auto
    with jk show ?thesis
      unfolding t' managed_at_def by force
  qed
  ultimately show ?thesis
    by (simp add: keeps_admins_def)
qed

lemma key_file_frame [simp]:
  "rows (removeBootstrapKeyFileIfMatching env k s) = rows s" "rows (evictActiveSockets i r s) = rows s" "rows (refresh_index s) = rows s"
  by (simp_all add: removeBootstrapKeyFileIfMatching_def removeBootstrapKey_def evictActiveSockets_def refresh_index_def split: option.splits)

lemma update_keeps:
  assumes "\<And>n t. keeps_admins now t (others n t)"
  shows "keeps_admins now (rows s) (rows (snd (update env now others i dto s)))"
proof (cases "findOne i (rows s)")
  case (Inr before)
  show ?thesis
  proof (cases "expiry_of env (or_null (u_expiresAt dto))")
    case expiry: (Inr expiry)
    let ?t1 = "snd (update_statement now i dto expiry (others 0 (rows s)))"
    have "keeps_admins now (rows s) (others 1 ?t1)"
      using assms update_statement_keeps [OF expiry] keeps_admins_trans by meson
    moreover have "rows (snd (update env now others i dto s)) = others 1 ?t1"
      using Inr expiry by (auto simp: update_def split_beta Let_def split: sum.splits)
    ultimately show ?thesis
      by simp
  qed (simp add: update_def Inr)
qed (simp add: update_def)

lemma delete_keeps:
  assumes "\<And>n t. keeps_admins now t (others n t)"
  shows "keeps_admins now (rows s) (rows (snd (delete env now others i s)))"
proof (cases "findOne i (rows s)")
  case (Inr k)
  have "keeps_admins now (rows s) (others 1 (snd (guarded_delete now i (others 0 (rows s)))))"
    using assms guarded_delete_keeps keeps_admins_trans by meson
  moreover have "rows (snd (delete env now others i s)) = others 1 (snd (guarded_delete now i (others 0 (rows s))))"
    using Inr by (auto simp: delete_def split_beta Let_def split: sum.splits)
  ultimately show ?thesis
    by simp
qed (simp add: delete_def)

lemma revoke_keeps:
  assumes "\<And>n t. keeps_admins now t (others n t)"
  shows "keeps_admins now (rows s) (rows (snd (revoke env now others i s)))"
proof (cases "findOne i (rows s)")
  case (Inr k)
  let ?t1 = "snd (guarded_update now i None (\<lambda>k. k\<lparr>isActive := False\<rparr>) (others 0 (rows s)))"
  have "keeps_admins now (others 0 (rows s)) ?t1"
    by (rule guarded_update_keeps) auto
  then have "keeps_admins now (rows s) (others 1 ?t1)"
    using assms keeps_admins_trans by meson
  moreover have "rows (snd (revoke env now others i s)) = others 1 ?t1"
    using Inr by (auto simp: revoke_def split_beta Let_def split: sum.splits)
  ultimately show ?thesis
    by simp
qed (simp add: revoke_def)

text \<open>
  C3: The last admin cannot be locked out. Take any update, deletion or revocation, with any other
  process committing between its statements as long as those commits have the same property: for every
  instant from now on at which some key could manage keys before, some key can manage keys at that
  instant afterwards. (A demotion, a scoping, an expiry date or a removal of the key that would have
  been the last one is refused, and a survivor that expires sooner does not count.)
\<close>

theorem last_admin_survives:
  assumes "\<And>n t. keeps_admins now t (others n t)" and "wf_table (rows s)" and "now \<le> T" and "managed_at T (rows s)"
  shows "managed_at T (rows (snd (update env now others i dto s)))
    \<and> managed_at T (rows (snd (delete env now others i s)))
    \<and> managed_at T (rows (snd (revoke env now others i s)))"
proof (intro conjI)
  note keep = keeps_admins_def [THEN iffD1, THEN mp, OF _ assms(2), THEN conjunct2, rule_format, OF _ assms(3,4)]
  show "managed_at T (rows (snd (update env now others i dto s)))"
    using assms(1) by (intro keep update_keeps)
  show "managed_at T (rows (snd (delete env now others i s)))"
    using assms(1) by (intro keep delete_keeps)
  show "managed_at T (rows (snd (revoke env now others i s)))"
    using assms(1) by (intro keep revoke_keeps)
qed

definition sample_env :: auth_env where
  "sample_env = \<lparr>hashKey = (\<lambda>k. k), dateOf = (\<lambda>v. if v = ''soon'' then At 500 else InvalidDate), API_MASTER_KEY = None, ALLOW_DEV_API_KEY = None,
     statWriteLands = True\<rparr>"

definition sample_state :: auth_state where
  "sample_state = \<lparr>rows = [(''k1'', sample_key), (''k2'', sample_key\<lparr>key_id := ''k2'', keyHash := ''h2'', expiresAt := Some (At 900)\<rparr>)],
     usage = \<lparr>pending = [], stat_writes = []\<rparr>,
     key_index = \<lparr>index_keys = Map.empty, loading = False, reloadAgain = False, index_destroyed = False\<rparr>,
     evictions = [], key_file = None\<rparr>"

theorem last_admin_survives_witness:
  "managed_at 1000 (rows (snd (delete sample_env 100 (\<lambda>n t. t) ''k1'' sample_state)))
   \<and> fst (delete sample_env 100 (\<lambda>n t. t) ''k1'' sample_state)
       = Inl (Conflict ''Cannot remove the last active admin key: no other admin key lasts as long'')
   \<and> fst (delete sample_env 100 (\<lambda>n t. t) ''k2'' sample_state) = Inr ()"
proof -
  have "wf_table (rows sample_state)" "managed_at 1000 (rows sample_state)"
    by (simp_all add: sample_state_def sample_key_def wf_table_def managed_at_def admin_at_def sql_blank_def)
  with last_admin_survives [of 100 "\<lambda>n t. t" sample_state 1000 sample_env "''k1''"]
  have "managed_at 1000 (rows (snd (delete sample_env 100 (\<lambda>n t. t) ''k1'' sample_state)))"
    by simp
  moreover have "fst (delete sample_env 100 (\<lambda>n t. t) ''k1'' sample_state)
       = Inl (Conflict ''Cannot remove the last active admin key: no other admin key lasts as long'')"
    by code_simp
  moreover have "fst (delete sample_env 100 (\<lambda>n t. t) ''k2'' sample_state) = Inr ()"
    by code_simp
  ultimately show ?thesis
    by blast
qed

section \<open>Who is let in\<close>

lemma refusal_None:
  "refusal now clientIp sessionId k = None \<longleftrightarrow>
     isActive k \<and> (case expiresAt k of None \<Rightarrow> True | Some d \<Rightarrow> date_ge d now)
     \<and> (nonempty_opt (allowedIps k) \<longrightarrow>
          (\<exists>ip. clientIp = Some ip \<and> ip \<noteq> [] \<and> (\<exists>e \<in> set (the (allowedIps k)). ipMatches ip e)))
     \<and> (nonempty_opt (allowedSessions k) \<longrightarrow> truthy sessionId \<longrightarrow> the sessionId \<in> set (the (allowedSessions k)))"
  by (cases clientIp) (auto simp: refusal_def isIpAllowed_def list_ex_iff split: option.splits)

text \<open>Two states of a table that differ, if at all, in the usage columns of the row of one key.\<close>

definition same_but_usage :: "string option \<Rightarrow> key_table \<Rightarrow> key_table \<Rightarrow> bool" where
  "same_but_usage i t t' \<longleftrightarrow>
     list_all2 (\<lambda>(j, r) (j', r'). j' = j \<and> r'\<lparr>lastUsedAt := lastUsedAt r, usageCount := usageCount r\<rparr> = r \<and> (r' = r \<or> Some j = i)) t t'"

lemma same_but_usage_refl [simp]: "same_but_usage i t t"
  by (auto simp: same_but_usage_def intro!: list_all2_refl)

lemma same_but_usage_bump: "same_but_usage (Some i) t (map (\<lambda>(j, r). (j, if j = i then bump n at r else r)) t)"
  by (auto simp: same_but_usage_def list_all2_map2 bump_def intro!: list_all2_refl)

lemma record_awaited_entity [simp]:
  "fst (record_awaited lands now k s) = k\<lparr>lastUsedAt := Some now, usageCount := usageCount k + (pending_of (key_id k) (snd s) + 1)\<rparr>"
  by (simp add: record_awaited_def record_use_def Let_def split: prod.splits)

lemma record_awaited_rows: "same_but_usage (Some (key_id k)) (fst s) (fst (snd (record_awaited lands now k s)))"
  by (auto simp: record_awaited_def write_landed_def Let_def same_but_usage_bump split: prod.splits)

lemma validate_cases:
  "validateApiKey env now key clientIp sessionId recordUsage s =
     (case find_hash (hashKey env (trim key)) (rows s) of
        None \<Rightarrow> (Inl (UnresolvedApiKey ''Invalid API key''), s)
      | Some k \<Rightarrow>
          (case refusal now clientIp sessionId k of
             Some e \<Rightarrow> (Inl e, s)
           | None \<Rightarrow>
               if recordUsage
               then (Inr (fst (record_awaited (statWriteLands env) now k (rows s, usage s))),
                     s\<lparr>rows := fst (snd (record_awaited (statWriteLands env) now k (rows s, usage s))),
                       usage := snd (snd (record_awaited (statWriteLands env) now k (rows s, usage s)))\<rparr>)
               else (Inr k, s)))"
  by (simp add: validateApiKey_def split_beta split: option.splits)

lemma validate_rows:
  "same_but_usage (case fst (validateApiKey env now key ip session ru s) of Inl e \<Rightarrow> None | Inr k \<Rightarrow> if ru then Some (key_id k) else None)
     (rows s) (rows (snd (validateApiKey env now key ip session ru s)))"
  using record_awaited_rows [of _ "(rows s, usage s)"] by (auto simp: validate_cases split: option.splits)



section \<open>The life of a key\<close>

lemma find_hash_append:
  "find_hash h (t @ t') = (case find_hash h t of Some k \<Rightarrow> Some k | None \<Rightarrow> find_hash h t')"
  by (induction t) (auto simp: find_hash_def)

lemma find_hash_None: "find_hash h t = None \<longleftrightarrow> (\<forall>(i, k) \<in> set t. keyHash k \<noteq> h)"
  by (auto simp: find_hash_def find_None_iff)

lemma revoke_rows:
  assumes "fst (revoke env now (\<lambda>n t. t) i s) = Inr k"
  shows "rows (snd (revoke env now (\<lambda>n t. t) i s)) = map (\<lambda>(j, r). (j, if j = i \<and> withLastAdminGuard now i None (rows s) r then r\<lparr>isActive := False\<rparr> else r)) (rows s)"
    and "\<exists>r. (i, r) \<in> set (rows s) \<and> withLastAdminGuard now i None (rows s) r"
  using assms
  by (auto simp: revoke_def guarded_update_def assertMutationApplied_def findOne_def filter_empty_conv Let_def bind_result_Inr
      split: sum.splits option.splits if_splits)

lemma unique_hash_find:
  assumes "distinct (map (keyHash \<circ> snd) t)" and "(i, k) \<in> set t"
  shows "find_hash (keyHash k) t = Some k"
  using assms
proof (induction t)
  case (Cons p t)
  then show ?case
    by (cases p) (force simp: find_hash_def)
qed simp

lemma revoked_find:
  assumes "distinct (map fst t)" and "distinct (map (keyHash \<circ> snd) t)" and "(i, k) \<in> set t"
    and "\<exists>r. (i, r) \<in> set t \<and> g r"
  shows "find_hash (keyHash k) (map (\<lambda>(j, r). (j, if j = i \<and> g r then r\<lparr>isActive := False\<rparr> else r)) t) = Some (k\<lparr>isActive := False\<rparr>)"
proof -
  let ?f = "\<lambda>(j, r). (j, if j = i \<and> g r then r\<lparr>isActive := False\<rparr> else r)"
  have "g k"
    using assms(1,3,4) eq_key_imp_eq_value by metis
  then have m: "(i, k\<lparr>isActive := False\<rparr>) \<in> set (map ?f t)"
    using assms(3) by force
  have h: "map (keyHash \<circ> snd) (map ?f t) = map (keyHash \<circ> snd) t"
    by auto
  have "find_hash (keyHash (k\<lparr>isActive := False\<rparr>)) (map ?f t) = Some (k\<lparr>isActive := False\<rparr>)"
    by (rule unique_hash_find [OF _ m]) (simp only: h assms(2))
  then show ?thesis
    by simp
qed

lemma delete_rows:
  assumes "fst (delete env now (\<lambda>n t. t) i s) = Inr ()"
  shows "rows (snd (delete env now (\<lambda>n t. t) i s)) = filter (\<lambda>r. \<not> (fst r = i \<and> withLastAdminGuard now i None (rows s) (snd r))) (rows s)"
    and "\<exists>r. (i, r) \<in> set (rows s) \<and> withLastAdminGuard now i None (rows s) r"
  using assms
  by (auto simp: delete_def guarded_delete_def assertMutationApplied_def findOne_def filter_empty_conv Let_def bind_result_Inr split_beta
      split: sum.splits option.splits if_splits)

text \<open>
  A revoked key and a deleted key stop authenticating at once: after a revocation that
  succeeded the key is answered as revoked, after a deletion as unknown, for every client address and
  session; and its pending usage count is dropped and its open sockets are evicted.
\<close>

theorem dead_key_refused:
  assumes "distinct (map fst (rows s))" and "distinct (map (keyHash \<circ> snd) (rows s))" and "(i, k) \<in> set (rows s)"
    and "hashKey env (trim key) = keyHash k"
  shows "(\<forall>k'. fst (revoke env now (\<lambda>n t. t) i s) = Inr k' \<longrightarrow>
        (let s' = snd (revoke env now (\<lambda>n t. t) i s)
         in fst (validateApiKey env later key ip session ru s') = Inl (Unauthorized ''API key is revoked'')
            \<and> pending_of i (usage s') = 0 \<and> (i, Revoked) \<in> set (evictions s')))
    \<and> (fst (delete env now (\<lambda>n t. t) i s) = Inr () \<longrightarrow>
        (let s' = snd (delete env now (\<lambda>n t. t) i s)
         in fst (validateApiKey env later key ip session ru s') = Inl (UnresolvedApiKey ''Invalid API key'')
            \<and> pending_of i (usage s') = 0 \<and> (i, Deleted) \<in> set (evictions s')))"
proof (intro conjI allI impI)
  have usage: "usage (removeBootstrapKeyFileIfMatching env k s) = usage s" for k s
    by (simp add: removeBootstrapKeyFileIfMatching_def removeBootstrapKey_def split: option.splits)
  have forgot: "pending_of i (forget i u) = 0" for u
    by (simp add: forget_def pending_of_def)
  {
    fix k' assume r: "fst (revoke env now (\<lambda>n t. t) i s) = Inr k'"
    let ?s = "snd (revoke env now (\<lambda>n t. t) i s)"
    have "find_hash (keyHash k) (rows ?s) = Some (k\<lparr>isActive := False\<rparr>)"
      unfolding revoke_rows(1) [OF r] using assms(1-3) revoke_rows(2) [OF r] by (rule revoked_find)
    then have "fst (validateApiKey env later key ip session ru ?s) = Inl (Unauthorized ''API key is revoked'')"
      using assms(4) by (simp add: validateApiKey_def refusal_def)
    moreover have "pending_of i (usage ?s) = 0" "(i, Revoked) \<in> set (evictions ?s)"
      using r by (auto simp: revoke_def Let_def split_beta refresh_index_def evictActiveSockets_def usage forgot split: sum.splits)
    ultimately show "let s' = ?s in fst (validateApiKey env later key ip session ru s') = Inl (Unauthorized ''API key is revoked'')
            \<and> pending_of i (usage s') = 0 \<and> (i, Revoked) \<in> set (evictions s')"
      by (simp add: Let_def)
  }
  assume d: "fst (delete env now (\<lambda>n t. t) i s) = Inr ()"
  let ?s = "snd (delete env now (\<lambda>n t. t) i s)"
  have "withLastAdminGuard now i None (rows s) k"
    using delete_rows(2) [OF d] assms(1,3) eq_key_imp_eq_value by metis
  moreover have "\<forall>(j, r) \<in> set (rows s). keyHash r = keyHash k \<longrightarrow> j = i \<and> r = k"
    using assms(2,3) unfolding distinct_map inj_on_def by force
  ultimately have "find_hash (keyHash k) (rows ?s) = None"
    unfolding find_hash_None delete_rows(1) [OF d] by auto
  then have "fst (validateApiKey env later key ip session ru ?s) = Inl (UnresolvedApiKey ''Invalid API key'')"
    using assms(4) by (simp add: validateApiKey_def)
  moreover have "pending_of i (usage ?s) = 0" "(i, Deleted) \<in> set (evictions ?s)"
    using d by (auto simp: delete_def Let_def split_beta refresh_index_def evictActiveSockets_def usage forgot split: sum.splits)
  ultimately show "let s' = ?s in fst (validateApiKey env later key ip session ru s') = Inl (UnresolvedApiKey ''Invalid API key'')
            \<and> pending_of i (usage s') = 0 \<and> (i, Deleted) \<in> set (evictions s')"
    by (simp add: Let_def)
qed

theorem dead_key_refused_witness:
  "fst (revoke sample_env 100 (\<lambda>n t. t) ''k2'' sample_state) = Inr (sample_key\<lparr>key_id := ''k2'', keyHash := ''h2'', expiresAt := Some (At 900), isActive := False\<rparr>)
   \<and> fst (validateApiKey sample_env 101 ''h2'' None None True (snd (revoke sample_env 100 (\<lambda>n t. t) ''k2'' sample_state)))
     = Inl (Unauthorized ''API key is revoked'')"
proof -
  let ?k = "sample_key\<lparr>key_id := ''k2'', keyHash := ''h2'', expiresAt := Some (At 900)\<rparr>"
  have h: "distinct (map fst (rows sample_state))" "distinct (map (keyHash \<circ> snd) (rows sample_state))" "(''k2'', ?k) \<in> set (rows sample_state)"
    by (simp_all add: sample_state_def sample_key_def)
  have t: "hashKey sample_env (trim ''h2'') = keyHash ?k"
    by code_simp
  have r: "fst (revoke sample_env 100 (\<lambda>n t. t) ''k2'' sample_state) = Inr (?k\<lparr>isActive := False\<rparr>)"
    by code_simp
  then show ?thesis
    using dead_key_refused [OF h t, of 100 101 None None True] by (simp add: Let_def)
qed

section \<open>The fingerprint decides\<close>

text \<open>Allowlists as the DTO validators and the normalisation on write leave them.\<close>

definition clean_key :: "api_key \<Rightarrow> bool" where
  "clean_key k \<longleftrightarrow>
     (case allowedIps k of None \<Rightarrow> True | Some xs \<Rightarrow> list_all (\<lambda>e. trim e \<noteq> []) xs)
     \<and> (case allowedSessions k of None \<Rightarrow> True | Some xs \<Rightarrow> list_all (\<lambda>e. e \<noteq> [] \<and> trim e = e) xs)
     \<and> (case allowedChats k of None \<Rightarrow> True | Some xs \<Rightarrow> list_all (\<lambda>e. trim e \<noteq> []) xs)"

lemma ipMatches_trim: "ipMatches ip (trim e) = ipMatches ip e"
  by (simp add: ipMatches_def parseIpTarget_def)

lemma normalize_clean:
  "list_all (\<lambda>e. trim e \<noteq> []) xs \<Longrightarrow> normalizeScopeList (Some xs) = (if xs = [] then None else Some (map trim xs))"
proof -
  assume "list_all (\<lambda>e. trim e \<noteq> []) xs"
  then have "filter (\<lambda>e. 0 < length e) (map trim xs) = map trim xs"
    by (auto simp: list_all_iff filter_id_conv)
  then show ?thesis
    by (simp add: normalizeScopeList_def Let_def)
qed

lemma scope_sorted_sets:
  assumes "scope_sorted a = scope_sorted b"
    and "case a of None \<Rightarrow> True | Some xs \<Rightarrow> list_all (\<lambda>e. trim e \<noteq> []) xs"
    and "case b of None \<Rightarrow> True | Some xs \<Rightarrow> list_all (\<lambda>e. trim e \<noteq> []) xs"
  shows "nonempty_opt a = nonempty_opt b" and "nonempty_opt a \<Longrightarrow> trim ` set (the a) = trim ` set (the b)"
proof -
  have n: "scope_sorted x = (if nonempty_opt x then Some (sort (map trim (the x))) else None)"
    if "case x of None \<Rightarrow> True | Some xs \<Rightarrow> list_all (\<lambda>e. trim e \<noteq> []) xs" for x
    using that normalize_clean by (cases x) (auto simp: scope_sorted_def normalizeScopeList_def split: if_splits)
  show "nonempty_opt a = nonempty_opt b"
    using assms(1) n [OF assms(2)] n [OF assms(3)] by (auto split: if_splits)
  then show "trim ` set (the a) = trim ` set (the b)" if "nonempty_opt a"
    using assms(1) n [OF assms(2)] n [OF assms(3)] that by (metis option.inject set_map set_sort)
qed

lemma normalizeChat_trimmed:
  assumes "normalizeChatAllowList c = Some ys" and "e \<in> set ys"
  shows "trim e = e \<and> e \<noteq> []"
proof -
  have q: "trim (d @ ''@c.us'') = d @ ''@c.us''" if "BARE_NUMBER d" for d
  proof (rule trim_fix)
    have "d \<noteq> []"
      using that by (auto simp: BARE_NUMBER_def digits5_def)
    moreover from this have "is_digit (hd d)"
      using that by (auto simp: BARE_NUMBER_def digits5_def list_all_iff)
    ultimately show "d @ ''@c.us'' = [] \<or> \<not> js_ws (hd (d @ ''@c.us'')) \<and> \<not> js_ws (last (d @ ''@c.us''))"
      using is_digit_props(1) by (auto simp: js_ws_def)
  qed
  obtain xs where xs: "c = Some xs"
    using assms(1) by (cases c) (auto simp: normalizeChatAllowList_def)
  have "set ys = (\<lambda>e. if BARE_NUMBER e then e @ ''@c.us'' else e) ` (trim ` set xs \<inter> {e. e \<noteq> []})"
    using assms(1) by (auto simp: xs normalizeChatAllowList_def Let_def split: if_splits)
  with assms(2) q show ?thesis
    by auto
qed

lemma normalizeChat_clean:
  "case normalizeChatAllowList c of None \<Rightarrow> True | Some xs \<Rightarrow> list_all (\<lambda>e. trim e \<noteq> []) xs"
  "nonempty_opt (normalizeChatAllowList c) \<Longrightarrow> trim ` set (the (normalizeChatAllowList c)) = set (entries c)"
proof -
  note t = normalizeChat_trimmed [of c]
  show "case normalizeChatAllowList c of None \<Rightarrow> True | Some xs \<Rightarrow> list_all (\<lambda>e. trim e \<noteq> []) xs"
    using t by (auto simp: list_all_iff split: option.splits)
  show "nonempty_opt (normalizeChatAllowList c) \<Longrightarrow> trim ` set (the (normalizeChatAllowList c)) = set (entries c)"
    using t by (force simp: entries_def truthy_simps image_iff)
qed

lemma normalizeChat_nonempty:
  assumes "case c of None \<Rightarrow> True | Some xs \<Rightarrow> list_all (\<lambda>e. trim e \<noteq> []) xs"
  shows "nonempty_opt (normalizeChatAllowList c) = nonempty_opt c"
proof (cases c)
  case (Some xs)
  then have "filter (\<lambda>e. e \<noteq> []) (map trim xs) = map trim xs"
    using assms by (auto simp: list_all_iff filter_id_conv)
  then show ?thesis
    by (simp add: Some normalizeChatAllowList_def Let_def)
qed (simp add: normalizeChatAllowList_def)

lemma chat_decision_sets:
  assumes "isChatScopeRestricted c1 = isChatScopeRestricted c2" and "isChatScopeRestricted c1 \<Longrightarrow> set (entries c1) = set (entries c2)"
  shows "chatScopeAllows (buildChatScope c1) chat = chatScopeAllows (buildChatScope c2) chat"
  using assms by (auto simp: buildChatScope_def chatScopeAllows_def list_ex_iff)

text \<open>
  Two keys with the same authorization fingerprint authorise alike: both live or both revoked,
  they get the same answer for every client address, every session and every instant, and the same
  chats. So the eviction of live sockets on a changed fingerprint, and only then, misses no change of
  rights; reordering an allowlist or recording usage does not change the fingerprint.
\<close>

theorem fingerprint_decides:
  assumes "apiKeyAuthorizationFingerprint k1 = apiKeyAuthorizationFingerprint k2"
    and "clean_key k1" "clean_key k2" and "isActive k1 = isActive k2" and "0 < now"
  shows "refusal now ip session k1 = refusal now ip session k2
    \<and> (\<forall>r. hasPermission k1 r = hasPermission k2 r)
    \<and> chatScopeAllows (buildChatScope (allowedChats k1)) chat = chatScopeAllows (buildChatScope (allowedChats k2)) chat"
proof -
  have f: "key_role k1 = key_role k2" "scope_sorted (allowedIps k1) = scope_sorted (allowedIps k2)"
    "scope_sorted (allowedSessions k1) = scope_sorted (allowedSessions k2)"
    "scope_sorted (normalizeChatAllowList (allowedChats k1)) = scope_sorted (normalizeChatAllowList (allowedChats k2))"
    "apiKeyExpiryTime (expiresAt k1) = apiKeyExpiryTime (expiresAt k2)"
    using assms(1) by (simp_all add: apiKeyAuthorizationFingerprint_def)
  have ips: "nonempty_opt (allowedIps k1) = nonempty_opt (allowedIps k2)"
    "nonempty_opt (allowedIps k1) \<Longrightarrow> isIpAllowed a (the (allowedIps k1)) = isIpAllowed a (the (allowedIps k2))" for a
  proof -
    note sets = scope_sorted_sets [OF f(2)]
    show "nonempty_opt (allowedIps k1) = nonempty_opt (allowedIps k2)"
      using assms(2,3) by (intro sets) (auto simp: clean_key_def)
    assume "nonempty_opt (allowedIps k1)"
    then have eq: "trim ` set (the (allowedIps k1)) = trim ` set (the (allowedIps k2))"
      using assms(2,3) by (intro sets) (auto simp: clean_key_def)
    have m: "isIpAllowed a xs = (\<exists>e \<in> trim ` set xs. ipMatches a e)" for xs
      by (auto simp: isIpAllowed_def list_ex_iff ipMatches_trim)
    show "isIpAllowed a (the (allowedIps k1)) = isIpAllowed a (the (allowedIps k2))"
      by (simp only: m eq)
  qed
  have trimmed: "trim ` set (the (allowedSessions k)) = set (the (allowedSessions k))" if "clean_key k" "nonempty_opt (allowedSessions k)" for k
    using that by (force simp: clean_key_def truthy_simps list_all_iff image_iff)
  have cs: "case allowedSessions k of None \<Rightarrow> True | Some xs \<Rightarrow> list_all (\<lambda>e. trim e \<noteq> []) xs" if "clean_key k" for k
    using that by (auto simp: clean_key_def list_all_iff split: option.splits)
  have sessions: "nonempty_opt (allowedSessions k1) = nonempty_opt (allowedSessions k2)"
    "nonempty_opt (allowedSessions k1) \<Longrightarrow> set (the (allowedSessions k1)) = set (the (allowedSessions k2))"
    using scope_sorted_sets [OF f(3) cs cs] assms(2,3) trimmed by metis+
  have expired: "(case expiresAt k1 of None \<Rightarrow> False | Some d \<Rightarrow> \<not> date_ge d now) = (case expiresAt k2 of None \<Rightarrow> False | Some d \<Rightarrow> \<not> date_ge d now)"
    using f(5) assms(5) by (auto simp: apiKeyExpiryTime_def split: option.splits jsdate.splits)
  have chats: "isChatScopeRestricted (allowedChats k1) = isChatScopeRestricted (allowedChats k2)"
    "isChatScopeRestricted (allowedChats k1) \<Longrightarrow> set (entries (allowedChats k1)) = set (entries (allowedChats k2))"
    using scope_sorted_sets [OF f(4) normalizeChat_clean(1) normalizeChat_clean(1)] normalizeChat_nonempty [of "allowedChats k1"]
      normalizeChat_nonempty [of "allowedChats k2"] normalizeChat_clean(2) assms(2,3)
    unfolding isChatScopeRestricted_def clean_key_def by metis+
  show ?thesis
    using f(1) assms(4) ips sessions expired chat_decision_sets [OF chats]
    by (auto simp: refusal_def hasPermission_def)
qed

theorem fingerprint_decides_witness:
  "let k1 = sample_key\<lparr>allowedIps := Some [''10.0.0.1'', ''192.168.0.0/16''], expiresAt := Some (At 500)\<rparr>;
       k2 = sample_key\<lparr>allowedIps := Some ['' 192.168.0.0/16'', ''10.0.0.1''], expiresAt := Some (At 500), usageCount := 9\<rparr>
   in refusal 100 (Some ''192.168.7.7'') None k1 = refusal 100 (Some ''192.168.7.7'') None k2
      \<and> refusal 100 (Some ''192.168.7.7'') None k1 = None"
proof -
  let ?k1 = "sample_key\<lparr>allowedIps := Some [''10.0.0.1'', ''192.168.0.0/16''], expiresAt := Some (At 500)\<rparr>"
  let ?k2 = "sample_key\<lparr>allowedIps := Some ['' 192.168.0.0/16'', ''10.0.0.1''], expiresAt := Some (At 500), usageCount := 9\<rparr>"
  have "apiKeyAuthorizationFingerprint ?k1 = apiKeyAuthorizationFingerprint ?k2" "clean_key ?k1" "clean_key ?k2"
    "isActive ?k1 = isActive ?k2" "(0 :: int) < 100"
    by code_simp+
  from fingerprint_decides [OF this, of "Some ''192.168.7.7''" None "[]"]
  have "refusal 100 (Some ''192.168.7.7'') None ?k1 = refusal 100 (Some ''192.168.7.7'') None ?k2"
    by blast
  moreover have "refusal 100 (Some ''192.168.7.7'') None ?k1 = None"
    by code_simp
  ultimately show ?thesis
    by (simp add: Let_def)
qed

section \<open>Creation gives the rights asked for\<close>

lemma split_on_append: "c \<notin> set s \<Longrightarrow> split_on c (s @ c # t) = s # split_on c t"
  by (induction s) auto

lemma split_join_comma:
  "xs \<noteq> [] \<Longrightarrow> list_all (\<lambda>e. CHR '','' \<notin> set e) xs \<Longrightarrow> split_on (CHR '','') (join_comma xs) = xs"
proof (induction xs rule: join_comma.induct)
  case (3 s x xs)
  then show ?case
    using split_on_append [of "CHR '',''" s "join_comma (x # xs)"] by simp
qed auto

lemma column_id:
  assumes "list_all (\<lambda>e. CHR '','' \<notin> set e) xs" and "xs \<noteq> [[]]"
  shows "column (Some xs) = Some xs"
proof (cases "xs = []")
  case False
  then have "join_comma xs \<noteq> []"
    using assms(2) by (cases xs rule: join_comma.cases) auto
  then show ?thesis
    using split_join_comma [OF False assms(1)] by (simp add: column_def Let_def)
qed (simp add: column_def)

text \<open>What a creation request asks for: the addresses, sessions and chats its lists name, and its expiry.\<close>

definition listed :: "string list option \<Rightarrow> string set" where
  "listed v = (case v of None \<Rightarrow> {} | Some xs \<Rightarrow> trim ` set xs - {[]})"

definition asked_chats :: "create_dto \<Rightarrow> string set" where
  "asked_chats dto = (\<lambda>e. if BARE_NUMBER e then e @ ''@c.us'' else e) ` listed (c_allowedChats dto)"

definition asked_for :: "auth_env \<Rightarrow> create_dto \<Rightarrow> int \<Rightarrow> string option \<Rightarrow> string option \<Rightarrow> bool" where
  "asked_for env dto now ip session \<longleftrightarrow>
     (truthy (c_expiresAt dto) \<longrightarrow> (\<exists>t. dateOf env (the (c_expiresAt dto)) = At t \<and> t \<ge> now))
     \<and> (listed (c_allowedIps dto) \<noteq> {} \<longrightarrow> (\<exists>a. ip = Some a \<and> a \<noteq> [] \<and> (\<exists>e \<in> listed (c_allowedIps dto). ipMatches a e)))
     \<and> (listed (c_allowedSessions dto) \<noteq> {} \<longrightarrow> truthy session \<longrightarrow> the session \<in> listed (c_allowedSessions dto))"

text \<open>Lists as the validators of the request admit them: no entry is blank or holds a comma.\<close>

definition plain_list :: "string list option \<Rightarrow> bool" where
  "plain_list v \<longleftrightarrow> (case v of None \<Rightarrow> True | Some xs \<Rightarrow> list_all (\<lambda>e. trim e \<noteq> [] \<and> CHR '','' \<notin> set e) xs)"

lemma set_trim_subset: "set (trim s) \<subseteq> set s"
  by (auto simp: trim_def dest!: set_dropWhileD)

lemma listed_plain: "plain_list v \<Longrightarrow> listed v = (case v of None \<Rightarrow> {} | Some xs \<Rightarrow> trim ` set xs)"
  by (auto simp: plain_list_def listed_def list_all_iff split: option.splits)

lemma plain_ips:
  assumes "plain_list v"
  shows "nonempty_opt (column v) = (listed v \<noteq> {})" and "nonempty_opt (column v) \<Longrightarrow> trim ` set (the (column v)) = listed v"
proof -
  have c: "column v = v"
  proof (cases v)
    case (Some xs)
    then have "list_all (\<lambda>e. CHR '','' \<notin> set e) xs" "xs \<noteq> [[]]"
      using assms by (auto simp: plain_list_def list_all_iff trim_def)
    then show ?thesis
      using Some column_id by simp
  qed (simp add: column_def)
  show "nonempty_opt (column v) = (listed v \<noteq> {})"
    and "nonempty_opt (column v) \<Longrightarrow> trim ` set (the (column v)) = listed v"
    using listed_plain [OF assms] unfolding c by (auto split: option.splits)
qed

lemma plain_scope:
  assumes "plain_list v"
  shows "nonempty_opt (column (normalizeScopeList v)) = (listed v \<noteq> {})"
    and "nonempty_opt (column (normalizeScopeList v)) \<Longrightarrow> set (the (column (normalizeScopeList v))) = listed v"
proof -
  have n: "normalizeScopeList v = (if listed v = {} then None else Some (map trim (the v)))"
  proof (cases v)
    case (Some xs)
    then have "list_all (\<lambda>e. trim e \<noteq> []) xs"
      using assms by (simp add: plain_list_def list_all_iff)
    moreover from this have "listed v = {} \<longleftrightarrow> xs = []"
      by (cases xs) (auto simp: Some listed_def)
    ultimately show ?thesis
      using normalize_clean Some by simp
  qed (simp add: listed_def normalizeScopeList_def)
  have c: "column (normalizeScopeList v) = normalizeScopeList v"
  proof (cases "listed v = {}")
    case False
    then obtain xs where v: "v = Some xs"
      by (auto simp: listed_def split: option.splits)
    have "map trim xs \<noteq> [[]]" "list_all (\<lambda>e. CHR '','' \<notin> set e) (map trim xs)"
      using assms set_trim_subset by (auto simp: plain_list_def v list_all_iff)
    then show ?thesis
      using column_id n v False by simp
  qed (simp add: n column_def)
  show "nonempty_opt (column (normalizeScopeList v)) = (listed v \<noteq> {})"
    and "nonempty_opt (column (normalizeScopeList v)) \<Longrightarrow> set (the (column (normalizeScopeList v))) = listed v"
    using listed_plain [OF assms] unfolding c unfolding n by (auto split: option.splits)
qed

definition whole_jid :: "string \<Rightarrow> string" where
  "whole_jid e = (if BARE_NUMBER e then e @ ''@c.us'' else e)"

lemma whole_jid_idem: "whole_jid (whole_jid e) = whole_jid e"
  by (auto simp: whole_jid_def BARE_NUMBER_def digits5_def)

lemma set_normalizeChat: "normalizeChatAllowList v = Some ys \<Longrightarrow> set ys = whole_jid ` listed v"
proof -
  assume "normalizeChatAllowList v = Some ys"
  then obtain xs where v: "v = Some xs" and ys: "ys = js_set (map whole_jid (filter (\<lambda>e. e \<noteq> []) (map trim xs)))"
    by (auto simp: normalizeChatAllowList_def Let_def whole_jid_def [abs_def] split: option.splits if_splits)
  have "set (filter (\<lambda>e. e \<noteq> []) (map trim xs)) = listed v"
    by (auto simp: v listed_def)
  then show "set ys = whole_jid ` listed v"
    by (simp only: ys set_js_set set_map)
qed

lemma normalizeChat_None: "normalizeChatAllowList v = None \<longleftrightarrow> listed v = {}"
  by (auto simp: normalizeChatAllowList_def listed_def Let_def filter_empty_conv split: option.splits)

lemma plain_chats:
  assumes "plain_list v"
  shows "isChatScopeRestricted (column (normalizeChatAllowList v)) = (listed v \<noteq> {})"
    and "set (entries (column (normalizeChatAllowList v))) = whole_jid ` listed v"
proof -
  have "isChatScopeRestricted (column (normalizeChatAllowList v)) = (listed v \<noteq> {})
    \<and> set (entries (column (normalizeChatAllowList v))) = whole_jid ` listed v"
  proof (cases "normalizeChatAllowList v")
    case None
    then show ?thesis
      using normalizeChat_None [of v] by (simp add: column_def isChatScopeRestricted_def entries_def normalizeChatAllowList_def)
  next
    case (Some ys)
    note ys = set_normalizeChat [OF Some] and t = normalizeChat_trimmed [OF Some]
    have ne: "ys \<noteq> []"
      using Some by (auto simp: normalizeChatAllowList_def Let_def split: option.splits if_splits)
    have "CHR '','' \<notin> set e" if "e \<in> listed v" for e
      using assms that set_trim_subset by (fastforce simp: plain_list_def listed_def list_all_iff split: option.splits)
    then have "list_all (\<lambda>e. CHR '','' \<notin> set e) ys"
      unfolding list_all_iff ys by (auto simp: whole_jid_def)
    moreover have "ys \<noteq> [[]]"
      using t by auto
    ultimately have c: "column (Some ys) = Some ys"
      by (rule column_id)
    have "listed (Some ys) = set ys"
      using t by (force simp: listed_def)
    moreover obtain zs where zs: "normalizeChatAllowList (Some ys) = Some zs"
      using normalizeChat_None [of "Some ys"] ne calculation by (cases "normalizeChatAllowList (Some ys)") auto
    ultimately have "set zs = whole_jid ` listed v"
      using set_normalizeChat [OF zs] ys whole_jid_idem by (simp add: image_image)
    then show ?thesis
      using ne ys by (auto simp: Some c isChatScopeRestricted_def entries_def zs)
  qed
  then show "isChatScopeRestricted (column (normalizeChatAllowList v)) = (listed v \<noteq> {})"
    and "set (entries (column (normalizeChatAllowList v))) = whole_jid ` listed v"
    by blast+
qed

lemma chat_scope_by_entries:
  "chatScopeAllows (buildChatScope c) chat \<longleftrightarrow>
     \<not> isChatScopeRestricted c \<or> (\<exists>e \<in> set (entries c). set (addressForms e) \<inter> set (addressForms chat) \<noteq> {})"
  by (auto simp: buildChatScope_def chatScopeAllows_def list_ex_iff)

lemma asked_for_refusal:
  assumes "plain_list (c_allowedIps dto)" and "plain_list (c_allowedSessions dto)" and "isActive k"
    and "allowedIps k = column (c_allowedIps dto)" and "allowedSessions k = column (normalizeScopeList (c_allowedSessions dto))"
    and "expiresAt k = (if truthy (c_expiresAt dto) then Some (dateOf env (the (c_expiresAt dto))) else None)"
  shows "(refusal now ip session k = None) = asked_for env dto now ip session"
proof -
  have date: "(case expiresAt k of None \<Rightarrow> True | Some d \<Rightarrow> date_ge d now) =
      (truthy (c_expiresAt dto) \<longrightarrow> (\<exists>t. dateOf env (the (c_expiresAt dto)) = At t \<and> t \<ge> now))"
    by (cases "dateOf env (the (c_expiresAt dto))") (simp_all add: assms(6))
  have ips: "(\<exists>e \<in> set (the (column (c_allowedIps dto))). ipMatches a e) = (\<exists>e \<in> listed (c_allowedIps dto). ipMatches a e)"
    if "nonempty_opt (column (c_allowedIps dto))" for a
    using that by (simp add: ipMatches_trim flip: plain_ips(2) [OF assms(1)])
  show ?thesis
    unfolding refusal_None asked_for_def date assms(4,5)
    using assms(3) ips plain_ips(1) [OF assms(1)] plain_scope [OF assms(2)] by auto
qed



end
