(* ===== verification/Limiters.thy ===== *)
theory Limiters
  imports Prelude Complex_Main
begin

text \<open>
  The in-process rate limiters of \<^verbatim>\<open>src/src/modules/events/ws-rate-limit.ts\<close>: the token bucket on client
  frames and the sliding window on handshakes and unauthenticated audit rows. Each keeps one entry per
  subject in a map capped by approximate LRU eviction; the locale \<open>keyed_limiter\<close> states what they
  share, and both are interpretations of it. Times are milliseconds; tokens are exact rationals.
\<close>

section \<open>The capped map\<close>

text \<open>A \<open>Map\<close> in insertion order; the oldest key is at the head.\<close>

function evictOverflow :: "nat \<Rightarrow> ('k \<times> 'v) list \<Rightarrow> ('k \<times> 'v) list" where
  "evictOverflow maxKeys m = (if length m > max 1 maxKeys then evictOverflow maxKeys (tl m) else m)"
  by pat_completeness auto
termination
  by (relation "measure (\<lambda>(n, m). length m)") auto

declare evictOverflow.simps [simp del]

definition touch :: "'k \<Rightarrow> 'v \<Rightarrow> ('k \<times> 'v) list \<Rightarrow> ('k \<times> 'v) list" where
  "touch k v m = js_delete k m @ [(k, v)]"

section \<open>TokenBucketLimiter\<close>

record bucket =
  tokens :: rat
  lastRefill :: int

definition refill :: "rat \<Rightarrow> rat \<Rightarrow> int \<Rightarrow> bucket option \<Rightarrow> bucket" where
  "refill refillPerSecond capacity t b =
     (case b of
        None \<Rightarrow> \<lparr>tokens = capacity, lastRefill = t\<rparr>
      | Some b \<Rightarrow>
          if t > lastRefill b
          then \<lparr>tokens = min capacity (tokens b + of_int (t - lastRefill b) * refillPerSecond / 1000), lastRefill = t\<rparr>
          else b)"

definition bucket_allow :: "rat \<Rightarrow> rat \<Rightarrow> nat \<Rightarrow> int \<Rightarrow> string \<Rightarrow> (string \<times> bucket) list \<Rightarrow> bool \<times> (string \<times> bucket) list" where
  "bucket_allow refillPerSecond capacity maxKeys t subject buckets =
     (let b = refill refillPerSecond capacity t (map_of buckets subject);
          allowed = (tokens b \<ge> 1);
          b' = (if allowed then b\<lparr>tokens := tokens b - 1\<rparr> else b)
      in (allowed, evictOverflow maxKeys (touch subject b' buckets)))"

section \<open>SlidingWindowLimiter\<close>

record hit =
  hit_at :: int
  reservation :: "nat option"

definition window_allow :: "nat \<Rightarrow> int \<Rightarrow> nat \<Rightarrow> nat option \<Rightarrow> int \<Rightarrow> string \<Rightarrow> (string \<times> hit list) list \<Rightarrow> bool \<times> (string \<times> hit list) list" where
  "window_allow mx windowMs maxKeys res t subject hits =
     (let recent = filter (\<lambda>h. t - hit_at h < windowMs) (case map_of hits subject of Some hs \<Rightarrow> hs | None \<Rightarrow> []);
          allowed = (length recent < mx);
          recent' = (if allowed then recent @ [\<lparr>hit_at = t, reservation = res\<rparr>] else recent)
      in (allowed, evictOverflow maxKeys (touch subject recent' hits)))"

text \<open>\<open>splice\<close> of the first hit with that reservation.\<close>

fun remove_reserved :: "nat \<Rightarrow> hit list \<Rightarrow> hit list" where
  "remove_reserved r [] = []"
| "remove_reserved r (h # hs) = (if reservation h = Some r then hs else h # remove_reserved r hs)"

definition refund :: "string \<Rightarrow> nat option \<Rightarrow> (string \<times> hit list) list \<Rightarrow> (string \<times> hit list) list" where
  "refund subject res hits =
     (case map_of hits subject of
        None \<Rightarrow> hits
      | Some recent \<Rightarrow>
          if recent = [] then hits
          else (case res of
                  None \<Rightarrow> js_put subject (butlast recent) hits
                | Some r \<Rightarrow> js_put subject (remove_reserved r recent) hits))"

section \<open>What the limiters share\<close>

text \<open>
  A call looks up its subject's entry, decides and updates it alone, moves it to the end and evicts
  from the front. \<open>step\<close> is the decision on one subject's entry.
\<close>

locale keyed_limiter =
  fixes allow :: "int \<Rightarrow> string \<Rightarrow> (string \<times> 'b) list \<Rightarrow> bool \<times> (string \<times> 'b) list"
    and step :: "int \<Rightarrow> 'b option \<Rightarrow> bool \<times> 'b"
    and maxKeys :: nat
  assumes allow_touch: "allow t k m =
    (fst (step t (map_of m k)), evictOverflow maxKeys (touch k (snd (step t (map_of m k))) m))"

text \<open>A run of calls (time and subject) and the answers; the answers to one subject; one subject alone.\<close>

fun answers :: "(int \<Rightarrow> string \<Rightarrow> 'm \<Rightarrow> bool \<times> 'm) \<Rightarrow> (int \<times> string) list \<Rightarrow> 'm \<Rightarrow> (int \<times> string \<times> bool) list" where
  "answers allow [] m = []"
| "answers allow ((t, k) # cs) m = (let (ok, m') = allow t k m in (t, k, ok) # answers allow cs m')"

definition answers_to :: "string \<Rightarrow> (int \<times> string \<times> bool) list \<Rightarrow> (int \<times> bool) list" where
  "answers_to s as = map (\<lambda>(t, k, ok). (t, ok)) (filter (\<lambda>(t, k, ok). k = s) as)"

fun alone :: "(int \<Rightarrow> 'b option \<Rightarrow> bool \<times> 'b) \<Rightarrow> int list \<Rightarrow> 'b option \<Rightarrow> (int \<times> bool) list" where
  "alone step [] b = []"
| "alone step (t # ts) b = (let (ok, b') = step t b in (t, ok) # alone step ts (Some b'))"

definition times_of :: "string \<Rightarrow> (int \<times> string) list \<Rightarrow> int list" where
  "times_of s cs = map fst (filter (\<lambda>(t, k). k = s) cs)"

lemma evictOverflow_fits: "length m \<le> max 1 n \<Longrightarrow> evictOverflow n m = m"
  by (subst evictOverflow.simps) auto

lemma evictOverflow_bound: "length (evictOverflow n m) \<le> max 1 n"
proof (induction n m rule: evictOverflow.induct)
  case (1 n m)
  then show ?case
    by (cases "length m > max 1 n") (auto simp: evictOverflow.simps [of n m])
qed

lemma map_of_touch [simp]: "map_of (touch k v m) = (map_of m)(k \<mapsto> v)"
proof -
  have "k \<notin> set (map fst (js_delete k m))"
    unfolding keys_js_delete by simp
  from map_of_snoc [OF this] show ?thesis
    by (simp add: touch_def fun_eq_iff)
qed

lemma keys_touch: "set (map fst (touch k v m)) = insert k (set (map fst m))"
  by (auto simp: touch_def js_delete_def)

lemma distinct_touch: "distinct (map fst m) \<Longrightarrow> distinct (map fst (touch k v m))"
  using keys_js_delete [of k m] distinct_js_delete [of m k] by (auto simp: touch_def)

context keyed_limiter
begin

text \<open>As long as the subjects fit the map, each is treated as if it were alone.\<close>

lemma independent:
  assumes "distinct (map fst m)" and "card (set (map fst m) \<union> snd ` set cs) \<le> max 1 maxKeys"
  shows "answers_to s (answers allow cs m) = alone step (times_of s cs) (map_of m s)"
  using assms
proof (induction cs arbitrary: m)
  case Nil
  then show ?case
    by (simp add: answers_to_def times_of_def)
next
  case (Cons c cs)
  obtain t k where c: "c = (t, k)"
    by (cases c)
  let ?ok = "fst (step t (map_of m k))" and ?b = "snd (step t (map_of m k))"
  have keys: "set (map fst (touch k ?b m)) = insert k (set (map fst m))"
    by (rule keys_touch)
  have d: "distinct (map fst (touch k ?b m))"
    using Cons.prems(1) by (rule distinct_touch)
  have "length (touch k ?b m) = card (insert k (set (map fst m)))"
    using distinct_card [OF d] keys by simp
  also have "\<dots> \<le> card (set (map fst m) \<union> snd ` set (c # cs))"
    by (rule card_mono) (auto simp: c)
  also have "\<dots> \<le> max 1 maxKeys"
    by (rule Cons.prems(2))
  finally have m': "snd (allow t k m) = touch k ?b m"
    by (simp add: allow_touch evictOverflow_fits)
  have "answers_to s (answers allow cs (touch k ?b m)) = alone step (times_of s cs) (map_of (touch k ?b m) s)"
  proof (rule Cons.IH [OF d])
    have "set (map fst (touch k ?b m)) \<union> snd ` set cs = set (map fst m) \<union> snd ` set (c # cs)"
      using keys by (auto simp: c)
    then show "card (set (map fst (touch k ?b m)) \<union> snd ` set cs) \<le> max 1 maxKeys"
      using Cons.prems(2) by simp
  qed
  moreover have "fst (allow t k m) = ?ok"
    by (simp add: allow_touch)
  ultimately show ?case
    using m' by (cases "k = s") (simp_all add: c split_beta Let_def answers_to_def times_of_def)
qed

lemma map_bounded: "length (snd (allow t k m)) \<le> max 1 maxKeys"
  unfolding allow_touch snd_conv by (rule evictOverflow_bound)

end

section \<open>The two limiters\<close>

definition bucket_step :: "rat \<Rightarrow> rat \<Rightarrow> int \<Rightarrow> bucket option \<Rightarrow> bool \<times> bucket" where
  "bucket_step rate cap t b =
     (let b' = refill rate cap t b in if tokens b' \<ge> 1 then (True, b'\<lparr>tokens := tokens b' - 1\<rparr>) else (False, b'))"

definition window_step :: "nat \<Rightarrow> int \<Rightarrow> nat option \<Rightarrow> int \<Rightarrow> hit list option \<Rightarrow> bool \<times> hit list" where
  "window_step mx w res t hs =
     (let recent = filter (\<lambda>h. t - hit_at h < w) (case hs of Some hs \<Rightarrow> hs | None \<Rightarrow> [])
      in if length recent < mx then (True, recent @ [\<lparr>hit_at = t, reservation = res\<rparr>]) else (False, recent))"

interpretation frames: keyed_limiter "bucket_allow rate cap maxKeys" "bucket_step rate cap" maxKeys for rate cap maxKeys
  by unfold_locales (simp add: bucket_allow_def bucket_step_def Let_def)

interpretation handshakes: keyed_limiter "window_allow mx w maxKeys res" "window_step mx w res" maxKeys for mx w maxKeys res
  by unfold_locales (simp add: window_allow_def window_step_def Let_def)

definition granted :: "(int \<times> bool) list \<Rightarrow> int list" where
  "granted as = map fst (filter snd as)"

lemma granted_simps [simp]:
  "granted [] = []" "granted ((t, True) # as) = t # granted as" "granted ((t, False) # as) = granted as"
  by (simp_all add: granted_def)

text \<open>Tokens left plus calls granted never exceed the capacity plus what time has refilled.\<close>

lemma bucket_alone_bound:
  assumes "0 \<le> rate" "1 \<le> cap" "sorted (lastRefill b # ts)" "tokens b \<le> cap" "0 \<le> tokens b"
  shows "of_nat (length (granted (alone (bucket_step rate cap) ts (Some b))))
     \<le> tokens b + of_int (last (lastRefill b # ts) - lastRefill b) * rate / 1000"
  using assms
proof (induction ts arbitrary: b)
  case (Cons t ts)
  define r where "r = refill rate cap t (Some b)"
  have t: "lastRefill b \<le> t" "sorted (t # ts)"
    using Cons.prems(3) by auto
  then have r: "lastRefill r = t" "tokens r \<le> cap" "0 \<le> tokens r"
    "tokens r \<le> tokens b + of_int (t - lastRefill b) * rate / 1000"
    using Cons.prems by (auto simp: r_def refill_def min_le_iff_disj)
  define b' where "b' = (if tokens r \<ge> 1 then r\<lparr>tokens := tokens r - 1\<rparr> else r)"
  have b': "lastRefill b' = t" "tokens b' \<le> cap" "0 \<le> tokens b'"
    using r by (auto simp: b'_def)
  have "of_nat (length (granted (alone (bucket_step rate cap) ts (Some b'))))
      \<le> tokens b' + of_int (last (t # ts) - t) * rate / 1000"
    using Cons.IH [of b'] Cons.prems(1,2) t(2) b' by simp
  moreover have "alone (bucket_step rate cap) (t # ts) (Some b) = (t, tokens r \<ge> 1) # alone (bucket_step rate cap) ts (Some b')"
    by (simp add: bucket_step_def r_def [symmetric] b'_def Let_def)
  moreover have "of_int (last (t # ts) - t) * rate / 1000 + of_int (t - lastRefill b) * rate / 1000
      = of_int (last (t # ts) - lastRefill b) * rate / 1000"
    by (simp add: field_simps)
  ultimately show ?case
    using r(4) by (cases "tokens r \<ge> 1") (auto simp: b'_def)
qed simp

text \<open>
  C34: The frame limiter bounds what one key can send while nothing is evicted. With no more subjects in
  play than the map holds (an evicted subject would start with a full bucket again) and calls at times
  that do not go back, the calls granted to a subject, out of any interleaving of subjects, number at most the burst
  capacity plus the sustained rate times the time between its first and its last call.
\<close>

theorem frames_bounded:
  assumes "0 \<le> rate" and "1 \<le> cap" and "sorted (times_of s cs)" and "times_of s cs \<noteq> []"
    and "card (snd ` set cs) \<le> max 1 maxKeys"
  shows "of_nat (length (granted (answers_to s (answers (bucket_allow rate cap maxKeys) cs []))))
    \<le> cap + of_int (last (times_of s cs) - hd (times_of s cs)) * rate / 1000"
proof -
  obtain t ts where ts: "times_of s cs = t # ts"
    using assms(4) by (cases "times_of s cs") auto
  let ?b = "\<lparr>tokens = cap, lastRefill = t\<rparr>"
  have "answers_to s (answers (bucket_allow rate cap maxKeys) cs []) = alone (bucket_step rate cap) (t # ts) None"
    using frames.independent [of "[]" cs maxKeys s rate cap] assms(5) ts by simp
  also have "\<dots> = alone (bucket_step rate cap) (t # ts) (Some ?b)"
    by (simp add: bucket_step_def refill_def Let_def)
  finally show ?thesis
    using bucket_alone_bound [of rate cap ?b "t # ts"] assms(1-3) ts by simp
qed

theorem frames_bounded_witness:
  "granted (answers_to ''a'' (answers (bucket_allow 1 2 10) [(0, ''a''), (0, ''b''), (0, ''a''), (1, ''a''), (1000, ''a'')] [])) = [0, 0, 1000]
   \<and> (3 :: rat) \<le> 2 + of_int (1000 - 0) * 1 / 1000"
proof -
  let ?cs = "[(0 :: int, ''a''), (0, ''b''), (0, ''a''), (1, ''a''), (1000, ''a'')]"
  have t: "times_of ''a'' ?cs = [0, 0, 1, 1000]"
    by (simp add: times_of_def)
  have g: "granted (answers_to ''a'' (answers (bucket_allow 1 2 10) ?cs [])) = [0, 0, 1000]"
    by code_simp
  have "sorted (times_of ''a'' ?cs)" "times_of ''a'' ?cs \<noteq> []" "card (snd ` set ?cs) \<le> max 1 10"
    by (simp_all add: t card_insert_if)
  from frames_bounded [OF _ _ this, of 1 2] show ?thesis
    using g by (simp add: t)
qed

section \<open>The sliding window\<close>

text \<open>The window over the whole history of granted calls, nothing forgotten.\<close>

fun window_spec :: "nat \<Rightarrow> int \<Rightarrow> int list \<Rightarrow> int list \<Rightarrow> (int \<times> bool) list" where
  "window_spec mx w P [] = []"
| "window_spec mx w P (t # ts) =
     (let ok = (length (filter (\<lambda>x. t - x < w) P) < mx)
      in (t, ok) # window_spec mx w (if ok then P @ [t] else P) ts)"

lemma window_alone_spec:
  assumes "0 < w" and "sorted (t0 # ts)" and "map hit_at hs = filter (\<lambda>x. t0 - x < w) P"
  shows "alone (window_step mx w res) ts (Some hs) = window_spec mx w P ts"
  using assms(2,3)
proof (induction ts arbitrary: t0 hs P)
  case (Cons t ts)
  have t: "t0 \<le> t" "sorted (t # ts)"
    using Cons.prems(1) by auto
  let ?r = "filter (\<lambda>h. t - hit_at h < w) hs"
  have "map hit_at ?r = filter (\<lambda>x. t - x < w) (map hit_at hs)"
    by (simp add: filter_map comp_def)
  also have "\<dots> = filter (\<lambda>x. t - x < w) P"
    unfolding Cons.prems(2) filter_filter using t(1) by (intro filter_cong) auto
  finally have r: "map hit_at ?r = filter (\<lambda>x. t - x < w) P" .
  then have len: "length ?r = length (filter (\<lambda>x. t - x < w) P)"
    by (metis length_map)
  have "alone (window_step mx w res) ts (Some ?r) = window_spec mx w P ts"
    by (rule Cons.IH [OF t(2) r])
  moreover have "alone (window_step mx w res) ts (Some (?r @ [\<lparr>hit_at = t, reservation = res\<rparr>])) = window_spec mx w (P @ [t]) ts"
    using Cons.IH [OF t(2), of "?r @ [\<lparr>hit_at = t, reservation = res\<rparr>]" "P @ [t]"] r assms(1) by simp
  moreover have "window_step mx w res t (Some hs) =
      (if length ?r < mx then (True, ?r @ [\<lparr>hit_at = t, reservation = res\<rparr>]) else (False, ?r))"
    by (simp add: window_step_def Let_def)
  ultimately show ?case
    using len by (simp add: Let_def)
qed simp

definition in_window :: "int \<Rightarrow> int \<Rightarrow> int list \<Rightarrow> int list" where
  "in_window w T P = filter (\<lambda>x. T - w < x \<and> x \<le> T) P"

lemma window_spec_bounded:
  assumes "\<forall>T. length (in_window w T P) \<le> mx"
  shows "\<forall>T. length (in_window w T (P @ granted (window_spec mx w P ts))) \<le> mx"
  using assms
proof (induction ts arbitrary: P)
  case (Cons t ts)
  show ?case
  proof (cases "length (filter (\<lambda>x. t - x < w) P) < mx")
    case True
    have "length (in_window w T (P @ [t])) \<le> mx" for T
    proof (cases "T - w < t \<and> t \<le> T")
      case True': True
      have "length (in_window w T P) \<le> length (filter (\<lambda>x. t - x < w) P)"
        unfolding in_window_def using True' by (induction P) auto
      with True True' show ?thesis
        by (simp add: in_window_def)
    next
      case False
      with Cons.prems show ?thesis
        by (auto simp: in_window_def)
    qed
    from Cons.IH [OF allI, OF this] True show ?thesis
      by (simp add: Let_def)
  next
    case False
    with Cons show ?thesis
      by (simp add: Let_def)
  qed
qed simp

text \<open>
  C29: The sliding window is exact while nothing is evicted or refunded. In a run of calls at times that
  do not go back, over no more subjects than the map holds and without refunds, a call is
  granted just when fewer than the maximum were granted to its subject within the window before it,
  counted over the subject's whole history; hence no window, wherever it starts, ever holds more than
  the maximum.
\<close>

theorem window_exact:
  assumes "0 < w" and "sorted (times_of s cs)" and "card (snd ` set cs) \<le> max 1 maxKeys"
  shows "answers_to s (answers (window_allow mx w maxKeys res) cs []) = window_spec mx w [] (times_of s cs)
    \<and> (\<forall>T. length (in_window w T (granted (answers_to s (answers (window_allow mx w maxKeys res) cs [])))) \<le> mx)"
proof -
  have "answers_to s (answers (window_allow mx w maxKeys res) cs []) = alone (window_step mx w res) (times_of s cs) None"
    using handshakes.independent [of "[]" cs maxKeys s mx w res] assms(3) by simp
  also have "\<dots> = alone (window_step mx w res) (times_of s cs) (Some [])"
    by (cases "times_of s cs") (simp_all add: window_step_def)
  also have "\<dots> = window_spec mx w [] (times_of s cs)"
  proof (cases "times_of s cs")
    case (Cons t ts)
    with assms(1,2) window_alone_spec [of w t "times_of s cs" "[]" "[]" mx res] show ?thesis
      by simp
  qed simp
  finally show ?thesis
    using window_spec_bounded [of w "[]" mx "times_of s cs"] by (simp add: in_window_def)
qed

theorem window_exact_witness:
  "answers_to ''a'' (answers (window_allow 2 60 10 None) [(0, ''a''), (1, ''a''), (5, ''b''), (59, ''a''), (60, ''a'')] [])
     = [(0, True), (1, True), (59, False), (60, True)]"
proof -
  let ?cs = "[(0 :: int, ''a''), (1, ''a''), (5, ''b''), (59, ''a''), (60, ''a'')]"
  have t: "times_of ''a'' ?cs = [0, 1, 59, 60]"
    by (simp add: times_of_def)
  have "sorted (times_of ''a'' ?cs)" "card (snd ` set ?cs) \<le> max 1 10"
    by (simp_all add: t card_insert_if)
  from window_exact [OF _ this, of 60 2 None] show ?thesis
    by (simp add: t)
qed

end
