(* ===== verification/Json.thy ===== *)
theory Json
  imports Prelude
begin

text \<open>
  A JSON value as a handler sees it, for the parts of the program that read untyped bodies and
  payloads. A missing property is \<open>None\<close> (\<open>undefined\<close>), a null one \<open>Some JNull\<close>. Numbers are integers.
\<close>

datatype json = JNull | JBool bool | JNum int | JStr string | JArr "json list" | JObj "(string \<times> json) list"

text \<open>\<open>value[name]\<close> for a property name that is no index: only an object has one.\<close>

fun field_of :: "json option \<Rightarrow> string \<Rightarrow> json option" where
  "field_of (Some (JObj fs)) name = map_of fs name"
| "field_of _ name = None"

text \<open>\<open>value !== null && typeof value === 'object'\<close>\<close>

fun is_object :: "json option \<Rightarrow> bool" where
  "is_object (Some (JObj fs)) = True"
| "is_object (Some (JArr xs)) = True"
| "is_object _ = False"

definition nullish :: "json option \<Rightarrow> bool" where
  "nullish v \<longleftrightarrow> v = None \<or> v = Some JNull"

text \<open>Truthiness of a value: everything but \<open>undefined\<close>, null, false, 0 and the empty string.\<close>

fun js_truthy :: "json option \<Rightarrow> bool" where
  "js_truthy None = False"
| "js_truthy (Some JNull) = False"
| "js_truthy (Some (JBool b)) = b"
| "js_truthy (Some (JNum n)) = (n \<noteq> 0)"
| "js_truthy (Some (JStr s)) = (s \<noteq> [])"
| "js_truthy (Some (JArr xs)) = True"
| "js_truthy (Some (JObj fs)) = True"

fun nat_string :: "nat \<Rightarrow> string" where
  "nat_string n = (if n < 10 then [char_of (48 + n)] else nat_string (n div 10) @ [char_of (48 + n mod 10)])"

declare nat_string.simps [simp del]

text \<open>\<open>Object.keys(value)\<close> of an object; an array's keys are its indices.\<close>

fun object_keys :: "json \<Rightarrow> string list" where
  "object_keys (JObj fs) = map fst fs"
| "object_keys (JArr xs) = map nat_string [0..<length xs]"
| "object_keys _ = []"

end
