(* ===== verification/Api_Guard.thy ===== *)
theory Api_Guard
  imports Auth_Service Limiters Json
begin

text \<open>
  The guard in front of every REST route: \<^verbatim>\<open>src/src/modules/auth/guards/api-key.guard.ts\<close> with
  \<^verbatim>\<open>src/src/common/security/bearer-token.ts\<close>, the route marks of
  \<^verbatim>\<open>src/src/modules/auth/decorators/auth.decorators.ts\<close> and the audit budget of
  \<^verbatim>\<open>src/src/modules/audit/auth-failure-audit-limiter.ts\<close>. The mask the limiter key applies to an
  address is the throttler package's, an argument here.
\<close>

section \<open>Presented keys\<close>

definition bearerToken :: "string option \<Rightarrow> string option" where
  "bearerToken header =
     (case header of
        None \<Rightarrow> None
      | Some h \<Rightarrow>
          (let rest = drop 6 h; ws = takeWhile js_ws rest; tok = takeWhile (\<lambda>c. \<not> js_ws c) (drop (length ws) rest);
               tail = drop (length ws + length tok) rest
           in if toLowerCase (take 6 h) = ''bearer'' \<and> ws \<noteq> [] \<and> tok \<noteq> [] \<and> list_all js_ws tail then Some tok else None))"

datatype header_value = Absent | One string | Many "string list"

fun first :: "header_value \<Rightarrow> string option" where
  "first Absent = None"
| "first (One s) = Some s"
| "first (Many []) = None"
| "first (Many (s # ss)) = Some s"

record key_headers =
  x_api_key :: header_value
  authorization :: header_value

definition presentedApiKey :: "key_headers \<Rightarrow> string option" where
  "presentedApiKey h =
     (if truthy (first (x_api_key h)) then first (x_api_key h) else bearerToken (first (authorization h)))"

section \<open>Requests and routes\<close>

record guard_request =
  net :: request_like
  key_headers :: key_headers
  http_method :: string
  http_path :: string
  route_params :: "string \<rightharpoonup> string"
  query_chat :: "json option"
  req_body :: "json option"

datatype chat_scope_kind = Fenced | Filtered | Agnostic

record route_marks =
  isPublic :: bool
  requiredRole :: "role option"
  sessionScoped :: bool
  requireUnscopedKey :: bool
  chatScoped :: "chat_scope_kind option"
  chatQuotedAllowed :: bool

record actor =
  actor_key :: "string option"
  actor_ip :: "string option"

record audit_row =
  audit_ip :: string
  audit_method :: string
  audit_path :: string
  audit_error :: http_error
  audit_actor :: actor

record guard_state =
  auth :: auth_state
  audit_hits :: "(string \<times> hit list) list"
  audit_log :: "audit_row list"
  request_actor :: actor

record guard_config =
  auth_env :: auth_env
  trustedProxies :: "string list"
  limiterKeyForIp :: "string \<Rightarrow> string"
  lids :: lid_store
  auditWriteLands :: bool

section \<open>The chat fence\<close>

definition BULK_MESSAGES_MAX :: nat where
  "BULK_MESSAGES_MAX = 100"

definition CHAT_ROUTE_PARAMS :: "string list" where
  "CHAT_ROUTE_PARAMS = [''chatId'', ''groupId'', ''contactId'']"

definition CHAT_BODY_FIELDS :: "string list" where
  "CHAT_BODY_FIELDS = [''chatId'', ''fromChatId'', ''toChatId'']"

text \<open>\<open>messages.forEach\<close>: an array entry is refused, a non-object entry names no chat.\<close>

fun message_ids :: "json list \<Rightarrow> (string \<times> json option) list result" where
  "message_ids [] = Inr []"
| "message_ids (item # items) =
     (case item of
        JArr _ \<Rightarrow> Inl (BadRequest ''messages[] must be an object'')
      | JObj fs \<Rightarrow> bind_result (message_ids items) (\<lambda>r. Inr ((''messages[].chatId'', field_of (Some item) ''chatId'') # r))
      | _ \<Rightarrow> message_ids items)"

definition chatIdsIn :: "guard_request \<Rightarrow> (string \<times> json option) list result" where
  "chatIdsIn rq =
     (let routed = map (\<lambda>n. (n, map_option JStr (route_params rq n))) CHAT_ROUTE_PARAMS @ [(''chatId'', query_chat rq)]
      in if \<not> is_object (req_body rq) then Inr routed
         else let fields = map (\<lambda>f. (f, field_of (req_body rq) f)) CHAT_BODY_FIELDS;
                  messages = field_of (req_body rq) ''messages''
         in if nullish messages then Inr (routed @ fields)
            else case messages of
                   Some (JArr items) \<Rightarrow>
                     if length items > BULK_MESSAGES_MAX then Inl (BadRequest ''messages must contain at most 100 entries'')
                     else bind_result (message_ids items) (\<lambda>r. Inr (routed @ fields @ r))
                 | _ \<Rightarrow> Inl (BadRequest ''messages must be an array''))"

fun check_ids :: "(string \<Rightarrow> bool) \<Rightarrow> string list \<Rightarrow> (string \<times> json option) list \<Rightarrow> unit result" where
  "check_ids ok checked [] = Inr ()"
| "check_ids ok checked ((field, v) # rest) =
     (if nullish v then check_ids ok checked rest
      else case v of
             Some (JStr s) \<Rightarrow>
               if s = [] \<or> s \<in> set checked then check_ids ok checked rest
               else if ok s then check_ids ok (s # checked) rest
               else Inl (Forbidden ''API key not authorized for this chat'')
           | _ \<Rightarrow> Inl (BadRequest (field @ '' must be a single chat id string'')))"

definition assertChatsAllowed :: "guard_config \<Rightarrow> route_marks \<Rightarrow> guard_request \<Rightarrow> api_key \<Rightarrow> unit result" where
  "assertChatsAllowed cfg marks rq k =
     bind_result (chatIdsIn rq) (\<lambda>ids.
     bind_result (check_ids (allows (lids cfg) (allowedChats k)) [] ids) (\<lambda>_.
       if \<not> chatQuotedAllowed marks \<and> is_object (req_body rq)
          \<and> \<not> nullish (field_of (req_body rq) ''quotedMessageId'') \<and> field_of (req_body rq) ''quotedMessageId'' \<noteq> Some (JStr [])
       then Inl (Forbidden ''API key is restricted to selected chats'')
       else Inr ()))"

section \<open>The guard\<close>

definition getClientIp :: "guard_config \<Rightarrow> guard_request \<Rightarrow> string" where
  "getClientIp cfg rq = resolveClientIp (net rq) (trustedProxies cfg)"

definition session_of :: "route_marks \<Rightarrow> guard_request \<Rightarrow> string option" where
  "session_of marks rq =
     (if truthy (route_params rq ''sessionId'') then route_params rq ''sessionId''
      else if sessionScoped marks then route_params rq ''id'' else None)"

text \<open>The checks behind validation, in the order of the source.\<close>

definition authorize_key :: "guard_config \<Rightarrow> route_marks \<Rightarrow> guard_request \<Rightarrow> api_key \<Rightarrow> unit result" where
  "authorize_key cfg marks rq k =
     (if (case requiredRole marks of None \<Rightarrow> False | Some r \<Rightarrow> \<not> hasPermission k r)
      then Inl (Forbidden ''Insufficient permissions'')
      else bind_result
        (if isRestricted (allowedChats k)
         then (if chatScoped marks = None then Inl (Forbidden ''API key is restricted to selected chats'')
               else assertChatsAllowed cfg marks rq k)
         else Inr ())
        (\<lambda>_. if requireUnscopedKey marks \<and> nonempty_opt (allowedSessions k)
             then Inl (Forbidden ''Session-scoped API keys are not permitted on this route'')
             else Inr ()))"

text \<open>\<open>setRequestActor\<close> inside validation, before any check can refuse the stored key.\<close>

definition name_actor :: "auth_env \<Rightarrow> string \<Rightarrow> guard_state \<Rightarrow> guard_state" where
  "name_actor env key s =
     (case find_hash (hashKey env (trim key)) (rows (auth s)) of
        None \<Rightarrow> s
      | Some k \<Rightarrow> s\<lparr>request_actor := (request_actor s)\<lparr>actor_key := Some (key_id k)\<rparr>\<rparr>)"

text \<open>
  \<open>authorize\<close>: on success the key and client address attached to the request. Validation names the
  stored key in the request's actor before it can refuse it.
\<close>

definition authorize :: "guard_config \<Rightarrow> int \<Rightarrow> route_marks \<Rightarrow> guard_request \<Rightarrow> guard_state \<Rightarrow> (api_key \<times> string) result \<times> guard_state" where
  "authorize cfg now marks rq s =
     (case presentedApiKey (key_headers rq) of
        None \<Rightarrow> (Inl (UnresolvedApiKey ''API key is required''), s)
      | Some key \<Rightarrow>
          if key = [] then (Inl (UnresolvedApiKey ''API key is required''), s)
          else
            let env = auth_env cfg; ip = getClientIp cfg rq;
                s1 = name_actor env key s;
                (r, a) = validateApiKey env now key (Some ip) (session_of marks rq) True (auth s1);
                s2 = s1\<lparr>auth := a\<rparr>
            in case r of
                 Inl e \<Rightarrow> (Inl e, s2)
               | Inr k \<Rightarrow>
                   let s3 = s2\<lparr>request_actor := \<lparr>actor_key = Some (key_id k), actor_ip = Some ip\<rparr>\<rparr>
                   in (case authorize_key cfg marks rq k of Inl e \<Rightarrow> Inl e | Inr _ \<Rightarrow> Inr (k, ip), s3))"

text \<open>The audit budget: ten rows a minute per client for failures that name no stored key.\<close>

definition allowUnauthenticatedAuditRow :: "guard_config \<Rightarrow> int \<Rightarrow> string \<Rightarrow> (string \<times> hit list) list \<Rightarrow> bool \<times> (string \<times> hit list) list" where
  "allowUnauthenticatedAuditRow cfg now ip hits = window_allow 10 60000 50000 None now (limiterKeyForIp cfg ip) hits"

text \<open>
  The audit row is written without being awaited and its failure is swallowed: \<open>auditWriteLands\<close> says
  whether the row of this request reaches the log.
\<close>

definition write_audit :: "guard_config \<Rightarrow> guard_request \<Rightarrow> string \<Rightarrow> http_error \<Rightarrow> guard_state \<Rightarrow> guard_state" where
  "write_audit cfg rq ip e s =
     (if auditWriteLands cfg
      then s\<lparr>audit_log := audit_log s @ [\<lparr>audit_ip = ip, audit_method = http_method rq, audit_path = http_path rq, audit_error = e,
         audit_actor = request_actor s\<rparr>]\<rparr>
      else s)"

text \<open>The \<open>catch\<close> of \<open>canActivate\<close>.\<close>

definition audit_failure :: "guard_config \<Rightarrow> int \<Rightarrow> guard_request \<Rightarrow> http_error \<Rightarrow> guard_state \<Rightarrow> guard_state" where
  "audit_failure cfg now rq e s =
     (let ip = getClientIp cfg rq; s1 = s\<lparr>request_actor := (request_actor s)\<lparr>actor_ip := Some ip\<rparr>\<rparr>
      in case e of
           UnresolvedApiKey _ \<Rightarrow>
             let (ok, hits) = allowUnauthenticatedAuditRow cfg now ip (audit_hits s1); s2 = s1\<lparr>audit_hits := hits\<rparr>
             in if ok then write_audit cfg rq ip e s2 else s2
         | Unauthorized _ \<Rightarrow> write_audit cfg rq ip e s1
         | Forbidden _ \<Rightarrow> write_audit cfg rq ip e s1
         | _ \<Rightarrow> s)"

definition canActivate :: "guard_config \<Rightarrow> int \<Rightarrow> route_marks \<Rightarrow> guard_request \<Rightarrow> guard_state \<Rightarrow> (api_key \<times> string) option result \<times> guard_state" where
  "canActivate cfg now marks rq s =
     (if isPublic marks then (Inr None, s)
      else case authorize cfg now marks rq s of
             (Inr (k, ip), s') \<Rightarrow> (Inr (Some (k, ip)), s')
           | (Inl e, s') \<Rightarrow> (Inl e, audit_failure cfg now rq e s'))"

section \<open>What the guard lets through\<close>

lemma auth_name_actor [simp]: "auth (name_actor env key s) = auth s"
  by (simp add: name_actor_def split: option.splits)

text \<open>
  A chat the request names in one of the places a handler takes a chat id from: the route parameters
  \<open>chatId\<close>, \<open>groupId\<close> and \<open>contactId\<close>, the query \<open>chatId\<close>, the body fields \<open>chatId\<close>, \<open>fromChatId\<close> and
  \<open>toChatId\<close>, and the \<open>chatId\<close> of the entries of the body's \<open>messages\<close>.
\<close>

definition names_chat :: "guard_request \<Rightarrow> string \<Rightarrow> bool" where
  "names_chat rq c \<longleftrightarrow> c \<noteq> [] \<and>
     ((\<exists>n \<in> {''chatId'', ''groupId'', ''contactId''}. route_params rq n = Some c)
      \<or> query_chat rq = Some (JStr c)
      \<or> (\<exists>f \<in> {''chatId'', ''fromChatId'', ''toChatId''}. field_of (req_body rq) f = Some (JStr c))
      \<or> (\<exists>items item. field_of (req_body rq) ''messages'' = Some (JArr items) \<and> item \<in> set items
           \<and> field_of (Some item) ''chatId'' = Some (JStr c)))"

lemma check_ids_sound:
  "check_ids ok checked ids = Inr () \<Longrightarrow> (f, Some (JStr c)) \<in> set ids \<Longrightarrow> c \<noteq> [] \<Longrightarrow> ok c \<or> c \<in> set checked"
  by (induction ok checked ids rule: check_ids.induct) (auto simp: nullish_def split: if_splits option.splits json.splits)

lemma message_ids_complete:
  "message_ids items = Inr r \<Longrightarrow> item \<in> set items \<Longrightarrow> field_of (Some item) ''chatId'' = Some v \<Longrightarrow> (''messages[].chatId'', Some v) \<in> set r"
proof (induction items arbitrary: r)
  case (Cons i items)
  then show ?case
    by (cases i) (auto simp: bind_result_Inr)
qed simp

lemma field_of_object: "field_of b f = Some v \<Longrightarrow> is_object b"
  by (cases b; cases "the b") auto

lemma chatIdsIn_complete:
  assumes "chatIdsIn rq = Inr ids" and "names_chat rq c"
  shows "\<exists>f. (f, Some (JStr c)) \<in> set ids"
proof -
  note d = chatIdsIn_def CHAT_ROUTE_PARAMS_def CHAT_BODY_FIELDS_def Let_def
  consider (route) n where "n \<in> {''chatId'', ''groupId'', ''contactId''}" "route_params rq n = Some c"
    | (query) "query_chat rq = Some (JStr c)"
    | (field) f where "f \<in> {''chatId'', ''fromChatId'', ''toChatId''}" "field_of (req_body rq) f = Some (JStr c)"
    | (message) items item where "field_of (req_body rq) ''messages'' = Some (JArr items)" "item \<in> set items"
        "field_of (Some item) ''chatId'' = Some (JStr c)"
    using assms(2) by (auto simp: names_chat_def)
  then show ?thesis
  proof cases
    case route
    with assms(1) show ?thesis
      by (auto simp: d bind_result_Inr split: if_splits option.splits json.splits)
  next
    case query
    with assms(1) show ?thesis
      by (auto simp: d bind_result_Inr split: if_splits option.splits json.splits)
  next
    case field
    with assms(1) field_of_object show ?thesis
      by (auto simp: d bind_result_Inr split: if_splits option.splits json.splits)
  next
    case message
    then have "is_object (req_body rq)" "\<not> nullish (Some (JArr items))"
      using field_of_object by (auto simp: nullish_def)
    with assms(1) message obtain r where "message_ids items = Inr r" "\<forall>e. e \<in> set r \<longrightarrow> e \<in> set ids"
      by (auto simp: d bind_result_Inr split: if_splits)
    with message message_ids_complete show ?thesis
      by blast
  qed
qed

lemma assertChatsAllowed_sound:
  assumes "assertChatsAllowed cfg marks rq k = Inr ()" and "names_chat rq c"
  shows "allows (lids cfg) (allowedChats k) c"
proof -
  obtain ids where "chatIdsIn rq = Inr ids" "check_ids (allows (lids cfg) (allowedChats k)) [] ids = Inr ()"
    using assms(1) by (auto simp: assertChatsAllowed_def bind_result_Inr)
  with chatIdsIn_complete [OF _ assms(2)] check_ids_sound assms(2) show ?thesis
    by (fastforce simp: names_chat_def)
qed

lemma validate_key_fields:
  assumes "validateApiKey env now key ip session ru s = (Inr k, s')"
  obtains k0 where "find_hash (hashKey env (trim key)) (rows s) = Some k0" "refusal now ip session k0 = None"
    "key_id k = key_id k0" "key_role k = key_role k0" "allowedSessions k = allowedSessions k0" "allowedChats k = allowedChats k0"
  using assms by (auto simp: validate_cases split: option.splits if_splits)

text \<open>
  C1: Whatever request the guard lets through to a route that is not public, it does so with a stored
  key that its own restrictions accept for this client address and this session, whose role suffices,
  and, on routes closed to scoped keys, that has no session scope. A key restricted to selected chats
  gets through only on a route marked for it, only if every chat named in the route parameters chatId,
  groupId and contactId, the query chatId, the body fields chatId, fromChatId and toChatId and the
  chatId of the entries of messages is one it may reach, and without quoting a message unless the route
  allows it.
\<close>

theorem guard_admits_only:
  assumes "\<not> isPublic marks" and "fst (canActivate cfg now marks rq s) = Inr admitted"
  shows "\<exists>k ip. admitted = Some (k, ip) \<and> ip = getClientIp cfg rq \<and>
    (\<exists>key k0. presentedApiKey (key_headers rq) = Some key
       \<and> find_hash (hashKey (auth_env cfg) (trim key)) (rows (auth s)) = Some k0 \<and> key_id k = key_id k0
       \<and> refusal now (Some ip) (session_of marks rq) k0 = None
       \<and> (\<forall>r. requiredRole marks = Some r \<longrightarrow> hasPermission k0 r)
       \<and> (requireUnscopedKey marks \<longrightarrow> \<not> nonempty_opt (allowedSessions k0))
       \<and> (isRestricted (allowedChats k0) \<longrightarrow>
            chatScoped marks \<noteq> None \<and> (\<forall>c. names_chat rq c \<longrightarrow> allows (lids cfg) (allowedChats k0) c)
            \<and> (chatQuotedAllowed marks \<or> nullish (field_of (req_body rq) ''quotedMessageId'')
                 \<or> field_of (req_body rq) ''quotedMessageId'' = Some (JStr []))))"
proof -
  obtain k ip where adm: "admitted = Some (k, ip)" and a: "fst (authorize cfg now marks rq s) = Inr (k, ip)"
    using assms by (auto simp: canActivate_def split: if_splits prod.splits sum.splits)
  obtain key where key: "presentedApiKey (key_headers rq) = Some key" "key \<noteq> []"
    using a by (auto simp: authorize_def split: option.splits if_splits)
  obtain r a' where v: "validateApiKey (auth_env cfg) now key (Some (getClientIp cfg rq)) (session_of marks rq) True (auth s) = (r, a')"
    by fastforce
  have ok: "r = Inr k" "ip = getClientIp cfg rq" "authorize_key cfg marks rq k = Inr ()"
    using a key v by (auto simp: authorize_def Let_def split: sum.splits)
  obtain k0 where k0: "find_hash (hashKey (auth_env cfg) (trim key)) (rows (auth s)) = Some k0"
    "refusal now (Some (getClientIp cfg rq)) (session_of marks rq) k0 = None"
    "key_id k = key_id k0" "key_role k = key_role k0" "allowedSessions k = allowedSessions k0" "allowedChats k = allowedChats k0"
    by (rule validate_key_fields [OF v [unfolded ok(1)]])
  have role: "\<forall>r. requiredRole marks = Some r \<longrightarrow> hasPermission k0 r"
    and unscoped: "requireUnscopedKey marks \<longrightarrow> \<not> nonempty_opt (allowedSessions k0)"
    and chats: "isRestricted (allowedChats k0) \<longrightarrow> chatScoped marks \<noteq> None \<and> assertChatsAllowed cfg marks rq k = Inr ()"
    using ok(3) k0(4-6) by (auto simp: authorize_key_def hasPermission_def bind_result_Inr split: if_splits option.splits)
  have quoted: "assertChatsAllowed cfg marks rq k = Inr () \<Longrightarrow> chatQuotedAllowed marks \<or> nullish (field_of (req_body rq) ''quotedMessageId'')
                 \<or> field_of (req_body rq) ''quotedMessageId'' = Some (JStr [])"
    using field_of_object [of "req_body rq" "''quotedMessageId''"]
    by (auto simp: assertChatsAllowed_def bind_result_Inr nullish_def split: if_splits)
  have fence: "assertChatsAllowed cfg marks rq k = Inr () \<Longrightarrow> names_chat rq c \<Longrightarrow> allows (lids cfg) (allowedChats k0) c" for c
    using assertChatsAllowed_sound [of cfg marks rq k c] k0(6) by simp
  show ?thesis
    using adm ok(2) key k0 role unscoped chats quoted fence by blast
qed

definition sample_cfg :: guard_config where
  "sample_cfg = \<lparr>auth_env = sample_env, trustedProxies = [], limiterKeyForIp = (\<lambda>ip. ip), lids = None, auditWriteLands = True\<rparr>"

definition sample_marks :: route_marks where
  "sample_marks = \<lparr>isPublic = False, requiredRole = Some OPERATOR, sessionScoped = False, requireUnscopedKey = False,
     chatScoped = Some Fenced, chatQuotedAllowed = False\<rparr>"

definition sample_guard :: guard_state where
  "sample_guard = \<lparr>auth = sample_state\<lparr>rows := [(''k1'', sample_key\<lparr>allowedChats := Some [''62811111@c.us'']\<rparr>)]\<rparr>, audit_hits = [], audit_log = [],
     request_actor = \<lparr>actor_key = None, actor_ip = None\<rparr>\<rparr>"

definition sample_request :: "string \<Rightarrow> guard_request" where
  "sample_request chat = \<lparr>net = \<lparr>req_ip = None, remoteAddress = Some ''203.0.113.9'', x_forwarded_for = []\<rparr>,
     key_headers = \<lparr>x_api_key = Absent, authorization = One ''Bearer h1''\<rparr>, http_method = ''POST'', http_path = ''/send'',
     route_params = [''sessionId'' \<mapsto> ''s1''], query_chat = None,
     req_body = Some (JObj [(''messages'', JArr [JObj [(''chatId'', JStr chat)]])])\<rparr>"

theorem guard_admits_only_witness:
  "(\<exists>k. fst (canActivate sample_cfg 100 sample_marks (sample_request ''62811111@s.whatsapp.net'') sample_guard) = Inr (Some (k, ''203.0.113.9'')))
   \<and> allows None (Some [''62811111@c.us'']) ''62811111@s.whatsapp.net''
   \<and> fst (canActivate sample_cfg 100 sample_marks (sample_request ''62822222@c.us'') sample_guard)
       = Inl (Forbidden ''API key not authorized for this chat'')"
proof -
  let ?rq = "sample_request ''62811111@s.whatsapp.net''"
  let ?k = "sample_key\<lparr>allowedChats := Some [''62811111@c.us''], usageCount := 6, lastUsedAt := Some 100\<rparr>"
  have ok: "fst (canActivate sample_cfg 100 sample_marks ?rq sample_guard) = Inr (Some (?k, ''203.0.113.9''))"
    by code_simp
  have chat: "names_chat ?rq ''62811111@s.whatsapp.net''"
    by (simp add: names_chat_def sample_request_def)
  have t: "trim ''h1'' = ''h1''" "presentedApiKey (key_headers ?rq) = Some ''h1''"
    by code_simp+
  have "allows None (Some [''62811111@c.us'']) ''62811111@s.whatsapp.net''"
    using guard_admits_only [OF _ ok] chat t
    by (simp add: sample_marks_def sample_cfg_def sample_env_def sample_guard_def sample_state_def sample_key_def find_hash_def isRestricted_def isChatScopeRestricted_def)
  moreover have "fst (canActivate sample_cfg 100 sample_marks (sample_request ''62822222@c.us'') sample_guard)
       = Inl (Forbidden ''API key not authorized for this chat'')"
    by code_simp
  ultimately show ?thesis
    using ok by blast
qed

section \<open>What a refusal leaves behind\<close>

lemma name_actor_frame [simp]:
  "audit_log (name_actor env key s) = audit_log s" "audit_hits (name_actor env key s) = audit_hits s"
  by (simp_all add: name_actor_def split: option.splits)

lemma authorize_frame:
  assumes "authorize cfg now marks rq s = (r, s')"
  shows "audit_log s' = audit_log s" "audit_hits s' = audit_hits s"
  using assms by (auto simp: authorize_def Let_def split: option.splits if_splits prod.splits sum.splits)

text \<open>What a request may have written to the key table before it was refused or admitted: its own usage.\<close>

definition only_usage_of :: "guard_config \<Rightarrow> int \<Rightarrow> route_marks \<Rightarrow> guard_request \<Rightarrow> key_table \<Rightarrow> key_table \<Rightarrow> bool" where
  "only_usage_of cfg now marks rq t t' \<longleftrightarrow>
     t' = t \<or> (\<exists>key k0. presentedApiKey (key_headers rq) = Some key
        \<and> find_hash (hashKey (auth_env cfg) (trim key)) t = Some k0
        \<and> refusal now (Some (getClientIp cfg rq)) (session_of marks rq) k0 = None
        \<and> same_but_usage (Some (key_id k0)) t t')"

lemma validate_usage:
  assumes "validateApiKey env now key ip session ru s = (r, s')" and "rows s' \<noteq> rows s"
  shows "\<exists>k0. find_hash (hashKey env (trim key)) (rows s) = Some k0 \<and> refusal now ip session k0 = None
    \<and> same_but_usage (Some (key_id k0)) (rows s) (rows s')"
  using assms record_awaited_rows [of _ "(rows s, usage s)"]
  by (auto simp: validate_cases split: option.splits if_splits)

lemma authorize_rows:
  assumes "authorize cfg now marks rq s = (r, s')"
  shows "only_usage_of cfg now marks rq (rows (auth s)) (rows (auth s'))"
proof (cases "rows (auth s') = rows (auth s)")
  case False
  then obtain key where key: "presentedApiKey (key_headers rq) = Some key" "key \<noteq> []"
    using assms by (auto simp: authorize_def split: option.splits if_splits)
  obtain r a where v: "validateApiKey (auth_env cfg) now key (Some (getClientIp cfg rq)) (session_of marks rq) True (auth s) = (r, a)"
    by fastforce
  have "rows (auth s') = rows a"
    using assms key v by (auto simp: authorize_def Let_def split: sum.splits)
  with key validate_usage [OF v] False show ?thesis
    by (auto simp: only_usage_of_def)
qed (simp add: only_usage_of_def)

lemma authorize_refusal_actor:
  assumes "authorize cfg now marks rq s = (Inl e, s')" and "\<forall>m. e \<noteq> UnresolvedApiKey m"
  shows "\<exists>key k0. presentedApiKey (key_headers rq) = Some key
    \<and> find_hash (hashKey (auth_env cfg) (trim key)) (rows (auth s)) = Some k0 \<and> actor_key (request_actor s') = Some (key_id k0)"
proof -
  obtain key where key: "presentedApiKey (key_headers rq) = Some key" "key \<noteq> []"
    using assms by (auto simp: authorize_def split: option.splits if_splits)
  let ?env = "auth_env cfg"
  obtain r a where v: "validateApiKey ?env now key (Some (getClientIp cfg rq)) (session_of marks rq) True (auth s) = (r, a)"
    by fastforce
  obtain k0 where k0: "find_hash (hashKey ?env (trim key)) (rows (auth s)) = Some k0"
    using assms key v by (cases "find_hash (hashKey ?env (trim key)) (rows (auth s))") (auto simp: authorize_def validate_cases Let_def)
  have "actor_key (request_actor s') = Some (key_id k0)"
  proof (cases r)
    case (Inl e')
    with assms(1) key v k0 show ?thesis
      by (auto simp: authorize_def Let_def name_actor_def)
  next
    case (Inr k)
    then have "key_id k = key_id k0"
      using validate_key_fields [OF v [unfolded Inr]] k0 by (metis option.inject)
    with Inr assms(1) key v show ?thesis
      by (auto simp: authorize_def Let_def split: sum.splits)
  qed
  with key k0 show ?thesis
    by blast
qed

definition guard_error :: "http_error \<Rightarrow> bool" where
  "guard_error e \<longleftrightarrow> (\<exists>m. e = UnresolvedApiKey m \<or> e = Unauthorized m \<or> e = Forbidden m \<or> e = BadRequest m)"

lemma guard_error_intros [simp]: "guard_error (UnresolvedApiKey m)" "guard_error (Unauthorized m)" "guard_error (Forbidden m)" "guard_error (BadRequest m)"
  by (auto simp: guard_error_def)

lemma message_ids_error: "message_ids items = Inl e \<Longrightarrow> guard_error e"
  by (induction items) (auto simp: bind_result_Inl split: json.splits)

lemma check_ids_error: "check_ids ok checked ids = Inl e \<Longrightarrow> guard_error e"
  by (induction ok checked ids rule: check_ids.induct) (auto split: if_splits option.splits json.splits)

lemma authorize_error:
  assumes "authorize cfg now marks rq s = (Inl e, s')"
  shows "guard_error e"
proof -
  have v: "guard_error e" if "validateApiKey env now key ip session ru t = (Inl e, a)" for env now key ip session ru t e a
    using that by (auto simp: validate_cases refusal_def split: option.splits if_splits)
  have c: "guard_error e" if "assertChatsAllowed cfg marks rq k = Inl e" for k e
    using that check_ids_error message_ids_error
    by (auto simp: assertChatsAllowed_def chatIdsIn_def Let_def bind_result_Inl split: if_splits option.splits json.splits)
  have k: "guard_error e" if "authorize_key cfg marks rq k = Inl e" for k e
    using that c by (auto simp: authorize_key_def bind_result_Inl split: if_splits option.splits)
  show ?thesis
    using assms by (auto simp: authorize_def Let_def dest: v k split: option.splits if_splits prod.splits sum.splits)
qed



end
