(* ===== verification/Pacing_State.thy ===== *)
theory Pacing_State
  imports Limiters
begin

text \<open>
  The vocabulary of the send governor (\<open>src/modules/message/send-pacing.service.ts\<close>,
  \<open>send-pacing.config.ts\<close>): its policy, its in-memory state, the classification of a failed send,
  the failure-streak breaker, and how a refusal is counted, sampled into the audit log and thrown.

  Times are epoch milliseconds as \<^typ>\<open>int\<close>; \<open>until\<close> may also be \<open>Infinity\<close>, so those are
  \<open>instant\<close>s. The clock is read once per synchronous segment: every \<open>Date.now()\<close> between two
  awaits is the one argument \<open>now\<close>.
\<close>

section \<open>Instants\<close>

datatype instant = At int | Infinity

instantiation instant :: linorder
begin

fun less_eq_instant :: "instant \<Rightarrow> instant \<Rightarrow> bool" where
  "less_eq_instant (At a) (At b) = (a \<le> b)"
| "less_eq_instant _ Infinity = True"
| "less_eq_instant Infinity (At b) = False"

definition less_instant :: "instant \<Rightarrow> instant \<Rightarrow> bool" where
  "less_instant a b \<longleftrightarrow> a \<le> b \<and> \<not> b \<le> a"

instance
proof
  fix x y z :: instant
  show "x < y \<longleftrightarrow> x \<le> y \<and> \<not> y \<le> x"
    by (rule less_instant_def)
  show "x \<le> x"
    by (cases x) simp_all
  show "x \<le> y \<Longrightarrow> y \<le> z \<Longrightarrow> x \<le> z"
    by (cases x; cases y; cases z) simp_all
  show "x \<le> y \<Longrightarrow> y \<le> x \<Longrightarrow> x = y"
    by (cases x; cases y) simp_all
  show "x \<le> y \<or> y \<le> x"
    by (cases x; cases y) auto
qed

end

lemma instant_less [simp]:
  "At a < At b \<longleftrightarrow> a < b"
  "At a < Infinity"
  "\<not> Infinity < t"
  by (cases t; auto simp: less_instant_def)+

section \<open>Policy\<close>

record send_pacing_config =
  enabled :: bool
  warmupSchedule :: "nat list"
  coldSchedule :: "nat list"
  breakerThreshold :: nat
  breakerCooldownMs :: int

definition DAY_MS :: int where
  "DAY_MS = 86400000"

definition startOfUtcDay :: "int \<Rightarrow> int" where
  "startOfUtcDay t = t div DAY_MS * DAY_MS"

definition ageInDays :: "int \<Rightarrow> int \<Rightarrow> int" where
  "ageInDays dayStart createdAt = (dayStart - startOfUtcDay createdAt) div DAY_MS"

text \<open>
  An empty schedule answers \<open>undefined\<close>, below which no count is: 0 compares the same way. The
  warm-up schedule is never empty, and an empty cold schedule is tested for before it is read.
\<close>

definition allowanceForAge :: "nat list \<Rightarrow> int \<Rightarrow> nat" where
  "allowanceForAge schedule ageDays =
     (if schedule = [] then 0 else schedule ! nat (min (max ageDays 0) (int (length schedule) - 1)))"

definition ADMISSION_WINDOW_MS :: int where
  "ADMISSION_WINDOW_MS = 10000"

definition UNSETTLED_ADMISSION_MAX_MS :: int where
  "UNSETTLED_ADMISSION_MAX_MS = 5 * 60000"

definition REFUSAL_AUDIT_WINDOW_MS :: int where
  "REFUSAL_AUDIT_WINDOW_MS = 60000"

definition MAX_REFUSAL_KEYS :: nat where
  "MAX_REFUSAL_KEYS = 1000"

definition ceil_seconds :: "int \<Rightarrow> int" where
  "ceil_seconds ms = - ((- ms) div 1000)"

definition secondsUntilNextUtcDay :: "int \<Rightarrow> int" where
  "secondsUntilNextUtcDay now = max 1 (ceil_seconds (startOfUtcDay now + DAY_MS - now))"

text \<open>The end of a hold, but no later than a window from now.\<close>

fun capped_end :: "int \<Rightarrow> instant \<Rightarrow> int" where
  "capped_end now (At t) = min t (now + ADMISSION_WINDOW_MS)"
| "capped_end now Infinity = now + ADMISSION_WINDOW_MS"

definition secondsUntilLapsed :: "int \<Rightarrow> instant list \<Rightarrow> int" where
  "secondsUntilLapsed now holdEnds =
     (let last = fold (\<lambda>e m. max m (capped_end now e)) holdEnds now
      in max 1 (ceil_seconds (last - now)))"

section \<open>State\<close>

record cold_term =
  cold_key :: string
  coldToday :: "nat option"

text \<open>
  One admitted send. \<open>aid\<close> is the identity of the JavaScript object, which the settle closure
  compares by reference.
\<close>

record admission =
  aid :: nat
  until :: instant
  unsettled :: bool
  heldUntil :: instant
  sentToday :: "nat option"
  cold :: "cold_term option"

record admission_hold =
  dayStartMs :: int
  admissions :: "admission list"

record breaker_state =
  consecutiveFailures :: nat
  openedAt :: "int option"

record reachout_tally =
  tally_day :: int
  tally_count :: nat

record refusal_sample =
  sample_count :: nat
  since :: int

datatype refusal_reason = daily_cap | cold_daily_cap | breaker_open

datatype pacing_audit =
    SEND_PACING_BLOCKED string refusal_reason int nat
  | SEND_BREAKER_TRIPPED string nat int

text \<open>
  The service with the two process-wide sinks it writes: the refusal counters of
  \<open>send-pacing-metrics.ts\<close> and the audit log, newest entry last. \<open>open_settles\<close> holds the
  admissions whose settle closure has not run, \<open>next_aid\<close> numbers the next admission object.
\<close>

record pacing_state =
  breakers :: "string \<rightharpoonup> breaker_state"
  groupReachoutTally :: "string \<rightharpoonup> reachout_tally"
  holds :: "string \<rightharpoonup> admission_hold"
  refusalSamples :: "(string \<times> refusal_sample) list"
  refusals :: "refusal_reason \<Rightarrow> nat"
  pacing_log :: "pacing_audit list"
  open_settles :: "nat list"
  next_aid :: nat

definition pacing_init :: pacing_state where
  "pacing_init = \<lparr>breakers = Map.empty, groupReachoutTally = Map.empty, holds = Map.empty, refusalSamples = [],
     refusals = (\<lambda>_. 0), pacing_log = [], open_settles = [], next_aid = 0\<rparr>"

text \<open>
  What the checks throw: the 429 whose body carries the code \<open>SEND_PACING_LIMITED\<close> with its
  \<open>retryAfterSeconds\<close>, or the 400 of a batch no day of this rung could take.
\<close>

datatype pacing_error =
    PacingLimited refusal_reason int
  | SplitRequest nat nat

section \<open>Refusing\<close>

definition incrementSendPacingRefusals :: "refusal_reason \<Rightarrow> pacing_state \<Rightarrow> pacing_state" where
  "incrementSendPacingRefusals reason st = st\<lparr>refusals := (refusals st)(reason := refusals st reason + 1)\<rparr>"

definition auditRefusal :: "int \<Rightarrow> string \<Rightarrow> refusal_reason \<Rightarrow> int \<Rightarrow> pacing_state \<Rightarrow> pacing_state" where
  "auditRefusal now sessionId rule retryAfterSeconds st =
     (let prior = map_of (refusalSamples st) sessionId
      in case prior of
           Some p \<Rightarrow>
             if now - since p < REFUSAL_AUDIT_WINDOW_MS
             then st\<lparr>refusalSamples := js_put sessionId (p\<lparr>sample_count := sample_count p + 1\<rparr>) (refusalSamples st)\<rparr>
             else st\<lparr>refusalSamples := evictOverflow MAX_REFUSAL_KEYS
                       (touch sessionId \<lparr>sample_count = 0, since = now\<rparr> (refusalSamples st)),
                     pacing_log := pacing_log st @ [SEND_PACING_BLOCKED sessionId rule retryAfterSeconds (sample_count p)]\<rparr>
         | None \<Rightarrow>
             st\<lparr>refusalSamples := evictOverflow MAX_REFUSAL_KEYS
                  (touch sessionId \<lparr>sample_count = 0, since = now\<rparr> (refusalSamples st)),
                pacing_log := pacing_log st @ [SEND_PACING_BLOCKED sessionId rule retryAfterSeconds 0]\<rparr>)"

definition refuse :: "int \<Rightarrow> refusal_reason \<Rightarrow> string \<Rightarrow> int \<Rightarrow> pacing_state \<Rightarrow> pacing_error \<times> pacing_state" where
  "refuse now reason sessionId retryAfterSeconds st =
     (PacingLimited reason retryAfterSeconds,
      auditRefusal now sessionId reason retryAfterSeconds (incrementSendPacingRefusals reason st))"

section \<open>The breaker\<close>

definition breakerFor :: "string \<Rightarrow> pacing_state \<Rightarrow> breaker_state" where
  "breakerFor sessionId st =
     (case breakers st sessionId of Some b \<Rightarrow> b | None \<Rightarrow> \<lparr>consecutiveFailures = 0, openedAt = None\<rparr>)"

definition recordSendFailure :: "send_pacing_config \<Rightarrow> int \<Rightarrow> string \<Rightarrow> pacing_state \<Rightarrow> pacing_state" where
  "recordSendFailure cfg now sessionId st =
     (if \<not> enabled cfg then st
      else
        let b = breakerFor sessionId st;
            n = consecutiveFailures b + 1
        in if openedAt b = None \<and> breakerThreshold cfg \<le> n
           then st\<lparr>breakers := (breakers st)(sessionId \<mapsto> \<lparr>consecutiveFailures = n, openedAt = Some now\<rparr>),
                   pacing_log := pacing_log st @ [SEND_BREAKER_TRIPPED sessionId n (breakerCooldownMs cfg)]\<rparr>
           else st\<lparr>breakers := (breakers st)(sessionId \<mapsto> b\<lparr>consecutiveFailures := n\<rparr>)\<rparr>)"

definition recordSendSuccess :: "send_pacing_config \<Rightarrow> string \<Rightarrow> pacing_state \<Rightarrow> pacing_state" where
  "recordSendSuccess cfg sessionId st =
     (if \<not> enabled cfg \<or> breakers st sessionId = None then st
      else st\<lparr>breakers := (breakers st)(sessionId := None)\<rparr>)"

text \<open>\<open>!breaker?.openedAt\<close> is true of a missing breaker, a closed one, and one opened at epoch 0.\<close>

definition assertBreakerClosed ::
    "send_pacing_config \<Rightarrow> int \<Rightarrow> string \<Rightarrow> pacing_state \<Rightarrow> pacing_error option \<times> pacing_state" where
  "assertBreakerClosed cfg now sessionId st =
     (case Option.bind (breakers st sessionId) openedAt of
        None \<Rightarrow> (None, st)
      | Some opened \<Rightarrow>
          if opened = 0 then (None, st)
          else if breakerCooldownMs cfg \<le> now - opened
          then (None, st\<lparr>breakers := (breakers st)(sessionId := None)\<rparr>)
          else (let (e, st') = refuse now breaker_open sessionId
                      (ceil_seconds (breakerCooldownMs cfg - (now - opened))) st
                in (Some e, st')))"

section \<open>What a failed send says\<close>

text \<open>
  A thrown value as the classification reads it: the class it is an instance of, and the two marks an
  adapter may have put on it (\<open>engine-not-sent.error.ts\<close>). The marks live in weak sets of objects, so
  a value that is not an object carries neither.
\<close>

datatype error_class =
    EngineRefusedError
  | EngineThrottledError
  | EngineNotSentError
  | EngineNotSupportedError
  | RecipientLookupUnansweredError
  | SsrfBlockedError
  | OtherHttpException int
  | OtherError
  | NotAnObject

record send_error =
  err_class :: error_class
  raisedBeforeSend :: bool
  raisedAfterAttempt :: bool

text \<open>The status of an \<open>HttpException\<close>, \<open>None\<close> for anything else.\<close>

fun http_status :: "error_class \<Rightarrow> int option" where
  "http_status EngineRefusedError = Some 403"
| "http_status EngineThrottledError = Some 503"
| "http_status EngineNotSentError = Some 503"
| "http_status EngineNotSupportedError = Some 501"
| "http_status RecipientLookupUnansweredError = Some 500"
| "http_status (OtherHttpException s) = Some s"
| "http_status SsrfBlockedError = None"
| "http_status OtherError = None"
| "http_status NotAnObject = None"

definition markNothingSent :: "send_error \<Rightarrow> send_error" where
  "markNothingSent e = (if err_class e = NotAnObject then e else e\<lparr>raisedBeforeSend := True\<rparr>)"

definition provesNothingSent :: "send_error \<Rightarrow> bool" where
  "provesNothingSent e \<longleftrightarrow> err_class e = EngineNotSentError \<or> (err_class e \<noteq> NotAnObject \<and> raisedBeforeSend e)"

definition markOutcomeUnknown :: "send_error \<Rightarrow> send_error" where
  "markOutcomeUnknown e = (if err_class e = NotAnObject then e else e\<lparr>raisedAfterAttempt := True\<rparr>)"

definition hasUnknownOutcome :: "send_error \<Rightarrow> bool" where
  "hasUnknownOutcome e \<longleftrightarrow> err_class e \<noteq> NotAnObject \<and> raisedAfterAttempt e"

definition countsTowardSendBreaker :: "send_error \<Rightarrow> bool" where
  "countsTowardSendBreaker e =
     (if err_class e = EngineRefusedError \<or> err_class e = EngineThrottledError then True
      else if err_class e = SsrfBlockedError \<or> err_class e = RecipientLookupUnansweredError then False
      else if provesNothingSent e then False
      else case http_status (err_class e) of
             Some s \<Rightarrow> \<not> ((400 \<le> s \<and> s < 500) \<or> s = 501 \<or> s = 503)
           | None \<Rightarrow> True)"

definition sentNothing :: "send_error \<Rightarrow> bool" where
  "sentNothing e =
     (\<not> hasUnknownOutcome e \<and>
      (err_class e = SsrfBlockedError \<or> provesNothingSent e \<or>
       (case http_status (err_class e) of
          Some s \<Rightarrow> s < 500 \<or> err_class e = EngineNotSupportedError \<or> err_class e = EngineThrottledError
        | None \<Rightarrow> False)))"

section \<open>Properties\<close>

text \<open>
  A failed send whose admission is handed back (it provably sent nothing) never feeds the breaker,
  unless WhatsApp itself refused or throttled it; an error marked as raised after an attempt never
  hands its admission back; and marking an error as raised before the send makes it hand the admission
  back, whatever its status, unless an attempt was marked too. Statuses are HTTP error statuses.
\<close>

theorem error_classes_agree:
  assumes "\<And>s. err_class e = OtherHttpException s \<Longrightarrow> 400 \<le> s"
  shows "(sentNothing e \<and> countsTowardSendBreaker e \<longrightarrow>
            err_class e = EngineRefusedError \<or> err_class e = EngineThrottledError)
    \<and> \<not> sentNothing (markOutcomeUnknown e)
    \<and> sentNothing (markNothingSent e) = (err_class e \<noteq> NotAnObject \<and> \<not> hasUnknownOutcome e)"
  using assms
  by (cases "err_class e")
    (auto simp: sentNothing_def countsTowardSendBreaker_def provesNothingSent_def hasUnknownOutcome_def
      markOutcomeUnknown_def markNothingSent_def)

theorem error_classes_agree_witness:
  "sentNothing \<lparr>err_class = EngineThrottledError, raisedBeforeSend = False, raisedAfterAttempt = False\<rparr>
   \<and> countsTowardSendBreaker \<lparr>err_class = EngineThrottledError, raisedBeforeSend = False, raisedAfterAttempt = False\<rparr>
   \<and> sentNothing (markNothingSent \<lparr>err_class = EngineThrottledError, raisedBeforeSend = False, raisedAfterAttempt = False\<rparr>)"
  using error_classes_agree [of "\<lparr>err_class = EngineThrottledError, raisedBeforeSend = False, raisedAfterAttempt = False\<rparr>"]
  by (simp add: sentNothing_def countsTowardSendBreaker_def hasUnknownOutcome_def)

text \<open>What a run of failures leaves of a breaker that was clear: opened by the failure that reached the threshold.\<close>

definition fail_all :: "send_pacing_config \<Rightarrow> string \<Rightarrow> int list \<Rightarrow> pacing_state \<Rightarrow> pacing_state" where
  "fail_all cfg sid ts st = fold (\<lambda>t. recordSendFailure cfg t sid) ts st"

lemma fail_all_breaker:
  assumes "enabled cfg" and "0 < breakerThreshold cfg" and "breakers st sid = None"
  shows "ts \<noteq> [] \<Longrightarrow> breakers (fail_all cfg sid ts st) sid =
    Some \<lparr>consecutiveFailures = length ts,
          openedAt = (if breakerThreshold cfg \<le> length ts then Some (ts ! (breakerThreshold cfg - 1)) else None)\<rparr>"
proof (induction ts rule: rev_induct)
  case (snoc t ts)
  show ?case
  proof (cases "ts = []")
    case True
    then show ?thesis
      using assms by (auto simp: fail_all_def recordSendFailure_def breakerFor_def Let_def)
  next
    case False
    with snoc.IH have "breakers (fail_all cfg sid ts st) sid =
      Some \<lparr>consecutiveFailures = length ts,
          openedAt = (if breakerThreshold cfg \<le> length ts then Some (ts ! (breakerThreshold cfg - 1)) else None)\<rparr>"
      by blast
    moreover have "breakers (fail_all cfg sid (ts @ [t]) st) sid =
        breakers (recordSendFailure cfg t sid (fail_all cfg sid ts st)) sid"
      by (simp add: fail_all_def)
    ultimately show ?thesis
      using assms(1,2) by (auto simp: recordSendFailure_def breakerFor_def Let_def nth_append le_Suc_eq)
  qed
qed simp

text \<open>
  C28: the breaker. From a clear breaker, a run of failures at the times \<open>ts\<close> refuses the next check
  exactly when the run reached the threshold and the cooldown counted from the failure that reached it
  is not over; the refusal is the 429 of the rule \<open>breaker_open\<close> with the seconds left, at least one.
  A check after the cooldown, and a success in between, leave the breaker clear.
\<close>

theorem breaker_holds_for_cooldown:
  assumes "enabled cfg" and "0 < breakerThreshold cfg" and "breakers st sid = None"
    and "\<forall>t \<in> set ts. 0 < t"
  shows "fst (assertBreakerClosed cfg now sid (fail_all cfg sid ts st)) =
      (if breakerThreshold cfg \<le> length ts \<and> now - ts ! (breakerThreshold cfg - 1) < breakerCooldownMs cfg
       then Some (PacingLimited breaker_open (ceil_seconds (breakerCooldownMs cfg - (now - ts ! (breakerThreshold cfg - 1)))))
       else None)
    \<and> (breakerThreshold cfg \<le> length ts \<and> breakerCooldownMs cfg \<le> now - ts ! (breakerThreshold cfg - 1) \<longrightarrow>
        breakers (snd (assertBreakerClosed cfg now sid (fail_all cfg sid ts st))) sid = None)
    \<and> breakers (recordSendSuccess cfg sid (fail_all cfg sid ts st)) sid = None"
proof (cases "ts = []")
  case True
  with assms show ?thesis
    by (simp add: fail_all_def assertBreakerClosed_def recordSendSuccess_def)
next
  case False
  note b = fail_all_breaker [OF assms(1-3) False]
  show ?thesis
  proof (cases "breakerThreshold cfg \<le> length ts")
    case True
    define t where "t = ts ! (breakerThreshold cfg - 1)"
    have "t \<in> set ts"
      using True assms(2) unfolding t_def by (intro nth_mem) simp
    with assms(4) have "t \<noteq> 0" by force
    moreover have "breakers (fail_all cfg sid ts st) sid = Some \<lparr>consecutiveFailures = length ts, openedAt = Some t\<rparr>"
      using b True by (simp add: t_def)
    ultimately show ?thesis
      using assms(1) True unfolding t_def [symmetric]
      by (simp add: assertBreakerClosed_def recordSendSuccess_def refuse_def)
  next
    case False
    with b assms(1) show ?thesis
      by (simp add: assertBreakerClosed_def recordSendSuccess_def)
  qed
qed

theorem breaker_holds_for_cooldown_witness:
  "fst (assertBreakerClosed
      \<lparr>enabled = True, warmupSchedule = [20], coldSchedule = [], breakerThreshold = 2, breakerCooldownMs = 1500\<rparr> 510 ''s1''
      (fail_all \<lparr>enabled = True, warmupSchedule = [20], coldSchedule = [], breakerThreshold = 2, breakerCooldownMs = 1500\<rparr>
         ''s1'' [5, 9, 10] pacing_init)) = Some (PacingLimited breaker_open 1)"
  using breaker_holds_for_cooldown
    [of "\<lparr>enabled = True, warmupSchedule = [20], coldSchedule = [], breakerThreshold = 2, breakerCooldownMs = 1500\<rparr>"
       pacing_init "''s1''" "[5, 9, 10]" 510]
  by (simp add: pacing_init_def ceil_seconds_def)

text \<open>The refusals of a run: when, of which session, by which rule and for how long.\<close>

type_synonym refusal = "int \<times> string \<times> refusal_reason \<times> int"

definition audit_all :: "refusal list \<Rightarrow> pacing_state \<Rightarrow> pacing_state" where
  "audit_all rs st = fold (\<lambda>(t, sid, rule, k). auditRefusal t sid rule k) rs st"

fun accounted :: "string \<Rightarrow> pacing_audit \<Rightarrow> nat" where
  "accounted sid (SEND_PACING_BLOCKED s rule k suppressed) = (if s = sid then Suc suppressed else 0)"
| "accounted sid (SEND_BREAKER_TRIPPED s n c) = 0"

definition still_pending :: "string \<Rightarrow> pacing_state \<Rightarrow> nat" where
  "still_pending sid st = (case map_of (refusalSamples st) sid of None \<Rightarrow> 0 | Some p \<Rightarrow> sample_count p)"

definition samples_within :: "string set \<Rightarrow> (string \<times> refusal_sample) list \<Rightarrow> bool" where
  "samples_within S m \<longleftrightarrow> distinct (map fst m) \<and> set (map fst m) \<subseteq> S"

lemma samples_write:
  assumes "samples_within S m" "sid \<in> S"
  shows "samples_within S (touch sid p m)" and "samples_within S (js_put sid p m)"
  using assms distinct_touch [of m sid p] distinct_js_put [of m sid p]
  unfolding samples_within_def keys_touch keys_js_put by simp_all

lemma samples_evict:
  assumes "samples_within S m" "sid \<in> S" "finite S" "card S \<le> MAX_REFUSAL_KEYS"
  shows "evictOverflow MAX_REFUSAL_KEYS (touch sid p m) = touch sid p m"
proof -
  have "distinct (map fst (touch sid p m))" "set (map fst (touch sid p m)) \<subseteq> S"
    using samples_write(1) [OF assms(1,2), of p] unfolding samples_within_def by blast+
  then have "length (touch sid p m) \<le> card S"
    using assms(3) by (metis card_mono distinct_card length_map)
  with assms(4) show ?thesis
    by (simp add: evictOverflow_fits)
qed

lemma auditRefusal_accounts:
  assumes "samples_within S (refusalSamples st)" "s \<in> S" "finite S" "card S \<le> MAX_REFUSAL_KEYS"
  shows "samples_within S (refusalSamples (auditRefusal t s rule k st))"
    and "sum_list (map (accounted sid) (pacing_log (auditRefusal t s rule k st))) + still_pending sid (auditRefusal t s rule k st) =
      sum_list (map (accounted sid) (pacing_log st)) + still_pending sid st + (if s = sid then 1 else 0)"
proof -
  note facts = samples_evict [OF assms] samples_write [OF assms(1,2)]
  show "samples_within S (refusalSamples (auditRefusal t s rule k st))"
    by (cases "map_of (refusalSamples st) s") (simp_all add: auditRefusal_def facts)
  show "sum_list (map (accounted sid) (pacing_log (auditRefusal t s rule k st))) + still_pending sid (auditRefusal t s rule k st) =
      sum_list (map (accounted sid) (pacing_log st)) + still_pending sid st + (if s = sid then 1 else 0)"
    using facts(1) by (cases "map_of (refusalSamples st) s"; cases "s = sid")
      (simp_all add: auditRefusal_def still_pending_def)
qed

text \<open>
  The refusal sampling loses nothing. Over any run of refusals of at most \<open>MAX_REFUSAL_KEYS\<close>
  sessions, the refusals of a session are exactly those its audit rows stand for (each row, plus the
  suppressed ones it reports) and those suppressed since its last row.
\<close>

theorem refusals_accounted:
  assumes "card (set (map (fst \<circ> snd) rs)) \<le> MAX_REFUSAL_KEYS"
  shows "sum_list (map (accounted sid) (pacing_log (audit_all rs pacing_init))) + still_pending sid (audit_all rs pacing_init) =
    length (filter (\<lambda>r. fst (snd r) = sid) rs)"
proof -
  let ?S = "set (map (fst \<circ> snd) rs)"
  have "set qs \<subseteq> set rs \<Longrightarrow> samples_within ?S (refusalSamples (audit_all qs pacing_init)) \<and>
      sum_list (map (accounted sid) (pacing_log (audit_all qs pacing_init))) + still_pending sid (audit_all qs pacing_init) =
      length (filter (\<lambda>r. fst (snd r) = sid) qs)" for qs
  proof (induction qs rule: rev_induct)
    case Nil
    show ?case
      by (simp add: audit_all_def pacing_init_def samples_within_def still_pending_def)
  next
    case (snoc q qs)
    obtain t s rule k where q: "q = (t, s, rule, k)" by (cases q)
    have "s \<in> ?S"
      using snoc.prems q by force
    then have "samples_within ?S (refusalSamples (auditRefusal t s rule k (audit_all qs pacing_init)))"
      and "sum_list (map (accounted sid) (pacing_log (auditRefusal t s rule k (audit_all qs pacing_init))))
          + still_pending sid (auditRefusal t s rule k (audit_all qs pacing_init)) =
        sum_list (map (accounted sid) (pacing_log (audit_all qs pacing_init))) + still_pending sid (audit_all qs pacing_init)
          + (if s = sid then 1 else 0)"
      using snoc assms by (intro auditRefusal_accounts; simp)+
    moreover have "audit_all (qs @ [q]) pacing_init = auditRefusal t s rule k (audit_all qs pacing_init)"
      by (simp add: audit_all_def q)
    ultimately show ?case
      using snoc by (simp add: q)
  qed
  then show ?thesis
    by blast
qed

theorem refusals_accounted_witness:
  "sum_list (map (accounted ''s1'') (pacing_log (audit_all
      [(0, ''s1'', daily_cap, 9), (5, ''s1'', daily_cap, 9), (60001, ''s1'', daily_cap, 9)] pacing_init)))
    + still_pending ''s1'' (audit_all
      [(0, ''s1'', daily_cap, 9), (5, ''s1'', daily_cap, 9), (60001, ''s1'', daily_cap, 9)] pacing_init) = 3"
  using refusals_accounted [of "[(0, ''s1'', daily_cap, 9), (5, ''s1'', daily_cap, 9), (60001, ''s1'', daily_cap, 9)]" "''s1''"]
  by (simp add: MAX_REFUSAL_KEYS_def)

end
