(* ===== verification/Pacing_Cold.thy ===== *)
theory Pacing_Cold
  imports Pacing_State Chat_Scope
begin

text \<open>
  Who is a stranger: the cold-reachout reads of \<open>src/modules/message/send-pacing.service.ts\<close> over the
  messages table and the lid store.

  Every statement the reads issue awaits, and rows may land between two of them, so each names the
  table it reads: \<open>snap\<close> gives the rows at the moment of each \<open>probe\<close>.
\<close>

section \<open>String replacement\<close>

text \<open>\<open>s.replace(p, r)\<close> of JavaScript, the first occurrence only, for a pattern that is not empty.\<close>

fun replace_first :: "string \<Rightarrow> string \<Rightarrow> string \<Rightarrow> string" where
  "replace_first p r [] = []"
| "replace_first p r (c # s) =
     (if take (length p) (c # s) = p then r @ drop (length p) (c # s) else c # replace_first p r s)"

text \<open>\<open>REPLACE(s, p, r)\<close> of SQL, every occurrence from the left, for a pattern that is not empty.\<close>

function replace_all :: "string \<Rightarrow> string \<Rightarrow> string \<Rightarrow> string" where
  "replace_all p r [] = []"
| "replace_all p r (c # s) =
     (if p \<noteq> [] \<and> take (length p) (c # s) = p then r @ replace_all p r (drop (length p) (c # s))
      else c # replace_all p r s)"
  by pat_completeness auto
termination
  by (relation "measure (\<lambda>(p, r, s). length s)") (auto simp: drop_Cons' neq_Nil_conv)

definition endsWith :: "string \<Rightarrow> string \<Rightarrow> bool" where
  "endsWith s t \<longleftrightarrow> length t \<le> length s \<and> drop (length s - length t) s = t"

section \<open>The messages table\<close>

datatype message_direction = INCOMING | OUTGOING

record message_row =
  msg_session :: string
  msg_chat :: string
  direction :: message_direction
  createdAt :: int

type_synonym message_table = "message_row list"

datatype probe =
    HistoryProbe
  | TwinProbe
  | StartedProbe
  | OlderProbe nat
  | AnsweredProbe string
  | KnownProbe

type_synonym snapshots = "probe \<Rightarrow> message_table"

definition sentTodayCount :: "message_table \<Rightarrow> string \<Rightarrow> int \<Rightarrow> nat" where
  "sentTodayCount t sessionId dayStart =
     length (filter (\<lambda>m. msg_session m = sessionId \<and> direction m = OUTGOING \<and> dayStart \<le> createdAt m) t)"

definition has_rows :: "message_table \<Rightarrow> string \<Rightarrow> string list \<Rightarrow> bool" where
  "has_rows t sessionId ids = list_ex (\<lambda>m. msg_session m = sessionId \<and> msg_chat m \<in> set ids) t"

section \<open>Spellings of one chat\<close>

definition coldChatKey :: "string \<Rightarrow> string" where
  "coldChatKey chatId = replace_first ''@s.whatsapp.net'' ''@c.us'' chatId"

definition dialectVariants :: "string \<Rightarrow> string list" where
  "dialectVariants chatId =
     (let lower = toLowerCase chatId
      in if endsWith lower ''@c.us'' then [chatId, take (length chatId - length ''@c.us'') chatId @ ''@s.whatsapp.net'']
         else if endsWith lower ''@s.whatsapp.net''
         then [chatId, take (length chatId - length ''@s.whatsapp.net'') chatId @ ''@c.us'']
         else if digits5 (trim chatId)
         then [trim chatId, trim chatId @ ''@c.us'', trim chatId @ ''@s.whatsapp.net'']
         else [chatId])"

definition DIALECT_PAIR :: "string \<Rightarrow> string list" where
  "DIALECT_PAIR chatId =
     [replace_all ''@s.whatsapp.net'' ''@c.us'' chatId, replace_all ''@c.us'' ''@s.whatsapp.net'' chatId]"

section \<open>The lid table\<close>

definition lidDirectory :: "lid_store \<Rightarrow> contact_directory option" where
  "lidDirectory store =
     (case store of
        None \<Rightarrow> None
      | Some (db, m) \<Rightarrow>
          Some \<lparr>resolveLid = (\<lambda>lid. fst (findPhoneForLid db lid m)), lidsForPhone = findLidsForPhone db m\<rparr>)"

definition storedForms :: "lid_store \<Rightarrow> string list \<Rightarrow> (string \<times> string list) list" where
  "storedForms store chatIds =
     (let parsed = map parseWaId chatIds;
          lids = js_set (map user_part (filter (\<lambda>p. kind p = LidKind) parsed));
          phones = js_set (map user_part (filter (\<lambda>p. kind p = UserKind \<or> kind p = UnknownKind) parsed));
          lidsByPhone = (case store of
             None \<Rightarrow> [] | Some (db, m) \<Rightarrow> if phones \<noteq> [] then lidsForPhonesPersisted db m phones else []);
          phoneByLid = (case store of
             None \<Rightarrow> []
           | Some (db, m) \<Rightarrow> if lids \<noteq> [] then phones_read db m lids else []);
          directory = \<lparr>resolveLid = (\<lambda>lid. Option.bind (map_of phoneByLid lid) id),
                       lidsForPhone = (\<lambda>p. case map_of lidsByPhone p of Some ls \<Rightarrow> ls | None \<Rightarrow> [])\<rparr>
      in map (\<lambda>i. (i, resolveJidCandidates i (Some directory))) (js_set chatIds))"

section \<open>Counting the strangers reached today\<close>

text \<open>\<open>SELECT MIN(createdAt)\<close> over today's outgoing rows of these chats; \<open>NULL\<close> is \<open>None\<close>.\<close>

definition firstOutgoing :: "message_table \<Rightarrow> string \<Rightarrow> int \<Rightarrow> string list \<Rightarrow> int option" where
  "firstOutgoing t sessionId dayStart chats =
     (case filter (\<lambda>m. msg_session m = sessionId \<and> msg_chat m \<in> set chats \<and> direction m = OUTGOING
                       \<and> dayStart \<le> createdAt m) t of
        [] \<Rightarrow> None
      | m # ms \<Rightarrow> Some (fold (\<lambda>m. min (createdAt m)) ms (createdAt m)))"

definition before_first :: "int \<Rightarrow> int option \<Rightarrow> bool" where
  "before_first t o1 = (case o1 of None \<Rightarrow> False | Some u \<Rightarrow> t < u)"

definition startedChatsToday :: "message_table \<Rightarrow> string \<Rightarrow> int \<Rightarrow> string list" where
  "startedChatsToday t sessionId dayStart =
     js_set (map (\<lambda>m. replace_all ''@s.whatsapp.net'' ''@c.us'' (msg_chat m))
       (filter (\<lambda>m. msg_session m = sessionId \<and> direction m = OUTGOING \<and> dayStart \<le> createdAt m
          \<and> \<not> list_ex (\<lambda>p. msg_session p = sessionId \<and> msg_chat p \<in> set (DIALECT_PAIR (msg_chat m))
                        \<and> createdAt p < dayStart) t
          \<and> \<not> list_ex (\<lambda>i. msg_session i = sessionId \<and> msg_chat i \<in> set (DIALECT_PAIR (msg_chat m))
                        \<and> direction i = INCOMING
                        \<and> before_first (createdAt i) (firstOutgoing t sessionId dayStart (DIALECT_PAIR (msg_chat m)))) t) t))"

definition LOOKUP_CHUNK :: nat where
  "LOOKUP_CHUNK = 500"

definition chatsWithRowsBefore :: "snapshots \<Rightarrow> string \<Rightarrow> int \<Rightarrow> string list \<Rightarrow> string list" where
  "chatsWithRowsBefore snap sessionId dayStart chatIds =
     concat (map (\<lambda>(k, ids). map msg_chat (filter (\<lambda>m. msg_session m = sessionId \<and> msg_chat m \<in> set ids
         \<and> createdAt m < dayStart) (snap (OlderProbe k))))
       (zip [0..<length (chunk LOOKUP_CHUNK chatIds)] (chunk LOOKUP_CHUNK chatIds)))"

definition answeredUnderOtherForm :: "message_table \<Rightarrow> string \<Rightarrow> int \<Rightarrow> string \<Rightarrow> string list \<Rightarrow> bool" where
  "answeredUnderOtherForm t sessionId dayStart chatId twins =
     list_ex (\<lambda>m. msg_session m = sessionId \<and> msg_chat m \<in> set twins \<and> direction m = INCOMING
        \<and> before_first (createdAt m) (firstOutgoing t sessionId dayStart (dialectVariants chatId))) t"

definition form_list :: "(string \<times> string list) list \<Rightarrow> string \<Rightarrow> string list" where
  "form_list forms chatId = the (map_of forms chatId)"

definition twins_in :: "(string \<times> string list) list \<Rightarrow> string \<Rightarrow> string list" where
  "twins_in forms chatId = filter (\<lambda>i. i \<notin> set (dialectVariants chatId)) (form_list forms chatId)"

text \<open>The contact a chat belongs to: its phone form when the table gives one.\<close>

definition contact_of :: "(string \<times> string list) list \<Rightarrow> string \<Rightarrow> string" where
  "contact_of forms chatId =
     (case List.find (\<lambda>i. endsWith i ''@c.us'') (form_list forms chatId) of Some c \<Rightarrow> c | None \<Rightarrow> chatId)"

text \<open>The loop of \<open>countColdReachoutsToday\<close>, with the contacts counted so far.\<close>

fun count_contacts ::
    "snapshots \<Rightarrow> string \<Rightarrow> int \<Rightarrow> (string \<times> string list) list \<Rightarrow> string list \<Rightarrow> string list \<Rightarrow> string list \<Rightarrow> string list" where
  "count_contacts snap sessionId dayStart forms older [] contacts = contacts"
| "count_contacts snap sessionId dayStart forms older (chatId # chats) contacts =
     (let twins = twins_in forms chatId;
          contact = contact_of forms chatId
      in if list_ex (\<lambda>i. i \<in> set older) twins \<or> contact \<in> set contacts
            \<or> (twins \<noteq> [] \<and> answeredUnderOtherForm (snap (AnsweredProbe chatId)) sessionId dayStart chatId twins)
         then count_contacts snap sessionId dayStart forms older chats contacts
         else count_contacts snap sessionId dayStart forms older chats (contacts @ [contact]))"

definition countColdReachoutsToday :: "snapshots \<Rightarrow> lid_store \<Rightarrow> string \<Rightarrow> int \<Rightarrow> nat" where
  "countColdReachoutsToday snap store sessionId dayStart =
     (let chats = startedChatsToday (snap StartedProbe) sessionId dayStart;
          forms = storedForms store chats;
          older = chatsWithRowsBefore snap sessionId dayStart (js_set (concat (map (twins_in forms) chats)))
      in length (count_contacts snap sessionId dayStart forms older chats []))"

text \<open>What the cold rule needs for one send: the day's allowance and the count, or nothing when it does not apply.\<close>

definition readColdReachouts ::
    "snapshots \<Rightarrow> lid_store \<Rightarrow> send_pacing_config \<Rightarrow> string \<Rightarrow> string option \<Rightarrow> int \<Rightarrow> int \<Rightarrow> (nat \<times> nat) option" where
  "readColdReachouts snap store cfg sessionId chatId dayStart ageDays =
     (if \<not> truthy chatId \<or> coldSchedule cfg = [] then None
      else
        let c = the chatId;
            variants = dialectVariants c;
            twins = filter (\<lambda>i. i \<notin> set variants) (resolveJidCandidates c (lidDirectory store))
        in if has_rows (snap HistoryProbe) sessionId variants then None
           else if twins \<noteq> [] \<and> has_rows (snap TwinProbe) sessionId twins then None
           else Some (allowanceForAge (coldSchedule cfg) ageDays,
                      countColdReachoutsToday snap store sessionId dayStart))"

section \<open>Properties\<close>

definition dir_phone :: "contact_directory option \<Rightarrow> string \<Rightarrow> string option" where
  "dir_phone d u = (case d of None \<Rightarrow> None | Some d \<Rightarrow> resolveLid d u)"

definition dir_lids :: "contact_directory option \<Rightarrow> string \<Rightarrow> string list" where
  "dir_lids d u = (case d of None \<Rightarrow> [] | Some d \<Rightarrow> lidsForPhone d u)"

text \<open>The candidates of an id read the directory at its own user part only.\<close>

lemma candidates_cong:
  assumes "kind (parseWaId i) = LidKind \<Longrightarrow> dir_phone d1 (user_part (parseWaId i)) = dir_phone d2 (user_part (parseWaId i))"
    and "kind (parseWaId i) = UserKind \<or> kind (parseWaId i) = UnknownKind \<Longrightarrow>
      set (dir_lids d1 (user_part (parseWaId i))) = set (dir_lids d2 (user_part (parseWaId i)))"
  shows "set (resolveJidCandidates i d1) = set (resolveJidCandidates i d2)"
proof (cases "kind (parseWaId i) = LidKind")
  case True
  with assms(1) show ?thesis
    unfolding resolveJidCandidates_def Let_def dir_phone_def by simp
next
  case False
  have "set (resolveJidCandidates i d) =
     (if kind (parseWaId i) = GroupKind then {user_part (parseWaId i) @ ''@g.us''}
      else if kind (parseWaId i) \<noteq> UserKind \<and> (kind (parseWaId i) \<noteq> UnknownKind \<or> CHR ''@'' \<in> set i) then {i}
      else {i, user_part (parseWaId i) @ ''@c.us'', user_part (parseWaId i) @ ''@s.whatsapp.net''}
        \<union> (\<lambda>l. l @ ''@lid'') ` set (dir_lids d (user_part (parseWaId i))))" for d
    using False unfolding resolveJidCandidates_def Let_def dir_lids_def by auto
  with assms(2) show ?thesis
    by simp
qed

lemma map_of_total: "x \<in> fst ` set m \<Longrightarrow> \<exists>y. map_of m x = Some y \<and> (x, y) \<in> set m"
  by (metis map_of_SomeD map_of_eq_None_iff not_None_eq)

text \<open>
  C40: reading the lid table once for a whole list links the same forms as reading it chat by chat. For
  every chat of the list, the stored forms are the candidates \<open>resolveJidCandidates\<close> computes with the
  single lookups, whatever the store holds, is missing, or has in flight.
\<close>

theorem stored_forms_are_candidates:
  assumes "i \<in> set ids"
  shows "set (form_list (storedForms store ids) i) = set (resolveJidCandidates i (lidDirectory store))"
proof -
  let ?u = "user_part (parseWaId i)"
  define parsed where "parsed = map parseWaId ids"
  define lids where "lids = js_set (map user_part (filter (\<lambda>p. kind p = LidKind) parsed))"
  define phones where "phones = js_set (map user_part (filter (\<lambda>p. kind p = UserKind \<or> kind p = UnknownKind) parsed))"
  define byPhone where "byPhone = (case store of
     None \<Rightarrow> [] | Some (db, m) \<Rightarrow> if phones \<noteq> [] then lidsForPhonesPersisted db m phones else [])"
  define byLid where "byLid = (case store of
     None \<Rightarrow> [] | Some (db, m) \<Rightarrow> if lids \<noteq> [] then phones_read db m lids else [])"
  define dir where "dir = \<lparr>resolveLid = (\<lambda>lid. Option.bind (map_of byLid lid) id),
                       lidsForPhone = (\<lambda>p. case map_of byPhone p of Some ls \<Rightarrow> ls | None \<Rightarrow> [])\<rparr>"
  have "form_list (storedForms store ids) i = resolveJidCandidates i (Some dir)"
    unfolding storedForms_def Let_def form_list_def parsed_def [symmetric] lids_def [symmetric] phones_def [symmetric]
      byPhone_def [symmetric] byLid_def [symmetric] dir_def [symmetric]
    using assms by (simp add: map_of_map_restrict)
  moreover have "set (resolveJidCandidates i (Some dir)) = set (resolveJidCandidates i (lidDirectory store))"
  proof (rule candidates_cong)
    assume k: "kind (parseWaId i) = LidKind"
    then have u: "?u \<in> set lids"
      using assms by (auto simp: lids_def parsed_def)
    have clean: "list_all sep_free lids"
      by (auto simp: list_all_iff lids_def parsed_def intro!: clean_local_sep_free parse_known_clean)
    show "dir_phone (Some dir) ?u = dir_phone (lidDirectory store) ?u"
    proof (cases store)
      case None
      then show ?thesis
        by (simp add: dir_phone_def dir_def byLid_def lidDirectory_def)
    next
      case (Some tm)
      obtain t m where tm: "tm = (t, m)" by fastforce
      have "set byLid = (\<lambda>l. (l, db_phone t m l)) ` set lids"
        using Some tm u phones_read_spec [OF clean, of t m] by (auto simp: byLid_def)
      with u map_of_total [of ?u byLid] have "map_of byLid ?u = Some (db_phone t m ?u)"
        by force
      then show ?thesis
        using Some tm by (simp add: dir_phone_def dir_def lidDirectory_def)
    qed
  next
    assume "kind (parseWaId i) = UserKind \<or> kind (parseWaId i) = UnknownKind"
    then have u: "?u \<in> set phones"
      using assms by (auto simp: phones_def parsed_def)
    show "set (dir_lids (Some dir) ?u) = set (dir_lids (lidDirectory store) ?u)"
    proof (cases store)
      case None
      then show ?thesis
        by (simp add: dir_lids_def dir_def byPhone_def lidDirectory_def)
    next
      case (Some tm)
      obtain t m where tm: "tm = (t, m)" by fastforce
      have b: "byPhone = lidsForPhonesPersisted t m phones"
        using Some tm u by (auto simp: byPhone_def)
      with u map_of_total [of ?u byPhone] lids_read_keys [of t m phones]
      obtain ls where "map_of byPhone ?u = Some ls" "(?u, ls) \<in> set (lidsForPhonesPersisted t m phones)"
        by auto
      then show ?thesis
        using Some tm lids_read [of ?u ls t m phones] by (simp add: dir_lids_def dir_def lidDirectory_def)
    qed
  qed
  ultimately show ?thesis
    by simp
qed

theorem stored_forms_are_candidates_witness:
  "set (form_list (storedForms (Some (Some [(''77'', \<lparr>row_phone = Some ''628111'', row_session = None, is_reported = True, updated_at = 0\<rparr>)],
      empty_mirror 9)) [''628111@c.us'', ''77@lid'']) ''77@lid'')
   = {''77@lid'', ''628111@c.us'', ''628111@s.whatsapp.net''}"
proof -
  let ?st = "Some (Some [(''77'', \<lparr>row_phone = Some ''628111'', row_session = None, is_reported = True, updated_at = 0\<rparr>)], empty_mirror 9)"
  have "set (resolveJidCandidates ''77@lid'' (lidDirectory ?st)) = {''77@lid'', ''628111@c.us'', ''628111@s.whatsapp.net''}"
    by code_simp
  with stored_forms_are_candidates [of "''77@lid''" "[''628111@c.us'', ''77@lid'']" ?st] show ?thesis
    by simp
qed

end
