(* ===== verification/Send_Pacing.thy ===== *)
theory Send_Pacing
  imports Pacing_Cold
begin

text \<open>
  The checks of the send governor (\<open>src/modules/message/send-pacing.service.ts\<close>): the admissions a
  session holds, the two caps judged against them, \<open>assertSendAllowed\<close>, its settle closure, and the
  group-add reachouts.

  \<open>assertSendAllowed\<close> awaits three times. It is the four synchronous segments between the awaits,
  each a function of the state and the clock when it runs and of what its await answered.
\<close>

section \<open>Held admissions\<close>

text \<open>The day rolled over: what may still write today is kept, with its counts to be read again.\<close>

definition carry_over :: "int \<Rightarrow> int \<Rightarrow> admission_hold \<Rightarrow> admission_hold" where
  "carry_over now day h =
     (if dayStartMs h = day then h
      else \<lparr>dayStartMs = day,
            admissions = map (\<lambda>a. a\<lparr>sentToday := None, cold := map_option (\<lambda>c. c\<lparr>coldToday := None\<rparr>) (cold a)\<rparr>)
              (filter (\<lambda>a. until a = Infinity \<or> (unsettled a \<and> At now < until a)) (admissions h))\<rparr>)"

definition lapse_cold :: "int \<Rightarrow> admission list \<Rightarrow> admission list" where
  "lapse_cold now as =
     (if list_ex (\<lambda>a. cold a \<noteq> None \<and> At now < until a) as then as else map (\<lambda>a. a\<lparr>cold := None\<rparr>) as)"

text \<open>Newest first: an admission stays held while the one after it is.\<close>

fun chain_held :: "admission list \<Rightarrow> admission list" where
  "chain_held [] = []"
| "chain_held (a # as) =
     (let rest = chain_held as
      in a\<lparr>heldUntil := max (until a) (case rest of [] \<Rightarrow> At 0 | b # _ \<Rightarrow> heldUntil b)\<rparr> # rest)"

definition heldAdmissions :: "int \<Rightarrow> string \<Rightarrow> int \<Rightarrow> pacing_state \<Rightarrow> admission list \<times> pacing_state" where
  "heldAdmissions now sessionId day st =
     (case holds st sessionId of
        None \<Rightarrow> ([], st)
      | Some h \<Rightarrow>
          let h1 = carry_over now day h;
              as = chain_held (lapse_cold now (admissions h1))
          in case as of
               a # _ \<Rightarrow>
                 if At now < heldUntil a
                 then (as, st\<lparr>holds := (holds st)(sessionId \<mapsto> h1\<lparr>admissions := as\<rparr>)\<rparr>)
                 else ([], st\<lparr>holds := (holds st)(sessionId := None)\<rparr>)
             | [] \<Rightarrow> ([], st\<lparr>holds := (holds st)(sessionId := None)\<rparr>))"

definition set_held :: "string \<Rightarrow> admission list \<Rightarrow> pacing_state \<Rightarrow> pacing_state" where
  "set_held sessionId as st =
     st\<lparr>holds := (holds st)(sessionId := map_option (\<lambda>h. h\<lparr>admissions := as\<rparr>) (holds st sessionId))\<rparr>"

section \<open>The daily cap\<close>

definition fill_sent :: "nat \<Rightarrow> admission \<Rightarrow> admission" where
  "fill_sent persisted a = (case sentToday a of None \<Rightarrow> a\<lparr>sentToday := Some persisted\<rparr> | Some _ \<Rightarrow> a)"

text \<open>The \<open>reduce\<close>: the persisted count, or what a held admission read plus those held from it on.\<close>

fun judged_sent :: "nat \<Rightarrow> admission list \<Rightarrow> nat \<Rightarrow> nat" where
  "judged_sent persisted [] m = m"
| "judged_sent persisted (a # as) m = judged_sent persisted as (max m (the (sentToday (fill_sent persisted a)) + Suc (length as)))"

definition assertUnderDailyCap ::
    "int \<Rightarrow> string \<Rightarrow> int \<Rightarrow> nat \<Rightarrow> nat \<Rightarrow> pacing_state \<Rightarrow> pacing_error option \<times> pacing_state" where
  "assertUnderDailyCap now sessionId day allowance persisted st =
     (let (held, st1) = heldAdmissions now sessionId day st;
          sent = judged_sent persisted held persisted;
          st2 = set_held sessionId (map (fill_sent persisted) held) st1
      in if sent < allowance then (None, st2)
         else
           let retryAfter = (if persisted < allowance then secondsUntilLapsed now (map heldUntil held)
                             else secondsUntilNextUtcDay now);
               (e, st3) = refuse now daily_cap sessionId retryAfter st2
           in (Some e, st3))"

section \<open>The cold cap\<close>

definition fill_cold :: "nat \<Rightarrow> admission \<Rightarrow> admission" where
  "fill_cold persisted a =
     a\<lparr>cold := map_option (\<lambda>c. case coldToday c of None \<Rightarrow> c\<lparr>coldToday := Some persisted\<rparr> | Some _ \<Rightarrow> c) (cold a)\<rparr>"

text \<open>The loop from the newest admission to the oldest, with the distinct cold chats seen so far.\<close>

fun cold_scan :: "nat \<Rightarrow> admission list \<Rightarrow> string list \<Rightarrow> nat \<Rightarrow> nat" where
  "cold_scan persisted [] chats count = count"
| "cold_scan persisted (a # as) chats count =
     (case cold (fill_cold persisted a) of
        None \<Rightarrow> cold_scan persisted as chats count
      | Some c \<Rightarrow>
          let chats' = List.insert (cold_key c) chats
          in cold_scan persisted as chats' (max count (the (coldToday c) + length chats')))"

definition chatReachoutsToday :: "int \<Rightarrow> string \<Rightarrow> int \<Rightarrow> nat \<Rightarrow> pacing_state \<Rightarrow> nat \<times> pacing_state" where
  "chatReachoutsToday now sessionId day persisted st =
     (let (held, st1) = heldAdmissions now sessionId day st
      in (cold_scan persisted (rev held) [] persisted, set_held sessionId (map (fill_cold persisted) held) st1))"

definition groupReachoutsToday :: "string \<Rightarrow> int \<Rightarrow> pacing_state \<Rightarrow> nat" where
  "groupReachoutsToday sessionId day st =
     (case groupReachoutTally st sessionId of
        Some t \<Rightarrow> if tally_day t = day then tally_count t else 0
      | None \<Rightarrow> 0)"

definition coldHoldEnds :: "admission list \<Rightarrow> instant list" where
  "coldHoldEnds held = map until (filter (\<lambda>a. cold a \<noteq> None) held)"

definition assertUnderColdCap ::
    "int \<Rightarrow> string \<Rightarrow> int \<Rightarrow> nat \<Rightarrow> nat \<Rightarrow> pacing_state \<Rightarrow> pacing_error option \<times> pacing_state" where
  "assertUnderColdCap now sessionId day allowance persisted st =
     (let groupToday = groupReachoutsToday sessionId day st;
          (chats, st1) = chatReachoutsToday now sessionId day persisted st
      in if chats + groupToday < allowance then (None, st1)
         else if persisted + groupToday < allowance
         then (let (held, st2) = heldAdmissions now sessionId day st1;
                   (e, st3) = refuse now cold_daily_cap sessionId (secondsUntilLapsed now (coldHoldEnds held)) st2
               in (Some e, st3))
         else (let (e, st3) = refuse now cold_daily_cap sessionId (secondsUntilNextUtcDay now) st1 in (Some e, st3)))"

section \<open>Admitting a send\<close>

record send_opts =
  hold_opt :: "bool option"
  untilSettled :: bool
  whilePreparing :: bool

text \<open>
  Where a check stands: refused, allowed (with the admission its settle closure closes over, when it
  held one), or awaiting the session row, the day's count or the cold reads.
\<close>

datatype send_outcome =
    Refused pacing_error
  | Allowed "nat option"
  | AwaitSession
  | AwaitCount int int nat
  | AwaitCold int int nat nat

definition send_begin :: "send_pacing_config \<Rightarrow> int \<Rightarrow> string \<Rightarrow> pacing_state \<Rightarrow> send_outcome \<times> pacing_state" where
  "send_begin cfg now sessionId st =
     (if \<not> enabled cfg then (Allowed None, st)
      else case assertBreakerClosed cfg now sessionId st of
             (Some e, st') \<Rightarrow> (Refused e, st')
           | (None, st') \<Rightarrow> (AwaitSession, st'))"

text \<open>The session row answered: \<open>None\<close> when there is none, otherwise its \<open>createdAt\<close>.\<close>

definition send_session :: "send_pacing_config \<Rightarrow> int \<Rightarrow> int option \<Rightarrow> send_outcome" where
  "send_session cfg now session =
     (case session of
        None \<Rightarrow> Allowed None
      | Some created \<Rightarrow>
          let day = startOfUtcDay now;
              age = ageInDays day created
          in AwaitCount day age (allowanceForAge (warmupSchedule cfg) age))"

definition send_counted ::
    "send_pacing_config \<Rightarrow> int \<Rightarrow> string \<Rightarrow> int \<Rightarrow> int \<Rightarrow> nat \<Rightarrow> nat \<Rightarrow> pacing_state \<Rightarrow> send_outcome \<times> pacing_state" where
  "send_counted cfg now sessionId day age allowance count st =
     (if startOfUtcDay now \<noteq> day then send_begin cfg now sessionId st
      else case assertUnderDailyCap now sessionId day allowance count st of
             (Some e, st') \<Rightarrow> (Refused e, st')
           | (None, st') \<Rightarrow> (AwaitCold day age allowance count, st'))"

definition term_end :: "int \<Rightarrow> send_opts \<Rightarrow> instant" where
  "term_end now opts =
     (if whilePreparing opts then Infinity
      else At (now + (if untilSettled opts then UNSETTLED_ADMISSION_MAX_MS else ADMISSION_WINDOW_MS)))"

definition admit :: "int \<Rightarrow> string \<Rightarrow> int \<Rightarrow> send_opts \<Rightarrow> nat \<Rightarrow> (string \<times> nat) option \<Rightarrow> pacing_state \<Rightarrow> nat \<times> pacing_state" where
  "admit now sessionId day opts count coldTerm st =
     (let end1 = term_end now opts;
          i = next_aid st;
          a = \<lparr>aid = i, until = end1, unsettled = untilSettled opts, heldUntil = end1, sentToday = Some count,
               cold = map_option (\<lambda>(k, n). \<lparr>cold_key = k, coldToday = Some n\<rparr>) coldTerm\<rparr>;
          h = (case holds st sessionId of
                 Some h \<Rightarrow> if dayStartMs h = day then h\<lparr>admissions := admissions h @ [a]\<rparr>
                           else \<lparr>dayStartMs = day, admissions = [a]\<rparr>
               | None \<Rightarrow> \<lparr>dayStartMs = day, admissions = [a]\<rparr>)
      in (i, st\<lparr>holds := (holds st)(sessionId \<mapsto> h), open_settles := i # open_settles st, next_aid := i + 1\<rparr>))"

definition cold_cap_check ::
    "int \<Rightarrow> string \<Rightarrow> int \<Rightarrow> string \<Rightarrow> (nat \<times> nat) option \<Rightarrow> pacing_state \<Rightarrow> pacing_error option \<times> pacing_state" where
  "cold_cap_check now sessionId day key coldRead st =
     (case coldRead of
        None \<Rightarrow> (None, st)
      | Some (allowance, n) \<Rightarrow>
          let (held, st1) = heldAdmissions now sessionId day st
          in if list_ex (\<lambda>a. map_option cold_key (cold a) = Some key) held then (None, st1)
             else assertUnderColdCap now sessionId day allowance n st1)"

definition send_probed ::
    "send_pacing_config \<Rightarrow> int \<Rightarrow> string \<Rightarrow> string option \<Rightarrow> send_opts \<Rightarrow> int \<Rightarrow> int \<Rightarrow> nat \<Rightarrow> nat
       \<Rightarrow> (nat \<times> nat) option \<Rightarrow> pacing_state \<Rightarrow> send_outcome \<times> pacing_state" where
  "send_probed cfg now sessionId chatId opts day age allowance count coldRead st =
     (if startOfUtcDay now \<noteq> day then send_begin cfg now sessionId st
      else case assertUnderDailyCap now sessionId day allowance count st of
             (Some e, st1) \<Rightarrow> (Refused e, st1)
           | (None, st1) \<Rightarrow>
               if \<not> truthy chatId then (Allowed None, st1)
               else
                 let key = coldChatKey (the chatId)
                 in case cold_cap_check now sessionId day key coldRead st1 of
                      (Some e, st2) \<Rightarrow> (Refused e, st2)
                    | (None, st2) \<Rightarrow>
                        if hold_opt opts = Some False then (Allowed None, st2)
                        else
                          let (i, st3) = admit now sessionId day opts count (map_option (\<lambda>(_, n). (key, n)) coldRead) st2
                          in (Allowed (Some i), st3))"

section \<open>Settling an admission\<close>

definition settle_in :: "int \<Rightarrow> nat \<Rightarrow> bool \<Rightarrow> admission list \<Rightarrow> admission list" where
  "settle_in now i mayHaveSent as =
     (if mayHaveSent
      then map (\<lambda>a. if aid a = i then a\<lparr>unsettled := False, until := At (now + ADMISSION_WINDOW_MS)\<rparr> else a) as
      else filter (\<lambda>a. aid a \<noteq> i) as)"

text \<open>
  The closure \<open>assertSendAllowed\<close> returns. An admission no longer in the session's hold is mutated
  out of sight, which changes nothing a later check reads.
\<close>

definition settle :: "int \<Rightarrow> string \<Rightarrow> nat \<Rightarrow> bool \<Rightarrow> pacing_state \<Rightarrow> pacing_state" where
  "settle now sessionId i mayHaveSent st =
     (if i \<notin> set (open_settles st) then st
      else
        let st1 = st\<lparr>open_settles := removeAll i (open_settles st)\<rparr>
        in case holds st sessionId of
             None \<Rightarrow> st1
           | Some h \<Rightarrow>
               let as = settle_in now i mayHaveSent (admissions h)
               in if as = [] \<and> admissions h \<noteq> [] then st1\<lparr>holds := (holds st)(sessionId := None)\<rparr>
                  else st1\<lparr>holds := (holds st)(sessionId \<mapsto> h\<lparr>admissions := as\<rparr>)\<rparr>)"

section \<open>Group-add reachouts\<close>

record reachout_reservation =
  coldCount :: nat
  res_day :: int

definition NO_RESERVATION :: reachout_reservation where
  "NO_RESERVATION = \<lparr>coldCount = 0, res_day = 0\<rparr>"

definition addGroupReachouts :: "string \<Rightarrow> int \<Rightarrow> nat \<Rightarrow> pacing_state \<Rightarrow> pacing_state" where
  "addGroupReachouts sessionId day n st =
     (let t = (case groupReachoutTally st sessionId of
                 Some t \<Rightarrow> if tally_day t = day then t\<lparr>tally_count := tally_count t + n\<rparr> else \<lparr>tally_day = day, tally_count = n\<rparr>
               | None \<Rightarrow> \<lparr>tally_day = day, tally_count = n\<rparr>)
      in st\<lparr>groupReachoutTally := (groupReachoutTally st)(sessionId \<mapsto> t)\<rparr>)"

definition refundGroupReachouts :: "string \<Rightarrow> reachout_reservation \<Rightarrow> pacing_state \<Rightarrow> pacing_state" where
  "refundGroupReachouts sessionId r st =
     (if coldCount r = 0 then st
      else case groupReachoutTally st sessionId of
             None \<Rightarrow> st
           | Some t \<Rightarrow>
               if tally_day t \<noteq> res_day r then st
               else st\<lparr>groupReachoutTally := (groupReachoutTally st)
                         (sessionId \<mapsto> t\<lparr>tally_count := tally_count t - coldCount r\<rparr>)\<rparr>)"

text \<open>The contacts of the batch with no history under any stored form.\<close>

definition strangers :: "snapshots \<Rightarrow> lid_store \<Rightarrow> string \<Rightarrow> string list \<Rightarrow> nat" where
  "strangers snap store sessionId contactIds =
     (let unique = js_set (map toParticipantWid contactIds);
          forms = storedForms store unique;
          ids = js_set (concat (map snd forms));
          known = map msg_chat (filter (\<lambda>m. msg_session m = sessionId \<and> msg_chat m \<in> set ids) (snap KnownProbe))
      in length (filter (\<lambda>i. \<not> list_ex (\<lambda>v. v \<in> set known) (form_list forms i)) unique))"

datatype reachout_outcome =
    ReachoutRefused pacing_error
  | Reserved reachout_reservation
  | AwaitKnown
  | AwaitReachoutSession nat
  | AwaitColdCount nat int int nat

definition reachout_begin ::
    "send_pacing_config \<Rightarrow> int \<Rightarrow> string \<Rightarrow> string list \<Rightarrow> pacing_state \<Rightarrow> reachout_outcome \<times> pacing_state" where
  "reachout_begin cfg now sessionId contactIds st =
     (if \<not> enabled cfg then (Reserved NO_RESERVATION, st)
      else case assertBreakerClosed cfg now sessionId st of
             (Some e, st') \<Rightarrow> (ReachoutRefused e, st')
           | (None, st') \<Rightarrow>
               if coldSchedule cfg = [] \<or> contactIds = [] then (Reserved NO_RESERVATION, st') else (AwaitKnown, st'))"

definition reachout_known :: "nat \<Rightarrow> reachout_outcome" where
  "reachout_known n = (if n = 0 then Reserved NO_RESERVATION else AwaitReachoutSession n)"

definition reachout_session :: "send_pacing_config \<Rightarrow> int \<Rightarrow> nat \<Rightarrow> int option \<Rightarrow> reachout_outcome" where
  "reachout_session cfg now n session =
     (case session of
        None \<Rightarrow> Reserved NO_RESERVATION
      | Some created \<Rightarrow>
          let day = startOfUtcDay now;
              age = ageInDays day created;
              allowance = allowanceForAge (coldSchedule cfg) age
          in if allowance < n then ReachoutRefused (SplitRequest n allowance) else AwaitColdCount n day age allowance)"

definition reachout_counted ::
    "send_pacing_config \<Rightarrow> int \<Rightarrow> string \<Rightarrow> string list \<Rightarrow> nat \<Rightarrow> int \<Rightarrow> int \<Rightarrow> nat \<Rightarrow> nat \<Rightarrow> pacing_state
       \<Rightarrow> reachout_outcome \<times> pacing_state" where
  "reachout_counted cfg now sessionId contactIds n day age allowance coldChats st =
     (if startOfUtcDay now \<noteq> day then reachout_begin cfg now sessionId contactIds st
      else
        let groupToday = groupReachoutsToday sessionId day st;
            (chats, st1) = chatReachoutsToday now sessionId day coldChats st
        in if chats + groupToday + n \<le> allowance
           then (Reserved \<lparr>coldCount = n, res_day = day\<rparr>, addGroupReachouts sessionId day n st1)
           else if coldChats + groupToday + n \<le> allowance
           then (let (held, st2) = heldAdmissions now sessionId day st1;
                     (e, st3) = refuse now cold_daily_cap sessionId (secondsUntilLapsed now (coldHoldEnds held)) st2
                 in (ReachoutRefused e, st3))
           else (let (e, st3) = refuse now cold_daily_cap sessionId (secondsUntilNextUtcDay now) st1
                 in (ReachoutRefused e, st3)))"

end
