(* ===== verification/Pacing_Runs.thy ===== *)
theory Pacing_Runs
  imports Send_Pacing
begin

text \<open>
  What the governor promises of one session over one UTC day: however the checks, their reads, the
  rows and the settles interleave, the rows written plus the rows still due never exceed the day's
  allowance. The steps below are the synchronous segments of \<open>Send_Pacing\<close> and the moments
  between them; the properties rest on what each segment keeps of the session's hold.
\<close>

section \<open>What a segment keeps of the hold\<close>

definition held_list :: "string \<Rightarrow> pacing_state \<Rightarrow> admission list" where
  "held_list sid st = (case holds st sid of None \<Rightarrow> [] | Some h \<Rightarrow> admissions h)"

text \<open>The part of a hold the daily cap is judged by.\<close>

type_synonym held_view = "(nat \<times> instant \<times> nat option) list"

definition view :: "string \<Rightarrow> pacing_state \<Rightarrow> held_view" where
  "view sid st = map (\<lambda>a. (aid a, until a, sentToday a)) (held_list sid st)"

definition on_day :: "string \<Rightarrow> int \<Rightarrow> pacing_state \<Rightarrow> bool" where
  "on_day sid day st \<longleftrightarrow> (case holds st sid of None \<Rightarrow> True | Some h \<Rightarrow> dayStartMs h = day)"

definition counts_read :: "held_view \<Rightarrow> bool" where
  "counts_read v \<longleftrightarrow> (\<forall>(i, u, c) \<in> set v. c \<noteq> None)"

text \<open>
  A segment at \<open>now\<close> keeps the hold when it leaves the view alone, or drops it whole once every term
  in it has ended.
\<close>

definition keeps :: "int \<Rightarrow> string \<Rightarrow> int \<Rightarrow> pacing_state \<Rightarrow> pacing_state \<Rightarrow> bool" where
  "keeps now sid day st st' \<longleftrightarrow>
     (on_day sid day st \<and> counts_read (view sid st) \<longrightarrow>
        (view sid st' = view sid st \<or> view sid st' = [] \<and> (\<forall>(i, u, c) \<in> set (view sid st). u \<le> At now))
        \<and> on_day sid day st' \<and> next_aid st' = next_aid st)"

lemma keeps_refl [intro]: "keeps now sid day st st"
  by (simp add: keeps_def)

lemma keeps_trans [trans]: "keeps now sid day st st1 \<Longrightarrow> keeps now sid day st1 st2 \<Longrightarrow> keeps now sid day st st2"
  by (auto simp: keeps_def counts_read_def)

lemma keeps_frame: "holds st' sid = holds st sid \<Longrightarrow> next_aid st' = next_aid st \<Longrightarrow> keeps now sid day st st'"
  by (simp add: keeps_def view_def held_list_def on_day_def)

lemma chain_held_view [simp]:
  "map (\<lambda>a. (aid a, until a, sentToday a)) (chain_held as) = map (\<lambda>a. (aid a, until a, sentToday a)) as"
  by (induction as) (simp_all add: Let_def)

lemma lapse_cold_view [simp]:
  "map (\<lambda>a. (aid a, until a, sentToday a)) (lapse_cold now as) = map (\<lambda>a. (aid a, until a, sentToday a)) as"
  by (simp add: lapse_cold_def comp_def)

lemma chain_held_head: "chain_held as = b # bs \<Longrightarrow> a \<in> set as \<Longrightarrow> until a \<le> heldUntil b"
proof (induction as arbitrary: b bs)
  case (Cons x as)
  show ?case
  proof (cases "chain_held as")
    case Nil
    then have "as = []"
      by (cases as) (simp_all add: Let_def)
    with Cons.prems show ?thesis
      by auto
  next
    case (Cons c cs)
    with Cons.IH [OF Cons] Cons.prems show ?thesis
      by (auto simp: Let_def le_max_iff_disj)
  qed
qed simp

lemma heldAdmissions_view:
  assumes "heldAdmissions now sid day st = (held, st')" and "on_day sid day st"
  shows "map (\<lambda>a. (aid a, until a, sentToday a)) held = view sid st'" and "keeps now sid day st st'"
    and "held = held_list sid st'"
proof -
  have "held = held_list sid st' \<and> keeps now sid day st st'"
  proof (cases "holds st sid")
    case None
    with assms(1) show ?thesis
      by (auto simp: heldAdmissions_def held_list_def)
  next
    case (Some h)
    with assms(2) have day: "dayStartMs h = day"
      by (simp add: on_day_def)
    let ?as = "chain_held (lapse_cold now (admissions h))"
    have v: "map (\<lambda>a. (aid a, until a, sentToday a)) ?as = view sid st"
      by (simp add: view_def held_list_def Some)
    show ?thesis
    proof (cases "?as \<noteq> [] \<and> At now < heldUntil (hd ?as)")
      case True
      then have "held = ?as" "st' = st\<lparr>holds := (holds st)(sid \<mapsto> h\<lparr>admissions := ?as\<rparr>)\<rparr>"
        using assms(1) by (auto simp: heldAdmissions_def Some carry_over_def day Let_def split: list.splits)
      then show ?thesis
        using v day by (simp add: held_list_def keeps_def on_day_def) (simp add: view_def held_list_def)
    next
      case False
      then have *: "held = []" "st' = st\<lparr>holds := (holds st)(sid := None)\<rparr>"
        using assms(1) by (auto simp: heldAdmissions_def Some carry_over_def day Let_def split: list.splits if_splits)
      have "u \<le> At now" if "(i, u, c) \<in> set (view sid st)" for i u c
      proof -
        have "(i, u, c) \<in> (\<lambda>a. (aid a, until a, sentToday a)) ` set (lapse_cold now (admissions h))"
          using that by (simp add: view_def held_list_def Some flip: set_map)
        then obtain a where a: "a \<in> set (lapse_cold now (admissions h))" "until a = u"
          by blast
        then have "?as \<noteq> []"
          by (cases "lapse_cold now (admissions h)") (auto simp: Let_def)
        with False chain_held_head [of "lapse_cold now (admissions h)" "hd ?as" "tl ?as" a] a show ?thesis
          by (auto intro: order_trans)
      qed
      moreover have "view sid st' = []" "on_day sid day st'" "next_aid st' = next_aid st" "held_list sid st' = []"
        by (simp_all add: *(2) view_def held_list_def on_day_def)
      ultimately show ?thesis
        using *(1) by (auto simp: keeps_def)
    qed
  qed
  then show "map (\<lambda>a. (aid a, until a, sentToday a)) held = view sid st'" "keeps now sid day st st'" "held = held_list sid st'"
    by (simp_all add: view_def)
qed

lemma keeps_heldAdmissions: "heldAdmissions now sid day st = (held, st') \<Longrightarrow> keeps now sid day st st'"
  using heldAdmissions_view(2) [of now sid day st held st'] by (auto simp: keeps_def)

lemma fill_sent_view:
  "counts_read (map (\<lambda>a. (aid a, until a, sentToday a)) as) \<Longrightarrow> map (fill_sent n) as = as"
  by (induction as) (auto simp: counts_read_def fill_sent_def split: option.splits)

lemma keeps_counts: "keeps now sid day st st' \<Longrightarrow> on_day sid day st \<Longrightarrow> counts_read (view sid st) \<Longrightarrow>
    on_day sid day st' \<and> counts_read (view sid st')"
  by (auto simp: keeps_def counts_read_def)

lemma keeps_set_held:
  assumes "map (\<lambda>a. (aid a, until a, sentToday a)) as = view sid st"
  shows "keeps now sid day st (set_held sid as st)"
  using assms by (cases "holds st sid") (auto simp: keeps_def set_held_def on_day_def view_def held_list_def)

lemma refuse_frame [simp]:
  "holds (snd (refuse now r s k st)) = holds st" "next_aid (snd (refuse now r s k st)) = next_aid st"
  "groupReachoutTally (snd (refuse now r s k st)) = groupReachoutTally st"
  by (auto simp: refuse_def auditRefusal_def incrementSendPacingRefusals_def Let_def split: option.splits)

lemma keeps_refuse: "refuse now r s k st = (e, st') \<Longrightarrow> keeps now sid day st st'"
  using refuse_frame [of now r s k st] by (simp add: keeps_frame)

lemma keeps_breaker: "assertBreakerClosed cfg now s st = (e, st') \<Longrightarrow> keeps now sid day st st'"
  by (auto simp: assertBreakerClosed_def intro: keeps_frame keeps_refuse split: option.splits if_splits prod.splits)

lemma judged_sent_ge: "m \<le> judged_sent n as m"
proof (induction as arbitrary: m)
  case (Cons a as)
  show ?case
    using Cons.IH [of "max m (the (sentToday (fill_sent n a)) + Suc (length as))"] by simp
qed simp

lemma judged_sent_head:
  assumes "sentToday a = Some c"
  shows "c + Suc (length as) \<le> judged_sent n (a # as) m"
  using assms judged_sent_ge [of "max m (c + Suc (length as))" n as] by (simp add: fill_sent_def)

text \<open>
  The daily cap. A send that passes is below the allowance by its own count, and by the count the
  oldest held admission read plus everything held since.
\<close>

lemma daily_cap_spec:
  assumes "assertUnderDailyCap now sid day allowance n st = (e, st')"
  shows "keeps now sid day st st'"
    and "e = None \<Longrightarrow> on_day sid day st \<Longrightarrow> counts_read (view sid st) \<Longrightarrow>
      n < allowance \<and> (case view sid st' of [] \<Rightarrow> True | (i, u, c) # v \<Rightarrow> the c + Suc (length v) < allowance)"
proof -
  obtain held st1 where h: "heldAdmissions now sid day st = (held, st1)"
    by fastforce
  define st2 where "st2 = set_held sid (map (fill_sent n) held) st1"
  show keep: "keeps now sid day st st'"
  proof (cases "on_day sid day st \<and> counts_read (view sid st)")
    case True
    note hv = heldAdmissions_view [OF h conjunct1 [OF True]]
    have "counts_read (view sid st1)"
      using keeps_counts [OF hv(2)] True by blast
    then have "map (fill_sent n) held = held"
      by (intro fill_sent_view) (simp add: hv(1))
    then have "keeps now sid day st1 st2"
      unfolding st2_def by (simp add: keeps_set_held hv(1))
    moreover have "keeps now sid day st2 st'"
      using assms by (auto simp: assertUnderDailyCap_def h Let_def st2_def intro: keeps_refuse split: if_splits prod.splits)
    ultimately show ?thesis
      using hv(2) by (blast intro: keeps_trans)
  qed (auto simp: keeps_def)
  show "n < allowance \<and> (case view sid st' of [] \<Rightarrow> True | (i, u, c) # v \<Rightarrow> the c + Suc (length v) < allowance)"
    if "e = None" and d: "on_day sid day st" and c: "counts_read (view sid st)"
  proof -
    note hv = heldAdmissions_view [OF h d]
    have c1: "counts_read (view sid st1)"
      using keeps_counts [OF hv(2) d c] by blast
    then have f: "map (fill_sent n) held = held"
      by (intro fill_sent_view) (simp add: hv(1))
    have lt: "judged_sent n held n < allowance" and st': "st' = st2"
      using assms \<open>e = None\<close> by (auto simp: assertUnderDailyCap_def h Let_def st2_def split: if_splits prod.splits)
    have "view sid st' = view sid st1"
      unfolding st' st2_def f using hv(3) by (auto simp: set_held_def view_def held_list_def split: option.splits)
    moreover have "n < allowance"
      using lt judged_sent_ge [of n n held] by simp
    moreover have "the c' + Suc (length v) < allowance" if v: "view sid st1 = (i, u, c') # v" for i u c' v
    proof -
      from v hv(1) obtain a as where a: "held = a # as" "sentToday a = c'" "length as = length v"
        by (auto simp: map_eq_Cons_conv)
      moreover have "c' \<noteq> None"
        using c1 v by (simp add: counts_read_def)
      ultimately show ?thesis
        using lt judged_sent_head [of a "the c'" as n n] by simp
    qed
    ultimately show ?thesis
      by (auto split: list.splits)
  qed
qed

lemma keeps_chatReachouts:
  assumes "chatReachoutsToday now sid day n st = (k, st')"
  shows "keeps now sid day st st'"
proof (cases "on_day sid day st")
  case True
  obtain held st1 where h: "heldAdmissions now sid day st = (held, st1)"
    by fastforce
  note hv = heldAdmissions_view [OF h True]
  have "map (\<lambda>a. (aid a, until a, sentToday a)) (map (fill_cold n) held) = view sid st1"
    by (simp add: comp_def fill_cold_def hv(1))
  from keeps_trans [OF hv(2) keeps_set_held [OF this]] show ?thesis
    using assms by (simp add: chatReachoutsToday_def h)
qed (simp add: keeps_def)

lemma keeps_cold_cap: "assertUnderColdCap now sid day a n st = (e, st') \<Longrightarrow> keeps now sid day st st'"
  by (auto simp: assertUnderColdCap_def Let_def dest!: keeps_chatReachouts keeps_heldAdmissions
      keeps_refuse [where sid = sid and day = day] intro: keeps_trans split: prod.splits if_splits)

lemma keeps_cold_check: "cold_cap_check now sid day key c st = (e, st') \<Longrightarrow> keeps now sid day st st'"
  by (auto simp: cold_cap_check_def intro: keeps_trans keeps_heldAdmissions keeps_cold_cap
      split: option.splits prod.splits if_splits)

lemma keeps_begin: "send_begin cfg now sid st = (out, st') \<Longrightarrow> keeps now sid day st st'"
  by (auto simp: send_begin_def intro: keeps_breaker split: option.splits prod.splits if_splits)

section \<open>Interleaved sends of one session\<close>

text \<open>
  A check in flight: awaiting the session row, awaiting the day's count, holding the count it read and
  when it was read (its continuation not run yet), or awaiting the cold reads.
\<close>

datatype flight =
    ReadingSession
  | ReadingCount int int nat
  | CountAnswered int int nat nat int
  | ReadingCold int int nat nat int

text \<open>
  The gateway as one session sees it. \<open>terms\<close> is what the callers know of their admissions: the end
  of each one's own term, moved by the settle that says a row may have landed and removed by a
  hand-back; \<open>landed\<close> is when each admission's row was written.
\<close>

record pacing_world =
  clock :: int
  service :: pacing_state
  flights :: "flight list"
  messages :: message_table
  terms :: "nat \<rightharpoonup> instant"
  landed :: "nat \<rightharpoonup> int"

definition flight_after :: "int \<Rightarrow> send_outcome \<Rightarrow> flight list" where
  "flight_after read out =
     (case out of
        AwaitSession \<Rightarrow> [ReadingSession]
      | AwaitCount d a k \<Rightarrow> [ReadingCount d a k]
      | AwaitCold d a k n \<Rightarrow> [ReadingCold d a k n read]
      | _ \<Rightarrow> [])"

definition terms_after :: "int \<Rightarrow> send_opts \<Rightarrow> send_outcome \<Rightarrow> (nat \<rightharpoonup> instant) \<Rightarrow> (nat \<rightharpoonup> instant)" where
  "terms_after now opts out ts = (case out of Allowed (Some i) \<Rightarrow> ts(i \<mapsto> term_end now opts) | _ \<Rightarrow> ts)"

text \<open>
  One step. \<open>gap\<close> bounds the time a count is used for: a check that is admitted is admitted within
  \<open>gap\<close> of reading its count, and a row lands more than \<open>gap\<close> before its admission's term ends.
  \<open>other\<close> is anything else the service does, on other sessions, breakers, tallies or samples;
  \<open>foreign\<close> any row that is not an outgoing row of this session. The cold reads may answer
  anything. A caller settles an admission as possibly sent before its term ends. The clock stays
  within the day.
\<close>

inductive pacing_step :: "send_pacing_config \<Rightarrow> string \<Rightarrow> int \<Rightarrow> int \<Rightarrow> pacing_world \<Rightarrow> pacing_world \<Rightarrow> bool"
  for cfg sid created gap where
  tick: "clock w \<le> t \<Longrightarrow> startOfUtcDay t = startOfUtcDay (clock w) \<Longrightarrow> pacing_step cfg sid created gap w (w\<lparr>clock := t\<rparr>)"
| other: "holds st sid = holds (service w) sid \<Longrightarrow> next_aid (service w) \<le> next_aid st \<Longrightarrow>
    pacing_step cfg sid created gap w (w\<lparr>service := st\<rparr>)"
| foreign: "msg_session m \<noteq> sid \<or> direction m = INCOMING \<Longrightarrow>
    pacing_step cfg sid created gap w (w\<lparr>messages := messages w @ [m]\<rparr>)"
| begins: "send_begin cfg (clock w) sid (service w) = (out, st) \<Longrightarrow>
    pacing_step cfg sid created gap w (w\<lparr>service := st, flights := flights w @ flight_after (clock w) out\<rparr>)"
| session_read: "flights w = fs @ ReadingSession # gs \<Longrightarrow>
    pacing_step cfg sid created gap w
      (w\<lparr>flights := fs @ flight_after (clock w) (send_session cfg (clock w) (Some created)) @ gs\<rparr>)"
| count_read: "flights w = fs @ ReadingCount d a k # gs \<Longrightarrow>
    pacing_step cfg sid created gap w
      (w\<lparr>flights := fs @ CountAnswered d a k (sentTodayCount (messages w) sid d) (clock w) # gs\<rparr>)"
| counted: "flights w = fs @ CountAnswered d a k n r # gs \<Longrightarrow>
    send_counted cfg (clock w) sid d a k n (service w) = (out, st) \<Longrightarrow>
    pacing_step cfg sid created gap w (w\<lparr>service := st, flights := fs @ flight_after r out @ gs\<rparr>)"
| probed: "flights w = fs @ ReadingCold d a k n r # gs \<Longrightarrow> clock w \<le> r + gap \<Longrightarrow>
    send_probed cfg (clock w) sid chat opts d a k n coldRead (service w) = (out, st) \<Longrightarrow>
    pacing_step cfg sid created gap w
      (w\<lparr>service := st, terms := terms_after (clock w) opts out (terms w),
         flights := fs @ flight_after r out @ gs\<rparr>)"
| abandoned: "flights w = fs @ f # gs \<Longrightarrow> pacing_step cfg sid created gap w (w\<lparr>flights := fs @ gs\<rparr>)"
| lands: "terms w i = Some u \<Longrightarrow> At (clock w + gap) < u \<Longrightarrow> landed w i = None \<Longrightarrow>
    msg_session m = sid \<Longrightarrow> direction m = OUTGOING \<Longrightarrow> createdAt m = clock w \<Longrightarrow>
    pacing_step cfg sid created gap w (w\<lparr>messages := messages w @ [m], landed := (landed w)(i \<mapsto> clock w)\<rparr>)"
| settled: "terms w i = Some u \<Longrightarrow> At (clock w) < u \<Longrightarrow> i \<in> set (open_settles (service w)) \<Longrightarrow>
    pacing_step cfg sid created gap w
      (w\<lparr>service := settle (clock w) sid i True (service w),
         terms := (terms w)(i \<mapsto> At (clock w + ADMISSION_WINDOW_MS))\<rparr>)"
| handed_back: "terms w i \<noteq> None \<Longrightarrow> landed w i = None \<Longrightarrow> i \<in> set (open_settles (service w)) \<Longrightarrow>
    pacing_step cfg sid created gap w
      (w\<lparr>service := settle (clock w) sid i False (service w), terms := (terms w)(i := None)\<rparr>)"

inductive pacing_reach :: "send_pacing_config \<Rightarrow> string \<Rightarrow> int \<Rightarrow> int \<Rightarrow> pacing_world \<Rightarrow> pacing_world \<Rightarrow> bool"
  for cfg sid created gap w0 where
  start: "pacing_reach cfg sid created gap w0 w0"
| step: "pacing_reach cfg sid created gap w0 w \<Longrightarrow> pacing_step cfg sid created gap w w' \<Longrightarrow>
    pacing_reach cfg sid created gap w0 w'"

text \<open>The rows still due: admissions without a row whose row may yet land.\<close>

definition rows_due :: "int \<Rightarrow> pacing_world \<Rightarrow> nat set" where
  "rows_due gap w = {i. landed w i = None \<and> (\<exists>u. terms w i = Some u \<and> At (clock w + gap) < u)}"

definition fresh_start :: "string \<Rightarrow> pacing_world \<Rightarrow> bool" where
  "fresh_start sid w \<longleftrightarrow> holds (service w) sid = None \<and> flights w = [] \<and> terms w = Map.empty \<and> landed w = Map.empty"

section \<open>The invariant\<close>

definition landed_since :: "pacing_world \<Rightarrow> int \<Rightarrow> held_view \<Rightarrow> nat" where
  "landed_since w r v = length (filter (\<lambda>(i, u, c). \<exists>t. landed w i = Some t \<and> r \<le> t) v)"

definition landed_in :: "pacing_world \<Rightarrow> held_view \<Rightarrow> nat" where
  "landed_in w v = length (filter (\<lambda>(i, u, c). landed w i \<noteq> None) v)"

text \<open>
  A count in use misses only rows of admissions that are still held, and those landed since it was
  read; the count a held admission read misses only rows of admissions still held.
\<close>

definition flight_ok :: "int \<Rightarrow> int \<Rightarrow> nat \<Rightarrow> nat \<Rightarrow> pacing_world \<Rightarrow> held_view \<Rightarrow> flight \<Rightarrow> bool" where
  "flight_ok gap day A rows w v f =
     (case f of
        ReadingSession \<Rightarrow> True
      | ReadingCount d a k \<Rightarrow> d = day \<and> k = A
      | CountAnswered d a k n r \<Rightarrow> d = day \<and> k = A \<and> r \<le> clock w \<and> (clock w \<le> r + gap \<longrightarrow> rows \<le> n + landed_since w r v)
      | ReadingCold d a k n r \<Rightarrow> d = day \<and> k = A \<and> r \<le> clock w \<and> (clock w \<le> r + gap \<longrightarrow> rows \<le> n + landed_since w r v))"

definition held_ok :: "int \<Rightarrow> nat \<Rightarrow> pacing_world \<Rightarrow> held_view \<Rightarrow> nat \<times> instant \<times> nat option \<Rightarrow> bool" where
  "held_ok gap rows w v e =
     (case e of (i, u, c) \<Rightarrow>
        i < next_aid (service w) \<and> terms w i = Some u \<and> c \<noteq> None \<and> rows \<le> the c + landed_in w v
        \<and> (\<forall>t. landed w i = Some t \<longrightarrow> t \<le> clock w \<and> At (t + gap) < u))"

definition pacing_inv :: "send_pacing_config \<Rightarrow> string \<Rightarrow> int \<Rightarrow> int \<Rightarrow> int \<Rightarrow> pacing_world \<Rightarrow> bool" where
  "pacing_inv cfg sid created gap day w \<longleftrightarrow>
     (let v = view sid (service w);
          rows = sentTodayCount (messages w) sid day;
          A = allowanceForAge (warmupSchedule cfg) (ageInDays day created)
      in startOfUtcDay (clock w) = day \<and> on_day sid day (service w)
         \<and> distinct (map fst v)
         \<and> (\<forall>e \<in> set v. held_ok gap rows w v e)
         \<and> (\<forall>f \<in> set (flights w). flight_ok gap day A rows w v f)
         \<and> (\<forall>i u. terms w i = Some u \<longrightarrow> i < next_aid (service w) \<and> (At (clock w) < u \<longrightarrow> i \<in> fst ` set v))
         \<and> (\<forall>i. landed w i \<noteq> None \<longrightarrow> i < next_aid (service w))
         \<and> rows + (length v - landed_in w v) \<le> A)"

abbreviation rows_of :: "string \<Rightarrow> int \<Rightarrow> pacing_world \<Rightarrow> nat" where
  "rows_of sid day w \<equiv> sentTodayCount (messages w) sid day"

abbreviation day_allowance :: "send_pacing_config \<Rightarrow> int \<Rightarrow> int \<Rightarrow> nat" where
  "day_allowance cfg day created \<equiv> allowanceForAge (warmupSchedule cfg) (ageInDays day created)"

lemma pacing_invI:
  assumes "startOfUtcDay (clock w) = day" "on_day sid day (service w)" "distinct (map fst (view sid (service w)))"
    and "\<And>e. e \<in> set (view sid (service w)) \<Longrightarrow> held_ok gap (rows_of sid day w) w (view sid (service w)) e"
    and "\<And>f. f \<in> set (flights w) \<Longrightarrow>
      flight_ok gap day (day_allowance cfg day created) (rows_of sid day w) w (view sid (service w)) f"
    and "\<And>i u. terms w i = Some u \<Longrightarrow> i < next_aid (service w)"
    and "\<And>i u. terms w i = Some u \<Longrightarrow> At (clock w) < u \<Longrightarrow> i \<in> fst ` set (view sid (service w))"
    and "\<And>i t. landed w i = Some t \<Longrightarrow> i < next_aid (service w)"
    and "rows_of sid day w + (length (view sid (service w)) - landed_in w (view sid (service w))) \<le> day_allowance cfg day created"
  shows "pacing_inv cfg sid created gap day w"
  unfolding pacing_inv_def Let_def using assms by blast

lemma pacing_invD:
  assumes "pacing_inv cfg sid created gap day w"
  shows inv_day: "startOfUtcDay (clock w) = day" "on_day sid day (service w)"
    and inv_distinct: "distinct (map fst (view sid (service w)))"
    and inv_held: "e \<in> set (view sid (service w)) \<Longrightarrow> held_ok gap (rows_of sid day w) w (view sid (service w)) e"
    and inv_flight: "f \<in> set (flights w) \<Longrightarrow>
      flight_ok gap day (day_allowance cfg day created) (rows_of sid day w) w (view sid (service w)) f"
    and inv_terms: "terms w i = Some u \<Longrightarrow> i < next_aid (service w)"
      "terms w i = Some u \<Longrightarrow> At (clock w) < u \<Longrightarrow> i \<in> fst ` set (view sid (service w))"
    and inv_landed: "landed w i = Some t \<Longrightarrow> i < next_aid (service w)"
    and inv_bound: "rows_of sid day w + (length (view sid (service w)) - landed_in w (view sid (service w)))
      \<le> day_allowance cfg day created"
  using assms unfolding pacing_inv_def Let_def by blast+

lemma inv_counts: "pacing_inv cfg sid created gap day w \<Longrightarrow> counts_read (view sid (service w))"
  by (auto simp: counts_read_def held_ok_def dest: inv_held)

lemma flight_ok_frame [simp]:
  "flight_ok gap day A rows (w\<lparr>service := st\<rparr>) v f = flight_ok gap day A rows w v f"
  "flight_ok gap day A rows (w\<lparr>flights := fs\<rparr>) v f = flight_ok gap day A rows w v f"
  "flight_ok gap day A rows (w\<lparr>terms := ts\<rparr>) v f = flight_ok gap day A rows w v f"
  "flight_ok gap day A rows (w\<lparr>messages := ms\<rparr>) v f = flight_ok gap day A rows w v f"
  by (simp_all add: flight_ok_def landed_since_def split: flight.splits)

lemma held_ok_frame [simp]:
  "held_ok gap rows (w\<lparr>flights := fs\<rparr>) v e = held_ok gap rows w v e"
  "held_ok gap rows (w\<lparr>messages := ms\<rparr>) v e = held_ok gap rows w v e"
  by (simp_all add: held_ok_def landed_in_def)

lemma held_ok_service:
  "held_ok gap rows w v e \<Longrightarrow> next_aid (service w) \<le> next_aid st \<Longrightarrow> held_ok gap rows (w\<lparr>service := st\<rparr>) v e"
  by (auto simp: held_ok_def landed_in_def)

lemma landed_cong [simp]:
  "landed_since (w\<lparr>service := st\<rparr>) r v = landed_since w r v" "landed_in (w\<lparr>service := st\<rparr>) v = landed_in w v"
  "landed_since (w\<lparr>flights := fs\<rparr>) r v = landed_since w r v" "landed_in (w\<lparr>flights := fs\<rparr>) v = landed_in w v"
  "landed_since (w\<lparr>clock := t\<rparr>) r v = landed_since w r v" "landed_in (w\<lparr>clock := t\<rparr>) v = landed_in w v"
  "landed_since (w\<lparr>messages := ms\<rparr>) r v = landed_since w r v" "landed_in (w\<lparr>messages := ms\<rparr>) v = landed_in w v"
  "landed_since (w\<lparr>terms := ts\<rparr>) r v = landed_since w r v" "landed_in (w\<lparr>terms := ts\<rparr>) v = landed_in w v"
  by (simp_all add: landed_since_def landed_in_def)

lemma landed_in_le: "landed_in w v \<le> length v"
  by (simp add: landed_in_def)

lemma landed_since_le: "landed_since w r v \<le> landed_in w v"
  unfolding landed_since_def landed_in_def by (induction v) auto

lemma landed_since_Nil [simp]: "landed_since w r [] = 0" "landed_in w [] = 0"
  by (simp_all add: landed_since_def landed_in_def)

lemma inv_same:
  assumes inv: "pacing_inv cfg sid created gap day w" and "view sid st = view sid (service w)" "on_day sid day st"
    and "next_aid (service w) \<le> next_aid st"
  shows "pacing_inv cfg sid created gap day (w\<lparr>service := st\<rparr>)"
proof (rule pacing_invI)
  show "i < next_aid (service (w\<lparr>service := st\<rparr>))" if "terms (w\<lparr>service := st\<rparr>) i = Some u" for i u
    using that inv_terms(1) [OF inv, of i u] assms(4) by simp
  show "i < next_aid (service (w\<lparr>service := st\<rparr>))" if "landed (w\<lparr>service := st\<rparr>) i = Some t" for i t
    using that inv_landed [OF inv, of i t] assms(4) by simp
qed (use assms pacing_invD [OF inv] in \<open>auto intro: held_ok_service\<close>)

text \<open>A hold that lapsed missed no row: each of its rows landed more than the gap before now.\<close>

lemma inv_lapse:
  assumes inv: "pacing_inv cfg sid created gap day w" and "view sid st = []" "on_day sid day st"
    and "next_aid (service w) = next_aid st"
    and over: "\<And>i u c. (i, u, c) \<in> set (view sid (service w)) \<Longrightarrow> u \<le> At (clock w)"
  shows "pacing_inv cfg sid created gap day (w\<lparr>service := st\<rparr>)"
proof (rule pacing_invI)
  have none: "landed_since w r (view sid (service w)) = 0" if "clock w \<le> r + gap" for r
  proof -
    have "\<not> r \<le> t" if e: "(i, u, c) \<in> set (view sid (service w))" and "landed w i = Some t" for i u c t
    proof -
      have "At (t + gap) < u"
        using inv_held [OF inv e] that(2) by (simp add: held_ok_def)
      then have "t + gap < clock w"
        using over [OF e] by (cases u) auto
      with \<open>clock w \<le> r + gap\<close> show ?thesis by simp
    qed
    then show ?thesis
      by (auto simp: landed_since_def filter_empty_conv)
  qed
  show "flight_ok gap day (day_allowance cfg day created) (rows_of sid day (w\<lparr>service := st\<rparr>)) (w\<lparr>service := st\<rparr>)
      (view sid (service (w\<lparr>service := st\<rparr>))) f" if "f \<in> set (flights (w\<lparr>service := st\<rparr>))" for f
    using inv_flight [OF inv, of f] that none \<open>view sid st = []\<close> by (auto simp: flight_ok_def split: flight.splits)
  show "i \<in> fst ` set (view sid (service (w\<lparr>service := st\<rparr>)))"
    if t: "terms (w\<lparr>service := st\<rparr>) i = Some u" and lt: "At (clock (w\<lparr>service := st\<rparr>)) < u" for i u
  proof -
    from inv_terms(2) [OF inv, of i u] t lt obtain u' c where e: "(i, u', c) \<in> set (view sid (service w))"
      by auto
    from inv_held [OF inv e] t over [OF e] lt show ?thesis
      by (auto simp: held_ok_def)
  qed
  show "rows_of sid day (w\<lparr>service := st\<rparr>) + (length (view sid (service (w\<lparr>service := st\<rparr>)))
      - landed_in (w\<lparr>service := st\<rparr>) (view sid (service (w\<lparr>service := st\<rparr>)))) \<le> day_allowance cfg day created"
    using inv_bound [OF inv] by (simp add: \<open>view sid st = []\<close>)
qed (use assms pacing_invD [OF inv] in auto)

lemma inv_keeps:
  assumes inv: "pacing_inv cfg sid created gap day w" and k: "keeps (clock w) sid day (service w) st"
  shows "pacing_inv cfg sid created gap day (w\<lparr>service := st\<rparr>)"
proof -
  have *: "view sid st = view sid (service w) \<or> view sid st = [] \<and> (\<forall>(i, u, c) \<in> set (view sid (service w)). u \<le> At (clock w))"
    "on_day sid day st" "next_aid st = next_aid (service w)"
    using k inv_day(2) [OF inv] inv_counts [OF inv] by (auto simp: keeps_def)
  from *(1) show ?thesis
  proof (elim disjE conjE)
    assume "view sid st = view sid (service w)"
    from inv_same [OF inv this *(2)] *(3) show ?thesis by simp
  next
    assume e: "view sid st = []" and o: "\<forall>(i, u, c) \<in> set (view sid (service w)). u \<le> At (clock w)"
    from o have "u \<le> At (clock w)" if "(i, u, c) \<in> set (view sid (service w))" for i u c
      using that by blast
    from inv_lapse [OF inv e *(2) *(3) [symmetric] this] show ?thesis .
  qed
qed

lemma inv_flights:
  assumes inv: "pacing_inv cfg sid created gap day w"
    and "\<And>f. f \<in> set fs \<Longrightarrow> f \<in> set (flights w) \<or>
      flight_ok gap day (day_allowance cfg day created) (rows_of sid day w) w (view sid (service w)) f"
  shows "pacing_inv cfg sid created gap day (w\<lparr>flights := fs\<rparr>)"
proof (rule pacing_invI)
  show "flight_ok gap day (day_allowance cfg day created) (rows_of sid day (w\<lparr>flights := fs\<rparr>)) (w\<lparr>flights := fs\<rparr>)
      (view sid (service (w\<lparr>flights := fs\<rparr>))) f" if "f \<in> set (flights (w\<lparr>flights := fs\<rparr>))" for f
    using assms(2) [of f] inv_flight [OF inv, of f] that by auto
qed (use pacing_invD [OF inv] in auto)

text \<open>Time passes: a count grows stale, a term ends, and nothing is due that was not.\<close>

lemma inv_tick:
  assumes inv: "pacing_inv cfg sid created gap day w" and "clock w \<le> t" "startOfUtcDay t = startOfUtcDay (clock w)"
  shows "pacing_inv cfg sid created gap day (w\<lparr>clock := t\<rparr>)"
proof (rule pacing_invI)
  show "held_ok gap (rows_of sid day (w\<lparr>clock := t\<rparr>)) (w\<lparr>clock := t\<rparr>) (view sid (service (w\<lparr>clock := t\<rparr>))) e"
    if "e \<in> set (view sid (service (w\<lparr>clock := t\<rparr>)))" for e
    using inv_held [OF inv, of e] that assms(2) by (fastforce simp: held_ok_def)
  show "flight_ok gap day (day_allowance cfg day created) (rows_of sid day (w\<lparr>clock := t\<rparr>)) (w\<lparr>clock := t\<rparr>)
      (view sid (service (w\<lparr>clock := t\<rparr>))) f" if "f \<in> set (flights (w\<lparr>clock := t\<rparr>))" for f
    using inv_flight [OF inv, of f] that assms(2) by (auto simp: flight_ok_def split: flight.splits)
  show "i \<in> fst ` set (view sid (service (w\<lparr>clock := t\<rparr>)))"
    if "terms (w\<lparr>clock := t\<rparr>) i = Some u" "At (clock (w\<lparr>clock := t\<rparr>)) < u" for i u
    using inv_terms(2) [OF inv, of i u] that assms(2) by (cases u) auto
qed (use assms pacing_invD [OF inv] in auto)

lemma sentTodayCount_snoc [simp]:
  "sentTodayCount (ms @ [m]) sid day = sentTodayCount ms sid day +
     (if msg_session m = sid \<and> direction m = OUTGOING \<and> day \<le> createdAt m then 1 else 0)"
  by (simp add: sentTodayCount_def)

lemma inv_foreign:
  assumes "pacing_inv cfg sid created gap day w" and "msg_session m \<noteq> sid \<or> direction m = INCOMING"
  shows "pacing_inv cfg sid created gap day (w\<lparr>messages := messages w @ [m]\<rparr>)"
  using assms(2) pacing_invD [OF assms(1)] by (intro pacing_invI) auto

lemma day_start_le: "startOfUtcDay t \<le> t"
  by (simp add: startOfUtcDay_def DAY_MS_def)

text \<open>A row lands: it is one of a held admission, so every count that misses it finds it among the held.\<close>

lemma filter_one_more:
  assumes "distinct (map fst v)" and "(i, e) \<in> set v" and "\<not> P (i, e)"
    and "\<And>j x. (j, x) \<in> set v \<Longrightarrow> Q (j, x) \<longleftrightarrow> P (j, x) \<or> j = i"
  shows "length (filter Q v) = Suc (length (filter P v))"
  using assms
proof (induction v)
  case (Cons a v)
  obtain j x where a: "a = (j, x)" by fastforce
  show ?case
  proof (cases "j = i")
    case True
    then have "x = e"
      using Cons.prems(1,2) a by (auto simp: image_iff)
    moreover have "filter Q v = filter P v"
      using Cons.prems(1,4) a True by (intro filter_cong) (force simp: image_iff)+
    ultimately show ?thesis
      using Cons.prems(3) Cons.prems(4) [of j x] a True by simp
  next
    case False
    then have "length (filter Q v) = Suc (length (filter P v))"
      using Cons.prems a by (intro Cons.IH) auto
    then show ?thesis
      using Cons.prems(4) [of j x] a False by auto
  qed
qed simp

lemma inv_lands:
  assumes inv: "pacing_inv cfg sid created gap day w" and gap: "0 \<le> gap"
    and "terms w i = Some u" "At (clock w + gap) < u" "landed w i = None"
    and "msg_session m = sid" "direction m = OUTGOING" "createdAt m = clock w"
  shows "pacing_inv cfg sid created gap day (w\<lparr>messages := messages w @ [m], landed := (landed w)(i \<mapsto> clock w)\<rparr>)"
    (is "pacing_inv _ _ _ _ _ ?w")
proof -
  let ?v = "view sid (service w)"
  have rows: "rows_of sid day ?w = Suc (rows_of sid day w)"
    using assms(6-8) day_start_le [of "clock w"] inv_day(1) [OF inv] by simp
  have "At (clock w) < u"
    using assms(4) gap by (cases u) auto
  with inv_terms(2) [OF inv assms(3)] obtain u' c where e: "(i, u', c) \<in> set ?v"
    by auto
  have u': "u' = u"
    using inv_held [OF inv e] assms(3) by (simp add: held_ok_def)
  have all: "landed_in ?w ?v = Suc (landed_in w ?v)"
    unfolding landed_in_def using e assms(5) by (intro filter_one_more [OF inv_distinct [OF inv] e]) auto
  have since: "landed_since ?w r ?v = Suc (landed_since w r ?v)" if "r \<le> clock w" for r
    unfolding landed_since_def using e assms(5) that
    by (intro filter_one_more [OF inv_distinct [OF inv] e]) auto
  show ?thesis
  proof (rule pacing_invI)
    show "held_ok gap (rows_of sid day ?w) ?w (view sid (service ?w)) x" if "x \<in> set (view sid (service ?w))" for x
    proof -
      obtain j uj cj where x: "x = (j, uj, cj)" by (cases x)
      with that have "(j, uj, cj) \<in> set ?v" by simp
      from inv_held [OF inv this] show ?thesis
        using all rows assms(3,4) x by (auto simp: held_ok_def)
    qed
    show "flight_ok gap day (day_allowance cfg day created) (rows_of sid day ?w) ?w (view sid (service ?w)) f"
      if "f \<in> set (flights ?w)" for f
      using inv_flight [OF inv, of f] that since rows by (auto simp: flight_ok_def split: flight.splits)
    show "rows_of sid day ?w + (length (view sid (service ?w)) - landed_in ?w (view sid (service ?w)))
        \<le> day_allowance cfg day created"
      using inv_bound [OF inv] all rows landed_in_le [of ?w ?v] by simp
    show "j < next_aid (service ?w)" if "landed ?w j = Some t" for j t
      using that inv_landed [OF inv, of j t] inv_terms(1) [OF inv assms(3)] by (auto split: if_splits)
  qed (use pacing_invD [OF inv] in auto)
qed

text \<open>Settling: the term restarts, or the admission leaves the hold having written nothing.\<close>

lemma settle_frame: "next_aid (settle now sid i b st) = next_aid st" "on_day sid day st \<Longrightarrow> on_day sid day (settle now sid i b st)"
  by (auto simp: settle_def on_day_def Let_def split: option.splits)

lemma settle_view:
  assumes "i \<in> set (open_settles st)"
  shows "view sid (settle now sid i True st) =
      map (\<lambda>(j, u, c). if j = i then (j, At (now + ADMISSION_WINDOW_MS), c) else (j, u, c)) (view sid st)"
    and "view sid (settle now sid i False st) = filter (\<lambda>e. fst e \<noteq> i) (view sid st)"
  using assms
  by (auto simp: settle_def settle_in_def view_def held_list_def Let_def filter_map comp_def split: option.splits)

lemma landed_frame [simp]:
  "landed_in (w\<lparr>service := st, terms := ts\<rparr>) v = landed_in w v"
  "landed_since (w\<lparr>service := st, terms := ts\<rparr>) r v = landed_since w r v"
  by (simp_all add: landed_since_def landed_in_def)

lemma landed_ids:
  "map fst v = map fst v' \<Longrightarrow> landed_in w v = landed_in w v' \<and> landed_since w r v = landed_since w r v'"
proof -
  have "landed_in w v = length (filter (\<lambda>i. landed w i \<noteq> None) (map fst v))"
    "landed_since w r v = length (filter (\<lambda>i. \<exists>t. landed w i = Some t \<and> r \<le> t) (map fst v))" for v :: held_view
    by (simp_all add: landed_in_def landed_since_def filter_map comp_def split_def)
  then show "map fst v = map fst v' \<Longrightarrow> ?thesis" by (simp only: simp_thms)
qed

lemma landed_filter:
  assumes "landed w i = None"
  shows "landed_in w (filter (\<lambda>e. fst e \<noteq> i) v) = landed_in w v"
    and "landed_since w r (filter (\<lambda>e. fst e \<noteq> i) v) = landed_since w r v"
  unfolding landed_in_def landed_since_def filter_filter using assms
  by (auto intro!: arg_cong [of _ _ length] filter_cong)

lemma inv_settled:
  assumes inv: "pacing_inv cfg sid created gap day w" and gap: "gap < ADMISSION_WINDOW_MS"
    and t: "terms w i = Some u" "At (clock w) < u" and o: "i \<in> set (open_settles (service w))"
  shows "pacing_inv cfg sid created gap day
    (w\<lparr>service := settle (clock w) sid i True (service w), terms := (terms w)(i \<mapsto> At (clock w + ADMISSION_WINDOW_MS))\<rparr>)"
    (is "pacing_inv _ _ _ _ _ ?w")
proof -
  let ?v = "view sid (service w)" and ?v' = "view sid (service ?w)"
  have v': "?v' = map (\<lambda>(j, u, c). if j = i then (j, At (clock w + ADMISSION_WINDOW_MS), c) else (j, u, c)) ?v"
    by (simp add: settle_view(1) [OF o])
  then have ids: "map fst ?v' = map fst ?v"
    by (simp add: comp_def split_def if_distrib cong: if_cong)
  note l = landed_ids [OF ids, of w]
  show ?thesis
  proof (rule pacing_invI)
    show "held_ok gap (rows_of sid day ?w) ?w ?v' e" if "e \<in> set ?v'" for e
    proof -
      from that obtain j uj c where e: "(j, uj, c) \<in> set ?v"
        and e': "e = (if j = i then (j, At (clock w + ADMISSION_WINDOW_MS), c) else (j, uj, c))"
        unfolding v' by auto
      from inv_held [OF inv e] e' gap l show ?thesis
        by (auto simp: held_ok_def settle_frame)
    qed
    show "flight_ok gap day (day_allowance cfg day created) (rows_of sid day ?w) ?w ?v' f" if "f \<in> set (flights ?w)" for f
      using inv_flight [OF inv, of f] that l by (auto simp: flight_ok_def split: flight.splits)
    show "j \<in> fst ` set ?v'" if "terms ?w j = Some uj" "At (clock ?w) < uj" for j uj
    proof -
      have "j \<in> set (map fst ?v)"
        using that inv_terms(2) [OF inv] t by (auto split: if_splits)
      with ids show ?thesis by (metis set_map)
    qed
    show "rows_of sid day ?w + (length ?v' - landed_in ?w ?v') \<le> day_allowance cfg day created"
      using inv_bound [OF inv] l arg_cong [OF ids, of length] by simp
    show "distinct (map fst ?v')"
      unfolding ids by (rule inv_distinct [OF inv])
  qed (use pacing_invD [OF inv] t in \<open>auto simp: settle_frame split: if_splits\<close>)
qed

lemma inv_handed_back:
  assumes inv: "pacing_inv cfg sid created gap day w" and n: "landed w i = None" and o: "i \<in> set (open_settles (service w))"
  shows "pacing_inv cfg sid created gap day
    (w\<lparr>service := settle (clock w) sid i False (service w), terms := (terms w)(i := None)\<rparr>)"
    (is "pacing_inv _ _ _ _ _ ?w")
proof -
  let ?v = "view sid (service w)" and ?v' = "view sid (service ?w)"
  have v': "?v' = filter (\<lambda>e. fst e \<noteq> i) ?v"
    by (simp add: settle_view(2) [OF o])
  note l = landed_filter [OF n, where v = ?v, folded v']
  show ?thesis
  proof (rule pacing_invI)
    show "held_ok gap (rows_of sid day ?w) ?w ?v' e" if "e \<in> set ?v'" for e
    proof -
      from that have "e \<in> set ?v" "fst e \<noteq> i"
        unfolding v' by auto
      from inv_held [OF inv this(1)] this(2) l show ?thesis
        by (cases e) (auto simp: held_ok_def settle_frame)
    qed
    show "flight_ok gap day (day_allowance cfg day created) (rows_of sid day ?w) ?w ?v' f" if "f \<in> set (flights ?w)" for f
      using inv_flight [OF inv, of f] that l by (auto simp: flight_ok_def split: flight.splits)
    show "j \<in> fst ` set ?v'" if "terms ?w j = Some uj" "At (clock ?w) < uj" for j uj
      using that inv_terms(2) [OF inv, of j uj] unfolding v' by (auto split: if_splits)
    show "rows_of sid day ?w + (length ?v' - landed_in ?w ?v') \<le> day_allowance cfg day created"
    proof -
      have "length ?v' \<le> length ?v"
        unfolding v' by (rule length_filter_le)
      with inv_bound [OF inv] l show ?thesis by simp
    qed
    show "distinct (map fst ?v')"
      unfolding v' using inv_distinct [OF inv] by (rule distinct_map_filter)
  qed (use pacing_invD [OF inv] in \<open>auto simp: settle_frame split: if_splits\<close>)
qed

text \<open>
  Admitting: the cap held below the allowance what the oldest held admission read plus everything held
  since, and that is at least the rows written plus the rows due.
\<close>

lemma view_admit:
  assumes "admit now sid day opts n ct st = (i, st')" and "on_day sid day st"
  shows "view sid st' = view sid st @
      [(i, term_end now opts, Some n)]"
    and "i = next_aid st" "next_aid st' = Suc (next_aid st)" "on_day sid day st'"
  using assms by (auto simp: admit_def Let_def view_def held_list_def on_day_def split: option.splits)

lemma inv_admit:
  assumes inv: "pacing_inv cfg sid created gap day w" and gap: "0 \<le> gap" "gap < ADMISSION_WINDOW_MS"
    and ad: "admit (clock w) sid day opts n ct (service w) = (i, st)"
    and read: "rows_of sid day w \<le> n + landed_since w r (view sid (service w))"
    and n: "n < day_allowance cfg day created"
    and head: "case view sid (service w) of [] \<Rightarrow> True | (j, u, c) # v \<Rightarrow> the c + Suc (length v) < day_allowance cfg day created"
  shows "pacing_inv cfg sid created gap day (w\<lparr>service := st, terms := (terms w)(i \<mapsto>
      term_end (clock w) opts)\<rparr>)"
    (is "pacing_inv _ _ _ _ _ ?w")
proof -
  let ?v = "view sid (service w)" and ?v' = "view sid (service ?w)"
  note va = view_admit [OF ad inv_day(2) [OF inv]]
  have v': "?v' = ?v @ [(i, the (terms ?w i), Some n)]"
    by (simp add: va(1))
  have old: "landed w i = None"
    using inv_landed [OF inv, of i] va(2) by (cases "landed w i") auto
  have new: "i \<notin> fst ` set ?v"
    using inv_held [OF inv] va(2) by (fastforce simp: held_ok_def)
  have l: "landed_in w ?v' = landed_in w ?v" "\<And>r. landed_since w r ?v' = landed_since w r ?v"
    unfolding v' using old by (simp_all add: landed_in_def landed_since_def)
  have since_all: "landed_since w r ?v \<le> landed_in w ?v"
    by (rule landed_since_le)
  have bound: "rows_of sid day w + (length ?v - landed_in w ?v) < day_allowance cfg day created"
  proof (cases ?v)
    case Nil
    with read n show ?thesis by simp
  next
    case (Cons e es)
    obtain j u c where e: "e = (j, u, c)" by (cases e)
    have "rows_of sid day w \<le> the c + landed_in w ?v"
      using inv_held [OF inv, of e] Cons e by (simp add: held_ok_def)
    with head Cons e landed_in_le [of w ?v] show ?thesis by simp
  qed
  show ?thesis
  proof (rule pacing_invI)
    show "held_ok gap (rows_of sid day ?w) ?w ?v' e" if "e \<in> set ?v'" for e
    proof (cases "e \<in> set ?v")
      case True
      with new have "fst e \<noteq> i" by auto
      with inv_held [OF inv True] l va(3) show ?thesis
        by (cases e) (auto simp: held_ok_def)
    next
      case False
      with that have "e = (i, the (terms ?w i), Some n)"
        unfolding v' by simp
      moreover have "rows_of sid day w \<le> n + landed_in w ?v"
        using read since_all by linarith
      ultimately show ?thesis
        using old l va(2,3) by (simp add: held_ok_def)
    qed
    show "flight_ok gap day (day_allowance cfg day created) (rows_of sid day ?w) ?w ?v' f" if "f \<in> set (flights ?w)" for f
      using inv_flight [OF inv, of f] that l by (auto simp: flight_ok_def split: flight.splits)
    show "rows_of sid day ?w + (length ?v' - landed_in ?w ?v') \<le> day_allowance cfg day created"
      using bound l landed_in_le [of w ?v] by (simp add: va(1))
    show "j \<in> fst ` set ?v'" if "terms ?w j = Some uj" "At (clock ?w) < uj" for j uj
      using that inv_terms(2) [OF inv, of j uj] unfolding v' by (auto split: if_splits)
    show "distinct (map fst ?v')"
      using inv_distinct [OF inv] new by (simp add: va(1))
    show "j < next_aid (service ?w)" if "terms ?w j = Some uj" for j uj
      using that inv_terms(1) [OF inv, of j uj] va(2,3) by (auto split: if_splits)
    show "j < next_aid (service ?w)" if "landed ?w j = Some t" for j t
      using that inv_landed [OF inv, of j t] va(3) by simp
  qed (use inv_day [OF inv] va(4) in auto)
qed

lemma send_probed_cases:
  assumes "send_probed cfg now sid chat opts day a k n coldRead st = (out, st')" and day: "startOfUtcDay now = day"
    and d: "on_day sid day st" "counts_read (view sid st)"
  obtains (judged) "keeps now sid day st st'" "\<And>i. out \<noteq> Allowed (Some i)" "\<And>r. flight_after r out = []"
  | (admitted) i st2 ct where "keeps now sid day st st2" "admit now sid day opts n ct st2 = (i, st')"
      "out = Allowed (Some i)" "n < k"
      "case view sid st2 of [] \<Rightarrow> True | (j, u, c) # v \<Rightarrow> the c + Suc (length v) < k"
proof -
  obtain e1 st1 where c1: "assertUnderDailyCap now sid day k n st = (e1, st1)" by fastforce
  note dc = daily_cap_spec [OF c1]
  obtain e2 st2 where c2: "cold_cap_check now sid day (coldChatKey (the chat)) coldRead st1 = (e2, st2)" by fastforce
  have k2: "keeps now sid day st st2"
    using dc(1) keeps_cold_check [OF c2] by (rule keeps_trans)
  show thesis
  proof (cases "e1 = None \<and> truthy chat \<and> e2 = None \<and> hold_opt opts \<noteq> Some False")
    case True
    then obtain i ct where ad: "admit now sid day opts n ct st2 = (i, st')" "out = Allowed (Some i)"
      using assms(1) day c1 c2 by (auto simp: send_probed_def Let_def split: prod.splits)
    have lt: "n < k" and h1: "case view sid st1 of [] \<Rightarrow> True | (j, u, c) # v \<Rightarrow> the c + Suc (length v) < k"
      using dc(2) True d by auto
    have "view sid st2 = view sid st1 \<or> view sid st2 = []"
      using keeps_cold_check [OF c2] keeps_counts [OF dc(1) d] by (auto simp: keeps_def)
    with h1 have "case view sid st2 of [] \<Rightarrow> True | (j, u, c) # v \<Rightarrow> the c + Suc (length v) < k"
      by auto
    from k2 ad lt this show thesis
      by (rule admitted)
  next
    case False
    then have "st' = st1 \<or> st' = st2" "\<And>i. out \<noteq> Allowed (Some i)" "\<And>r. flight_after r out = []"
      using assms(1) day c1 c2 by (auto simp: send_probed_def Let_def flight_after_def split: prod.splits option.splits if_splits)
    with dc(1) k2 show thesis
      by (intro judged) auto
  qed
qed

lemma inv_probed:
  assumes inv: "pacing_inv cfg sid created gap day w" and gap: "0 \<le> gap" "gap < ADMISSION_WINDOW_MS"
    and f: "flights w = fs @ ReadingCold d a k n r # gs" and fresh: "clock w \<le> r + gap"
    and out: "send_probed cfg (clock w) sid chat opts d a k n coldRead (service w) = (out, st)"
  shows "pacing_inv cfg sid created gap day
      (w\<lparr>service := st, terms := terms_after (clock w) opts out (terms w),
         flights := fs @ flight_after r out @ gs\<rparr>)"
proof -
  have fl: "ReadingCold d a k n r \<in> set (flights w)"
    using f by simp
  have d: "d = day" and k: "k = day_allowance cfg day created"
    using inv_flight [OF inv fl] by (simp_all add: flight_ok_def)
  have [simp]: "flight_after r (Allowed x) = []" for x
    by (simp add: flight_after_def)
  have out': "send_probed cfg (clock w) sid chat opts day a k n coldRead (service w) = (out, st)"
    using out d by simp
  from out' inv_day(1) [OF inv] inv_day(2) [OF inv] inv_counts [OF inv] show ?thesis
  proof (cases rule: send_probed_cases)
    case judged
    have "pacing_inv cfg sid created gap day ((w\<lparr>service := st\<rparr>)\<lparr>flights := fs @ gs\<rparr>)"
      by (rule inv_flights [OF inv_keeps [OF inv judged(1)]]) (auto simp: f)
    moreover have "terms_after (clock w) opts out (terms w) = terms w"
      using judged(2) by (auto simp: terms_after_def split: send_outcome.splits option.splits)
    ultimately show ?thesis
      by (simp add: judged(3))
  next
    case (admitted i st2 ct)
    let ?w2 = "w\<lparr>service := st2\<rparr>"
    have inv2: "pacing_inv cfg sid created gap day ?w2"
      by (rule inv_keeps [OF inv admitted(1)])
    have "rows_of sid day ?w2 \<le> n + landed_since ?w2 r (view sid (service ?w2))"
      using inv_flight [OF inv2, of "ReadingCold d a k n r"] fl fresh by (simp add: flight_ok_def)
    moreover have "admit (clock ?w2) sid day opts n ct (service ?w2) = (i, st)"
      using admitted(2) by simp
    ultimately have "pacing_inv cfg sid created gap day (?w2\<lparr>service := st, terms := (terms ?w2)(i \<mapsto>
        term_end (clock ?w2) opts)\<rparr>)"
      (is "pacing_inv _ _ _ _ _ ?w3")
      using admitted(4,5) unfolding k by (intro inv_admit [OF inv2 gap]) simp_all
    then have "pacing_inv cfg sid created gap day (?w3\<lparr>flights := fs @ gs\<rparr>)"
      by (rule inv_flights) (auto simp: f)
    then show ?thesis
      by (simp add: admitted(3) terms_after_def)
  qed
qed

lemma inv_counted:
  assumes inv: "pacing_inv cfg sid created gap day w"
    and f: "flights w = fs @ CountAnswered d a k n r # gs"
    and out: "send_counted cfg (clock w) sid d a k n (service w) = (out, st)"
  shows "pacing_inv cfg sid created gap day (w\<lparr>service := st, flights := fs @ flight_after r out @ gs\<rparr>)"
proof -
  have fl: "CountAnswered d a k n r \<in> set (flights w)"
    using f by simp
  then have d: "d = day"
    using inv_flight [OF inv fl] by (simp add: flight_ok_def)
  obtain e st1 where c1: "assertUnderDailyCap (clock w) sid day k n (service w) = (e, st1)" by fastforce
  have st: "st = st1" and o: "flight_after r out = (if e = None then [ReadingCold d a k n r] else [])"
    using out c1 d inv_day(1) [OF inv] by (auto simp: send_counted_def flight_after_def split: prod.splits option.splits)
  have inv1: "pacing_inv cfg sid created gap day (w\<lparr>service := st\<rparr>)"
    using inv_keeps [OF inv daily_cap_spec(1) [OF c1]] st by simp
  have "flight_ok gap day (day_allowance cfg day created) (rows_of sid day (w\<lparr>service := st\<rparr>)) (w\<lparr>service := st\<rparr>)
      (view sid (service (w\<lparr>service := st\<rparr>))) (ReadingCold d a k n r)"
    using inv_flight [OF inv1, of "CountAnswered d a k n r"] fl by (simp add: flight_ok_def)
  then have "pacing_inv cfg sid created gap day ((w\<lparr>service := st\<rparr>)\<lparr>flights := fs @ flight_after r out @ gs\<rparr>)"
    by (intro inv_flights [OF inv1]) (auto simp: o f)
  then show ?thesis
    by simp
qed

lemma inv_begins:
  assumes inv: "pacing_inv cfg sid created gap day w" and b: "send_begin cfg (clock w) sid (service w) = (out, st)"
  shows "pacing_inv cfg sid created gap day (w\<lparr>service := st, flights := flights w @ flight_after (clock w) out\<rparr>)"
proof -
  have "set (flight_after (clock w) out) \<subseteq> {ReadingSession}"
    using b by (auto simp: send_begin_def flight_after_def split: if_splits prod.splits option.splits)
  then have "pacing_inv cfg sid created gap day ((w\<lparr>service := st\<rparr>)\<lparr>flights := flights w @ flight_after (clock w) out\<rparr>)"
    by (intro inv_flights [OF inv_keeps [OF inv keeps_begin [OF b]]]) (auto simp: flight_ok_def)
  then show ?thesis
    by simp
qed

text \<open>Every step keeps the invariant.\<close>

lemma pacing_step_inv:
  assumes "pacing_step cfg sid created gap w w'" and gap: "0 \<le> gap" "gap < ADMISSION_WINDOW_MS"
    and inv: "pacing_inv cfg sid created gap day w"
  shows "pacing_inv cfg sid created gap day w'"
  using assms(1)
proof cases
  case (other st)
  have "view sid st = view sid (service w)" "on_day sid day st"
    using inv_day(2) [OF inv] other(2) by (simp_all add: view_def held_list_def on_day_def)
  from inv_same [OF inv this other(3)] other(1) show ?thesis by simp
next
  case (session_read fs gs)
  have "pacing_inv cfg sid created gap day
      (w\<lparr>flights := fs @ flight_after (clock w) (send_session cfg (clock w) (Some created)) @ gs\<rparr>)"
    by (rule inv_flights [OF inv])
      (use session_read(2) inv_day(1) [OF inv] in \<open>auto simp: send_session_def flight_after_def flight_ok_def Let_def\<close>)
  with session_read(1) show ?thesis by simp
next
  case (count_read fs d a k gs)
  have "ReadingCount d a k \<in> set (flights w)"
    using count_read(2) by simp
  from inv_flight [OF inv this] have "pacing_inv cfg sid created gap day
      (w\<lparr>flights := fs @ CountAnswered d a k (sentTodayCount (messages w) sid d) (clock w) # gs\<rparr>)"
    by (intro inv_flights [OF inv]) (use count_read(2) gap in \<open>auto simp: flight_ok_def\<close>)
  with count_read(1) show ?thesis by simp
next
  case (abandoned fs f gs)
  have "pacing_inv cfg sid created gap day (w\<lparr>flights := fs @ gs\<rparr>)"
    by (rule inv_flights [OF inv]) (use abandoned(2) in auto)
  with abandoned(1) show ?thesis by simp
qed (use inv gap in \<open>auto intro: inv_tick inv_foreign inv_begins inv_counted inv_probed inv_lands inv_settled inv_handed_back\<close>)

lemma pacing_reach_inv:
  assumes "pacing_reach cfg sid created gap w0 w" and gap: "0 \<le> gap" "gap < ADMISSION_WINDOW_MS"
    and "fresh_start sid w0"
    and "sentTodayCount (messages w0) sid (startOfUtcDay (clock w0)) \<le> day_allowance cfg (startOfUtcDay (clock w0)) created"
  shows "pacing_inv cfg sid created gap (startOfUtcDay (clock w0)) w"
  using assms(1)
proof induction
  case start
  have "view sid (service w0) = []" "on_day sid (startOfUtcDay (clock w0)) (service w0)"
    using assms(4) by (simp_all add: fresh_start_def view_def held_list_def on_day_def)
  then show ?case
    using assms(4,5) by (intro pacing_invI) (auto simp: fresh_start_def)
next
  case (step w w')
  then show ?case
    using gap by (blast intro: pacing_step_inv)
qed

lemma rows_due_le:
  assumes inv: "pacing_inv cfg sid created gap day w" and gap: "0 \<le> gap"
  shows "card (rows_due gap w) \<le> length (view sid (service w)) - landed_in w (view sid (service w))"
proof -
  let ?v = "view sid (service w)"
  have "rows_due gap w \<subseteq> fst ` set (filter (\<lambda>(i, u, c). landed w i = None) ?v)"
  proof
    fix i assume "i \<in> rows_due gap w"
    then obtain u where u: "landed w i = None" "terms w i = Some u" "At (clock w + gap) < u"
      by (auto simp: rows_due_def)
    moreover have "At (clock w) < u"
      using u(3) gap by (cases u) auto
    ultimately have "i \<in> fst ` set ?v"
      by (intro inv_terms(2) [OF inv])
    with u(1) show "i \<in> fst ` set (filter (\<lambda>(i, u, c). landed w i = None) ?v)"
      by force
  qed
  then have "card (rows_due gap w) \<le> card (fst ` set (filter (\<lambda>(i, u, c). landed w i = None) ?v))"
    by (intro card_mono) auto
  also have "\<dots> \<le> length (filter (\<lambda>(i, u, c). landed w i = None) ?v)"
    using card_length [of "map fst (filter (\<lambda>(i, u, c). landed w i = None) ?v)"] by simp
  also have "\<dots> = length ?v - landed_in w ?v"
    using sum_length_filter_compl [of "\<lambda>(i, u, c). landed w i \<noteq> None" ?v]
    by (simp add: landed_in_def split_def)
  finally show ?thesis .
qed

section \<open>Properties\<close>


text \<open>A policy of one message a day, and a session whose one send is admitted and whose row lands.\<close>

definition one_a_day :: send_pacing_config where
  "one_a_day = \<lparr>enabled = True, warmupSchedule = [1], coldSchedule = [], breakerThreshold = 5, breakerCooldownMs = 1000\<rparr>"

definition plain_opts :: send_opts where
  "plain_opts = \<lparr>hold_opt = None, untilSettled = False, whilePreparing = False\<rparr>"

definition quiet_world :: pacing_world where
  "quiet_world = \<lparr>clock = 1000, service = pacing_init, flights = [], messages = [], terms = Map.empty, landed = Map.empty\<rparr>"

definition sent_row :: message_row where
  "sent_row = \<lparr>msg_session = ''s1'', msg_chat = ''628111@c.us'', direction = OUTGOING, createdAt = 1000\<rparr>"

lemma one_send_reach:
  "\<exists>w. pacing_reach one_a_day ''s1'' 0 2000 quiet_world w \<and> messages w = [sent_row]"
proof -
  let ?R = "pacing_reach one_a_day ''s1'' 0 2000 quiet_world" and ?S = "pacing_step one_a_day ''s1'' 0 2000"
  let ?w = "\<lambda>fs. quiet_world\<lparr>service := pacing_init, flights := fs\<rparr>"
  have day: "startOfUtcDay 1000 = 0" "ageInDays 0 0 = 0"
    by (simp_all add: startOfUtcDay_def ageInDays_def DAY_MS_def)
  have cap: "assertUnderDailyCap 1000 ''s1'' 0 1 0 pacing_init = (None, pacing_init)"
    by (simp add: assertUnderDailyCap_def heldAdmissions_def set_held_def pacing_init_def Let_def fun_eq_iff)
  have r0: "?R quiet_world"
    by (rule pacing_reach.start)
  have "?S quiet_world (quiet_world\<lparr>service := pacing_init, flights := flights quiet_world @ flight_after (clock quiet_world) AwaitSession\<rparr>)"
    by (rule pacing_step.begins)
      (simp add: send_begin_def one_a_day_def assertBreakerClosed_def pacing_init_def quiet_world_def)
  from pacing_reach.step [OF r0 this] have r1: "?R (?w [ReadingSession])"
    by (simp add: quiet_world_def flight_after_def)
  from pacing_reach.step [OF r1 pacing_step.session_read [of _ "[]" "[]"]] have r2: "?R (?w [ReadingCount 0 0 1])"
    by (simp add: quiet_world_def flight_after_def send_session_def day one_a_day_def allowanceForAge_def)
  from pacing_reach.step [OF r2 pacing_step.count_read [of _ "[]" 0 0 1 "[]"]]
  have r3: "?R (?w [CountAnswered 0 0 1 0 1000])"
    by (simp add: quiet_world_def sentTodayCount_def)
  have "send_counted one_a_day 1000 ''s1'' 0 0 1 0 pacing_init = (AwaitCold 0 0 1 0, pacing_init)"
    by (simp add: send_counted_def day cap del: One_nat_def)
  from pacing_reach.step [OF r3 pacing_step.counted [of _ "[]" 0 0 1 0 1000 "[]", OF _ _]] this
  have r4: "?R (?w [ReadingCold 0 0 1 0 1000])"
    by (simp add: quiet_world_def flight_after_def)
  define st where "st = snd (admit 1000 ''s1'' 0 plain_opts 0 None pacing_init)"
  have pr: "send_probed one_a_day 1000 ''s1'' (Some ''628111@c.us'') plain_opts 0 0 1 0 None pacing_init = (Allowed (Some 0), st)"
    by (simp add: send_probed_def day cap cold_cap_check_def plain_opts_def st_def del: One_nat_def)
      (simp add: admit_def pacing_init_def Let_def)
  have "?S (?w [ReadingCold 0 0 1 0 1000])
      ((?w [ReadingCold 0 0 1 0 1000])\<lparr>service := st, terms := terms_after 1000 plain_opts (Allowed (Some 0)) Map.empty,
        flights := [] @ flight_after 1000 (Allowed (Some 0)) @ []\<rparr>)"
    using pacing_step.probed [of "?w [ReadingCold 0 0 1 0 1000]" "[]" 0 0 1 0 1000 "[]" 2000 one_a_day "''s1''" _ plain_opts None
        "Allowed (Some 0)" st 0] pr
    by (simp add: quiet_world_def)
  from pacing_reach.step [OF r4 this] have r5: "?R (quiet_world\<lparr>service := st, terms := [0 \<mapsto> At 11000], flights := []\<rparr>)"
    by (simp add: quiet_world_def flight_after_def terms_after_def term_end_def plain_opts_def ADMISSION_WINDOW_MS_def)
  let ?w5 = "quiet_world\<lparr>service := st, terms := [0 \<mapsto> At 11000], flights := []\<rparr>"
  have "?S ?w5 (?w5\<lparr>messages := messages ?w5 @ [sent_row], landed := (landed ?w5)(0 \<mapsto> clock ?w5)\<rparr>)"
    by (rule pacing_step.lands [where u = "At 11000"]) (simp_all add: quiet_world_def sent_row_def)
  from pacing_reach.step [OF r5 this] show ?thesis
    by (auto simp: quiet_world_def)
qed


text \<open>
  The bound on the reads is needed. With an allowance of one, a check that read its count before
  another send was admitted, and comes back from the cold reads after that send's row landed and its
  window ended, is admitted as well: both sends go out, although the window outlasted the gap between
  the settle and the row.
\<close>

theorem slow_read_passes_cap:
  "(case send_counted one_a_day 1000 ''s1'' 0 0 1 0 pacing_init of (slow, st0) \<Rightarrow>
    case send_counted one_a_day 1001 ''s1'' 0 0 1 0 st0 of (quick, st1) \<Rightarrow>
    case send_probed one_a_day 1002 ''s1'' (Some ''628111@c.us'') plain_opts 0 0 1 0 None st1 of (quick_out, st2) \<Rightarrow>
    case send_probed one_a_day 11003 ''s1'' (Some ''628222@c.us'') plain_opts 0 0 1 0 None (settle 1003 ''s1'' 0 True st2) of
      (slow_out, st3) \<Rightarrow> (slow, quick, quick_out, slow_out)) =
   (AwaitCold 0 0 1 0, AwaitCold 0 0 1 0, Allowed (Some 0), Allowed (Some 1))"
  by code_simp

section \<open>Group-add reachouts\<close>

lemma cold_scan_ge: "count \<le> cold_scan n as chats count"
proof (induction as arbitrary: chats count)
  case (Cons a as)
  show ?case
  proof (cases "cold (fill_cold n a)")
    case None
    with Cons.IH [of count chats] show ?thesis by simp
  next
    case (Some c)
    with Cons.IH [of "max count (the (coldToday c) + length (List.insert (cold_key c) chats))" "List.insert (cold_key c) chats"]
    show ?thesis by (simp add: Let_def)
  qed
qed simp

lemma heldAdmissions_tally: "heldAdmissions now sid day st = (held, st') \<Longrightarrow> groupReachoutTally st' = groupReachoutTally st"
  by (auto simp: heldAdmissions_def Let_def split: option.splits list.splits if_splits)

lemma chatReachouts_spec:
  assumes "chatReachoutsToday now sid day n st = (k, st')"
  shows "n \<le> k" "groupReachoutTally st' = groupReachoutTally st"
  using assms cold_scan_ge by (auto simp: chatReachoutsToday_def set_held_def dest: heldAdmissions_tally split: prod.splits)

text \<open>
  Group adds. A batch that is admitted is charged in the same step: it fits the day's cold allowance
  together with the persisted cold chats, the held ones and the batches charged before it, the tally grows by
  exactly the strangers in it, and refunding the reservation on the same day gives exactly that back.
  Every other outcome of the step leaves the tally as it was.
\<close>

theorem reservation_charged:
  assumes "reachout_counted cfg now sid ids n (startOfUtcDay now) age allowance coldChats st = (out, st')"
  shows "case out of
      Reserved r \<Rightarrow>
        coldChats + groupReachoutsToday sid (startOfUtcDay now) st' \<le> allowance
        \<and> groupReachoutsToday sid (startOfUtcDay now) st' = groupReachoutsToday sid (startOfUtcDay now) st + n
        \<and> groupReachoutsToday sid (startOfUtcDay now) (refundGroupReachouts sid r st') = groupReachoutsToday sid (startOfUtcDay now) st
    | _ \<Rightarrow> groupReachoutTally st' = groupReachoutTally st"
proof -
  let ?day = "startOfUtcDay now"
  obtain chats st1 where c: "chatReachoutsToday now sid ?day coldChats st = (chats, st1)" by fastforce
  note cs = chatReachouts_spec [OF c]
  have g: "groupReachoutsToday sid ?day st1 = groupReachoutsToday sid ?day st"
    by (simp add: groupReachoutsToday_def cs(2))
  show ?thesis
  proof (cases "chats + groupReachoutsToday sid ?day st + n \<le> allowance")
    case True
    then have o: "out = Reserved \<lparr>coldCount = n, res_day = ?day\<rparr>" "st' = addGroupReachouts sid ?day n st1"
      using assms c by (simp_all add: reachout_counted_def Let_def)
    have "groupReachoutsToday sid ?day st' = groupReachoutsToday sid ?day st + n"
      unfolding o g [symmetric] by (auto simp: addGroupReachouts_def groupReachoutsToday_def split: option.splits)
    moreover have "groupReachoutsToday sid ?day (refundGroupReachouts sid \<lparr>coldCount = n, res_day = ?day\<rparr> st') =
        groupReachoutsToday sid ?day st"
      unfolding o g [symmetric]
      by (auto simp: addGroupReachouts_def refundGroupReachouts_def groupReachoutsToday_def split: option.splits)
    ultimately show ?thesis
      using o True cs(1) by simp
  next
    case False
    then have "\<exists>e. out = ReachoutRefused e" "groupReachoutTally st' = groupReachoutTally st"
      using assms c cs(2)
      by (auto simp: reachout_counted_def Let_def refuse_frame(3) [THEN fun_cong] dest!: heldAdmissions_tally
          dest: arg_cong [of "refuse _ _ _ _ _" _ "\<lambda>p. groupReachoutTally (snd p)"] split: if_splits prod.splits)
    then show ?thesis by auto
  qed
qed

theorem reservation_charged_witness:
  "fst (reachout_counted one_a_day 1000 ''s1'' [''628111@c.us''] 2 (startOfUtcDay 1000) 0 5 1 pacing_init)
     = Reserved \<lparr>coldCount = 2, res_day = 0\<rparr>
   \<and> groupReachoutsToday ''s1'' 0
       (snd (reachout_counted one_a_day 1000 ''s1'' [''628111@c.us''] 2 (startOfUtcDay 1000) 0 5 1 pacing_init)) = 2"
proof -
  have o: "fst (reachout_counted one_a_day 1000 ''s1'' [''628111@c.us''] 2 (startOfUtcDay 1000) 0 5 1 pacing_init)
     = Reserved \<lparr>coldCount = 2, res_day = 0\<rparr>"
    by code_simp
  with reservation_charged [of "one_a_day" 1000 "''s1''" "[''628111@c.us'']" 2 0 5 1 pacing_init
      "Reserved \<lparr>coldCount = 2, res_day = 0\<rparr>"
      "snd (reachout_counted one_a_day 1000 ''s1'' [''628111@c.us''] 2 (startOfUtcDay 1000) 0 5 1 pacing_init)"]
  show ?thesis
    by (simp add: prod_eq_iff groupReachoutsToday_def pacing_init_def startOfUtcDay_def DAY_MS_def split: option.splits)
qed

end
