(* ===== verification/Webhook_Filters.thy ===== *)
theory Webhook_Filters
  imports Json Wa_Id
begin

text \<open>
  The smart webhook filters of \<open>src/modules/webhook/filters/\<close>: the field registry
  (\<open>filter-types.ts\<close>), the evaluation of a stored filter against an event's payload
  (\<open>filter-evaluator.ts\<close>) and the validation a filter passes before it is stored
  (\<open>filter-validation.ts\<close>).

  A filter and a payload are JSON values. Evaluating answers \<open>None\<close> where the source throws a
  \<open>TypeError\<close>, which it does on a null condition.
\<close>

section \<open>The field registry\<close>

datatype filter_operator = OpIs | OpIsNot | OpContains | OpEquals

datatype field_kind = IdField | IdArrayField | TextField | EnumField | BooleanField

record field_definition =
  field_name :: string
  field_kind :: field_kind
  operators :: "filter_operator list"
  field_resolve :: "json \<Rightarrow> json option"
  enumValues :: "string list option"

fun operator_name :: "filter_operator \<Rightarrow> string" where
  "operator_name OpIs = ''is''"
| "operator_name OpIsNot = ''isNot''"
| "operator_name OpContains = ''contains''"
| "operator_name OpEquals = ''equals''"

definition MESSAGE_TYPES :: "string list" where
  "MESSAGE_TYPES = [''text'', ''image'', ''video'', ''audio'', ''voice'', ''document'', ''sticker'', ''location'',
     ''contact'', ''poll'', ''call'', ''revoked'', ''order'', ''product'', ''masked'', ''unknown'']"

definition CHAT_KINDS :: "string list" where
  "CHAT_KINDS = [''individual'', ''group'', ''channel'', ''status'', ''broadcast'', ''unknown'']"

fun chat_kind_name :: "chat_kind \<Rightarrow> string" where
  "chat_kind_name IndividualChat = ''individual''"
| "chat_kind_name GroupChat = ''group''"
| "chat_kind_name ChannelChat = ''channel''"
| "chat_kind_name StatusChat = ''status''"
| "chat_kind_name BroadcastChat = ''broadcast''"
| "chat_kind_name UnknownChat = ''unknown''"

definition MAX_CONDITIONS :: nat where
  "MAX_CONDITIONS = 20"

definition MAX_VALUES_PER_CONDITION :: nat where
  "MAX_VALUES_PER_CONDITION = 100"

definition MAX_TEXT_VALUE_LENGTH :: nat where
  "MAX_TEXT_VALUE_LENGTH = 1000"

definition MAX_ID_VALUE_LENGTH :: nat where
  "MAX_ID_VALUE_LENGTH = 128"

definition ID_OPERATORS :: "filter_operator list" where
  "ID_OPERATORS = [OpIs, OpIsNot]"

definition TEXT_OPERATORS :: "filter_operator list" where
  "TEXT_OPERATORS = [OpContains, OpEquals]"

definition BOOLEAN_OPERATORS :: "filter_operator list" where
  "BOOLEAN_OPERATORS = [OpIs]"

text \<open>\<open>str(v)\<close>: the value when it is a string.\<close>

fun str :: "json option \<Rightarrow> string option" where
  "str (Some (JStr s)) = Some s"
| "str _ = None"

definition str_field :: "json \<Rightarrow> string \<Rightarrow> json option" where
  "str_field data name = map_option JStr (str (field_of (Some data) name))"

definition flag :: "json \<Rightarrow> string \<Rightarrow> bool" where
  "flag data name \<longleftrightarrow> field_of (Some data) name = Some (JBool True)"

definition resolve_kind :: "json \<Rightarrow> json option" where
  "resolve_kind data =
     (let k = str (field_of (Some data) ''kind''); chatId = str (field_of (Some data) ''chatId'')
      in if truthy k then map_option JStr k
         else if truthy chatId then Some (JStr (chat_kind_name (chatKind (the chatId)))) else None)"

definition message_fields :: "field_definition list" where
  "message_fields =
     [\<lparr>field_name = ''sender'', field_kind = IdField, operators = ID_OPERATORS,
       field_resolve = (\<lambda>d. case str_field d ''author'' of Some v \<Rightarrow> Some v | None \<Rightarrow> str_field d ''from''), enumValues = None\<rparr>,
      \<lparr>field_name = ''recipient'', field_kind = IdField, operators = ID_OPERATORS,
       field_resolve = (\<lambda>d. str_field d ''to''), enumValues = None\<rparr>,
      \<lparr>field_name = ''chatId'', field_kind = IdField, operators = ID_OPERATORS,
       field_resolve = (\<lambda>d. str_field d ''chatId''), enumValues = None\<rparr>,
      \<lparr>field_name = ''body'', field_kind = TextField, operators = TEXT_OPERATORS,
       field_resolve = (\<lambda>d. case str_field d ''body'' of Some v \<Rightarrow> Some v | None \<Rightarrow> Some (JStr [])), enumValues = None\<rparr>,
      \<lparr>field_name = ''type'', field_kind = EnumField, operators = ID_OPERATORS,
       field_resolve = (\<lambda>d. str_field d ''type''), enumValues = Some MESSAGE_TYPES\<rparr>,
      \<lparr>field_name = ''isGroup'', field_kind = BooleanField, operators = BOOLEAN_OPERATORS,
       field_resolve = (\<lambda>d. Some (JBool (flag d ''isGroup''))), enumValues = None\<rparr>,
      \<lparr>field_name = ''kind'', field_kind = EnumField, operators = ID_OPERATORS,
       field_resolve = resolve_kind, enumValues = Some CHAT_KINDS\<rparr>,
      \<lparr>field_name = ''fromMe'', field_kind = BooleanField, operators = BOOLEAN_OPERATORS,
       field_resolve = (\<lambda>d. Some (JBool (flag d ''fromMe''))), enumValues = None\<rparr>,
      \<lparr>field_name = ''hasMedia'', field_kind = BooleanField, operators = BOOLEAN_OPERATORS,
       field_resolve = (\<lambda>d. Some (JBool (flag d ''hasMedia'' \<or> \<not> nullish (field_of (Some d) ''media'')))), enumValues = None\<rparr>,
      \<lparr>field_name = ''mentions'', field_kind = IdArrayField, operators = ID_OPERATORS,
       field_resolve = (\<lambda>d. case field_of (Some d) ''mentionedIds'' of Some (JArr xs) \<Rightarrow> Some (JArr xs) | _ \<Rightarrow> Some (JArr [])),
       enumValues = None\<rparr>]"

definition FILTER_FIELDS :: "(string \<times> field_definition list) list" where
  "FILTER_FIELDS = [(''message'', message_fields)]"

definition eventFamily :: "string \<Rightarrow> string" where
  "eventFamily event = (case indexOf (CHR ''.'') event of None \<Rightarrow> event | Some dot \<Rightarrow> take dot event)"

definition getFieldDefinition :: "string \<Rightarrow> json option \<Rightarrow> field_definition option" where
  "getFieldDefinition family field =
     (case map_of FILTER_FIELDS family of
        None \<Rightarrow> None
      | Some defs \<Rightarrow> List.find (\<lambda>f. Some (JStr (field_name f)) = field) defs)"

definition findFieldDefinition :: "string \<Rightarrow> field_definition option" where
  "findFieldDefinition field = List.find (\<lambda>f. field_name f = field) (concat (map snd FILTER_FIELDS))"

section \<open>Identities\<close>

definition canonicalActor :: "string \<Rightarrow> phone_resolver \<Rightarrow> string" where
  "canonicalActor jid r = toLowerCase (toNeutralJid jid r)"

definition canonicalInput :: "string \<Rightarrow> phone_resolver \<Rightarrow> string" where
  "canonicalInput v r =
     (let trimmed = trim v
      in if trimmed \<noteq> [] \<and> CHR ''@'' \<notin> set trimmed
         then (let ds = filter is_digit trimmed in toLowerCase ((if ds \<noteq> [] then ds else trimmed) @ ''@c.us''))
         else toLowerCase (toNeutralJid trimmed r))"

fun toStringArray :: "json option \<Rightarrow> string list" where
  "toStringArray (Some (JArr xs)) = List.map_filter (\<lambda>x. str (Some x)) xs"
| "toStringArray _ = []"

definition identitiesIntersect :: "string list \<Rightarrow> string list \<Rightarrow> phone_resolver \<Rightarrow> bool" where
  "identitiesIntersect candidates actual r =
     (let literal = map (\<lambda>v. canonicalInput v None) candidates;
          lidPhones = map (\<lambda>v. canonicalInput v r) (filter (\<lambda>v. kind (parseWaId v) = LidKind) candidates)
      in list_ex (\<lambda>jid.
           let key = canonicalActor jid None
           in if key \<in> set literal then True
              else if kind (parseWaId jid) = LidKind then canonicalActor jid r \<in> set literal
              else kind (parseWaId jid) = UserKind \<and> key \<in> set lidPhones) actual)"

section \<open>Evaluation\<close>

text \<open>\<open>haystack.includes(needle)\<close>\<close>

fun str_includes :: "string \<Rightarrow> string \<Rightarrow> bool" where
  "str_includes [] needle = (needle = [])"
| "str_includes (c # s) needle = (take (length needle) (c # s) = needle \<or> str_includes s needle)"

definition json_str :: "json option \<Rightarrow> string list" where
  "json_str v = (case str v of Some s \<Rightarrow> [s] | None \<Rightarrow> [])"

definition negate_if :: "bool \<Rightarrow> bool \<Rightarrow> bool" where
  "negate_if neg b = (if neg then \<not> b else b)"

definition evaluateCondition :: "field_definition \<Rightarrow> json \<Rightarrow> json \<Rightarrow> phone_resolver \<Rightarrow> bool" where
  "evaluateCondition def condition data r =
     (let operator = field_of (Some condition) ''operator'';
          v = field_of (Some condition) ''value'';
          caseSensitive = js_truthy (field_of (Some condition) ''caseSensitive'');
          resolved = field_resolve def data;
          isNot = (operator = Some (JStr ''isNot''))
      in case field_kind def of
           IdField \<Rightarrow> negate_if isNot (identitiesIntersect (toStringArray v) (json_str resolved) r)
         | EnumField \<Rightarrow> negate_if isNot (case str resolved of None \<Rightarrow> False | Some a \<Rightarrow> a \<in> set (toStringArray v))
         | IdArrayField \<Rightarrow> negate_if isNot (identitiesIntersect (toStringArray v) (toStringArray resolved) r)
         | BooleanField \<Rightarrow> resolved = Some (JBool (v = Some (JBool True)))
         | TextField \<Rightarrow>
             (case v of
                Some (JStr needle0) \<Rightarrow>
                  let hay0 = (case str resolved of Some s \<Rightarrow> s | None \<Rightarrow> []);
                      hay = (if caseSensitive then hay0 else toLowerCase hay0);
                      needle = (if caseSensitive then needle0 else toLowerCase needle0)
                  in if operator = Some (JStr ''equals'') then hay = needle else str_includes hay needle
              | _ \<Rightarrow> True))"

fun evaluateConditions :: "string \<Rightarrow> json \<Rightarrow> phone_resolver \<Rightarrow> json list \<Rightarrow> bool option" where
  "evaluateConditions family data r [] = Some True"
| "evaluateConditions family data r (c # cs) =
     (if c = JNull then None
      else case getFieldDefinition family (field_of (Some c) ''field'') of
             None \<Rightarrow> evaluateConditions family data r cs
           | Some def \<Rightarrow> if evaluateCondition def c data r then evaluateConditions family data r cs else Some False)"

definition evaluateFilters :: "json option \<Rightarrow> string \<Rightarrow> json \<Rightarrow> phone_resolver \<Rightarrow> bool option" where
  "evaluateFilters filters event data r =
     (if \<not> js_truthy filters then Some True
      else case field_of filters ''conditions'' of
             Some (JArr cs) \<Rightarrow> evaluateConditions (eventFamily event) data r cs
           | _ \<Rightarrow> Some True)"

section \<open>Reading the aliases once\<close>

text \<open>The lids one condition will ask the resolver about; a null condition throws, and is skipped.\<close>

definition condition_lids :: "string \<Rightarrow> json \<Rightarrow> json \<Rightarrow> string list" where
  "condition_lids family data c =
     (if c = JNull then []
      else case getFieldDefinition family (field_of (Some c) ''field'') of
             None \<Rightarrow> []
           | Some def \<Rightarrow>
               if field_kind def \<noteq> IdField \<and> field_kind def \<noteq> IdArrayField then []
               else let v = field_resolve def data;
                        actual = (case str v of Some s \<Rightarrow> [s] | None \<Rightarrow> toStringArray v)
                    in map (\<lambda>j. user_part (parseWaId j))
                         (filter (\<lambda>j. kind (parseWaId j) = LidKind) (actual @ toStringArray (field_of (Some c) ''value''))))"

text \<open>
  \<open>read\<close> answers the phones of the lids it is asked for, or is rejected (\<open>None\<close>); a lid it does not
  answer resolves to null.
\<close>

definition prepareFilterLidResolver ::
    "json option list \<Rightarrow> string \<Rightarrow> json \<Rightarrow> (string list \<Rightarrow> (string \<times> string option) list option) option \<Rightarrow> phone_resolver" where
  "prepareFilterLidResolver filters event data read =
     (case read of
        None \<Rightarrow> None
      | Some rd \<Rightarrow>
          let lids = js_set (concat (map (\<lambda>f. case field_of f ''conditions'' of
                        Some (JArr cs) \<Rightarrow> concat (map (condition_lids (eventFamily event) data) cs)
                      | _ \<Rightarrow> []) filters));
              phones = (if lids \<noteq> [] then (case rd lids of Some m \<Rightarrow> m | None \<Rightarrow> []) else [])
          in Some (\<lambda>jid. case map_of phones (user_part (parseWaId jid)) of Some p \<Rightarrow> p | None \<Rightarrow> None))"

section \<open>Validation\<close>

text \<open>The problems \<open>validateCondition\<close> and \<open>collectFilterErrors\<close> word, one constructor per message.\<close>

datatype condition_error =
    MustBeObject
  | UnknownKeys "string list"
  | FieldNotString
  | UnrecognizedField string
  | InvalidOperator
  | OperatorNotAllowed string string
  | CaseSensitiveNotBoolean
  | ValueNotBoolean
  | ValueNotString
  | ValueTooLong
  | ValueNotArray
  | TooManyValues
  | EntryNotString
  | EntryTooLong
  | NotAnEnumValue string

datatype filter_error =
    FiltersNotObject
  | FiltersUnknownKeys "string list"
  | ConditionsNotArray
  | TooManyConditions
  | InCondition nat condition_error

definition OPERATORS :: "filter_operator list" where
  "OPERATORS = [OpIs, OpIsNot, OpContains, OpEquals]"

definition CONDITION_KEYS :: "string list" where
  "CONDITION_KEYS = [''field'', ''operator'', ''value'', ''caseSensitive'']"

fun check_entries :: "field_definition \<Rightarrow> bool \<Rightarrow> json list \<Rightarrow> condition_error option" where
  "check_entries def boundIds [] = None"
| "check_entries def boundIds (v # vs) =
     (case str (Some v) of
        None \<Rightarrow> Some EntryNotString
      | Some s \<Rightarrow>
          if s = [] then Some EntryNotString
          else if boundIds \<and> field_kind def \<noteq> EnumField \<and> MAX_ID_VALUE_LENGTH < length s then Some EntryTooLong
          else if field_kind def = EnumField \<and> (case enumValues def of None \<Rightarrow> False | Some es \<Rightarrow> s \<notin> set es)
          then Some (NotAnEnumValue s)
          else check_entries def boundIds vs)"

definition check_value :: "field_definition \<Rightarrow> bool \<Rightarrow> json option \<Rightarrow> condition_error option" where
  "check_value def boundIds v =
     (case field_kind def of
        BooleanField \<Rightarrow> (case v of Some (JBool b) \<Rightarrow> None | _ \<Rightarrow> Some ValueNotBoolean)
      | TextField \<Rightarrow>
          (case v of
             Some (JStr s) \<Rightarrow> if MAX_TEXT_VALUE_LENGTH < length s then Some ValueTooLong else None
           | _ \<Rightarrow> Some ValueNotString)
      | _ \<Rightarrow>
          (case v of
             Some (JArr vs) \<Rightarrow>
               if vs = [] then Some ValueNotArray
               else if MAX_VALUES_PER_CONDITION < length vs then Some TooManyValues
               else check_entries def boundIds vs
           | _ \<Rightarrow> Some ValueNotArray))"

definition validateCondition :: "json \<Rightarrow> bool \<Rightarrow> condition_error option" where
  "validateCondition condition boundIds =
     (if \<not> is_object (Some condition) then Some MustBeObject
      else
        let unknown = filter (\<lambda>k. k \<notin> set CONDITION_KEYS) (object_keys condition);
            operator = field_of (Some condition) ''operator'';
            caseSensitive = field_of (Some condition) ''caseSensitive''
        in if unknown \<noteq> [] then Some (UnknownKeys unknown)
           else case str (field_of (Some condition) ''field'') of
                  None \<Rightarrow> Some FieldNotString
                | Some field \<Rightarrow>
                    case findFieldDefinition field of
                      None \<Rightarrow> Some (UnrecognizedField field)
                    | Some def \<Rightarrow>
                        case str operator of
                          None \<Rightarrow> Some InvalidOperator
                        | Some op \<Rightarrow>
                            if op \<notin> set (map operator_name OPERATORS) then Some InvalidOperator
                            else if op \<notin> set (map operator_name (operators def)) then Some (OperatorNotAllowed op field)
                            else if (case caseSensitive of None \<Rightarrow> False | Some (JBool b) \<Rightarrow> False | _ \<Rightarrow> True)
                            then Some CaseSensitiveNotBoolean
                            else check_value def boundIds (field_of (Some condition) ''value''))"

definition collectFilterErrors :: "json option \<Rightarrow> bool \<Rightarrow> filter_error list" where
  "collectFilterErrors v boundIds =
     (if nullish v then []
      else if \<not> is_object v then [FiltersNotObject]
      else
        let extra = filter (\<lambda>k. k \<noteq> ''conditions'') (object_keys (the v))
        in if extra \<noteq> [] then [FiltersUnknownKeys extra]
           else case field_of v ''conditions'' of
                  Some (JArr cs) \<Rightarrow>
                    if MAX_CONDITIONS < length cs then [TooManyConditions]
                    else List.map_filter (\<lambda>(i, c). map_option (InCondition i) (validateCondition c boundIds))
                           (zip [0..<length cs] cs)
                | _ \<Rightarrow> [ConditionsNotArray])"

section \<open>Validated filters\<close>

definition conditions_of :: "json option \<Rightarrow> json list" where
  "conditions_of f = (case field_of f ''conditions'' of Some (JArr cs) \<Rightarrow> cs | _ \<Rightarrow> [])"

text \<open>
  What a condition says, independently of how it is evaluated. An entry of an id condition names an
  address: a text without an at sign is a phone number (its digits, or the text when it has none), any
  other one is a JID, read in the neutral dialect.
\<close>

inductive entry_names :: "string \<Rightarrow> string \<Rightarrow> bool" where
  phone: "CHR ''@'' \<notin> set e \<Longrightarrow> filter is_digit e \<noteq> [] \<Longrightarrow> entry_names e (filter is_digit e @ ''@c.us'')"
| word: "CHR ''@'' \<notin> set e \<Longrightarrow> filter is_digit e = [] \<Longrightarrow> trim e \<noteq> [] \<Longrightarrow>
    entry_names e (toLowerCase (trim e) @ ''@c.us'')"
| jid: "CHR ''@'' \<in> set e \<or> trim e = [] \<Longrightarrow> entry_names e (toLowerCase (toNeutralJid (trim e) None))"

definition known_phone :: "phone_resolver \<Rightarrow> string \<Rightarrow> string \<Rightarrow> bool" where
  "known_phone r jid p \<longleftrightarrow> (\<exists>f. r = Some f \<and> f jid = Some p) \<and> p \<noteq> []"

text \<open>
  The entry and the event's id are one party: they name one address; or the event carries a lid whose
  known phone the entry names; or the entry is a lid whose known phone is the user the event carries.
\<close>

inductive same_party :: "phone_resolver \<Rightarrow> string \<Rightarrow> string \<Rightarrow> bool" for r :: phone_resolver where
  literal: "entry_names e (toLowerCase (toNeutralJid a None)) \<Longrightarrow> same_party r e a"
| event_lid: "kind (parseWaId a) = LidKind \<Longrightarrow> known_phone r a p \<Longrightarrow> entry_names e (toLowerCase p @ ''@c.us'') \<Longrightarrow>
    same_party r e a"
| entry_lid: "kind (parseWaId e) = LidKind \<Longrightarrow> known_phone r (trim e) p \<Longrightarrow> kind (parseWaId a) = UserKind \<Longrightarrow>
    toLowerCase p = toLowerCase (user_part (parseWaId a)) \<Longrightarrow> same_party r e a"

text \<open>One of the values a condition lists is (one of) the event's.\<close>

inductive value_listed :: "phone_resolver \<Rightarrow> field_kind \<Rightarrow> json option \<Rightarrow> json list \<Rightarrow> bool" for r :: phone_resolver where
  id: "JStr e \<in> set vs \<Longrightarrow> same_party r e a \<Longrightarrow> value_listed r IdField (Some (JStr a)) vs"
| ids: "JStr a \<in> set xs \<Longrightarrow> JStr e \<in> set vs \<Longrightarrow> same_party r e a \<Longrightarrow> value_listed r IdArrayField (Some (JArr xs)) vs"
| enum: "JStr a \<in> set vs \<Longrightarrow> value_listed r EnumField (Some (JStr a)) vs"
| flag: "JBool b \<in> set vs \<Longrightarrow> value_listed r BooleanField (Some (JBool b)) vs"

definition listed_values :: "json option \<Rightarrow> json list" where
  "listed_values v = (case v of None \<Rightarrow> [] | Some (JArr vs) \<Rightarrow> vs | Some x \<Rightarrow> [x])"

definition folded :: "json \<Rightarrow> string \<Rightarrow> string" where
  "folded c s = (if field_of (Some c) ''caseSensitive'' = Some (JBool True) then s else toLowerCase s)"

fun condition_says :: "filter_operator \<Rightarrow> field_definition \<Rightarrow> json \<Rightarrow> phone_resolver \<Rightarrow> json \<Rightarrow> bool" where
  "condition_says OpIs def data r c \<longleftrightarrow>
     value_listed r (field_kind def) (field_resolve def data) (listed_values (field_of (Some c) ''value''))"
| "condition_says OpIsNot def data r c \<longleftrightarrow>
     \<not> value_listed r (field_kind def) (field_resolve def data) (listed_values (field_of (Some c) ''value''))"
| "condition_says OpContains def data r c \<longleftrightarrow>
     (\<exists>body part before after. field_resolve def data = Some (JStr body) \<and> field_of (Some c) ''value'' = Some (JStr part)
        \<and> folded c body = before @ folded c part @ after)"
| "condition_says OpEquals def data r c \<longleftrightarrow>
     (\<exists>body part. field_resolve def data = Some (JStr body) \<and> field_of (Some c) ''value'' = Some (JStr part)
        \<and> folded c body = folded c part)"

text \<open>A condition holds when what it says is true; on an event whose family has not its field, it says nothing.\<close>

definition condition_holds :: "string \<Rightarrow> json \<Rightarrow> phone_resolver \<Rightarrow> json \<Rightarrow> bool" where
  "condition_holds family data r c \<longleftrightarrow>
     (\<forall>def op. getFieldDefinition family (field_of (Some c) ''field'') = Some def \<longrightarrow>
        field_of (Some c) ''operator'' = Some (JStr (operator_name op)) \<longrightarrow> condition_says op def data r c)"

lemma str_Some [simp]: "str v = Some s \<longleftrightarrow> v = Some (JStr s)"
  by (cases v rule: str.cases) auto

lemma getField_message: "getFieldDefinition ''message'' (Some (JStr f)) = findFieldDefinition f"
  by (simp add: getFieldDefinition_def findFieldDefinition_def FILTER_FIELDS_def)

lemma is_object_not_null [simp]: "\<not> is_object (Some JNull)" "\<not> is_object None"
  by simp_all

lemma validateCondition_None:
  assumes "validateCondition c b = None"
  obtains f def op where "c \<noteq> JNull" "field_of (Some c) ''field'' = Some (JStr f)" "findFieldDefinition f = Some def"
    "op \<in> set (operators def)" "field_of (Some c) ''operator'' = Some (JStr (operator_name op))"
    "check_value def b (field_of (Some c) ''value'') = None"
    "field_of (Some c) ''caseSensitive'' = None \<or> (\<exists>cs. field_of (Some c) ''caseSensitive'' = Some (JBool cs))"
proof -
  have "c \<noteq> JNull"
    using assms by (auto simp: validateCondition_def)
  moreover obtain f where f: "field_of (Some c) ''field'' = Some (JStr f)"
    using assms by (auto simp: validateCondition_def Let_def split: if_splits option.splits)
  moreover obtain def where def: "findFieldDefinition f = Some def"
    using assms f by (auto simp: validateCondition_def Let_def split: if_splits option.splits)
  moreover obtain op where "op \<in> set (operators def)" "field_of (Some c) ''operator'' = Some (JStr (operator_name op))"
    using assms f def by (auto simp: validateCondition_def Let_def split: if_splits option.splits)
  moreover have "check_value def b (field_of (Some c) ''value'') = None"
    using assms f def by (auto simp: validateCondition_def Let_def split: if_splits option.splits)
  moreover have "field_of (Some c) ''caseSensitive'' = None \<or> (\<exists>cs. field_of (Some c) ''caseSensitive'' = Some (JBool cs))"
    using assms f def by (auto simp: validateCondition_def Let_def split: if_splits option.splits json.splits)
  ultimately show thesis
    by (rule that)
qed

lemma evaluateConditions_total:
  assumes "JNull \<notin> set cs"
  shows "evaluateConditions family data r cs = Some (list_all (\<lambda>c. case getFieldDefinition family (field_of (Some c) ''field'') of
    None \<Rightarrow> True | Some def \<Rightarrow> evaluateCondition def c data r) cs)"
  using assms by (induction cs) (auto split: option.splits)

lemma collectFilterErrors_Nil:
  assumes "collectFilterErrors f b = []" and "c \<in> set (conditions_of f)"
  shows "validateCondition c b = None"
proof -
  have "field_of f ''conditions'' = Some (JArr (conditions_of f))"
    using assms(2) by (cases "field_of f ''conditions''"; cases "the (field_of f ''conditions'')") (auto simp: conditions_of_def)
  moreover from this have "\<not> nullish f" "is_object f"
    by (cases f; cases "the f"; simp add: nullish_def)+
  ultimately have "List.map_filter (\<lambda>(i, c). map_option (InCondition i) (validateCondition c b))
      (zip [0..<length (conditions_of f)] (conditions_of f)) = []"
    using assms(1) by (auto simp: collectFilterErrors_def Let_def split: if_splits)
  then have "\<forall>(i, c) \<in> set (zip [0..<length (conditions_of f)] (conditions_of f)). validateCondition c b = None"
    by (auto simp: List.map_filter_def filter_empty_conv)
  moreover from assms(2) obtain i where "i < length (conditions_of f)" "conditions_of f ! i = c"
    by (metis in_set_conv_nth)
  then have "(i, c) \<in> set (zip [0..<length (conditions_of f)] (conditions_of f))"
    by (force simp: set_zip)
  ultimately show ?thesis
    by blast
qed

text \<open>The evaluation of an entry, of a comparison of identities and of a substring, by the specification.\<close>

lemma filter_trim: "(\<And>c. P c \<Longrightarrow> \<not> js_ws c) \<Longrightarrow> filter P (trim s) = filter P s"
proof -
  assume no: "\<And>c. P c \<Longrightarrow> \<not> js_ws c"
  have "filter P (dropWhile js_ws t) = filter P t" for t
    using no by (induction t) auto
  then show ?thesis
    by (simp add: trim_def flip: rev_filter)
qed

lemma at_in_trim: "CHR ''@'' \<in> set (trim s) \<longleftrightarrow> CHR ''@'' \<in> set s"
  using arg_cong [OF filter_trim [of "\<lambda>c. c = CHR ''@''" s], of set] by (auto simp: js_ws_def)

lemma lower_at_cus [simp]: "toLowerCase ''@c.us'' = ''@c.us''"
  by code_simp

lemma lower_digits: "toLowerCase (filter is_digit s) = filter is_digit s"
  by (auto simp: toLowerCase_fix_iff is_digit_props)

lemma entry_names_iff: "entry_names e x \<longleftrightarrow> x = canonicalInput e None"
proof -
  have "filter is_digit (trim e) = filter is_digit e"
    by (intro filter_trim) (simp add: is_digit_props)
  moreover have "trim e = [] \<Longrightarrow> filter is_digit e = []"
    using calculation by simp
  ultimately show ?thesis
    by (auto simp: entry_names.simps canonicalInput_def Let_def at_in_trim lower_digits)
qed

lemma lid_has_at:
  assumes "kind (parseWaId v) = LidKind"
  shows "CHR ''@'' \<in> set v"
proof -
  have "lastIndexOf (CHR ''@'') (toLowerCase (trim v)) \<noteq> None"
    using assms by (cases "lastIndexOf (CHR ''@'') (toLowerCase (trim v))")
      (simp_all del: lastIndexOf_None add: parseWaId_def Let_def split: if_splits)
  then obtain c where c: "c \<in> set (trim v)" "lower_char c = CHR ''@''"
    by (auto simp: toLowerCase_def)
  then have "(of_char (lower_char c) :: nat) = 64"
    by simp
  then have "(of_char c :: nat) = of_char (CHR ''@'')"
    by (simp add: lower_char_code Let_def split: if_splits)
  with c show ?thesis
    by (simp only: of_char_eq_iff at_in_trim)
qed

lemma parse_trim: "kind (parseWaId (trim v)) = kind (parseWaId v)" "user_part (parseWaId (trim v)) = user_part (parseWaId v)"
  unfolding parseWaId_def Let_def trim_idem
  by (simp_all only: if_distrib [of kind] if_distrib [of user_part] option.case_distrib [of kind]
      option.case_distrib [of user_part] parsed_wa_id.simps)

lemma canonicalActor_lid:
  assumes "kind (parseWaId a) = LidKind"
  shows "canonicalActor a r = x \<longleftrightarrow>
    (\<exists>p. known_phone r a p \<and> x = toLowerCase p @ ''@c.us'') \<or> (\<nexists>p. known_phone r a p) \<and> x = canonicalActor a None"
proof -
  have "a \<noteq> []"
    using assms parse_Nil by auto
  then show ?thesis
    using assms by (cases r; cases "the r a") (auto simp: canonicalActor_def toNeutralJid_def known_phone_def)
qed

lemma canonicalInput_lid:
  assumes "kind (parseWaId e) = LidKind"
  shows "canonicalInput e r = canonicalActor (trim e) r"
  using lid_has_at [OF assms] by (simp add: canonicalInput_def canonicalActor_def Let_def at_in_trim)

lemma identitiesIntersect_iff:
  "identitiesIntersect candidates actual r \<longleftrightarrow> (\<exists>e \<in> set candidates. \<exists>a \<in> set actual. same_party r e a)"
proof -
  have user: "canonicalActor a None = toLowerCase (user_part (parseWaId a)) @ ''@c.us''" if "kind (parseWaId a) = UserKind" for a
    using that parse_Nil by (auto simp: canonicalActor_def toNeutralJid_def)
  have lid: "canonicalInput e r = canonicalActor a None \<longleftrightarrow>
      (\<exists>p. known_phone r (trim e) p \<and> toLowerCase p = toLowerCase (user_part (parseWaId a)))"
    if "kind (parseWaId e) = LidKind" "kind (parseWaId a) = UserKind" for e a
  proof -
    have k: "kind (parseWaId (trim e)) = LidKind"
      using that(1) by (simp add: parse_trim)
    then have "\<exists>u. canonicalActor (trim e) None = u @ ''@lid''"
      using parse_Nil by (auto simp: canonicalActor_def toNeutralJid_def toLowerCase_def lower_char_def)
    then have "canonicalActor (trim e) None \<noteq> canonicalActor a None"
      using user [OF that(2)] by (auto dest: arg_cong [where f = last])
    with canonicalActor_lid [OF k, of r "canonicalActor a None"] user [OF that(2)] show ?thesis
      by (auto simp: canonicalInput_lid [OF that(1)])
  qed
  have one: "(canonicalActor a None = canonicalInput e None
      \<or> kind (parseWaId a) = LidKind \<and> canonicalActor a r = canonicalInput e None
      \<or> kind (parseWaId a) = UserKind \<and> kind (parseWaId e) = LidKind \<and> canonicalInput e r = canonicalActor a None)
    \<longleftrightarrow> same_party r e a" for e a
  proof (cases "canonicalActor a None = canonicalInput e None")
    case True
    then show ?thesis
      using same_party.literal [of e a r] by (simp add: entry_names_iff canonicalActor_def)
  next
    case False
    then have "same_party r e a \<longleftrightarrow> kind (parseWaId a) = LidKind \<and> (\<exists>p. known_phone r a p \<and> canonicalInput e None = toLowerCase p @ ''@c.us'')
        \<or> kind (parseWaId e) = LidKind \<and> kind (parseWaId a) = UserKind
          \<and> (\<exists>p. known_phone r (trim e) p \<and> toLowerCase p = toLowerCase (user_part (parseWaId a)))"
      unfolding same_party.simps [of r e a] entry_names_iff canonicalActor_def by (metis (lifting))
    then show ?thesis
      using False canonicalActor_lid [of a r "canonicalInput e None"] lid [of e a] by metis
  qed
  have split: "(if K \<in> set L then True else if lidA then R \<in> set L else userA \<and> K \<in> set P) \<longleftrightarrow>
      K \<in> set L \<or> lidA \<and> R \<in> set L \<or> userA \<and> K \<in> set P" if "\<not> (lidA \<and> userA)" for K R :: string and L P lidA userA
    using that by auto
  have "identitiesIntersect candidates actual r \<longleftrightarrow> (\<exists>a \<in> set actual. \<exists>e \<in> set candidates.
      canonicalActor a None = canonicalInput e None
      \<or> kind (parseWaId a) = LidKind \<and> canonicalActor a r = canonicalInput e None
      \<or> kind (parseWaId a) = UserKind \<and> kind (parseWaId e) = LidKind \<and> canonicalInput e r = canonicalActor a None)"
    unfolding identitiesIntersect_def Let_def list_ex_iff
    by (intro bex_cong refl, subst split) (auto simp: image_iff)
  then show ?thesis
    by (auto simp: one)
qed

lemma str_includes_iff: "str_includes hay needle \<longleftrightarrow> (\<exists>before after. hay = before @ needle @ after)"
proof (induction hay)
  case (Cons c s)
  have "take (length needle) (c # s) = needle \<longleftrightarrow> (\<exists>after. c # s = needle @ after)"
    by (metis append_eq_conv_conj append_take_drop_id)
  moreover have "(\<exists>before after. c # s = before @ needle @ after) \<longleftrightarrow>
      (\<exists>after. c # s = needle @ after) \<or> (\<exists>before after. s = before @ needle @ after)"
    by (auto simp: Cons_eq_append_conv)
  ultimately show ?case
    using Cons.IH by simp
qed auto

text \<open>What the registry says of its fields: the operators of each kind and the values its resolver gives.\<close>

lemma registered_kinds:
  assumes "getFieldDefinition family field = Some def" and "op \<in> set (operators def)"
  shows "field_kind def \<in> {IdField, IdArrayField, EnumField} \<Longrightarrow> op \<in> {OpIs, OpIsNot}"
    "field_kind def = BooleanField \<Longrightarrow> op = OpIs \<and> (\<exists>b. field_resolve def data = Some (JBool b))"
    "field_kind def = TextField \<Longrightarrow> op \<in> {OpContains, OpEquals} \<and> (\<exists>s. field_resolve def data = Some (JStr s))"
proof -
  have def: "def \<in> set message_fields"
    using assms(1) by (auto simp: getFieldDefinition_def FILTER_FIELDS_def find_Some_iff split: option.splits if_splits)
  note unfold = message_fields_def ID_OPERATORS_def BOOLEAN_OPERATORS_def TEXT_OPERATORS_def str_field_def
  show "field_kind def \<in> {IdField, IdArrayField, EnumField} \<Longrightarrow> op \<in> {OpIs, OpIsNot}"
    using def assms(2) by (auto simp: unfold)
  show "field_kind def = BooleanField \<Longrightarrow> op = OpIs \<and> (\<exists>b. field_resolve def data = Some (JBool b))"
    using def assms(2) by (auto simp: unfold)
  show "field_kind def = TextField \<Longrightarrow> op \<in> {OpContains, OpEquals} \<and> (\<exists>s. field_resolve def data = Some (JStr s))"
    using def assms(2) by (auto simp: unfold split: option.splits)
qed

lemma str_elements: "s \<in> set (List.map_filter (\<lambda>x. str (Some x)) xs) \<longleftrightarrow> JStr s \<in> set xs"
  "s \<in> set (json_str v) \<longleftrightarrow> v = Some (JStr s)"
  by (auto simp: List.map_filter_def image_iff json_str_def split: option.splits dest: sym)

lemma in_toStringArray: "s \<in> set (toStringArray v) \<longleftrightarrow> (\<exists>xs. v = Some (JArr xs) \<and> JStr s \<in> set xs)"
  by (cases v rule: toStringArray.cases) (auto simp: str_elements)

lemma value_listed_iff:
  "value_listed r IdField v vs \<longleftrightarrow> identitiesIntersect (toStringArray (Some (JArr vs))) (json_str v) r"
  "value_listed r IdArrayField v vs \<longleftrightarrow> identitiesIntersect (toStringArray (Some (JArr vs))) (toStringArray v) r"
  "value_listed r EnumField v vs \<longleftrightarrow> (case str v of None \<Rightarrow> False | Some a \<Rightarrow> a \<in> set (toStringArray (Some (JArr vs))))"
    apply (simp_all only: value_listed.simps identitiesIntersect_iff in_toStringArray str_elements Bex_def field_kind.distinct json.inject option.inject simp_thms)
    apply blast
   apply blast
  apply (auto split: option.splits dest: sym)
  done

lemma operator_name_inj: "operator_name a = operator_name b \<longleftrightarrow> a = b"
  by (cases a; cases b) simp_all

text \<open>On a validated condition the evaluation is what the condition says.\<close>

lemma evaluateCondition_says:
  assumes "validateCondition c b = None" and def: "getFieldDefinition family (field_of (Some c) ''field'') = Some def"
    and op: "field_of (Some c) ''operator'' = Some (JStr (operator_name op))"
  shows "evaluateCondition def c data r \<longleftrightarrow> condition_says op def data r c"
proof -
  from assms(1) obtain f d o' where v: "field_of (Some c) ''field'' = Some (JStr f)" "findFieldDefinition f = Some d"
    "o' \<in> set (operators d)" "field_of (Some c) ''operator'' = Some (JStr (operator_name o'))"
    "check_value d b (field_of (Some c) ''value'') = None"
    "field_of (Some c) ''caseSensitive'' = None \<or> (\<exists>cs. field_of (Some c) ''caseSensitive'' = Some (JBool cs))"
    by (rule validateCondition_None)
  have "family = ''message''"
    using def by (auto simp: getFieldDefinition_def FILTER_FIELDS_def split: option.splits if_splits)
  with v def have "d = def"
    by (simp add: getField_message)
  with v have opd: "op \<in> set (operators def)" and val: "check_value def b (field_of (Some c) ''value'') = None"
    using op by (auto simp: operator_name_inj)
  have cs: "js_truthy (field_of (Some c) ''caseSensitive'') \<longleftrightarrow> field_of (Some c) ''caseSensitive'' = Some (JBool True)"
    using v(6) by auto
  note kinds = registered_kinds(1) [OF def opd] registered_kinds(2,3) [OF def opd, of data]
  have isNot: "operator_name op = ''isNot'' \<longleftrightarrow> op = OpIsNot" "operator_name op = ''equals'' \<longleftrightarrow> op = OpEquals"
    by (cases op; simp)+
  have listed: "\<exists>vs. field_of (Some c) ''value'' = Some (JArr vs)" if "field_kind def \<in> {IdField, IdArrayField, EnumField}"
    using val that by (auto simp: check_value_def split: option.splits json.splits)
  show ?thesis
  proof (cases "field_kind def")
    case BooleanField
    with kinds(2) val show ?thesis
      by (auto simp: evaluateCondition_def check_value_def op listed_values_def value_listed.simps split: option.splits json.splits)
  next
    case TextField
    with kinds(3) obtain s where "op \<in> {OpContains, OpEquals}" "field_resolve def data = Some (JStr s)"
      by blast
    moreover obtain n where "field_of (Some c) ''value'' = Some (JStr n)"
      using TextField val by (auto simp: check_value_def split: option.splits json.splits)
    ultimately show ?thesis
      using TextField by (elim insertE) (simp_all add: evaluateCondition_def op isNot cs folded_def str_includes_iff)
  qed (use kinds(1) listed in \<open>auto simp: evaluateCondition_def op isNot negate_if_def listed_values_def value_listed_iff simp del: toStringArray.simps\<close>)
qed

lemma holds_iff:
  assumes "validateCondition c b = None"
  shows "condition_holds family data r c \<longleftrightarrow>
    (case getFieldDefinition family (field_of (Some c) ''field'') of None \<Rightarrow> True | Some def \<Rightarrow> evaluateCondition def c data r)"
proof (cases "getFieldDefinition family (field_of (Some c) ''field'')")
  case (Some def)
  from assms obtain op where op: "field_of (Some c) ''operator'' = Some (JStr (operator_name op))"
    by (rule validateCondition_None)
  then show ?thesis
    using Some evaluateCondition_says [OF assms Some op] by (simp add: condition_holds_def operator_name_inj)
qed (simp add: condition_holds_def)

text \<open>
  C18: a filter that passed validation decides every event. Evaluating it never throws, and it fires
  exactly when every condition holds on the event: an \<open>is\<close> lists a value that is the event's (for an id,
  the same party: one address, or a lid and its known phone on either side), an \<open>isNot\<close> lists none, a
  \<open>contains\<close> is a substring and an \<open>equals\<close> the text itself, up to case unless the condition is case
  sensitive. On a message event no condition is skipped: each names a registered field and an operator
  that field allows; an event of another family has none of the fields, and every filter fires.
\<close>

theorem validated_filters_decide:
  assumes "collectFilterErrors f b = []"
  shows "evaluateFilters f event data r = Some (\<forall>c \<in> set (conditions_of f). condition_holds (eventFamily event) data r c)
    \<and> (\<forall>c \<in> set (conditions_of f). \<exists>name def op. field_of (Some c) ''field'' = Some (JStr name)
        \<and> getFieldDefinition ''message'' (Some (JStr name)) = Some def
        \<and> op \<in> set (operators def) \<and> field_of (Some c) ''operator'' = Some (JStr (operator_name op))
        \<and> (condition_holds ''message'' data r c \<longleftrightarrow> condition_says op def data r c))"
proof
  have valid: "validateCondition c b = None" if "c \<in> set (conditions_of f)" for c
    using assms that by (rule collectFilterErrors_Nil)
  have holds: "condition_holds family data r c \<longleftrightarrow>
      (case getFieldDefinition family (field_of (Some c) ''field'') of None \<Rightarrow> True | Some def \<Rightarrow> evaluateCondition def c data r)"
    if "c \<in> set (conditions_of f)" for c family
    by (rule holds_iff [OF valid [OF that]])
  have "JNull \<notin> set (conditions_of f)"
    using valid by (metis validateCondition_None)
  moreover have "js_truthy f" if "field_of f ''conditions'' = Some v" for v
    using that by (cases f; cases "the f") auto
  ultimately show "evaluateFilters f event data r = Some (\<forall>c \<in> set (conditions_of f). condition_holds (eventFamily event) data r c)"
    using holds by (auto simp: evaluateFilters_def conditions_of_def evaluateConditions_total list_all_iff split: option.splits json.splits)
  show "\<forall>c \<in> set (conditions_of f). \<exists>name def op. field_of (Some c) ''field'' = Some (JStr name)
        \<and> getFieldDefinition ''message'' (Some (JStr name)) = Some def
        \<and> op \<in> set (operators def) \<and> field_of (Some c) ''operator'' = Some (JStr (operator_name op))
        \<and> (condition_holds ''message'' data r c \<longleftrightarrow> condition_says op def data r c)"
  proof
    fix c assume "c \<in> set (conditions_of f)"
    from valid [OF this] obtain name def op where
      *: "field_of (Some c) ''field'' = Some (JStr name)" "findFieldDefinition name = Some def"
      "op \<in> set (operators def)" "field_of (Some c) ''operator'' = Some (JStr (operator_name op))"
      by (rule validateCondition_None)
    then show "\<exists>name def op. field_of (Some c) ''field'' = Some (JStr name)
        \<and> getFieldDefinition ''message'' (Some (JStr name)) = Some def
        \<and> op \<in> set (operators def) \<and> field_of (Some c) ''operator'' = Some (JStr (operator_name op))
        \<and> (condition_holds ''message'' data r c \<longleftrightarrow> condition_says op def data r c)"
      by (auto simp: condition_holds_def getField_message operator_name_inj)
  qed
qed

definition sample_filter :: json where
  "sample_filter = JObj [(''conditions'', JArr
     [JObj [(''field'', JStr ''sender''), (''operator'', JStr ''is''), (''value'', JArr [JStr ''628111''])],
      JObj [(''field'', JStr ''body''), (''operator'', JStr ''contains''), (''value'', JStr ''Hello'')]])]"

definition sample_event :: json where
  "sample_event = JObj [(''from'', JStr ''628111@s.whatsapp.net''), (''body'', JStr ''oh hello there'')]"

theorem validated_filters_decide_witness:
  "evaluateFilters (Some sample_filter) ''message.received'' sample_event None = Some True
   \<and> list_all (condition_holds ''message'' sample_event None) (conditions_of (Some sample_filter))"
proof -
  have "collectFilterErrors (Some sample_filter) True = []"
    by code_simp
  from validated_filters_decide [OF this, of "''message.received''" sample_event None]
  have "evaluateFilters (Some sample_filter) ''message.received'' sample_event None =
      Some (\<forall>c \<in> set (conditions_of (Some sample_filter)). condition_holds (eventFamily ''message.received'') sample_event None c)"
    by blast
  moreover have "eventFamily ''message.received'' = ''message''"
    by code_simp
  moreover have "evaluateFilters (Some sample_filter) ''message.received'' sample_event None = Some True"
    by code_simp
  ultimately show ?thesis
    by (simp add: list_all_iff)
qed

section \<open>Whose identity an id condition matches\<close>

lemma clean_trim:
  assumes "clean_local u" and "d \<noteq> []" and "\<not> js_ws (last d)"
  shows "trim (u @ d) = u @ d"
  using assms by (intro trim_fix) (simp add: clean_local_def)

lemma clean_trims:
  assumes "clean_local u"
  shows "trim (u @ ''@c.us'') = u @ ''@c.us''" "trim (u @ ''@s.whatsapp.net'') = u @ ''@s.whatsapp.net''"
    "trim (u @ ''@lid'') = u @ ''@lid''"
  by (rule clean_trim [OF assms]; simp add: js_ws_def)+

lemma clean_lower: "clean_local u \<Longrightarrow> toLowerCase u = u"
  by (simp add: clean_local_def)

lemma lower_domains [simp]:
  "toLowerCase ''@lid'' = ''@lid''" "toLowerCase ''@s.whatsapp.net'' = ''@s.whatsapp.net''"
  by code_simp+

lemma canonical_forms:
  assumes "clean_local u"
  shows "canonicalActor (u @ ''@c.us'') r = u @ ''@c.us''" "canonicalActor (u @ ''@s.whatsapp.net'') r = u @ ''@c.us''"
    "canonicalInput (u @ ''@c.us'') r = u @ ''@c.us''" "canonicalInput (u @ ''@s.whatsapp.net'') r = u @ ''@c.us''"
    "canonicalActor (u @ ''@lid'') r = (case r of None \<Rightarrow> u @ ''@lid''
       | Some f \<Rightarrow> if truthy (f (u @ ''@lid'')) then toLowerCase (the (f (u @ ''@lid''))) @ ''@c.us'' else u @ ''@lid'')"
    "canonicalInput (u @ ''@lid'') r = (case r of None \<Rightarrow> u @ ''@lid''
       | Some f \<Rightarrow> if truthy (f (u @ ''@lid'')) then toLowerCase (the (f (u @ ''@lid''))) @ ''@c.us'' else u @ ''@lid'')"
  by (simp_all add: canonicalActor_def canonicalInput_def Let_def toNeutralJid_def parse_dialects [OF assms]
      clean_trims [OF assms] clean_lower [OF assms] split: option.splits)

text \<open>
  What an id condition matches. A reported pair bridges a lid and its phone, whichever side the
  condition names; two different lids never match, even when both resolve to one phone; and the two
  user dialects are one identity on either side.
\<close>

theorem id_conditions_bridge:
  assumes "clean_local u" and "clean_local l" and "clean_local l'" and "l \<noteq> l'"
  shows "\<not> identitiesIntersect [l' @ ''@lid''] [l @ ''@lid''] r
    \<and> identitiesIntersect [l @ ''@lid''] [u @ ''@c.us''] (Some f) = (truthy (f (l @ ''@lid'')) \<and> toLowerCase (the (f (l @ ''@lid''))) = u)
    \<and> identitiesIntersect [u @ ''@c.us''] [l @ ''@lid''] (Some f) = (truthy (f (l @ ''@lid'')) \<and> toLowerCase (the (f (l @ ''@lid''))) = u)
    \<and> identitiesIntersect cs [u @ ''@s.whatsapp.net''] r = identitiesIntersect cs [u @ ''@c.us''] r
    \<and> identitiesIntersect [u @ ''@s.whatsapp.net''] as r = identitiesIntersect [u @ ''@c.us''] as r"
proof -
  have ne: "x @ ''@c.us'' \<noteq> y @ ''@lid''" "x @ ''@lid'' \<noteq> y @ ''@c.us''" for x y :: string
    by (auto dest: arg_cong [where f = last])
  note forms = canonical_forms [OF assms(1)] canonical_forms [OF assms(2)] canonical_forms [OF assms(3)]
    parse_dialects [OF assms(1)] parse_dialects [OF assms(2)] parse_dialects [OF assms(3)]
  show ?thesis
    using assms(4) by (auto simp: identitiesIntersect_def Let_def forms ne split: option.splits)
qed

theorem id_conditions_bridge_witness:
  "\<not> identitiesIntersect [''88@lid''] [''77@lid''] (Some (\<lambda>_. Some ''628111''))
   \<and> identitiesIntersect [''77@lid''] [''628111@c.us''] (Some (\<lambda>_. Some ''628111''))"
proof -
  have clean: "clean_local ''628111''" "clean_local ''77''" "clean_local ''88''"
    by code_simp+
  have low: "toLowerCase ''628111'' = ''628111''"
    by code_simp
  from id_conditions_bridge [OF clean, of "Some (\<lambda>_. Some ''628111'')" "\<lambda>_. Some ''628111''"] show ?thesis
    by (simp add: low)
qed

section \<open>Reading the aliases once\<close>

lemma toNeutralJid_resolver:
  assumes "kind (parseWaId j) = LidKind \<Longrightarrow> f j = g j"
  shows "toNeutralJid j (Some f) = toNeutralJid j (Some g)"
  using assms by (simp add: toNeutralJid_def Let_def split: wa_id_kind.splits)

text \<open>Two resolvers that agree on the lids of a comparison decide it alike.\<close>

lemma identitiesIntersect_cong:
  assumes agree: "\<And>j. j \<in> set (actual @ candidates) \<Longrightarrow> kind (parseWaId j) = LidKind \<Longrightarrow> f j = g j \<and> f (trim j) = g (trim j)"
  shows "identitiesIntersect candidates actual (Some f) = identitiesIntersect candidates actual (Some g)"
proof -
  have "map (\<lambda>v. canonicalInput v (Some f)) (filter (\<lambda>v. kind (parseWaId v) = LidKind) candidates) =
      map (\<lambda>v. canonicalInput v (Some g)) (filter (\<lambda>v. kind (parseWaId v) = LidKind) candidates)"
    using agree by (auto simp: canonicalInput_def Let_def parse_trim parse_Nil intro!: arg_cong [of _ _ toLowerCase] toNeutralJid_resolver)
  moreover have "canonicalActor j (Some f) = canonicalActor j (Some g)" if "j \<in> set actual" "kind (parseWaId j) = LidKind" for j
    using agree that by (auto simp: canonicalActor_def intro!: arg_cong [of _ _ toLowerCase] toNeutralJid_resolver)
  ultimately show ?thesis
    unfolding identitiesIntersect_def Let_def by (auto simp: list_ex_iff)
qed

lemma evaluateCondition_cong:
  assumes def: "getFieldDefinition family (field_of (Some c) ''field'') = Some def" and "c \<noteq> JNull"
    and agree: "\<And>j. kind (parseWaId j) = LidKind \<Longrightarrow> user_part (parseWaId j) \<in> set (condition_lids family data c) \<Longrightarrow> f j = g j"
  shows "evaluateCondition def c data (Some f) = evaluateCondition def c data (Some g)"
proof -
  let ?v = "toStringArray (field_of (Some c) ''value'')"
  have *: "identitiesIntersect ?v actual (Some f) = identitiesIntersect ?v actual (Some g)"
    if "field_kind def = IdField \<and> actual = json_str (field_resolve def data)
        \<or> field_kind def = IdArrayField \<and> actual = toStringArray (field_resolve def data) \<and> str (field_resolve def data) = None" for actual
  proof (rule identitiesIntersect_cong)
    fix j assume j: "j \<in> set (actual @ ?v)" "kind (parseWaId j) = LidKind"
    have "set (actual @ ?v) \<subseteq> set ((case str (field_resolve def data) of Some s \<Rightarrow> [s] | None \<Rightarrow> toStringArray (field_resolve def data)) @ ?v)"
      using that by (auto simp: json_str_def split: option.splits)
    with j that have "user_part (parseWaId j) \<in> set (condition_lids family data c)"
      using assms(1,2) by (auto simp: condition_lids_def Let_def split: option.splits)
    with agree [of j] agree [of "trim j"] j(2) show "f j = g j \<and> f (trim j) = g (trim j)"
      by (simp add: parse_trim)
  qed
  show ?thesis
  proof (cases "field_kind def")
    case IdArrayField
    then have "str (field_resolve def data) = None"
      using def by (auto simp: getFieldDefinition_def FILTER_FIELDS_def message_fields_def split: option.splits if_splits json.splits)
    with IdArrayField *[of "toStringArray (field_resolve def data)"] show ?thesis
      by (simp add: evaluateCondition_def Let_def)
  qed (use * in \<open>simp_all add: evaluateCondition_def Let_def\<close>)
qed

text \<open>
  C37: reading the aliases once is enough. When the read answers the phones of the lids it is asked for,
  every filter of the batch decides the event with the prepared resolver as it would with one that could
  look up any lid at any time.
\<close>

theorem aliases_read_once:
  assumes "flt \<in> set filters"
    and read: "\<And>lids. \<exists>m. rd lids = Some m \<and> (\<forall>l \<in> set lids. map_of m l = Some (phone_of l))"
  shows "evaluateFilters flt event data (prepareFilterLidResolver filters event data (Some rd)) =
    evaluateFilters flt event data (Some (\<lambda>jid. phone_of (user_part (parseWaId jid))))"
proof -
  let ?family = "eventFamily event"
  define lids where "lids = js_set (concat (map (\<lambda>f. case field_of f ''conditions'' of
      Some (JArr cs) \<Rightarrow> concat (map (condition_lids ?family data) cs) | _ \<Rightarrow> []) filters))"
  define phones where "phones = (if lids \<noteq> [] then (case rd lids of Some m \<Rightarrow> m | None \<Rightarrow> []) else [])"
  define f where "f = (\<lambda>jid. case map_of phones (user_part (parseWaId jid)) of Some p \<Rightarrow> p | None \<Rightarrow> None)"
  define g where "g = (\<lambda>jid. phone_of (user_part (parseWaId jid)))"
  have prep: "prepareFilterLidResolver filters event data (Some rd) = Some f"
    unfolding prepareFilterLidResolver_def f_def phones_def lids_def by (simp add: Let_def)
  have known: "f j = g j" if j: "user_part (parseWaId j) \<in> set lids" for j
  proof -
    obtain m where m: "rd lids = Some m" "map_of m (user_part (parseWaId j)) = Some (phone_of (user_part (parseWaId j)))"
      using read [of lids] j by blast
    moreover have "phones = m"
      using j m(1) by (auto simp: phones_def)
    ultimately show ?thesis
      by (simp add: f_def g_def)
  qed
  have "evaluateConditions ?family data (Some f) cs = evaluateConditions ?family data (Some g) cs"
    if "\<And>c. c \<in> set cs \<Longrightarrow> set (condition_lids ?family data c) \<subseteq> set lids" for cs
    using that
  proof (induction cs)
    case (Cons c cs)
    have "evaluateCondition def c data (Some f) = evaluateCondition def c data (Some g)"
      if "getFieldDefinition ?family (field_of (Some c) ''field'') = Some def" "c \<noteq> JNull" for def
      using that Cons.prems [of c] known by (intro evaluateCondition_cong) auto
    with Cons show ?case
      by (auto split: option.splits)
  qed simp
  moreover have "set (condition_lids ?family data c) \<subseteq> set lids"
    if "field_of flt ''conditions'' = Some (JArr cs)" "c \<in> set cs" for cs c
    using that assms(1) by (force simp: lids_def)
  ultimately show ?thesis
    unfolding prep g_def [symmetric] by (auto simp: evaluateFilters_def split: option.splits json.splits)
qed

theorem aliases_read_once_witness:
  "evaluateFilters (Some sample_filter) ''message.received'' sample_event
     (prepareFilterLidResolver [Some sample_filter] ''message.received'' sample_event
        (Some (\<lambda>lids. Some (map (\<lambda>l. (l, Some ''628111'')) lids)))) =
   evaluateFilters (Some sample_filter) ''message.received'' sample_event (Some (\<lambda>jid. Some ''628111''))"
proof (rule aliases_read_once [where phone_of = "\<lambda>_. Some ''628111''"])
  show "Some sample_filter \<in> set [Some sample_filter]"
    by simp
  show "\<exists>m. Some (map (\<lambda>l. (l, Some ''628111'')) lids) = Some m \<and> (\<forall>l \<in> set lids. map_of m l = Some (Some ''628111''))"
    for lids :: "string list"
    by (simp add: map_of_map_restrict)
qed

end
