(* ===== verification/Mutation_Guard.thy ===== *)
theory Mutation_Guard
  imports Pacing_Cold
begin

text \<open>
  Whether an inbound edit, revoke, reaction or receipt may touch the stored row it names
  (\<open>src/modules/session/message-mutation-guard.ts\<close>). The resolver maps a lid to its phone, or to null;
  \<open>None\<close> where the caller passes none.
\<close>

section \<open>Entities\<close>

record stored_ref =
  ref_chat :: string
  ref_direction :: message_direction
  ref_author :: "string option"

datatype mutation_kind = EditMutation | RevokeMutation | ReactionMutation

record mutation_source =
  mut_kind :: mutation_kind
  mut_chat :: string
  mut_fromMe :: "bool option"
  mut_author :: "string option"
  mut_admin :: "bool option"

text \<open>The three anchored replacements of \<open>phoneKey\<close>, each leaving a string it does not match alone.\<close>

definition drop_brazil :: "string \<Rightarrow> string" where
  "drop_brazil s = (if length s = 13 \<and> take 2 s = ''55'' \<and> s ! 4 = CHR ''9'' then take 4 s @ drop 5 s else s)"

definition drop_mexico :: "string \<Rightarrow> string" where
  "drop_mexico s = (if length s = 13 \<and> take 3 s = ''521'' then ''52'' @ drop 3 s else s)"

definition drop_argentina :: "string \<Rightarrow> string" where
  "drop_argentina s = (if 4 \<le> length s \<and> take 3 s = ''549'' then ''54'' @ drop 3 s else s)"

definition phoneKey :: "string \<Rightarrow> string" where
  "phoneKey local = drop_argentina (drop_mexico (drop_brazil (filter is_digit local)))"

text \<open>The regular expression \<open>/^\+?\d[\d -]*$/\<close>.\<close>

definition bare_phone :: "string \<Rightarrow> bool" where
  "bare_phone s =
     (let t = (case s of c # cs \<Rightarrow> if c = CHR ''+'' then cs else s | [] \<Rightarrow> [])
      in t \<noteq> [] \<and> is_digit (hd t) \<and> list_all (\<lambda>c. is_digit c \<or> c = CHR '' '' \<or> c = CHR ''-'') (tl t))"

definition entityOf :: "string \<Rightarrow> (wa_id_kind \<times> string) option" where
  "entityOf jid =
     (let p = parseWaId jid
      in if kind p = UserKind then Some (UserKind, phoneKey (user_part p))
         else if kind p \<noteq> UnknownKind then Some (kind p, user_part p)
         else if CHR ''@'' \<notin> set jid \<and> bare_phone (trim jid) then Some (UserKind, phoneKey jid)
         else None)"

definition isPerson :: "wa_id_kind \<Rightarrow> bool" where
  "isPerson k \<longleftrightarrow> k = UserKind \<or> k = LidKind"

definition ask :: "phone_resolver \<Rightarrow> string \<Rightarrow> string option" where
  "ask r jid = (case r of None \<Rightarrow> None | Some f \<Rightarrow> f jid)"

definition provablyDifferent :: "string option \<Rightarrow> string option \<Rightarrow> phone_resolver \<Rightarrow> bool" where
  "provablyDifferent a b r =
     (if \<not> truthy a \<or> \<not> truthy b \<or> a = b then False
      else case (entityOf (the a), entityOf (the b)) of
             (Some (k1, i1), Some (k2, i2)) \<Rightarrow>
               if k1 = k2 then i1 \<noteq> i2
               else if \<not> isPerson k1 \<or> \<not> isPerson k2 then True
               else (let mapped = ask r (if k1 = LidKind then the a else the b);
                         phone = (if k1 = UserKind then i1 else i2)
                     in \<not> truthy mapped \<or> phoneKey (the mapped) \<noteq> phone)
           | _ \<Rightarrow> False)"

definition differentWhenPaired :: "string option \<Rightarrow> string option \<Rightarrow> phone_resolver \<Rightarrow> bool" where
  "differentWhenPaired a b r =
     (let left = (if truthy a then entityOf (the a) else None);
          right = (if truthy b then entityOf (the b) else None)
      in case (left, right) of
           (Some (k1, _), Some (k2, _)) \<Rightarrow>
             if k1 \<noteq> k2 \<and> isPerson k1 \<and> isPerson k2 \<and> \<not> truthy (ask r (if k1 = LidKind then the a else the b)) then False
             else provablyDifferent a b r
         | _ \<Rightarrow> provablyDifferent a b r)"

section \<open>The guard\<close>

definition isOwnBroadcast :: "stored_ref \<Rightarrow> bool" where
  "isOwnBroadcast row =
     (let k = map_option fst (entityOf (ref_chat row))
      in ref_direction row = OUTGOING \<and> (k = Some BroadcastKind \<or> k = Some StatusKind))"

definition receivedThroughList :: "stored_ref \<Rightarrow> string \<Rightarrow> phone_resolver \<Rightarrow> bool" where
  "receivedThroughList row chatId r =
     (ref_direction row = INCOMING \<and> map_option fst (entityOf (ref_chat row)) = Some BroadcastKind
      \<and> \<not> provablyDifferent (ref_author row) (Some chatId) r)"

datatype foreign_reason = ForeignChat | ForeignDirection | ForeignAuthor

definition mutationTargetsForeignRow :: "stored_ref \<Rightarrow> mutation_source \<Rightarrow> phone_resolver \<Rightarrow> foreign_reason option" where
  "mutationTargetsForeignRow row source r =
     (let listed = ((mut_kind source = ReactionMutation \<and> isOwnBroadcast row) \<or> receivedThroughList row (mut_chat source) r);
          group = (endsWith (mut_chat source) ''@g.us'' \<or> endsWith (ref_chat row) ''@g.us'');
          authorOnly = (mut_kind source = EditMutation \<or> (mut_kind source = RevokeMutation \<and> \<not> group))
      in if \<not> listed \<and> provablyDifferent (Some (ref_chat row)) (Some (mut_chat source)) r then Some ForeignChat
         else if authorOnly \<and> (case mut_fromMe source of
                  None \<Rightarrow> False | Some me \<Rightarrow> ref_direction row \<noteq> (if me then OUTGOING else INCOMING))
         then Some ForeignDirection
         else if mut_kind source = EditMutation \<and> group \<and> mut_fromMe source = Some False
                 \<and> provablyDifferent (ref_author row) (mut_author source) r
         then Some ForeignAuthor
         else if mut_kind source = RevokeMutation \<and> group \<and> mut_fromMe source = Some False \<and> mut_admin source = Some False
                 \<and> (ref_direction row = OUTGOING \<or> differentWhenPaired (ref_author row) (mut_author source) r)
         then Some ForeignAuthor
         else None)"

definition receiptTargetsForeignRow :: "stored_ref \<Rightarrow> string \<Rightarrow> phone_resolver \<Rightarrow> bool" where
  "receiptTargetsForeignRow row chatId r =
     (if isOwnBroadcast row \<or> receivedThroughList row chatId r then False
      else differentWhenPaired (Some (ref_chat row)) (Some chatId) r)"

text \<open>
  The lids among the ids compared, each looked up once; \<open>lookup\<close> answers \<open>None\<close> for null and for a read
  that was rejected. An id outside the map resolves to null.
\<close>

definition lid_answers :: "(string \<Rightarrow> string option) \<Rightarrow> string option list \<Rightarrow> (string \<times> string option) list" where
  "lid_answers lookup ids =
     map (\<lambda>j. (j, lookup j)) (filter (\<lambda>j. j \<noteq> [] \<and> kind (parseWaId j) = LidKind)
       (List.map_filter id (js_set ids)))"

definition answers_resolver :: "(string \<times> string option) list \<Rightarrow> phone_resolver" where
  "answers_resolver phones = Some (\<lambda>jid. case map_of phones jid of Some p \<Rightarrow> p | None \<Rightarrow> None)"

definition mutationTargetsForeignRowPersisted ::
    "stored_ref \<Rightarrow> mutation_source \<Rightarrow> (string \<Rightarrow> string option) option \<Rightarrow> foreign_reason option" where
  "mutationTargetsForeignRowPersisted row source lookupLid =
     (case lookupLid of
        None \<Rightarrow> mutationTargetsForeignRow row source None
      | Some lookup \<Rightarrow> mutationTargetsForeignRow row source (answers_resolver
          (lid_answers lookup [Some (ref_chat row), ref_author row, Some (mut_chat source), mut_author source])))"

definition receiptTargetsForeignRowPersisted :: "stored_ref \<Rightarrow> string \<Rightarrow> (string \<Rightarrow> string option) option \<Rightarrow> bool" where
  "receiptTargetsForeignRowPersisted row chatId lookupLid =
     (case lookupLid of
        None \<Rightarrow> receiptTargetsForeignRow row chatId None
      | Some lookup \<Rightarrow> receiptTargetsForeignRow row chatId (answers_resolver
          (lid_answers lookup [Some (ref_chat row), ref_author row, Some chatId])))"

section \<open>Apartness\<close>

lemma entity_lid: "entityOf j = Some (LidKind, i) \<Longrightarrow> kind (parseWaId j) = LidKind"
  by (auto simp: entityOf_def Let_def split: if_splits)

lemma provablyDifferent_sym: "provablyDifferent a b r = provablyDifferent b a r"
proof (cases "truthy a \<and> truthy b \<and> a \<noteq> b")
  case True
  then show ?thesis
    by (cases "entityOf (the a)"; cases "entityOf (the b)")
      (auto simp: provablyDifferent_def isPerson_def Let_def)
qed (auto simp: provablyDifferent_def)

text \<open>Both comparisons ask the resolver about the lid among the two ids only.\<close>

lemma ask_cong:
  assumes "\<And>j. Some j \<in> {a, b} \<Longrightarrow> j \<noteq> [] \<Longrightarrow> kind (parseWaId j) = LidKind \<Longrightarrow> ask r j = ask r' j"
  shows "provablyDifferent a b r = provablyDifferent a b r'" and "differentWhenPaired a b r = differentWhenPaired a b r'"
proof -
  have "provablyDifferent a b r = provablyDifferent a b r' \<and> differentWhenPaired a b r = differentWhenPaired a b r'"
  proof (cases "\<exists>x y k1 i1 k2 i2. a = Some x \<and> b = Some y \<and> x \<noteq> [] \<and> y \<noteq> [] \<and> entityOf x = Some (k1, i1) \<and> entityOf y = Some (k2, i2)
      \<and> k1 \<noteq> k2 \<and> isPerson k1 \<and> isPerson k2")
    case True
    then obtain x y k1 i1 k2 i2 where e: "a = Some x" "b = Some y" "x \<noteq> []" "y \<noteq> []" "entityOf x = Some (k1, i1)"
      "entityOf y = Some (k2, i2)" "k1 \<noteq> k2" "isPerson k1" "isPerson k2" by blast
    then have "ask r (if k1 = LidKind then x else y) = ask r' (if k1 = LidKind then x else y)"
      using assms [of x] assms [of y] by (auto simp: isPerson_def dest: entity_lid)
    with e show ?thesis
      by (cases "k1 = LidKind") (simp_all add: provablyDifferent_def differentWhenPaired_def Let_def)
  next
    case False
    have "provablyDifferent a b r = provablyDifferent a b r' \<and> (\<forall>q. differentWhenPaired a b q = provablyDifferent a b q)"
    proof (cases "truthy a \<and> truthy b \<and> entityOf (the a) \<noteq> None \<and> entityOf (the b) \<noteq> None")
      case True
      then obtain x y k1 i1 k2 i2 where e: "a = Some x" "b = Some y" "x \<noteq> []" "y \<noteq> []" "entityOf x = Some (k1, i1)"
        "entityOf y = Some (k2, i2)"
        by (auto simp: truthy_iff)
      with False have "k1 = k2 \<or> \<not> isPerson k1 \<or> \<not> isPerson k2"
        by blast
      with e show ?thesis
        by (auto simp: provablyDifferent_def differentWhenPaired_def)
    next
      case False
      then consider "\<not> truthy a" | "\<not> truthy b" | "truthy a" "truthy b" "entityOf (the a) = None"
        | "truthy a" "truthy b" "entityOf (the b) = None"
        by blast
      then show ?thesis
        by cases (auto simp: provablyDifferent_def differentWhenPaired_def Let_def split: option.splits)
    qed
    then show ?thesis by simp
  qed
  then show "provablyDifferent a b r = provablyDifferent a b r'" "differentWhenPaired a b r = differentWhenPaired a b r'"
    by blast+
qed

lemma ask_answers:
  assumes "Some j \<in> set ids" "j \<noteq> []" "kind (parseWaId j) = LidKind"
  shows "ask (answers_resolver (lid_answers lookup ids)) j = ask (Some lookup) j"
proof -
  have "j \<in> set (filter (\<lambda>j. j \<noteq> [] \<and> kind (parseWaId j) = LidKind) (List.map_filter id (js_set ids)))"
    using assms by (auto simp: List.map_filter_def image_iff intro!: bexI [of _ "Some j"])
  then show ?thesis
    by (simp add: ask_def answers_resolver_def lid_answers_def map_of_map_restrict)
qed

section \<open>Whose change reaches a row\<close>

text \<open>
  Two ids may name one party: they are one id, one of them cannot be placed, they are spellings of one
  entity, or a lid and the phone the directory reports for it.
\<close>

inductive same_party :: "phone_resolver \<Rightarrow> string \<Rightarrow> string \<Rightarrow> bool" for r where
  same_id: "same_party r a a"
| unplaced: "entityOf a = None \<or> entityOf b = None \<Longrightarrow> same_party r a b"
| spelling: "entityOf a = entityOf b \<Longrightarrow> same_party r a b"
| lid_of: "entityOf l = Some (LidKind, i) \<Longrightarrow> entityOf p = Some (UserKind, phoneKey m) \<Longrightarrow> ask r l = Some m \<Longrightarrow> m \<noteq> [] \<Longrightarrow>
    same_party r l p"
| phone_of: "entityOf l = Some (LidKind, i) \<Longrightarrow> entityOf p = Some (UserKind, phoneKey m) \<Longrightarrow> ask r l = Some m \<Longrightarrow> m \<noteq> [] \<Longrightarrow>
    same_party r p l"

text \<open>The same for ids that may be missing, and with a lid and a phone of unknown pairing given the benefit.\<close>

definition may_be :: "phone_resolver \<Rightarrow> string option \<Rightarrow> string option \<Rightarrow> bool" where
  "may_be r a b \<longleftrightarrow> (\<forall>x y. a = Some x \<and> b = Some y \<and> x \<noteq> [] \<and> y \<noteq> [] \<longrightarrow> same_party r x y)"

definition unpaired :: "phone_resolver \<Rightarrow> string option \<Rightarrow> string option \<Rightarrow> bool" where
  "unpaired r a b \<longleftrightarrow> (\<exists>l p i k. {a, b} = {Some l, Some p} \<and> l \<noteq> [] \<and> p \<noteq> [] \<and> entityOf l = Some (LidKind, i)
      \<and> entityOf p = Some (UserKind, k) \<and> \<not> truthy (ask r l))"

lemma may_be_iff: "may_be r a b \<longleftrightarrow> \<not> provablyDifferent a b r"
proof (cases "truthy a \<and> truthy b")
  case True
  then obtain x y where xy: "a = Some x" "b = Some y" "x \<noteq> []" "y \<noteq> []"
    by (auto simp: truthy_iff)
  have "same_party r x y \<longleftrightarrow> \<not> provablyDifferent (Some x) (Some y) r"
    using xy(3,4)
    by (cases "entityOf x"; cases "entityOf y")
      (auto simp: same_party.simps provablyDifferent_def isPerson_def truthy_iff Let_def)
  with xy show ?thesis
    by (simp add: may_be_def)
qed (auto simp: may_be_def provablyDifferent_def truthy_iff)

lemma paired_iff: "may_be r a b \<or> unpaired r a b \<longleftrightarrow> \<not> differentWhenPaired a b r"
  unfolding may_be_iff
proof (cases "truthy a \<and> truthy b")
  case True
  then obtain x y where xy: "a = Some x" "b = Some y" "x \<noteq> []" "y \<noteq> []"
    by (auto simp: truthy_iff)
  show "(\<not> provablyDifferent a b r \<or> unpaired r a b) = (\<not> differentWhenPaired a b r)"
  proof (cases "unpaired r a b")
    case True
    with xy show ?thesis
      by (auto simp: unpaired_def differentWhenPaired_def isPerson_def doubleton_eq_iff)
  next
    case False
    have "differentWhenPaired a b r = provablyDifferent a b r"
    proof (cases "\<exists>k1 i1 k2 i2. entityOf x = Some (k1, i1) \<and> entityOf y = Some (k2, i2) \<and> k1 \<noteq> k2 \<and> isPerson k1 \<and> isPerson k2")
      case True
      then obtain k1 i1 k2 i2 where e: "entityOf x = Some (k1, i1)" "entityOf y = Some (k2, i2)" "k1 \<noteq> k2" "isPerson k1" "isPerson k2"
        by blast
      then consider "k1 = LidKind" "k2 = UserKind" | "k1 = UserKind" "k2 = LidKind"
        by (auto simp: isPerson_def)
      then have "truthy (ask r (if k1 = LidKind then x else y))"
        using False xy e unfolding unpaired_def by cases (auto simp: doubleton_eq_iff)
      with xy e show ?thesis
        by (auto simp: differentWhenPaired_def)
    qed (use xy in \<open>auto simp: differentWhenPaired_def split: option.splits\<close>)
    with False show ?thesis by simp
  qed
next
  case False
  then show "(\<not> provablyDifferent a b r \<or> unpaired r a b) = (\<not> differentWhenPaired a b r)"
    by (cases "truthy a") (auto simp: provablyDifferent_def differentWhenPaired_def split: option.split)
qed

text \<open>
  The changes a stored row may take, by their kind: the change is made in the row's chat, from the side that
  wrote the message, by its author, or in a group by whom the roster does not show to be no admin.
\<close>

definition in_group :: "stored_ref \<Rightarrow> mutation_source \<Rightarrow> bool" where
  "in_group row src \<longleftrightarrow> endsWith (mut_chat src) ''@g.us'' \<or> endsWith (ref_chat row) ''@g.us''"

definition at_home :: "phone_resolver \<Rightarrow> stored_ref \<Rightarrow> mutation_source \<Rightarrow> bool" where
  "at_home r row src \<longleftrightarrow>
     may_be r (Some (ref_chat row)) (Some (mut_chat src))
     \<or> (ref_direction row = INCOMING \<and> map_option fst (entityOf (ref_chat row)) = Some BroadcastKind
        \<and> may_be r (ref_author row) (Some (mut_chat src)))"

definition own_side :: "stored_ref \<Rightarrow> mutation_source \<Rightarrow> bool" where
  "own_side row src \<longleftrightarrow>
     mut_fromMe src = None \<or> mut_fromMe src = Some True \<and> ref_direction row = OUTGOING
     \<or> mut_fromMe src = Some False \<and> ref_direction row = INCOMING"

inductive may_change :: "phone_resolver \<Rightarrow> stored_ref \<Rightarrow> mutation_source \<Rightarrow> bool" for r row src where
  reaction: "mut_kind src = ReactionMutation \<Longrightarrow> at_home r row src \<or> isOwnBroadcast row \<Longrightarrow> may_change r row src"
| edit: "mut_kind src = EditMutation \<Longrightarrow> at_home r row src \<Longrightarrow> own_side row src \<Longrightarrow>
    (in_group row src \<and> mut_fromMe src = Some False \<Longrightarrow> may_be r (ref_author row) (mut_author src)) \<Longrightarrow> may_change r row src"
| revoke: "mut_kind src = RevokeMutation \<Longrightarrow> \<not> in_group row src \<Longrightarrow> at_home r row src \<Longrightarrow> own_side row src \<Longrightarrow> may_change r row src"
| group_revoke: "mut_kind src = RevokeMutation \<Longrightarrow> in_group row src \<Longrightarrow> at_home r row src \<Longrightarrow>
    mut_fromMe src \<noteq> Some False \<or> mut_admin src \<noteq> Some False \<Longrightarrow> may_change r row src"
| member_revoke: "mut_kind src = RevokeMutation \<Longrightarrow> in_group row src \<Longrightarrow> at_home r row src \<Longrightarrow> ref_direction row = INCOMING \<Longrightarrow>
    may_be r (ref_author row) (mut_author src) \<or> unpaired r (ref_author row) (mut_author src) \<Longrightarrow> may_change r row src"

section \<open>Properties\<close>

text \<open>
  C20: who may change a stored message. The guard lets a change through exactly when the rules of its kind
  admit it: it is made in a chat that may be the row's (a reaction to an own broadcast or status apart); an edit,
  or a revoke outside a group, comes from the side that wrote the message; a group edit by another member from
  one who may be its author; and a group revoke from the account itself, from a member the roster does not show
  to be no admin, or, for a received message, from one who may have written it. Spellings of one phone and a
  lid with its reported phone count as one party.
\<close>

theorem change_let_through: "mutationTargetsForeignRow row src r = None \<longleftrightarrow> may_change r row src"
proof -
  have dir: "ref_direction row \<noteq> OUTGOING \<longleftrightarrow> ref_direction row = INCOMING"
    by (cases "ref_direction row") simp_all
  show ?thesis
    unfolding may_change.simps at_home_def paired_iff unfolding may_be_iff
    by (cases "mut_kind src"; cases "mut_fromMe src")
      (auto simp: mutationTargetsForeignRow_def receivedThroughList_def own_side_def in_group_def Let_def dir split: if_splits)
qed

text \<open>
  The guards over the directory. Looking up only the lids among the ids an event compares, once each,
  decides a change and a receipt exactly as a resolver that could look up any id would.
\<close>

theorem persisted_guards_agree:
  "mutationTargetsForeignRowPersisted row src (Some lookup) = mutationTargetsForeignRow row src (Some lookup)
   \<and> receiptTargetsForeignRowPersisted row chatId (Some lookup) = receiptTargetsForeignRow row chatId (Some lookup)"
proof
  let ?ids = "[Some (ref_chat row), ref_author row, Some (mut_chat src), mut_author src]"
  let ?r = "answers_resolver (lid_answers lookup ?ids)"
  have *: "provablyDifferent a b ?r = provablyDifferent a b (Some lookup)"
    "differentWhenPaired a b ?r = differentWhenPaired a b (Some lookup)" if "a \<in> set ?ids" "b \<in> set ?ids" for a b
    using that by (intro ask_cong ask_answers; auto)+
  show "mutationTargetsForeignRowPersisted row src (Some lookup) = mutationTargetsForeignRow row src (Some lookup)"
    by (simp add: mutationTargetsForeignRowPersisted_def mutationTargetsForeignRow_def receivedThroughList_def Let_def *)
next
  let ?ids = "[Some (ref_chat row), ref_author row, Some chatId]"
  let ?r = "answers_resolver (lid_answers lookup ?ids)"
  have *: "provablyDifferent a b ?r = provablyDifferent a b (Some lookup)"
    "differentWhenPaired a b ?r = differentWhenPaired a b (Some lookup)" if "a \<in> set ?ids" "b \<in> set ?ids" for a b
    using that by (intro ask_cong ask_answers; auto)+
  show "receiptTargetsForeignRowPersisted row chatId (Some lookup) = receiptTargetsForeignRow row chatId (Some lookup)"
    by (simp add: receiptTargetsForeignRowPersisted_def receiptTargetsForeignRow_def receivedThroughList_def * cong: if_cong)
qed

end
