(* ===== verification/Concurrency.thy ===== *)
theory Concurrency
  imports Prelude
begin

text \<open>
  The asynchronous gate \<open>ConcurrencyLimiter\<close> of \<open>src/common/utils/concurrency-limiter.ts\<close>, as a state
  machine over the moments its promises take: a task is numbered, and a wake-up (a resolved or rejected
  promise) is one step, the continuation that sees it another.
\<close>

section \<open>State\<close>

text \<open>
  Where a task is in \<open>run\<close>. A flag is true of a task taking back a slot it gave up in \<open>yieldSlot\<close>.
  \<open>Granted\<close> and \<open>Rejected\<close> are the wake-ups whose continuation has not run; \<open>Unheld\<close> is a task whose
  slot could not be taken back, for which \<open>held\<close> stays false.
\<close>

datatype task_state = Absent | Parked bool | Granted bool | Rejected bool | Running | Yielded | Unheld

record limiter =
  max_slots :: nat
  max_queued :: "nat option"
  active :: nat
  waiters :: "nat list"
  reacquiring :: nat
  closed :: bool
  tasks :: "nat \<Rightarrow> task_state"

text \<open>\<open>Math.max(1, Math.floor(max))\<close> of an integer; \<open>None\<close> is the default \<open>Infinity\<close>.\<close>

definition new_limiter :: "int \<Rightarrow> int option \<Rightarrow> limiter" where
  "new_limiter mx mq = \<lparr>max_slots = nat (max 1 mx), max_queued = map_option (\<lambda>q. nat (max 0 q)) mq, active = 0, waiters = [],
     reacquiring = 0, closed = False, tasks = (\<lambda>_. Absent)\<rparr>"

datatype acquired = SlotTaken | SlotParked | LimiterClosed | QueueFull

definition acquire :: "bool \<Rightarrow> nat \<Rightarrow> limiter \<Rightarrow> acquired \<times> limiter" where
  "acquire bounded t s =
     (if closed s then (LimiterClosed, s)
      else if active s < max_slots s then (SlotTaken, s\<lparr>active := active s + 1\<rparr>)
      else if bounded \<and> (case max_queued s of None \<Rightarrow> False | Some q \<Rightarrow> int q \<le> int (length (waiters s)) - int (reacquiring s))
      then (QueueFull, s)
      else (SlotParked, s\<lparr>waiters := waiters s @ [t]\<rparr>))"

definition release :: "limiter \<Rightarrow> limiter" where
  "release s =
     (case waiters s of
        w # ws \<Rightarrow> s\<lparr>waiters := ws,
                   tasks := (tasks s)(w := (case tasks s w of Parked b \<Rightarrow> Granted b | x \<Rightarrow> x))\<rparr>
      | [] \<Rightarrow> s\<lparr>active := active s - 1\<rparr>)"

text \<open>\<open>run\<close> up to its first await: the task starts, parks, or is refused.\<close>

definition run_task :: "nat \<Rightarrow> limiter \<Rightarrow> acquired \<times> limiter" where
  "run_task t s =
     (case acquire True t s of
        (SlotTaken, s') \<Rightarrow> (SlotTaken, s'\<lparr>tasks := (tasks s')(t := Running)\<rparr>)
      | (SlotParked, s') \<Rightarrow> (SlotParked, s'\<lparr>tasks := (tasks s')(t := Parked False)\<rparr>)
      | (r, s') \<Rightarrow> (r, s'))"

text \<open>The task settles: its slot is released when it holds one.\<close>

definition finish_task :: "nat \<Rightarrow> limiter \<Rightarrow> limiter" where
  "finish_task t s =
     (let s' = (if tasks s t = Running then release s else s) in s'\<lparr>tasks := (tasks s')(t := Absent)\<rparr>)"

text \<open>\<open>yieldSlot(fn)\<close> up to \<open>fn\<close>, and from the moment \<open>fn\<close> settled.\<close>

definition yield_slot :: "nat \<Rightarrow> limiter \<Rightarrow> limiter" where
  "yield_slot t s = (let s' = release s in s'\<lparr>tasks := (tasks s')(t := Yielded)\<rparr>)"

definition take_back :: "nat \<Rightarrow> limiter \<Rightarrow> acquired \<times> limiter" where
  "take_back t s =
     (case acquire False t s of
        (SlotTaken, s') \<Rightarrow> (SlotTaken, s'\<lparr>tasks := (tasks s')(t := Running)\<rparr>)
      | (SlotParked, s') \<Rightarrow> (SlotParked, s'\<lparr>reacquiring := reacquiring s' + 1, tasks := (tasks s')(t := Parked True)\<rparr>)
      | (r, s') \<Rightarrow> (r, s'\<lparr>tasks := (tasks s')(t := Unheld)\<rparr>))"

text \<open>The continuation of an awaited wake-up.\<close>

definition resume :: "nat \<Rightarrow> limiter \<Rightarrow> limiter" where
  "resume t s =
     (case tasks s t of
        Granted b \<Rightarrow> s\<lparr>reacquiring := (if b then reacquiring s - 1 else reacquiring s), tasks := (tasks s)(t := Running)\<rparr>
      | Rejected b \<Rightarrow> s\<lparr>reacquiring := (if b then reacquiring s - 1 else reacquiring s),
                        tasks := (tasks s)(t := (if b then Unheld else Absent))\<rparr>
      | _ \<Rightarrow> s)"

definition close :: "limiter \<Rightarrow> limiter" where
  "close s = s\<lparr>closed := True, waiters := [],
     tasks := (\<lambda>t. if t \<in> set (waiters s) then (case tasks s t of Parked b \<Rightarrow> Rejected b | x \<Rightarrow> x) else tasks s t)\<rparr>"

section \<open>Steps\<close>

inductive limiter_step :: "limiter \<Rightarrow> limiter \<Rightarrow> bool" where
  runs: "tasks s t = Absent \<Longrightarrow> run_task t s = (r, s') \<Longrightarrow> limiter_step s s'"
| finishes: "tasks s t = Running \<or> tasks s t = Unheld \<Longrightarrow> limiter_step s (finish_task t s)"
| yields: "tasks s t = Running \<Longrightarrow> limiter_step s (yield_slot t s)"
| takes_back: "tasks s t = Yielded \<Longrightarrow> take_back t s = (r, s') \<Longrightarrow> limiter_step s s'"
| resumes: "limiter_step s (resume t s)"
| closes: "limiter_step s (close s)"

inductive limiter_reach :: "int \<Rightarrow> int option \<Rightarrow> limiter \<Rightarrow> bool" for mx mq where
  new: "limiter_reach mx mq (new_limiter mx mq)"
| step: "limiter_reach mx mq s \<Longrightarrow> limiter_step s s' \<Longrightarrow> limiter_reach mx mq s'"

inductive_cases limiter_stepE: "limiter_step s s'"

section \<open>The invariant\<close>

text \<open>The tasks that own a slot: running, or woken with one handed over.\<close>

definition owns :: "task_state \<Rightarrow> bool" where
  "owns x \<longleftrightarrow> x = Running \<or> (\<exists>b. x = Granted b)"

definition owners :: "(nat \<Rightarrow> task_state) \<Rightarrow> nat set" where
  "owners f = {t. owns (f t)}"

definition takes :: "task_state \<Rightarrow> bool" where
  "takes x \<longleftrightarrow> x \<in> {Parked True, Granted True, Rejected True}"

definition takers :: "(nat \<Rightarrow> task_state) \<Rightarrow> nat set" where
  "takers f = {t. takes (f t)}"

definition parked :: "(nat \<Rightarrow> task_state) \<Rightarrow> nat set" where
  "parked f = {t. \<exists>b. f t = Parked b}"

definition limiter_inv :: "limiter \<Rightarrow> bool" where
  "limiter_inv s \<longleftrightarrow>
     finite (owners (tasks s)) \<and> finite (takers (tasks s)) \<and> active s = card (owners (tasks s)) \<and> active s \<le> max_slots s
     \<and> distinct (waiters s) \<and> set (waiters s) = parked (tasks s)
     \<and> (waiters s \<noteq> [] \<longrightarrow> active s = max_slots s) \<and> reacquiring s = card (takers (tasks s))"

lemma state_simps [simp]:
  "owns Running" "owns (Granted b)" "\<not> owns Absent" "\<not> owns (Parked b)" "\<not> owns (Rejected b)" "\<not> owns Yielded" "\<not> owns Unheld"
  "takes (Parked b) = b" "takes (Granted b) = b" "takes (Rejected b) = b"
  "\<not> takes Running" "\<not> takes Absent" "\<not> takes Yielded" "\<not> takes Unheld"
  by (auto simp: owns_def takes_def)

text \<open>The state of one task changes: what that does to the three sets.\<close>

lemma sets_upd [simp]:
  "owners (f(t := x)) = (if owns x then insert t (owners f) else owners f - {t})"
  "takers (f(t := x)) = (if takes x then insert t (takers f) else takers f - {t})"
  "parked (f(t := x)) = (if \<exists>b. x = Parked b then insert t (parked f) else parked f - {t})"
  by (auto simp: owners_def takers_def parked_def)

lemma sets_iff [simp]:
  "t \<in> owners f \<longleftrightarrow> owns (f t)" "t \<in> takers f \<longleftrightarrow> takes (f t)" "t \<in> parked f \<longleftrightarrow> (\<exists>b. f t = Parked b)"
  by (simp_all add: owners_def takers_def parked_def)

lemma Diff_absent: "t \<notin> A \<Longrightarrow> A - {t} = A"
  by simp

lemma release_inv:
  assumes inv: "limiter_inv s" and t: "tasks s t = Running" and x: "x = Absent \<or> x = Yielded"
  shows "limiter_inv ((release s)\<lparr>tasks := (tasks (release s))(t := x)\<rparr>)"
proof (cases "waiters s")
  case Nil
  have "t \<in> owners (tasks s)"
    using t by simp
  then have "0 < card (owners (tasks s))"
    using inv unfolding limiter_inv_def card_gt_0_iff by blast
  then show ?thesis
    using inv t x by (auto simp: limiter_inv_def release_def Nil)
next
  case (Cons w ws)
  have "w \<in> parked (tasks s)" and ws: "w \<notin> set ws"
    using inv Cons by (auto simp: limiter_inv_def simp del: sets_iff)
  then obtain b where w: "tasks s w = Parked b" "w \<noteq> t" "w \<notin> set ws"
    using t by (cases "w = t") auto
  let ?f = "(tasks s)(w := Granted b, t := x)"
  have eq: "(release s)\<lparr>tasks := (tasks (release s))(t := x)\<rparr> = s\<lparr>waiters := ws, tasks := ?f\<rparr>"
    by (simp add: release_def Cons w)
  have own: "owners ?f = insert w (owners (tasks s) - {t})"
    using x w by auto
  have "card (owners ?f) = card (owners (tasks s))"
  proof -
    have "t \<in> owners (tasks s)" "w \<notin> owners (tasks s) - {t}" "finite (owners (tasks s))"
      using inv t w by (simp_all add: limiter_inv_def)
    then show ?thesis
      unfolding own by (metis card_Suc_Diff1 card_insert_disjoint finite_Diff)
  qed
  moreover have "takers ?f = takers (tasks s)"
    using x w t by auto
  moreover have "parked ?f = set ws"
    using inv x w t Cons by (auto simp: limiter_inv_def)
  ultimately show ?thesis
    using inv Cons unfolding eq limiter_inv_def by (auto simp: own)
qed

lemma acquire_inv:
  assumes inv: "limiter_inv s" and t: "tasks s t = Absent \<or> tasks s t = Yielded"
  shows "run_task t s = (r, s') \<Longrightarrow> limiter_inv s'" and "take_back t s = (r, s') \<Longrightarrow> limiter_inv s'"
proof -
  have n: "\<not> owns (tasks s t)" "\<not> takes (tasks s t)" "t \<notin> set (waiters s)"
    using inv t by (auto simp: limiter_inv_def)
  show "run_task t s = (r, s') \<Longrightarrow> limiter_inv s'"
    using inv n by (auto simp: run_task_def acquire_def limiter_inv_def Diff_absent split: if_splits)
  show "take_back t s = (r, s') \<Longrightarrow> limiter_inv s'"
    using inv n by (auto simp: take_back_def acquire_def limiter_inv_def Diff_absent split: if_splits)
qed

lemma resume_inv:
  assumes inv: "limiter_inv s"
  shows "limiter_inv (resume t s)"
proof (cases "tasks s t")
  case (Granted b)
  with inv show ?thesis
    by (auto simp: limiter_inv_def resume_def insert_absorb Diff_absent)
next
  case (Rejected b)
  with inv show ?thesis
    by (auto simp: limiter_inv_def resume_def Diff_absent)
qed (use inv in \<open>simp_all add: resume_def\<close>)

lemma close_inv:
  assumes inv: "limiter_inv s"
  shows "limiter_inv (close s)"
proof -
  let ?f = "\<lambda>t. if t \<in> set (waiters s) then (case tasks s t of Parked b \<Rightarrow> Rejected b | x \<Rightarrow> x) else tasks s t"
  have "owns (?f x) = owns (tasks s x)" "takes (?f x) = takes (tasks s x)" "\<nexists>b. ?f x = Parked b" for x
    using inv by (cases "tasks s x"; auto simp: limiter_inv_def)+
  then have "owners ?f = owners (tasks s)" "takers ?f = takers (tasks s)" "parked ?f = {}"
    by (simp_all add: owners_def takers_def parked_def)
  with inv show ?thesis
    by (simp add: close_def limiter_inv_def)
qed

lemma limiter_step_inv: "limiter_step s s' \<Longrightarrow> limiter_inv s \<Longrightarrow> limiter_inv s'"
proof (erule limiter_stepE)
  fix t assume "limiter_inv s" "s' = finish_task t s" "tasks s t = Running \<or> tasks s t = Unheld"
  then show "limiter_inv s'"
    using release_inv [of s t Absent] by (auto simp: finish_task_def limiter_inv_def Diff_absent Let_def)
qed (auto simp: yield_slot_def Let_def intro: acquire_inv release_inv resume_inv close_inv)

section \<open>Properties\<close>

text \<open>
  C14: the gate. Whatever order tasks arrive, finish, give their slot up, take it back, are woken and
  resume in, and whenever it is closed, the tasks that own a slot are as many as \<open>active\<close> says and never
  more than the limit; the parked tasks are exactly the queue, once each; no slot is idle while a task is
  parked; and a release with a task parked hands its slot to the one that has waited longest.
\<close>

theorem slots_never_overcommitted:
  assumes "limiter_reach mx mq s"
  shows "card (owners (tasks s)) = active s \<and> active s \<le> nat (max 1 mx)
    \<and> distinct (waiters s) \<and> set (waiters s) = parked (tasks s)
    \<and> (waiters s \<noteq> [] \<longrightarrow> active s = nat (max 1 mx) \<and>
         owns (tasks (release s) (hd (waiters s))) \<and> waiters (release s) = tl (waiters s) \<and> active (release s) = active s)"
proof -
  have "limiter_inv s \<and> max_slots s = nat (max 1 mx)"
    using assms
  proof induction
    case new
    show ?case
      by (auto simp: limiter_inv_def new_limiter_def owners_def takers_def parked_def)
  next
    case (step s s')
    then have "max_slots s' = max_slots s"
      by (auto elim!: limiter_stepE simp: run_task_def take_back_def acquire_def finish_task_def yield_slot_def release_def
          resume_def close_def Let_def split: if_splits list.splits task_state.splits)
    with step limiter_step_inv show ?case by auto
  qed
  then have inv: "limiter_inv s" and m: "max_slots s = nat (max 1 mx)" by blast+
  have "owns (tasks (release s) (hd (waiters s))) \<and> waiters (release s) = tl (waiters s) \<and> active (release s) = active s"
    if ws: "waiters s \<noteq> []"
  proof -
    from ws inv have "hd (waiters s) \<in> parked (tasks s)"
      by (metis hd_in_set limiter_inv_def)
    with ws show ?thesis
      by (cases "waiters s") (auto simp: release_def)
  qed
  with inv m show ?thesis
    by (auto simp: limiter_inv_def)
qed

theorem slots_never_overcommitted_witness:
  "card (owners (tasks (snd (run_task 1 (snd (run_task 0 (new_limiter 1 (Some 1)))))))) = 1
   \<and> waiters (snd (run_task 1 (snd (run_task 0 (new_limiter 1 (Some 1)))))) = [1]"
proof -
  let ?s1 = "snd (run_task 0 (new_limiter 1 (Some 1)))"
  let ?s2 = "snd (run_task 1 ?s1)"
  have "limiter_step (new_limiter 1 (Some 1)) ?s1"
    by (rule limiter_step.runs [of _ 0 "fst (run_task 0 (new_limiter 1 (Some 1)))"]) (simp add: new_limiter_def, simp)
  moreover have "limiter_step ?s1 ?s2"
    by (rule limiter_step.runs [of _ 1 "fst (run_task 1 ?s1)"]) (simp add: new_limiter_def run_task_def acquire_def, simp)
  ultimately have "limiter_reach 1 (Some 1) ?s2"
    by (blast intro: limiter_reach.intros)
  from slots_never_overcommitted [OF this] show ?thesis
    by (simp add: run_task_def acquire_def new_limiter_def)
qed

end
