(* ===== verification/Keyed_Queue.thy ===== *)
theory Keyed_Queue
  imports Prelude
begin

text \<open>
  The keyed promise chain \<open>KeyedMutationQueue\<close> of \<open>src/common/utils/keyed-mutation-queue.ts\<close>, as it runs
  over its promises, and the per-key first-in-first-out queue it is meant to be.

  Each \<open>enqueue\<close> builds one promise, numbered in order. It waits for the promise it found under its key,
  runs its work, and settles whether the work fulfils or rejects (the rejection goes to
  \<open>onUnexpectedError\<close>); a later reaction drops the key's entry if it is still this promise's.
\<close>

section \<open>The promise chain\<close>

datatype promise_state = Waiting | Working | Settled

record 'k link =
  link_key :: 'k
  prior :: "nat option"
  link_state :: promise_state

record 'k chain_queue =
  chains :: "'k \<rightharpoonup> nat"
  links :: "'k link list"
  unexpected :: "('k \<times> nat) list"

definition empty_chains :: "'k chain_queue" where
  "empty_chains = \<lparr>chains = Map.empty, links = [], unexpected = []\<rparr>"

definition enqueue :: "'k \<Rightarrow> 'k chain_queue \<Rightarrow> 'k chain_queue" where
  "enqueue k q = q\<lparr>links := links q @ [\<lparr>link_key = k, prior = chains q k, link_state = Waiting\<rparr>],
     chains := (chains q)(k \<mapsto> length (links q))\<rparr>"

definition set_state :: "nat \<Rightarrow> promise_state \<Rightarrow> 'k chain_queue \<Rightarrow> 'k chain_queue" where
  "set_state n x q = q\<lparr>links := (links q)[n := (links q ! n)\<lparr>link_state := x\<rparr>]\<rparr>"

text \<open>The promise it waits for has settled, so its work may start.\<close>

definition prior_settled :: "'k chain_queue \<Rightarrow> nat \<Rightarrow> bool" where
  "prior_settled q n = (case prior (links q ! n) of None \<Rightarrow> True | Some p \<Rightarrow> link_state (links q ! p) = Settled)"

definition reclaim :: "nat \<Rightarrow> 'k chain_queue \<Rightarrow> 'k chain_queue" where
  "reclaim n q =
     (let k = link_key (links q ! n) in if chains q k = Some n then q\<lparr>chains := (chains q)(k := None)\<rparr> else q)"

inductive chain_step :: "'k chain_queue \<Rightarrow> 'k chain_queue \<Rightarrow> bool" where
  enqueued: "chain_step q (enqueue k q)"
| starts: "n < length (links q) \<Longrightarrow> link_state (links q ! n) = Waiting \<Longrightarrow> prior_settled q n \<Longrightarrow>
    chain_step q (set_state n Working q)"
| fulfils: "n < length (links q) \<Longrightarrow> link_state (links q ! n) = Working \<Longrightarrow> chain_step q (set_state n Settled q)"
| rejects: "n < length (links q) \<Longrightarrow> link_state (links q ! n) = Working \<Longrightarrow>
    chain_step q ((set_state n Settled q)\<lparr>unexpected := unexpected q @ [(link_key (links q ! n), n)]\<rparr>)"
| reclaims: "n < length (links q) \<Longrightarrow> link_state (links q ! n) = Settled \<Longrightarrow> chain_step q (reclaim n q)"

inductive chain_reach :: "'k chain_queue \<Rightarrow> bool" where
  empty: "chain_reach empty_chains"
| step: "chain_reach q \<Longrightarrow> chain_step q q' \<Longrightarrow> chain_reach q'"

section \<open>What it implements\<close>

text \<open>The works of a key that are not settled, oldest first.\<close>

definition outstanding :: "'k chain_queue \<Rightarrow> 'k \<Rightarrow> nat list" where
  "outstanding q k = filter (\<lambda>n. link_key (links q ! n) = k \<and> link_state (links q ! n) \<noteq> Settled) [0..<length (links q)]"

abbreviation key_at :: "'k chain_queue \<Rightarrow> nat \<Rightarrow> 'k" where
  "key_at q n \<equiv> link_key (links q ! n)"

abbreviation state_at :: "'k chain_queue \<Rightarrow> nat \<Rightarrow> promise_state" where
  "state_at q n \<equiv> link_state (links q ! n)"

definition earlier_settled :: "'k chain_queue \<Rightarrow> nat \<Rightarrow> bool" where
  "earlier_settled q n \<longleftrightarrow> (\<forall>m < n. key_at q m = key_at q n \<longrightarrow> state_at q m = Settled)"

text \<open>
  A promise waits for the last one of its key before it, or for nothing when those have settled; what has
  started has nothing unsettled before it; a key's entry is its last promise, and a key without an entry
  has nothing unsettled.
\<close>

definition waits_right :: "'k chain_queue \<Rightarrow> nat \<Rightarrow> bool" where
  "waits_right q n =
     (case prior (links q ! n) of
        None \<Rightarrow> earlier_settled q n
      | Some p \<Rightarrow> p < n \<and> key_at q p = key_at q n \<and> (\<forall>m < n. key_at q m = key_at q n \<longrightarrow> m \<le> p))"

definition chain_inv :: "'k chain_queue \<Rightarrow> bool" where
  "chain_inv q \<longleftrightarrow>
     (\<forall>n < length (links q). waits_right q n)
     \<and> (\<forall>n < length (links q). state_at q n \<noteq> Waiting \<longrightarrow> earlier_settled q n)
     \<and> (\<forall>k n. chains q k = Some n \<longrightarrow> n < length (links q) \<and> key_at q n = k \<and> (\<forall>m < length (links q). key_at q m = k \<longrightarrow> m \<le> n))
     \<and> (\<forall>k. chains q k = None \<longrightarrow> (\<forall>m < length (links q). key_at q m = k \<longrightarrow> state_at q m = Settled))"

lemma links_frame:
  assumes "links q = links r"
  shows "earlier_settled q n = earlier_settled r n" "waits_right q n = waits_right r n"
  unfolding earlier_settled_def waits_right_def assms by (rule refl)+

lemma chain_invD:
  assumes "chain_inv q"
  shows "n < length (links q) \<Longrightarrow> waits_right q n"
    and "n < length (links q) \<Longrightarrow> state_at q n \<noteq> Waiting \<Longrightarrow> earlier_settled q n"
    and "chains q k = Some n \<Longrightarrow> n < length (links q) \<and> key_at q n = k"
    and "chains q k = Some n \<Longrightarrow> m < length (links q) \<Longrightarrow> key_at q m = k \<Longrightarrow> m \<le> n"
    and "chains q k = None \<Longrightarrow> m < length (links q) \<Longrightarrow> key_at q m = k \<Longrightarrow> state_at q m = Settled"
  using assms unfolding chain_inv_def by blast+

lemma ready_earlier:
  assumes inv: "chain_inv q" and n: "n < length (links q)" and "prior_settled q n"
  shows "earlier_settled q n"
proof (cases "prior (links q ! n)")
  case None
  with chain_invD(1) [OF inv n] show ?thesis
    by (simp add: waits_right_def)
next
  case (Some p)
  with chain_invD(1) [OF inv n] have p: "p < n" "key_at q p = key_at q n" "\<And>m. m < n \<Longrightarrow> key_at q m = key_at q n \<Longrightarrow> m \<le> p"
    by (auto simp: waits_right_def)
  have s: "state_at q p = Settled"
    using assms(3) Some by (simp add: prior_settled_def)
  then have "earlier_settled q p"
    using chain_invD(2) [OF inv, of p] p(1) n by simp
  with p s show ?thesis
    by (metis earlier_settled_def le_neq_implies_less)
qed

text \<open>A promise moves on: from waiting once it may start, or from working to settled.\<close>

lemma set_state_at:
  assumes "n < length (links q)"
  shows "length (links (set_state n x q)) = length (links q)" "chains (set_state n x q) = chains q"
    "key_at (set_state n x q) m = key_at q m" "prior (links (set_state n x q) ! m) = prior (links q ! m)"
    "state_at (set_state n x q) m = (if m = n then x else state_at q m)"
  using assms by (auto simp: set_state_def nth_list_update)

lemma set_state_inv:
  assumes inv: "chain_inv q" and n: "n < length (links q)"
    and x: "x = Working \<and> state_at q n = Waiting \<and> prior_settled q n \<or> x = Settled \<and> state_at q n = Working"
  shows "chain_inv (set_state n x q)"
proof -
  note at = set_state_at [OF n]
  have new: "earlier_settled q n"
    using x ready_earlier [OF inv n] chain_invD(2) [OF inv n] by auto
  have keep: "earlier_settled (set_state n x q) m" if "earlier_settled q m" for m
    using that x unfolding earlier_settled_def at by auto
  show ?thesis
    unfolding chain_inv_def at(1,2)
  proof (intro conjI allI impI)
    fix m assume m: "m < length (links q)"
    from chain_invD(1) [OF inv m] show "waits_right (set_state n x q) m"
      using keep unfolding waits_right_def at by (auto split: option.splits)
    show "earlier_settled (set_state n x q) m" if "state_at (set_state n x q) m \<noteq> Waiting"
      using that keep new chain_invD(2) [OF inv m] by (cases "m = n") (auto simp: at)
  next
    fix k j assume c: "chains q k = Some j"
    show "j < length (links q)" "key_at (set_state n x q) j = k"
      using chain_invD(3) [OF inv c] by (simp_all add: at)
    fix m assume "m < length (links q)" "key_at (set_state n x q) m = k"
    then show "m \<le> j"
      using chain_invD(4) [OF inv c] by (simp add: at)
  next
    fix k m assume c: "chains q k = None" and m: "m < length (links q)" "key_at (set_state n x q) m = k"
    then show "state_at (set_state n x q) m = Settled"
      using chain_invD(5) [OF inv c m(1)] x by (auto simp: at)
  qed
qed

lemma enqueue_inv:
  assumes inv: "chain_inv q"
  shows "chain_inv (enqueue k q)"
proof -
  let ?q = "enqueue k q" and ?n = "length (links q)"
  have at: "links ?q ! m = links q ! m" if "m < ?n" for m
    using that by (simp add: enqueue_def nth_append)
  have new: "links ?q ! ?n = \<lparr>link_key = k, prior = chains q k, link_state = Waiting\<rparr>" and len: "length (links ?q) = Suc ?n"
    by (simp_all add: enqueue_def)
  have es: "earlier_settled ?q m = earlier_settled q m" if "m < ?n" for m
    using that by (simp add: earlier_settled_def at)
  have wr: "waits_right ?q m" if m: "m < ?n" for m
    using chain_invD(1) [OF inv m] m es [OF m] by (auto simp: waits_right_def at split: option.splits)
  have wn: "waits_right ?q ?n"
    using chain_invD(3-5) [OF inv, of k] by (auto simp: waits_right_def new at earlier_settled_def split: option.splits)
  show ?thesis
    unfolding chain_inv_def len
  proof (intro conjI allI impI)
    fix m assume "m < Suc ?n"
    with wr wn show "waits_right ?q m" by (cases "m = ?n") auto
    show "earlier_settled ?q m" if "state_at ?q m \<noteq> Waiting"
      using that \<open>m < Suc ?n\<close> es chain_invD(2) [OF inv, of m] by (cases "m = ?n") (auto simp: new at)
  next
    fix k' j assume c: "chains ?q k' = Some j"
    show "j < Suc ?n" "key_at ?q j = k'"
      using c chain_invD(3) [OF inv, of k' j] at [of j] new by (auto simp: enqueue_def split: if_splits)
    fix m assume "m < Suc ?n" "key_at ?q m = k'"
    then show "m \<le> j"
      using c chain_invD(4) [OF inv, of k' j m] at [of m] new by (cases "m = ?n") (auto simp: enqueue_def split: if_splits)
  next
    fix k' m assume c: "chains ?q k' = None" and m: "m < Suc ?n" "key_at ?q m = k'"
    then show "state_at ?q m = Settled"
      using chain_invD(5) [OF inv, of k' m] at [of m] new by (cases "m = ?n") (auto simp: enqueue_def split: if_splits)
  qed
qed

lemma reclaim_inv:
  assumes inv: "chain_inv q" and n: "n < length (links q)" and s: "state_at q n = Settled"
  shows "chain_inv (reclaim n q)"
proof (cases "chains q (key_at q n) = Some n")
  case True
  have "state_at q m = Settled" if "m < length (links q)" "key_at q m = key_at q n" for m
    using chain_invD(4) [OF inv True that] chain_invD(2) [OF inv n] s that
    by (cases "m = n") (auto simp: earlier_settled_def)
  note settled = this
  let ?k = "key_at q n"
  let ?r = "q\<lparr>chains := (chains q)(?k := None)\<rparr>"
  have fr: "waits_right ?r m = waits_right q m" "earlier_settled ?r m = earlier_settled q m" for m
    by (simp_all add: links_frame [of ?r q])
  have "chain_inv ?r"
    unfolding chain_inv_def fr
  proof (intro conjI allI impI)
    fix k j assume c: "chains ?r k = Some j"
    then have c': "chains q k = Some j"
      by (simp split: if_splits)
    show "j < length (links ?r)" "key_at ?r j = k"
      using chain_invD(3) [OF inv c'] by simp_all
    fix m assume "m < length (links ?r)" "key_at ?r m = k"
    then show "m \<le> j"
      using chain_invD(4) [OF inv c'] by simp
  next
    fix k m assume c: "chains ?r k = None" and m: "m < length (links ?r)" "key_at ?r m = k"
    then show "state_at ?r m = Settled"
      using settled [of m] chain_invD(5) [OF inv, of k m] by (cases "k = ?k") simp_all
  qed (use chain_invD(1,2) [OF inv] in simp_all)
  with True show ?thesis
    by (simp add: reclaim_def)
qed (simp add: reclaim_def inv)

lemma chain_reach_inv: "chain_reach q \<Longrightarrow> chain_inv q"
proof (induction rule: chain_reach.induct)
  case empty
  show ?case
    by (simp add: chain_inv_def empty_chains_def)
next
  case (step q q')
  have frame: "chain_inv (r\<lparr>unexpected := l\<rparr>) = chain_inv r" for r :: "'k chain_queue" and l
    by (simp add: chain_inv_def links_frame [of "r\<lparr>unexpected := l\<rparr>" r])
  from step.hyps(2) step.IH show ?case
    by cases (auto simp: frame intro: enqueue_inv set_state_inv reclaim_inv)
qed

section \<open>A queue per key\<close>

text \<open>
  What the chain stands for: a first-in-first-out queue per key and the work a key runs, if any. Work joins
  at the end of its key's queue, only the head starts, only what runs leaves.
\<close>

record 'k fifo =
  lines :: "'k \<Rightarrow> nat list"
  running :: "'k \<Rightarrow> nat option"

inductive fifo_step :: "'k fifo \<Rightarrow> 'k fifo \<Rightarrow> bool" where
  joins: "\<forall>k'. n \<notin> set (lines f k') \<Longrightarrow> fifo_step f (f\<lparr>lines := (lines f)(k := lines f k @ [n])\<rparr>)"
| runs: "lines f k = n # ns \<Longrightarrow> running f k = None \<Longrightarrow> fifo_step f (f\<lparr>running := (running f)(k := Some n)\<rparr>)"
| leaves: "lines f k = n # ns \<Longrightarrow> running f k = Some n \<Longrightarrow>
    fifo_step f (f\<lparr>lines := (lines f)(k := ns), running := (running f)(k := None)\<rparr>)"

definition works :: "'k chain_queue \<Rightarrow> 'k \<Rightarrow> nat option" where
  "works q k = find (\<lambda>n. state_at q n = Working) (outstanding q k)"

definition chain_fifo :: "'k chain_queue \<Rightarrow> 'k fifo" where
  "chain_fifo q = \<lparr>lines = outstanding q, running = works q\<rparr>"

lemma outstanding_set:
  "n \<in> set (outstanding q k) \<longleftrightarrow> n < length (links q) \<and> key_at q n = k \<and> state_at q n \<noteq> Settled"
  by (auto simp: outstanding_def)

lemma outstanding_sorted: "sorted (outstanding q k)" "distinct (outstanding q k)"
  by (simp_all add: outstanding_def sorted_filter [of id, simplified])

lemma outstanding_head:
  assumes n: "n < length (links q)" and s: "state_at q n \<noteq> Settled" and e: "earlier_settled q n"
  obtains ns where "outstanding q (key_at q n) = n # ns"
proof -
  have "[0..<length (links q)] = [0..<n] @ n # [Suc n..<length (links q)]"
    using n by (metis less_imp_le_nat upt_add_eq_append upt_conv_Cons le_add_diff_inverse zero_le)
  moreover have "filter (\<lambda>m. key_at q m = key_at q n \<and> state_at q m \<noteq> Settled) [0..<n] = []"
    using e by (auto simp: earlier_settled_def filter_empty_conv)
  ultimately show thesis
    using s that by (simp add: outstanding_def)
qed

lemma head_ready:
  assumes inv: "chain_inv q" and o: "outstanding q k = n # ns"
  shows "state_at q n = Working \<or> state_at q n = Waiting \<and> prior_settled q n"
proof (cases "state_at q n")
  case Settled
  then show ?thesis
    using outstanding_set [of n q k] o by simp
next
  case Waiting
  have n: "n < length (links q)" "key_at q n = k"
    using outstanding_set [of n q k] o by simp_all
  have "state_at q p = Settled" if p: "prior (links q ! n) = Some p" for p
  proof (rule ccontr)
    have "p < n" "key_at q p = k"
      using chain_invD(1) [OF inv n(1)] p n(2) by (simp_all add: waits_right_def)
    moreover assume "state_at q p \<noteq> Settled"
    ultimately have "p \<in> set (n # ns)" "p < n"
      using n(1) outstanding_set [of p q k] o by simp_all
    moreover have "sorted (n # ns)"
      using outstanding_sorted(1) [of q k] o by simp
    ultimately show False
      by auto
  qed
  with Waiting show ?thesis
    by (simp add: prior_settled_def split: option.split)
qed simp

text \<open>Everything in a key's queue but its head waits.\<close>

lemma tail_waits:
  assumes inv: "chain_inv q" and o: "outstanding q k = n # ns" and m: "m \<in> set ns"
  shows "state_at q m = Waiting"
proof (rule ccontr)
  assume w: "state_at q m \<noteq> Waiting"
  have mk: "m < length (links q)" "key_at q m = k" "state_at q m \<noteq> Settled"
    using outstanding_set [of m q k] o m by simp_all
  obtain ms where "outstanding q k = m # ms"
    using outstanding_head [OF mk(1,3) chain_invD(2) [OF inv mk(1) w]] mk(2) by auto
  with o m outstanding_sorted(2) [of q k] show False
    by simp
qed

lemma works_head:
  assumes inv: "chain_inv q" and o: "outstanding q k = n # ns"
  shows "works q k = (if state_at q n = Working then Some n else None)"
  using tail_waits [OF inv o] by (auto simp: works_def o find_None_iff)

lemma outstanding_enqueue: "outstanding (enqueue k q) = (outstanding q)(k := outstanding q k @ [length (links q)])"
  by (rule ext) (auto simp: outstanding_def enqueue_def nth_append intro!: filter_cong)

lemma outstanding_set_state:
  assumes n: "n < length (links q)" and s: "state_at q n \<noteq> Settled"
  shows "outstanding (set_state n x q) k = filter (\<lambda>m. m = n \<longrightarrow> x \<noteq> Settled) (outstanding q k)"
  unfolding outstanding_def set_state_at [OF n] filter_filter using s by (auto intro!: filter_cong)

lemma chain_fifo_cong: "links q = links r \<Longrightarrow> chain_fifo q = chain_fifo r"
  by (simp add: chain_fifo_def fun_eq_iff works_def outstanding_def)

lemma fifo_enqueue: "fifo_step (chain_fifo q) (chain_fifo (enqueue k q))"
proof -
  have "works (enqueue k q) = works q"
  proof (rule ext)
    fix k'
    have "find (\<lambda>n. state_at (enqueue k q) n = Working) (outstanding q k') = works q k'"
      unfolding works_def
      by (rule find_cong [OF refl]) (simp add: outstanding_set enqueue_def nth_append)
    moreover have "find P (xs @ [m]) = find P xs" if "\<not> P m" for P xs and m :: nat
      using that by (induction xs) simp_all
    ultimately show "works (enqueue k q) k' = works q k'"
      by (cases "k' = k") (auto simp: works_def outstanding_enqueue, auto simp: enqueue_def)
  qed
  then show ?thesis
    using fifo_step.joins [of "length (links q)" "chain_fifo q" k]
    by (simp add: chain_fifo_def outstanding_enqueue outstanding_set)
qed

text \<open>The head of its key's queue moves on: it starts, or it leaves.\<close>

lemma fifo_set_state:
  assumes inv: "chain_inv q" and n: "n < length (links q)" and e: "earlier_settled q n"
    and x: "x = Working \<and> state_at q n = Waiting \<and> prior_settled q n \<or> x = Settled \<and> state_at q n = Working"
  shows "fifo_step (chain_fifo q) (chain_fifo (set_state n x q))"
proof -
  let ?k = "key_at q n" and ?r = "set_state n x q"
  have s: "state_at q n \<noteq> Settled"
    using x by auto
  obtain ns where o: "outstanding q ?k = n # ns"
    using outstanding_head [OF n s e] .
  then have ns: "n \<notin> set ns"
    using outstanding_sorted(2) [of q ?k] by simp
  have other: "outstanding ?r k = outstanding q k" "works ?r k = works q k" if "k \<noteq> ?k" for k
  proof -
    have out: "n \<notin> set (outstanding q k)"
      using that by (simp add: outstanding_set)
    then show o': "outstanding ?r k = outstanding q k"
      by (auto simp: outstanding_set_state [OF n s] filter_id_conv)
    show "works ?r k = works q k"
      unfolding works_def o'
      by (rule find_cong [OF refl]) (use out in \<open>auto simp: set_state_at [OF n]\<close>)
  qed
  have inv': "chain_inv ?r"
    using set_state_inv [OF inv n x] .
  show ?thesis
  proof (cases "x = Settled")
    case False
    with x have w: "x = Working" "state_at q n = Waiting" by auto
    have o': "outstanding ?r = outstanding q"
      by (rule ext) (simp add: outstanding_set_state [OF n s] w)
    moreover have "works ?r = (works q)(?k := Some n)"
      using other works_head [OF inv', of ?k n ns] o o' w by (auto simp: fun_eq_iff set_state_at [OF n])
    ultimately show ?thesis
      using fifo_step.runs [of "chain_fifo q" ?k n ns] works_head [OF inv o] o w by (simp add: chain_fifo_def)
  next
    case True
    with x have w: "state_at q n = Working" by auto
    have o': "outstanding ?r ?k = ns"
      using ns by (auto simp: outstanding_set_state [OF n s] o True filter_id_conv)
    have "works ?r ?k = None"
      using ns tail_waits [OF inv o] by (auto simp: works_def o' find_None_iff set_state_at [OF n])
    then have "works ?r = (works q)(?k := None)" "outstanding ?r = (outstanding q)(?k := ns)"
      using other o' by (auto simp: fun_eq_iff)
    then show ?thesis
      using fifo_step.leaves [of "chain_fifo q" ?k n ns] works_head [OF inv o] o w by (simp add: chain_fifo_def)
  qed
qed

section \<open>Properties\<close>

text \<open>
  C11: the keyed promise chain implements a first-in-first-out queue per key. Every step of the chain, in
  every state it reaches, is a step of the queues (work joins the end of its key's queue, the head starts
  when its key runs nothing, what runs leaves) or changes nothing there (a reaction that drops a drained
  key's entry). So a key's works run one at a time in arrival order, and one that rejects leaves its queue as
  one that fulfils does.
\<close>

theorem keyed_chain_refines_fifo:
  assumes reach: "chain_reach q" and step: "chain_step q q'"
  shows "fifo_step (chain_fifo q) (chain_fifo q') \<or> chain_fifo q' = chain_fifo q"
proof -
  have inv: "chain_inv q"
    using reach by (rule chain_reach_inv)
  from step show ?thesis
  proof cases
    case (enqueued k)
    then show ?thesis by (simp add: fifo_enqueue)
  next
    case (starts n)
    then show ?thesis
      using fifo_set_state [OF inv _ ready_earlier [OF inv], of n Working] by simp
  next
    case (fulfils n)
    then show ?thesis
      using fifo_set_state [OF inv _ chain_invD(2) [OF inv], of n Settled] by simp
  next
    case (rejects n)
    then have "chain_fifo q' = chain_fifo (set_state n Settled q)"
      by (intro chain_fifo_cong) simp
    with rejects show ?thesis
      using fifo_set_state [OF inv _ chain_invD(2) [OF inv], of n Settled] by simp
  next
    case (reclaims n)
    then have "chain_fifo q' = chain_fifo q"
      by (intro chain_fifo_cong) (simp add: reclaim_def Let_def)
    then show ?thesis ..
  qed
qed

text \<open>
  C36: the chain never stalls a key and reclaims what it no longer needs. In every state it reaches, the
  oldest unsettled work of a key runs or may start now, and when a key has nothing unsettled its entry in the
  map, if there is one, is a settled promise whose reaction drops it.
\<close>

theorem keyed_works_never_stall:
  assumes "chain_reach q"
  shows "case outstanding q k of
      n # ns \<Rightarrow> state_at q n = Working \<or> state_at q n = Waiting \<and> prior_settled q n
    | [] \<Rightarrow> (case chains q k of None \<Rightarrow> True | Some n \<Rightarrow> state_at q n = Settled \<and> chains (reclaim n q) k = None)"
proof (cases "outstanding q k")
  case (Cons n ns)
  then show ?thesis
    using head_ready [OF chain_reach_inv [OF assms] Cons] by simp
next
  case Nil
  have "state_at q n = Settled \<and> chains (reclaim n q) k = None" if c: "chains q k = Some n" for n
    using chain_invD(3) [OF chain_reach_inv [OF assms] c] outstanding_set [of n q k] Nil c
    by (simp add: reclaim_def)
  with Nil show ?thesis
    by (simp split: option.split)
qed

text \<open>Two works of one key and one of another; the first runs and rejects.\<close>

definition sample_chain :: "nat chain_queue" where
  "sample_chain = (set_state 0 Settled (set_state 0 Working (enqueue 1 (enqueue 8 (enqueue 1 empty_chains)))))
     \<lparr>unexpected := [(1, 0)]\<rparr>"

lemma sample_chain_steps:
  "chain_reach sample_chain" "chain_step sample_chain (set_state 2 Working sample_chain)"
proof -
  let ?a = "enqueue 1 (enqueue 8 (enqueue (1::nat) empty_chains))"
  have a: "chain_reach ?a"
    by (intro chain_reach.step [OF _ chain_step.enqueued] chain_reach.empty)
  have b: "chain_reach (set_state 0 Working ?a)"
    by (rule chain_reach.step [OF a chain_step.starts])
      (simp_all add: prior_settled_def enqueue_def empty_chains_def)
  have "chain_step (set_state 0 Working ?a) sample_chain"
    using chain_step.rejects [of 0 "set_state 0 Working ?a"]
    by (simp add: sample_chain_def set_state_def enqueue_def empty_chains_def)
  with b show "chain_reach sample_chain"
    by (rule chain_reach.step)
  show "chain_step sample_chain (set_state 2 Working sample_chain)"
    by (rule chain_step.starts)
      (simp_all add: sample_chain_def prior_settled_def set_state_def enqueue_def empty_chains_def)
qed

theorem keyed_chain_refines_fifo_witness:
  "chain_reach sample_chain \<and> chain_step sample_chain (set_state 2 Working sample_chain)
   \<and> (fifo_step (chain_fifo sample_chain) (chain_fifo (set_state 2 Working sample_chain))
      \<or> chain_fifo (set_state 2 Working sample_chain) = chain_fifo sample_chain)"
  using sample_chain_steps keyed_chain_refines_fifo [OF sample_chain_steps] by blast

theorem keyed_works_never_stall_witness:
  "chain_reach sample_chain \<and> outstanding sample_chain 1 = [2] \<and> prior_settled sample_chain 2"
  using sample_chain_steps(1) keyed_works_never_stall [OF sample_chain_steps(1), of 1]
  by (simp add: sample_chain_def outstanding_def set_state_def enqueue_def empty_chains_def upt_rec numeral_2_eq_2)

end
