(* ===== verification/Effects.thy ===== *)
theory Effects
  imports Prelude
begin

text \<open>
  Asynchronous code that reads and writes a world and may throw: an action takes the world and gives a
  thrown error or a result, and the world left behind. Sequencing is \<open>await\<close>, \<open>recover\<close> is \<open>try\<close> with a
  \<open>catch\<close>. An action is judged by how high it leaves the world on a scale of levels (\<open>scale\<close>), so that
  a chain of awaits is one chain of inequalities.
\<close>

type_synonym ('s, 'e, 'a) action = "'s \<Rightarrow> ('e + 'a) \<times> 's"

definition succeed :: "'a \<Rightarrow> ('s, 'e, 'a) action" where
  "succeed a s = (Inr a, s)"

definition throw :: "'e \<Rightarrow> ('s, 'e, 'a) action" where
  "throw e s = (Inl e, s)"

definition await :: "('s, 'e, 'a) action \<Rightarrow> ('a \<Rightarrow> ('s, 'e, 'b) action) \<Rightarrow> ('s, 'e, 'b) action" where
  "await m f s = (case m s of (Inl e, s') \<Rightarrow> (Inl e, s') | (Inr a, s') \<Rightarrow> f a s')"

definition recover :: "('s, 'e, 'a) action \<Rightarrow> ('e \<Rightarrow> ('s, 'e, 'a) action) \<Rightarrow> ('s, 'e, 'a) action" where
  "recover m h s = (case m s of (Inl e, s') \<Rightarrow> h e s' | (Inr a, s') \<Rightarrow> (Inr a, s'))"

text \<open>\<open>try { m } finally { f }\<close>: \<open>f\<close> runs either way and keeps the result or the error, unless it throws itself.\<close>

definition finally_do :: "('s, 'e, 'a) action \<Rightarrow> ('s, 'e, unit) action \<Rightarrow> ('s, 'e, 'a) action" where
  "finally_do m f s = (case m s of (r, s') \<Rightarrow> case f s' of (Inl e, s'') \<Rightarrow> (Inl e, s'') | (Inr _, s'') \<Rightarrow> (r, s''))"

text \<open>Synchronous reads and writes of the world.\<close>

definition inspect :: "('s \<Rightarrow> 'a) \<Rightarrow> ('s, 'e, 'a) action" where
  "inspect f s = (Inr (f s), s)"

definition modify :: "('s \<Rightarrow> 's) \<Rightarrow> ('s, 'e, unit) action" where
  "modify f s = (Inr (), f s)"

fun for_each :: "('a \<Rightarrow> ('s, 'e, unit) action) \<Rightarrow> 'a list \<Rightarrow> ('s, 'e, unit) action" where
  "for_each f [] = succeed ()"
| "for_each f (x # xs) = await (f x) (\<lambda>_. for_each f xs)"

lemmas action_defs = succeed_def throw_def await_def recover_def finally_do_def inspect_def modify_def

section \<open>Levels\<close>

text \<open>
  \<open>grades lv i p m q\<close>: on a scale \<open>lv\<close> of the things an action deals with, nothing falls when \<open>m\<close> runs, and if
  the thing \<open>i\<close> stands at \<open>p\<close> or above, it stands at \<open>q a\<close> or above once \<open>m\<close> has returned \<open>a\<close>. When \<open>m\<close> throws,
  everything still stands where it stood.
\<close>

definition grades :: "('i \<Rightarrow> 's \<Rightarrow> nat) \<Rightarrow> 'i \<Rightarrow> nat \<Rightarrow> ('s, 'e, 'a) action \<Rightarrow> ('a \<Rightarrow> nat) \<Rightarrow> bool" where
  "grades lv i p m q \<longleftrightarrow>
     (\<forall>s. p \<le> lv i s \<longrightarrow>
        (\<forall>j. lv j s \<le> lv j (snd (m s))) \<and> (\<forall>a. fst (m s) = Inr a \<longrightarrow> q a \<le> lv i (snd (m s))))"

named_theorems grading \<open>rules for the levels an action reaches\<close>

lemma gradesI:
  assumes "\<And>s j. p \<le> lv i s \<Longrightarrow> lv j s \<le> lv j (snd (m s))"
    and "\<And>s a. p \<le> lv i s \<Longrightarrow> fst (m s) = Inr a \<Longrightarrow> q a \<le> lv i (snd (m s))"
  shows "grades lv i p m q"
  using assms unfolding grades_def by blast

lemma gradesD:
  assumes "grades lv i p m q" "p \<le> lv i s"
  shows "lv j s \<le> lv j (snd (m s))" "fst (m s) = Inr a \<Longrightarrow> q a \<le> lv i (snd (m s))"
  using assms unfolding grades_def by blast+

lemma grades_weaken:
  assumes "grades lv i p m q" "p \<le> p'" "\<And>a. q' a \<le> max p' (q a)"
  shows "grades lv i p' m q'"
proof (rule gradesI)
  fix s assume s: "p' \<le> lv i s"
  note g = gradesD [OF assms(1), of s]
  show "lv j s \<le> lv j (snd (m s))" for j
    using g(1) s assms(2) by simp
  show "q' a \<le> lv i (snd (m s))" if "fst (m s) = Inr a" for a
    using g(1) [of i] g(2) [OF _ that] s assms(2) assms(3) [of a] by (auto simp: max_def split: if_splits)
qed

lemma grades_succeed [grading]: "q a \<le> p \<Longrightarrow> grades lv i p (succeed a) q"
  by (simp add: grades_def succeed_def)

lemma grades_throw [grading]: "grades lv i p (throw e) q"
  by (simp add: grades_def throw_def)

lemma grades_inspect [grading]: "(\<And>a. q a \<le> p) \<Longrightarrow> grades lv i p (inspect f) q"
  by (auto simp: grades_def inspect_def intro: order_trans)

lemma grades_modify:
  assumes "\<And>s j. p \<le> lv i s \<Longrightarrow> lv j s \<le> lv j (f s)" and "\<And>s. p \<le> lv i s \<Longrightarrow> q () \<le> lv i (f s)"
  shows "grades lv i p (modify f) q"
  using assms by (simp add: grades_def modify_def)

lemma grades_await [grading]:
  assumes m: "grades lv i p m r" and f: "\<And>a. grades lv i (max p (r a)) (f a) q"
  shows "grades lv i p (await m f) q"
proof (rule gradesI)
  fix s assume s: "p \<le> lv i s"
  obtain x s' where ms: "m s = (x, s')" by fastforce
  have up: "lv j s \<le> lv j s'" for j
    using gradesD(1) [OF m s, of j] ms by simp
  have at: "max p (r a) \<le> lv i s'" if "x = Inr a" for a
    using gradesD(2) [OF m s, of a] ms that up [of i] s by simp
  show "lv j s \<le> lv j (snd (await m f s))" for j
    using up [of j] gradesD(1) [OF f at, of _ j] ms by (cases x) (auto simp: await_def intro: order_trans)
  show "q b \<le> lv i (snd (await m f s))" if "fst (await m f s) = Inr b" for b
    using gradesD(2) [OF f at, of _ b] ms that by (cases x) (auto simp: await_def)
qed

text \<open>The same when only some results are possible.\<close>

definition yields :: "('s, 'e, 'a) action \<Rightarrow> ('a \<Rightarrow> bool) \<Rightarrow> bool" where
  "yields m R \<longleftrightarrow> (\<forall>s a. fst (m s) = Inr a \<longrightarrow> R a)"

lemma grades_await_where:
  assumes "grades lv i p m r" "yields m R" "\<And>a. R a \<Longrightarrow> grades lv i (max p (r a)) (f a) q"
  shows "grades lv i p (await m f) q"
proof -
  have "R a" if "m s = (Inr a, s')" for s a s'
    using assms(2) that by (metis fst_conv yields_def)
  then have "await m f = await m (\<lambda>a. if R a then f a else throw undefined)"
    by (auto simp: fun_eq_iff await_def split: prod.split sum.split)
  moreover have "grades lv i p (await m (\<lambda>a. if R a then f a else throw undefined)) q"
    by (rule grades_await [OF assms(1)]) (simp add: assms(3) grades_throw)
  ultimately show ?thesis
    by simp
qed

lemma yields_mono: "yields m R \<Longrightarrow> (\<And>a. R a \<Longrightarrow> S a) \<Longrightarrow> yields m S"
  by (auto simp: yields_def)

lemma yields_succeed: "R a \<Longrightarrow> yields (succeed a) R"
  by (simp add: yields_def succeed_def)

lemma yieldsD: "yields m R \<Longrightarrow> m s = (Inr a, s') \<Longrightarrow> R a"
  by (metis fst_conv yields_def)

lemma yields_await: "yields m S \<Longrightarrow> (\<And>a. S a \<Longrightarrow> yields (f a) R) \<Longrightarrow> yields (await m f) R"
  unfolding yields_def [of "await m f"]
  by (auto simp: await_def split: prod.splits sum.splits dest: yieldsD) (metis prod.collapse yieldsD)

lemma yields_recover: "yields m R \<Longrightarrow> (\<And>e. yields (h e) R) \<Longrightarrow> yields (recover m h) R"
  unfolding yields_def [of "recover m h"]
  by (auto simp: recover_def split: prod.splits sum.splits dest: yieldsD) (metis prod.collapse yieldsD)

lemma yields_trivial: "yields m (\<lambda>_. True)"
  by (simp add: yields_def)

lemma grades_recover [grading]:
  assumes m: "grades lv i p m q" and h: "\<And>e. grades lv i p (h e) q"
  shows "grades lv i p (recover m h) q"
proof (rule gradesI)
  fix s assume s: "p \<le> lv i s"
  obtain x s' where ms: "m s = (x, s')" by fastforce
  have up: "lv j s \<le> lv j s'" for j
    using gradesD(1) [OF m s, of j] ms by simp
  then have at: "p \<le> lv i s'"
    using s order_trans by blast
  have h1: "lv j s' \<le> lv j (snd (h e s'))" and h2: "fst (h e s') = Inr b \<Longrightarrow> q b \<le> lv i (snd (h e s'))" for j e b
    using gradesD [OF h at] by blast+
  show "lv j s \<le> lv j (snd (recover m h s))" for j
    using up [of j] h1 [of j] ms by (cases x) (auto simp: recover_def intro: order_trans)
  show "q b \<le> lv i (snd (recover m h s))" if "fst (recover m h s) = Inr b" for b
    using gradesD(2) [OF m s, of b] h2 ms that by (cases x) (auto simp: recover_def)
qed

lemma grades_finally [grading]:
  assumes m: "grades lv i p m q" and f: "grades lv i p f (\<lambda>_. 0)"
  shows "grades lv i p (finally_do m f) q"
proof (rule gradesI)
  fix s assume s: "p \<le> lv i s"
  obtain x s' where ms: "m s = (x, s')" by fastforce
  obtain y s'' where fs: "f s' = (y, s'')" by fastforce
  have up: "lv j s \<le> lv j s'" for j
    using gradesD(1) [OF m s, of j] ms by simp
  then have at: "p \<le> lv i s'"
    using s order_trans by blast
  have up2: "lv j s' \<le> lv j s''" for j
    using gradesD(1) [OF f at, of j] fs by simp
  show "lv j s \<le> lv j (snd (finally_do m f s))" for j
    using up [of j] up2 [of j] ms fs by (cases y) (auto simp: finally_do_def)
  show "q b \<le> lv i (snd (finally_do m f s))" if "fst (finally_do m f s) = Inr b" for b
    using gradesD(2) [OF m s, of b] up2 [of i] ms fs that by (cases y) (auto simp: finally_do_def)
qed

lemma grades_if [grading]:
  "(b \<Longrightarrow> grades lv i p m q) \<Longrightarrow> (\<not> b \<Longrightarrow> grades lv i p n q) \<Longrightarrow> grades lv i p (if b then m else n) q"
  by simp

lemma grades_case_option [grading]:
  "(x = None \<Longrightarrow> grades lv i p m q) \<Longrightarrow> (\<And>a. x = Some a \<Longrightarrow> grades lv i p (f a) q) \<Longrightarrow>
   grades lv i p (case x of None \<Rightarrow> m | Some a \<Rightarrow> f a) q"
  by (cases x) simp_all

lemma grades_Let [grading]: "grades lv i p (f x) q \<Longrightarrow> grades lv i p (let y = x in f y) q"
  by simp

lemma grades_case_prod [grading]:
  "(\<And>a b. x = (a, b) \<Longrightarrow> grades lv i p (f a b) q) \<Longrightarrow> grades lv i p (case x of (a, b) \<Rightarrow> f a b) q"
  by (cases x) simp

lemma grades_for_each:
  assumes "\<And>x. x \<in> set xs \<Longrightarrow> grades lv i p (f x) (\<lambda>_. 0)"
  shows "grades lv i p (for_each f xs) (\<lambda>_. 0)"
  using assms by (induction xs) (auto intro!: grading)

text \<open>An error as a value, for an action whose errors carry levels of their own.\<close>

definition trying :: "('s, 'e, 'a) action \<Rightarrow> ('s, 'e, 'e + 'a) action" where
  "trying m s = (case m s of (r, s') \<Rightarrow> (Inr r, s'))"

lemma recover_trying: "recover m h = await (trying m) (\<lambda>r. case r of Inl e \<Rightarrow> h e | Inr a \<Rightarrow> succeed a)"
  by (auto simp: fun_eq_iff recover_def trying_def await_def succeed_def split: prod.split sum.split)

lemma trying_simps:
  "trying (succeed a) = succeed (Inr a)"
  "trying (throw e) = succeed (Inl e)"
  "trying (await m f) = await (trying m) (\<lambda>r. case r of Inl e \<Rightarrow> succeed (Inl e) | Inr a \<Rightarrow> trying (f a))"
  "trying (recover m h) = await (trying m) (\<lambda>r. case r of Inl e \<Rightarrow> trying (h e) | Inr a \<Rightarrow> succeed (Inr a))"
  "trying (modify g) = await (modify g) (\<lambda>u. succeed (Inr u))"
  "trying (inspect h') = await (inspect h') (\<lambda>u. succeed (Inr u))"
  by (auto simp: fun_eq_iff action_defs trying_def split: prod.split sum.split)

definition never_throws :: "('s, 'e, 'a) action \<Rightarrow> bool" where
  "never_throws m \<longleftrightarrow> (\<forall>s e. fst (m s) \<noteq> Inl e)"

lemma never_throwsD: "never_throws m \<Longrightarrow> m s \<noteq> (Inl e, s')"
  by (metis fst_conv never_throws_def)

lemma trying_safe: "never_throws m \<Longrightarrow> trying (await m f) = await m (\<lambda>a. trying (f a))"
  by (auto simp: fun_eq_iff trying_def await_def never_throwsD split: prod.split sum.split)

lemma never_throws_simps [simp]:
  "never_throws (succeed a)" "never_throws (modify g)" "never_throws (inspect h)"
  by (simp_all add: never_throws_def action_defs)

lemma never_throws_recover: "(\<And>e. never_throws (h e)) \<Longrightarrow> never_throws (recover m h)"
  by (auto simp: never_throws_def recover_def split: prod.split sum.split)

lemma never_throws_await: "never_throws m \<Longrightarrow> (\<And>a. never_throws (f a)) \<Longrightarrow> never_throws (await m f)"
  unfolding never_throws_def [of "await m f"]
  by (auto simp: await_def never_throwsD split: prod.split sum.split) (metis never_throws_def)

lemma grades_trying: "grades lv i p m q \<Longrightarrow> grades lv i p (trying m) (\<lambda>r. case r of Inl e \<Rightarrow> p | Inr a \<Rightarrow> q a)"
  by (force simp: grades_def trying_def split: prod.split sum.split intro: order_trans)

lemma grades_case_sum [grading]:
  "(\<And>e. x = Inl e \<Longrightarrow> grades lv i p (g e) q) \<Longrightarrow> (\<And>a. x = Inr a \<Longrightarrow> grades lv i p (f a) q) \<Longrightarrow>
   grades lv i p (case x of Inl e \<Rightarrow> g e | Inr a \<Rightarrow> f a) q"
  by (cases x) simp_all

lemma fold_raises:
  fixes lv :: "'s \<Rightarrow> nat"
  assumes "\<And>x s. x \<in> set xs \<Longrightarrow> lv s \<le> lv (f x s)"
  shows "lv s \<le> lv (fold f xs s)"
  using assms
proof (induction xs arbitrary: s)
  case (Cons x xs)
  have "lv s \<le> lv (f x s)"
    by (simp add: Cons.prems)
  also have "\<dots> \<le> lv (fold f xs (f x s))"
    by (rule Cons.IH) (simp add: Cons.prems)
  finally show ?case
    by simp
qed simp

text \<open>What holds of every thing for any start: nothing falls.\<close>

definition rises :: "('i \<Rightarrow> 's \<Rightarrow> nat) \<Rightarrow> ('s, 'e, 'a) action \<Rightarrow> bool" where
  "rises lv m \<longleftrightarrow> (\<forall>s j. lv j s \<le> lv j (snd (m s)))"

lemma rises_grades: "grades lv i 0 m q \<Longrightarrow> rises lv m"
  by (simp add: grades_def rises_def)

lemma grades_rises: "rises lv m \<Longrightarrow> (\<And>a. q a \<le> p) \<Longrightarrow> grades lv i p m q"
  by (simp add: grades_def rises_def) (meson order_trans)

end
