(* ===== verification/Webhook_Store.thy ===== *)
theory Webhook_Store
  imports Effects Json "HOL-Library.Product_Lexorder"
begin

text \<open>
  The durable side of outbound webhook delivery: the delivery-failure table with its recorder
  (\<open>src/modules/webhook/utils/record-delivery-failure.ts\<close>) and the outbox
  (\<open>src/modules/webhook/webhook-outbox.service.ts\<close>), over the entities of \<open>src/modules/webhook/entities\<close>.

  Every statement is one step of the world. Just before it, the other connections and nodes have done
  whatever they did (\<open>others\<close>), and it may fail without an effect (\<open>db_fails\<close>). Dates are milliseconds.
\<close>

section \<open>Rows\<close>

record webhook =
  hook_id :: string
  hook_session :: string
  hook_url :: string
  hook_events :: "string list option"
  hook_secret :: "string option"
  hook_headers :: "(string \<times> string) list option"
  hook_filters :: "json option"
  hook_active :: bool
  hook_retries :: int
  hook_triggered :: "int option"

datatype outbox_state = OutPending | OutQueued | OutDispatched | OutFailed

text \<open>A stored payload that the column's JSON parser may not be able to read back.\<close>

datatype stored = Readable json | Unreadable

record outbox_row =
  ob_id :: string
  ob_webhook :: string
  ob_session :: string
  ob_event :: string
  ob_key :: string
  ob_delivery :: string
  ob_payload :: "stored option"
  ob_state :: "outbox_state option"
  ob_attempts :: nat
  ob_lastAttempt :: "int option"
  ob_created :: int

record failure_row =
  f_id :: string
  f_webhook :: string
  f_session :: string
  f_event :: string
  f_url :: string
  f_key :: "string option"
  f_delivery :: "string option"
  f_attempts :: nat
  f_status :: "int option"
  f_error :: string
  f_payload :: "json option"
  f_created :: int

text \<open>
  How a delivery was settled, noted when it happens: a receiver accepted the POST, the event was withdrawn (a
  plugin cancelled it, or the webhook no longer takes it), or the queue reported its job as completed. A failure
  row deleted at the end of its retention is noted too, with the time it was filed and the prune's cutoff.
\<close>

datatype settlement = PostAccepted | Withdrawn | JobCompleted | ReportExpired int int

record world =
  outbox :: "outbox_row list"
  failures :: "failure_row list"
  hooks_table :: "webhook list"
  outcomes :: "(string \<times> string \<times> settlement) list"
  losses :: nat
  failing :: "string list"
  locally :: "string \<Rightarrow> nat"
  jobs_added :: "(string \<times> string \<times> string) list"
  worker_failing :: "string list"
  degraded :: "string \<Rightarrow> nat"
  ticks :: nat

datatype wh_error = DbError | UniqueViolation | HttpError int string | FetchFailed string | LimiterShut | LimiterFull
  | BackoffAborted | UnrecordedFailure | HookFailed | NotSerializable | QueueDown | TooLarge nat nat | JobDelayed int | NoFuel

record store_env =
  others :: "nat \<Rightarrow> world \<Rightarrow> world"
  db_fails :: "nat \<Rightarrow> bool"
  clock_at :: "nat \<Rightarrow> int"
  uuid_at :: "nat \<Rightarrow> string"

type_synonym 'a wh = "(world, wh_error, 'a) action"

definition statement :: "'x store_env_scheme \<Rightarrow> (world \<Rightarrow> (wh_error + 'a) \<times> world) \<Rightarrow> 'a wh" where
  "statement env f s =
     (let n = ticks s; s1 = (others env n s)\<lparr>ticks := Suc n\<rparr>
      in if db_fails env n then (Inl DbError, s1) else f s1)"

section \<open>record-delivery-failure.ts\<close>

record failure_input =
  in_webhook :: string
  in_session :: string
  in_event :: string
  in_url :: string
  in_key :: "string option"
  in_delivery :: "string option"
  in_attempts :: nat
  in_status :: "int option"
  in_error :: string
  in_payload :: "json option"
  in_hours :: "int option"

definition is_word :: "char \<Rightarrow> bool" where
  "is_word c \<longleftrightarrow> is_digit c \<or> (CHR ''a'' \<le> c \<and> c \<le> CHR ''z'') \<or> (CHR ''A'' \<le> c \<and> c \<le> CHR ''Z'') \<or> c = CHR ''_''"

fun digits_value :: "nat \<Rightarrow> string \<Rightarrow> nat" where
  "digits_value n [] = n"
| "digits_value n (c # cs) = digits_value (10 * n + (of_char c - 48)) cs"

definition statusCodeFromError :: "string \<Rightarrow> int option" where
  "statusCodeFromError msg =
     (let code = take 3 (drop 5 msg); rest = drop 8 msg
      in if take 5 msg = ''HTTP '' \<and> length code = 3 \<and> list_all is_digit code \<and> (rest = [] \<or> \<not> is_word (hd rest))
         then Some (int (digits_value 0 code)) else None)"

definition of_delivery :: "string \<Rightarrow> string option \<Rightarrow> failure_row \<Rightarrow> bool" where
  "of_delivery w k f \<longleftrightarrow> f_webhook f = w \<and> k \<noteq> None \<and> f_key f = k"

definition change_failures :: "(failure_row \<Rightarrow> bool) \<Rightarrow> (failure_row \<Rightarrow> failure_row) \<Rightarrow> world \<Rightarrow> (wh_error + nat) \<times> world" where
  "change_failures P g s =
     (Inr (length (filter P (failures s))), s\<lparr>failures := map (\<lambda>f. if P f then g f else f) (failures s)\<rparr>)"

definition clearDeliveryFailureRows :: "'x store_env_scheme \<Rightarrow> string \<Rightarrow> string option \<Rightarrow> bool \<Rightarrow> unit wh" where
  "clearDeliveryFailureRows env w k onlyUnattempted =
     (if \<not> truthy k then succeed ()
      else recover (statement env (\<lambda>s. (Inr (), s\<lparr>failures :=
               filter (\<lambda>f. \<not> (of_delivery w k f \<and> (onlyUnattempted \<longrightarrow> f_attempts f = 0))) (failures s)\<rparr>)))
             (\<lambda>_. succeed ()))"

text \<open>U+0000 never reaches the text column.\<close>

definition nul_free :: "string \<Rightarrow> string" where
  "nul_free s = filter (\<lambda>c. c \<noteq> CHR 0x00) s"

definition retained_since :: "int \<Rightarrow> int \<Rightarrow> failure_row \<Rightarrow> bool" where
  "retained_since now hours f \<longleftrightarrow> f_created f > now - hours * 3600000"

definition refreshTerminal :: "'x store_env_scheme \<Rightarrow> failure_input \<Rightarrow> bool option wh" where
  "refreshTerminal env inp =
     (let w = in_webhook inp; k = in_key inp
      in await (statement env (change_failures (\<lambda>f. of_delivery w k f \<and> 0 < f_attempts f)
             (\<lambda>f. f\<lparr>f_url := in_url inp, f_error := nul_free (in_error inp), f_delivery := (case in_delivery inp of None \<Rightarrow> f_delivery f | d \<Rightarrow> d),
                    f_attempts := f_attempts f + in_attempts inp, f_status := in_status inp\<rparr>))) (\<lambda>affected.
           if affected = 0 then succeed None
           else await (case (in_payload inp, in_hours inp) of
                  (Some pl, Some h) \<Rightarrow>
                    if h = 0 then succeed 0
                    else await (inspect (\<lambda>s. clock_at env (ticks s))) (\<lambda>now.
                      statement env (change_failures
                        (\<lambda>f. of_delivery w k f \<and> 0 < f_attempts f \<and> f_payload f = None \<and> retained_since now h f)
                        (\<lambda>f. f\<lparr>f_payload := Some pl\<rparr>)))
                | _ \<Rightarrow> succeed 0) (\<lambda>_.
                await (clearDeliveryFailureRows env w k True) (\<lambda>_. succeed (Some False)))))"

text \<open>The insert, refused by the partial unique index when a terminal row of the delivery exists.\<close>

definition insert_failure :: "'x store_env_scheme \<Rightarrow> failure_input \<Rightarrow> unit wh" where
  "insert_failure env inp =
     statement env (\<lambda>s.
       if 0 < in_attempts inp \<and> list_ex (\<lambda>f. of_delivery (in_webhook inp) (in_key inp) f \<and> 0 < f_attempts f) (failures s)
       then (Inl UniqueViolation, s)
       else (Inr (), s\<lparr>failures := failures s @
              [\<lparr>f_id = uuid_at env (ticks s), f_webhook = in_webhook inp, f_session = in_session inp, f_event = in_event inp,
                f_url = in_url inp, f_key = in_key inp, f_delivery = in_delivery inp, f_attempts = in_attempts inp,
                f_status = in_status inp, f_error = nul_free (in_error inp),
                f_payload = (if 0 < in_attempts inp then in_payload inp else None), f_created = clock_at env (ticks s)\<rparr>]\<rparr>))"

text \<open>The reason of an unsent delivery is refreshed on its attempts-0 row.\<close>

definition refreshReason :: "'x store_env_scheme \<Rightarrow> failure_input \<Rightarrow> nat wh" where
  "refreshReason env inp =
     statement env (change_failures (\<lambda>f. of_delivery (in_webhook inp) (in_key inp) f \<and> f_attempts f = 0)
       (\<lambda>f. f\<lparr>f_error := nul_free (in_error inp), f_url := in_url inp,
              f_delivery := (if truthy (in_delivery inp) then in_delivery inp else f_delivery f)\<rparr>))"

definition file_failure :: "'x store_env_scheme \<Rightarrow> failure_input \<Rightarrow> bool option wh" where
  "file_failure env inp =
     (let terminal = 0 < in_attempts inp
      in await (recover (await (insert_failure env inp) (\<lambda>_. succeed None))
                  (\<lambda>e. if terminal \<and> truthy (in_key inp) \<and> e = UniqueViolation
                        then await (refreshTerminal env inp) (\<lambda>r. succeed (Some r)) else throw e)) (\<lambda>early.
           case early of
             Some r \<Rightarrow> succeed r
           | None \<Rightarrow>
               if terminal then await (clearDeliveryFailureRows env (in_webhook inp) (in_key inp) True) (\<lambda>_. succeed (Some True))
               else succeed (Some True)))"

definition recordWebhookDeliveryFailure :: "'x store_env_scheme \<Rightarrow> failure_input \<Rightarrow> bool option wh" where
  "recordWebhookDeliveryFailure env inp =
     (let terminal = 0 < in_attempts inp
      in recover
           (if truthy (in_key inp) then
              await (statement env (\<lambda>s. (Inr (length (filter (\<lambda>f. of_delivery (in_webhook inp) (in_key inp) f
                        \<and> (terminal \<longrightarrow> 0 < f_attempts f)) (failures s))), s))) (\<lambda>existing.
                if 0 < existing then
                  if terminal then refreshTerminal env inp
                  else await (recover (refreshReason env inp) (\<lambda>_. succeed 0)) (\<lambda>_. succeed (Some False))
                else file_failure env inp)
            else file_failure env inp)
           (\<lambda>_. succeed None))"

section \<open>webhook.service.ts: the retention of failure rows\<close>

text \<open>The rows the prune deletes are noted as expired.\<close>

definition pruneDeliveryFailures :: "'x store_env_scheme \<Rightarrow> int \<Rightarrow> nat wh" where
  "pruneDeliveryFailures env olderThanDays =
     await (inspect (\<lambda>s. clock_at env (ticks s))) (\<lambda>now.
       statement env (\<lambda>s.
         let cutoff = now - olderThanDays * 86400000; old = (\<lambda>f. f_created f < cutoff)
         in (Inr (length (filter old (failures s))),
             s\<lparr>failures := filter (\<lambda>f. \<not> old f) (failures s),
               outcomes := outcomes s @ List.map_filter (\<lambda>f.
                 map_option (\<lambda>k. (f_webhook f, k, ReportExpired (f_created f) cutoff)) (f_key f)) (filter old (failures s))\<rparr>)))"

definition pruneDeliveryFailurePayloads :: "'x store_env_scheme \<Rightarrow> int \<Rightarrow> nat wh" where
  "pruneDeliveryFailurePayloads env olderThanHours =
     await (inspect (\<lambda>s. clock_at env (ticks s))) (\<lambda>now.
       statement env (change_failures (\<lambda>f. f_payload f \<noteq> None \<and> f_created f < now - olderThanHours * 3600000)
         (\<lambda>f. f\<lparr>f_payload := None\<rparr>)))"

section \<open>webhook-outbox.service.ts\<close>

text \<open>\<open>WEBHOOK_OUTBOX_RETENTION_DAYS\<close> as \<open>Number.parseInt\<close> read it.\<close>

definition outbox_retention_days :: "int option \<Rightarrow> int" where
  "outbox_retention_days parsed = (case parsed of Some d \<Rightarrow> if d \<le> 0 then 7 else d | None \<Rightarrow> 7)"

definition unsettled :: "outbox_state option \<Rightarrow> bool" where
  "unsettled st \<longleftrightarrow> st = Some OutPending \<or> st = Some OutQueued"

text \<open>\<open>NOT (state IN (...))\<close> is not true of a NULL state.\<close>

definition pruneSettled :: "'x store_env_scheme \<Rightarrow> int \<Rightarrow> nat wh" where
  "pruneSettled env days =
     await (inspect (\<lambda>s. clock_at env (ticks s))) (\<lambda>now.
       statement env (\<lambda>s.
         let old = (\<lambda>r. ob_state r \<noteq> None \<and> \<not> unsettled (ob_state r) \<and> ob_created r < now - days * 86400000)
         in (Inr (length (filter old (outbox s))), s\<lparr>outbox := filter (\<lambda>r. \<not> old r) (outbox s)\<rparr>)))"

definition same_delivery :: "string \<Rightarrow> string \<Rightarrow> outbox_row \<Rightarrow> bool" where
  "same_delivery w k r \<longleftrightarrow> ob_webhook r = w \<and> ob_key r = k"

definition insert_outbox :: "'x store_env_scheme \<Rightarrow> string \<Rightarrow> string \<Rightarrow> string \<Rightarrow> string \<Rightarrow> string \<Rightarrow> json \<Rightarrow> unit wh" where
  "insert_outbox env w sessionId event k deliveryId payload =
     statement env (\<lambda>s.
       if list_ex (same_delivery w k) (outbox s) then (Inl UniqueViolation, s)
       else (Inr (), s\<lparr>outbox := outbox s @
              [\<lparr>ob_id = uuid_at env (ticks s), ob_webhook = w, ob_session = sessionId, ob_event = event, ob_key = k,
                ob_delivery = deliveryId, ob_payload = Some (Readable payload), ob_state = Some OutPending, ob_attempts = 0,
                ob_lastAttempt = None, ob_created = clock_at env (ticks s)\<rparr>]\<rparr>))"

definition outbox_open :: "'x store_env_scheme \<Rightarrow> string \<Rightarrow> string \<Rightarrow> string \<Rightarrow> string \<Rightarrow> string \<Rightarrow> json \<Rightarrow> unit wh" where
  "outbox_open env w sessionId event k deliveryId payload =
     recover (insert_outbox env w sessionId event k deliveryId payload) (\<lambda>_. succeed ())"

definition change_outbox :: "(outbox_row \<Rightarrow> bool) \<Rightarrow> (outbox_row \<Rightarrow> outbox_row) \<Rightarrow> world \<Rightarrow> (wh_error + nat) \<times> world" where
  "change_outbox P g s =
     (Inr (length (filter P (outbox s))), s\<lparr>outbox := map (\<lambda>r. if P r then g r else r) (outbox s)\<rparr>)"

definition outbox_close :: "'x store_env_scheme \<Rightarrow> string \<Rightarrow> string \<Rightarrow> outbox_state \<Rightarrow> unit wh" where
  "outbox_close env w k st =
     await (inspect (\<lambda>s. clock_at env (ticks s))) (\<lambda>now.
       recover (await (statement env (change_outbox (same_delivery w k)
                  (\<lambda>r. r\<lparr>ob_state := Some st, ob_payload := None, ob_lastAttempt := Some now\<rparr>))) (\<lambda>_. succeed ()))
         (\<lambda>_. succeed ()))"

definition markQueued :: "'x store_env_scheme \<Rightarrow> string \<Rightarrow> string \<Rightarrow> string \<Rightarrow> unit wh" where
  "markQueued env w k deliveryId =
     await (inspect (\<lambda>s. clock_at env (ticks s))) (\<lambda>now.
       recover (await (statement env (change_outbox
                  (\<lambda>r. same_delivery w k r \<and> unsettled (ob_state r) \<and> ob_payload r \<noteq> None)
                  (\<lambda>r. r\<lparr>ob_state := Some OutQueued, ob_delivery := deliveryId, ob_lastAttempt := Some now\<rparr>))) (\<lambda>_. succeed ()))
         (\<lambda>_. succeed ()))"

text \<open>The condition and order of \<open>findStale\<close>; a cursor whose row is gone compares with NULL and selects nothing.\<close>

definition stale_key :: "outbox_row \<Rightarrow> int \<times> string" where
  "stale_key r = (ob_created r, ob_id r)"

definition stale_rows :: "int \<Rightarrow> string option \<Rightarrow> outbox_row list \<Rightarrow> outbox_row list" where
  "stale_rows olderThan afterId rs =
     sort_key stale_key (filter (\<lambda>r. unsettled (ob_state r) \<and> ob_payload r \<noteq> None \<and> ob_created r < olderThan
       \<and> (truthy afterId \<longrightarrow> list_ex (\<lambda>c. Some (ob_id c) = afterId \<and> stale_key c < stale_key r) rs)) rs)"

text \<open>A page read fails when one of its payloads cannot be parsed.\<close>

definition read_page :: "'x store_env_scheme \<Rightarrow> int \<Rightarrow> nat \<Rightarrow> string option \<Rightarrow> outbox_row list wh" where
  "read_page env olderThan limit afterId =
     statement env (\<lambda>s. let page = take limit (stale_rows olderThan afterId (outbox s))
       in (if list_ex (\<lambda>r. ob_payload r = Some Unreadable) page then Inl DbError else Inr page, s))"

definition read_row :: "'x store_env_scheme \<Rightarrow> string \<Rightarrow> outbox_row option wh" where
  "read_row env i =
     statement env (\<lambda>s. case find (\<lambda>r. ob_id r = i) (outbox s) of
         Some r \<Rightarrow> (if ob_payload r = Some Unreadable then Inl DbError else Inr (Some r), s)
       | None \<Rightarrow> (Inr None, s))"

fun read_rows :: "'x store_env_scheme \<Rightarrow> string list \<Rightarrow> outbox_row list wh" where
  "read_rows env [] = succeed []"
| "read_rows env (i # is) =
     await (recover (read_row env i) (\<lambda>_. succeed None)) (\<lambda>r.
       await (read_rows env is) (\<lambda>rs. succeed (case r of Some x \<Rightarrow> x # rs | None \<Rightarrow> rs)))"

definition findStale :: "'x store_env_scheme \<Rightarrow> int \<Rightarrow> nat \<Rightarrow> string option \<Rightarrow> (outbox_row list \<times> string option) wh" where
  "findStale env olderThan limit afterId =
     await (recover (await (read_page env olderThan limit afterId) (\<lambda>rs. succeed (rs, None)))
        (\<lambda>_. await (statement env (\<lambda>s. (Inr (map ob_id (take limit (stale_rows olderThan afterId (outbox s)))), s))) (\<lambda>ids.
               await (read_rows env ids) (\<lambda>rs. succeed (rs, if ids = [] then None else Some (last ids)))))) (\<lambda>(rs, scanned).
       succeed (filter (\<lambda>r. ob_payload r \<noteq> None) rs, scanned))"

definition countAttempt :: "'x store_env_scheme \<Rightarrow> string \<Rightarrow> nat \<Rightarrow> bool wh" where
  "countAttempt env i attempts =
     await (inspect (\<lambda>s. clock_at env (ticks s))) (\<lambda>now.
       recover (await (statement env (change_outbox (\<lambda>r. ob_id r = i \<and> unsettled (ob_state r))
                  (\<lambda>r. r\<lparr>ob_attempts := attempts + 1, ob_lastAttempt := Some now\<rparr>))) (\<lambda>affected. succeed (0 < affected)))
         (\<lambda>_. succeed True))"

section \<open>How an event stands\<close>

text \<open>
  The event of a delivery, named by webhook and idempotency key, stands at 5 when it is settled (a report
  that expired settles it when the row was filed before the cutoff), at 4 when a
  terminal failure row reports it, at 3 when an unsent row does, at 2 while its outbox row can be replayed, at 1
  when no outbox row knows of it, and at 0 when it is lost: its outbox row was retired and nothing else knows of it.
\<close>

fun settles :: "settlement \<Rightarrow> bool" where
  "settles (ReportExpired created cutoff) \<longleftrightarrow> created < cutoff"
| "settles _ \<longleftrightarrow> True"

definition settled_in :: "(string \<times> string \<times> settlement) list \<Rightarrow> string \<times> string \<Rightarrow> bool" where
  "settled_in os i \<longleftrightarrow> (\<exists>h. (fst i, snd i, h) \<in> set os \<and> settles h)"

definition reports :: "bool \<Rightarrow> string \<times> string \<Rightarrow> failure_row \<Rightarrow> bool" where
  "reports terminal i f \<longleftrightarrow> of_delivery (fst i) (Some (snd i)) f \<and> (terminal \<longleftrightarrow> 0 < f_attempts f)"

definition reported_in :: "failure_row list \<Rightarrow> bool \<Rightarrow> string \<times> string \<Rightarrow> bool" where
  "reported_in fs terminal i \<longleftrightarrow> (\<exists>f \<in> set fs. reports terminal i f)"

definition live :: "outbox_row \<Rightarrow> bool" where
  "live r \<longleftrightarrow> unsettled (ob_state r) \<and> ob_payload r \<noteq> None"

definition replayable_in :: "outbox_row list \<Rightarrow> string \<times> string \<Rightarrow> bool" where
  "replayable_in rs i \<longleftrightarrow> (\<exists>r \<in> set rs. same_delivery (fst i) (snd i) r \<and> live r)"

definition filed_in :: "outbox_row list \<Rightarrow> string \<times> string \<Rightarrow> bool" where
  "filed_in rs i \<longleftrightarrow> (\<exists>r \<in> set rs. same_delivery (fst i) (snd i) r)"

definition standing :: "string \<times> string \<Rightarrow> world \<Rightarrow> nat" where
  "standing i s =
     (if settled_in (outcomes s) i then 5 else if reported_in (failures s) True i then 4
      else if reported_in (failures s) False i then 3 else if replayable_in (outbox s) i then 2
      else if filed_in (outbox s) i then 0 else 1)"

lemma standing_ge:
  "5 \<le> standing i s \<longleftrightarrow> settled_in (outcomes s) i"
  "4 \<le> standing i s \<longleftrightarrow> settled_in (outcomes s) i \<or> reported_in (failures s) True i"
  "3 \<le> standing i s \<longleftrightarrow> settled_in (outcomes s) i \<or> reported_in (failures s) True i \<or> reported_in (failures s) False i"
  "2 \<le> standing i s \<longleftrightarrow> settled_in (outcomes s) i \<or> reported_in (failures s) True i \<or> reported_in (failures s) False i
     \<or> replayable_in (outbox s) i"
  by (simp_all add: standing_def)

lemma standing_append [simp]:
  "reported_in (fs @ gs) t i \<longleftrightarrow> reported_in fs t i \<or> reported_in gs t i"
  "replayable_in (rs @ qs) i \<longleftrightarrow> replayable_in rs i \<or> replayable_in qs i"
  "settled_in (os @ ps) i \<longleftrightarrow> settled_in os i \<or> settled_in ps i"
  "filed_in (rs @ qs) i \<longleftrightarrow> filed_in rs i \<or> filed_in qs i"
  by (auto simp: reported_in_def replayable_in_def settled_in_def filed_in_def)

text \<open>Writes that touch neither table nor outcome.\<close>

lemma standing_cong:
  "outcomes s = outcomes s' \<Longrightarrow> failures s = failures s' \<Longrightarrow> outbox s = outbox s' \<Longrightarrow> standing i s = standing i s'"
  by (simp add: standing_def)

lemma standing_frame [simp]:
  "standing i (s\<lparr>ticks := n\<rparr>) = standing i s" "standing i (s\<lparr>losses := l\<rparr>) = standing i s"
  "standing i (s\<lparr>failing := fl\<rparr>) = standing i s" "standing i (s\<lparr>locally := lc\<rparr>) = standing i s"
  "standing i (s\<lparr>jobs_added := ja\<rparr>) = standing i s" "standing i (s\<lparr>hooks_table := ht\<rparr>) = standing i s"
  "standing i (s\<lparr>worker_failing := wk\<rparr>) = standing i s" "standing i (s\<lparr>degraded := dg\<rparr>) = standing i s"
  by (simp_all add: standing_def)

text \<open>Changing rows of a table, keeping what they report.\<close>

lemma standing_change_failures:
  assumes "\<And>f. P f \<Longrightarrow> f_webhook (g f) = f_webhook f \<and> f_key (g f) = f_key f \<and> (0 < f_attempts (g f) \<longleftrightarrow> 0 < f_attempts f)"
  shows "standing i (s\<lparr>failures := map (\<lambda>f. if P f then g f else f) (failures s)\<rparr>) = standing i s"
proof -
  have "reports t i (if P f then g f else f) = reports t i f" for t f
    using assms [of f] by (simp add: reports_def of_delivery_def)
  then have "reported_in (map (\<lambda>f. if P f then g f else f) (failures s)) t i = reported_in (failures s) t i" for t
    by (simp add: reported_in_def del: if_image_distrib)
  then show ?thesis
    by (simp add: standing_def)
qed

lemma replayable_map:
  assumes "\<And>r. r \<in> set rs \<Longrightarrow> same_delivery (fst i) (snd i) r \<Longrightarrow> live r \<Longrightarrow> same_delivery (fst i) (snd i) (g r) \<and> live (g r)"
    and "replayable_in rs i"
  shows "replayable_in (map g rs) i"
  using assms unfolding replayable_in_def by force

lemma filed_map:
  assumes "\<And>r. r \<in> set rs \<Longrightarrow> same_delivery (fst i) (snd i) (g r) \<Longrightarrow> same_delivery (fst i) (snd i) r"
  shows "filed_in (map g rs) i \<Longrightarrow> filed_in rs i"
  using assms unfolding filed_in_def by force

lemma standing_outbox_mono:
  assumes "replayable_in (outbox s) i \<Longrightarrow> replayable_in rs i" and "filed_in rs i \<Longrightarrow> filed_in (outbox s) i \<or> replayable_in rs i"
  shows "standing i s \<le> standing i (s\<lparr>outbox := rs\<rparr>)"
  using assms by (auto simp: standing_def)

lemma standing_change_outbox:
  assumes "\<And>r. P r \<Longrightarrow> ob_webhook (g r) = ob_webhook r \<and> ob_key (g r) = ob_key r \<and> (live r \<longrightarrow> live (g r))"
  shows "standing i s \<le> standing i (s\<lparr>outbox := map (\<lambda>r. if P r then g r else r) (outbox s)\<rparr>)"
proof (rule standing_outbox_mono)
  show "replayable_in (map (\<lambda>r. if P r then g r else r) (outbox s)) i" if "replayable_in (outbox s) i"
    by (rule replayable_map [OF _ that]) (use assms in \<open>auto simp: same_delivery_def\<close>)
  show "filed_in (outbox s) i \<or> replayable_in (map (\<lambda>r. if P r then g r else r) (outbox s)) i" if "filed_in (map (\<lambda>r. if P r then g r else r) (outbox s)) i"
    by (rule disjI1, rule filed_map [OF _ that]) (use assms in \<open>auto simp: same_delivery_def split: if_splits\<close>)
qed

text \<open>A row that expires leaves its note.\<close>

lemma standing_expire:
  "standing i s \<le> standing i (s\<lparr>failures := filter (\<lambda>f. \<not> f_created f < cutoff) (failures s),
     outcomes := outcomes s @ List.map_filter (\<lambda>f. map_option (\<lambda>k. (f_webhook f, k, ReportExpired (f_created f) cutoff)) (f_key f))
       (filter (\<lambda>f. f_created f < cutoff) (failures s))\<rparr>)" (is "_ \<le> standing i ?s")
proof -
  have noted: "settled_in (outcomes ?s) i" if "f \<in> set (failures s)" "f_created f < cutoff" "reports t i f" for f t
    using that by (force simp: settled_in_def reports_def of_delivery_def List.map_filter_def image_iff intro!: exI [of _ "ReportExpired (f_created f) cutoff"])
  then have "reported_in (failures ?s) t i \<or> settled_in (outcomes ?s) i" if "reported_in (failures s) t i" for t
    using that by (auto simp: reported_in_def)
  moreover have "settled_in (outcomes s) i \<Longrightarrow> settled_in (outcomes ?s) i"
    by (auto simp: settled_in_def)
  ultimately show ?thesis
    unfolding standing_def by auto
qed

text \<open>Rows of another delivery do not matter, and rows of an event that stands higher than the table do not either.\<close>

lemma standing_forget_failures:
  assumes "\<And>f. f \<in> set (failures s) \<Longrightarrow> \<not> P f \<Longrightarrow> of_delivery w (Some k) f"
    and "settled_in (outcomes s) (w, k) \<or> reported_in (failures s) True (w, k) \<and> (\<forall>f. \<not> P f \<longrightarrow> f_attempts f = 0)"
  shows "standing i s \<le> standing i (s\<lparr>failures := filter P (failures s)\<rparr>)"
proof (cases "i = (w, k)")
  case True
  have "settled_in (outcomes s) i \<or> reported_in (filter P (failures s)) True i \<and> reported_in (failures s) True i"
    using assms(2) True by (force simp: reported_in_def reports_def)
  then show ?thesis
    by (auto simp: standing_def)
next
  case False
  then have "P f" if "f \<in> set (failures s)" "reports t i f" for t f
    using assms(1) [of f] that by (cases i) (auto simp: reports_def of_delivery_def)
  then have "reported_in (filter P (failures s)) t i = reported_in (failures s) t i" for t
    by (auto simp: reported_in_def)
  then show ?thesis
    by (simp add: standing_def)
qed

lemma standing_retire:
  assumes "3 \<le> standing (w, k) s" and "\<And>r. P r \<Longrightarrow> same_delivery w k r \<and> same_delivery w k (g r)"
  shows "standing i s \<le> standing i (s\<lparr>outbox := map (\<lambda>r. if P r then g r else r) (outbox s)\<rparr>)"
proof (cases "i = (w, k)")
  case True
  then show ?thesis
    using assms(1) by (auto simp: standing_def split: if_splits)
next
  case False
  then have out: "\<not> P r" if "same_delivery (fst i) (snd i) r \<or> same_delivery (fst i) (snd i) (g r)" for r
    using assms(2) [of r] that by (cases i) (auto simp: same_delivery_def)
  show ?thesis
  proof (rule standing_outbox_mono)
    show "replayable_in (map (\<lambda>r. if P r then g r else r) (outbox s)) i" if "replayable_in (outbox s) i"
      by (rule replayable_map [OF _ that]) (use out in auto)
    show "filed_in (outbox s) i \<or> replayable_in (map (\<lambda>r. if P r then g r else r) (outbox s)) i" if "filed_in (map (\<lambda>r. if P r then g r else r) (outbox s)) i"
      by (rule disjI1, rule filed_map [OF _ that]) (use out in \<open>auto split: if_splits\<close>)
  qed
qed

section \<open>Under the other connections\<close>

text \<open>
  What the statements rely on: whatever the other connections and nodes do between two statements, no event
  falls. The operations proved below give the same in turn.
\<close>

locale company =
  fixes env :: "'x store_env_scheme"
  assumes others_raise: "standing i s \<le> standing i (others env n s)"
begin

lemma grades_statement:
  assumes "\<And>s j. p \<le> standing i s \<Longrightarrow> standing j s \<le> standing j (snd (f s))"
    and "\<And>s a. p \<le> standing i s \<Longrightarrow> fst (f s) = Inr a \<Longrightarrow> q a \<le> standing i (snd (f s))"
  shows "grades standing i p (statement env f) q"
proof (rule gradesI)
  fix s assume p: "p \<le> standing i s"
  let ?s = "(others env (ticks s) s)\<lparr>ticks := Suc (ticks s)\<rparr>"
  have p': "p \<le> standing i ?s"
    using others_raise [of i s "ticks s"] p by simp
  show "standing j s \<le> standing j (snd (statement env f s))" for j
    using others_raise [of j s "ticks s"] assms(1) [OF p', of j] by (simp add: statement_def Let_def)
  show "q a \<le> standing i (snd (statement env f s))" if "fst (statement env f s) = Inr a" for a
    using assms(2) [OF p', of a] that by (simp add: statement_def Let_def split: if_splits)
qed

lemma grades_read: "(\<And>s. snd (f s) = s) \<Longrightarrow> (\<And>a. q a \<le> p) \<Longrightarrow> grades standing i p (statement env f) q"
  by (rule grades_statement) (auto intro: order_trans)

lemma grades_clear:
  "grades standing (w, k) (if only then 4 else 5) (clearDeliveryFailureRows env w (Some k) only) (\<lambda>_. 0)"
  unfolding clearDeliveryFailureRows_def
proof (intro grading grades_statement)
  fix s j
  assume "(if only then 4 else 5) \<le> standing (w, k) s"
  then show "standing j s \<le> standing j (snd (Inr (), s\<lparr>failures :=
      filter (\<lambda>f. \<not> (of_delivery w (Some k) f \<and> (only \<longrightarrow> f_attempts f = 0))) (failures s)\<rparr>))"
    unfolding snd_conv
    by (intro standing_forget_failures [of _ _ w k]) (auto simp: standing_ge split: if_splits)
qed simp_all

lemma grades_change_failures:
  assumes "\<And>f. P f \<Longrightarrow> f_webhook (g f) = f_webhook f \<and> f_key (g f) = f_key f \<and> (0 < f_attempts (g f) \<longleftrightarrow> 0 < f_attempts f)"
    and "\<And>s. p \<le> standing i s \<Longrightarrow> q (length (filter P (failures s))) \<le> standing i s"
  shows "grades standing i p (statement env (change_failures P g)) q"
  using assms(2) by (intro grades_statement) (auto simp: change_failures_def standing_change_failures [OF assms(1)])

lemma grades_refreshTerminal:
  assumes "in_key inp = Some k"
  shows "grades standing (in_webhook inp, k) p (refreshTerminal env inp) (\<lambda>r. if r = None then 0 else 4)"
proof -
  let ?i = "(in_webhook inp, k)"
  have a: "grades standing ?i p (statement env (change_failures (\<lambda>f. of_delivery (in_webhook inp) (in_key inp) f \<and> 0 < f_attempts f)
             (\<lambda>f. f\<lparr>f_url := in_url inp, f_error := nul_free (in_error inp), f_delivery := (case in_delivery inp of None \<Rightarrow> f_delivery f | d \<Rightarrow> d),
                    f_attempts := f_attempts f + in_attempts inp, f_status := in_status inp\<rparr>))) (\<lambda>n. if n = 0 then 0 else 4)"
    by (rule grades_change_failures)
      (auto simp: assms standing_ge reported_in_def reports_def filter_empty_conv)
  have b: "grades standing ?i p' (statement env (change_failures
        (\<lambda>f. of_delivery (in_webhook inp) (in_key inp) f \<and> 0 < f_attempts f \<and> f_payload f = None \<and> retained_since now h f)
        (\<lambda>f. f\<lparr>f_payload := Some pl\<rparr>))) (\<lambda>_. 0)" for p' now h pl
    by (rule grades_change_failures) auto
  have c: "grades standing ?i (max m 4) (clearDeliveryFailureRows env (in_webhook inp) (Some k) True) (\<lambda>_. 0)" for m
    by (rule grades_weaken [OF grades_clear [of "in_webhook inp" k True]]) simp_all
  have d: "grades standing ?i p' (case (in_payload inp, in_hours inp) of
        (Some pl, Some h) \<Rightarrow>
          if h = 0 then succeed 0
          else await (inspect (\<lambda>s. clock_at env (ticks s))) (\<lambda>now.
            statement env (change_failures
              (\<lambda>f. of_delivery (in_webhook inp) (in_key inp) f \<and> 0 < f_attempts f \<and> f_payload f = None \<and> retained_since now h f)
              (\<lambda>f. f\<lparr>f_payload := Some pl\<rparr>)))
      | _ \<Rightarrow> succeed 0) (\<lambda>_. 0)" for p'
    using b by (auto split: option.split intro!: grades_succeed grades_await [OF grades_inspect [where q = "\<lambda>_. 0"]])
  show ?thesis
    unfolding refreshTerminal_def Let_def
    by (intro grades_await [OF a] grades_if grades_await [OF d] grades_succeed)
      (use c in \<open>auto simp: assms intro!: grades_await grades_succeed\<close>)
qed

lemma grades_insert_failure:
  assumes "in_key inp = Some k"
  shows "grades standing (in_webhook inp, k) p (insert_failure env inp) (\<lambda>_. if 0 < in_attempts inp then 4 else 3)"
  unfolding insert_failure_def
proof (intro grades_statement, goal_cases)
  case (1 s j)
  then show ?case
    by (simp add: standing_def)
next
  case (2 s a)
  then show ?case
    by (auto simp: standing_ge(2,3) reported_in_def reports_def of_delivery_def assms split: if_splits)
qed

lemma grades_file_failure:
  assumes "in_key inp = Some k"
  shows "grades standing (in_webhook inp, k) p (file_failure env inp)
    (\<lambda>r. if r = None then 0 else if 0 < in_attempts inp then 4 else 3)"
proof -
  let ?i = "(in_webhook inp, k)" and ?t = "if 0 < in_attempts inp then 4 else 3 :: nat"
  have a: "grades standing ?i p (recover (await (insert_failure env inp) (\<lambda>_. succeed None))
      (\<lambda>e. if 0 < in_attempts inp \<and> truthy (in_key inp) \<and> e = UniqueViolation
            then await (refreshTerminal env inp) (\<lambda>r. succeed (Some r)) else throw e))
      (\<lambda>early. if early = Some None then 0 else ?t)"
    by (intro grades_recover grades_await [OF grades_insert_failure [OF assms]] grades_if grades_throw
        grades_await [OF grades_refreshTerminal [OF assms]] grades_succeed) (auto simp: max_def)
  have c: "grades standing ?i (max p 4) (clearDeliveryFailureRows env (in_webhook inp) (in_key inp) True) (\<lambda>_. 4)"
    unfolding assms by (rule grades_weaken [OF grades_clear [of "in_webhook inp" k True]]) simp_all
  show ?thesis
    unfolding file_failure_def Let_def
    by (intro grades_await [OF a] grades_case_option grades_if)
      (auto simp: max_def intro!: grades_succeed grades_await [OF grades_weaken [OF c]] split: if_splits)
qed

lemma grades_count:
  assumes "\<And>s. (\<exists>f \<in> set (failures s). P f) \<Longrightarrow> l \<le> standing i s"
  shows "grades standing i p (statement env (\<lambda>s. (Inr (length (filter P (failures s))), s))) (\<lambda>n. if n = 0 then 0 else l)"
  using assms by (intro grades_statement) (auto simp: filter_empty_conv)

lemma grades_record:
  assumes "in_key inp = Some k"
  shows "grades standing (in_webhook inp, k) p (recordWebhookDeliveryFailure env inp)
    (\<lambda>r. if r = None then 0 else if 0 < in_attempts inp then 4 else 3)"
proof -
  let ?i = "(in_webhook inp, k)" and ?q = "\<lambda>r. if r = None then 0 else if 0 < in_attempts inp then 4 else 3 :: nat"
  have count: "grades standing ?i p (statement env (\<lambda>s. (Inr (length (filter (\<lambda>f. of_delivery (in_webhook inp) (in_key inp) f
        \<and> (0 < in_attempts inp \<longrightarrow> 0 < f_attempts f)) (failures s))), s))) (\<lambda>n. if n = 0 then 0 else if 0 < in_attempts inp then 4 else 3)"
    by (rule grades_count) (auto simp: assms standing_ge reported_in_def reports_def)
  have reason: "grades standing ?i p' (refreshReason env inp) (\<lambda>_. 0)" for p'
    unfolding refreshReason_def by (rule grades_change_failures) auto
  have filed: "grades standing ?i p' (file_failure env inp) ?q" for p'
    by (rule grades_file_failure [OF assms])
  have refresh: "0 < in_attempts inp \<Longrightarrow> grades standing ?i p' (refreshTerminal env inp) ?q" for p'
    using grades_refreshTerminal [OF assms] by simp
  have unsent: "grades standing ?i p' (await (recover (refreshReason env inp) (\<lambda>_. succeed 0)) (\<lambda>_. succeed (Some False))) ?q"
    if "3 \<le> p'" "\<not> 0 < in_attempts inp" for p'
    using that by (intro grades_await [OF grades_recover [OF reason grades_succeed]] grades_succeed) (auto simp: max_def)
  show ?thesis
    unfolding recordWebhookDeliveryFailure_def Let_def
    by (intro grades_recover grades_if grades_await [OF count] filed refresh unsent grades_succeed) (auto simp: max_def)
qed

lemma grades_close: "grades standing (w, k) (max 3 p) (outbox_close env w k st) (\<lambda>_. 0)"
  unfolding outbox_close_def
proof (intro grades_await [OF grades_inspect [where q = "\<lambda>_. 0"]] grades_recover
    grades_await [OF grades_statement [where q = "\<lambda>_. 0"]] grades_succeed)
  fix now s j
  assume "max (max 3 p) 0 \<le> standing (w, k) s"
  then show "standing j s \<le> standing j (snd (change_outbox (same_delivery w k)
      (\<lambda>r. r\<lparr>ob_state := Some st, ob_payload := None, ob_lastAttempt := Some now\<rparr>) s))"
    unfolding change_outbox_def snd_conv by (intro standing_retire [of w k]) (simp_all add: same_delivery_def)
qed simp_all

lemma grades_change_outbox:
  assumes "\<And>r. P r \<Longrightarrow> ob_webhook (g r) = ob_webhook r \<and> ob_key (g r) = ob_key r \<and> (live r \<longrightarrow> live (g r))"
  shows "grades standing i p (statement env (change_outbox P g)) (\<lambda>_. 0)"
  by (intro grades_statement) (auto simp: change_outbox_def intro!: standing_change_outbox assms)

lemma grades_markQueued: "grades standing i p (markQueued env w k d) (\<lambda>_. 0)"
  unfolding markQueued_def
  by (intro grades_await [OF grades_inspect [where q = "\<lambda>_. 0"]] grades_recover
      grades_await [OF grades_change_outbox] grades_succeed) (auto simp: live_def unsettled_def)

lemma grades_countAttempt: "grades standing i p (countAttempt env r n) (\<lambda>_. 0)"
  unfolding countAttempt_def
  by (intro grades_await [OF grades_inspect [where q = "\<lambda>_. 0"]] grades_recover
      grades_await [OF grades_change_outbox] grades_succeed) (auto simp: live_def unsettled_def)

lemma grades_findStale: "grades standing i p (findStale env t n c) (\<lambda>_. 0)"
proof -
  have "grades standing i p' (read_rows env is) (\<lambda>_. 0)" for p' "is"
    by (induction "is" arbitrary: p') (auto simp: read_row_def split: option.split intro!: grades_succeed grades_await
        grades_recover grades_read)
  then show ?thesis
    unfolding findStale_def read_page_def
    by (intro grades_await [where r = "\<lambda>_. 0"] grades_recover grades_read grades_succeed grades_case_prod) (auto simp: Let_def)
qed

lemma grades_open: "grades standing i p (outbox_open env w sn ev k d pl) (\<lambda>_. 0)"
  unfolding outbox_open_def insert_outbox_def
  by (intro grades_recover grades_statement grades_succeed)
    (auto intro!: standing_outbox_mono simp: filed_in_def replayable_in_def live_def unsettled_def)

lemma grades_prune: "grades standing i p (pruneSettled env d) (\<lambda>_. 0)"
  unfolding pruneSettled_def
  by (intro grades_await [OF grades_inspect [where q = "\<lambda>_. 0"]] grades_statement)
    (fastforce intro!: standing_outbox_mono simp: Let_def filed_in_def replayable_in_def live_def)+

lemma grades_prune_failures:
  "grades standing i p (pruneDeliveryFailures env d) (\<lambda>_. 0)" "grades standing i p (pruneDeliveryFailurePayloads env d) (\<lambda>_. 0)"
  unfolding pruneDeliveryFailures_def pruneDeliveryFailurePayloads_def
  by (intro grades_await [OF grades_inspect [where q = "\<lambda>_. 0"]] grades_statement;
      auto simp: Let_def standing_expire change_failures_def standing_change_failures)+

end

end
