(* ===== verification/Json_Text.thy ===== *)
theory Json_Text
  imports Json
begin

text \<open>
  \<open>JSON.stringify\<close> of the JSON values of the development, the UTF-8 length of a text
  (\<open>Buffer.byteLength(text, 'utf8')\<close>), assignment to a property, and the shedding of inline media of
  \<open>src/common/utils/inline-media.ts\<close>.
\<close>

definition hex_digit :: "nat \<Rightarrow> char" where
  "hex_digit n = (if n < 10 then char_of (48 + n) else char_of (87 + n))"

definition escape_char :: "char \<Rightarrow> string" where
  "escape_char c =
     (let n = (of_char c :: nat)
      in if c = CHR 0x22 then [CHR 0x5C, CHR 0x22]
         else if c = CHR 0x5C then [CHR 0x5C, CHR 0x5C]
         else if n = 8 then [CHR 0x5C, CHR ''b'']
         else if n = 9 then [CHR 0x5C, CHR ''t'']
         else if n = 10 then [CHR 0x5C, CHR ''n'']
         else if n = 12 then [CHR 0x5C, CHR ''f'']
         else if n = 13 then [CHR 0x5C, CHR ''r'']
         else if n < 32 then [CHR 0x5C, CHR ''u'', CHR ''0'', CHR ''0'', hex_digit (n div 16), hex_digit (n mod 16)]
         else [c])"

definition quote_text :: "string \<Rightarrow> string" where
  "quote_text s = CHR 0x22 # concat (map escape_char s) @ [CHR 0x22]"

definition int_text :: "int \<Rightarrow> string" where
  "int_text n = (if n < 0 then CHR ''-'' # nat_string (nat (- n)) else nat_string (nat n))"

fun join_comma :: "string list \<Rightarrow> string" where
  "join_comma [] = []"
| "join_comma [x] = x"
| "join_comma (x # y # ys) = x @ CHR '','' # join_comma (y # ys)"

fun json_text :: "json \<Rightarrow> string" where
  "json_text JNull = ''null''"
| "json_text (JBool b) = (if b then ''true'' else ''false'')"
| "json_text (JNum n) = int_text n"
| "json_text (JStr s) = quote_text s"
| "json_text (JArr xs) = CHR ''['' # join_comma (map json_text xs) @ '']''"
| "json_text (JObj fs) = CHR ''{'' # join_comma (map (\<lambda>(k, v). quote_text k @ CHR '':'' # json_text v) fs) @ ''}''"

definition utf8_length :: "string \<Rightarrow> nat" where
  "utf8_length s = sum_list (map (\<lambda>c. if (of_char c :: nat) < 128 then 1 else 2) s)"

text \<open>\<open>obj[name] = v\<close>: in place, or at the end for a new property.\<close>

fun put_field :: "string \<Rightarrow> 'v \<Rightarrow> (string \<times> 'v) list \<Rightarrow> (string \<times> 'v) list" where
  "put_field n v [] = [(n, v)]"
| "put_field n v ((m, x) # fs) = (if m = n then (n, v) # fs else (m, x) # put_field n v fs)"

lemma map_of_put_field [simp]: "map_of (put_field n v fs) = (map_of fs)(n \<mapsto> v)"
  by (induction fs) auto

text \<open>\<open>Buffer.byteLength(s, 'base64')\<close>: three bytes for four characters, less the padding.\<close>

definition base64_length :: "string \<Rightarrow> nat" where
  "base64_length s =
     (let n = length s;
          n1 = (if 0 < n \<and> s ! (n - 1) = CHR ''='' then n - 1 else n);
          n2 = (if 1 < n1 \<and> s ! (n1 - 1) = CHR ''='' then n1 - 1 else n1)
      in n2 * 3 div 4)"

definition shedInlineMedia :: "json \<Rightarrow> nat \<Rightarrow> json" where
  "shedInlineMedia dat maxBytes =
     (case (dat, field_of (Some dat) ''media'') of
        (JObj fs, Some (JObj ms)) \<Rightarrow>
          (case map_of ms ''data'' of
             Some (JStr blob) \<Rightarrow>
               if blob = [] \<or> base64_length blob \<le> maxBytes then dat
               else JObj (put_field ''media'' (JObj (
                      (case map_of ms ''mimetype'' of Some m \<Rightarrow> [(''mimetype'', m)] | None \<Rightarrow> [])
                      @ (case map_of ms ''filename'' of Some (JStr f) \<Rightarrow> [(''filename'', JStr f)] | _ \<Rightarrow> [])
                      @ [(''omitted'', JBool True), (''sizeBytes'', JNum (int (base64_length blob)))])) fs)
           | _ \<Rightarrow> dat)
      | _ \<Rightarrow> dat)"

end
