(* ===== verification/Webhook_Delivery.thy ===== *)
theory Webhook_Delivery
  imports Webhook_Store Json_Text
begin

text \<open>
  One webhook delivery: \<open>src/modules/webhook/utils/deliver-once.ts\<close> and the delivery half of
  \<open>src/modules/webhook/webhook-delivery.service.ts\<close> (preflight, the queued path with its fallback, the direct
  path with its retries, admission, dispatch and replay).

  What the code asks of the outside is answered by the environment at the tick of the call: the hooks of the
  plugins, the receiver, the queue, the admission of the dispatch limiter (its own model is \<open>Concurrency\<close>) and
  the signal of a replay's owner. Log lines are left out. An error text is the redacted one.
\<close>

section \<open>What the outside answers\<close>

datatype before_answer = BeforeThrows | BeforeStops | BeforeGives "json option" | BeforePoison

datatype post_answer = Answer int string | NoAnswer string

datatype admission = AdmitNow | AdmitGated | RefuseFull | RefuseShut

datatype job_answer = QueueUnreadable | NoJob | JobState string

record delivery_env = store_env +
  queue_on :: bool
  retention_hours :: int
  max_payload :: nat
  retry_delay :: int
  degraded_cap :: nat
  jitter_at :: "nat \<Rightarrow> int \<Rightarrow> int"
  iso_at :: "nat \<Rightarrow> string"
  before_hook :: "nat \<Rightarrow> json \<Rightarrow> before_answer"
  hook_fails :: "nat \<Rightarrow> bool"
  receiver :: "nat \<Rightarrow> string \<Rightarrow> (string \<times> string) list \<Rightarrow> string \<Rightarrow> post_answer"
  add_fails :: "nat \<Rightarrow> bool"
  job_at :: "nat \<Rightarrow> string \<Rightarrow> job_answer"
  admission_at :: "nat \<Rightarrow> admission"
  slot_shut :: "nat \<Rightarrow> bool"
  stopped :: "nat \<Rightarrow> bool"
  hmac :: "string \<Rightarrow> string \<Rightarrow> string"
  sha256 :: "string \<Rightarrow> string"
  inline_max :: nat
  lid_read :: "(string list \<Rightarrow> (string \<times> string option) list option) option"

text \<open>A call outside the database: the others act, time passes, and the answer is given at that tick.\<close>

definition external :: "'x store_env_scheme \<Rightarrow> (nat \<Rightarrow> world \<Rightarrow> (wh_error + 'a) \<times> world) \<Rightarrow> 'a wh" where
  "external env f s = (let n = ticks s in f n ((others env n s)\<lparr>ticks := Suc n\<rparr>))"

definition run_hook :: "'x delivery_env_scheme \<Rightarrow> unit wh" where
  "run_hook env = external env (\<lambda>n s. (if hook_fails env n then Inl HookFailed else Inr (), s))"

definition settle_as :: "string \<Rightarrow> string \<Rightarrow> settlement \<Rightarrow> unit wh" where
  "settle_as w k h = modify (\<lambda>s. s\<lparr>outcomes := outcomes s @ [(w, k, h)]\<rparr>)"

definition count_loss :: "bool option \<Rightarrow> unit wh" where
  "count_loss recorded = modify (\<lambda>s. if recorded \<noteq> Some False then s\<lparr>losses := losses s + 1\<rparr> else s)"

definition forget_failing :: "string \<Rightarrow> unit wh" where
  "forget_failing w = modify (\<lambda>s. s\<lparr>failing := filter (\<lambda>x. x \<noteq> w) (failing s)\<rparr>)"

definition note_failing :: "string \<Rightarrow> unit wh" where
  "note_failing w = modify (\<lambda>s. if w \<in> set (failing s) then s else s\<lparr>failing := failing s @ [w]\<rparr>)"

definition read_webhook :: "'x store_env_scheme \<Rightarrow> string \<Rightarrow> webhook option wh" where
  "read_webhook env w = statement env (\<lambda>s. (Inr (find (\<lambda>h. hook_id h = w) (hooks_table s)), s))"

fun error_text :: "wh_error \<Rightarrow> string" where
  "error_text (HttpError c t) = ''HTTP '' @ int_text c @ '': '' @ t"
| "error_text (FetchFailed m) = m"
| "error_text LimiterFull = ''ConcurrencyLimiter queue full''"
| "error_text LimiterShut = ''ConcurrencyLimiter closed''"
| "error_text (TooLarge n cap) = ''Webhook payload is '' @ nat_string n @ '' bytes after webhook:before hooks, exceeding the ''
     @ nat_string cap @ ''-byte cap''"
| "error_text DbError = ''database error''"
| "error_text UniqueViolation = ''unique constraint''"
| "error_text BackoffAborted = ''This operation was aborted''"
| "error_text UnrecordedFailure = ''unrecorded''"
| "error_text HookFailed = ''hook failed''"
| "error_text NotSerializable = ''cannot be serialized''"
| "error_text QueueDown = ''queue down''"
| "error_text (JobDelayed t) = []"
| "error_text NoFuel = []"

section \<open>deliver-once.ts\<close>

definition WILDCARD_EXCLUDED_EVENTS :: "string list" where
  "WILDCARD_EXCLUDED_EVENTS = [''message.receipt'']"

definition subscriptionCoversEvent :: "string list \<Rightarrow> string \<Rightarrow> bool" where
  "subscriptionCoversEvent events event \<longleftrightarrow>
     event \<in> set events \<or> ''*'' \<in> set events \<and> event \<notin> set WILDCARD_EXCLUDED_EVENTS"

definition connection_headers :: "string list" where
  "connection_headers = [''user-agent'', ''connection'', ''content-length'', ''expect'', ''keep-alive'', ''te'', ''trailer'',
     ''transfer-encoding'', ''upgrade'']"

definition system_header :: "string \<Rightarrow> bool" where
  "system_header name \<longleftrightarrow>
     take 12 (toLowerCase name) = ''content-type'' \<or> take 9 (toLowerCase name) = ''x-openwa-''
     \<or> toLowerCase name \<in> set connection_headers"

definition sanitizeCustomHeaders :: "(string \<times> string) list option \<Rightarrow> (string \<times> string) list" where
  "sanitizeCustomHeaders custom = filter (\<lambda>(n, v). \<not> system_header n) (case custom of None \<Rightarrow> [] | Some hs \<Rightarrow> hs)"

definition isDeliverableWebhook :: "webhook option \<Rightarrow> string \<Rightarrow> string option \<Rightarrow> bool" where
  "isDeliverableWebhook row event sessionId =
     (case row of
        None \<Rightarrow> False
      | Some h \<Rightarrow> (sessionId = None \<or> sessionId = Some (hook_session h)) \<and> hook_active h
          \<and> (case hook_events h of None \<Rightarrow> False | Some es \<Rightarrow> subscriptionCoversEvent es event))"

definition generateSignature :: "'x delivery_env_scheme \<Rightarrow> string \<Rightarrow> string \<Rightarrow> string" where
  "generateSignature env body secret = ''sha256='' @ hmac env secret body"

definition buildDeliveryHeaders ::
    "'x delivery_env_scheme \<Rightarrow> webhook \<Rightarrow> string \<Rightarrow> string \<Rightarrow> string \<Rightarrow> string \<Rightarrow> nat \<Rightarrow> (string \<times> string) list" where
  "buildDeliveryHeaders env h event k deliveryId body retryCount =
     (let headers = foldl (\<lambda>hs (n, v). put_field n v hs) (sanitizeCustomHeaders (hook_headers h))
            [(''Content-Type'', ''application/json''), (''User-Agent'', ''OpenWA-Webhook/1.0.0''), (''X-OpenWA-Event'', event),
             (''X-OpenWA-Idempotency-Key'', k), (''X-OpenWA-Delivery-Id'', deliveryId), (''X-OpenWA-Retry-Count'', nat_string retryCount)]
      in if truthy (hook_secret h)
         then put_field ''X-OpenWA-Signature'' (generateSignature env body (the (hook_secret h))) headers
         else headers)"

text \<open>One POST; a receiver that answers 2xx has accepted the event.\<close>

definition postWebhookPayload ::
    "'x delivery_env_scheme \<Rightarrow> string \<Rightarrow> string \<Rightarrow> string \<Rightarrow> (string \<times> string) list \<Rightarrow> string \<Rightarrow> int wh" where
  "postWebhookPayload env w k url headers body =
     await (external env (\<lambda>n s. case receiver env n url headers body of
         NoAnswer m \<Rightarrow> (Inl (FetchFailed m), s)
       | Answer code txt \<Rightarrow> (if 200 \<le> code \<and> code < 300 then Inr code else Inl (HttpError code txt), s))) (\<lambda>code.
       await (settle_as w k PostAccepted) (\<lambda>_. succeed code))"

definition recordTerminalFailure :: "'x delivery_env_scheme \<Rightarrow> failure_input \<Rightarrow> wh_error \<Rightarrow> bool option wh" where
  "recordTerminalFailure env row e =
     recordWebhookDeliveryFailure env (row\<lparr>in_status := statusCodeFromError (error_text e), in_error := error_text e\<rparr>)"

section \<open>Preflight\<close>

record dispatch_ctx =
  cx_session :: string
  cx_event :: string
  cx_data :: json
  cx_slot :: bool
  cx_single :: bool
  cx_oneDirect :: bool
  cx_signal :: bool

definition recordUndelivered :: "'x delivery_env_scheme \<Rightarrow> webhook \<Rightarrow> string \<Rightarrow> string \<Rightarrow> wh_error \<Rightarrow> dispatch_ctx \<Rightarrow> bool wh" where
  "recordUndelivered env h deliveryId k e ctx =
     await (recordWebhookDeliveryFailure env
              \<lparr>in_webhook = hook_id h, in_session = cx_session ctx, in_event = cx_event ctx, in_url = hook_url h, in_key = Some k,
                in_delivery = Some deliveryId, in_attempts = 0, in_status = None, in_error = error_text e, in_payload = None,
                in_hours = None\<rparr>) (\<lambda>recorded.
       await (count_loss recorded) (\<lambda>_.
       await (recover (run_hook env) (\<lambda>_. succeed ())) (\<lambda>_. succeed (recorded \<noteq> None))))"

datatype preflight = PreflightBody json string | PreflightCancelled | PreflightUnrecorded | PreflightFailed

definition initial_payload :: "dispatch_ctx \<Rightarrow> string \<Rightarrow> string \<Rightarrow> string \<Rightarrow> json" where
  "initial_payload ctx time k deliveryId =
     JObj [(''event'', JStr (cx_event ctx)), (''timestamp'', JStr time), (''sessionId'', JStr (cx_session ctx)),
       (''idempotencyKey'', JStr k), (''deliveryId'', JStr deliveryId), (''data'', cx_data ctx)]"

text \<open>The identity fields, written again over whatever the hooks returned.\<close>

definition reassert :: "dispatch_ctx \<Rightarrow> string \<Rightarrow> string \<Rightarrow> string \<Rightarrow> json option \<Rightarrow> (string \<times> json) list" where
  "reassert ctx time k deliveryId given =
     (let fl = (case given of Some (JObj fs) \<Rightarrow> fs
                    | _ \<Rightarrow> (case initial_payload ctx time k deliveryId of JObj fs \<Rightarrow> fs | _ \<Rightarrow> []))
      in foldl (\<lambda>fs (n, v). put_field n (JStr v) fs) fl
           [(''event'', cx_event ctx), (''sessionId'', cx_session ctx), (''timestamp'', time), (''idempotencyKey'', k),
            (''deliveryId'', deliveryId)])"

text \<open>Over the cap, what is left of inline media is shed and the body measured again.\<close>

definition gated_body :: "nat \<Rightarrow> (string \<times> json) list \<Rightarrow> (string \<times> json) list" where
  "gated_body cap fl =
     (if utf8_length (json_text (JObj fl)) \<le> cap then fl
      else case map_of fl ''data'' of
             None \<Rightarrow> fl
           | Some d \<Rightarrow> if shedInlineMedia d 0 = d then fl else put_field ''data'' (shedInlineMedia d 0) fl)"

definition preflightDelivery :: "'x delivery_env_scheme \<Rightarrow> webhook \<Rightarrow> string \<Rightarrow> string \<Rightarrow> dispatch_ctx \<Rightarrow> preflight wh" where
  "preflightDelivery env h deliveryId k ctx =
     (let refuse = (\<lambda>e. await (recordUndelivered env h deliveryId k e ctx) (\<lambda>recorded.
                       succeed (if recorded then PreflightFailed else PreflightUnrecorded)))
      in recover
           (await (inspect (\<lambda>s. iso_at env (ticks s))) (\<lambda>time.
              await (external env (\<lambda>n s. (Inr (before_hook env n (initial_payload ctx time k deliveryId)), s))) (\<lambda>answer.
                case answer of
                  BeforeThrows \<Rightarrow> throw HookFailed
                | BeforeStops \<Rightarrow> await (settle_as (hook_id h) k Withdrawn) (\<lambda>_. succeed PreflightCancelled)
                | BeforePoison \<Rightarrow> throw NotSerializable
                | BeforeGives given \<Rightarrow>
                    let fl = gated_body (max_payload env) (reassert ctx time k deliveryId given);
                        body = json_text (JObj fl)
                    in if utf8_length body \<le> max_payload env then succeed (PreflightBody (JObj fl) body)
                       else refuse (TooLarge (utf8_length body) (max_payload env)))))
           refuse)"

section \<open>Direct delivery\<close>

text \<open>
  One attempt of \<open>deliverWebhook\<close>: the row as it is now and what became of it, a refusal to deliver
  (false), a delivery (true) or an error.
\<close>

definition attempt_once ::
    "'x delivery_env_scheme \<Rightarrow> webhook \<Rightarrow> dispatch_ctx \<Rightarrow> string \<Rightarrow> string \<Rightarrow> string \<Rightarrow> nat \<Rightarrow> (webhook \<times> (wh_error + bool)) wh" where
  "attempt_once env current ctx k deliveryId body attempt =
     (let w = hook_id current
      in await (trying (read_webhook env w)) (\<lambda>read.
           case read of
             Inl e \<Rightarrow> succeed (current, Inl e)
           | Inr row \<Rightarrow>
               if \<not> isDeliverableWebhook row (cx_event ctx) (Some (cx_session ctx)) then
                 await (settle_as w k Withdrawn) (\<lambda>_. await (forget_failing w) (\<lambda>_. succeed (current, Inr False)))
               else
                 await (trying
                   (await (inspect (\<lambda>s. 1 < attempt \<and> cx_signal ctx \<and> stopped env (ticks s))) (\<lambda>halt.
                      if halt then throw BackoffAborted
                      else await (postWebhookPayload env w k (hook_url (the row))
                                    (buildDeliveryHeaders env (the row) (cx_event ctx) k deliveryId body (attempt - 1)) body) (\<lambda>_.
                        await (forget_failing w) (\<lambda>_.
                        await (inspect (\<lambda>s. clock_at env (ticks s))) (\<lambda>now.
                        await (recover (statement env (\<lambda>s. (Inr (), s\<lparr>hooks_table :=
                                 map (\<lambda>h. if hook_id h = w then h\<lparr>hook_triggered := Some now\<rparr> else h) (hooks_table s)\<rparr>))) (\<lambda>_. succeed ())) (\<lambda>_.
                        await (clearDeliveryFailureRows env w (Some k) False) (\<lambda>_. succeed True)))))))) (\<lambda>r.
                   succeed (the row, r))))"

definition backoff :: "'x delivery_env_scheme \<Rightarrow> dispatch_ctx \<Rightarrow> unit wh" where
  "backoff env ctx =
     external env (\<lambda>n s.
       (if cx_signal ctx \<and> stopped env n then Inl BackoffAborted
        else if cx_slot ctx \<and> slot_shut env n then Inl LimiterShut else Inr (), s))"

definition keepsFailurePayload :: "'x delivery_env_scheme \<Rightarrow> bool" where
  "keepsFailurePayload env \<longleftrightarrow> 0 < retention_hours env"

definition give_up :: "'x delivery_env_scheme \<Rightarrow> webhook \<Rightarrow> dispatch_ctx \<Rightarrow> string \<Rightarrow> string \<Rightarrow> nat \<Rightarrow> wh_error \<Rightarrow> bool wh" where
  "give_up env current ctx k deliveryId attempt e =
     await (recordTerminalFailure env
              \<lparr>in_webhook = hook_id current, in_session = cx_session ctx, in_event = cx_event ctx, in_url = hook_url current,
                in_key = Some k, in_delivery = Some deliveryId, in_attempts = attempt, in_status = None, in_error = [],
                in_payload = (if keepsFailurePayload env then Some (cx_data ctx) else None),
                in_hours = (if keepsFailurePayload env then Some (retention_hours env) else None)\<rparr> e) (\<lambda>recorded.
       await (count_loss recorded) (\<lambda>_. throw (if recorded = None then UnrecordedFailure else e)))"

text \<open>
  The retry loop. A webhook's \<open>retryCount\<close> is read again before every attempt, so the number of rounds is not
  fixed when it starts; \<open>fuel\<close> bounds them.
\<close>

fun deliverWebhook :: "nat \<Rightarrow> 'x delivery_env_scheme \<Rightarrow> webhook \<Rightarrow> dispatch_ctx \<Rightarrow> string \<Rightarrow> string \<Rightarrow> string \<Rightarrow> nat \<Rightarrow> bool wh" where
  "deliverWebhook 0 env h ctx k deliveryId body attempt = throw NoFuel"
| "deliverWebhook (Suc fuel) env h ctx k deliveryId body attempt =
     await (attempt_once env h ctx k deliveryId body attempt) (\<lambda>(current, r).
       case r of
         Inr b \<Rightarrow> succeed b
       | Inl e \<Rightarrow>
           if e = BackoffAborted \<and> cx_signal ctx then throw e
           else await (note_failing (hook_id h)) (\<lambda>_.
             if int attempt < (if cx_single ctx \<or> cx_oneDirect ctx then 1 else hook_retries current)
             then await (backoff env ctx) (\<lambda>_. deliverWebhook fuel env current ctx k deliveryId body (Suc attempt))
             else give_up env current ctx k deliveryId attempt e))"

section \<open>The paths of a delivery\<close>

datatype delivery_outcome = Delivered | Enqueued | Cancelled | DeliveryFailed | Unrecorded

definition interrupted :: "wh_error \<Rightarrow> bool" where
  "interrupted e \<longleftrightarrow> e = LimiterShut \<or> e = BackoffAborted \<or> e = NoFuel"

definition deliverDirect ::
    "nat \<Rightarrow> 'x delivery_env_scheme \<Rightarrow> webhook \<Rightarrow> string \<Rightarrow> string \<Rightarrow> string \<Rightarrow> dispatch_ctx \<Rightarrow> delivery_outcome wh" where
  "deliverDirect fuel env h body deliveryId k ctx =
     recover
       (await (deliverWebhook fuel env h ctx k deliveryId body 1) (\<lambda>sent.
          if \<not> sent then succeed Cancelled
          else await (run_hook env) (\<lambda>_. await (run_hook env) (\<lambda>_. succeed Delivered))))
       (\<lambda>e. if interrupted e then throw e
             else await (run_hook env) (\<lambda>_. succeed (if e = UnrecordedFailure then Unrecorded else DeliveryFailed)))"

definition enqueueWithFallback ::
    "nat \<Rightarrow> 'x delivery_env_scheme \<Rightarrow> webhook \<Rightarrow> string \<Rightarrow> string \<Rightarrow> string \<Rightarrow> dispatch_ctx \<Rightarrow> delivery_outcome wh" where
  "enqueueWithFallback fuel env h body deliveryId k ctx =
     recover
       (await (external env (\<lambda>n s. if add_fails env n then (Inl QueueDown, s)
                 else (Inr (), s\<lparr>jobs_added := jobs_added s @ [(deliveryId, hook_id h, k)]\<rparr>))) (\<lambda>_.
        await (markQueued env (hook_id h) k deliveryId) (\<lambda>_.
        await (run_hook env) (\<lambda>_. succeed Enqueued))))
       (\<lambda>e. await (inspect (\<lambda>s. cx_signal ctx \<and> stopped env (ticks s))) (\<lambda>halt.
             if halt then throw BackoffAborted
             else await (run_hook env) (\<lambda>_. deliverDirect fuel env h body deliveryId k ctx)))"

definition deliverOne ::
    "nat \<Rightarrow> 'x delivery_env_scheme \<Rightarrow> webhook \<Rightarrow> string \<Rightarrow> string \<Rightarrow> dispatch_ctx \<Rightarrow> delivery_outcome wh" where
  "deliverOne fuel env h deliveryId k ctx =
     await (preflightDelivery env h deliveryId k ctx) (\<lambda>pre.
       case pre of
         PreflightUnrecorded \<Rightarrow> succeed Unrecorded
       | PreflightCancelled \<Rightarrow> succeed Cancelled
       | PreflightFailed \<Rightarrow> succeed DeliveryFailed
       | PreflightBody final body \<Rightarrow>
           if \<not> cx_single ctx \<and> queue_on env then enqueueWithFallback fuel env h body deliveryId k ctx
           else deliverDirect fuel env h body deliveryId k ctx)"

section \<open>Dispatch and replay\<close>

definition run_admitted :: "nat \<Rightarrow> 'x delivery_env_scheme \<Rightarrow> string \<Rightarrow> webhook \<Rightarrow> string \<Rightarrow> string \<Rightarrow> dispatch_ctx \<Rightarrow> unit wh" where
  "run_admitted fuel env w target deliveryId k ctx =
     await (deliverOne fuel env target deliveryId k (ctx\<lparr>cx_slot := True\<rparr>)) (\<lambda>outcome.
       if outcome \<noteq> Unrecorded \<and> outcome \<noteq> Enqueued then outbox_close env w k OutDispatched else succeed ())"

definition runLimited :: "nat \<Rightarrow> 'x delivery_env_scheme \<Rightarrow> webhook \<Rightarrow> string \<Rightarrow> string \<Rightarrow> dispatch_ctx \<Rightarrow> unit wh" where
  "runLimited fuel env h deliveryId k ctx =
     recover
       (await (external env (\<lambda>n s. (Inr (admission_at env n), s))) (\<lambda>a.
          case a of
            RefuseFull \<Rightarrow> throw LimiterFull
          | RefuseShut \<Rightarrow> throw LimiterShut
          | AdmitNow \<Rightarrow> run_admitted fuel env (hook_id h) h deliveryId k ctx
          | AdmitGated \<Rightarrow>
              await (recover (read_webhook env (hook_id h)) (\<lambda>_. succeed (Some h))) (\<lambda>row.
                if \<not> isDeliverableWebhook row (cx_event ctx) None then
                  await (forget_failing (hook_id h)) (\<lambda>_.
                  await (settle_as (hook_id h) k Withdrawn) (\<lambda>_. outbox_close env (hook_id h) k OutDispatched))
                else run_admitted fuel env (hook_id h) (the row) deliveryId k ctx)))
       (\<lambda>e. if e = LimiterFull \<or> e = LimiterShut
             then await (recordUndelivered env h deliveryId k e ctx) (\<lambda>_. succeed ())
             else throw e)"

definition dispatchWithLimit :: "nat \<Rightarrow> 'x delivery_env_scheme \<Rightarrow> webhook \<Rightarrow> string \<Rightarrow> dispatch_ctx \<Rightarrow> unit wh" where
  "dispatchWithLimit fuel env h baseKey ctx =
     (let k = baseKey @ ''_'' @ hook_id h
      in await (inspect (\<lambda>s. ''dlv_'' @ uuid_at env (ticks s))) (\<lambda>deliveryId.
           await (outbox_open env (hook_id h) (cx_session ctx) (cx_event ctx) k deliveryId (cx_data ctx)) (\<lambda>_.
           await (modify (\<lambda>s. s\<lparr>locally := (locally s)(k := locally s k + 1)\<rparr>)) (\<lambda>_.
           finally_do (runLimited fuel env h deliveryId k ctx)
             (modify (\<lambda>s. s\<lparr>locally := (locally s)(k := locally s k - 1)\<rparr>))))))"

definition isLocallyPending :: "string \<Rightarrow> world \<Rightarrow> bool" where
  "isLocallyPending k s \<longleftrightarrow> 0 < locally s k"

definition redeliver ::
    "nat \<Rightarrow> 'x delivery_env_scheme \<Rightarrow> webhook \<Rightarrow> string \<Rightarrow> string \<Rightarrow> string \<Rightarrow> json \<Rightarrow> bool \<Rightarrow> bool \<Rightarrow> bool \<Rightarrow> delivery_outcome wh" where
  "redeliver fuel env h sessionId event k dat single oneDirect signalled =
     await (inspect (\<lambda>s. ''dlv_'' @ uuid_at env (ticks s))) (\<lambda>deliveryId.
       await (deliverOne fuel env h deliveryId k \<lparr>cx_session = sessionId, cx_event = event, cx_data = dat, cx_slot = False,
                cx_single = single, cx_oneDirect = oneDirect, cx_signal = signalled\<rparr>) (\<lambda>outcome.
         if outcome = Delivered then await (outbox_close env (hook_id h) k OutDispatched) (\<lambda>_. succeed outcome)
         else succeed outcome))"

section \<open>No delivery falls\<close>

definition outcome_level :: "delivery_outcome \<Rightarrow> nat" where
  "outcome_level x = (case x of Delivered \<Rightarrow> 5 | Cancelled \<Rightarrow> 5 | DeliveryFailed \<Rightarrow> 3 | Enqueued \<Rightarrow> 0 | Unrecorded \<Rightarrow> 0)"

lemma outcome_level_simps [simp]:
  "outcome_level Delivered = 5" "outcome_level Cancelled = 5" "outcome_level DeliveryFailed = 3" "outcome_level Enqueued = 0"
  "outcome_level Unrecorded = 0"
  by (simp_all add: outcome_level_def)

fun preflight_level :: "preflight \<Rightarrow> nat" where
  "preflight_level PreflightCancelled = 5"
| "preflight_level PreflightFailed = 3"
| "preflight_level _ = 0"

lemma yields_read_webhook: "yields (read_webhook env w) (\<lambda>row. \<forall>h. row = Some h \<longrightarrow> hook_id h = w)"
  by (auto simp: yields_def read_webhook_def statement_def Let_def find_Some_iff split: if_splits)

lemma deliverable_Some: "isDeliverableWebhook row ev sn \<Longrightarrow> \<exists>h. row = Some h"
  by (cases row) (simp_all add: isDeliverableWebhook_def)

locale delivery_company = company env for env :: "'x delivery_env_scheme"
begin

lemma grades_external:
  assumes "\<And>n s. snd (f n s) = s" and "\<And>a. q a \<le> p"
  shows "grades standing i p (external env f) q"
proof (rule gradesI)
  fix s assume p: "p \<le> standing i s"
  show "standing j s \<le> standing j (snd (external env f s))" for j
    using others_raise [of j s "ticks s"] by (simp add: external_def Let_def assms(1))
  show "q a \<le> standing i (snd (external env f s))" for a
    using others_raise [of i s "ticks s"] p assms(2) [of a] by (simp add: external_def Let_def assms(1))
qed

lemma grades_run_hook: "grades standing i p (run_hook env) (\<lambda>_. 0)"
  unfolding run_hook_def by (rule grades_external) simp_all

lemma grades_settle: "settles h \<Longrightarrow> grades standing (w, k) p (settle_as w k h) (\<lambda>_. 5)"
  unfolding settle_as_def by (rule grades_modify) (auto simp: standing_def settled_in_def)

lemma grades_notes:
  "grades standing i p (count_loss r) (\<lambda>_. 0)" "grades standing i p (forget_failing w) (\<lambda>_. 0)"
  "grades standing i p (note_failing w) (\<lambda>_. 0)"
  unfolding count_loss_def forget_failing_def note_failing_def by (auto intro!: grades_modify)

lemma grades_read_webhook: "grades standing i p (read_webhook env w) (\<lambda>_. 0)"
  unfolding read_webhook_def by (rule grades_read) simp_all

lemma grades_post: "grades standing (w, k) p (postWebhookPayload env w k url hs body) (\<lambda>_. 5)"
  unfolding postWebhookPayload_def
  by (intro grades_await [OF grades_external [where q = "\<lambda>_. 0"]] grades_await [OF grades_settle] grades_succeed)
    (auto split: post_answer.split)

lemma grades_undelivered:
  shows "grades standing (hook_id h, k) p (recordUndelivered env h d k e ctx) (\<lambda>b. if b then 3 else 0)"
proof -
  let ?inp = "\<lparr>in_webhook = hook_id h, in_session = cx_session ctx, in_event = cx_event ctx, in_url = hook_url h, in_key = Some k,
      in_delivery = Some d, in_attempts = 0, in_status = None, in_error = error_text e, in_payload = None, in_hours = None\<rparr>"
  have "grades standing (hook_id h, k) p (recordWebhookDeliveryFailure env ?inp) (\<lambda>r. if r = None then 0 else 3)"
    using grades_record [of ?inp k p] by (simp cong: if_cong)
  then show ?thesis
    unfolding recordUndelivered_def
    by (intro grades_await grades_await [OF grades_notes(1)] grades_await [OF grades_recover [OF grades_run_hook grades_succeed]]
        grades_succeed) (auto simp: max_def)
qed

lemma grades_preflight:
  shows "grades standing (hook_id h, k) p (preflightDelivery env h d k ctx) preflight_level"
proof -
  have refuse: "grades standing (hook_id h, k) p' (await (recordUndelivered env h d k e ctx) (\<lambda>recorded.
      succeed (if recorded then PreflightFailed else PreflightUnrecorded))) preflight_level" for e p'
    by (intro grades_await [OF grades_undelivered] grades_succeed) auto
  have hook: "grades standing (hook_id h, k) p' (external env (\<lambda>n s. (Inr (before_hook env n pl), s))) (\<lambda>_. 0)" for pl p'
    by (rule grades_external) simp_all
  have answer: "grades standing (hook_id h, k) p' (case answer of
      BeforeThrows \<Rightarrow> throw HookFailed
    | BeforeStops \<Rightarrow> await (settle_as (hook_id h) k Withdrawn) (\<lambda>_. succeed PreflightCancelled)
    | BeforePoison \<Rightarrow> throw NotSerializable
    | BeforeGives given \<Rightarrow>
        let fl = gated_body (max_payload env) (reassert ctx time k d given); body = json_text (JObj fl)
        in if utf8_length body \<le> max_payload env then succeed (PreflightBody (JObj fl) body)
           else await (recordUndelivered env h d k (TooLarge (utf8_length body) (max_payload env)) ctx) (\<lambda>recorded.
                  succeed (if recorded then PreflightFailed else PreflightUnrecorded))) preflight_level" for answer time p'
    using refuse by (cases answer) (auto simp: Let_def intro!: grades_throw grades_await [OF grades_settle] grades_succeed)
  show ?thesis
    unfolding preflightDelivery_def Let_def [of "\<lambda>e. _ e"]
    by (intro grades_recover grades_await [OF grades_inspect [where q = "\<lambda>_. 0"]] grades_await [OF hook] answer refuse) simp
qed

lemma grades_triggered:
  "grades standing i p (recover (statement env (\<lambda>s. (Inr (), s\<lparr>hooks_table := f (hooks_table s)\<rparr>))) (\<lambda>_. succeed ())) (\<lambda>_. 0)"
  by (intro grades_recover grades_statement grades_succeed) simp_all

lemma grades_attempt_once:
  "grades standing (hook_id h, k) p (attempt_once env h ctx k d body n) (\<lambda>(c, r). case r of Inl e \<Rightarrow> 0 | Inr b \<Rightarrow> 5)"
proof -
  let ?i = "(hook_id h, k)"
  have sent: "grades standing ?i p' (await (inspect (\<lambda>s. 1 < n \<and> cx_signal ctx \<and> stopped env (ticks s))) (\<lambda>halt.
        if halt then throw BackoffAborted
        else await (postWebhookPayload env (hook_id h) k url hs body) (\<lambda>_.
          await (forget_failing (hook_id h)) (\<lambda>_.
          await (inspect (\<lambda>s. clock_at env (ticks s))) (\<lambda>now.
          await (recover (statement env (\<lambda>s. (Inr (), s\<lparr>hooks_table := map (\<lambda>x. if hook_id x = hook_id h
                   then x\<lparr>hook_triggered := Some now\<rparr> else x) (hooks_table s)\<rparr>))) (\<lambda>_. succeed ())) (\<lambda>_.
          await (clearDeliveryFailureRows env (hook_id h) (Some k) False) (\<lambda>_. succeed True))))))) (\<lambda>_. 5)" for p' url hs
    by (intro grades_await [OF grades_inspect [where q = "\<lambda>_. 0"]] grades_if grades_throw grades_await [OF grades_post]
        grades_await [OF grades_notes(2)] grades_await [OF grades_triggered]
        grades_await [OF grades_weaken [OF grades_clear [of "hook_id h" k False], where q' = "\<lambda>_. 0"]] grades_succeed) simp_all
  show ?thesis
    unfolding attempt_once_def Let_def
    by (intro grades_await [OF grades_weaken [OF grades_trying [OF grades_read_webhook], where q' = "\<lambda>_. 0"]]
        grades_case_sum grades_if grades_succeed grades_await [OF grades_settle] grades_await [OF grades_notes(2)]
        grades_await [OF grades_trying [OF sent]]) (auto split: sum.split)
qed

lemma yields_attempt_once: "yields (attempt_once env h ctx k d body n) (\<lambda>(c, r). hook_id c = hook_id h)"
proof -
  have read: "yields (trying (read_webhook env w)) (\<lambda>r. \<forall>h. r = Inr (Some h) \<longrightarrow> hook_id h = w)" for w
    using yieldsD [OF yields_read_webhook, of env w] by (auto simp: yields_def trying_def split: prod.splits)
  show ?thesis
    unfolding attempt_once_def Let_def
    by (rule yields_await [OF read])
      (auto split: sum.split dest: deliverable_Some intro!: yields_succeed yields_await [OF yields_trivial])
qed

text \<open>What the retry loop leaves behind when it throws: a recorded failure, unless it was interrupted or could not record.\<close>

definition loop_level :: "wh_error + bool \<Rightarrow> nat" where
  "loop_level r = (case r of Inr b \<Rightarrow> 5 | Inl e \<Rightarrow> if interrupted e \<or> e = UnrecordedFailure then 0 else 4)"

lemma loop_level_simps [simp]:
  "loop_level (Inr b) = 5" "loop_level (Inl UnrecordedFailure) = 0" "loop_level (Inl NoFuel) = 0"
  "interrupted e \<Longrightarrow> loop_level (Inl e) = 0" "loop_level (Inl e) \<le> 4"
  by (simp_all add: loop_level_def interrupted_def)

lemma safe_record: "never_throws (recordWebhookDeliveryFailure e inp)"
  unfolding recordWebhookDeliveryFailure_def Let_def by (intro never_throws_recover) simp

lemma grades_terminal:
  assumes "in_webhook inp = w" "in_key inp = Some k" "0 < in_attempts inp"
  shows "grades standing (w, k) p (recordTerminalFailure env inp e) (\<lambda>r. if r = None then 0 else 4)"
  using grades_record [of "inp\<lparr>in_status := statusCodeFromError (error_text e), in_error := error_text e\<rparr>" k p] assms
  by (simp add: recordTerminalFailure_def cong: if_cong)

lemma grades_give_up:
  assumes "0 < n"
  shows "grades standing (hook_id h, k) p (trying (give_up env h ctx k d n e)) loop_level"
  unfolding give_up_def
  by (subst trying_safe, simp add: recordTerminalFailure_def safe_record, subst trying_safe, simp add: count_loss_def)
    (intro grades_await [OF grades_terminal] grades_await [OF grades_notes(1)];
      use assms in \<open>simp add: trying_simps grades_succeed loop_level_def\<close>)

lemma grades_deliverWebhook:
  assumes "0 < n"
  shows "grades standing (hook_id h, k) p (trying (deliverWebhook fuel env h ctx k d body n)) loop_level"
  using assms
proof (induction fuel arbitrary: h n p)
  case 0
  show ?case
    by (simp add: trying_simps grades_succeed)
next
  case (Suc fuel)
  have safe: "never_throws (attempt_once env h ctx k d body n)"
    unfolding attempt_once_def Let_def trying_def
    by (auto simp: never_throws_def await_def settle_as_def forget_failing_def modify_def succeed_def split: prod.split sum.split)
  have rest: "grades standing (hook_id h, k) p' (trying (case r of
        Inr b \<Rightarrow> succeed b
      | Inl e \<Rightarrow>
          if e = BackoffAborted \<and> cx_signal ctx then throw e
          else await (note_failing (hook_id h)) (\<lambda>_.
            if int n < (if cx_single ctx \<or> cx_oneDirect ctx then 1 else hook_retries c)
            then await (backoff env ctx) (\<lambda>_. deliverWebhook fuel env c ctx k d body (Suc n))
            else give_up env c ctx k d n e))) loop_level"
    if "hook_id c = hook_id h" and "\<And>b. r = Inr b \<Longrightarrow> 5 \<le> p'" for c r p'
  proof (cases r)
    case (Inl e)
    have wait: "yields (trying (backoff env ctx)) (\<lambda>r. \<forall>e. r = Inl e \<longrightarrow> interrupted e)"
      by (auto simp: yields_def trying_def backoff_def external_def interrupted_def Let_def)
    have pause: "grades standing (hook_id h, k) p'' (trying (backoff env ctx)) (\<lambda>_. 0)" for p''
      unfolding backoff_def
      by (rule grades_weaken [OF grades_trying [OF grades_external [where q = "\<lambda>_. 0"]]]) auto
    have next_round: "grades standing (hook_id h, k) p'' (trying (await (backoff env ctx)
        (\<lambda>_. deliverWebhook fuel env c ctx k d body (Suc n)))) loop_level" for p''
      unfolding trying_simps
      by (rule grades_await_where [OF pause wait])
        (use Suc.IH [of "Suc n" c] that(1) in \<open>auto intro!: grades_case_sum grades_succeed\<close>)
    have last: "grades standing (hook_id h, k) p'' (trying (give_up env c ctx k d n e)) loop_level" for p''
      using grades_give_up [OF Suc.prems, of c] that(1) by simp
    have note_safe: "never_throws (note_failing w)" for w
      by (simp add: note_failing_def)
    have "grades standing (hook_id h, k) p' (trying (await (note_failing (hook_id h)) (\<lambda>_.
        if int n < (if cx_single ctx \<or> cx_oneDirect ctx then 1 else hook_retries c)
        then await (backoff env ctx) (\<lambda>_. deliverWebhook fuel env c ctx k d body (Suc n))
        else give_up env c ctx k d n e))) loop_level"
      unfolding trying_safe [OF note_safe] if_distrib [of trying]
      by (intro grades_await [OF grades_notes(3)] grades_if next_round last)
    then show ?thesis
      using Inl by (simp add: trying_simps(2) grades_succeed interrupted_def)
  qed (use that in \<open>simp add: trying_simps grades_succeed\<close>)
  show ?case
    unfolding deliverWebhook.simps trying_safe [OF safe]
    by (rule grades_await_where [OF grades_attempt_once yields_attempt_once])
      (auto intro!: rest split: sum.splits)
qed

lemma grades_deliverDirect:
  shows "grades standing (hook_id h, k) p (deliverDirect fuel env h body d k ctx) outcome_level"
proof -
  let ?i = "(hook_id h, k)"
  have hooks: "grades standing ?i p' (run_hook env) (\<lambda>_. p')" for p'
    by (rule grades_weaken [OF grades_run_hook [where p = p']]) simp_all
  have sent: "grades standing ?i p (trying (await (deliverWebhook fuel env h ctx k d body 1) (\<lambda>sent.
      if \<not> sent then succeed Cancelled
      else await (run_hook env) (\<lambda>_. await (run_hook env) (\<lambda>_. succeed Delivered)))))
      (\<lambda>r. case r of Inr x \<Rightarrow> outcome_level x | Inl e \<Rightarrow> if interrupted e \<or> e = UnrecordedFailure then 0 else 4)"
  proof -
    have both: "grades standing ?i (max p' 5) (trying (await (run_hook env) (\<lambda>_. await (run_hook env) (\<lambda>_. succeed Delivered))))
        (\<lambda>r. 5)" for p'
      by (rule grades_weaken [OF grades_trying [where q = "\<lambda>_. 5"]])
        (auto intro!: grades_await [OF hooks] grades_succeed split: sum.split)
    have "grades standing ?i (max p 5) (trying (if \<not> b then succeed Cancelled
        else await (run_hook env) (\<lambda>_. await (run_hook env) (\<lambda>_. succeed Delivered))))
        (\<lambda>r. case r of Inr x \<Rightarrow> outcome_level x | Inl e \<Rightarrow> if interrupted e \<or> e = UnrecordedFailure then 0 else 4)" for b
      by (cases b) (auto simp: trying_simps(1) intro!: grades_succeed grades_weaken [OF both]
          split: sum.split simp: outcome_level_def split: delivery_outcome.split)
    then show ?thesis
      unfolding trying_simps(3)
      by (intro grades_await [OF grades_deliverWebhook] grades_case_sum) (auto intro!: grades_succeed simp: loop_level_def)
  qed
  show ?thesis
    unfolding deliverDirect_def recover_trying
    by (intro grades_await [OF sent] grades_case_sum grades_if grades_throw grades_await [OF hooks] grades_succeed) auto
qed

lemma grades_enqueue:
  shows "grades standing (hook_id h, k) p (enqueueWithFallback fuel env h body d k ctx) outcome_level"
proof -
  have add: "grades standing (hook_id h, k) p (external env (\<lambda>n s. if add_fails env n then (Inl QueueDown, s)
      else (Inr (), s\<lparr>jobs_added := jobs_added s @ [(d, hook_id h, k)]\<rparr>))) (\<lambda>_. 0)"
    using others_raise by (auto simp: grades_def external_def Let_def)
  show ?thesis
    unfolding enqueueWithFallback_def
    by (intro grades_recover grades_await [OF add] grades_await [OF grades_markQueued] grades_await [OF grades_run_hook]
        grades_await [OF grades_inspect [where q = "\<lambda>_. 0"]] grades_if grades_throw grades_deliverDirect grades_succeed) simp_all
qed

lemma grades_deliverOne:
  shows "grades standing (hook_id h, k) p (deliverOne fuel env h d k ctx) outcome_level"
proof -
  have "grades standing (hook_id h, k) (max p (preflight_level pre)) (case pre of
         PreflightUnrecorded \<Rightarrow> succeed Unrecorded
       | PreflightCancelled \<Rightarrow> succeed Cancelled
       | PreflightFailed \<Rightarrow> succeed DeliveryFailed
       | PreflightBody final body \<Rightarrow>
           if \<not> cx_single ctx \<and> queue_on env then enqueueWithFallback fuel env h body d k ctx
           else deliverDirect fuel env h body d k ctx) outcome_level" for pre
    by (cases pre) (auto intro!: grades_succeed grades_enqueue grades_deliverDirect)
  then show ?thesis
    unfolding deliverOne_def by (intro grades_await [OF grades_preflight])
qed

lemma grades_run_admitted:
  assumes "hook_id h = w"
  shows "grades standing (w, k) p (run_admitted fuel env w h d k ctx) (\<lambda>_. 0)"
proof -
  have "grades standing (w, k) (max p (outcome_level x))
      (if x \<noteq> Unrecorded \<and> x \<noteq> Enqueued then outbox_close env w k OutDispatched else succeed ()) (\<lambda>_. 0)" for x
    by (cases x) (auto intro!: grades_succeed grades_weaken [OF grades_close [where p = 0]])
  then show ?thesis
    unfolding run_admitted_def using grades_deliverOne [of h] assms by (auto intro!: grades_await)
qed

lemma grades_runLimited:
  shows "grades standing (hook_id h, k) p (runLimited fuel env h d k ctx) (\<lambda>_. 0)"
proof -
  let ?i = "(hook_id h, k)"
  have reread: "yields (recover (read_webhook env (hook_id h)) (\<lambda>_. succeed (Some h))) (\<lambda>row. \<forall>x. row = Some x \<longrightarrow> hook_id x = hook_id h)"
    by (intro yields_recover yields_read_webhook yields_succeed) simp
  have read: "grades standing ?i p' (recover (read_webhook env (hook_id h)) (\<lambda>_. succeed (Some h))) (\<lambda>_. 0)" for p'
    by (intro grades_recover grades_read_webhook grades_succeed) simp
  have close4: "grades standing ?i (max p' 5) (outbox_close env (hook_id h) k OutDispatched) (\<lambda>_. 0)" for p'
    by (rule grades_weaken [OF grades_close [where p = 0]]) auto
  have gated: "grades standing ?i p' (await (recover (read_webhook env (hook_id h)) (\<lambda>_. succeed (Some h))) (\<lambda>row.
      if \<not> isDeliverableWebhook row (cx_event ctx) None then
        await (forget_failing (hook_id h)) (\<lambda>_.
        await (settle_as (hook_id h) k Withdrawn) (\<lambda>_. outbox_close env (hook_id h) k OutDispatched))
      else run_admitted fuel env (hook_id h) (the row) d k ctx)) (\<lambda>_. 0)" for p'
    by (rule grades_await_where [OF read reread])
      (auto intro!: grades_if grades_await [OF grades_notes(2)] grades_await [OF grades_settle] close4 grades_run_admitted
        dest!: deliverable_Some)
  have admit: "grades standing ?i p' (case a of
      RefuseFull \<Rightarrow> throw LimiterFull
    | RefuseShut \<Rightarrow> throw LimiterShut
    | AdmitNow \<Rightarrow> run_admitted fuel env (hook_id h) h d k ctx
    | AdmitGated \<Rightarrow> await (recover (read_webhook env (hook_id h)) (\<lambda>_. succeed (Some h))) (\<lambda>row.
        if \<not> isDeliverableWebhook row (cx_event ctx) None then
          await (forget_failing (hook_id h)) (\<lambda>_.
          await (settle_as (hook_id h) k Withdrawn) (\<lambda>_. outbox_close env (hook_id h) k OutDispatched))
        else run_admitted fuel env (hook_id h) (the row) d k ctx)) (\<lambda>_. 0)" for a p'
    using gated grades_run_admitted [of h] by (cases a) (auto intro!: grades_throw)
  show ?thesis
    unfolding runLimited_def
    by (intro grades_recover grades_await [OF grades_external [where q = "\<lambda>_. 0"]] admit grades_if grades_throw
        grades_await [OF grades_undelivered] grades_succeed) simp_all
qed

lemma grades_dispatch: "grades standing (hook_id h, baseKey @ ''_'' @ hook_id h) p (dispatchWithLimit fuel env h baseKey ctx) (\<lambda>_. 0)"
  unfolding dispatchWithLimit_def Let_def
  by (intro grades_await [OF grades_inspect [where q = "\<lambda>_. 0"]] grades_await [OF grades_open]
      grades_await [OF grades_modify [where q = "\<lambda>_. 0"]] grades_finally grades_runLimited grades_modify) simp_all

lemma grades_redeliver:
  shows "grades standing (hook_id h, k) p (redeliver fuel env h sn ev k dat a b c) outcome_level"
proof -
  have "grades standing (hook_id h, k) (max p' (outcome_level x)) (if x = Delivered
      then await (outbox_close env (hook_id h) k OutDispatched) (\<lambda>_. succeed x) else succeed x) outcome_level" for p' x
    by (cases x) (auto intro!: grades_succeed grades_await [OF grades_weaken [OF grades_close [where p = 0], where q' = "\<lambda>_. 0"]])
  then show ?thesis
    unfolding redeliver_def
    by (intro grades_await [OF grades_inspect [where q = "\<lambda>_. 0"]] grades_await [OF grades_deliverOne]) simp_all
qed

end

end
