(* ===== verification/Webhook_Recovery.thy ===== *)
theory Webhook_Recovery
  imports Webhook_Delivery Chat_Scope
begin

text \<open>
  What brings a stranded delivery home: the outbox sweep (\<open>src/modules/webhook/webhook-reconciler.service.ts\<close>), the
  operator's redrive (\<open>src/modules/webhook/webhook-redrive.service.ts\<close>) and the queue worker
  (\<open>src/modules/queue/processors/webhook.processor.ts\<close>), with the replay helpers of
  \<open>webhook-delivery.service.ts\<close>.
\<close>

section \<open>Replay helpers\<close>

definition isQueueJobPending :: "'x delivery_env_scheme \<Rightarrow> string \<Rightarrow> bool wh" where
  "isQueueJobPending env deliveryId =
     (if \<not> queue_on env then succeed False
      else external env (\<lambda>n s. (Inr (case job_at env n deliveryId of
               QueueUnreadable \<Rightarrow> True | NoJob \<Rightarrow> False
             | JobState st \<Rightarrow> st \<notin> {''completed'', ''failed'', ''unknown''}), s)))"

definition hasQueueJobCompleted :: "'x delivery_env_scheme \<Rightarrow> string \<Rightarrow> bool wh" where
  "hasQueueJobCompleted env deliveryId =
     (if \<not> queue_on env then succeed False
      else external env (\<lambda>n s. (Inr (job_at env n deliveryId = JobState ''completed''), s)))"

definition payload_of :: "outbox_row \<Rightarrow> json" where
  "payload_of r = (case ob_payload r of Some (Readable j) \<Rightarrow> j | _ \<Rightarrow> JNull)"

definition retain_payload :: "'x delivery_env_scheme \<Rightarrow> outbox_row \<Rightarrow> bool wh" where
  "retain_payload env r =
     await (inspect (\<lambda>s. clock_at env (ticks s))) (\<lambda>now.
       recover (await (statement env (change_failures
                  (\<lambda>f. of_delivery (ob_webhook r) (Some (ob_key r)) f \<and> 0 < f_attempts f \<and> f_payload f = None
                        \<and> retained_since now (retention_hours env) f)
                  (\<lambda>f. f\<lparr>f_payload := Some (payload_of r)\<rparr>))) (\<lambda>_. succeed True))
         (\<lambda>_. succeed False))"

definition recordReplayExhaustion :: "'x delivery_env_scheme \<Rightarrow> outbox_row \<Rightarrow> string \<Rightarrow> bool wh" where
  "recordReplayExhaustion env r url =
     await (statement env (\<lambda>s. (Inr (length (filter (\<lambda>f. of_delivery (ob_webhook r) (Some (ob_key r)) f \<and> 0 < f_attempts f)
              (failures s))), s))) (\<lambda>existing.
       if 0 < existing then if keepsFailurePayload env then retain_payload env r else succeed True
       else
         await (statement env (\<lambda>s. (Inr (find (\<lambda>f. of_delivery (ob_webhook r) (Some (ob_key r)) f \<and> f_attempts f = 0)
                  (failures s)), s))) (\<lambda>unsent.
         await (recordWebhookDeliveryFailure env
                  \<lparr>in_webhook = ob_webhook r, in_session = ob_session r, in_event = ob_event r, in_url = url,
                    in_key = Some (ob_key r), in_delivery = None, in_attempts = max 1 (ob_attempts r), in_status = None,
                    in_error = (case unsent of
                        Some f \<Rightarrow> if f_error f \<noteq> [] then ''Webhook replay budget exhausted; last error: '' @ f_error f
                                  else ''Webhook replay budget exhausted''
                      | None \<Rightarrow> ''Webhook replay budget exhausted''),
                    in_payload = (if keepsFailurePayload env then Some (payload_of r) else None),
                    in_hours = (if keepsFailurePayload env then Some (retention_hours env) else None)\<rparr>) (\<lambda>recorded.
         await (modify (\<lambda>s. if recorded = Some True then s\<lparr>losses := losses s + 1\<rparr> else s)) (\<lambda>_.
           succeed (recorded \<noteq> None)))))"

section \<open>The sweep\<close>

record sweep_opts =
  graceMs :: int
  batchSize :: nat
  maxAttempts :: nat

text \<open>Numbers as \<open>Number(env...)\<close> read them: \<open>None\<close> is no integer.\<close>

definition resolve_batch :: "int option \<Rightarrow> nat" where
  "resolve_batch b = (case b of Some n \<Rightarrow> if 1 \<le> n then nat n else 50 | None \<Rightarrow> 50)"

definition resolve_max_attempts :: "int option \<Rightarrow> nat" where
  "resolve_max_attempts b = (case b of Some n \<Rightarrow> if 1 \<le> n then nat n else 5 | None \<Rightarrow> 5)"

record sweep_stats =
  scanned :: nat
  replayed :: nat
  failed_rows :: nat
  skipped :: nat

datatype row_fate = RowReplayed | RowFailed bool | RowSkipped | SweepStops

text \<open>
  One row of the sweep. \<open>RowFailed True\<close> is a replay that did not deliver, after which the webhook's other rows
  make one attempt each.
\<close>

definition sweep_replay :: "nat \<Rightarrow> 'x delivery_env_scheme \<Rightarrow> webhook \<Rightarrow> outbox_row \<Rightarrow> bool \<Rightarrow> row_fate wh" where
  "sweep_replay fuel env h r oneDirect =
     recover
       (await (redeliver fuel env h (ob_session r) (ob_event r) (ob_key r) (payload_of r) False oneDirect True) (\<lambda>outcome.
          if outcome = DeliveryFailed \<or> outcome = Unrecorded then succeed (RowFailed True)
          else await (if outcome = Cancelled then outbox_close env (ob_webhook r) (ob_key r) OutDispatched else succeed ())
                 (\<lambda>_. succeed RowReplayed)))
       (\<lambda>e. succeed (if e = BackoffAborted then RowSkipped else RowFailed False))"

definition sweep_row :: "nat \<Rightarrow> 'x delivery_env_scheme \<Rightarrow> sweep_opts \<Rightarrow> outbox_row \<Rightarrow> bool \<Rightarrow> row_fate wh" where
  "sweep_row fuel env opts r oneDirect =
     (let w = ob_webhook r; k = ob_key r; d = ob_delivery r
      in await (inspect (\<lambda>s. (stopped env (ticks s), isLocallyPending k s))) (\<lambda>(halt, mine).
           if halt then succeed SweepStops
           else if mine then succeed RowSkipped
           else await (read_webhook env w) (\<lambda>row.
             if \<not> isDeliverableWebhook row (ob_event r) (Some (ob_session r)) then
               await (settle_as w k Withdrawn) (\<lambda>_. await (outbox_close env w k OutFailed) (\<lambda>_. succeed RowSkipped))
             else await (if d = [] then succeed False else isQueueJobPending env d) (\<lambda>owned.
               if owned then succeed RowSkipped
               else await (if d = [] then succeed False else hasQueueJobCompleted env d) (\<lambda>finished.
                 if finished then
                   await (settle_as w k JobCompleted) (\<lambda>_. await (outbox_close env w k OutDispatched) (\<lambda>_. succeed RowSkipped))
                 else if maxAttempts opts \<le> ob_attempts r then
                   await (recordReplayExhaustion env r (hook_url (the row))) (\<lambda>kept.
                     await (if kept then outbox_close env w k OutFailed else succeed ()) (\<lambda>_. succeed (RowFailed False)))
                 else await (inspect (\<lambda>s. stopped env (ticks s))) (\<lambda>halt.
                   if halt then succeed SweepStops
                   else await (countAttempt env (ob_id r) (ob_attempts r)) (\<lambda>counted.
                     if \<not> counted then succeed RowSkipped else sweep_replay fuel env (the row) r oneDirect)))))))"

fun sweep_rows :: "nat \<Rightarrow> 'x delivery_env_scheme \<Rightarrow> sweep_opts \<Rightarrow> string list \<Rightarrow> sweep_stats \<Rightarrow> outbox_row list \<Rightarrow> sweep_stats wh" where
  "sweep_rows fuel env opts down stats [] = succeed stats"
| "sweep_rows fuel env opts down stats (r # rs) =
     await (sweep_row fuel env opts r (ob_webhook r \<in> set down)) (\<lambda>fate.
       case fate of
         SweepStops \<Rightarrow> succeed stats
       | RowReplayed \<Rightarrow> sweep_rows fuel env opts down (stats\<lparr>replayed := replayed stats + 1\<rparr>) rs
       | RowSkipped \<Rightarrow> sweep_rows fuel env opts down (stats\<lparr>skipped := skipped stats + 1\<rparr>) rs
       | RowFailed refused \<Rightarrow> sweep_rows fuel env opts (if refused then ob_webhook r # down else down)
                              (stats\<lparr>failed_rows := failed_rows stats + 1\<rparr>) rs)"

text \<open>The page of a pass and the cursor after it; a spent cursor starts over.\<close>

definition sweep_page :: "'x delivery_env_scheme \<Rightarrow> sweep_opts \<Rightarrow> int \<Rightarrow> string option \<Rightarrow> (outbox_row list \<times> string option) wh" where
  "sweep_page env opts cutoff cursor =
     await (findStale env cutoff (batchSize opts) cursor) (\<lambda>(rs, through).
       await (if rs = [] \<and> \<not> truthy through \<and> truthy cursor then findStale env cutoff (batchSize opts) None
              else succeed (rs, through)) (\<lambda>(rs, through).
         succeed (rs, case through of Some i \<Rightarrow> Some i | None \<Rightarrow> if rs = [] then None else Some (ob_id (last rs)))))"

definition sweep :: "nat \<Rightarrow> 'x delivery_env_scheme \<Rightarrow> sweep_opts \<Rightarrow> bool \<Rightarrow> string option \<Rightarrow> (sweep_stats \<times> string option) wh" where
  "sweep fuel env opts busy cursor =
     await (inspect (\<lambda>s. (stopped env (ticks s), clock_at env (ticks s)))) (\<lambda>(halt, now).
       let none = \<lparr>scanned = 0, replayed = 0, failed_rows = 0, skipped = 0\<rparr>
       in if busy \<or> halt then succeed (none, cursor)
          else await (sweep_page env opts (now - graceMs opts) cursor) (\<lambda>(rs, cursor').
            await (sweep_rows fuel env opts [] (none\<lparr>scanned := length rs\<rparr>) rs) (\<lambda>stats. succeed (stats, cursor'))))"

section \<open>Redrive\<close>

record redrive_request =
  rq_session :: "string option"
  rq_webhook :: "string option"
  rq_ids :: "string list option"
  rq_limit :: "int option"

record redrive_result =
  redriven :: nat
  delivered :: nat
  enqueued :: nat
  redrive_failed :: nat
  redrive_skipped :: nat
  remaining :: nat

definition redrive_limit :: "int option \<Rightarrow> nat" where
  "redrive_limit l = nat (min (max 1 (case l of Some n \<Rightarrow> n | None \<Rightarrow> 100)) 500)"

text \<open>The selection: terminal rows with event data inside the window, in scope, whose webhook would take the event now.\<close>

definition redrivable :: "int \<Rightarrow> string list option \<Rightarrow> redrive_request \<Rightarrow> webhook list \<Rightarrow> failure_row \<Rightarrow> bool" where
  "redrivable cutoff scope rq hs f \<longleftrightarrow>
     0 < f_attempts f \<and> f_payload f \<noteq> None \<and> f_key f \<noteq> None \<and> cutoff < f_created f
     \<and> (case rq_ids rq of None \<Rightarrow> True | Some ids \<Rightarrow> f_id f \<in> set ids)
     \<and> (case scope of None \<Rightarrow> True | Some ss \<Rightarrow> f_session f \<in> set ss)
     \<and> (truthy (rq_webhook rq) \<longrightarrow> Some (f_webhook f) = rq_webhook rq)
     \<and> list_ex (\<lambda>h. hook_id h = f_webhook f \<and> isDeliverableWebhook (Some h) (f_event f) (Some (f_session f))) hs"

definition select_failures :: "int \<Rightarrow> string list option \<Rightarrow> redrive_request \<Rightarrow> world \<Rightarrow> failure_row list" where
  "select_failures cutoff scope rq s =
     sort_key (\<lambda>f. (f_attempts f, f_created f, f_id f)) (filter (redrivable cutoff scope rq (hooks_table s)) (failures s))"

definition bumpAttempts :: "'x store_env_scheme \<Rightarrow> string \<Rightarrow> unit wh" where
  "bumpAttempts env i =
     recover (await (statement env (change_failures (\<lambda>f. f_id f = i) (\<lambda>f. f\<lparr>f_attempts := f_attempts f + 1\<rparr>))) (\<lambda>_. succeed ()))
       (\<lambda>_. succeed ())"

definition readPayload :: "'x store_env_scheme \<Rightarrow> string \<Rightarrow> json option wh" where
  "readPayload env i =
     statement env (\<lambda>s. (Inr (case find (\<lambda>f. f_id f = i) (failures s) of Some f \<Rightarrow> f_payload f | None \<Rightarrow> None), s))"

definition attemptsUnchanged :: "'x store_env_scheme \<Rightarrow> failure_row \<Rightarrow> bool wh" where
  "attemptsUnchanged env row =
     statement env (\<lambda>s. (Inr (case find (\<lambda>f. f_id f = f_id row) (failures s) of
        Some f \<Rightarrow> f_attempts f = f_attempts row | None \<Rightarrow> False), s))"

definition redriveRow :: "nat \<Rightarrow> 'x delivery_env_scheme \<Rightarrow> failure_row \<Rightarrow> webhook option \<Rightarrow> redrive_result \<Rightarrow> redrive_result wh" where
  "redriveRow fuel env f h res =
     (if \<not> isDeliverableWebhook h (f_event f) (Some (f_session f)) then succeed (res\<lparr>redrive_skipped := redrive_skipped res + 1\<rparr>)
      else recover
        (await (readPayload env (f_id f)) (\<lambda>payload.
           case payload of
             None \<Rightarrow> succeed (res\<lparr>redrive_skipped := redrive_skipped res + 1\<rparr>)
           | Some pl \<Rightarrow>
               await (redeliver fuel env (the h) (f_session f) (f_event f) (the (f_key f)) pl True False False) (\<lambda>outcome.
                 case outcome of
                   Delivered \<Rightarrow> succeed (res\<lparr>delivered := delivered res + 1\<rparr>)
                 | Enqueued \<Rightarrow> succeed (res\<lparr>enqueued := enqueued res + 1\<rparr>)
                 | Cancelled \<Rightarrow> await (bumpAttempts env (f_id f)) (\<lambda>_. succeed (res\<lparr>redrive_skipped := redrive_skipped res + 1\<rparr>))
                 | _ \<Rightarrow>
                     await (if outcome \<noteq> DeliveryFailed then succeed True else attemptsUnchanged env f) (\<lambda>still.
                       await (if still then bumpAttempts env (f_id f) else succeed ()) (\<lambda>_.
                         succeed (res\<lparr>redrive_failed := redrive_failed res + 1\<rparr>))))))
        (\<lambda>_. await (bumpAttempts env (f_id f)) (\<lambda>_. succeed (res\<lparr>redrive_failed := redrive_failed res + 1\<rparr>))))"

fun redrive_rows :: "nat \<Rightarrow> 'x delivery_env_scheme \<Rightarrow> webhook list \<Rightarrow> redrive_result \<Rightarrow> failure_row list \<Rightarrow> redrive_result wh" where
  "redrive_rows fuel env hs res [] = succeed res"
| "redrive_rows fuel env hs res (f # fs) =
     await (inspect (\<lambda>s. stopped env (ticks s))) (\<lambda>halt.
       if halt then succeed res
       else await (redriveRow fuel env f (find (\<lambda>h. hook_id h = f_webhook f) hs) res) (\<lambda>res'. redrive_rows fuel env hs res' fs))"

definition redriveBatch ::
    "nat \<Rightarrow> 'x delivery_env_scheme \<Rightarrow> redrive_request \<Rightarrow> string list option \<Rightarrow> redrive_result wh" where
  "redriveBatch fuel env rq allowedSessions =
     (let none = \<lparr>redriven = 0, delivered = 0, enqueued = 0, redrive_failed = 0, redrive_skipped = 0, remaining = 0\<rparr>;
          scope = resolveSessionScope allowedSessions (rq_session rq)
      in if scope = Some [] \<or> retention_hours env \<le> 0 \<or> rq_ids rq = Some [] then succeed none
         else await (inspect (\<lambda>s. (clock_at env (ticks s) - retention_hours env * 3600000, stopped env (ticks s)))) (\<lambda>(cutoff, halt).
           await (if halt then succeed []
                  else statement env (\<lambda>s. (Inr (take (redrive_limit (rq_limit rq)) (select_failures cutoff scope rq s)), s))) (\<lambda>fs.
           await (if fs = [] then succeed none
                  else await (statement env (\<lambda>s. (Inr (filter (\<lambda>h. hook_id h \<in> f_webhook ` set fs) (hooks_table s)), s))) (\<lambda>hs.
                    redrive_rows fuel env hs none fs)) (\<lambda>res.
           await (statement env (\<lambda>s. (Inr (length (select_failures cutoff scope rq s)), s))) (\<lambda>left.
             succeed (res\<lparr>redriven := delivered res + enqueued res, remaining := left\<rparr>))))))"

section \<open>The queue worker\<close>

record webhook_job =
  j_webhook :: string
  j_url :: string
  j_event :: string
  j_session :: string
  j_key :: string
  j_delivery :: string
  j_payload :: json
  j_made :: nat
  j_started :: nat
  j_maxRetries :: int
  j_replay :: "json option"

definition worker_forget :: "string \<Rightarrow> unit wh" where
  "worker_forget w = modify (\<lambda>s. s\<lparr>worker_failing := filter (\<lambda>x. x \<noteq> w) (worker_failing s)\<rparr>)"

definition worker_note :: "string \<Rightarrow> unit wh" where
  "worker_note w = modify (\<lambda>s. if w \<in> set (worker_failing s) then s else s\<lparr>worker_failing := worker_failing s @ [w]\<rparr>)"

definition job_input :: "'x delivery_env_scheme \<Rightarrow> webhook_job \<Rightarrow> string \<Rightarrow> nat \<Rightarrow> int option \<Rightarrow> string \<Rightarrow> failure_input" where
  "job_input env j url attempts code txt =
     (let keep = 0 < retention_hours env \<and> j_replay j \<noteq> None
      in \<lparr>in_webhook = j_webhook j, in_session = j_session j, in_event = j_event j, in_url = url, in_key = Some (j_key j),
           in_delivery = Some (j_delivery j), in_attempts = attempts, in_status = code, in_error = txt,
           in_payload = (if keep then j_replay j else None), in_hours = (if keep then Some (retention_hours env) else None)\<rparr>)"

definition recordJobFailure :: "'x delivery_env_scheme \<Rightarrow> webhook_job \<Rightarrow> string \<Rightarrow> wh_error \<Rightarrow> unit wh" where
  "recordJobFailure env j url e =
     (if j_maxRetries j \<le> int (j_made j) + 1 then
        await (run_hook env) (\<lambda>_.
        await (recordWebhookDeliveryFailure env
                 (job_input env j url (j_made j + 1) (statusCodeFromError (error_text e)) (error_text e))) (\<lambda>recorded.
        await (count_loss recorded) (\<lambda>_.
          if recorded \<noteq> None then outbox_close env (j_webhook j) (j_key j) OutDispatched else succeed ())))
      else succeed ())"

definition recordSuccessfulDelivery :: "'x delivery_env_scheme \<Rightarrow> webhook_job \<Rightarrow> unit wh" where
  "recordSuccessfulDelivery env j =
     await (inspect (\<lambda>s. clock_at env (ticks s))) (\<lambda>now.
     await (recover (statement env (\<lambda>s. (Inr (), s\<lparr>hooks_table :=
              map (\<lambda>h. if hook_id h = j_webhook j then h\<lparr>hook_triggered := Some now\<rparr> else h) (hooks_table s)\<rparr>))) (\<lambda>_. succeed ())) (\<lambda>_.
     await (clearDeliveryFailureRows env (j_webhook j) (Some (j_key j)) False) (\<lambda>_. run_hook env)))"

text \<open>One attempt of a job; the url of the failure record is the current row's once it was read.\<close>

definition deliver_job :: "'x delivery_env_scheme \<Rightarrow> webhook_job \<Rightarrow> bool wh" where
  "deliver_job env j =
     (let w = j_webhook j; k = j_key j; failed = (\<lambda>url e. await (worker_note w) (\<lambda>_. await (recordJobFailure env j url e) (\<lambda>_. throw e)))
      in await (trying (read_webhook env w)) (\<lambda>read.
           case read of
             Inl e \<Rightarrow> failed (j_url j) e
           | Inr row \<Rightarrow>
               if \<not> isDeliverableWebhook row (j_event j) (Some (j_session j)) then
                 await (settle_as w k Withdrawn) (\<lambda>_. await (worker_forget w) (\<lambda>_.
                 await (outbox_close env w k OutDispatched) (\<lambda>_. succeed False)))
               else
                 let body = json_text (j_payload j)
                 in recover
                      (await (postWebhookPayload env w k (hook_url (the row))
                                (buildDeliveryHeaders env (the row) (j_event j) k (j_delivery j) body (j_made j)) body) (\<lambda>_.
                       await (worker_forget w) (\<lambda>_.
                       await (outbox_close env w k OutDispatched) (\<lambda>_.
                       await (recordSuccessfulDelivery env j) (\<lambda>_. succeed True)))))
                      (failed (hook_url (the row)))))"

text \<open>
  The gate of a failing receiver: over its session's share the job goes back to the delayed set, for twice as
  long on each bounce up to 64 times the base delay, with jitter.
\<close>

definition bounce_delay :: "int \<Rightarrow> nat \<Rightarrow> nat \<Rightarrow> int" where
  "bounce_delay retryDelay started made = max 1000 retryDelay * 2 ^ min (started - made - 1) 6"

definition process_job :: "'x delivery_env_scheme \<Rightarrow> webhook_job \<Rightarrow> bool wh" where
  "process_job env j =
     (let sn = j_session j
      in await (inspect (\<lambda>s. (j_webhook j \<in> set (worker_failing s), degraded s sn, ticks s, clock_at env (ticks s)))) (\<lambda>(gated, flights, n, now).
           if gated \<and> degraded_cap env \<le> flights then
             let delay = bounce_delay (retry_delay env) (j_started j) (j_made j)
             in throw (JobDelayed (now + delay + jitter_at env n delay))
           else await (modify (\<lambda>s. if gated then s\<lparr>degraded := (degraded s)(sn := flights + 1)\<rparr> else s)) (\<lambda>_.
             finally_do (deliver_job env j)
               (modify (\<lambda>s. if gated then s\<lparr>degraded := (degraded s)(sn := degraded s sn - 1)\<rparr> else s)))))"

text \<open>A job the worker failed for stalling twice never enters \<open>process\<close>.\<close>

definition STALL_EXHAUSTION_MESSAGE :: string where
  "STALL_EXHAUSTION_MESSAGE = ''job stalled more than allowable limit''"

definition onWorkerFailed :: "'x delivery_env_scheme \<Rightarrow> webhook_job option \<Rightarrow> string option \<Rightarrow> string \<Rightarrow> unit wh" where
  "onWorkerFailed env job deferred msg =
     (case job of
        None \<Rightarrow> succeed ()
      | Some j \<Rightarrow>
          if deferred \<noteq> Some STALL_EXHAUSTION_MESSAGE \<or> msg \<noteq> STALL_EXHAUSTION_MESSAGE then succeed ()
          else await (trying (read_webhook env (j_webhook j))) (\<lambda>read.
            let url = (case read of Inl _ \<Rightarrow> j_url j | Inr row \<Rightarrow> hook_url (the row))
            in if (case read of Inl _ \<Rightarrow> False | Inr row \<Rightarrow> \<not> isDeliverableWebhook row (j_event j) (Some (j_session j)))
               then succeed ()
               else await (run_hook env) (\<lambda>_.
                 await (recordWebhookDeliveryFailure env (job_input env j url (max 1 (j_made j)) None msg)) (\<lambda>recorded.
                 await (count_loss recorded) (\<lambda>_.
                   if recorded \<noteq> None then outbox_close env (j_webhook j) (j_key j) OutDispatched else succeed ())))))"

section \<open>Recovery lets nothing fall\<close>

lemma standing_bump:
  "standing i s \<le> standing i (s\<lparr>failures := map (\<lambda>f. if f_id f = x then f\<lparr>f_attempts := Suc (f_attempts f)\<rparr> else f) (failures s)\<rparr>)"
proof -
  let ?g = "\<lambda>f. if f_id f = x then f\<lparr>f_attempts := Suc (f_attempts f)\<rparr> else f"
  have g: "f_webhook (?g f) = f_webhook f" "f_key (?g f) = f_key f" "0 < f_attempts f \<Longrightarrow> 0 < f_attempts (?g f)" for f
    by simp_all
  have t: "reported_in (map ?g (failures s)) True i" if "reported_in (failures s) True i"
    using that g unfolding reported_in_def reports_def of_delivery_def by (fastforce simp del: if_image_distrib)
  have u: "reported_in (map ?g (failures s)) True i \<or> reported_in (map ?g (failures s)) False i" if "reported_in (failures s) False i"
    using that g(1,2) unfolding reported_in_def reports_def of_delivery_def by (fastforce simp del: if_image_distrib)
  show ?thesis
    using t u by (auto simp: standing_def)
qed

context delivery_company
begin

lemma grades_bump: "grades standing i p (bumpAttempts env x) (\<lambda>_. 0)"
  unfolding bumpAttempts_def
  by (intro grades_recover grades_await [OF grades_statement [where q = "\<lambda>_. 0"]] grades_succeed)
    (simp_all add: change_failures_def standing_bump)

lemma grades_exhaustion:
  "grades standing (ob_webhook r, ob_key r) p (recordReplayExhaustion env r url) (\<lambda>b. if b then 4 else 0)"
proof -
  let ?i = "(ob_webhook r, ob_key r)"
  have count: "grades standing ?i p (statement env (\<lambda>s. (Inr (length (filter (\<lambda>f. of_delivery (ob_webhook r) (Some (ob_key r)) f
      \<and> 0 < f_attempts f) (failures s))), s))) (\<lambda>n. if n = 0 then 0 else 4)"
    by (rule grades_count) (auto simp: standing_ge reported_in_def reports_def)
  have retain: "grades standing ?i p' (retain_payload env r) (\<lambda>_. 0)" for p'
    unfolding retain_payload_def
    by (intro grades_await [OF grades_inspect [where q = "\<lambda>_. 0"]] grades_recover
        grades_await [OF grades_change_failures [where q = "\<lambda>_. 0"]] grades_succeed) auto
  have filed: "grades standing ?i p' (recordWebhookDeliveryFailure env inp) (\<lambda>x. if x = None then 0 else 4)"
    if "in_webhook inp = ob_webhook r" "in_key inp = Some (ob_key r)" "0 < in_attempts inp" for inp p'
    using grades_record [of inp "ob_key r" p'] that by (simp cong: if_cong)
  show ?thesis
    unfolding recordReplayExhaustion_def
  proof (intro grades_await [OF count] grades_if, goal_cases)
    case (1 n)
    then show ?case
      by (intro grades_weaken [OF retain [where p' = "max p 4"]]) auto
  next
    case (2 n)
    then show ?case
      by (intro grades_succeed) auto
  next
    case (3 n)
    show ?case
      by (intro grades_await [OF grades_read [where q = "\<lambda>_. 0"]] grades_await [OF filed]
          grades_await [OF grades_modify [where q = "\<lambda>_. 0"]] grades_succeed) auto
  qed
qed

lemma grades_sweep_replay:
  assumes "hook_id h = ob_webhook r"
  shows "grades standing (ob_webhook r, ob_key r) p (sweep_replay fuel env h r b) (\<lambda>_. 0)"
proof -
  have "grades standing (ob_webhook r, ob_key r) (max p (outcome_level x))
      (if x = DeliveryFailed \<or> x = Unrecorded then succeed (RowFailed True)
       else await (if x = Cancelled then outbox_close env (ob_webhook r) (ob_key r) OutDispatched else succeed ())
              (\<lambda>_. succeed RowReplayed)) (\<lambda>_. 0)" for x
    by (cases x) (auto intro!: grades_succeed grades_await [OF grades_weaken [OF grades_close [where p = 0], where q' = "\<lambda>_. 0"]]
        grades_await [OF grades_succeed [where q = "\<lambda>_. 0"]])
  then show ?thesis
    unfolding sweep_replay_def by (intro grades_recover grades_await [OF grades_redeliver [of h, unfolded assms]] grades_succeed) simp_all
qed

lemma grades_queue_reads:
  "grades standing i p (if d = [] then succeed False else isQueueJobPending env d) (\<lambda>_. 0)"
  "grades standing i p (if d = [] then succeed False else hasQueueJobCompleted env d) (\<lambda>_. 0)"
  unfolding isQueueJobPending_def hasQueueJobCompleted_def by (auto intro!: grades_succeed grades_external)

lemma grades_sweep_row: "grades standing (ob_webhook r, ob_key r) p (sweep_row fuel env opts r b) (\<lambda>_. 0)"
proof -
  let ?i = "(ob_webhook r, ob_key r)"
  have close4: "grades standing ?i (max p' 5) (outbox_close env (ob_webhook r) (ob_key r) st) (\<lambda>_. 0)" for st p'
    by (rule grades_weaken [OF grades_close [where p = 0]]) auto
  have close3: "grades standing ?i (max p' (if x then 4 else 0))
      (if x then outbox_close env (ob_webhook r) (ob_key r) st else succeed ()) (\<lambda>_. 0)" for st x p'
    by (auto intro!: grades_succeed grades_weaken [OF grades_close [where p = 0]])
  show ?thesis
    unfolding sweep_row_def Let_def
    by (intro grades_await [OF grades_inspect [where q = "\<lambda>_. 0"]] grades_case_prod grades_if grades_succeed
        grades_await_where [OF grades_read_webhook yields_read_webhook] grades_await [OF grades_settle] grades_await [OF close4]
        grades_await [OF grades_queue_reads(1)] grades_await [OF grades_queue_reads(2)] grades_await [OF grades_exhaustion]
        grades_await [OF close3] grades_await [OF grades_countAttempt] grades_sweep_replay) (auto dest!: deliverable_Some)
qed

text \<open>A loop over rows of several deliveries: nothing falls.\<close>

lemma grades_any: "grades lv i 0 m q \<Longrightarrow> grades lv j p m (\<lambda>_. 0)"
  by (rule grades_rises [OF rises_grades]) auto

lemma grades_sweep_rows: "grades standing i p (sweep_rows fuel env opts down stats rs) (\<lambda>_. 0)"
proof (induction rs arbitrary: down stats p)
  case (Cons r rs)
  then show ?case
    by (auto intro!: grades_await [OF grades_any [OF grades_sweep_row]] grades_succeed split: row_fate.split)
qed (simp add: grades_succeed)

lemma grades_sweep_page: "grades standing i p (sweep_page env opts cutoff cursor) (\<lambda>_. 0)"
proof -
  have again: "grades standing i p' (if b then findStale env cutoff n None else succeed x) (\<lambda>_. 0)" for b n x p'
    by (auto intro!: grades_findStale grades_succeed)
  show ?thesis
    unfolding sweep_page_def by (intro grades_await [OF grades_findStale] grades_case_prod grades_await [OF again] grades_succeed) simp
qed

lemma grades_sweep: "grades standing i p (sweep fuel env opts busy cursor) (\<lambda>_. 0)"
  unfolding sweep_def Let_def
  by (intro grades_await [OF grades_inspect [where q = "\<lambda>_. 0"]] grades_case_prod grades_if grades_succeed
      grades_await [OF grades_sweep_page] grades_await [OF grades_sweep_rows]) simp_all

lemma grades_redriveRow: "grades standing i p (redriveRow fuel env f h res) (\<lambda>_. 0)"
proof -
  have unchanged: "grades standing i p' (attemptsUnchanged env f) (\<lambda>_. 0)" for p'
    unfolding attemptsUnchanged_def by (rule grades_read) simp_all
  have bump: "grades standing i p' (if x then bumpAttempts env (f_id f) else succeed ()) (\<lambda>_. 0)" for x p'
    by (auto intro!: grades_bump grades_succeed)
  have read: "grades standing i p' (readPayload env x) (\<lambda>_. 0)" for x p'
    unfolding readPayload_def by (rule grades_read) simp_all
  have rows: "grades standing i p' (case outcome of
      Delivered \<Rightarrow> succeed (res\<lparr>delivered := delivered res + 1\<rparr>)
    | Enqueued \<Rightarrow> succeed (res\<lparr>enqueued := enqueued res + 1\<rparr>)
    | Cancelled \<Rightarrow> await (bumpAttempts env (f_id f)) (\<lambda>_. succeed (res\<lparr>redrive_skipped := redrive_skipped res + 1\<rparr>))
    | _ \<Rightarrow>
        await (if outcome \<noteq> DeliveryFailed then succeed True else attemptsUnchanged env f) (\<lambda>still.
          await (if still then bumpAttempts env (f_id f) else succeed ()) (\<lambda>_.
            succeed (res\<lparr>redrive_failed := redrive_failed res + 1\<rparr>)))) (\<lambda>_. 0)" for outcome p'
    by (cases outcome) (auto intro!: grades_succeed grades_await [OF grades_bump] grades_await [OF unchanged] grades_await [OF bump]
        grades_await [OF grades_succeed [where q = "\<lambda>_. 0"]])
  show ?thesis
    unfolding redriveRow_def
    by (intro grades_if grades_succeed grades_recover grades_await [OF read] grades_case_option
        grades_await [OF grades_any [OF grades_redeliver]] rows grades_await [OF grades_bump]) simp_all
qed

lemma grades_redriveBatch: "grades standing i p (redriveBatch fuel env rq sns) (\<lambda>_. 0)"
proof -
  have rows: "grades standing i p' (redrive_rows fuel env hs res fs) (\<lambda>_. 0)" for hs res fs p'
    by (induction fs arbitrary: res p') (auto intro!: grades_succeed grades_await [OF grades_inspect [where q = "\<lambda>_. 0"]]
        grades_if grades_await [OF grades_redriveRow])
  show ?thesis
    unfolding redriveBatch_def Let_def
    by (intro grades_if grades_succeed grades_await [OF grades_inspect [where q = "\<lambda>_. 0"]] grades_case_prod
        grades_await [where r = "\<lambda>_. 0"] grades_read rows) simp_all
qed

lemma grades_worker_notes:
  "grades standing i p (worker_forget w) (\<lambda>_. 0)" "grades standing i p (worker_note w) (\<lambda>_. 0)"
  unfolding worker_forget_def worker_note_def by (auto intro!: grades_modify)

lemma grades_job_record:
  assumes "0 < n"
  shows "grades standing (j_webhook j, j_key j) p
    (await (recordWebhookDeliveryFailure env (job_input env j url n code txt)) (\<lambda>recorded. await (count_loss recorded) (\<lambda>_.
       if recorded \<noteq> None then outbox_close env (j_webhook j) (j_key j) OutDispatched else succeed ()))) (\<lambda>_. 0)"
proof -
  have "grades standing (j_webhook j, j_key j) p (recordWebhookDeliveryFailure env (job_input env j url n code txt))
      (\<lambda>r. if r = None then 0 else 4)"
    using grades_record [of "job_input env j url n code txt" "j_key j" p] assms by (simp add: job_input_def Let_def cong: if_cong)
  then show ?thesis
    by (intro grades_await [OF _ grades_await [OF grades_notes(1)]])
      (auto intro!: grades_succeed grades_weaken [OF grades_close [where p = 0]])
qed

lemma grades_deliver_job: "grades standing (j_webhook j, j_key j) p (deliver_job env j) (\<lambda>_. 5)"
proof -
  let ?i = "(j_webhook j, j_key j)"
  have failure: "grades standing ?i p' (recordJobFailure env j url e) (\<lambda>_. 0)" for url e p'
    unfolding recordJobFailure_def
    by (intro grades_if grades_await [OF grades_run_hook] grades_job_record grades_succeed) simp_all
  have close4: "5 \<le> p' \<Longrightarrow> grades standing ?i p' (outbox_close env (j_webhook j) (j_key j) st) (\<lambda>_. 0)" for st p'
    by (rule grades_weaken [OF grades_close [where p = 0]]) auto
  have booked: "5 \<le> p' \<Longrightarrow> grades standing ?i p' (recordSuccessfulDelivery env j) (\<lambda>_. 0)" for p'
    unfolding recordSuccessfulDelivery_def
    by (intro grades_await [OF grades_inspect [where q = "\<lambda>_. 0"]] grades_await [OF grades_triggered]
        grades_await [OF grades_weaken [OF grades_clear [of "j_webhook j" "j_key j" False], where q' = "\<lambda>_. 0"]] grades_run_hook) simp_all
  show ?thesis
    unfolding deliver_job_def Let_def
    by (intro grades_await [OF grades_weaken [OF grades_trying [OF grades_read_webhook], where q' = "\<lambda>_. 0"]] grades_case_sum
        grades_await [OF grades_worker_notes(2)] grades_await [OF failure] grades_throw grades_if grades_await [OF grades_settle]
        grades_await [OF grades_worker_notes(1)] grades_await [OF close4] grades_succeed grades_recover grades_await [OF grades_post]
        grades_await [OF booked]) auto
qed

lemma grades_process_job: "grades standing i p (process_job env j) (\<lambda>_. 0)"
  unfolding process_job_def Let_def
  by (intro grades_await [OF grades_inspect [where q = "\<lambda>_. 0"]] grades_case_prod grades_if grades_throw
      grades_await [OF grades_modify [where q = "\<lambda>_. 0"]] grades_finally grades_any [OF grades_deliver_job] grades_modify) auto

lemma grades_onWorkerFailed: "grades standing i p (onWorkerFailed env job deferred msg) (\<lambda>_. 0)"
proof (cases job)
  case (Some j)
  have "grades standing (j_webhook j, j_key j) 0 (onWorkerFailed env (Some j) deferred msg) (\<lambda>_. 0)"
    unfolding onWorkerFailed_def option.case Let_def
    by (intro grades_if grades_succeed grades_await [OF grades_weaken [OF grades_trying [OF grades_read_webhook], where q' = "\<lambda>_. 0"]]
        grades_await [OF grades_run_hook] grades_job_record) auto
  then show ?thesis
    unfolding Some by (rule grades_any)
qed (simp add: onWorkerFailed_def grades_succeed)

end

end
