(* ===== verification/Webhook_Fanout.thy ===== *)
theory Webhook_Fanout
  imports Webhook_Delivery Webhook_Filters
begin

text \<open>
  From an event to its deliveries: the idempotency keys of \<open>src/modules/webhook/utils/idempotency.util.ts\<close> and the
  fan-out of \<open>webhook-delivery.service.ts\<close> (the session's active webhooks, their subscriptions and filters,
  the shedding of inline media, one dispatch each).
\<close>

section \<open>idempotency.util.ts\<close>

definition toStr :: "json option \<Rightarrow> string \<Rightarrow> string" where
  "toStr v fallback =
     (case v of
        Some (JStr s) \<Rightarrow> s
      | Some (JNum n) \<Rightarrow> int_text n
      | Some (JBool b) \<Rightarrow> (if b then ''true'' else ''false'')
      | _ \<Rightarrow> fallback)"

definition coalesce :: "json option \<Rightarrow> json option \<Rightarrow> json option" where
  "coalesce a b = (if nullish a then b else a)"

text \<open>\<open>JSON.stringify(value, names)\<close>: at every level only the named properties, in the order of the names.\<close>

fun keep_named :: "string list \<Rightarrow> json \<Rightarrow> json" where
  "keep_named names (JObj fs) =
     JObj (List.map_filter (\<lambda>n. map_option (\<lambda>v. (n, v)) (map_of (map (\<lambda>(m, v). (m, keep_named names v)) fs) n)) names)"
| "keep_named names (JArr xs) = JArr (map (keep_named names) xs)"
| "keep_named names v = v"

text \<open>The first twelve hex digits of the SHA-256 of the text; the digest is a parameter.\<close>

definition hashData :: "(string \<Rightarrow> string) \<Rightarrow> (string \<times> json) list \<Rightarrow> string" where
  "hashData sha fs = take 12 (sha (json_text (keep_named (sort (map fst fs)) (JObj fs))))"

text \<open>An object literal with one property that may be undefined.\<close>

definition one_field :: "string \<Rightarrow> json option \<Rightarrow> (string \<times> json) list" where
  "one_field n v = (case v of Some x \<Rightarrow> [(n, x)] | None \<Rightarrow> [])"

definition dots_to_underscores :: "string \<Rightarrow> string" where
  "dots_to_underscores s = map (\<lambda>c. if c = CHR ''.'' then CHR ''_'' else c) s"

definition generateIdempotencyKey :: "(string \<Rightarrow> string) \<Rightarrow> string \<Rightarrow> (string \<times> json) list \<Rightarrow> string option \<Rightarrow> string" where
  "generateIdempotencyKey sha event dat occurrenceId =
     (let f = map_of dat;
          s = (\<lambda>v. toStr v ''unknown'');
          session = s (f ''sessionId'');
          msg = s (coalesce (f ''id'') (f ''messageId''));
          text_of = (\<lambda>v. JStr (json_text (case coalesce v (Some JNull) of Some j \<Rightarrow> j | None \<Rightarrow> JNull)));
          group = ''grp_'' @ s (f ''groupId'') @ ''_'';
          members = hashData sha (one_field ''participants'' (f ''participantIds''));
          occurrence = (if truthy occurrenceId then CHR ''_'' # the occurrenceId else [])
      in if event \<in> {''message.received'', ''message.sent''} then ''msg_'' @ session @ ''_'' @ msg
         else if event = ''message.ack'' then
           ''ack_'' @ session @ ''_'' @ msg @ ''_'' @ toStr (coalesce (f ''status'') (f ''ack'')) ''0''
         else if event = ''message.receipt'' then
           ''receipt_'' @ session @ ''_'' @ msg @ ''_'' @ s (f ''participant'') @ ''_'' @ s (f ''status'')
         else if event = ''message.failed'' then
           ''failed_'' @ session @ ''_'' @ msg @ ''_'' @ toStr (coalesce (f ''status'') (f ''ack'')) ''0''
         else if event = ''message.revoked'' then ''rev_'' @ session @ ''_'' @ msg
         else if event = ''message.edited'' then ''edit_'' @ session @ ''_'' @ s (f ''messageId'') @ occurrence
         else if event = ''message.reaction'' then
           ''react_'' @ session @ ''_'' @ s (f ''messageId'') @ ''_'' @ s (f ''senderId'') @ occurrence
         else if event = ''session.status'' then ''sess_'' @ session @ ''_'' @ s (f ''status'') @ occurrence
         else if event = ''session.qr'' then ''qr_'' @ session @ ''_'' @ hashData sha (one_field ''qr'' (f ''qr''))
         else if event = ''session.authenticated'' then ''auth_'' @ session @ ''_'' @ hashData sha dat @ occurrence
         else if event = ''session.disconnected'' then
           ''disc_'' @ session @ ''_'' @ hashData sha (one_field ''reason'' (f ''reason'')) @ occurrence
         else if event = ''session.reconnect_loop'' then ''loop_'' @ session @ ''_'' @ s (f ''attempts'') @ occurrence
         else if event = ''session.restriction'' then
           ''restr_'' @ session @ ''_'' @ s (f ''kind'') @ ''_'' @ s (f ''active'') @ occurrence
         else if event \<in> {''call.accepted'', ''call.rejected'', ''call.missed''} then
           ''call_'' @ session @ ''_'' @ s (f ''callId'') @ ''_'' @ s (f ''outcome'')
         else if event = ''event.response'' then ''rsvp_'' @ session @ ''_'' @ s (f ''responseMessageId'')
         else if event = ''poll.vote'' then
           ''vote_'' @ session @ ''_'' @ s (f ''pollMessageId'') @ ''_'' @ s (f ''voterId'') @ ''_''
             @ s (coalesce (f ''timestampMs'') (f ''timestamp'')) @ ''_''
             @ hashData sha (one_field ''selectedOptions'' (coalesce (f ''selectedOptions'') (Some JNull)))
         else if event = ''presence.update'' then
           ''pres_'' @ session @ ''_'' @ s (f ''chatId'') @ ''_'' @ hashData sha [(''participants'', text_of (f ''participants''))] @ occurrence
         else if event = ''group.join'' then group @ members @ ''_join'' @ occurrence
         else if event = ''group.leave'' then group @ members @ ''_leave'' @ occurrence
         else if event = ''group.join_request'' then group @ members @ ''_join_request'' @ occurrence
         else if event = ''group.update'' then
           group @ ''update_'' @ hashData sha [(''changes'', text_of (f ''changes''))] @ occurrence
         else if event = ''call.received'' then ''call_'' @ session @ ''_'' @ s (f ''callId'')
         else ''evt_'' @ dots_to_underscores event @ ''_'' @ hashData sha dat)"

section \<open>Fan-out\<close>

definition loadActiveWebhooks :: "'x store_env_scheme \<Rightarrow> string \<Rightarrow> webhook list wh" where
  "loadActiveWebhooks env sessionId =
     recover (statement env (\<lambda>s. (Inr (filter (\<lambda>h. hook_session h = sessionId \<and> hook_active h) (hooks_table s)), s)))
       (\<lambda>_. succeed [])"

text \<open>Stored filters that are no object, or whose conditions are no array, throw instead of passing everything.\<close>

definition malformed_filters :: "json option \<Rightarrow> bool" where
  "malformed_filters v \<longleftrightarrow>
     \<not> nullish v \<and> (case v of
       Some (JObj fs) \<Rightarrow> \<not> nullish (map_of fs ''conditions'') \<and> (case map_of fs ''conditions'' of Some (JArr _) \<Rightarrow> False | _ \<Rightarrow> True)
     | _ \<Rightarrow> True)"

definition filterMatchingWebhooks ::
    "(string list \<Rightarrow> (string \<times> string option) list option) option \<Rightarrow> webhook list \<Rightarrow> string \<Rightarrow> json \<Rightarrow> webhook list" where
  "filterMatchingWebhooks read webhooks event dat =
     (let subscribed = filter (\<lambda>h. case hook_events h of None \<Rightarrow> False | Some es \<Rightarrow> subscriptionCoversEvent es event) webhooks;
          resolveLid = prepareFilterLidResolver (map hook_filters subscribed) event dat read
      in filter (\<lambda>h. \<not> malformed_filters (hook_filters h) \<and> evaluateFilters (hook_filters h) event dat resolveLid = Some True) subscribed)"

definition fanOut :: "nat \<Rightarrow> 'x delivery_env_scheme \<Rightarrow> string \<Rightarrow> string \<Rightarrow> (string \<times> json) list \<Rightarrow> string option \<Rightarrow> unit wh" where
  "fanOut fuel env sessionId event dat only =
     await (loadActiveWebhooks env sessionId) (\<lambda>webhooks.
       let matching = filterMatchingWebhooks (lid_read env)
             (case only of None \<Rightarrow> webhooks | Some w \<Rightarrow> filter (\<lambda>h. hook_id h = w) webhooks) event (JObj dat);
           baseData = (if matching = [] then JObj dat else shedInlineMedia (JObj dat) (inline_max env))
       in await (inspect (\<lambda>s. generateIdempotencyKey (sha256 env) event (put_field ''sessionId'' (JStr sessionId) dat)
                                (Some (uuid_at env (ticks s))))) (\<lambda>baseKey.
            for_each (\<lambda>h. await (trying (dispatchWithLimit fuel env h baseKey
                \<lparr>cx_session = sessionId, cx_event = event, cx_data = baseData, cx_slot = False, cx_single = False,
                  cx_oneDirect = False, cx_signal = False\<rparr>)) (\<lambda>_. succeed ())) matching))"

context delivery_company
begin

lemma grades_fanOut: "grades standing i p (fanOut fuel env sn ev dat only) (\<lambda>_. 0)"
proof -
  have one: "grades standing i p' (await (trying (dispatchWithLimit fuel env h k ctx)) (\<lambda>_. succeed ())) (\<lambda>_. 0)" for h k ctx p'
    by (intro grades_await [OF grades_weaken [OF grades_trying [OF grades_rises [OF rises_grades [OF grades_dispatch], where q = "\<lambda>_. 0"]],
          where q' = "\<lambda>_. 0"]] grades_succeed) auto
  show ?thesis
    unfolding fanOut_def loadActiveWebhooks_def Let_def
    by (intro grades_await [OF grades_recover [OF grades_read grades_succeed], where r = "\<lambda>_. 0"]
        grades_await [OF grades_inspect [where q = "\<lambda>_. 0"]] grades_for_each one) simp_all
qed

end

section \<open>Properties\<close>

text \<open>The events whose every occurrence is news of its own.\<close>

definition recurring_events :: "string list" where
  "recurring_events = [''message.edited'', ''message.reaction'', ''session.status'', ''session.authenticated'', ''session.disconnected'',
     ''session.reconnect_loop'', ''session.restriction'', ''presence.update'', ''group.join'', ''group.leave'', ''group.join_request'',
     ''group.update'']"

lemma salted_key:
  assumes "ev \<in> set recurring_events"
  shows "generateIdempotencyKey sha ev dat (Some (c # cs)) = generateIdempotencyKey sha ev dat None @ CHR ''_'' # c # cs"
  using assms unfolding recurring_events_def list.set
  by (elim insertE emptyE; simp add: generateIdempotencyKey_def Let_def)

lemma stable_key:
  assumes "ev \<notin> set recurring_events"
  shows "generateIdempotencyKey sha ev dat oc = generateIdempotencyKey sha ev dat oc'"
  using assms by (simp add: generateIdempotencyKey_def Let_def recurring_events_def)

text \<open>
  An idempotency key tells occurrences apart exactly where it should. Two dispatches of the same event
  with the same data get the same key for every event that has an identity of its own (so a receiver drops the
  repetition), and for the recurring ones they get the same key only when they are one occurrence. The same
  goes for the key of each webhook.
\<close>

theorem keys_tell_occurrences:
  "(generateIdempotencyKey sha ev dat (Some (c # cs)) @ ''_'' @ w = generateIdempotencyKey sha ev dat (Some (d # ds)) @ ''_'' @ w)
     \<longleftrightarrow> (if ev \<in> set recurring_events then c # cs = d # ds else True)"
  using stable_key [of ev sha dat] by (auto simp: salted_key)

end
