(* ===== verification/Webhook_Runs.thy ===== *)
theory Webhook_Runs
  imports Webhook_Recovery Webhook_Fanout
begin

text \<open>
  Runs of the whole webhook pipeline: its entry points as calls, under faults and amid the calls of other nodes
  and connections, and what they keep of an event.
\<close>

section \<open>Runs\<close>

text \<open>The entry points of the pipeline, each under its own environment, and their effect on the world.\<close>

datatype 'e wh_call =
    FanOut 'e nat string string "(string \<times> json) list" "string option"
  | Dispatch 'e nat webhook string dispatch_ctx
  | Sweep 'e nat sweep_opts bool "string option"
  | Redrive 'e nat redrive_request "string list option"
  | Job 'e webhook_job
  | JobStalled 'e "webhook_job option" "string option" string
  | Prune 'e int
  | PruneFailures 'e int
  | PrunePayloads 'e int

fun perform :: "'x delivery_env_scheme wh_call \<Rightarrow> world \<Rightarrow> world" where
  "perform (FanOut env fuel sn ev dat only) s = snd (fanOut fuel env sn ev dat only s)"
| "perform (Dispatch env fuel h k ctx) s = snd (dispatchWithLimit fuel env h k ctx s)"
| "perform (Sweep env fuel opts busy cursor) s = snd (sweep fuel env opts busy cursor s)"
| "perform (Redrive env fuel rq sns) s = snd (redriveBatch fuel env rq sns s)"
| "perform (Job env j) s = snd (process_job env j s)"
| "perform (JobStalled env j deferred msg) s = snd (onWorkerFailed env j deferred msg s)"
| "perform (Prune env days) s = snd (pruneSettled env days s)"
| "perform (PruneFailures env days) s = snd (pruneDeliveryFailures env days s)"
| "perform (PrunePayloads env hours) s = snd (pruneDeliveryFailurePayloads env hours s)"

fun env_of :: "'e wh_call \<Rightarrow> 'e" where
  "env_of (FanOut env fuel sn ev dat only) = env"
| "env_of (Dispatch env fuel h k ctx) = env"
| "env_of (Sweep env fuel opts busy cursor) = env"
| "env_of (Redrive env fuel rq sns) = env"
| "env_of (Job env j) = env"
| "env_of (JobStalled env j deferred msg) = env"
| "env_of (Prune env days) = env"
| "env_of (PruneFailures env days) = env"
| "env_of (PrunePayloads env hours) = env"

lemma perform_raises:
  assumes "\<And>i s n. standing i s \<le> standing i (others (env_of c) n s)"
  shows "standing i s \<le> standing i (perform c s)"
proof -
  have c: "delivery_company (env_of c)"
    unfolding delivery_company_def company_def by (intro allI assms)
  note up = gradesD(1) [OF delivery_company.grades_dispatch [OF c, where p = 0] le0]
    gradesD(1) [OF delivery_company.grades_fanOut [OF c, where p = 0] le0]
    gradesD(1) [OF delivery_company.grades_sweep [OF c, where p = 0] le0]
    gradesD(1) [OF delivery_company.grades_redriveBatch [OF c, where p = 0] le0]
    gradesD(1) [OF delivery_company.grades_process_job [OF c, where p = 0] le0]
    gradesD(1) [OF delivery_company.grades_onWorkerFailed [OF c, where p = 0] le0]
    gradesD(1) [OF company.grades_prune [OF delivery_company.axioms(1) [OF c], where p = 0] le0]
    gradesD(1) [OF company.grades_prune_failures(1) [OF delivery_company.axioms(1) [OF c], where p = 0] le0]
    gradesD(1) [OF company.grades_prune_failures(2) [OF delivery_company.axioms(1) [OF c], where p = 0] le0]
  show ?thesis
    using up by (cases c) auto
qed

text \<open>
  The other nodes and connections, made of the same calls: between two statements of one call, any calls of the
  others run, each to its end; \<open>alone\<close> is a call that nothing interrupts. So the calls of others are nested
  in the gaps of one call: two calls whose statements alternate are not a run of this model.
\<close>

definition alone :: "delivery_env \<Rightarrow> delivery_env" where
  "alone env = env\<lparr>others := \<lambda>n s. s\<rparr>"

type_synonym schedule = "nat \<Rightarrow> delivery_env wh_call list"

definition amid :: "schedule \<Rightarrow> delivery_env \<Rightarrow> delivery_env" where
  "amid sched env = env\<lparr>others := \<lambda>n. fold (\<lambda>c. perform (map_wh_call alone c)) (sched n)\<rparr>"

lemma env_of_map [simp]: "env_of (map_wh_call f c) = f (env_of c)"
  by (cases c) simp_all

interpretation solo: delivery_company "alone env" for env
  by unfold_locales (simp add: alone_def)

interpretation crowd: delivery_company "amid sched env" for sched env
proof
  have "standing i s \<le> standing i (perform (map_wh_call alone c) s)" for i c s
    by (rule perform_raises) (simp add: alone_def)
  then have "standing i s \<le> standing i (fold (\<lambda>c. perform (map_wh_call alone c)) cs s)" for i cs s
    by (intro fold_raises)
  then show "standing i s \<le> standing i (others (amid sched env) n s)" for i n s
    by (simp add: amid_def)
qed

definition calls_amid :: "(schedule \<times> delivery_env wh_call) list \<Rightarrow> world \<Rightarrow> world" where
  "calls_amid = fold (\<lambda>(sched, c). perform (map_wh_call (amid sched) c))"

text \<open>Worlds the pipeline reaches from an empty outbox.\<close>

inductive wh_reach :: "world \<Rightarrow> bool" where
  start: "outbox s = [] \<Longrightarrow> wh_reach s"
| calls: "wh_reach s \<Longrightarrow> wh_reach (calls_amid [c] s)"

lemma calls_raise: "standing i s \<le> standing i (calls_amid cs s)"
  unfolding calls_amid_def
  by (rule fold_raises) (auto intro!: perform_raises crowd.others_raise)

lemma reach_stands: "wh_reach s \<Longrightarrow> 1 \<le> standing i s"
proof (induction rule: wh_reach.induct)
  case (start s)
  then show ?case
    by (simp add: standing_def filed_in_def replayable_in_def)
next
  case (calls s c)
  then show ?case
    using calls_raise order_trans by blast
qed

text \<open>The insert that opens a delivery, when it does not fail.\<close>

lemma open_stands:
  assumes "1 \<le> standing (w, k) s" and "\<not> db_fails env (ticks s)"
  shows "2 \<le> standing (w, k) (snd (outbox_open (amid sched env) w sn ev k d pl s))"
proof -
  let ?s = "others (amid sched env) (ticks s) s"
  have "1 \<le> standing (w, k) ?s"
    using assms(1) crowd.others_raise order_trans by blast
  then have "filed_in (outbox ?s) (w, k) \<longrightarrow> 2 \<le> standing (w, k) ?s"
    by (auto simp: standing_def)
  moreover have "list_ex (same_delivery w k) (outbox ?s) \<longleftrightarrow> filed_in (outbox ?s) (w, k)"
    by (simp add: list_ex_iff filed_in_def)
  moreover have "db_fails (amid sched env) (ticks s) = db_fails env (ticks s)"
    by (simp add: amid_def)
  ultimately show ?thesis
    using assms(2)
    by (simp add: outbox_open_def insert_outbox_def recover_def statement_def succeed_def Let_def)
      (auto simp: standing_ge replayable_in_def same_delivery_def live_def unsettled_def)
qed

lemma dispatch_stands:
  assumes "1 \<le> standing (hook_id h, base @ ''_'' @ hook_id h) s" and "\<not> db_fails env (ticks s)"
  shows "2 \<le> standing (hook_id h, base @ ''_'' @ hook_id h) (snd (dispatchWithLimit fuel (amid sched env) h base ctx s))"
proof -
  let ?k = "base @ ''_'' @ hook_id h" and ?e = "amid sched env"
  let ?d = "''dlv_'' @ uuid_at ?e (ticks s)"
  let ?m = "outbox_open ?e (hook_id h) (cx_session ctx) (cx_event ctx) ?k ?d (cx_data ctx)"
  let ?rest = "await (modify (\<lambda>s. s\<lparr>locally := (locally s)(?k := locally s ?k + 1)\<rparr>)) (\<lambda>_.
      finally_do (runLimited fuel ?e h ?d ?k ctx) (modify (\<lambda>s. s\<lparr>locally := (locally s)(?k := locally s ?k - 1)\<rparr>)))"
  have run: "dispatchWithLimit fuel ?e h base ctx s = await ?m (\<lambda>_. ?rest) s"
    by (simp add: dispatchWithLimit_def await_def inspect_def Let_def)
  have rest: "grades standing (hook_id h, ?k) 0 ?rest (\<lambda>_. 0)"
    by (intro grades_await [OF grades_modify [where q = "\<lambda>_. 0"]] grades_finally crowd.grades_runLimited grades_modify) simp_all
  obtain r s' where m: "?m s = (r, s')"
    by fastforce
  have "2 \<le> standing (hook_id h, ?k) s'"
    using open_stands [OF assms, of sched "cx_session ctx" "cx_event ctx" ?d "cx_data ctx"] m by simp
  also have "\<dots> \<le> standing (hook_id h, ?k) (snd (await ?m (\<lambda>_. ?rest) s))"
    using gradesD(1) [OF rest, of s' "(hook_id h, ?k)"] m by (cases r) (auto simp: await_def)
  finally show ?thesis
    by (simp only: run)
qed

section \<open>Properties\<close>

text \<open>
  C6: no webhook event is lost once its outbox row is written. Take any world the pipeline reached from an empty
  outbox, and dispatch an event there, with the insert of its outbox row not failing. Whatever happens then
  (statements fail, hooks throw or cancel, receivers refuse, the queue is down, shutdown interrupts, and fan-outs,
  sweeps, redrives, worker attempts, stalled jobs and the three prunes run before and after, and whole in the gaps
  between the statements of one another), the event is accounted for afterwards: a receiver accepted it, it was
  withdrawn, the queue reported its job completed, a failure row reports it or reported it until it was older than
  the prune's retention, or its outbox row can still be replayed. Calls whose statements alternate with one
  another are not covered.
\<close>

theorem dispatched_event_accounted:
  assumes "wh_reach s" and "\<not> db_fails env (ticks s)"
  shows "let i = (hook_id h, base @ ''_'' @ hook_id h); s' = calls_amid ((sched, Dispatch env fuel h base ctx) # later) s
    in settled_in (outcomes s') i \<or> reported_in (failures s') True i \<or> reported_in (failures s') False i
       \<or> replayable_in (outbox s') i"
proof -
  let ?i = "(hook_id h, base @ ''_'' @ hook_id h)"
  have "2 \<le> standing ?i (snd (dispatchWithLimit fuel (amid sched env) h base ctx s))"
    using dispatch_stands reach_stands [OF assms(1)] assms(2) by blast
  also have "\<dots> \<le> standing ?i (calls_amid ((sched, Dispatch env fuel h base ctx) # later) s)"
    using calls_raise [of ?i _ later] by (simp add: calls_amid_def)
  finally show ?thesis
    by (simp add: standing_ge Let_def)
qed

definition plain_env :: delivery_env where
  "plain_env = \<lparr>others = (\<lambda>n s. s), db_fails = (\<lambda>n. n = 4), clock_at = (\<lambda>n. 1000 * int n), uuid_at = nat_string,
     queue_on = False, retention_hours = 24, max_payload = 400, retry_delay = 5000, degraded_cap = 4, jitter_at = (\<lambda>n d. 0),
     iso_at = (\<lambda>n. ''now''), before_hook = (\<lambda>n pl. BeforeGives None), hook_fails = (\<lambda>n. False),
     receiver = (\<lambda>n url hs body. Answer 503 ''busy''), add_fails = (\<lambda>n. True), job_at = (\<lambda>n d. NoJob),
     admission_at = (\<lambda>n. AdmitNow), slot_shut = (\<lambda>n. False), stopped = (\<lambda>n. False), hmac = (\<lambda>k b. k), sha256 = (\<lambda>x. x), inline_max = 100,
     lid_read = None\<rparr>"

definition one_hook :: webhook where
  "one_hook = \<lparr>hook_id = ''w1'', hook_session = ''s1'', hook_url = ''https://example.org/in'', hook_events = Some [''*''],
     hook_secret = None, hook_headers = None, hook_filters = None, hook_active = True, hook_retries = 2, hook_triggered = None\<rparr>"

definition one_world :: world where
  "one_world = \<lparr>outbox = [], failures = [], hooks_table = [one_hook], outcomes = [], losses = 0, failing = [], locally = (\<lambda>k. 0),
     jobs_added = [], worker_failing = [], degraded = (\<lambda>x. 0), ticks = 0\<rparr>"

definition one_ctx :: dispatch_ctx where
  "one_ctx = \<lparr>cx_session = ''s1'', cx_event = ''message.received'', cx_data = JObj [(''id'', JStr ''m1'')], cx_slot = True,
     cx_single = False, cx_oneDirect = False, cx_signal = False\<rparr>"

text \<open>A receiver that answers 503, a statement that fails on the way, and prunes during the retries.\<close>

theorem dispatched_event_accounted_witness:
  "wh_reach one_world \<and> \<not> db_fails plain_env (ticks one_world)
   \<and> (let i = (''w1'', ''msg_s1_m1_w1''); s' = calls_amid [(\<lambda>n. [Prune plain_env 7, PruneFailures plain_env 90], Dispatch plain_env 5 one_hook ''msg_s1_m1'' one_ctx)] one_world
      in settled_in (outcomes s') i \<or> reported_in (failures s') True i \<or> reported_in (failures s') False i
         \<or> replayable_in (outbox s') i)"
proof -
  have r: "wh_reach one_world" "\<not> db_fails plain_env (ticks one_world)"
    by (rule wh_reach.start) (simp_all add: one_world_def plain_env_def)
  have "hook_id one_hook = ''w1''"
    by (simp add: one_hook_def)
  then show ?thesis
    using r dispatched_event_accounted [OF r, of one_hook "''msg_s1_m1''" "\<lambda>n. [Prune plain_env 7, PruneFailures plain_env 90]" 5 one_ctx "[]"] by simp
qed

text \<open>
  An event whose body is over the size cap is recorded as unsent and its outbox row is retired with its event
  data: what is left is a failure row without a payload, which neither a sweep nor a redrive replays, though the
  recorder's contract says the outbox row of an unsent record stays pending.
\<close>

theorem oversize_event_retired:
  "let s = perform (Dispatch (plain_env\<lparr>max_payload := 60, db_fails := \<lambda>n. False\<rparr>) 5 one_hook ''msg_s1_m1'' one_ctx) one_world
   in map (\<lambda>r. (ob_state r, ob_payload r)) (outbox s) = [(Some OutDispatched, None)]
      \<and> map (\<lambda>f. (f_attempts f, f_payload f)) (failures s) = [(0, None)] \<and> outcomes s = []"
  by code_simp

end
