(* ===== verification/Webhook_Retries.thy ===== *)
theory Webhook_Retries
  imports Webhook_Runs
begin

text \<open>
  The retry loop of a delivery comes to an end. Every round reads the webhook's row again, so its \<open>retryCount\<close> may
  change while the loop runs; as long as no row asks for more than \<open>cap\<close> attempts (the DTOs of
  \<^verbatim>\<open>src/src/modules/webhook/dto/webhook.dto.ts\<close> allow five), \<open>cap\<close> rounds are enough, and more fuel changes nothing.
\<close>

section \<open>Actions that keep a condition and never throw a given error\<close>

definition avoids :: "('s \<Rightarrow> bool) \<Rightarrow> 'e \<Rightarrow> ('s, 'e, 'a) action \<Rightarrow> bool" where
  "avoids I e m \<longleftrightarrow> (\<forall>s. I s \<longrightarrow> I (snd (m s)) \<and> fst (m s) \<noteq> Inl e)"

text \<open>Two actions that agree wherever the condition holds.\<close>

definition agree_on :: "('s \<Rightarrow> bool) \<Rightarrow> ('s, 'e, 'a) action \<Rightarrow> ('s, 'e, 'a) action \<Rightarrow> bool" where
  "agree_on I m m' \<longleftrightarrow> (\<forall>s. I s \<longrightarrow> m s = m' s)"

text \<open>The results an action may have where the condition holds.\<close>

definition gives :: "('s \<Rightarrow> bool) \<Rightarrow> ('s, 'e, 'a) action \<Rightarrow> ('a \<Rightarrow> bool) \<Rightarrow> bool" where
  "gives I m R \<longleftrightarrow> (\<forall>s a. I s \<longrightarrow> fst (m s) = Inr a \<longrightarrow> R a)"

named_theorems avoiding \<open>rules for actions that avoid an error\<close>

lemma avoidsI: "(\<And>s. I s \<Longrightarrow> I (snd (m s))) \<Longrightarrow> (\<And>s. I s \<Longrightarrow> fst (m s) \<noteq> Inl e) \<Longrightarrow> avoids I e m"
  by (simp add: avoids_def)

lemma avoidsD: "avoids I e m \<Longrightarrow> I s \<Longrightarrow> m s = (r, s') \<Longrightarrow> I s' \<and> r \<noteq> Inl e"
  unfolding avoids_def by (metis fst_conv snd_conv)

lemma givesD: "gives I m R \<Longrightarrow> I s \<Longrightarrow> m s = (Inr a, s') \<Longrightarrow> R a"
  unfolding gives_def by (metis fst_conv)

lemma gives_any: "gives I m (\<lambda>_. True)"
  by (simp add: gives_def)

lemma yields_gives: "yields m R \<Longrightarrow> gives I m R"
  by (simp add: yields_def gives_def)

lemma avoids_simple [avoiding]:
  "avoids I e (succeed a)" "e' \<noteq> e \<Longrightarrow> avoids I e (throw e')" "avoids I e (inspect f)"
  by (simp_all add: avoids_def action_defs)

lemma avoids_modify [avoiding]: "(\<And>s. I s \<Longrightarrow> I (f s)) \<Longrightarrow> avoids I e (modify f)"
  by (simp add: avoids_def modify_def)

lemma avoids_await_where:
  assumes "avoids I e m" "gives I m R" "\<And>a. R a \<Longrightarrow> avoids I e (f a)"
  shows "avoids I e (await m f)"
proof (rule avoidsI)
  fix s assume s: "I s"
  obtain r s' where m: "m s = (r, s')" by fastforce
  have "I s' \<and> r \<noteq> Inl e" and R: "\<And>a. r = Inr a \<Longrightarrow> R a"
    using avoidsD [OF assms(1) s m] givesD [OF assms(2) s] m by auto
  then show "I (snd (await m f s))" "fst (await m f s) \<noteq> Inl e"
    using assms(3) [OF R] m by (auto simp: await_def avoids_def split: sum.split)
qed

lemma avoids_await [avoiding]: "avoids I e m \<Longrightarrow> (\<And>a. avoids I e (f a)) \<Longrightarrow> avoids I e (await m f)"
  by (rule avoids_await_where [OF _ gives_any])

lemma avoids_recover [avoiding]:
  assumes "avoids I e m" "\<And>e'. e' \<noteq> e \<Longrightarrow> avoids I e (h e')"
  shows "avoids I e (recover m h)"
proof (rule avoidsI)
  fix s assume s: "I s"
  obtain r s' where m: "m s = (r, s')" by fastforce
  have "I s' \<and> r \<noteq> Inl e"
    by (rule avoidsD [OF assms(1) s m])
  then show "I (snd (recover m h s))" "fst (recover m h s) \<noteq> Inl e"
    using assms(2) m by (cases r; auto simp: recover_def avoids_def)+
qed

lemma avoids_finally [avoiding]:
  assumes "avoids I e m" "avoids I e f"
  shows "avoids I e (finally_do m f)"
proof (rule avoidsI)
  fix s assume s: "I s"
  obtain r s' where m: "m s = (r, s')" by fastforce
  obtain q s'' where f: "f s' = (q, s'')" by fastforce
  have a: "I s' \<and> r \<noteq> Inl e"
    by (rule avoidsD [OF assms(1) s m])
  then have "I s'' \<and> q \<noteq> Inl e"
    using avoidsD [OF assms(2) _ f] by blast
  with a show "I (snd (finally_do m f s))" "fst (finally_do m f s) \<noteq> Inl e"
    using m f by (cases q; auto simp: finally_do_def)+
qed

lemma avoids_trying [avoiding]: "avoids I e m \<Longrightarrow> avoids I e (trying m)"
  by (auto simp: avoids_def trying_def split: prod.split)

lemma avoids_cases [avoiding]:
  "(b \<Longrightarrow> avoids I e m) \<Longrightarrow> (\<not> b \<Longrightarrow> avoids I e n) \<Longrightarrow> avoids I e (if b then m else n)"
  "(x = None \<Longrightarrow> avoids I e m) \<Longrightarrow> (\<And>a. x = Some a \<Longrightarrow> avoids I e (g a)) \<Longrightarrow>
   avoids I e (case x of None \<Rightarrow> m | Some a \<Rightarrow> g a)"
  "(\<And>a. y = Inl a \<Longrightarrow> avoids I e (k a)) \<Longrightarrow> (\<And>a. y = Inr a \<Longrightarrow> avoids I e (l a)) \<Longrightarrow>
   avoids I e (case y of Inl a \<Rightarrow> k a | Inr a \<Rightarrow> l a)"
  "avoids I e (j z) \<Longrightarrow> avoids I e (let v = z in j v)"
  by (simp_all split: option.split sum.split)

lemma avoids_case_prod [avoiding]:
  "(\<And>a b. x = (a, b) \<Longrightarrow> avoids I e (f a b)) \<Longrightarrow> avoids I e (case x of (a, b) \<Rightarrow> f a b)"
  by (cases x) simp

lemma gives_succeed: "R a \<Longrightarrow> gives I (succeed a) R"
  by (simp add: gives_def succeed_def)

lemma gives_await:
  assumes "avoids I e m" "gives I m S" "\<And>a. S a \<Longrightarrow> gives I (f a) R"
  shows "gives I (await m f) R"
  unfolding gives_def
proof (intro allI impI)
  fix s b assume s: "I s" and b: "fst (await m f s) = Inr b"
  obtain r s' where m: "m s = (r, s')" by fastforce
  obtain a where a: "r = Inr a"
    using b m by (cases r) (auto simp: await_def)
  have "I s'" "S a"
    using avoidsD [OF assms(1) s m] givesD [OF assms(2) s] m a by auto
  then show "R b"
    using assms(3) [of a] b m a by (simp add: await_def gives_def)
qed

text \<open>An error turned into a value is not the avoided one.\<close>

lemma gives_trying:
  assumes "avoids I e m" "gives I m R"
  shows "gives I (trying m) (\<lambda>r. r \<noteq> Inl e \<and> (\<forall>a. r = Inr a \<longrightarrow> R a))"
  using assms by (auto simp: gives_def avoids_def trying_def split: prod.splits)

lemma agree_refl: "agree_on I m m"
  by (simp add: agree_on_def)

lemma agree_await:
  assumes "agree_on I m m'" "avoids I e m" "gives I m R" "\<And>a. R a \<Longrightarrow> agree_on I (f a) (f' a)"
  shows "agree_on I (await m f) (await m' f')"
  unfolding agree_on_def
proof (intro allI impI)
  fix s assume s: "I s"
  obtain r s' where m: "m s = (r, s')" by fastforce
  have m': "m' s = (r, s')"
    using assms(1) s m by (simp add: agree_on_def)
  have "I s'" and "\<And>a. r = Inr a \<Longrightarrow> R a"
    using avoidsD [OF assms(2) s m] givesD [OF assms(3) s] m by auto
  then show "await m f s = await m' f' s"
    using assms(4) m m' by (auto simp: await_def agree_on_def split: sum.split)
qed

lemma agree_recover:
  assumes "agree_on I m m'" "avoids I e m" "\<And>e'. e' \<noteq> e \<Longrightarrow> agree_on I (h e') (h' e')"
  shows "agree_on I (recover m h) (recover m' h')"
  unfolding agree_on_def
proof (intro allI impI)
  fix s assume s: "I s"
  obtain r s' where m: "m s = (r, s')" by fastforce
  have m': "m' s = (r, s')"
    using assms(1) s m by (simp add: agree_on_def)
  have "I s' \<and> r \<noteq> Inl e"
    by (rule avoidsD [OF assms(2) s m])
  then show "recover m h s = recover m' h' s"
    using assms(3) m m' by (cases r) (auto simp: recover_def agree_on_def)
qed

lemma agree_finally: "agree_on I m m' \<Longrightarrow> agree_on I (finally_do m f) (finally_do m' f)"
  by (simp add: agree_on_def finally_do_def)

section \<open>Rows that ask for no more attempts than a cap\<close>

definition retries_capped :: "nat \<Rightarrow> world \<Rightarrow> bool" where
  "retries_capped cap s \<longleftrightarrow> list_all (\<lambda>h. hook_retries h \<le> int cap) (hooks_table s)"

lemma retries_capped_simps [simp]:
  "retries_capped cap (s\<lparr>ticks := n\<rparr>) = retries_capped cap s"
  "retries_capped cap (s\<lparr>failures := fs\<rparr>) = retries_capped cap s"
  "retries_capped cap (s\<lparr>outbox := rs\<rparr>) = retries_capped cap s"
  "retries_capped cap (s\<lparr>outcomes := os\<rparr>) = retries_capped cap s"
  "retries_capped cap (s\<lparr>losses := l\<rparr>) = retries_capped cap s"
  "retries_capped cap (s\<lparr>failing := f\<rparr>) = retries_capped cap s"
  "retries_capped cap (s\<lparr>locally := c\<rparr>) = retries_capped cap s"
  "retries_capped cap (s\<lparr>jobs_added := j\<rparr>) = retries_capped cap s"
  by (simp_all add: retries_capped_def)

locale capped_hooks =
  fixes env :: "'x delivery_env_scheme" and cap :: nat
  assumes others_capped: "retries_capped cap s \<Longrightarrow> retries_capped cap (others env n s)"
begin

lemma avoids_statement:
  assumes "\<And>s. retries_capped cap s \<Longrightarrow> retries_capped cap (snd (f s))" and "\<And>s. fst (f s) \<noteq> Inl NoFuel"
  shows "avoids (retries_capped cap) NoFuel (statement env f)"
  using assms others_capped by (auto simp: avoids_def statement_def Let_def)

lemma avoids_external:
  assumes "\<And>n s. retries_capped cap s \<Longrightarrow> retries_capped cap (snd (f n s))" and "\<And>n s. fst (f n s) \<noteq> Inl NoFuel"
  shows "avoids (retries_capped cap) NoFuel (external env f)"
  using assms others_capped by (auto simp: avoids_def external_def Let_def)

lemma avoids_notes:
  "avoids (retries_capped cap) NoFuel (run_hook env)" "avoids (retries_capped cap) NoFuel (settle_as w k h)"
  "avoids (retries_capped cap) NoFuel (count_loss r)" "avoids (retries_capped cap) NoFuel (forget_failing w)"
  "avoids (retries_capped cap) NoFuel (note_failing w)"
  unfolding run_hook_def settle_as_def count_loss_def forget_failing_def note_failing_def
  by (auto intro!: avoids_external avoids_modify split: if_splits)

lemma avoids_read_webhook: "avoids (retries_capped cap) NoFuel (read_webhook env w)"
  unfolding read_webhook_def by (rule avoids_statement) simp_all

lemma gives_read_webhook: "gives (retries_capped cap) (read_webhook env w) (\<lambda>row. \<forall>h. row = Some h \<longrightarrow> hook_retries h \<le> int cap)"
  using others_capped
  by (fastforce simp: gives_def read_webhook_def statement_def Let_def find_Some_iff retries_capped_def list_all_length split: if_splits)

lemma avoids_change:
  "avoids (retries_capped cap) NoFuel (statement env (change_failures P g))"
  "avoids (retries_capped cap) NoFuel (statement env (change_outbox Q j))"
  by (rule avoids_statement; simp add: change_failures_def change_outbox_def)+

lemma avoids_clear: "avoids (retries_capped cap) NoFuel (clearDeliveryFailureRows env w k b)"
  unfolding clearDeliveryFailureRows_def by (intro avoiding avoids_statement) simp_all

lemma avoids_record: "avoids (retries_capped cap) NoFuel (recordWebhookDeliveryFailure env inp)"
proof -
  have r: "avoids (retries_capped cap) NoFuel (refreshTerminal env inp)"
    unfolding refreshTerminal_def by (intro avoiding avoids_change avoids_clear)
  have i: "avoids (retries_capped cap) NoFuel (insert_failure env inp)"
    unfolding insert_failure_def by (rule avoids_statement) simp_all
  have f: "avoids (retries_capped cap) NoFuel (file_failure env inp)"
    unfolding file_failure_def by (intro avoiding avoids_clear r i)
  show ?thesis
    unfolding recordWebhookDeliveryFailure_def refreshReason_def
    by (intro avoiding avoids_change avoids_statement r f) simp_all
qed

lemma avoids_undelivered: "avoids (retries_capped cap) NoFuel (recordUndelivered env h d k e ctx)"
  unfolding recordUndelivered_def by (intro avoiding avoids_record avoids_notes)

lemma avoids_close: "avoids (retries_capped cap) NoFuel (outbox_close env w k st)"
  unfolding outbox_close_def by (intro avoiding avoids_change)

lemma avoids_open: "avoids (retries_capped cap) NoFuel (outbox_open env w sn ev k d pl)"
  unfolding outbox_open_def insert_outbox_def by (intro avoiding avoids_statement) simp_all

lemma avoids_markQueued: "avoids (retries_capped cap) NoFuel (markQueued env w k d)"
  unfolding markQueued_def by (intro avoiding avoids_change)

lemma avoids_preflight: "avoids (retries_capped cap) NoFuel (preflightDelivery env h d k ctx)"
proof -
  have b: "avoids (retries_capped cap) NoFuel (external env (\<lambda>n s. (Inr (before_hook env n pl), s)))" for pl
    by (rule avoids_external) simp_all
  show ?thesis
    unfolding preflightDelivery_def Let_def
    by (intro avoiding b avoids_undelivered) (auto split: before_answer.split intro!: avoiding avoids_notes avoids_undelivered)
qed

lemma avoids_post: "avoids (retries_capped cap) NoFuel (postWebhookPayload env w k url hs body)"
  unfolding postWebhookPayload_def
  by (intro avoiding avoids_external avoids_notes) (auto split: post_answer.split)

lemma avoids_triggered:
  "avoids (retries_capped cap) NoFuel (statement env (\<lambda>s. (Inr (), s\<lparr>hooks_table :=
     map (\<lambda>h. if hook_id h = w then h\<lparr>hook_triggered := t\<rparr> else h) (hooks_table s)\<rparr>)))"
  by (rule avoids_statement) (auto simp: retries_capped_def list_all_iff)

lemma avoids_attempt: "avoids (retries_capped cap) NoFuel (attempt_once env h ctx k d body n)"
  unfolding attempt_once_def
  by (intro avoiding avoids_read_webhook avoids_notes avoids_post avoids_triggered avoids_clear) simp

text \<open>The row a round ends with asks for no more than the cap, and its error is not the loop's own.\<close>

lemma gives_attempt:
  assumes "hook_retries h \<le> int cap"
  shows "gives (retries_capped cap) (attempt_once env h ctx k d body n) (\<lambda>(c, r). hook_retries c \<le> int cap \<and> r \<noteq> Inl NoFuel)"
proof -
  have halt: "avoids (retries_capped cap) NoFuel (if b then throw BackoffAborted else m)"
    if "avoids (retries_capped cap) NoFuel m" for b and m :: "'z wh"
    using that by (intro avoiding) simp
  show ?thesis
    unfolding attempt_once_def Let_def
    by (rule gives_await [OF avoids_trying [OF avoids_read_webhook] gives_trying [OF avoids_read_webhook gives_read_webhook]])
      (use assms in \<open>auto split: sum.split dest!: deliverable_Some intro!: gives_succeed gives_await [OF avoids_notes(2) gives_any]
        gives_await [OF avoids_notes(4) gives_any] gives_await [OF avoids_trying gives_trying [OF _ gives_any]]
        halt avoiding avoids_post avoids_notes avoids_triggered avoids_clear\<close>)
qed

lemma avoids_backoff: "avoids (retries_capped cap) NoFuel (backoff env ctx)"
  unfolding backoff_def by (rule avoids_external) (auto split: if_splits)

lemma avoids_give_up: "e \<noteq> NoFuel \<Longrightarrow> avoids (retries_capped cap) NoFuel (give_up env h ctx k d n e)"
  unfolding give_up_def recordTerminalFailure_def by (intro avoiding avoids_record avoids_notes) simp

lemma deliverWebhook_fuel:
  assumes "hook_retries h \<le> int cap" "cap + 1 \<le> fuel + n" "cap + 1 \<le> fuel' + n" "n \<le> cap" "0 < n"
  shows "avoids (retries_capped cap) NoFuel (deliverWebhook fuel env h ctx k d body n)
    \<and> agree_on (retries_capped cap) (deliverWebhook fuel env h ctx k d body n) (deliverWebhook fuel' env h ctx k d body n)"
  using assms
proof (induction fuel arbitrary: fuel' h n)
  case (Suc fuel)
  then obtain f' where f': "fuel' = Suc f'"
    by (cases fuel') auto
  let ?rest = "\<lambda>f (c, r). case r of
         Inr b \<Rightarrow> succeed b
       | Inl e \<Rightarrow>
           if e = BackoffAborted \<and> cx_signal ctx then throw e
           else await (note_failing (hook_id h)) (\<lambda>_.
             if int n < (if cx_single ctx \<or> cx_oneDirect ctx then 1 else hook_retries c)
             then await (backoff env ctx) (\<lambda>_. deliverWebhook f env c ctx k d body (Suc n))
             else give_up env c ctx k d n e)"
  have rest: "avoids (retries_capped cap) NoFuel (?rest fuel (c, r)) \<and> agree_on (retries_capped cap) (?rest fuel (c, r)) (?rest f' (c, r))"
    if "hook_retries c \<le> int cap" "r \<noteq> Inl NoFuel" for c r
  proof (cases "\<exists>e. r = Inl e \<and> int n < (if cx_single ctx \<or> cx_oneDirect ctx then 1 else hook_retries c)")
    case True
    then obtain e where e: "r = Inl e" and less: "int n < (if cx_single ctx \<or> cx_oneDirect ctx then 1 else hook_retries c)"
      by blast
    then have "Suc n \<le> cap"
      using that(1) Suc.prems(5) by (auto split: if_splits)
    then have IH: "avoids (retries_capped cap) NoFuel (deliverWebhook fuel env c ctx k d body (Suc n))"
        "agree_on (retries_capped cap) (deliverWebhook fuel env c ctx k d body (Suc n)) (deliverWebhook f' env c ctx k d body (Suc n))"
      using Suc.IH [of c "Suc n" f'] Suc.prems that(1) f' by auto
    show ?thesis
      unfolding e using less
      by (auto intro!: avoiding avoids_notes avoids_backoff IH agree_refl
          agree_await [OF agree_refl avoids_notes(5) gives_any] agree_await [OF agree_refl avoids_backoff gives_any])
  next
    case False
    then show ?thesis
      using that(2) by (cases r) (auto intro!: avoiding avoids_notes avoids_give_up agree_refl)
  qed
  show ?case
    unfolding f' deliverWebhook.simps
    by (intro conjI avoids_await_where [OF avoids_attempt gives_attempt [OF Suc.prems(1)]]
        agree_await [OF agree_refl avoids_attempt gives_attempt [OF Suc.prems(1)]])
      (use rest in \<open>auto simp only: prod.case split: prod.splits\<close>)
qed simp

text \<open>An action with fuel that never runs out of it, and does the same with any other fuel that is enough.\<close>

definition settled_by_cap :: "(nat \<Rightarrow> 'a wh) \<Rightarrow> bool" where
  "settled_by_cap m \<longleftrightarrow> (\<forall>fuel fuel'. cap \<le> fuel \<longrightarrow> cap \<le> fuel' \<longrightarrow>
     avoids (retries_capped cap) NoFuel (m fuel) \<and> agree_on (retries_capped cap) (m fuel) (m fuel'))"

lemma settledD:
  assumes "settled_by_cap m" "cap \<le> fuel"
  shows "avoids (retries_capped cap) NoFuel (m fuel)"
    and "cap \<le> fuel' \<Longrightarrow> agree_on (retries_capped cap) (m fuel) (m fuel')"
  using assms unfolding settled_by_cap_def by blast+

lemma settled_const: "avoids (retries_capped cap) NoFuel m \<Longrightarrow> settled_by_cap (\<lambda>fuel. m)"
  by (simp add: settled_by_cap_def agree_refl)

lemma settled_await:
  assumes "settled_by_cap m" "\<And>fuel. gives (retries_capped cap) (m fuel) R" "\<And>a. R a \<Longrightarrow> settled_by_cap (\<lambda>fuel. f fuel a)"
  shows "settled_by_cap (\<lambda>fuel. await (m fuel) (f fuel))"
  unfolding settled_by_cap_def
proof (intro allI impI)
  fix x y assume x: "cap \<le> x" and y: "cap \<le> y"
  note m = settledD [OF assms(1) x] and f = settledD [OF assms(3) x]
  show "avoids (retries_capped cap) NoFuel (await (m x) (f x)) \<and> agree_on (retries_capped cap) (await (m x) (f x)) (await (m y) (f y))"
    using avoids_await_where [OF m(1) assms(2) f(1)] agree_await [OF m(2) m(1) assms(2) f(2)] y by simp
qed

lemma settled_recover:
  assumes "settled_by_cap m" "\<And>e. e \<noteq> NoFuel \<Longrightarrow> settled_by_cap (\<lambda>fuel. h fuel e)"
  shows "settled_by_cap (\<lambda>fuel. recover (m fuel) (h fuel))"
  unfolding settled_by_cap_def
proof (intro allI impI)
  fix x y assume x: "cap \<le> x" and y: "cap \<le> y"
  note m = settledD [OF assms(1) x] and h = settledD [OF assms(2) x]
  show "avoids (retries_capped cap) NoFuel (recover (m x) (h x)) \<and> agree_on (retries_capped cap) (recover (m x) (h x)) (recover (m y) (h y))"
    using avoids_recover [OF m(1) h(1)] agree_recover [OF m(2) m(1) h(2)] y by simp
qed

lemma settled_if: "settled_by_cap m \<Longrightarrow> settled_by_cap n \<Longrightarrow> settled_by_cap (\<lambda>fuel. if b then m fuel else n fuel)"
  by (cases b) simp_all

lemma settled_deliverWebhook:
  assumes "hook_retries h \<le> int cap" "0 < cap"
  shows "settled_by_cap (\<lambda>fuel. deliverWebhook fuel env h ctx k d body 1)"
  using deliverWebhook_fuel [OF assms(1), of _ 1] assms(2) by (simp add: settled_by_cap_def)

lemma settled_deliverDirect:
  assumes "hook_retries h \<le> int cap" "0 < cap"
  shows "settled_by_cap (\<lambda>fuel. deliverDirect fuel env h body d k ctx)"
  unfolding deliverDirect_def
  by (intro settled_recover settled_await [OF settled_deliverWebhook [OF assms] gives_any] settled_const avoiding avoids_notes)
    simp_all

lemma settled_deliverOne:
  assumes "hook_retries h \<le> int cap" "0 < cap"
  shows "settled_by_cap (\<lambda>fuel. deliverOne fuel env h d k ctx)"
proof -
  have add: "avoids (retries_capped cap) NoFuel (external env (\<lambda>n s. if add_fails env n then (Inl QueueDown, s)
      else (Inr (), s\<lparr>jobs_added := jobs_added s @ [(d, hook_id h, k)]\<rparr>)))"
    by (rule avoids_external) (auto split: if_splits)
  have queue: "settled_by_cap (\<lambda>fuel. enqueueWithFallback fuel env h body d k ctx)" for body
    unfolding enqueueWithFallback_def
    by (intro settled_recover settled_await [OF settled_const gives_any] settled_if settled_deliverDirect assms)
      (intro settled_const avoiding avoids_notes avoids_markQueued add; simp)+
  have "settled_by_cap (\<lambda>fuel. case pre of
         PreflightUnrecorded \<Rightarrow> succeed Unrecorded
       | PreflightCancelled \<Rightarrow> succeed Cancelled
       | PreflightFailed \<Rightarrow> succeed DeliveryFailed
       | PreflightBody final body \<Rightarrow>
           if \<not> cx_single ctx \<and> queue_on env then enqueueWithFallback fuel env h body d k ctx
           else deliverDirect fuel env h body d k ctx)" for pre
    by (cases pre) (auto intro!: settled_if settled_const avoiding queue settled_deliverDirect assms)
  then show ?thesis
    unfolding deliverOne_def by (intro settled_await [OF settled_const gives_any] avoids_preflight)
qed

lemma settled_run_admitted:
  assumes "hook_retries h \<le> int cap" "0 < cap"
  shows "settled_by_cap (\<lambda>fuel. run_admitted fuel env w h d k ctx)"
  unfolding run_admitted_def
  by (intro settled_await [OF settled_deliverOne [OF assms] gives_any] settled_const avoiding avoids_close)

lemma gives_recover_read:
  assumes "hook_retries h \<le> int cap"
  shows "gives (retries_capped cap) (recover (read_webhook env w) (\<lambda>_. succeed (Some h))) (\<lambda>row. \<forall>x. row = Some x \<longrightarrow> hook_retries x \<le> int cap)"
  using assms gives_read_webhook [of w]
  by (force simp: gives_def recover_def succeed_def split: prod.splits sum.splits)

lemma settled_runLimited:
  assumes "hook_retries h \<le> int cap" "0 < cap"
  shows "settled_by_cap (\<lambda>fuel. runLimited fuel env h d k ctx)"
proof -
  have gated: "settled_by_cap (\<lambda>fuel. if \<not> isDeliverableWebhook row (cx_event ctx) None then
        await (forget_failing (hook_id h)) (\<lambda>_.
        await (settle_as (hook_id h) k Withdrawn) (\<lambda>_. outbox_close env (hook_id h) k OutDispatched))
      else run_admitted fuel env (hook_id h) (the row) d k ctx)" if "\<forall>x. row = Some x \<longrightarrow> hook_retries x \<le> int cap" for row
  proof (cases "isDeliverableWebhook row (cx_event ctx) None")
    case True
    then show ?thesis
      using that assms(2) deliverable_Some [OF True] by (auto intro!: settled_run_admitted)
  qed (simp, intro settled_const avoiding avoids_notes avoids_close)
  have read: "avoids (retries_capped cap) NoFuel (recover (read_webhook env (hook_id h)) (\<lambda>_. succeed (Some h)))"
    by (intro avoiding avoids_read_webhook)
  have admit: "settled_by_cap (\<lambda>fuel. case a of
      RefuseFull \<Rightarrow> throw LimiterFull
    | RefuseShut \<Rightarrow> throw LimiterShut
    | AdmitNow \<Rightarrow> run_admitted fuel env (hook_id h) h d k ctx
    | AdmitGated \<Rightarrow> await (recover (read_webhook env (hook_id h)) (\<lambda>_. succeed (Some h))) (\<lambda>row.
        if \<not> isDeliverableWebhook row (cx_event ctx) None then
          await (forget_failing (hook_id h)) (\<lambda>_.
          await (settle_as (hook_id h) k Withdrawn) (\<lambda>_. outbox_close env (hook_id h) k OutDispatched))
        else run_admitted fuel env (hook_id h) (the row) d k ctx))" for a
    using settled_await [OF settled_const [OF read] gives_recover_read [OF assms(1)] gated] settled_run_admitted [OF assms]
    by (cases a) (auto intro!: settled_const avoiding)
  have ask: "avoids (retries_capped cap) NoFuel (external env (\<lambda>n s. (Inr (admission_at env n), s)))"
    by (rule avoids_external) simp_all
  show ?thesis
    unfolding runLimited_def
    by (intro settled_recover settled_await [OF settled_const [OF ask] gives_any] admit)
      (intro settled_const avoiding avoids_undelivered)
qed

lemma settled_dispatch:
  assumes "hook_retries h \<le> int cap" "0 < cap"
  shows "settled_by_cap (\<lambda>fuel. dispatchWithLimit fuel env h baseKey ctx)"
proof -
  let ?k = "baseKey @ ''_'' @ hook_id h"
  have count: "avoids (retries_capped cap) NoFuel (modify (\<lambda>s. s\<lparr>locally := f s\<rparr>))" for f
    by (rule avoids_modify) simp
  have "settled_by_cap (\<lambda>fuel. finally_do (runLimited fuel env h d ?k ctx) (modify (\<lambda>s. s\<lparr>locally := f s\<rparr>)))" for d f
    using settled_runLimited [OF assms] count unfolding settled_by_cap_def
    by (blast intro: avoids_finally agree_finally)
  then show ?thesis
    unfolding dispatchWithLimit_def Let_def
    by (intro settled_await [OF settled_const gives_any]) (intro avoiding avoids_open count | assumption)+
qed

end

text \<open>A delivery with nobody else at the tables.\<close>

interpretation quiet: capped_hooks "alone env" cap for env cap
  by unfold_locales (simp add: alone_def)

section \<open>Properties\<close>

text \<open>
  C24: a dispatch ends. While no row of the webhook table asks for more than \<open>cap\<close> attempts, whatever other connections do
  to the table meanwhile, a dispatch with fuel for \<open>cap\<close> rounds of the retry loop never runs out of it, and does the same,
  with the same effect on the world, as with any larger fuel.
\<close>

theorem dispatch_ends:
  assumes "retries_capped cap s" and "\<And>n s. retries_capped cap s \<Longrightarrow> retries_capped cap (others env n s)"
    and "hook_retries h \<le> int cap" and "0 < cap" and "cap \<le> fuel"
  shows "fst (dispatchWithLimit cap env h baseKey ctx s) \<noteq> Inl NoFuel
    \<and> dispatchWithLimit fuel env h baseKey ctx s = dispatchWithLimit cap env h baseKey ctx s"
proof -
  have l: "capped_hooks env cap"
    by unfold_locales (rule assms(2))
  note d = capped_hooks.settledD [OF l capped_hooks.settled_dispatch [OF l assms(3,4)]]
  show ?thesis
    using d(1) [OF order_refl] d(2) [OF assms(5) order_refl] assms(1) by (simp add: avoids_def agree_on_def)
qed

text \<open>Three attempts against a receiver that answers 503, with fuel to spare.\<close>

theorem dispatch_ends_witness:
  "retries_capped 5 one_world \<and> fst (dispatchWithLimit 5 (alone plain_env) one_hook ''msg_s1_m1'' one_ctx one_world) \<noteq> Inl NoFuel
   \<and> dispatchWithLimit 90 (alone plain_env) one_hook ''msg_s1_m1'' one_ctx one_world
       = dispatchWithLimit 5 (alone plain_env) one_hook ''msg_s1_m1'' one_ctx one_world"
proof -
  have c: "retries_capped 5 one_world" "hook_retries one_hook \<le> int 5"
    by (simp_all add: retries_capped_def one_world_def one_hook_def)
  show ?thesis
    by (intro conjI [OF c(1)] dispatch_ends [OF c(1) quiet.others_capped c(2)]) simp_all
qed

end
