(* ===== verification/Json_Inject.thy ===== *)
theory Json_Inject
  imports Json_Text
begin

text \<open>
  \<open>JSON.stringify\<close> tells its values apart: two values with the same text are equal. The text of a value is read off
  the front of a longer text, up to a character that may follow a value.
\<close>

section \<open>Strings\<close>

lemma escape_char_nonempty: "escape_char c \<noteq> []"
  by (simp add: escape_char_def Let_def)

lemma hd_escape_char: "hd (escape_char c) \<noteq> CHR 0x22"
  by (auto simp: escape_char_def Let_def)

text \<open>The first character of an escaped text, read back.\<close>

definition hex_value :: "char \<Rightarrow> nat" where
  "hex_value c = (let n = of_char c in if n < 58 then n - 48 else n - 87)"

fun unescape :: "string \<Rightarrow> char \<times> string" where
  "unescape (c # x # r) =
     (if c \<noteq> CHR 0x5C then (c, x # r)
      else if x = CHR ''u'' then (char_of (16 * hex_value (r ! 2) + hex_value (r ! 3)), drop 4 r)
      else if x = CHR ''b'' then (char_of (8 :: nat), r)
      else if x = CHR ''t'' then (char_of (9 :: nat), r)
      else if x = CHR ''n'' then (char_of (10 :: nat), r)
      else if x = CHR ''f'' then (char_of (12 :: nat), r)
      else if x = CHR ''r'' then (char_of (13 :: nat), r)
      else (x, r))"
| "unescape [c] = (c, [])"
| "unescape [] = (CHR 0x00, [])"

lemma hex_value_digit: "n < 16 \<Longrightarrow> hex_value (hex_digit n) = n"
  by (simp add: hex_value_def hex_digit_def Let_def)

lemma unescape_plain: "c \<noteq> CHR 0x5C \<Longrightarrow> unescape (c # r) = (c, r)"
  by (cases r) simp_all

lemma unescape_escape: "unescape (escape_char c @ r) = (c, r)"
  by (auto simp: escape_char_def Let_def hex_value_digit unescape_plain char_of_eq_iff)

lemma escape_char_prefix: "escape_char c @ r = escape_char d @ r' \<Longrightarrow> c = d \<and> r = r'"
  by (metis prod.inject unescape_escape)

lemma quoted_prefix:
  "concat (map escape_char s) @ CHR 0x22 # r = concat (map escape_char t) @ CHR 0x22 # r' \<Longrightarrow> s = t \<and> r = r'"
proof (induction s arbitrary: t)
  case Nil
  then show ?case
    using hd_escape_char by (cases t) (auto simp: Cons_eq_append_conv escape_char_nonempty, metis list.sel(1))
next
  case (Cons c s)
  show ?case
  proof (cases t)
    case Nil
    then show ?thesis
      using Cons.prems hd_escape_char [of c] by (auto simp: append_eq_Cons_conv escape_char_nonempty)
  next
    case (Cons d u)
    then show ?thesis
      using Cons.prems escape_char_prefix [of c _ d] Cons.IH [of u] by auto
  qed
qed

lemma quote_text_prefix: "quote_text s @ r = quote_text t @ r' \<Longrightarrow> s = t \<and> r = r'"
  using quoted_prefix [of s r t r'] by (simp add: quote_text_def)

section \<open>Numbers\<close>

lemma nat_string_digits: "list_all is_digit (nat_string n) \<and> nat_string n \<noteq> []"
proof (induction n rule: nat_string.induct)
  case (1 n)
  have "is_digit (char_of (48 + k))" if "k < 10" for k :: nat
    using that by (simp add: is_digit_def less_eq_char_def)
  then show ?case
    using 1 by (subst (1 2) nat_string.simps) auto
qed

definition digits_to_nat :: "string \<Rightarrow> nat" where
  "digits_to_nat s = foldl (\<lambda>n c. 10 * n + (of_char c - 48)) 0 s"

lemma digits_to_nat_string: "digits_to_nat (nat_string n) = n"
proof (induction n rule: nat_string.induct)
  case (1 n)
  then show ?case
    by (subst nat_string.simps) (simp add: digits_to_nat_def)
qed

text \<open>What may follow the text of a value.\<close>

definition may_follow :: "string \<Rightarrow> bool" where
  "may_follow r \<longleftrightarrow> r = [] \<or> hd r \<in> {CHR '','', CHR '']'', CHR ''}''}"

lemma takeWhile_digits:
  assumes "list_all is_digit s" "may_follow r"
  shows "takeWhile is_digit (s @ r) = s"
proof -
  have "takeWhile is_digit r = []"
    using assms(2) by (cases r) (auto simp: may_follow_def is_digit_def less_eq_char_def)
  then show ?thesis
    using assms(1) by (simp add: takeWhile_append2 list_all_iff)
qed

lemma nat_string_prefix:
  assumes "nat_string m @ r = nat_string n @ r'" "may_follow r" "may_follow r'"
  shows "m = n \<and> r = r'"
proof -
  have "nat_string m = nat_string n"
    using assms takeWhile_digits nat_string_digits by metis
  then show ?thesis
    using assms(1) digits_to_nat_string by (metis same_append_eq)
qed

lemma hd_nat_string: "is_digit (hd (nat_string n))"
  using nat_string_digits [of n] by (cases "nat_string n") auto

lemma int_text_prefix:
  assumes "int_text m @ r = int_text n @ r'" "may_follow r" "may_follow r'"
  shows "m = n \<and> r = r'"
proof -
  have minus: "nat_string k @ x \<noteq> CHR ''-'' # y" for k x y
    using nat_string_digits [of k] by (cases "nat_string k") (auto simp: is_digit_def less_eq_char_def)
  consider "m < 0" "n < 0" | "0 \<le> m" "0 \<le> n" | "m < 0" "0 \<le> n" | "0 \<le> m" "n < 0"
    by linarith
  then show ?thesis
  proof cases
    case 1
    then show ?thesis
      using assms nat_string_prefix [of "nat (- m)" r "nat (- n)" r'] by (auto simp: int_text_def nat_eq_iff)
  next
    case 2
    then show ?thesis
      using assms nat_string_prefix [of "nat m" r "nat n" r'] by (auto simp: int_text_def)
  next
    case 3
    then show ?thesis
      using assms(1) minus [of "nat n" r' "nat_string (nat (- m)) @ r"] by (simp add: int_text_def)
  next
    case 4
    then show ?thesis
      using assms(1) minus [of "nat m" r "nat_string (nat (- n)) @ r'"] by (simp add: int_text_def)
  qed
qed

section \<open>Values\<close>

lemma join_comma_Cons:
  "join_comma (t # ts) @ e # r = t @ (if ts = [] then e # r else CHR '','' # join_comma ts @ e # r)"
  by (cases ts) simp_all

lemma join_prefix:
  assumes f: "\<And>x y r r'. x \<in> set xs \<Longrightarrow> f x @ r = f y @ r' \<Longrightarrow> may_follow r \<Longrightarrow> may_follow r' \<Longrightarrow> x = y \<and> r = r'"
    and start: "\<And>x. f x \<noteq> [] \<and> hd (f x) \<noteq> e" and e: "e \<in> {CHR '']'', CHR ''}''}"
  shows "join_comma (map f xs) @ e # r = join_comma (map f ys) @ e # r' \<Longrightarrow> xs = ys \<and> r = r'"
  using f
proof (induction xs arbitrary: ys)
  case Nil
  then show ?case
    using start by (cases ys) (auto simp: join_comma_Cons Cons_eq_append_conv simp del: join_comma.simps(2,3), metis list.sel(1))
next
  case (Cons x xs)
  show ?case
  proof (cases ys)
    case Nil
    then show ?thesis
      using Cons.prems(1) start [of x] by (auto simp: join_comma_Cons append_eq_Cons_conv simp del: join_comma.simps(2,3))
  next
    case ys: (Cons y zs)
    let ?rest = "\<lambda>us r. if us = [] then e # r else CHR '','' # join_comma (map f us) @ e # r"
    have "f x @ ?rest xs r = f y @ ?rest zs r'"
      using Cons.prems(1) unfolding ys list.map join_comma_Cons by (simp add: map_is_Nil_conv)
    moreover have "may_follow (?rest us q)" for us q
      using e by (auto simp: may_follow_def)
    ultimately have "x = y" and rest: "?rest xs r = ?rest zs r'"
      using Cons.prems(2) [of x "?rest xs r" y "?rest zs r'"] by auto
    moreover have "xs = zs \<and> r = r'"
    proof (cases "xs = [] \<or> zs = []")
      case True
      then show ?thesis
        using rest e by (cases "xs = []"; cases "zs = []") auto
    next
      case False
      then have "join_comma (map f xs) @ e # r = join_comma (map f zs) @ e # r'"
        using rest by simp
      then show ?thesis
        by (rule Cons.IH) (use Cons.prems(2) in auto)
    qed
    ultimately show ?thesis
      using ys by simp
  qed
qed

text \<open>The first character of a text tells the kind of the value.\<close>

lemma int_text_start: "\<exists>c t. int_text n = c # t \<and> (c = CHR ''-'' \<or> is_digit c)"
  using nat_string_digits [of "nat n"] by (cases "nat_string (nat n)") (auto simp: int_text_def)

lemma not_digits: "\<not> is_digit (CHR ''n'')" "\<not> is_digit (CHR ''t'')" "\<not> is_digit (CHR ''f'')" "\<not> is_digit (CHR 0x22)"
  "\<not> is_digit (CHR ''['')" "\<not> is_digit (CHR ''{'')" "\<not> is_digit (CHR '']'')" "\<not> is_digit (CHR ''}'')"
  by (simp_all add: is_digit_def less_eq_char_def)

fun kind_char :: "json \<Rightarrow> char \<Rightarrow> bool" where
  "kind_char JNull c = (c = CHR ''n'')"
| "kind_char (JBool b) c = (c = (if b then CHR ''t'' else CHR ''f''))"
| "kind_char (JNum n) c = (c = CHR ''-'' \<or> is_digit c)"
| "kind_char (JStr s) c = (c = CHR 0x22)"
| "kind_char (JArr xs) c = (c = CHR ''['')"
| "kind_char (JObj fs) c = (c = CHR ''{'')"

lemma kind_char_text: "\<exists>c t. json_text x = c # t \<and> kind_char x c"
  using int_text_start by (cases x) (auto simp: quote_text_def)

lemma json_text_start: "json_text x \<noteq> [] \<and> hd (json_text x) \<noteq> CHR '']'' \<and> hd (json_text x) \<noteq> CHR ''}''"
proof -
  obtain c t where "json_text x = c # t" "kind_char x c"
    using kind_char_text by blast
  then show ?thesis
    using not_digits by (cases x) auto
qed

lemma json_text_prefix:
  "json_text x @ r = json_text y @ r' \<Longrightarrow> may_follow r \<Longrightarrow> may_follow r' \<Longrightarrow> x = y \<and> r = r'"
proof (induction x arbitrary: y r r')
  case JNull
  then show ?case
    using kind_char_text [of y] not_digits by (cases y) (auto split: if_splits)
next
  case (JBool b)
  then show ?case
    using kind_char_text [of y] not_digits by (cases y; cases b) (auto split: if_splits)
next
  case (JNum n)
  then show ?case
    using kind_char_text [of "JNum n"] kind_char_text [of y] not_digits int_text_prefix [of n r _ r'] by (cases y) (auto split: if_splits)
next
  case (JStr s)
  then show ?case
    using kind_char_text [of y] not_digits quote_text_prefix [of s r _ r'] by (cases y) (auto simp: quote_text_def split: if_splits)
next
  case (JArr xs)
  obtain ys where y: "y = JArr ys"
    using JArr.prems(1) kind_char_text [of y] not_digits by (cases y) (auto split: if_splits)
  have "xs = ys \<and> r = r'"
    by (rule join_prefix [where f = json_text and e = "CHR '']''"]) (use JArr y json_text_start in auto)
  with y show ?case
    by simp
next
  case (JObj fs)
  obtain gs where y: "y = JObj gs"
    using JObj.prems(1) kind_char_text [of y] not_digits by (cases y) (auto split: if_splits)
  let ?f = "\<lambda>(k, v). quote_text k @ CHR '':'' # json_text v"
  have field: "p = q \<and> u = u'" if p: "p \<in> set fs" "?f p @ u = ?f q @ u'" "may_follow u" "may_follow u'" for p q u u'
  proof -
    obtain k v l w where pq: "p = (k, v)" "q = (l, w)"
      by fastforce
    then have "k = l \<and> json_text v @ u = json_text w @ u'"
      using p(2) quote_text_prefix [of k _ l] by auto
    then show ?thesis
      using JObj.IH [OF p(1), of v] p(3,4) pq by auto
  qed
  have "fs = gs \<and> r = r'"
    by (rule join_prefix [where f = ?f and e = "CHR ''}''"]) (use JObj.prems(1) y field in \<open>auto simp: quote_text_def\<close>)
  with y show ?case
    by simp
qed

lemma json_text_inject: "json_text x = json_text y \<longleftrightarrow> x = y"
  using json_text_prefix [of x "[]" y "[]"] by (auto simp: may_follow_def)

end
