(* ===== verification/Send_Idempotency.thy ===== *)
theory Send_Idempotency
  imports Pacing_State Json_Inject
begin

text \<open>
  The opt-in \<open>Idempotency-Key\<close> of the send routes: \<^verbatim>\<open>src/src/modules/message/idempotency/send-idempotency.service.ts\<close>
  (the table of claimed keys) and \<^verbatim>\<open>send-idempotency.interceptor.ts\<close> (the claim around a send, and what is left of it).
  The code awaits between its statements, so a request is cut there: each piece is one statement with the synchronous
  code around it, and \<open>idem_step\<close> interleaves the pieces of any number of requests, on any number of nodes over one
  database with one clock, with prunes, failing statements and replies that are lost.
\<close>

section \<open>Keys and fingerprints\<close>

definition SEND_IDEMPOTENCY_TTL_MS :: int where
  "SEND_IDEMPOTENCY_TTL_MS = 24 * 60 * 60 * 1000"

definition SEND_IDEMPOTENCY_STALE_PENDING_MS :: int where
  "SEND_IDEMPOTENCY_STALE_PENDING_MS = 10 * 60 * 1000"

text \<open>\<open>/^[\x21-\x7E]{1,255}$/\<close>\<close>

definition isValidIdempotencyKey :: "string \<Rightarrow> bool" where
  "isValidIdempotencyKey key \<longleftrightarrow>
     1 \<le> length key \<and> length key \<le> 255 \<and> list_all (\<lambda>c. (of_char c :: nat) \<in> {33..126}) key"

fun canonicalJson :: "json \<Rightarrow> string" where
  "canonicalJson (JArr xs) = CHR ''['' # join_comma (map canonicalJson xs) @ '']''"
| "canonicalJson (JObj fs) =
     CHR ''{'' # join_comma (map (\<lambda>(k, t). quote_text k @ CHR '':'' # t)
       (sort_key fst (map (\<lambda>(k, v). (k, canonicalJson v)) fs))) @ ''}''"
| "canonicalJson v = json_text v"

text \<open>The digest is an argument. A missing body is hashed as null.\<close>

definition fingerprint_text :: "string \<Rightarrow> json option \<Rightarrow> string" where
  "fingerprint_text route body = route @ CHR 0x0A # canonicalJson (case body of None \<Rightarrow> JNull | Some b \<Rightarrow> b)"

definition hashSendRequest :: "(string \<Rightarrow> string) \<Rightarrow> string \<Rightarrow> json option \<Rightarrow> string" where
  "hashSendRequest sha256 route body = sha256 (fingerprint_text route body)"

section \<open>The table\<close>

datatype key_state = KeyPending | KeyCompleted | KeyFailed

record key_row =
  key_id :: string
  key_session :: string
  key_text :: string
  key_route :: string
  key_hash :: string
  key_state :: key_state
  key_body :: "json option"
  key_expires :: int

record claim_input =
  ci_session :: string
  ci_key :: string
  ci_route :: string
  ci_hash :: string

datatype claim_answer = ClaimReplay json | ClaimMismatch | ClaimInProgress | ClaimOutcomeUnknown

definition holds_key :: "claim_input \<Rightarrow> key_row \<Rightarrow> bool" where
  "holds_key c r \<longleftrightarrow> key_session r = ci_session c \<and> key_text r = ci_key c"

text \<open>The insert of a claim, refused by the unique index on session and key.\<close>

definition insert_key :: "string \<Rightarrow> int \<Rightarrow> claim_input \<Rightarrow> key_row list \<Rightarrow> key_row list option" where
  "insert_key i now c rs =
     (if list_ex (holds_key c) rs then None
      else Some (rs @ [\<lparr>key_id = i, key_session = ci_session c, key_text = ci_key c, key_route = ci_route c,
             key_hash = ci_hash c, key_state = KeyPending, key_body = None,
             key_expires = now + SEND_IDEMPOTENCY_TTL_MS\<rparr>]))"

definition classify :: "key_row \<Rightarrow> string \<Rightarrow> int \<Rightarrow> claim_answer" where
  "classify r requestHash now =
     (if key_hash r \<noteq> requestHash then ClaimMismatch
      else if key_state r = KeyCompleted then ClaimReplay (case key_body r of None \<Rightarrow> JNull | Some b \<Rightarrow> b)
      else if key_state r = KeyFailed then ClaimOutcomeUnknown
      else if now - (key_expires r - SEND_IDEMPOTENCY_TTL_MS) > SEND_IDEMPOTENCY_STALE_PENDING_MS
           then ClaimOutcomeUnknown else ClaimInProgress)"

text \<open>What the read after a refused insert decides: another round, removing an expired row first, or an answer.\<close>

datatype claim_next = AnotherRound | RemoveExpired string | AnswerWith claim_answer

definition after_read :: "key_row option \<Rightarrow> string \<Rightarrow> int \<Rightarrow> claim_next" where
  "after_read existing requestHash now =
     (case existing of
        None \<Rightarrow> AnotherRound
      | Some r \<Rightarrow> if key_expires r \<le> now then RemoveExpired (key_id r) else AnswerWith (classify r requestHash now))"

definition remove_expired :: "string \<Rightarrow> int \<Rightarrow> key_row list \<Rightarrow> key_row list" where
  "remove_expired i now rs = filter (\<lambda>r. \<not> (key_id r = i \<and> key_expires r < now)) rs"

definition complete_key :: "string \<Rightarrow> json option \<Rightarrow> key_row list \<Rightarrow> key_row list" where
  "complete_key i body rs =
     map (\<lambda>r. if key_id r = i then r\<lparr>key_state := KeyCompleted, key_body := Some (case body of None \<Rightarrow> JNull | Some b \<Rightarrow> b)\<rparr> else r) rs"

definition release_key :: "string \<Rightarrow> key_row list \<Rightarrow> key_row list" where
  "release_key i rs = filter (\<lambda>r. \<not> (key_id r = i \<and> key_state r = KeyPending)) rs"

definition markFailed :: "string \<Rightarrow> key_row list \<Rightarrow> key_row list" where
  "markFailed i rs = map (\<lambda>r. if key_id r = i then r\<lparr>key_state := KeyFailed\<rparr> else r) rs"

definition pruneExpired :: "int \<Rightarrow> key_row list \<Rightarrow> key_row list" where
  "pruneExpired now rs = filter (\<lambda>r. \<not> key_expires r < now) rs"

section \<open>The interceptor\<close>

text \<open>The \<open>Idempotency-Key\<close> header as Node hands it over: missing, one value, or several.\<close>

datatype key_header = NoKey | OneKey string | SeveralKeys

text \<open>A request is let through without a claim, refused as 400, or claims its key.\<close>

datatype intercept_start = Unclaimed | KeyInvalid | Claims claim_input

definition CLAIMABLE_SESSION_ID_MAX_LENGTH :: nat where
  "CLAIMABLE_SESSION_ID_MAX_LENGTH = 255"

definition intercept :: "(string \<Rightarrow> string) \<Rightarrow> bool \<Rightarrow> key_header \<Rightarrow> string option \<Rightarrow> string \<Rightarrow> json option \<Rightarrow> intercept_start" where
  "intercept sha256 http header param route body =
     (if \<not> http then Unclaimed
      else case header of
        NoKey \<Rightarrow> Unclaimed
      | SeveralKeys \<Rightarrow> KeyInvalid
      | OneKey key \<Rightarrow>
          if \<not> isValidIdempotencyKey key then KeyInvalid
          else let sessionId = (case param of None \<Rightarrow> [] | Some s \<Rightarrow> s)
               in if CLAIMABLE_SESSION_ID_MAX_LENGTH < length sessionId then Unclaimed
                  else Claims \<lparr>ci_session = sessionId, ci_key = key, ci_route = route, ci_hash = hashSendRequest sha256 route body\<rparr>)"

text \<open>An error that escapes the handler, with the mark of the engine-send boundary.\<close>

record handler_error = send_error +
  engineSendFailure :: bool

definition isEngineSendFailure :: "handler_error \<Rightarrow> bool" where
  "isEngineSendFailure e \<longleftrightarrow> err_class e \<noteq> NotAnObject \<and> engineSendFailure e"

definition sendFailureProvesNothingSent :: "handler_error \<Rightarrow> bool" where
  "sendFailureProvesNothingSent e =
     (if provesNothingSent (send_error.truncate e) \<or> err_class e = EngineThrottledError then True
      else if isEngineSendFailure e \<or> http_status (err_class e) = None then False
      else case http_status (err_class e) of Some st \<Rightarrow> st < 500 \<or> st = 501 | None \<Rightarrow> False)"

datatype settle_outcome = SettleComplete "json option" | SettleRelease | SettleFail

definition runClaimed :: "handler_error + json option \<Rightarrow> settle_outcome" where
  "runClaimed result =
     (case result of
        Inr body \<Rightarrow> SettleComplete body
      | Inl e \<Rightarrow> if sendFailureProvesNothingSent e then SettleRelease else SettleFail)"

fun settle_key :: "string \<Rightarrow> settle_outcome \<Rightarrow> key_row list \<Rightarrow> key_row list" where
  "settle_key i (SettleComplete body) rs = complete_key i body rs"
| "settle_key i SettleRelease rs = release_key i rs"
| "settle_key i SettleFail rs = markFailed i rs"

text \<open>What a client with a claim that was not won is told: the stored body, or a status and a code.\<close>

fun claim_response :: "claim_answer \<Rightarrow> (nat \<times> string) + json" where
  "claim_response (ClaimReplay body) = Inr body"
| "claim_response ClaimMismatch = Inl (422, ''IDEMPOTENCY_KEY_REUSED'')"
| "claim_response ClaimInProgress = Inl (409, ''IDEMPOTENCY_KEY_IN_PROGRESS'')"
| "claim_response ClaimOutcomeUnknown = Inl (409, ''IDEMPOTENCY_OUTCOME_UNKNOWN'')"

section \<open>Requests among each other\<close>

text \<open>
  Where a request is: about to insert, to read or to remove an expired row in the given round, whose \<open>now\<close> was read at
  its start; running the send under the claimed row; recording how it ended; or done.
\<close>

datatype phase =
    Arriving
  | Inserting nat int claim_input
  | Reading nat int claim_input
  | Removing nat int string claim_input
  | Running string claim_input
  | Settling string settle_outcome
  | Told claim_input claim_answer
  | Over

text \<open>The sends that were started, in the order of their claims, and how each ended.\<close>

record send_run =
  run_call :: nat
  run_id :: string
  run_input :: claim_input
  run_now :: int
  run_taken :: int
  run_end :: "settle_outcome option"

record idem_world =
  id_keys :: "key_row list"
  id_phase :: "nat \<Rightarrow> phase"
  id_runs :: "send_run list"
  id_issued :: "string list"
  id_clock :: int

definition next_round :: "int \<Rightarrow> nat \<Rightarrow> claim_input \<Rightarrow> phase" where
  "next_round now r c = (if Suc r < 2 then Inserting (Suc r) now c else Told c ClaimInProgress)"

definition claim_starts :: "nat \<Rightarrow> claim_input \<Rightarrow> idem_world \<Rightarrow> idem_world" where
  "claim_starts n c w = w\<lparr>id_phase := (id_phase w)(n := Inserting 0 (id_clock w) c)\<rparr>"

definition claim_inserts :: "nat \<Rightarrow> string \<Rightarrow> nat \<Rightarrow> int \<Rightarrow> claim_input \<Rightarrow> idem_world \<Rightarrow> idem_world" where
  "claim_inserts n i r now c w =
     (case insert_key i now c (id_keys w) of
        None \<Rightarrow> w\<lparr>id_phase := (id_phase w)(n := Reading r now c)\<rparr>
      | Some rs \<Rightarrow> w\<lparr>id_keys := rs, id_issued := i # id_issued w, id_phase := (id_phase w)(n := Running i c),
          id_runs := id_runs w @ [\<lparr>run_call = n, run_id = i, run_input = c, run_now = now, run_taken = id_clock w, run_end = None\<rparr>]\<rparr>)"

text \<open>The reply of a committed insert may be lost: the claim throws, and no send is started.\<close>

definition claim_insert_lost :: "nat \<Rightarrow> string \<Rightarrow> int \<Rightarrow> claim_input \<Rightarrow> idem_world \<Rightarrow> idem_world" where
  "claim_insert_lost n i now c w =
     w\<lparr>id_keys := (case insert_key i now c (id_keys w) of None \<Rightarrow> id_keys w | Some rs \<Rightarrow> rs), id_issued := i # id_issued w,
        id_phase := (id_phase w)(n := Over)\<rparr>"

definition claim_reads :: "nat \<Rightarrow> nat \<Rightarrow> int \<Rightarrow> claim_input \<Rightarrow> idem_world \<Rightarrow> idem_world" where
  "claim_reads n r now c w =
     w\<lparr>id_phase := (id_phase w)(n :=
        (case after_read (find (holds_key c) (id_keys w)) (ci_hash c) now of
           AnotherRound \<Rightarrow> next_round (id_clock w) r c
         | RemoveExpired i \<Rightarrow> Removing r now i c
         | AnswerWith a \<Rightarrow> Told c a))\<rparr>"

definition claim_removes :: "nat \<Rightarrow> nat \<Rightarrow> int \<Rightarrow> string \<Rightarrow> claim_input \<Rightarrow> idem_world \<Rightarrow> idem_world" where
  "claim_removes n r now i c w =
     w\<lparr>id_keys := remove_expired i now (id_keys w), id_phase := (id_phase w)(n := next_round (id_clock w) r c)\<rparr>"

definition ended :: "string \<Rightarrow> settle_outcome \<Rightarrow> send_run \<Rightarrow> send_run" where
  "ended i oc r = (if run_id r = i then r\<lparr>run_end := Some oc\<rparr> else r)"

definition send_ends :: "nat \<Rightarrow> string \<Rightarrow> handler_error + json option \<Rightarrow> idem_world \<Rightarrow> idem_world" where
  "send_ends n i result w =
     w\<lparr>id_runs := map (ended i (runClaimed result)) (id_runs w),
        id_phase := (id_phase w)(n := Settling i (runClaimed result))\<rparr>"

definition settle_lands :: "nat \<Rightarrow> string \<Rightarrow> settle_outcome \<Rightarrow> idem_world \<Rightarrow> idem_world" where
  "settle_lands n i oc w = w\<lparr>id_keys := settle_key i oc (id_keys w), id_phase := (id_phase w)(n := Over)\<rparr>"

inductive idem_step :: "idem_world \<Rightarrow> idem_world \<Rightarrow> bool" where
  time: "id_clock w \<le> t \<Longrightarrow> idem_step w (w\<lparr>id_clock := t\<rparr>)"
| request: "id_phase w n = Arriving \<Longrightarrow> idem_step w (claim_starts n c w)"
| inserts: "id_phase w n = Inserting r now c \<Longrightarrow> i \<notin> set (id_issued w) \<Longrightarrow> idem_step w (claim_inserts n i r now c w)"
| insert_lost: "id_phase w n = Inserting r now c \<Longrightarrow> i \<notin> set (id_issued w) \<Longrightarrow> idem_step w (claim_insert_lost n i now c w)"
| reads: "id_phase w n = Reading r now c \<Longrightarrow> idem_step w (claim_reads n r now c w)"
| removes: "id_phase w n = Removing r now i c \<Longrightarrow> idem_step w (claim_removes n r now i c w)"
| claim_fails: "id_phase w n \<in> {Inserting r now c, Reading r now c, Removing r now i c} \<Longrightarrow>
    idem_step w (w\<lparr>id_phase := (id_phase w)(n := Over)\<rparr>)"
| ends: "id_phase w n = Running i c \<Longrightarrow> idem_step w (send_ends n i result w)"
| settles: "id_phase w n = Settling i oc \<Longrightarrow> idem_step w (settle_lands n i oc w)"
| settle_fails: "id_phase w n = Settling i oc \<Longrightarrow> idem_step w (w\<lparr>id_phase := (id_phase w)(n := Over)\<rparr>)"
| prunes: "now \<le> id_clock w \<Longrightarrow> idem_step w (w\<lparr>id_keys := pruneExpired now (id_keys w)\<rparr>)"

inductive idem_reach :: "idem_world \<Rightarrow> bool" where
  start: "id_keys w = [] \<Longrightarrow> id_runs w = [] \<Longrightarrow> (\<And>n. id_phase w n = Arriving) \<Longrightarrow> idem_reach w"
| step: "idem_reach w \<Longrightarrow> idem_step w w' \<Longrightarrow> idem_reach w'"

section \<open>What is kept\<close>

text \<open>Ids are issued once, and a session's key has one row.\<close>

definition ids_once :: "idem_world \<Rightarrow> bool" where
  "ids_once w \<longleftrightarrow> distinct (map run_id (id_runs w)) \<and> set (map run_id (id_runs w)) \<subseteq> set (id_issued w)
     \<and> set (map key_id (id_keys w)) \<subseteq> set (id_issued w)"

definition released :: "send_run \<Rightarrow> bool" where
  "released r \<longleftrightarrow> run_end r = Some SettleRelease"

definition holds_run :: "send_run \<Rightarrow> key_row \<Rightarrow> bool" where
  "holds_run r k \<longleftrightarrow> key_id k = run_id r \<and> holds_key (run_input r) k \<and> key_expires k = run_now r + SEND_IDEMPOTENCY_TTL_MS"

text \<open>A send that may have reached WhatsApp keeps its row until its window is over.\<close>

definition runs_held :: "idem_world \<Rightarrow> bool" where
  "runs_held w \<longleftrightarrow> (\<forall>r \<in> set (id_runs w). released r \<or> list_ex (holds_run r) (id_keys w)
     \<or> run_now r + SEND_IDEMPOTENCY_TTL_MS < id_clock w)"

definition same_key :: "send_run \<Rightarrow> send_run \<Rightarrow> bool" where
  "same_key r r' \<longleftrightarrow> ci_session (run_input r) = ci_session (run_input r') \<and> ci_key (run_input r) = ci_key (run_input r')"

definition apart :: "send_run \<Rightarrow> send_run \<Rightarrow> bool" where
  "apart r r' \<longleftrightarrow> (same_key r r' \<longrightarrow> released r \<or> run_now r + SEND_IDEMPOTENCY_TTL_MS < run_taken r')"

fun phase_ok :: "idem_world \<Rightarrow> nat \<Rightarrow> phase \<Rightarrow> bool" where
  "phase_ok w n (Inserting r now c) = (now \<le> id_clock w)"
| "phase_ok w n (Reading r now c) = (now \<le> id_clock w)"
| "phase_ok w n (Removing r now i c) = (now \<le> id_clock w)"
| "phase_ok w n (Running i c) = (\<exists>r \<in> set (id_runs w). run_id r = i \<and> run_call r = n \<and> run_end r = None)"
| "phase_ok w n (Settling i oc) = (\<exists>r \<in> set (id_runs w). run_id r = i \<and> run_call r = n \<and> run_end r = Some oc)"
| "phase_ok w n _ = True"

definition phases_ok :: "idem_world \<Rightarrow> bool" where
  "phases_ok w \<longleftrightarrow> (\<forall>n. phase_ok w n (id_phase w n))"

definition ledger :: "idem_world \<Rightarrow> bool" where
  "ledger w \<longleftrightarrow> ids_once w \<and> phases_ok w \<and> runs_held w \<and> sorted_wrt apart (id_runs w)"

lemma phase_ok_frame [simp]:
  "phase_ok (w\<lparr>id_phase := f\<rparr>) = phase_ok w" "phase_ok (w\<lparr>id_keys := ks\<rparr>) = phase_ok w"
  "phase_ok (w\<lparr>id_issued := is\<rparr>) = phase_ok w"
  by (intro ext, rename_tac n p, case_tac p; simp)+

lemma phases_okI: "phases_ok w \<Longrightarrow> phase_ok w n p \<Longrightarrow> phases_ok (w\<lparr>id_phase := (id_phase w)(n := p)\<rparr>)"
  by (simp add: phases_ok_def)

lemma ledger_phase: "ledger w \<Longrightarrow> phase_ok w n p \<Longrightarrow> ledger (w\<lparr>id_phase := (id_phase w)(n := p)\<rparr>)"
  by (simp add: ledger_def phases_okI ids_once_def runs_held_def)

text \<open>The table loses only rows whose window is over or whose send was released.\<close>

lemma ledger_keys:
  assumes "ledger w" and "set (map key_id ks) \<subseteq> set (map key_id (id_keys w))"
    and "\<And>r. r \<in> set (id_runs w) \<Longrightarrow> list_ex (holds_run r) (id_keys w) \<Longrightarrow>
      list_ex (holds_run r) ks \<or> released r \<or> run_now r + SEND_IDEMPOTENCY_TTL_MS < id_clock w"
  shows "ledger (w\<lparr>id_keys := ks\<rparr>)"
proof -
  have "ids_once (w\<lparr>id_keys := ks\<rparr>)"
    using assms(1) order_trans [OF assms(2)] by (simp add: ledger_def ids_once_def)
  moreover have "phases_ok (w\<lparr>id_keys := ks\<rparr>)"
    using assms(1) by (simp add: ledger_def phases_ok_def)
  moreover have "runs_held (w\<lparr>id_keys := ks\<rparr>)"
    using assms(1,3) by (auto simp: ledger_def runs_held_def)
  ultimately show ?thesis
    using assms(1) by (simp add: ledger_def)
qed

lemma holds_filter:
  assumes "list_ex (holds_run r) ks" and "\<And>k. k \<in> set ks \<Longrightarrow> holds_run r k \<Longrightarrow> \<not> P k \<Longrightarrow> Q"
  shows "list_ex (holds_run r) (filter P ks) \<or> Q"
  using assms by (auto simp: list_ex_iff)

lemma holds_map:
  assumes "list_ex (holds_run r) ks"
    and "\<And>k. key_id (f k) = key_id k \<and> key_session (f k) = key_session k \<and> key_text (f k) = key_text k \<and> key_expires (f k) = key_expires k"
  shows "list_ex (holds_run r) (map f ks)"
  using assms by (auto simp: list_ex_iff holds_run_def holds_key_def)

lemma ledger_prune:
  assumes "ledger w" "now \<le> id_clock w"
  shows "ledger (w\<lparr>id_keys := pruneExpired now (id_keys w)\<rparr>)"
proof (rule ledger_keys [OF assms(1)])
  fix r assume h: "list_ex (holds_run r) (id_keys w)"
  have "list_ex (holds_run r) (pruneExpired now (id_keys w)) \<or> run_now r + SEND_IDEMPOTENCY_TTL_MS < id_clock w"
    unfolding pruneExpired_def by (rule holds_filter [OF h]) (use assms(2) in \<open>simp add: holds_run_def\<close>)
  then show "list_ex (holds_run r) (pruneExpired now (id_keys w)) \<or> released r \<or> run_now r + SEND_IDEMPOTENCY_TTL_MS < id_clock w"
    by blast
qed (auto simp: pruneExpired_def)

lemma ledger_removes:
  assumes "ledger w" "now \<le> id_clock w"
  shows "ledger (w\<lparr>id_keys := remove_expired i now (id_keys w)\<rparr>)"
proof (rule ledger_keys [OF assms(1)])
  fix r assume h: "list_ex (holds_run r) (id_keys w)"
  have "list_ex (holds_run r) (remove_expired i now (id_keys w)) \<or> run_now r + SEND_IDEMPOTENCY_TTL_MS < id_clock w"
    unfolding remove_expired_def by (rule holds_filter [OF h]) (use assms(2) in \<open>simp add: holds_run_def\<close>)
  then show "list_ex (holds_run r) (remove_expired i now (id_keys w)) \<or> released r \<or> run_now r + SEND_IDEMPOTENCY_TTL_MS < id_clock w"
    by blast
qed (auto simp: remove_expired_def)

lemma run_of_id: "ids_once w \<Longrightarrow> r \<in> set (id_runs w) \<Longrightarrow> r' \<in> set (id_runs w) \<Longrightarrow> run_id r = run_id r' \<Longrightarrow> r = r'"
  unfolding ids_once_def by (metis inj_on_contraD distinct_map)

lemma ledger_settles:
  assumes "ledger w" and "id_phase w n = Settling i oc"
  shows "ledger (w\<lparr>id_keys := settle_key i oc (id_keys w)\<rparr>)"
proof -
  have ok: "phase_ok w n (Settling i oc)"
    using assms by (metis ledger_def phases_ok_def)
  have ids: "ids_once w"
    using assms(1) by (simp add: ledger_def)
  show ?thesis
  proof (cases oc)
    case (SettleComplete b)
    then show ?thesis
      using assms(1) by (auto simp: complete_key_def intro!: ledger_keys disjI1 holds_map)
  next
    case SettleRelease
    have "list_ex (holds_run r) (release_key i (id_keys w)) \<or> released r"
      if r: "r \<in> set (id_runs w)" and h: "list_ex (holds_run r) (id_keys w)" for r
      unfolding release_key_def
    proof (rule holds_filter [OF h])
      fix k assume "holds_run r k" and "\<not> \<not> (key_id k = i \<and> key_state k = KeyPending)"
      then have "run_id r = i"
        by (simp add: holds_run_def)
      moreover obtain r' where "r' \<in> set (id_runs w)" "run_id r' = i" "run_end r' = Some SettleRelease"
        using ok SettleRelease by auto
      ultimately show "released r"
        using run_of_id [OF ids r] by (force simp: released_def)
    qed
    then show ?thesis
      using assms(1) SettleRelease by (auto intro!: ledger_keys simp: release_key_def)
  next
    case SettleFail
    then show ?thesis
      using assms(1) by (auto simp: markFailed_def intro!: ledger_keys disjI1 holds_map)
  qed
qed

lemma ledger_time:
  assumes "ledger w" "id_clock w \<le> t"
  shows "ledger (w\<lparr>id_clock := t\<rparr>)"
proof -
  have "phase_ok w n p \<Longrightarrow> phase_ok (w\<lparr>id_clock := t\<rparr>) n p" for n p
    using assms(2) by (cases p) auto
  then show ?thesis
    using assms by (fastforce simp: ledger_def ids_once_def phases_ok_def runs_held_def)
qed

lemma ended_simps [simp]:
  "run_id (ended i oc r) = run_id r" "run_call (ended i oc r) = run_call r" "run_input (ended i oc r) = run_input r"
  "run_now (ended i oc r) = run_now r" "run_taken (ended i oc r) = run_taken r" "holds_run (ended i oc r) = holds_run r"
  "run_id \<circ> ended i oc = run_id"
  by (auto simp: ended_def holds_run_def fun_eq_iff)

lemma ledger_ends:
  assumes "ledger w" and "id_phase w n = Running i c"
  shows "ledger (send_ends n i result w)"
proof -
  let ?f = "ended i (runClaimed result)" and ?w = "w\<lparr>id_runs := map (ended i (runClaimed result)) (id_runs w)\<rparr>"
  have ids: "ids_once w" and ok: "phase_ok w n (Running i c)"
    using assms by (simp add: ledger_def, metis ledger_def phases_ok_def)
  then obtain r0 where r0: "r0 \<in> set (id_runs w)" "run_id r0 = i" "run_call r0 = n" "run_end r0 = None"
    by auto
  have only: "r = r0" if "r \<in> set (id_runs w)" "run_id r = i" for r
    using run_of_id [OF ids that(1) r0(1)] that(2) r0(2) by simp
  have rel: "released r \<Longrightarrow> released (?f r)" if "r \<in> set (id_runs w)" for r
    using only [OF that] r0(4) by (auto simp: released_def ended_def)
  have "sorted_wrt (\<lambda>x y. apart (?f x) (?f y)) (id_runs w)"
    by (rule sorted_wrt_mono_rel [where P = apart]) (use assms(1) rel in \<open>auto simp: ledger_def apart_def same_key_def\<close>)
  moreover have others: "phase_ok ?w m p" if "phase_ok w m p" "m \<noteq> n" for m p
    using that r0(3) only by (cases p) (auto simp: ended_def)
  moreover have "run_end (?f r0) = Some (runClaimed result)"
    by (simp add: ended_def r0(2))
  then have "phase_ok ?w n (Settling i (runClaimed result))"
    using r0 by auto
  moreover have "released (?f r) \<or> list_ex (holds_run r) (id_keys w) \<or> run_now r + SEND_IDEMPOTENCY_TTL_MS < id_clock w"
    if "r \<in> set (id_runs w)" for r
    using assms(1) that rel by (auto simp: ledger_def runs_held_def)
  ultimately show ?thesis
    using assms(1) by (simp add: ledger_def ids_once_def phases_ok_def runs_held_def send_ends_def sorted_wrt_map)
qed

text \<open>A committed claim: no other row holds the key, so every earlier send under it was released or is past its window.\<close>

lemma claimed_apart:
  assumes "ledger w" "\<not> list_ex (holds_key c) (id_keys w)" "r \<in> set (id_runs w)"
    "ci_session (run_input r) = ci_session c" "ci_key (run_input r) = ci_key c"
  shows "released r \<or> run_now r + SEND_IDEMPOTENCY_TTL_MS < id_clock w"
  using assms by (auto simp: ledger_def runs_held_def list_ex_iff holds_run_def holds_key_def)

lemma ledger_claims:
  assumes "ledger w" "id_phase w n = Inserting r now c" "i \<notin> set (id_issued w)"
  shows "ledger (claim_inserts n i r now c w)"
proof (cases "insert_key i now c (id_keys w)")
  case None
  moreover have "phase_ok w n (Inserting r now c)"
    using assms by (metis ledger_def phases_ok_def)
  ultimately show ?thesis
    using ledger_phase [OF assms(1), of n "Reading r now c"] by (simp add: claim_inserts_def)
next
  case (Some rs)
  let ?r = "\<lparr>run_call = n, run_id = i, run_input = c, run_now = now, run_taken = id_clock w, run_end = None\<rparr>"
  have free: "\<not> list_ex (holds_key c) (id_keys w)" and rs: "set (id_keys w) \<subseteq> set rs" "list_ex (holds_run ?r) rs"
      "set (map key_id rs) = insert i (set (map key_id (id_keys w)))"
    using Some by (auto simp: insert_key_def holds_run_def holds_key_def split: if_splits)
  have fresh: "i \<notin> run_id ` set (id_runs w)"
    using assms by (auto simp: ledger_def ids_once_def)
  have apart: "sorted_wrt apart (id_runs w @ [?r])"
    using assms(1) claimed_apart [OF assms(1) free] by (auto simp: ledger_def sorted_wrt_append apart_def same_key_def)
  have oks: "phase_ok (claim_inserts n i r now c w) m p" if "phase_ok w m p" for m p
    using that Some by (cases p) (auto simp: claim_inserts_def)
  have keep: "list_ex (holds_run x) rs" if "list_ex (holds_run x) (id_keys w)" for x
    using that rs(1) by (auto simp: list_ex_iff)
  have "phase_ok (claim_inserts n i r now c w) n (Running i c)"
    using Some by (simp add: claim_inserts_def)
  moreover have "id_phase (claim_inserts n i r now c w) = (id_phase w)(n := Running i c)"
    using Some by (simp add: claim_inserts_def)
  ultimately have "phases_ok (claim_inserts n i r now c w)"
    using assms(1) oks by (simp add: ledger_def phases_ok_def)
  moreover have "ids_once (claim_inserts n i r now c w)"
    using assms(1) rs(3) fresh Some by (auto simp: claim_inserts_def ledger_def ids_once_def)
  moreover have "runs_held (claim_inserts n i r now c w)"
    using assms(1) rs(2) keep Some by (auto simp: claim_inserts_def ledger_def runs_held_def)
  ultimately show ?thesis
    using apart Some by (simp add: ledger_def claim_inserts_def)
qed

lemma ledger_insert_lost:
  assumes "ledger w"
  shows "ledger (claim_insert_lost n i now c w)"
proof -
  define ks where "ks = (case insert_key i now c (id_keys w) of None \<Rightarrow> id_keys w | Some rs \<Rightarrow> rs)"
  have "set (id_keys w) \<subseteq> set ks" and ids: "set (map key_id ks) \<subseteq> insert i (set (map key_id (id_keys w)))"
    by (auto simp: ks_def insert_key_def)
  then have "list_ex (holds_run x) ks" if "list_ex (holds_run x) (id_keys w)" for x
    using that by (auto simp: list_ex_iff)
  then show ?thesis
    using assms ids unfolding claim_insert_lost_def ks_def [symmetric]
    by (fastforce simp: ledger_def ids_once_def phases_ok_def runs_held_def)
qed

lemma ledger_step:
  assumes "idem_step w w'" "ledger w"
  shows "ledger w'"
proof -
  have now: "phase_ok w n (id_phase w n)" for n
    using assms(2) by (simp add: ledger_def phases_ok_def)
  have round: "phase_ok w n (next_round (id_clock w) r c)" for n r c
    by (simp add: next_round_def)
  from assms(1) show ?thesis
  proof cases
    case (reads n r nw c)
    then show ?thesis
      using now [of n] round unfolding claim_reads_def
      by (auto intro!: ledger_phase assms(2) split: claim_next.split)
  next
    case (removes n r nw i c)
    moreover have "nw \<le> id_clock w"
      using now [of n] removes by simp
    ultimately show ?thesis
      using ledger_phase [OF ledger_removes [OF assms(2)]] round by (simp add: claim_removes_def)
  next
    case (settles n i oc)
    then show ?thesis
      using ledger_phase [OF ledger_settles [OF assms(2)], of n i oc n Over] by (simp add: settle_lands_def)
  qed (use assms(2) in \<open>auto simp: claim_starts_def intro: ledger_time ledger_phase ledger_claims ledger_insert_lost ledger_ends ledger_prune\<close>)
qed

lemma ledger_reach: "idem_reach w \<Longrightarrow> ledger w"
proof (induction rule: idem_reach.induct)
  case (start w)
  then show ?case
    by (simp add: ledger_def ids_once_def phases_ok_def runs_held_def)
qed (rule ledger_step)

section \<open>What a replay repeats\<close>

definition stored_body :: "json option \<Rightarrow> json" where
  "stored_body b = (case b of None \<Rightarrow> JNull | Some v \<Rightarrow> v)"

definition answered :: "send_run \<Rightarrow> json \<Rightarrow> bool" where
  "answered r v \<longleftrightarrow> (\<exists>b. run_end r = Some (SettleComplete b) \<and> v = stored_body b)"

definition row_of_run :: "send_run \<Rightarrow> key_row \<Rightarrow> bool" where
  "row_of_run r k \<longleftrightarrow> key_id k = run_id r \<and> holds_key (run_input r) k \<and> key_hash k = ci_hash (run_input r)"

text \<open>A row that bears the id of a send is its claim; a completed row has the body of a send that ended with it.\<close>

definition rows_true :: "idem_world \<Rightarrow> bool" where
  "rows_true w \<longleftrightarrow> (\<forall>k \<in> set (id_keys w). (\<forall>r \<in> set (id_runs w). key_id k = run_id r \<longrightarrow> row_of_run r k)
     \<and> (key_state k = KeyCompleted \<longrightarrow> (\<exists>r \<in> set (id_runs w). row_of_run r k \<and> (\<exists>v. key_body k = Some v \<and> answered r v))))"

definition same_request :: "claim_input \<Rightarrow> send_run \<Rightarrow> bool" where
  "same_request c r \<longleftrightarrow> ci_session (run_input r) = ci_session c \<and> ci_key (run_input r) = ci_key c \<and> ci_hash (run_input r) = ci_hash c"

definition told_true :: "idem_world \<Rightarrow> bool" where
  "told_true w \<longleftrightarrow> (\<forall>n c v. id_phase w n = Told c (ClaimReplay v) \<longrightarrow> (\<exists>r \<in> set (id_runs w). same_request c r \<and> answered r v))"

lemma told_phase:
  assumes "told_true w" "\<And>c v. p = Told c (ClaimReplay v) \<Longrightarrow> \<exists>r \<in> set (id_runs w). same_request c r \<and> answered r v"
  shows "told_true (w\<lparr>id_phase := (id_phase w)(n := p)\<rparr>)"
  using assms by (simp add: told_true_def)

lemma told_frame [simp]:
  "told_true (w\<lparr>id_keys := ks\<rparr>) = told_true w" "told_true (w\<lparr>id_clock := t\<rparr>) = told_true w"
  "told_true (w\<lparr>id_issued := is\<rparr>) = told_true w"
  by (simp_all add: told_true_def)

lemma rows_frame [simp]:
  "rows_true (w\<lparr>id_phase := f\<rparr>) = rows_true w" "rows_true (w\<lparr>id_clock := t\<rparr>) = rows_true w"
  "rows_true (w\<lparr>id_issued := is\<rparr>) = rows_true w"
  by (simp_all add: rows_true_def)

lemma rows_subset: "rows_true w \<Longrightarrow> set ks \<subseteq> set (id_keys w) \<Longrightarrow> rows_true (w\<lparr>id_keys := ks\<rparr>)"
  unfolding rows_true_def by (simp add: subset_eq)

lemma rows_settles:
  assumes "rows_true w" "phase_ok w n (Settling i oc)"
  shows "rows_true (w\<lparr>id_keys := settle_key i oc (id_keys w)\<rparr>)"
proof (cases oc)
  case (SettleComplete b)
  obtain r where r: "r \<in> set (id_runs w)" "run_id r = i" "answered r (stored_body b)"
    using assms(2) SettleComplete by (auto simp: answered_def)
  then show ?thesis
    using assms(1) SettleComplete
    by (fastforce simp: rows_true_def complete_key_def row_of_run_def holds_key_def stored_body_def)
next
  case SettleRelease
  then show ?thesis
    using rows_subset [OF assms(1), of "release_key i (id_keys w)"] by (simp add: release_key_def)
next
  case SettleFail
  then show ?thesis
    using assms(1) by (fastforce simp: rows_true_def markFailed_def row_of_run_def holds_key_def)
qed

lemma replay_read:
  assumes "rows_true w" "after_read (find (holds_key c) (id_keys w)) (ci_hash c) now = AnswerWith (ClaimReplay v)"
  shows "\<exists>r \<in> set (id_runs w). same_request c r \<and> answered r v"
proof -
  obtain k where k: "find (holds_key c) (id_keys w) = Some k" and cl: "classify k (ci_hash c) now = ClaimReplay v"
    using assms(2) by (auto simp: after_read_def split: option.splits if_splits)
  then have "k \<in> set (id_keys w)" "holds_key c k" "key_hash k = ci_hash c" "key_state k = KeyCompleted"
      "v = (case key_body k of None \<Rightarrow> JNull | Some b \<Rightarrow> b)"
    by (auto simp: find_Some_iff classify_def split: if_splits)
  with assms(1) show ?thesis
    by (fastforce simp: rows_true_def row_of_run_def same_request_def holds_key_def)
qed

lemma answers_stay:
  assumes "ledger w" "id_phase w n = Running i c"
  shows "\<exists>r \<in> set (id_runs w). P r \<and> answered r v \<Longrightarrow> (\<And>r. P r = P (ended i oc r)) \<Longrightarrow>
    \<exists>r \<in> set (map (ended i oc) (id_runs w)). P r \<and> answered r v"
proof -
  have "phase_ok w n (Running i c)" "ids_once w"
    using assms by (metis ledger_def phases_ok_def, simp add: ledger_def)
  then obtain r0 where r0: "r0 \<in> set (id_runs w)" "run_id r0 = i" "run_end r0 = None"
    by auto
  assume "\<exists>r \<in> set (id_runs w). P r \<and> answered r v" and P: "\<And>r. P r = P (ended i oc r)"
  then obtain r where r: "r \<in> set (id_runs w)" "P r" "answered r v"
    by blast
  then have "run_id r \<noteq> i"
    using run_of_id [OF \<open>ids_once w\<close> r(1) r0(1)] r0 by (auto simp: answered_def)
  with r P show ?thesis
    by (auto simp: ended_def)
qed

lemma records_ends:
  assumes "ledger w" "id_phase w n = Running i c" "rows_true w" "told_true w"
  shows "rows_true (send_ends n i result w) \<and> told_true (send_ends n i result w)"
proof -
  let ?f = "ended i (runClaimed result)"
  have row: "row_of_run (?f r) k = row_of_run r k" "same_request d (?f r) = same_request d r" for r k d
    by (simp_all add: row_of_run_def same_request_def)
  note stay = answers_stay [OF assms(1,2), of _ _ "runClaimed result"]
  have "rows_true (w\<lparr>id_runs := map ?f (id_runs w)\<rparr>)"
    unfolding rows_true_def
  proof (intro ballI conjI impI)
    fix k r assume k: "k \<in> set (id_keys (w\<lparr>id_runs := map ?f (id_runs w)\<rparr>))"
    show "row_of_run r k" if "r \<in> set (id_runs (w\<lparr>id_runs := map ?f (id_runs w)\<rparr>))" "key_id k = run_id r"
      using that k assms(3) by (auto simp: row rows_true_def)
    show "\<exists>r \<in> set (id_runs (w\<lparr>id_runs := map ?f (id_runs w)\<rparr>)). row_of_run r k \<and> (\<exists>v. key_body k = Some v \<and> answered r v)"
      if "key_state k = KeyCompleted"
      using that k assms(3) stay [of "\<lambda>r. row_of_run r k"] row(1) by (fastforce simp: rows_true_def)
  qed
  moreover have "told_true (w\<lparr>id_runs := map ?f (id_runs w)\<rparr>)"
    using assms(4) stay [of "same_request d" for d] row(2) by (fastforce simp: told_true_def)
  ultimately show ?thesis
    by (simp add: send_ends_def told_true_def)
qed

lemma records_claims:
  assumes "ledger w" "i \<notin> set (id_issued w)" "rows_true w" "told_true w"
  shows "rows_true (claim_inserts n i r now c w) \<and> told_true (claim_inserts n i r now c w)"
proof -
  have "i \<notin> run_id ` set (id_runs w)" "i \<notin> key_id ` set (id_keys w)"
    using assms(1,2) by (auto simp: ledger_def ids_once_def)
  then show ?thesis
    using assms(3,4)
    by (auto simp: claim_inserts_def insert_key_def rows_true_def told_true_def row_of_run_def holds_key_def)
qed

lemma records_insert_lost:
  assumes "ledger w" "i \<notin> set (id_issued w)" "rows_true w" "told_true w"
  shows "rows_true (claim_insert_lost n i now c w) \<and> told_true (claim_insert_lost n i now c w)"
proof -
  have "i \<notin> run_id ` set (id_runs w)" "i \<notin> key_id ` set (id_keys w)"
    using assms(1,2) by (auto simp: ledger_def ids_once_def)
  then show ?thesis
    using assms(3,4)
    by (auto simp: claim_insert_lost_def insert_key_def rows_true_def told_true_def row_of_run_def holds_key_def)
qed

lemma records_step:
  assumes "idem_step w w'" "ledger w" "rows_true w" "told_true w"
  shows "rows_true w' \<and> told_true w'"
  using assms(1)
proof cases
  case (reads n r nw c)
  then show ?thesis
    using assms(3,4) replay_read [OF assms(3), of c nw]
    by (auto simp: claim_reads_def next_round_def intro!: told_phase split: claim_next.split)
next
  case (removes n r nw i c)
  then show ?thesis
    using assms(3,4) rows_subset [OF assms(3), of "remove_expired i nw (id_keys w)"]
    by (auto simp: claim_removes_def remove_expired_def next_round_def told_true_def)
next
  case (settles n i oc)
  then have "phase_ok w n (Settling i oc)"
    using assms(2) by (metis ledger_def phases_ok_def)
  with settles show ?thesis
    using rows_settles [OF assms(3)] assms(4) by (auto simp: settle_lands_def told_true_def)
next
  case (prunes nw)
  then show ?thesis
    using assms(3,4) rows_subset [OF assms(3), of "pruneExpired nw (id_keys w)"] by (auto simp: pruneExpired_def)
next
  case (ends n i c result)
  then show ?thesis
    using records_ends [OF assms(2) _ assms(3,4)] by blast
next
  case (inserts n r nw c i)
  then show ?thesis
    using records_claims [OF assms(2) _ assms(3,4)] by blast
next
  case (insert_lost n r nw c i)
  then show ?thesis
    using records_insert_lost [OF assms(2) _ assms(3,4)] by blast
qed (use assms(3,4) in \<open>auto simp: claim_starts_def told_true_def\<close>)

lemma records_reach: "idem_reach w \<Longrightarrow> rows_true w \<and> told_true w"
proof (induction rule: idem_reach.induct)
  case (start w)
  then show ?case
    by (simp add: rows_true_def told_true_def)
next
  case (step w w')
  then show ?case
    using records_step [OF step.hyps(2) ledger_reach [OF step.hyps(1)]] by blast
qed

section \<open>Properties\<close>

text \<open>
  C7: a key sends once. Requests with \<open>Idempotency-Key\<close> headers run in any interleaving, on any number of nodes, with failing
  statements, lost replies and prunes. Take two sends under one session and key, the first of which was not released, that is,
  it has not ended or ended without proof that nothing reached WhatsApp. Then the second was claimed more than the 24 hours of
  the window after the first read its clock. And the answer a retry is given from the table is the answer of a send under
  the same session, key and request hash.
\<close>

theorem key_sends_once:
  assumes "idem_reach w"
  shows "(\<forall>j < length (id_runs w). \<forall>i < j.
       let r = id_runs w ! i; r' = id_runs w ! j
       in if same_key r r' \<and> run_end r \<noteq> Some SettleRelease then run_now r + SEND_IDEMPOTENCY_TTL_MS < run_taken r' else True)
    \<and> (\<forall>n c v. id_phase w n = Told c (ClaimReplay v) \<longrightarrow>
       (\<exists>r \<in> set (id_runs w). same_request c r \<and> (\<exists>b. run_end r = Some (SettleComplete b) \<and> v = stored_body b)))"
proof -
  have "sorted_wrt apart (id_runs w)" "told_true w"
    using ledger_reach [OF assms] records_reach [OF assms] by (simp_all add: ledger_def)
  then show ?thesis
    by (auto simp: sorted_wrt_iff_nth_less apart_def released_def told_true_def answered_def Let_def)
qed

text \<open>A send, its retry, and the retry's answer from the table.\<close>

definition demo_input :: claim_input where
  "demo_input = \<lparr>ci_session = ''s1'', ci_key = ''k'', ci_route = ''send-text'', ci_hash = ''h''\<rparr>"

definition demo_start :: idem_world where
  "demo_start = \<lparr>id_keys = [], id_phase = (\<lambda>n. Arriving), id_runs = [], id_issued = [], id_clock = 0\<rparr>"

definition demo_sent :: idem_world where
  "demo_sent = settle_lands 0 ''1'' (SettleComplete (Some (JStr ''ok''))) (send_ends 0 ''1'' (Inr (Some (JStr ''ok'')))
     (claim_inserts 0 ''1'' 0 0 demo_input (claim_starts 0 demo_input demo_start)))"

definition demo_told :: idem_world where
  "demo_told = claim_reads 1 0 0 demo_input (claim_inserts 1 ''2'' 0 0 demo_input (claim_starts 1 demo_input demo_sent))"

lemmas demo_defs = demo_input_def demo_start_def demo_sent_def demo_told_def claim_starts_def claim_inserts_def claim_reads_def
  send_ends_def settle_lands_def insert_key_def holds_key_def after_read_def classify_def runClaimed_def complete_key_def
  ended_def SEND_IDEMPOTENCY_TTL_MS_def

lemma demo_reached: "idem_reach demo_told"
  unfolding demo_told_def demo_sent_def
  by (intro idem_reach.step [OF _ idem_step.reads] idem_reach.step [OF _ idem_step.inserts] idem_reach.step [OF _ idem_step.request]
      idem_reach.step [OF _ idem_step.settles] idem_reach.step [OF _ idem_step.ends] idem_reach.start) (simp_all add: demo_defs)

theorem key_sends_once_witness:
  "idem_reach demo_told \<and> id_phase demo_told 1 = Told demo_input (ClaimReplay (JStr ''ok''))
   \<and> (\<exists>r \<in> set (id_runs demo_told). same_request demo_input r \<and> (\<exists>b. run_end r = Some (SettleComplete b) \<and> JStr ''ok'' = stored_body b))"
proof -
  have "id_phase demo_told 1 = Told demo_input (ClaimReplay (JStr ''ok''))"
    by (simp add: demo_defs)
  then show ?thesis
    using key_sends_once [OF demo_reached] demo_reached by blast
qed

text \<open>A value with the keys of every object sorted.\<close>

fun normal_json :: "json \<Rightarrow> json" where
  "normal_json (JArr xs) = JArr (map normal_json xs)"
| "normal_json (JObj fs) = JObj (sort_key fst (map (\<lambda>(k, v). (k, normal_json v)) fs))"
| "normal_json v = v"

lemma map_insort_fst: "map (\<lambda>(k, v). (k, g v)) (insort_key fst x xs) = insort_key fst (case x of (k, v) \<Rightarrow> (k, g v)) (map (\<lambda>(k, v). (k, g v)) xs)"
  by (induction xs) (auto split: prod.splits)

lemma map_sort_fst: "map (\<lambda>(k, v). (k, g v)) (sort_key fst xs) = sort_key fst (map (\<lambda>(k, v). (k, g v)) xs)"
  by (induction xs) (auto simp: map_insort_fst)

lemma canonicalJson_normal: "canonicalJson v = json_text (normal_json v)"
proof (induction v)
  case (JArr xs)
  then have "map canonicalJson xs = map json_text (map normal_json xs)"
    by simp
  then show ?case
    by (simp only: canonicalJson.simps normal_json.simps json_text.simps)
next
  case (JObj fs)
  have "map (\<lambda>(k, v). (k, canonicalJson v)) fs = map (\<lambda>(k, v). (k, json_text v)) (map (\<lambda>(k, v). (k, normal_json v)) fs)"
    using JObj.IH by (auto simp: snds.simps)
  then have "sort_key fst (map (\<lambda>(k, v). (k, canonicalJson v)) fs)
      = map (\<lambda>(k, v). (k, json_text v)) (sort_key fst (map (\<lambda>(k, v). (k, normal_json v)) fs))"
    by (simp only: map_sort_fst)
  then show ?case
    by (simp only: canonicalJson.simps normal_json.simps json_text.simps map_map) (simp add: comp_def case_prod_unfold)
qed simp_all

lemma first_mark: "c \<notin> set a \<Longrightarrow> c \<notin> set b \<Longrightarrow> a @ c # t = b @ c # t' \<longleftrightarrow> a = b \<and> t = t'"
proof (induction a arbitrary: b)
  case Nil
  then show ?case
    by (cases b) auto
next
  case (Cons x a)
  then show ?case
    by (cases b) auto
qed

text \<open>
  C27: the fingerprint of a send tells requests apart. Two requests, on routes named by an identifier, are digested from the
  same text exactly when they have the same route and bodies that are equal up to the order of the keys of their
  objects; a missing body counts as null.
\<close>

theorem fingerprint_exact:
  assumes "CHR 0x0A \<notin> set route" "CHR 0x0A \<notin> set route'"
  shows "fingerprint_text route body = fingerprint_text route' body' \<longleftrightarrow>
    route = route' \<and> normal_json (case body of None \<Rightarrow> JNull | Some b \<Rightarrow> b) = normal_json (case body' of None \<Rightarrow> JNull | Some b \<Rightarrow> b)"
proof -
  have "route @ CHR 0x0A # t = route' @ CHR 0x0A # t' \<longleftrightarrow> route = route' \<and> t = t'" for t t'
    by (rule first_mark [OF assms])
  then show ?thesis
    by (simp add: fingerprint_text_def canonicalJson_normal json_text_inject)
qed

theorem fingerprint_exact_witness:
  "fingerprint_text ''sendText'' (Some (JObj [(''to'', JStr ''1''), (''at'', JNum 5)]))
     = fingerprint_text ''sendText'' (Some (JObj [(''at'', JNum 5), (''to'', JStr ''1'')]))"
  by (subst fingerprint_exact) (simp_all add: less_eq_list_code)

end
