(* ===== verification/Session_Ownership.thy ===== *)
theory Session_Ownership
  imports Prelude
begin

text \<open>
  Which process hosts a session: the leases of \<^verbatim>\<open>src/src/modules/session/session-ownership.service.ts\<close>. A node keeps what it
  believes to own in memory and the sessions table says who holds a session until when. An operation is cut at its
  awaits: a call is before a statement, whose \<open>effect\<close> on the table comes at some later moment, or before the reply of one
  that took effect, which the node's code acts on later still. \<open>own_step\<close> interleaves the calls of all nodes, with
  statements that fail and replies that are lost. Node ids are unique and the clocks of the nodes agree.
\<close>

section \<open>The table\<close>

record session_row =
  s_node :: "string option"
  s_claimed :: "int option"
  s_lease :: "int option"
  s_url :: "string option"
  s_desired :: "string option"

text \<open>An SQL comparison with NULL does not hold.\<close>

definition sql_before :: "int option \<Rightarrow> int \<Rightarrow> bool" where
  "sql_before l t = (case l of None \<Rightarrow> False | Some x \<Rightarrow> x < t)"

definition foreign :: "string \<Rightarrow> session_row \<Rightarrow> bool" where
  "foreign me r = (case s_node r of None \<Rightarrow> False | Some o' \<Rightarrow> o' \<noteq> me)"

definition claimableWhere :: "string \<Rightarrow> int \<Rightarrow> session_row \<Rightarrow> bool" where
  "claimableWhere me now r \<longleftrightarrow> s_node r = None \<or> s_node r = Some me \<or> sql_before (s_lease r) now"

definition cleared :: "session_row \<Rightarrow> session_row" where
  "cleared r = r\<lparr>s_node := None, s_claimed := None, s_lease := None, s_url := None\<rparr>"

definition not_deleting :: "session_row \<Rightarrow> bool" where
  "not_deleting r \<longleftrightarrow> s_desired r = None \<or> s_desired r \<noteq> Some ''deleting'' \<and> s_desired r \<noteq> Some ''deleting-stopped''"

text \<open>The UPDATE statements: the new row, or \<open>None\<close> where the row does not match.\<close>

definition claim_update :: "string \<Rightarrow> string \<Rightarrow> int \<Rightarrow> int \<Rightarrow> session_row \<Rightarrow> session_row option" where
  "claim_update me url now lease r =
     (if claimableWhere me now r
      then Some (r\<lparr>s_node := Some me, s_claimed := Some now, s_lease := Some lease, s_url := (if url = [] then None else Some url)\<rparr>)
      else None)"

definition extend_update :: "string \<Rightarrow> int \<Rightarrow> session_row \<Rightarrow> session_row option" where
  "extend_update me lease r = (if s_node r = Some me then Some (r\<lparr>s_lease := Some lease\<rparr>) else None)"

definition prepare_update :: "string \<Rightarrow> string option \<Rightarrow> int \<Rightarrow> int \<Rightarrow> session_row \<Rightarrow> session_row option" where
  "prepare_update me desired now lease r =
     (if s_node r = Some me \<and> (case s_lease r of None \<Rightarrow> False | Some l \<Rightarrow> now < l) \<and> s_desired r = desired
      then Some (r\<lparr>s_desired := None, s_lease := Some lease\<rparr>) else None)"

definition stop_update :: "string \<Rightarrow> int \<Rightarrow> session_row \<Rightarrow> session_row option" where
  "stop_update me now r =
     (if foreign me r \<and> not_deleting r \<and> (case s_lease r of None \<Rightarrow> True | Some l \<Rightarrow> l \<le> now)
      then Some ((cleared r)\<lparr>s_desired := Some ''stopped''\<rparr>) else None)"

definition release_update :: "string \<Rightarrow> session_row \<Rightarrow> session_row option" where
  "release_update me r =
     (if s_node r = Some me
      then Some ((cleared r)\<lparr>s_desired := (if s_desired r = Some ''deleting-stopped'' then Some ''stopped'' else s_desired r)\<rparr>)
      else None)"

definition lapsed_update :: "string \<Rightarrow> int \<Rightarrow> session_row \<Rightarrow> session_row option" where
  "lapsed_update me now r =
     (if foreign me r \<and> sql_before (s_lease r) now \<and> not_deleting r then Some (cleared r) else None)"

definition clear_update :: "string \<Rightarrow> session_row \<Rightarrow> session_row option" where
  "clear_update me r = (if s_node r = Some me then Some (cleared r) else None)"

text \<open>The reads over the table.\<close>

definition lapsedHeldByOthers :: "string \<Rightarrow> int \<Rightarrow> session_row \<Rightarrow> bool" where
  "lapsedHeldByOthers me now r \<longleftrightarrow> foreign me r \<and> sql_before (s_lease r) now"

definition heldByOtherLiveNode :: "string \<Rightarrow> int \<Rightarrow> session_row \<Rightarrow> bool" where
  "heldByOtherLiveNode me now r \<longleftrightarrow> foreign me r \<and> (case s_lease r of None \<Rightarrow> False | Some l \<Rightarrow> now < l)"

section \<open>A node\<close>

record node_state =
  nd_owned :: "string list"
  nd_gen :: "string \<Rightarrow> nat option"
  nd_seq :: nat
  nd_seen :: "string \<Rightarrow> int option"
  nd_streak :: "string \<Rightarrow> nat option"
  nd_reported :: bool
  nd_suspended :: nat
  nd_ttl :: int
  nd_url :: string
  nd_adopts :: bool

definition owns :: "string \<Rightarrow> node_state \<Rightarrow> bool" where
  "owns s nd \<longleftrightarrow> s \<in> set (nd_owned nd)"

definition captureClaim :: "string \<Rightarrow> nat option \<Rightarrow> node_state \<Rightarrow> bool" where
  "captureClaim s generation nd \<longleftrightarrow> generation \<noteq> None \<and> owns s nd \<and> nd_gen nd s = generation"

definition own_add :: "string \<Rightarrow> int \<Rightarrow> node_state \<Rightarrow> node_state" where
  "own_add s lease nd = nd\<lparr>nd_owned := (if owns s nd then nd_owned nd else nd_owned nd @ [s]), nd_seen := (nd_seen nd)(s := Some lease)\<rparr>"

definition own_drop :: "string \<Rightarrow> node_state \<Rightarrow> node_state" where
  "own_drop s nd = nd\<lparr>nd_owned := filter (\<lambda>x. x \<noteq> s) (nd_owned nd), nd_gen := (nd_gen nd)(s := None)\<rparr>"

definition new_generation :: "string \<Rightarrow> node_state \<Rightarrow> node_state" where
  "new_generation s nd = nd\<lparr>nd_seq := Suc (nd_seq nd), nd_gen := (nd_gen nd)(s := Some (Suc (nd_seq nd)))\<rparr>"

text \<open>Another process under this node id: a lease that changed twice in a row without this process writing it.\<close>

definition noteForeignRenewals :: "int \<Rightarrow> (string \<times> int option) list \<Rightarrow> node_state \<Rightarrow> node_state" where
  "noteForeignRenewals now rs nd =
     (if 0 < nd_suspended nd then nd\<lparr>nd_seen := (\<lambda>_. None), nd_streak := (\<lambda>_. None)\<rparr>
      else let live = (\<lambda>s. case map_of rs s of Some (Some l) \<Rightarrow> if now < l then Some l else None | _ \<Rightarrow> None);
               streak = (\<lambda>s l. case nd_seen nd s of
                   Some p \<Rightarrow> if p \<noteq> l then (case nd_streak nd s of None \<Rightarrow> 0 | Some k \<Rightarrow> k) + 1 else 0 | None \<Rightarrow> 0)
           in nd\<lparr>nd_seen := live, nd_streak := (\<lambda>s. map_option (streak s) (live s)),
                nd_reported := (nd_reported nd \<or> list_ex (\<lambda>(s, _). case live s of Some l \<Rightarrow> 2 \<le> streak s l | None \<Rightarrow> False) rs)\<rparr>)"

section \<open>Calls\<close>

text \<open>
  Where a call is. The first argument of the claim's and the release's phases is the session; a phase whose name is in the
  past tense has a reply to act on, the others a statement to run.
\<close>

datatype phase =
    Quiet
  | ClaimExtends string "nat option" int int
  | ClaimExtended string "nat option" int int bool
  | ClaimReads string nat int int
  | ClaimRead string nat int int "string option \<times> int option"
  | ClaimWrites string nat int int "string option \<times> int option"
  | ClaimWrote string nat int int "string option \<times> int option" bool
  | Claimed string bool
  | PrepareWrites string "string option" int int
  | PrepareWrote string int bool
  | Prepared string bool
  | StopWrites string int
  | Stopped string bool
  | ReleaseWrites string int
  | ReleaseLapsed string int
  | ReleaseLocks string "nat option"
  | ReleaseLocked string "nat option" bool
  | ReleaseClears string "nat option"
  | ReleaseCleared string "nat option"
  | ReleasesAll "string list"
  | RenewReads "(string \<times> nat option) list" "string list"
  | RenewRead "(string \<times> nat option) list" "string list" "(string \<times> int option) list"
  | RenewWrites "(string \<times> nat option) list" "string list" int
  | RenewWrote "(string \<times> nat option) list" "string list" int
  | RenewChecks "(string \<times> nat option) list"
  | RenewChecked "(string \<times> nat option) list" "string list"
  | Failed

text \<open>The operations as a caller starts them, up to their first statement.\<close>

definition claim_allocates :: "string \<Rightarrow> int \<Rightarrow> int \<Rightarrow> node_state \<Rightarrow> node_state \<times> phase" where
  "claim_allocates s now lease nd =
     (let nd' = new_generation s nd; g = nd_seq nd'
      in (nd', if nd_adopts nd' then ClaimReads s g now lease else ClaimWrites s g now lease (None, None)))"

definition claim :: "string \<Rightarrow> int \<Rightarrow> node_state \<Rightarrow> node_state \<times> phase" where
  "claim s now nd =
     (let lease = now + nd_ttl nd
      in if owns s nd \<or> nd_gen nd s \<noteq> None then (nd, ClaimExtends s (nd_gen nd s) now lease)
         else claim_allocates s now lease nd)"

definition prepareStart :: "string \<Rightarrow> string option \<Rightarrow> int \<Rightarrow> node_state \<Rightarrow> node_state \<times> phase" where
  "prepareStart s desired now nd = (nd, PrepareWrites s desired now (now + nd_ttl nd))"

definition stopExpiredForeignClaim :: "string \<Rightarrow> int \<Rightarrow> node_state \<Rightarrow> node_state \<times> phase" where
  "stopExpiredForeignClaim s now nd = (nd, StopWrites s now)"

definition release_session :: "string \<Rightarrow> int \<Rightarrow> node_state \<Rightarrow> node_state \<times> phase" where
  "release_session s now nd = (own_drop s nd, ReleaseWrites s now)"

definition release_captured :: "string \<Rightarrow> nat option \<Rightarrow> node_state \<Rightarrow> node_state \<times> phase" where
  "release_captured s generation nd = (nd, ReleaseLocks s generation)"

definition releaseAll :: "string list \<Rightarrow> node_state \<Rightarrow> node_state \<times> phase" where
  "releaseAll keep nd =
     (let ids = filter (\<lambda>s. s \<notin> set keep) (nd_owned nd)
      in (fold own_drop ids nd, if ids = [] then Quiet else ReleasesAll ids))"

text \<open>\<open>alive\<close> answers the liveness probe for the sessions held.\<close>

definition renew :: "(string \<Rightarrow> bool) \<Rightarrow> node_state \<Rightarrow> node_state \<times> phase" where
  "renew alive nd = (nd, RenewReads (map (\<lambda>s. (s, nd_gen nd s)) (nd_owned nd)) (filter alive (nd_owned nd)))"

definition suspendLossDetection :: "bool \<Rightarrow> node_state \<Rightarrow> node_state" where
  "suspendLossDetection b nd = nd\<lparr>nd_suspended := (if b then Suc (nd_suspended nd) else nd_suspended nd - 1)\<rparr>"

section \<open>Statements and replies\<close>

text \<open>
  Who held a session from when until when, as the table granted it: a new entry when the row changes hands, its end moved
  by every renewal and brought forward by the holder's own release.
\<close>

record tenure =
  t_holder :: string
  t_from :: int
  t_until :: int

record own_world =
  ow_nodes :: "string \<Rightarrow> node_state"
  ow_table :: "string \<Rightarrow> session_row option"
  ow_ids :: "string list"
  ow_calls :: "nat \<Rightarrow> string \<times> phase"
  ow_tenures :: "string \<Rightarrow> tenure list"
  ow_adopted :: "(string \<times> string) list"
  ow_lost :: "(string \<times> string list) list"
  ow_clock :: int

definition end_last :: "(int \<Rightarrow> int) \<Rightarrow> tenure list \<Rightarrow> tenure list" where
  "end_last f ts = (if ts = [] then [] else butlast ts @ [(last ts)\<lparr>t_until := f (t_until (last ts))\<rparr>])"

definition note_tenure :: "string \<Rightarrow> int \<Rightarrow> session_row \<Rightarrow> session_row \<Rightarrow> tenure list \<Rightarrow> tenure list" where
  "note_tenure me now r r' ts =
     (let lease = (case s_lease r' of None \<Rightarrow> now | Some l \<Rightarrow> l)
      in if s_node r = Some me then end_last (if s_node r' = Some me then (\<lambda>_. lease) else min now) ts
         else if s_node r' = Some me then ts @ [\<lparr>t_holder = me, t_from = now, t_until = lease\<rparr>]
         else ts)"

definition update_row :: "string \<Rightarrow> (session_row \<Rightarrow> session_row option) \<Rightarrow> string \<Rightarrow> own_world \<Rightarrow> bool \<times> own_world" where
  "update_row me f s w =
     (case ow_table w s of
        None \<Rightarrow> (False, w)
      | Some r \<Rightarrow>
          (case f r of
             None \<Rightarrow> (False, w)
           | Some r' \<Rightarrow> (True, w\<lparr>ow_table := (ow_table w)(s := Some r'),
               ow_tenures := (ow_tenures w)(s := note_tenure me (ow_clock w) r r' (ow_tenures w s))\<rparr>)))"

definition update_rows :: "string \<Rightarrow> (session_row \<Rightarrow> session_row option) \<Rightarrow> string list \<Rightarrow> own_world \<Rightarrow> own_world" where
  "update_rows me f ss w = fold (\<lambda>s w. snd (update_row me f s w)) ss w"

definition row_node :: "own_world \<Rightarrow> string \<Rightarrow> string option" where
  "row_node w s = (case ow_table w s of None \<Rightarrow> None | Some r \<Rightarrow> s_node r)"

definition row_lease :: "own_world \<Rightarrow> string \<Rightarrow> int option" where
  "row_lease w s = (case ow_table w s of None \<Rightarrow> None | Some r \<Rightarrow> s_lease r)"

definition claimable :: "string \<Rightarrow> int \<Rightarrow> string list \<Rightarrow> own_world \<Rightarrow> string list" where
  "claimable me now ids w =
     filter (\<lambda>s. s \<in> set ids \<and> (case ow_table w s of None \<Rightarrow> False | Some r \<Rightarrow> claimableWhere me now r)) (ow_ids w)"

definition isHeldByOtherNode :: "string \<Rightarrow> int \<Rightarrow> string \<Rightarrow> own_world \<Rightarrow> bool" where
  "isHeldByOtherNode me now s w = (case ow_table w s of None \<Rightarrow> False | Some r \<Rightarrow> heldByOtherLiveNode me now r)"

definition heldByOtherNodes :: "string \<Rightarrow> int \<Rightarrow> own_world \<Rightarrow> string list" where
  "heldByOtherNodes me now w = filter (\<lambda>s. isHeldByOtherNode me now s w) (ow_ids w)"

definition followAdoption :: "string \<Rightarrow> string \<Rightarrow> bool \<Rightarrow> own_world \<Rightarrow> own_world" where
  "followAdoption me s b w =
     (if b \<and> nd_adopts (ow_nodes w me) then w\<lparr>ow_adopted := ow_adopted w @ [(me, s)]\<rparr> else w)"

text \<open>The statement a call is about to run takes effect.\<close>

fun effect :: "string \<Rightarrow> phase \<Rightarrow> own_world \<Rightarrow> own_world \<times> phase" where
  "effect me (ClaimExtends s g now lease) w =
     (case update_row me (extend_update me lease) s w of (b, w') \<Rightarrow> (w', ClaimExtended s g now lease b))"
| "effect me (ClaimReads s g now lease) w = (w, ClaimRead s g now lease (row_node w s, row_lease w s))"
| "effect me (ClaimWrites s g now lease prev) w =
     (case update_row me (claim_update me (nd_url (ow_nodes w me)) now lease) s w of (b, w') \<Rightarrow> (w', ClaimWrote s g now lease prev b))"
| "effect me (PrepareWrites s desired now lease) w =
     (case update_row me (prepare_update me desired now lease) s w of (b, w') \<Rightarrow> (w', PrepareWrote s lease b))"
| "effect me (StopWrites s now) w =
     (case update_row me (stop_update me now) s w of (b, w') \<Rightarrow> (followAdoption me s b w', Stopped s b))"
| "effect me (ReleaseWrites s now) w =
     (case update_row me (release_update me) s w of (b, w') \<Rightarrow> (w', if b then Quiet else ReleaseLapsed s now))"
| "effect me (ReleaseLapsed s now) w =
     (case update_row me (lapsed_update me now) s w of (b, w') \<Rightarrow> (followAdoption me s b w', Quiet))"
| "effect me (ReleaseLocks s g) w = (w, ReleaseLocked s g (row_node w s = Some me))"
| "effect me (ReleaseClears s g) w =
     (case update_row me (clear_update me) s w of (b, w') \<Rightarrow> (w', ReleaseCleared s g))"
| "effect me (ReleasesAll ss) w = (update_rows me (clear_update me) ss w, Quiet)"
| "effect me (RenewReads held live) w =
     (w, RenewRead held live (map (\<lambda>s. (s, row_lease w s)) (filter (\<lambda>s. row_node w s = Some me) (ow_ids w))))"
| "effect me (RenewWrites held live lease) w = (update_rows me (extend_update me lease) live w, RenewWrote held live lease)"
| "effect me (RenewChecks held) w = (w, RenewChecked held (filter (\<lambda>s. row_node w s = Some me) (map fst held)))"
| "effect me p w = (w, p)"

definition lost_claims :: "(string \<times> nat option) list \<Rightarrow> string list \<Rightarrow> node_state \<Rightarrow> string list" where
  "lost_claims held kept nd = map fst (filter (\<lambda>(s, g). s \<notin> set kept \<and> owns s nd \<and> nd_gen nd s = g) held)"

text \<open>The node acts on the reply of a statement.\<close>

definition claim_extended :: "string \<Rightarrow> nat option \<Rightarrow> int \<Rightarrow> int \<Rightarrow> bool \<Rightarrow> node_state \<Rightarrow> node_state \<times> phase" where
  "claim_extended s g now lease b nd =
     (if nd_gen nd s \<noteq> g then (nd, Claimed s False)
      else if b then (let nd' = own_add s lease nd in (if nd_gen nd' s = None then new_generation s nd' else nd', Claimed s True))
      else claim_allocates s now lease nd)"

definition claim_read :: "string \<Rightarrow> nat \<Rightarrow> int \<Rightarrow> int \<Rightarrow> string option \<times> int option \<Rightarrow> node_state \<Rightarrow> node_state \<times> phase" where
  "claim_read s g now lease prev nd = (nd, if nd_gen nd s \<noteq> Some g then Claimed s False else ClaimWrites s g now lease prev)"

definition claim_wrote :: "(string \<Rightarrow> bool) \<Rightarrow> string \<Rightarrow> nat \<Rightarrow> int \<Rightarrow> bool \<Rightarrow> node_state \<Rightarrow> node_state \<times> phase" where
  "claim_wrote alive s g lease b nd =
     (if nd_gen nd s \<noteq> Some g then (nd, Claimed s False)
      else if b then (own_add s lease nd, Claimed s True)
      else if owns s nd then renew alive nd
      else (nd\<lparr>nd_gen := (nd_gen nd)(s := None)\<rparr>, Claimed s False))"

definition prepare_wrote :: "int \<Rightarrow> string \<Rightarrow> int \<Rightarrow> bool \<Rightarrow> node_state \<Rightarrow> node_state \<times> phase" where
  "prepare_wrote clk s lease b nd =
     (if b \<and> clk < lease then nd\<lparr>nd_seen := (nd_seen nd)(s := Some lease)\<rparr> else nd, Prepared s (b \<and> clk < lease))"

definition release_locked :: "string \<Rightarrow> nat option \<Rightarrow> bool \<Rightarrow> node_state \<Rightarrow> node_state \<times> phase" where
  "release_locked s g b nd =
     (if \<not> captureClaim s g nd then (nd, Quiet) else if b then (nd, ReleaseClears s g) else (own_drop s nd, Quiet))"

definition release_cleared :: "string \<Rightarrow> nat option \<Rightarrow> node_state \<Rightarrow> node_state \<times> phase" where
  "release_cleared s g nd = (if captureClaim s g nd then own_drop s nd else nd, Quiet)"

definition renew_read :: "int \<Rightarrow> (string \<times> nat option) list \<Rightarrow> string list \<Rightarrow> (string \<times> int option) list \<Rightarrow> node_state \<Rightarrow> node_state \<times> phase" where
  "renew_read clk held live rs nd =
     (noteForeignRenewals clk rs nd,
      if held = [] then Quiet else if live \<noteq> [] then RenewWrites held live (clk + nd_ttl nd) else RenewChecks held)"

definition renew_wrote :: "(string \<times> nat option) list \<Rightarrow> string list \<Rightarrow> int \<Rightarrow> node_state \<Rightarrow> node_state \<times> phase" where
  "renew_wrote held live lease nd = (nd\<lparr>nd_seen := (\<lambda>s. if s \<in> set live then Some lease else nd_seen nd s)\<rparr>, RenewChecks held)"

definition renew_checked :: "(string \<times> nat option) list \<Rightarrow> string list \<Rightarrow> node_state \<Rightarrow> node_state \<times> phase" where
  "renew_checked held kept nd = (if 0 < nd_suspended nd then nd else fold own_drop (lost_claims held kept nd) nd, Quiet)"

fun reply :: "(string \<Rightarrow> bool) \<Rightarrow> int \<Rightarrow> phase \<Rightarrow> node_state \<Rightarrow> node_state \<times> phase" where
  "reply alive clk (ClaimExtended s g now lease b) nd = claim_extended s g now lease b nd"
| "reply alive clk (ClaimRead s g now lease prev) nd = claim_read s g now lease prev nd"
| "reply alive clk (ClaimWrote s g now lease prev b) nd = claim_wrote alive s g lease b nd"
| "reply alive clk (PrepareWrote s lease b) nd = prepare_wrote clk s lease b nd"
| "reply alive clk (ReleaseLocked s g b) nd = release_locked s g b nd"
| "reply alive clk (ReleaseCleared s g) nd = release_cleared s g nd"
| "reply alive clk (RenewRead held live rs) nd = renew_read clk held live rs nd"
| "reply alive clk (RenewWrote held live lease) nd = renew_wrote held live lease nd"
| "reply alive clk (RenewChecked held kept) nd = renew_checked held kept nd"
| "reply alive clk p nd = (nd, p)"

lemmas reply_defs = claim_extended_def claim_read_def claim_wrote_def prepare_wrote_def release_locked_def release_cleared_def
  renew_read_def renew_wrote_def renew_checked_def

text \<open>A claim that took over a lapsed lease of another node is followed up.\<close>

fun adoption :: "string \<Rightarrow> phase \<Rightarrow> node_state \<Rightarrow> string option" where
  "adoption me (ClaimWrote s g now lease (prev, until') b) nd =
     (if nd_gen nd s = Some g \<and> b \<and> prev \<noteq> None \<and> prev \<noteq> Some me \<and> sql_before until' now then Some s else None)"
| "adoption me p nd = None"

fun lost_by :: "phase \<Rightarrow> node_state \<Rightarrow> string list" where
  "lost_by (RenewChecked held kept) nd = (if 0 < nd_suspended nd then [] else lost_claims held kept nd)"
| "lost_by p nd = []"

text \<open>A statement fails, or its reply is lost.\<close>

definition claim_fails :: "(string \<Rightarrow> bool) \<Rightarrow> string \<Rightarrow> nat \<Rightarrow> node_state \<Rightarrow> node_state \<times> phase" where
  "claim_fails alive s g nd =
     (if nd_gen nd s \<noteq> Some g then (nd, Failed) else if owns s nd then renew alive nd
      else (nd\<lparr>nd_gen := (nd_gen nd)(s := None)\<rparr>, Failed))"

fun fails :: "(string \<Rightarrow> bool) \<Rightarrow> phase \<Rightarrow> node_state \<Rightarrow> node_state \<times> phase" where
  "fails alive (ClaimReads s g now lease) nd = claim_fails alive s g nd"
| "fails alive (ClaimWrites s g now lease prev) nd = claim_fails alive s g nd"
| "fails alive (RenewReads held live) nd = (nd, Quiet)"
| "fails alive (RenewWrites held live lease) nd = (nd, Quiet)"
| "fails alive (RenewChecks held) nd = (nd, Quiet)"
| "fails alive p nd = (nd, Failed)"

datatype own_request =
    WantClaim string
  | WantPrepare string "string option"
  | WantStop string
  | WantRelease string
  | WantReleaseCaptured string "nat option"
  | WantReleaseAll "string list"
  | WantRenew "string \<Rightarrow> bool"

fun begins :: "own_request \<Rightarrow> int \<Rightarrow> node_state \<Rightarrow> node_state \<times> phase" where
  "begins (WantClaim s) now nd = claim s now nd"
| "begins (WantPrepare s d) now nd = prepareStart s d now nd"
| "begins (WantStop s) now nd = stopExpiredForeignClaim s now nd"
| "begins (WantRelease s) now nd = release_session s now nd"
| "begins (WantReleaseCaptured s g) now nd = release_captured s g nd"
| "begins (WantReleaseAll keep) now nd = releaseAll keep nd"
| "begins (WantRenew alive) now nd = renew alive nd"

text \<open>A node's own segment of a call.\<close>

definition locally_done :: "nat \<Rightarrow> string \<Rightarrow> node_state \<times> phase \<Rightarrow> own_world \<Rightarrow> own_world" where
  "locally_done c me r w = w\<lparr>ow_nodes := (ow_nodes w)(me := fst r), ow_calls := (ow_calls w)(c := (me, snd r))\<rparr>"

definition logged :: "string \<Rightarrow> phase \<Rightarrow> own_world \<Rightarrow> own_world" where
  "logged me p w =
     w\<lparr>ow_adopted := ow_adopted w @ (case adoption me p (ow_nodes w me) of None \<Rightarrow> [] | Some s \<Rightarrow> [(me, s)]),
        ow_lost := ow_lost w @ (case lost_by p (ow_nodes w me) of [] \<Rightarrow> [] | ls \<Rightarrow> [(me, ls)])\<rparr>"

definition effected :: "nat \<Rightarrow> own_world \<Rightarrow> own_world" where
  "effected c w = (case ow_calls w c of (me, p) \<Rightarrow> case effect me p w of (w', p') \<Rightarrow> w'\<lparr>ow_calls := (ow_calls w')(c := (me, p'))\<rparr>)"

definition replied :: "(string \<Rightarrow> bool) \<Rightarrow> nat \<Rightarrow> own_world \<Rightarrow> own_world" where
  "replied alive c w =
     (case ow_calls w c of (me, p) \<Rightarrow> locally_done c me (reply alive (ow_clock w) p (ow_nodes w me)) (logged me p w))"

inductive own_step :: "own_world \<Rightarrow> own_world \<Rightarrow> bool" where
  time: "ow_clock w \<le> t \<Longrightarrow> own_step w (w\<lparr>ow_clock := t\<rparr>)"
| begins: "snd (ow_calls w c) = Quiet \<Longrightarrow> own_step w (locally_done c me (begins rq (ow_clock w) (ow_nodes w me)) w)"
| effect: "own_step w (effected c w)"
| reply: "own_step w (replied alive c w)"
| fails: "ow_calls w c = (me, p) \<Longrightarrow> own_step w (locally_done c me (fails alive p (ow_nodes w me)) w)"
| reply_lost: "ow_calls w c = (me, p) \<Longrightarrow> own_step w (locally_done c me (fails alive p (ow_nodes w me)) (fst (effect me p w)))"
| suspends: "own_step w (w\<lparr>ow_nodes := (ow_nodes w)(me := suspendLossDetection b (ow_nodes w me))\<rparr>)"

inductive own_reach :: "own_world \<Rightarrow> bool" where
  start: "(\<And>s. ow_tenures w s = []) \<Longrightarrow> (\<And>s. row_node w s = None) \<Longrightarrow> (\<And>c. snd (ow_calls w c) = Quiet) \<Longrightarrow>
    (\<And>n s. nd_gen (ow_nodes w n) s = None) \<Longrightarrow> own_reach w"
| step: "own_reach w \<Longrightarrow> own_step w w' \<Longrightarrow> own_reach w'"

section \<open>Leases do not overlap\<close>

definition row_ok :: "session_row option \<Rightarrow> bool" where
  "row_ok x = (case x of None \<Rightarrow> True | Some r \<Rightarrow> s_node r = None \<or> s_lease r \<noteq> None)"

text \<open>The entries end before the next begins, and the row agrees with the last one.\<close>

definition tenures_ok :: "int \<Rightarrow> session_row option \<Rightarrow> tenure list \<Rightarrow> bool" where
  "tenures_ok clk x ts \<longleftrightarrow> list_all (\<lambda>t. t_from t \<le> clk) ts \<and> sorted_wrt (\<lambda>t t'. t_until t \<le> t_from t') ts
     \<and> (case x of
          Some r \<Rightarrow> (case s_node r of
              Some a \<Rightarrow> ts \<noteq> [] \<and> t_holder (last ts) = a \<and> s_lease r = Some (t_until (last ts))
            | None \<Rightarrow> list_all (\<lambda>t. t_until t \<le> clk) ts)
        | None \<Rightarrow> list_all (\<lambda>t. t_until t \<le> clk) ts)"

text \<open>What a statement of node \<open>me\<close> may do to a row at an instant: take a free or lapsed one, extend its own, clear its own or a lapsed one.\<close>

definition lawful :: "string \<Rightarrow> int \<Rightarrow> (session_row \<Rightarrow> session_row option) \<Rightarrow> bool" where
  "lawful me clk f \<longleftrightarrow> (\<forall>r r'. row_ok (Some r) \<longrightarrow> f r = Some r' \<longrightarrow>
     (s_node r = None \<or> s_node r = Some me \<or> (\<exists>l. s_lease r = Some l \<and> l \<le> clk))
     \<and> (s_node r' = None \<or> s_node r' = Some me \<and> s_lease r' \<noteq> None))"

lemma tenures_row_ok: "tenures_ok clk x ts \<Longrightarrow> row_ok x"
  by (auto simp: tenures_ok_def row_ok_def split: option.splits)

lemma all_ended:
  assumes "tenures_ok clk (Some r) ts" and "s_node r = None \<or> (\<exists>l. s_lease r = Some l \<and> l \<le> clk)"
  shows "list_all (\<lambda>t. t_until t \<le> clk) ts"
proof (cases "s_node r")
  case (Some a)
  then obtain us t where ts: "ts = us @ [t]" and "t_until t \<le> clk"
    using assms by (cases ts rule: rev_cases) (auto simp: tenures_ok_def)
  moreover have "t_until u \<le> clk" if "u \<in> set us" for u
    using assms(1) ts that by (force simp: tenures_ok_def sorted_wrt_append)
  ultimately show ?thesis
    by (auto simp: list_all_iff)
qed (use assms in \<open>simp add: tenures_ok_def\<close>)

lemma sorted_last:
  assumes "sorted_wrt (\<lambda>t t'. t_until t \<le> t_from t') (us @ [t])"
  shows "sorted_wrt (\<lambda>t t'. t_until t \<le> t_from t') (us @ [t\<lparr>t_until := x\<rparr>])"
  using assms by (simp add: sorted_wrt_append)

lemma tenures_note:
  assumes ok: "tenures_ok clk (Some r) ts" and law: "lawful me clk f" and f: "f r = Some r'"
  shows "tenures_ok clk (Some r') (note_tenure me clk r r' ts)"
proof -
  have ro: "s_node r = None \<or> s_node r = Some me \<or> (\<exists>l. s_lease r = Some l \<and> l \<le> clk)"
    and rn: "s_node r' = None \<or> s_node r' = Some me \<and> s_lease r' \<noteq> None"
    using law f tenures_row_ok [OF ok] by (auto simp: lawful_def)
  show ?thesis
  proof (cases "s_node r = Some me")
    case True
    then obtain us t where ts: "ts = us @ [t]" "t_holder t = me"
      using ok by (cases ts rule: rev_cases) (auto simp: tenures_ok_def)
    then have us: "list_all (\<lambda>u. t_until u \<le> t_from t) us" "t_from t \<le> clk" "list_all (\<lambda>u. t_from u \<le> clk) us"
        "sorted_wrt (\<lambda>t t'. t_until t \<le> t_from t') us"
      using ok by (auto simp: tenures_ok_def sorted_wrt_append list_all_iff)
    then have "list_all (\<lambda>u. t_until u \<le> clk) us"
      by (auto simp: list_all_iff)
    then show ?thesis
      using True ts us rn
      by (auto simp: note_tenure_def end_last_def tenures_ok_def sorted_wrt_append list_all_iff Let_def split: option.split)
  next
    case False
    then have "list_all (\<lambda>t. t_until t \<le> clk) ts"
      using ro by (intro all_ended [OF ok]) auto
    then show ?thesis
      using False ok rn
      by (auto simp: note_tenure_def tenures_ok_def sorted_wrt_append list_all_iff Let_def split: option.split)
  qed
qed

lemma lawful_updates:
  "lawful me clk (extend_update me lease)" "lawful me clk (prepare_update me d now lease)" "lawful me clk (release_update me)"
  "lawful me clk (clear_update me)"
  "now \<le> clk \<Longrightarrow> lawful me clk (claim_update me url now lease)"
  "now \<le> clk \<Longrightarrow> lawful me clk (stop_update me now)"
  "now \<le> clk \<Longrightarrow> lawful me clk (lapsed_update me now)"
  by (auto simp: lawful_def extend_update_def prepare_update_def release_update_def clear_update_def claim_update_def
      stop_update_def lapsed_update_def cleared_def claimableWhere_def foreign_def sql_before_def row_ok_def
      split: if_splits option.splits)

text \<open>The calls' instants have passed, and a claim that was granted has its entry.\<close>

fun phase_ok :: "own_world \<Rightarrow> string \<Rightarrow> phase \<Rightarrow> bool" where
  "phase_ok w me (ClaimExtends s g now lease) = (now \<le> ow_clock w)"
| "phase_ok w me (ClaimExtended s g now lease b) = (now \<le> ow_clock w \<and> (b \<longrightarrow> me \<in> t_holder ` set (ow_tenures w s)))"
| "phase_ok w me (ClaimReads s g now lease) = (now \<le> ow_clock w)"
| "phase_ok w me (ClaimRead s g now lease prev) = (now \<le> ow_clock w)"
| "phase_ok w me (ClaimWrites s g now lease prev) = (now \<le> ow_clock w)"
| "phase_ok w me (ClaimWrote s g now lease prev b) = (b \<longrightarrow> me \<in> t_holder ` set (ow_tenures w s))"
| "phase_ok w me (Claimed s b) = (b \<longrightarrow> me \<in> t_holder ` set (ow_tenures w s))"
| "phase_ok w me (StopWrites s now) = (now \<le> ow_clock w)"
| "phase_ok w me (ReleaseWrites s now) = (now \<le> ow_clock w)"
| "phase_ok w me (ReleaseLapsed s now) = (now \<le> ow_clock w)"
| "phase_ok w me p = True"

text \<open>A world in which no holder is forgotten and time has not gone back.\<close>

definition follows :: "own_world \<Rightarrow> own_world \<Rightarrow> bool" where
  "follows w w' \<longleftrightarrow> ow_clock w \<le> ow_clock w' \<and> (\<forall>s. t_holder ` set (ow_tenures w s) \<subseteq> t_holder ` set (ow_tenures w' s))
     \<and> ow_calls w' = ow_calls w"

lemma follows_refl: "follows w w"
  by (simp add: follows_def)

lemma follows_trans: "follows w w' \<Longrightarrow> follows w' w'' \<Longrightarrow> follows w w''"
  by (fastforce simp: follows_def)

lemma phase_follows: "follows w w' \<Longrightarrow> phase_ok w me p \<Longrightarrow> phase_ok w' me p"
  by (cases p) (auto simp: follows_def)

lemma holders_end_last: "t_holder ` set (end_last f ts) = t_holder ` set ts"
  by (cases ts rule: rev_cases) (auto simp: end_last_def)

lemma holders_note: "t_holder ` set ts \<subseteq> t_holder ` set (note_tenure me now r r' ts)"
  by (auto simp: note_tenure_def holders_end_last Let_def)

definition table_ok :: "own_world \<Rightarrow> bool" where
  "table_ok w \<longleftrightarrow> (\<forall>s. tenures_ok (ow_clock w) (ow_table w s) (ow_tenures w s))"

lemma update_row_ok:
  assumes "table_ok w" and "lawful me (ow_clock w) f"
  shows "table_ok (snd (update_row me f s w)) \<and> follows w (snd (update_row me f s w))
    \<and> ow_clock (snd (update_row me f s w)) = ow_clock w"
proof (cases "\<exists>r r'. ow_table w s = Some r \<and> f r = Some r'")
  case True
  then obtain r r' where r: "ow_table w s = Some r" "f r = Some r'"
    by blast
  have "tenures_ok (ow_clock w) (Some r') (note_tenure me (ow_clock w) r r' (ow_tenures w s))"
    using assms r by (intro tenures_note [OF _ assms(2) r(2)]) (metis table_ok_def)
  then show ?thesis
    using assms(1) r holders_note [of "ow_tenures w s"] by (simp add: update_row_def table_ok_def follows_def)
next
  case False
  then show ?thesis
    using assms(1) by (auto simp: update_row_def follows_refl split: option.split)
qed

lemma update_rows_ok:
  assumes "table_ok w" and "lawful me (ow_clock w) f"
  shows "table_ok (update_rows me f ss w) \<and> follows w (update_rows me f ss w)"
  using assms unfolding update_rows_def
proof (induction ss arbitrary: w)
  case (Cons s ss)
  then show ?case
    using update_row_ok [OF Cons.prems, of s] by (auto intro: follows_trans)
qed (simp add: follows_refl)

lemma holder_noted: "table_ok w \<Longrightarrow> row_node w s = Some me \<Longrightarrow> me \<in> t_holder ` set (ow_tenures w s)"
  unfolding table_ok_def
  by (drule spec [of _ s]) (auto simp: row_node_def tenures_ok_def split: option.splits)

lemma update_row_granted:
  assumes "table_ok w" "lawful me (ow_clock w) f" "\<And>r r'. f r = Some r' \<Longrightarrow> s_node r' = Some me" "fst (update_row me f s w)"
  shows "me \<in> t_holder ` set (ow_tenures (snd (update_row me f s w)) s)"
proof (rule holder_noted)
  show "table_ok (snd (update_row me f s w))"
    using update_row_ok [OF assms(1,2)] by blast
  show "row_node (snd (update_row me f s w)) s = Some me"
    using assms(3,4) by (auto simp: update_row_def row_node_def split: option.splits)
qed

lemma follow_adoption_ok [simp]:
  "table_ok (followAdoption me s b w) = table_ok w" "follows v (followAdoption me s b w) = follows v w"
  "phase_ok (followAdoption me s b w) = phase_ok w"
  by (auto simp: followAdoption_def table_ok_def follows_def) (intro ext, rename_tac n p, case_tac p; simp)

lemma effect_ok:
  assumes "table_ok w" "phase_ok w me p"
  shows "table_ok (fst (effect me p w)) \<and> follows w (fst (effect me p w)) \<and> phase_ok (fst (effect me p w)) me (snd (effect me p w))"
proof -
  note u = update_row_ok [OF assms(1) lawful_updates(1)] update_row_ok [OF assms(1) lawful_updates(2)]
    update_row_ok [OF assms(1) lawful_updates(3)] update_row_ok [OF assms(1) lawful_updates(4)]
    update_row_ok [OF assms(1) lawful_updates(5)] update_row_ok [OF assms(1) lawful_updates(6)]
    update_row_ok [OF assms(1) lawful_updates(7)]
  note us = update_rows_ok [OF assms(1) lawful_updates(1)] update_rows_ok [OF assms(1) lawful_updates(4)]
  have ext: "me \<in> t_holder ` set (ow_tenures (snd (update_row me (extend_update me lease) s w)) s)"
    if "fst (update_row me (extend_update me lease) s w)" for lease s
    by (rule update_row_granted [OF assms(1) lawful_updates(1) _ that]) (simp add: extend_update_def split: if_splits, auto)
  have clm: "me \<in> t_holder ` set (ow_tenures (snd (update_row me (claim_update me url now lease) s w)) s)"
    if "fst (update_row me (claim_update me url now lease) s w)" "now \<le> ow_clock w" for url now lease s
    by (rule update_row_granted [OF assms(1) lawful_updates(5) _ that(1)]) (use that(2) in \<open>auto simp: claim_update_def split: if_splits\<close>)
  show ?thesis
    using assms u us ext clm by (cases p) (simp_all add: follows_refl case_prod_unfold)
qed

lemma reply_ok: "phase_ok w me p \<Longrightarrow> phase_ok w me (snd (reply alive (ow_clock w) p nd))"
  by (cases p) (auto simp: reply_defs claim_allocates_def renew_def Let_def)

lemma begins_ok: "phase_ok w me (snd (begins rq (ow_clock w) nd))"
  by (cases rq) (auto simp: claim_def claim_allocates_def prepareStart_def stopExpiredForeignClaim_def release_session_def
      release_captured_def releaseAll_def renew_def Let_def)

lemma fails_ok: "phase_ok w me p \<Longrightarrow> phase_ok w me (snd (fails alive p nd))"
  by (cases p) (auto simp: claim_fails_def renew_def)

definition own_ok :: "own_world \<Rightarrow> bool" where
  "own_ok w \<longleftrightarrow> table_ok w \<and> (\<forall>c. phase_ok w (fst (ow_calls w c)) (snd (ow_calls w c)))"

lemma same_follows:
  assumes "table_ok w" "ow_clock w' = ow_clock w" "ow_table w' = ow_table w" "ow_tenures w' = ow_tenures w"
  shows "table_ok w'" "phase_ok w me p \<Longrightarrow> phase_ok w' me p"
proof -
  show "table_ok w'"
    using assms by (simp add: table_ok_def)
  show "phase_ok w me p \<Longrightarrow> phase_ok w' me p"
    using assms by (cases p) auto
qed

lemma own_ok_local:
  assumes "own_ok w" "ow_clock w' = ow_clock w" "ow_table w' = ow_table w" "ow_tenures w' = ow_tenures w" "ow_calls w' = ow_calls w"
    "phase_ok w me p"
  shows "own_ok (locally_done c me (nd, p) w')"
proof -
  let ?w = "locally_done c me (nd, p) w'"
  have eq: "ow_clock ?w = ow_clock w" "ow_table ?w = ow_table w" "ow_tenures ?w = ow_tenures w"
    using assms(2-4) by (simp_all add: locally_done_def)
  have t: "table_ok w"
    using assms(1) by (simp add: own_ok_def)
  have "phase_ok ?w (fst (ow_calls ?w x)) (snd (ow_calls ?w x))" for x
    using assms(1,5,6) by (intro same_follows(2) [OF t eq]) (auto simp: own_ok_def locally_done_def)
  then show ?thesis
    using same_follows(1) [OF t eq] by (simp add: own_ok_def)
qed

lemma own_ok_effect:
  assumes "own_ok w" "ow_calls w c = (me, p)" "phase_ok (fst (effect me p w)) me p'"
  shows "own_ok (fst (effect me p w)\<lparr>ow_calls := (ow_calls w)(c := (me, p'))\<rparr>)"
proof -
  have "phase_ok w me p" "table_ok w"
    using assms(1,2) by (auto simp: own_ok_def) (metis fst_conv snd_conv)
  note e = effect_ok [OF this(2,1)]
  let ?v = "fst (effect me p w)" and ?w = "fst (effect me p w)\<lparr>ow_calls := (ow_calls w)(c := (me, p'))\<rparr>"
  have eq: "ow_clock ?w = ow_clock ?v" "ow_table ?w = ow_table ?v" "ow_tenures ?w = ow_tenures ?v"
    by simp_all
  have "phase_ok ?v (fst (ow_calls ?w x)) (snd (ow_calls ?w x))" for x
    using assms e phase_follows [of w ?v] by (auto simp: own_ok_def)
  then have "phase_ok ?w (fst (ow_calls ?w x)) (snd (ow_calls ?w x))" for x
    using same_follows(2) [OF _ eq] e by blast
  then show ?thesis
    using same_follows(1) [OF _ eq] e by (simp add: own_ok_def)
qed

lemma effect_frame: "ow_calls (fst (effect me p w)) = ow_calls w" "ow_nodes (fst (effect me p w)) = ow_nodes w"
proof -
  have row: "ow_calls (snd (update_row me f s w)) = ow_calls w" "ow_nodes (snd (update_row me f s w)) = ow_nodes w" for f s w
    by (auto simp: update_row_def split: option.split)
  have rows: "ow_calls (update_rows me f ss w) = ow_calls w" "ow_nodes (update_rows me f ss w) = ow_nodes w" for f ss w
    unfolding update_rows_def by (induction ss arbitrary: w) (simp_all add: row)
  show "ow_calls (fst (effect me p w)) = ow_calls w" "ow_nodes (fst (effect me p w)) = ow_nodes w"
    using row rows by (cases p; simp add: case_prod_unfold followAdoption_def)+
qed

lemma own_ok_step:
  assumes "own_step w w'" "own_ok w"
  shows "own_ok w'"
  using assms(1)
proof cases
  case (time t)
  have "tenures_ok (ow_clock w) x ts \<Longrightarrow> tenures_ok t x ts" for x ts
    using time(2) by (fastforce simp: tenures_ok_def list_all_iff split: option.splits)
  moreover have "phase_ok w me p \<Longrightarrow> phase_ok (w\<lparr>ow_clock := t\<rparr>) me p" for me p
    using time(2) by (cases p) auto
  ultimately show ?thesis
    using assms(2) time(1) by (simp add: own_ok_def table_ok_def)
next
  case (begins c me rq)
  then show ?thesis
    using own_ok_local [OF assms(2) refl refl refl refl begins_ok] by (metis prod.collapse)
next
  case (effect c)
  obtain me p where c: "ow_calls w c = (me, p)"
    by fastforce
  then have "phase_ok w me p" "table_ok w"
    using assms(2) by (auto simp: own_ok_def) (metis fst_conv snd_conv)
  then have "phase_ok (fst (effect me p w)) me (snd (effect me p w))"
    using effect_ok by blast
  then show ?thesis
    using own_ok_effect [OF assms(2) c] effect c by (simp add: effected_def case_prod_unfold effect_frame)
next
  case (reply alive c)
  obtain me p where c: "ow_calls w c = (me, p)"
    by fastforce
  then have p: "phase_ok w me p"
    using assms(2) by (auto simp: own_ok_def) (metis fst_conv snd_conv)
  obtain nd p' where r: "reply alive (ow_clock w) p (ow_nodes w me) = (nd, p')"
    by fastforce
  have "phase_ok w me p'"
    using reply_ok [OF p, of alive "ow_nodes w me"] r by simp
  then have "own_ok (locally_done c me (nd, p') (logged me p w))"
    by (intro own_ok_local [OF assms(2)]) (simp_all add: logged_def)
  then show ?thesis
    using reply c r by (simp add: replied_def)
next
  case (fails c me p alive)
  then have "phase_ok w me (snd (fails alive p (ow_nodes w me)))"
    using assms(2) by (intro fails_ok) (auto simp: own_ok_def, metis fst_conv snd_conv)
  then show ?thesis
    using own_ok_local [OF assms(2) refl refl refl refl] fails by (metis prod.collapse)
next
  case (reply_lost c me p alive)
  let ?r = "fails alive p (ow_nodes w me)" and ?v = "fst (effect me p w)"
  have "phase_ok w me p" "table_ok w"
    using assms(2) reply_lost(2) by (auto simp: own_ok_def) (metis fst_conv snd_conv)
  then have "phase_ok ?v me (snd ?r)"
    using fails_ok phase_follows effect_ok by blast
  then have ok: "own_ok (?v\<lparr>ow_calls := (ow_calls w)(c := (me, snd ?r))\<rparr>)"
    by (rule own_ok_effect [OF assms(2) reply_lost(2)])
  have "phase_ok (?v\<lparr>ow_calls := (ow_calls w)(c := (me, snd ?r))\<rparr>) me (snd ?r)"
    using ok by (simp add: own_ok_def) (metis fst_conv snd_conv fun_upd_same)
  from own_ok_local [OF ok refl refl refl refl this, of c "fst ?r"] show ?thesis
    using reply_lost(1) by (simp add: locally_done_def effect_frame)
next
  case (suspends me b)
  have "phase_ok (w\<lparr>ow_nodes := f\<rparr>) n p = phase_ok w n p" for f n p
    by (cases p) auto
  then show ?thesis
    using assms(2) suspends by (simp add: own_ok_def table_ok_def)
qed

lemma own_ok_reach: "own_reach w \<Longrightarrow> own_ok w"
proof (induction rule: own_reach.induct)
  case (start w)
  then show ?case
    by (auto simp: own_ok_def table_ok_def tenures_ok_def row_node_def split: option.splits) (metis option.simps(5) option.distinct(1))
qed (rule own_ok_step)

section \<open>Generations\<close>

text \<open>A node's generations come from one sequence: a generation it did not have before is newer than any it had.\<close>

definition gen_grows :: "node_state \<Rightarrow> node_state \<Rightarrow> bool" where
  "gen_grows nd nd' \<longleftrightarrow> nd_seq nd \<le> nd_seq nd' \<and> (\<forall>s g. nd_gen nd' s = Some g \<longrightarrow> nd_gen nd s = Some g \<or> nd_seq nd < g \<and> g \<le> nd_seq nd')"

lemma gen_grows_refl [simp]: "gen_grows nd nd"
  by (simp add: gen_grows_def)

lemma gen_grows_trans: "gen_grows a b \<Longrightarrow> gen_grows b c \<Longrightarrow> gen_grows a c"
  unfolding gen_grows_def by (meson le_less_trans order_trans less_le_trans)

lemma gen_same: "nd_seq nd' = nd_seq nd \<Longrightarrow> nd_gen nd' = nd_gen nd \<Longrightarrow> gen_grows nd nd'"
  by (simp add: gen_grows_def)

lemma gen_steps:
  "gen_grows nd (own_add s lease nd)" "gen_grows nd (own_drop s nd)" "gen_grows nd (new_generation s nd)"
  "gen_grows nd (nd\<lparr>nd_gen := (nd_gen nd)(s := None)\<rparr>)" "gen_grows nd (fst (claim_allocates s now lease nd))"
  "gen_grows nd (fst (renew alive nd))" "gen_grows nd (noteForeignRenewals now rs nd)"
  by (auto simp: gen_grows_def own_add_def own_drop_def new_generation_def claim_allocates_def renew_def noteForeignRenewals_def Let_def)

lemma gen_drops: "gen_grows nd (fold own_drop ss nd)"
  by (induction ss arbitrary: nd) (auto intro: gen_grows_trans gen_steps)

lemma gen_reply: "gen_grows nd (fst (reply alive clk p nd))"
proof (cases p)
  case (ClaimExtended s g now lease b)
  then show ?thesis
    by (auto simp: claim_extended_def Let_def intro: gen_steps gen_grows_trans [OF gen_steps(1)])
qed (auto simp: reply_defs intro: gen_steps gen_drops gen_same)

lemma gen_begins: "gen_grows nd (fst (begins rq now nd))"
  by (cases rq) (auto simp: claim_def prepareStart_def stopExpiredForeignClaim_def release_session_def release_captured_def
      releaseAll_def Let_def intro: gen_steps gen_drops)

lemma gen_fails: "gen_grows nd (fst (fails alive p nd))"
  by (cases p) (auto simp: claim_fails_def intro: gen_steps)

lemma gen_step:
  assumes "own_step w w'"
  shows "gen_grows (ow_nodes w me) (ow_nodes w' me)"
  using assms
proof cases
  case (effect c)
  then show ?thesis
    using effect_frame(2) by (auto simp: effected_def split: prod.splits) (metis fst_conv gen_grows_refl)
next
  case (reply_lost c n p alive)
  then show ?thesis
    by (simp add: locally_done_def effect_frame gen_fails)
qed (auto simp: locally_done_def replied_def logged_def suspendLossDetection_def gen_same gen_begins gen_reply gen_fails split: prod.splits)

lemma own_after: "own_step\<^sup>*\<^sup>* a b \<Longrightarrow> own_step b c \<Longrightarrow> own_step\<^sup>*\<^sup>* a c"
  by (rule rtranclp.rtrancl_into_rtrancl)

lemma gen_run: "own_step\<^sup>*\<^sup>* w w' \<Longrightarrow> gen_grows (ow_nodes w me) (ow_nodes w' me)"
  by (induction rule: rtranclp_induct) (auto intro: gen_grows_trans gen_step)

lemma gen_bound: "own_reach w \<Longrightarrow> nd_gen (ow_nodes w me) s = Some g \<Longrightarrow> g \<le> nd_seq (ow_nodes w me)"
proof (induction arbitrary: s g rule: own_reach.induct)
  case (step w w')
  then show ?case
    using gen_step [OF step.hyps(2), of me] unfolding gen_grows_def by (meson order_trans)
qed simp

section \<open>Properties\<close>

text \<open>
  C8: one holder at a time. However the claims, starts, stops, releases and renewals of all nodes interleave, with statements
  delayed or failing and replies lost, no instant lies in two tenures of a session: a node takes a session only when its holder
  released it or the holder's lease has run out. The row names the holder of the last tenure and its end, and a claim was
  answered with true only to a node that was given a tenure.
\<close>

theorem leases_exclusive:
  assumes "own_reach w"
  shows "(\<forall>t \<in> set (ow_tenures w s). \<forall>t' \<in> set (ow_tenures w s). \<forall>x.
        t_from t \<le> x \<and> x < t_until t \<and> t_from t' \<le> x \<and> x < t_until t' \<longrightarrow> t = t')
    \<and> (\<forall>a. row_node w s = Some a \<longrightarrow> ow_tenures w s \<noteq> [] \<and> t_holder (last (ow_tenures w s)) = a
        \<and> row_lease w s = Some (t_until (last (ow_tenures w s))))
    \<and> (\<forall>c a. ow_calls w c = (a, Claimed s True) \<longrightarrow> (\<exists>t \<in> set (ow_tenures w s). t_holder t = a))"
proof -
  have ok: "table_ok w" and calls: "\<And>c. phase_ok w (fst (ow_calls w c)) (snd (ow_calls w c))"
    using own_ok_reach [OF assms] by (auto simp: own_ok_def)
  then have t: "tenures_ok (ow_clock w) (ow_table w s) (ow_tenures w s)"
    by (simp add: table_ok_def)
  have "t = t'" if h: "t \<in> set (ow_tenures w s)" "t' \<in> set (ow_tenures w s)" "t_from t \<le> x" "x < t_until t" "t_from t' \<le> x" "x < t_until t'"
    for t t' x
  proof -
    obtain i j where ij: "i < length (ow_tenures w s)" "ow_tenures w s ! i = t" "j < length (ow_tenures w s)" "ow_tenures w s ! j = t'"
      using h(1,2) by (auto simp: in_set_conv_nth)
    have "\<not> i < j" "\<not> j < i"
      using t ij h(3-6) by (force simp: tenures_ok_def sorted_wrt_iff_nth_less)+
    then show ?thesis
      using ij by (metis linorder_neqE_nat)
  qed
  moreover have "ow_tenures w s \<noteq> [] \<and> t_holder (last (ow_tenures w s)) = a \<and> row_lease w s = Some (t_until (last (ow_tenures w s)))"
    if "row_node w s = Some a" for a
    using t that by (auto simp: tenures_ok_def row_node_def row_lease_def split: option.splits)
  moreover have "\<exists>t \<in> set (ow_tenures w s). t_holder t = a" if "ow_calls w c = (a, Claimed s True)" for c a
    using calls [of c] that by auto
  ultimately show ?thesis
    by blast
qed

text \<open>Node A claims a free session; B asks while the lease runs and is refused.\<close>

definition fresh_node :: node_state where
  "fresh_node = \<lparr>nd_owned = [], nd_gen = (\<lambda>_. None), nd_seq = 0, nd_seen = (\<lambda>_. None), nd_streak = (\<lambda>_. None), nd_reported = False,
     nd_suspended = 0, nd_ttl = 60, nd_url = [], nd_adopts = False\<rparr>"

definition own_demo :: own_world where
  "own_demo = \<lparr>ow_nodes = (\<lambda>_. fresh_node),
     ow_table = [''s1'' \<mapsto> \<lparr>s_node = None, s_claimed = None, s_lease = None, s_url = None, s_desired = None\<rparr>], ow_ids = [''s1''],
     ow_calls = (\<lambda>_. (''A'', Quiet)), ow_tenures = (\<lambda>_. []), ow_adopted = [], ow_lost = [], ow_clock = 100\<rparr>"

definition does_claim :: "nat \<Rightarrow> string \<Rightarrow> own_world \<Rightarrow> own_world" where
  "does_claim c me w =
     replied (\<lambda>_. True) c (effected c (locally_done c me (begins (WantClaim ''s1'') (ow_clock w) (ow_nodes w me)) w))"

lemmas own_demo_defs = own_demo_def fresh_node_def does_claim_def replied_def effected_def locally_done_def logged_def claim_def
  claim_allocates_def new_generation_def owns_def update_row_def claim_update_def claimableWhere_def sql_before_def note_tenure_def
  own_add_def captureClaim_def own_drop_def release_session_def reply_defs Let_def

lemma demo_claim: "own_reach w \<Longrightarrow> snd (ow_calls w c) = Quiet \<Longrightarrow> own_reach (does_claim c me w)"
  unfolding does_claim_def by (intro own_reach.step [OF _ own_step.reply] own_reach.step [OF _ own_step.effect] own_reach.step [OF _ own_step.begins])

lemma demo_start: "own_reach own_demo"
  by (rule own_reach.start) (simp_all add: own_demo_defs row_node_def)

lemma demo_claimed: "own_reach (does_claim 1 ''B'' (does_claim 0 ''A'' own_demo))"
  by (intro demo_claim demo_start) (simp_all add: own_demo_defs)

theorem leases_exclusive_witness:
  "own_reach (does_claim 1 ''B'' (does_claim 0 ''A'' own_demo))
   \<and> ow_calls (does_claim 1 ''B'' (does_claim 0 ''A'' own_demo)) 0 = (''A'', Claimed ''s1'' True)
   \<and> ow_calls (does_claim 1 ''B'' (does_claim 0 ''A'' own_demo)) 1 = (''B'', Claimed ''s1'' False)
   \<and> (\<exists>t \<in> set (ow_tenures (does_claim 1 ''B'' (does_claim 0 ''A'' own_demo)) ''s1''). t_holder t = ''A'')"
proof -
  let ?w = "does_claim 1 ''B'' (does_claim 0 ''A'' own_demo)"
  have "ow_calls ?w 0 = (''A'', Claimed ''s1'' True)" "ow_calls ?w 1 = (''B'', Claimed ''s1'' False)"
    by (simp_all add: own_demo_defs)
  then show ?thesis
    using leases_exclusive [OF demo_claimed, of "''s1''"] demo_claimed by blast
qed

text \<open>
  C35: a captured claim does not come back. Once the generation a claim was captured under is gone from its node (the session was
  released, lost or claimed anew), the captured check fails from then on, whatever the node and the others do afterwards.
\<close>

theorem captured_claim_ends:
  assumes "own_reach w0" and "captureClaim s (Some g) (ow_nodes w0 me)" and "own_step\<^sup>*\<^sup>* w0 w"
    and "nd_gen (ow_nodes w me) s \<noteq> Some g" and "own_step\<^sup>*\<^sup>* w w'"
  shows "\<not> captureClaim s (Some g) (ow_nodes w' me)"
proof -
  have "g \<le> nd_seq (ow_nodes w me)"
    using gen_run [OF assms(3), of me] gen_bound [OF assms(1), of me s g] assms(2) by (simp add: gen_grows_def captureClaim_def)
  then show ?thesis
    using gen_run [OF assms(5), of me] assms(4) by (force simp: captureClaim_def gen_grows_def)
qed

text \<open>Node A releases its claim and claims again: the first capture stays ended.\<close>

theorem captured_claim_ends_witness:
  "captureClaim ''s1'' (Some 1) (ow_nodes (does_claim 0 ''A'' own_demo) ''A'')
   \<and> (let w = locally_done 1 ''A'' (begins (WantRelease ''s1'') (ow_clock (does_claim 0 ''A'' own_demo))
            (ow_nodes (does_claim 0 ''A'' own_demo) ''A'')) (does_claim 0 ''A'' own_demo)
      in \<not> captureClaim ''s1'' (Some 1) (ow_nodes (does_claim 2 ''A'' w) ''A''))"
proof -
  let ?v = "does_claim 0 ''A'' own_demo"
  let ?w = "locally_done 1 ''A'' (begins (WantRelease ''s1'') (ow_clock ?v) (ow_nodes ?v ''A'')) ?v"
  have r: "own_reach ?v"
    by (intro demo_claim demo_start) (simp add: own_demo_defs)
  have c: "captureClaim ''s1'' (Some 1) (ow_nodes ?v ''A'')"
    by (simp add: own_demo_defs)
  have "own_step ?v ?w"
    by (rule own_step.begins) (simp add: own_demo_defs)
  then have vw: "own_step\<^sup>*\<^sup>* ?v ?w"
    by blast
  have g: "nd_gen (ow_nodes ?w ''A'') ''s1'' \<noteq> Some 1"
    by (simp add: own_demo_defs)
  have "snd (ow_calls ?w 2) = Quiet"
    by (simp add: own_demo_defs)
  then have "own_step\<^sup>*\<^sup>* ?w (does_claim 2 ''A'' ?w)"
    unfolding does_claim_def
    by (intro own_after [OF _ own_step.reply] own_after [OF _ own_step.effect] own_after [OF rtranclp.rtrancl_refl own_step.begins])
  from captured_claim_ends [OF r c vw g this] show ?thesis
    using c by (simp add: Let_def)
qed

end
