(* ===== verification/Reconnect.thy ===== *)
theory Reconnect
  imports Complex_Main Prelude
begin

text \<open>
  The reconnect backoff of a session: the policy of \<^verbatim>\<open>src/src/modules/session/reconnect-policy.ts\<close> and the state the
  lifecycle (\<^verbatim>\<open>session-engine-lifecycle.service.ts\<close>) keeps for it, from READY and drop reports to the armed timer.
  A JavaScript number is a rational, an infinity or NaN where the code distinguishes them.
\<close>

section \<open>Numbers and configuration\<close>

datatype js_number = Finite rat | PosInf | NegInf | NaN

definition clampNumber :: "rat \<Rightarrow> rat \<Rightarrow> rat \<Rightarrow> rat" where
  "clampNumber v lo hi = min (max v lo) hi"

definition RECONNECT_LOOP_ALERT_INTERVAL_ATTEMPTS :: nat where
  "RECONNECT_LOOP_ALERT_INTERVAL_ATTEMPTS = 5"

definition RECONNECT_DELAY_CAP_MS :: rat where
  "RECONNECT_DELAY_CAP_MS = 300000"

definition STABLE_READY_MS :: int where
  "STABLE_READY_MS = 300000"

definition clampReconnectDelay :: "js_number \<Rightarrow> rat \<Rightarrow> rat" where
  "clampReconnectDelay rawDelay baseDelay =
     (case rawDelay of
        Finite d \<Rightarrow> clampNumber d 0 RECONNECT_DELAY_CAP_MS
      | NaN \<Rightarrow> clampNumber baseDelay 0 RECONNECT_DELAY_CAP_MS
      | PosInf \<Rightarrow> RECONNECT_DELAY_CAP_MS
      | NegInf \<Rightarrow> 0)"

definition RECONNECT_BASE_DELAY_MIN_MS :: rat where
  "RECONNECT_BASE_DELAY_MIN_MS = 1000"

definition RECONNECT_BASE_DELAY_MAX_MS :: rat where
  "RECONNECT_BASE_DELAY_MAX_MS = 300000"

definition RECONNECT_MAX_ATTEMPTS_CAP :: rat where
  "RECONNECT_MAX_ATTEMPTS_CAP = 20"

text \<open>
  The two knobs of a session's configuration as \<open>toNumber\<close> reads them: NaN for an unset one. An unlimited budget
  (\<open>Infinity\<close>) is \<open>None\<close>.
\<close>

definition resolveReconnectConfig :: "js_number \<Rightarrow> js_number \<Rightarrow> nat option \<times> rat" where
  "resolveReconnectConfig attemptsRaw baseRaw =
     ((case attemptsRaw of
         Finite a \<Rightarrow> Some (nat \<lfloor>clampNumber a 0 RECONNECT_MAX_ATTEMPTS_CAP\<rfloor>)
       | _ \<Rightarrow> None),
      of_int \<lfloor>clampNumber (case baseRaw of Finite b \<Rightarrow> b | _ \<Rightarrow> 5000) RECONNECT_BASE_DELAY_MIN_MS RECONNECT_BASE_DELAY_MAX_MS\<rfloor>)"

section \<open>The decision\<close>

record reconnect_state =
  rc_attempts :: nat
  rc_max :: "nat option"
  rc_base :: rat
  rc_timer :: bool
  rc_teardown :: bool
  rc_readyAt :: "int option"
  rc_readyEnded :: "int option"
  rc_phone :: "string option option"

text \<open>The reason of an exhausted budget, which the code words for the operator.\<close>

datatype exhaustion = ReconnectDisabled | FailedAfter nat

datatype reconnect_decision = Exhausted exhaustion | Scheduled rat nat bool

definition spent :: "reconnect_state \<Rightarrow> bool" where
  "spent st = (case rc_max st of None \<Rightarrow> False | Some m \<Rightarrow> m \<le> rc_attempts st)"

definition decideReconnect :: "rat \<Rightarrow> reconnect_state \<Rightarrow> reconnect_decision \<times> reconnect_state" where
  "decideReconnect jitter st =
     (if spent st
      then (Exhausted (if rc_max st = Some 0 then ReconnectDisabled else FailedAfter (rc_attempts st)), st)
      else let delay = clampReconnectDelay (Finite (rc_base st * 2 ^ min (rc_attempts st) 30 + jitter)) (rc_base st);
               st' = st\<lparr>rc_attempts := Suc (rc_attempts st)\<rparr>
           in (Scheduled delay (rc_attempts st')
                 (0 < rc_attempts st' \<and> rc_attempts st' mod RECONNECT_LOOP_ALERT_INTERVAL_ATTEMPTS = 0), st'))"

section \<open>The backoff state of a session\<close>

definition fresh_reconnect :: "nat option \<times> rat \<Rightarrow> reconnect_state" where
  "fresh_reconnect cfg = \<lparr>rc_attempts = 0, rc_max = fst cfg, rc_base = snd cfg, rc_timer = False, rc_teardown = False,
     rc_readyAt = None, rc_readyEnded = None, rc_phone = None\<rparr>"

definition isReconnectPending :: "reconnect_state \<Rightarrow> bool" where
  "isReconnectPending st \<longleftrightarrow> rc_timer st \<or> (0 < rc_attempts st \<and> rc_readyAt st = None)"

definition readyStretchHeld :: "int \<Rightarrow> reconnect_state \<Rightarrow> bool" where
  "readyStretchHeld now st =
     (case rc_readyAt st of
        None \<Rightarrow> False
      | Some r \<Rightarrow> STABLE_READY_MS \<le> (case rc_readyEnded st of None \<Rightarrow> now | Some e \<Rightarrow> e) - r)"

definition endReadyStretch :: "int \<Rightarrow> reconnect_state \<Rightarrow> reconnect_state" where
  "endReadyStretch now st =
     (if rc_readyAt st \<noteq> None \<and> rc_readyEnded st = None then st\<lparr>rc_readyEnded := Some now\<rparr> else st)"

text \<open>READY: the pending attempt ends, and a READY before that held the window ends the streak.\<close>

definition reconnect_ready :: "int \<Rightarrow> string \<Rightarrow> reconnect_state \<Rightarrow> reconnect_state" where
  "reconnect_ready now phone st =
     st\<lparr>rc_phone := (if phone \<noteq> [] \<and> rc_phone st \<noteq> None then Some (Some phone) else rc_phone st),
        rc_attempts := (if readyStretchHeld now st then 0 else rc_attempts st),
        rc_readyAt := Some now, rc_readyEnded := None, rc_timer := False\<rparr>"

text \<open>What a drop report calls for. The exhausted end drops the state.\<close>

datatype reconnect_effect = SetError exhaustion "string option" | WriteFailedStatus | ErrorHook exhaustion "string option" | EvictEngine | LoopAlert nat rat | ArmTimer rat

definition RECONNECT_LOOP_REASON :: string where
  "RECONNECT_LOOP_REASON = ''Reconnecting after a dropped connection''"

text \<open>The last attempt's own failure is kept beside the reason, unless it is empty or the loop banner.\<close>

definition kept_error :: "string option \<Rightarrow> string option" where
  "kept_error lastError =
     (case lastError of
        Some e \<Rightarrow> if e \<noteq> [] \<and> take (length RECONNECT_LOOP_REASON) e \<noteq> RECONNECT_LOOP_REASON then Some e else None
      | None \<Rightarrow> None)"

definition scheduleReconnect ::
    "bool \<Rightarrow> bool \<Rightarrow> bool \<Rightarrow> string option \<Rightarrow> int \<Rightarrow> rat \<Rightarrow> string option \<Rightarrow> reconnect_state option
     \<Rightarrow> reconnect_state option \<times> reconnect_effect list" where
  "scheduleReconnect shuttingDown owned hasEngine lastError now jitter phone found =
     (if shuttingDown then (found, [])
      else case found of
        None \<Rightarrow> (None, [])
      | Some st \<Rightarrow>
          if rc_timer st \<or> rc_teardown st
          then (Some (if rc_phone st \<noteq> None \<and> phone = None then st\<lparr>rc_phone := Some None\<rparr> else st), [])
          else
            let st1 = (if rc_readyAt st \<noteq> None
                       then st\<lparr>rc_attempts := (if readyStretchHeld now st then 0 else rc_attempts st), rc_readyAt := None, rc_readyEnded := None\<rparr>
                       else st)
            in case decideReconnect jitter st1 of
                 (Exhausted reason, st2) \<Rightarrow>
                   (None, [SetError reason (kept_error lastError)] @ (if owned then [WriteFailedStatus] else [])
                      @ [ErrorHook reason (kept_error lastError)] @ (if hasEngine then [EvictEngine] else []))
               | (Scheduled delay attempt alert, st2) \<Rightarrow>
                   (Some (st2\<lparr>rc_phone := Some phone, rc_timer := True\<rparr>),
                    (if alert then [LoopAlert attempt delay] else []) @ [ArmTimer delay]))"

section \<open>Episodes\<close>

text \<open>
  What happens to a session while no READY stretch holds the stability window: READY reports, the engine leaving READY
  by itself, drop reports, the timer firing into a teardown, the teardown's end, and a retry of the session row's read taking
  or leaving the same timer. The log has the delays of the armed
  timers in order, with the jitter each was given; the state is gone once the budget is exhausted.
\<close>

fun armed :: "reconnect_effect list \<Rightarrow> rat list" where
  "armed [] = []"
| "armed (ArmTimer d # es) = d # armed es"
| "armed (_ # es) = armed es"

fun alerts :: "reconnect_effect list \<Rightarrow> nat list" where
  "alerts [] = []"
| "alerts (LoopAlert n d # es) = n # alerts es"
| "alerts (_ # es) = alerts es"

inductive flapping :: "reconnect_state option \<Rightarrow> (rat \<times> rat) list \<Rightarrow> reconnect_effect list \<Rightarrow> reconnect_state option \<Rightarrow> bool" for st0 where
  start: "flapping st0 [] [] st0"
| ready: "flapping st0 ds es (Some st) \<Longrightarrow> \<not> readyStretchHeld now st \<Longrightarrow> flapping st0 ds es (Some (reconnect_ready now phone st))"
| leaves: "flapping st0 ds es (Some st) \<Longrightarrow> flapping st0 ds es (Some (endReadyStretch now st))"
| drops: "flapping st0 ds es (Some st) \<Longrightarrow> \<not> readyStretchHeld now st \<Longrightarrow>
    scheduleReconnect False owned hasEngine lastError now jitter phone (Some st) = (st', es') \<Longrightarrow>
    flapping st0 (ds @ map (Pair jitter) (armed es')) (es @ es') st'"
| fires: "flapping st0 ds es (Some st) \<Longrightarrow> rc_timer st \<Longrightarrow> flapping st0 ds es (Some (st\<lparr>rc_timer := False, rc_teardown := True\<rparr>))"
| read_retry: "flapping st0 ds es (Some st) \<Longrightarrow> flapping st0 ds es (Some (st\<lparr>rc_timer := b\<rparr>))"
| torn_down: "flapping st0 ds es (Some st) \<Longrightarrow> flapping st0 ds es (Some (st\<lparr>rc_teardown := False\<rparr>))"

definition backoff_delay :: "rat \<Rightarrow> nat \<Rightarrow> rat \<Rightarrow> rat" where
  "backoff_delay base n jitter = clampNumber (base * 2 ^ min n 30 + jitter) 0 RECONNECT_DELAY_CAP_MS"

lemma same_phone: "\<exists>q. st = st\<lparr>rc_phone := q\<rparr>"
  by (rule exI [of _ "rc_phone st"]) simp

lemma schedule_arms:
  assumes "scheduleReconnect False owned hasEngine lastError now jitter phone (Some st) = (st', es)" "\<not> readyStretchHeld now st"
  shows "(rc_timer st \<or> rc_teardown st) \<and> es = [] \<and> (\<exists>q. st' = Some (st\<lparr>rc_phone := q\<rparr>))
    \<or> spent st \<and> st' = None \<and> armed es = [] \<and> alerts es = []
    \<or> \<not> spent st \<and> (\<exists>st1. st' = Some st1 \<and> rc_attempts st1 = Suc (rc_attempts st) \<and> rc_max st1 = rc_max st \<and> rc_base st1 = rc_base st)
      \<and> armed es = [backoff_delay (rc_base st) (rc_attempts st) jitter]
      \<and> alerts es = (if Suc (rc_attempts st) mod 5 = 0 then [Suc (rc_attempts st)] else [])"
  using assms
  by (cases "spent st"; cases "rc_readyAt st"; cases "rc_timer st \<or> rc_teardown st") (auto simp: same_phone scheduleReconnect_def decideReconnect_def spent_def Let_def backoff_delay_def clampReconnectDelay_def
      RECONNECT_LOOP_ALERT_INTERVAL_ATTEMPTS_def split: if_splits option.splits)

lemma alerts_append: "alerts (xs @ ys) = alerts xs @ alerts ys"
  by (induction xs rule: alerts.induct) auto

definition episode_ok :: "nat option \<times> rat \<Rightarrow> (rat \<times> rat) list \<Rightarrow> reconnect_effect list \<Rightarrow> reconnect_state option \<Rightarrow> bool" where
  "episode_ok cfg ds es st \<longleftrightarrow>
     (\<forall>k < length ds. snd (ds ! k) = backoff_delay (snd cfg) k (fst (ds ! k)))
     \<and> alerts es = filter (\<lambda>n. n mod 5 = 0) [1 ..< Suc (length ds)]
     \<and> (case fst cfg of None \<Rightarrow> True | Some m \<Rightarrow> length ds \<le> m)
     \<and> (case st of
          None \<Rightarrow> fst cfg = Some (length ds)
        | Some s \<Rightarrow> rc_attempts s = length ds \<and> rc_max s = fst cfg \<and> rc_base s = snd cfg)"

lemma episode_drop:
  assumes "episode_ok cfg ds es (Some st)" "\<not> readyStretchHeld now st"
    "scheduleReconnect False owned hasEngine lastError now jitter phone (Some st) = (st', es')"
  shows "episode_ok cfg (ds @ map (Pair jitter) (armed es')) (es @ es') st'"
proof -
  consider "es' = []" "\<exists>q. st' = Some (st\<lparr>rc_phone := q\<rparr>)"
    | "spent st" "st' = None" "armed es' = []" "alerts es' = []"
    | st1 where "\<not> spent st" "st' = Some st1" "rc_attempts st1 = Suc (rc_attempts st)" "rc_max st1 = rc_max st" "rc_base st1 = rc_base st"
      "armed es' = [backoff_delay (rc_base st) (rc_attempts st) jitter]"
      "alerts es' = (if Suc (rc_attempts st) mod 5 = 0 then [Suc (rc_attempts st)] else [])"
    using schedule_arms [OF assms(3,2)] by blast
  then show ?thesis
  proof cases
    case 1
    then show ?thesis
      using assms(1) by (auto simp: episode_ok_def simp del: upt_Suc)
  next
    case 2
    then show ?thesis
      using assms(1) by (auto simp: episode_ok_def alerts_append spent_def simp del: upt_Suc split: option.splits)
  next
    case 3
    have "[1 ..< Suc (Suc (length ds))] = [1 ..< Suc (length ds)] @ [Suc (length ds)]"
      by simp
    with 3 show ?thesis
      using assms(1)
      by (auto simp: episode_ok_def alerts_append spent_def nth_append less_Suc_eq simp del: upt_Suc split: option.splits)
  qed
qed

lemma flapping_episode:
  assumes "flapping (Some (fresh_reconnect cfg)) ds es st"
  shows "episode_ok cfg ds es st"
  using assms
proof (induction rule: flapping.induct)
  case start
  then show ?case
    by (simp add: episode_ok_def fresh_reconnect_def split: option.split)
next
  case (drops ds es st now owned hasEngine lastError jitter phone st' es')
  then show ?case
    using episode_drop by blast
qed (auto simp: episode_ok_def reconnect_ready_def endReadyStretch_def)

lemma config_base: "1000 \<le> snd (resolveReconnectConfig a b)"
  by (simp add: resolveReconnectConfig_def clampNumber_def RECONNECT_BASE_DELAY_MIN_MS_def RECONNECT_BASE_DELAY_MAX_MS_def le_floor_iff)

lemma config_budget: "fst (resolveReconnectConfig a b) = Some m \<Longrightarrow> m \<le> 20"
  by (auto simp: resolveReconnectConfig_def clampNumber_def RECONNECT_MAX_ATTEMPTS_CAP_def floor_le_iff nat_le_iff split: js_number.splits)

lemma backoff_at_least:
  assumes "1000 \<le> base" "0 \<le> jitter"
  shows "1000 \<le> backoff_delay base n jitter"
proof -
  have "1000 * 1 \<le> base * 2 ^ min n 30"
    using assms(1) by (intro mult_mono) auto
  with assms(2) show ?thesis
    by (simp add: backoff_delay_def clampNumber_def RECONNECT_DELAY_CAP_MS_def le_max_iff_disj)
qed

lemma ready_ends_pending: "\<not> isReconnectPending (reconnect_ready now phone st)"
  by (simp add: isReconnectPending_def reconnect_ready_def)

section \<open>Properties\<close>

text \<open>
  C26: a flapping session backs off. As long as no READY of a session holds for five minutes, whatever READY and drop
  reports and attempts interleave, the attempt numbered k (from 0) is delayed by the configured base delay times 2 to the k (the
  exponent capped at 30) plus its jitter, cut to five minutes and, whatever the configuration holds, never less than a second; the
  operator is alerted at the attempts numbered by multiples of five, once each; a limited budget (20 at most) is never
  exceeded, and the session is given up only when exactly the budget was used.
\<close>

theorem flapping_backs_off:
  assumes "cfg = resolveReconnectConfig a b" "flapping (Some (fresh_reconnect cfg)) ds es st"
  shows "(\<forall>k < length ds. snd (ds ! k) = min (max (snd cfg * 2 ^ min k 30 + fst (ds ! k)) 0) 300000
      \<and> (0 \<le> fst (ds ! k) \<longrightarrow> 1000 \<le> snd (ds ! k)))
    \<and> alerts es = filter (\<lambda>n. n mod 5 = 0) [1 ..< Suc (length ds)]
    \<and> (case fst cfg of None \<Rightarrow> True | Some m \<Rightarrow> length ds \<le> m \<and> m \<le> 20)
    \<and> (st = None \<longrightarrow> fst cfg = Some (length ds))"
proof -
  have "episode_ok cfg ds es st"
    using assms(2) by (rule flapping_episode)
  then have "\<forall>k < length ds. snd (ds ! k) = backoff_delay (snd cfg) k (fst (ds ! k))"
      "alerts es = filter (\<lambda>n. n mod 5 = 0) [1 ..< Suc (length ds)]"
      "case fst cfg of None \<Rightarrow> True | Some m \<Rightarrow> length ds \<le> m" "st = None \<longrightarrow> fst cfg = Some (length ds)"
    unfolding episode_ok_def by (auto simp del: upt_Suc)
  moreover have "1000 \<le> snd cfg" "\<And>m. fst cfg = Some m \<Longrightarrow> m \<le> 20"
    unfolding assms(1) by (simp_all add: config_base config_budget)
  ultimately show ?thesis
    using backoff_at_least unfolding backoff_delay_def clampNumber_def RECONNECT_DELAY_CAP_MS_def
    by (auto simp del: upt_Suc split: option.split)
qed

text \<open>A budget of one: the drop is retried after 1250 ms, the drop after that gives the session up.\<close>

theorem flapping_backs_off_witness:
  "\<exists>es. flapping (Some (fresh_reconnect (resolveReconnectConfig (Finite 1) (Finite 10)))) [(250, 1250)] es None
     \<and> snd ([(250, 1250)] ! 0 :: rat \<times> rat) = min (max (1000 * 2 ^ min 0 30 + fst ([(250, 1250)] ! 0 :: rat \<times> rat)) 0) 300000
     \<and> alerts es = filter (\<lambda>n. n mod 5 = 0) [1 ..< Suc 1]"
proof -
  have cfg: "resolveReconnectConfig (Finite 1) (Finite 10) = (Some 1, 1000)"
    by (simp add: resolveReconnectConfig_def clampNumber_def RECONNECT_BASE_DELAY_MIN_MS_def RECONNECT_BASE_DELAY_MAX_MS_def
        RECONNECT_MAX_ATTEMPTS_CAP_def)
  define s0 where "s0 = fresh_reconnect (Some 1, 1000)"
  obtain s1 es1 where 1: "scheduleReconnect False True True None 0 250 None (Some s0) = (Some s1, es1)"
      "armed es1 = [1250]" "rc_timer s1" "rc_attempts s1 = 1" "rc_max s1 = Some 1" "rc_readyAt s1 = None"
    by (simp add: s0_def fresh_reconnect_def scheduleReconnect_def decideReconnect_def spent_def Let_def clampReconnectDelay_def
        clampNumber_def RECONNECT_DELAY_CAP_MS_def RECONNECT_LOOP_ALERT_INTERVAL_ATTEMPTS_def)
  have f1: "flapping (Some s0) [(250, 1250)] es1 (Some s1)"
    using flapping.drops [OF flapping.start [of "Some s0"], of 0 True True None 250 None "Some s1" es1] 1
    by (simp add: s0_def fresh_reconnect_def readyStretchHeld_def)
  define s2 where "s2 = s1\<lparr>rc_timer := False, rc_teardown := False\<rparr>"
  have f2: "flapping (Some s0) [(250, 1250)] es1 (Some s2)"
    using flapping.torn_down [OF flapping.fires [OF f1 1(3)]] by (simp add: s2_def)
  obtain es2 where 2: "scheduleReconnect False True True None 9 0 None (Some s2) = (None, es2)" "armed es2 = []"
    using 1 by (simp add: s2_def scheduleReconnect_def decideReconnect_def spent_def Let_def)
  have "flapping (Some s0) [(250, 1250)] (es1 @ es2) None"
    using flapping.drops [OF f2 _ 2(1)] 2(2) 1(6) by (simp add: s2_def readyStretchHeld_def)
  then have f3: "flapping (Some (fresh_reconnect (Some 1, 1000))) [(250, 1250)] (es1 @ es2) None"
    by (simp add: s0_def)
  from f3 flapping_backs_off [OF cfg [symmetric] f3] show ?thesis
    unfolding cfg by (intro exI [of _ "es1 @ es2"]) simp
qed

end
