(* ===== verification/Hook_Registry.thy ===== *)
theory Hook_Registry
  imports Complex_Main Json_Inject "HOL-Library.Multiset"
begin

text \<open>
  The registrations of plugin hooks: the events of \<^verbatim>\<open>src/src/core/hooks/hook.interfaces.ts\<close> and the registry half of
  \<^verbatim>\<open>hook-manager.service.ts\<close>. The chains and the hook ids of each plugin are kept in two maps, as the code has them; a
  handler is named by a number, since what it does is the plugin's.
\<close>

section \<open>Events\<close>

datatype hook_event =
    Session_created | Session_starting | Session_ready | Session_qr | Session_disconnected | Session_error | Session_deleted
  | Message_received | Message_sending | Message_sent | Message_failed | Message_ack | Message_persisted | Message_deleted
  | Webhook_before | Webhook_queued | Webhook_delivered | Webhook_after | Webhook_error
  | Ingress_error

definition KNOWN_HOOK_EVENTS :: "hook_event list" where
  "KNOWN_HOOK_EVENTS =
     [Session_created, Session_starting, Session_ready, Session_qr, Session_disconnected, Session_error, Session_deleted,
      Message_received, Message_sending, Message_sent, Message_failed, Message_ack, Message_persisted, Message_deleted,
      Webhook_before, Webhook_queued, Webhook_delivered, Webhook_after, Webhook_error, Ingress_error]"

fun event_name :: "hook_event \<Rightarrow> string" where
  "event_name Session_created = ''session:created''"
| "event_name Session_starting = ''session:starting''"
| "event_name Session_ready = ''session:ready''"
| "event_name Session_qr = ''session:qr''"
| "event_name Session_disconnected = ''session:disconnected''"
| "event_name Session_error = ''session:error''"
| "event_name Session_deleted = ''session:deleted''"
| "event_name Message_received = ''message:received''"
| "event_name Message_sending = ''message:sending''"
| "event_name Message_sent = ''message:sent''"
| "event_name Message_failed = ''message:failed''"
| "event_name Message_ack = ''message:ack''"
| "event_name Message_persisted = ''message:persisted''"
| "event_name Message_deleted = ''message:deleted''"
| "event_name Webhook_before = ''webhook:before''"
| "event_name Webhook_queued = ''webhook:queued''"
| "event_name Webhook_delivered = ''webhook:delivered''"
| "event_name Webhook_after = ''webhook:after''"
| "event_name Webhook_error = ''webhook:error''"
| "event_name Ingress_error = ''ingress:error''"

definition isKnownHookEvent :: "string \<Rightarrow> bool" where
  "isKnownHookEvent s \<longleftrightarrow> s \<in> set (map event_name KNOWN_HOOK_EVENTS)"

section \<open>The registry\<close>

record hook_registration =
  h_id :: string
  h_plugin :: string
  h_event :: hook_event
  h_handler :: nat
  h_priority :: rat

text \<open>
  The manager's fields; \<open>m_scopes\<close> holds the event sets of the calls in flight, by reference (see \<open>Hook_Chain\<close>).
\<close>

record hook_manager =
  m_hooks :: "(hook_event \<times> hook_registration list) list"
  m_plugins :: "(string \<times> string list) list"
  m_next :: nat
  m_scopes :: "hook_event list list"

definition no_hooks :: hook_manager where
  "no_hooks = \<lparr>m_hooks = [], m_plugins = [], m_next = 0, m_scopes = []\<rparr>"

definition chain_of :: "hook_event \<Rightarrow> hook_manager \<Rightarrow> hook_registration list" where
  "chain_of e m = (case map_of (m_hooks m) e of None \<Rightarrow> [] | Some c \<Rightarrow> c)"

text \<open>A priority that is no finite number (\<open>None\<close>) becomes 100.\<close>

definition normalizeHookPriority :: "rat option \<Rightarrow> rat" where
  "normalizeHookPriority p = (case p of None \<Rightarrow> 100 | Some q \<Rightarrow> q)"

definition hook_text :: "string \<Rightarrow> hook_event \<Rightarrow> nat \<Rightarrow> string" where
  "hook_text p e n = p @ '':'' @ event_name e @ '':'' @ nat_string n"

definition add_member :: "'a \<Rightarrow> 'a list \<Rightarrow> 'a list" where
  "add_member x xs = (if x \<in> set xs then xs else xs @ [x])"

lemma set_add_member [simp]: "set (add_member x xs) = insert x (set xs)"
  by (auto simp: add_member_def)

definition plugin_ids :: "string \<Rightarrow> hook_manager \<Rightarrow> string list" where
  "plugin_ids p m = (case map_of (m_plugins m) p of None \<Rightarrow> [] | Some s \<Rightarrow> s)"

definition register :: "string \<Rightarrow> hook_event \<Rightarrow> nat \<Rightarrow> rat option \<Rightarrow> hook_manager \<Rightarrow> string \<times> hook_manager" where
  "register p e h priority m =
     (let i = hook_text p e (m_next m);
          r = \<lparr>h_id = i, h_plugin = p, h_event = e, h_handler = h, h_priority = normalizeHookPriority priority\<rparr>
      in (i, m\<lparr>m_next := Suc (m_next m),
               m_hooks := js_put e (sort_key h_priority (chain_of e m @ [r])) (m_hooks m),
               m_plugins := js_put p (add_member i (plugin_ids p m)) (m_plugins m)\<rparr>))"

text \<open>\<open>findIndex\<close> and \<open>splice\<close>, and \<open>find\<close> with an assignment to the found object.\<close>

fun splice_id :: "string \<Rightarrow> hook_registration list \<Rightarrow> hook_registration list" where
  "splice_id i [] = []"
| "splice_id i (r # rs) = (if h_id r = i then rs else r # splice_id i rs)"

fun assign_priority :: "string \<Rightarrow> rat \<Rightarrow> hook_registration list \<Rightarrow> hook_registration list" where
  "assign_priority i q [] = []"
| "assign_priority i q (r # rs) = (if h_id r = i then r\<lparr>h_priority := q\<rparr> # rs else r # assign_priority i q rs)"

definition chain_with :: "string \<Rightarrow> hook_manager \<Rightarrow> (hook_event \<times> hook_registration list) option" where
  "chain_with i m = find (\<lambda>(e, c). i \<in> h_id ` set c) (m_hooks m)"

definition unregister :: "string \<Rightarrow> hook_manager \<Rightarrow> hook_manager" where
  "unregister i m =
     (case chain_with i m of
        None \<Rightarrow> m
      | Some (e, c) \<Rightarrow>
          let p = (case find (\<lambda>r. h_id r = i) c of Some r \<Rightarrow> h_plugin r | None \<Rightarrow> [])
          in m\<lparr>m_hooks := js_put e (splice_id i c) (m_hooks m),
               m_plugins := (case map_of (m_plugins m) p of
                               None \<Rightarrow> m_plugins m
                             | Some s \<Rightarrow> js_put p (filter (\<lambda>j. j \<noteq> i) s) (m_plugins m))\<rparr>)"

definition setPriority :: "string \<Rightarrow> rat option \<Rightarrow> hook_manager \<Rightarrow> hook_manager" where
  "setPriority i priority m =
     (case chain_with i m of
        None \<Rightarrow> m
      | Some (e, c) \<Rightarrow>
          m\<lparr>m_hooks := js_put e (sort_key h_priority (assign_priority i (normalizeHookPriority priority) c)) (m_hooks m)\<rparr>)"

definition unregisterPlugin :: "string \<Rightarrow> hook_manager \<Rightarrow> hook_manager" where
  "unregisterPlugin p m =
     (if map_of (m_plugins m) p = None then m
      else m\<lparr>m_hooks := map (\<lambda>(e, c). (e, filter (\<lambda>r. h_plugin r \<noteq> p) c)) (m_hooks m),
             m_plugins := js_delete p (m_plugins m)\<rparr>)"

definition hasHooks :: "hook_event \<Rightarrow> hook_manager \<Rightarrow> bool" where
  "hasHooks e m \<longleftrightarrow> chain_of e m \<noteq> []"

definition getHookCount :: "hook_event \<Rightarrow> hook_manager \<Rightarrow> nat" where
  "getHookCount e m = length (chain_of e m)"

definition getRegisteredHooks :: "hook_manager \<Rightarrow> (hook_event \<times> (string \<times> rat) list) list" where
  "getRegisteredHooks m = map (\<lambda>(e, c). (e, map (\<lambda>r. (h_plugin r, h_priority r)) c)) (m_hooks m)"

definition getPluginEvents :: "string \<Rightarrow> hook_manager \<Rightarrow> hook_event list" where
  "getPluginEvents p m = map fst (filter (\<lambda>(e, c). \<exists>r \<in> set c. h_plugin r = p) (m_hooks m))"

section \<open>Consistency of the two maps\<close>

definition all_hooks :: "hook_manager \<Rightarrow> hook_registration list" where
  "all_hooks m = concat (map snd (m_hooks m))"

definition chain_ok :: "hook_event \<Rightarrow> hook_registration list \<Rightarrow> bool" where
  "chain_ok e c \<longleftrightarrow> sorted (map h_priority c) \<and> (\<forall>r \<in> set c. h_event r = e)"

definition numbered :: "nat \<Rightarrow> hook_registration \<Rightarrow> bool" where
  "numbered n r \<longleftrightarrow> (\<exists>k < n. h_id r = hook_text (h_plugin r) (h_event r) k)"

definition registry_ok :: "hook_manager \<Rightarrow> bool" where
  "registry_ok m \<longleftrightarrow>
     distinct (map fst (m_hooks m)) \<and> (\<forall>(e, c) \<in> set (m_hooks m). chain_ok e c)
     \<and> distinct (map h_id (all_hooks m)) \<and> (\<forall>r \<in> set (all_hooks m). numbered (m_next m) r)
     \<and> (\<forall>p. set (plugin_ids p m) = h_id ` {r \<in> set (all_hooks m). h_plugin r = p})"

lemma hook_text_number:
  assumes "hook_text p e k = hook_text q f n"
  shows "k = n"
proof -
  have tail: "takeWhile is_digit (rev (hook_text p e k)) = rev (nat_string k)" for p e k
  proof -
    have "\<forall>c \<in> set (rev (nat_string k)). is_digit c" "\<not> is_digit (CHR '':'')"
      using nat_string_digits [of k] by (auto simp: list_all_iff)
    then show ?thesis
      by (auto simp: hook_text_def takeWhile_append)
  qed
  then have "nat_string k = nat_string n"
    using assms by (metis rev_rev_ident)
  then show ?thesis
    by (metis digits_to_nat_string)
qed

lemma plugin_ids_put [simp]:
  "plugin_ids q (m\<lparr>m_hooks := hs, m_plugins := js_put p s (m_plugins m)\<rparr>) = (if q = p then s else plugin_ids q m)"
  "plugin_ids q (m\<lparr>m_next := n, m_hooks := hs, m_plugins := js_put p s (m_plugins m)\<rparr>) = (if q = p then s else plugin_ids q m)"
  by (simp_all add: plugin_ids_def)

lemma plugin_ids_more [simp]:
  "plugin_ids q (m\<lparr>m_hooks := hs\<rparr>) = plugin_ids q m" "plugin_ids q (m\<lparr>m_scopes := ss\<rparr>) = plugin_ids q m"
  by (simp_all add: plugin_ids_def)

lemma js_put_present:
  assumes "distinct (map fst xs)" "(k, v) \<in> set xs"
  obtains as bs where "xs = as @ (k, v) # bs" "js_put k w xs = as @ (k, w) # bs"
  using assms
proof (induction xs arbitrary: thesis)
  case (Cons x xs)
  show ?case
  proof (cases "x = (k, v)")
    case True
    then show ?thesis
      using Cons.prems(1) [of "[]" xs] by simp
  next
    case False
    then have "fst x \<noteq> k" "(k, v) \<in> set xs" "distinct (map fst xs)"
      using Cons.prems by (auto simp: rev_image_eqI)
    then obtain as bs where "xs = as @ (k, v) # bs" "js_put k w xs = as @ (k, w) # bs"
      using Cons.IH by metis
    then show ?thesis
      using Cons.prems(1) [of "x # as" bs] \<open>fst x \<noteq> k\<close> by simp
  qed
qed simp

lemma js_put_absent: "k \<notin> set (map fst xs) \<Longrightarrow> js_put k w xs = xs @ [(k, w)]"
  by (induction xs) auto

text \<open>Replacing a chain replaces its registrations among all of them.\<close>

lemma all_hooks_put:
  assumes "distinct (map fst (m_hooks m))"
  shows "mset (concat (map snd (js_put e c (m_hooks m)))) + mset (chain_of e m) = mset (all_hooks m) + mset c"
proof (cases "map_of (m_hooks m) e")
  case None
  then have "e \<notin> set (map fst (m_hooks m))"
    by (simp add: map_of_eq_None_iff)
  with None show ?thesis
    by (simp add: js_put_absent all_hooks_def chain_of_def)
next
  case (Some c0)
  then have "(e, c0) \<in> set (m_hooks m)"
    by (rule map_of_SomeD)
  with assms obtain as bs where "m_hooks m = as @ (e, c0) # bs" "js_put e c (m_hooks m) = as @ (e, c) # bs"
    by (rule js_put_present)
  with Some show ?thesis
    by (simp add: all_hooks_def chain_of_def)
qed

lemma chains_put:
  assumes "\<forall>(e, c) \<in> set (m_hooks m). chain_ok e c" "chain_ok e c"
  shows "\<forall>(e', c') \<in> set (js_put e c (m_hooks m)). chain_ok e' c'"
proof -
  have "set (js_put e c hs) \<subseteq> insert (e, c) (set hs)" for hs :: "(hook_event \<times> hook_registration list) list"
    by (induction hs) auto
  then show ?thesis
    using assms by blast
qed

lemma chain_of_ok: "registry_ok m \<Longrightarrow> chain_ok e (chain_of e m)"
  unfolding registry_ok_def chain_of_def by (auto split: option.split dest!: map_of_SomeD) (simp add: chain_ok_def)

lemma ids_once: "distinct (map h_id xs) \<longleftrightarrow> (\<forall>i. count (image_mset h_id (mset xs)) i \<le> 1)"
  unfolding distinct_count_atmost_1 mset_map by (auto simp: count_eq_zero_iff le_Suc_eq)

lemma registry_okI:
  assumes "registry_ok m" "m_hooks m' = js_put e c (m_hooks m)" "chain_ok e c"
    "\<forall>i. count (image_mset h_id (mset (all_hooks m'))) i \<le> 1" "\<forall>r \<in> set (all_hooks m'). numbered (m_next m') r"
    "\<And>p. set (plugin_ids p m') = h_id ` {r \<in> set (all_hooks m'). h_plugin r = p}"
  shows "registry_ok m'"
  using assms chains_put [of m e c] unfolding registry_ok_def ids_once by simp

lemma registry_okD:
  assumes "registry_ok m"
  shows "distinct (map fst (m_hooks m))" "\<And>i. count (image_mset h_id (mset (all_hooks m))) i \<le> 1"
    "\<And>r. r \<in> set (all_hooks m) \<Longrightarrow> numbered (m_next m) r"
    "\<And>p. set (plugin_ids p m) = h_id ` {r \<in> set (all_hooks m). h_plugin r = p}"
  using assms unfolding registry_ok_def ids_once by simp_all

lemma numbered_Suc: "numbered n r \<Longrightarrow> numbered (Suc n) r"
  by (auto simp: numbered_def less_Suc_eq)

lemma fresh_hook_id:
  assumes "numbered n r"
  shows "h_id r \<noteq> hook_text p e n"
  using assms hook_text_number [of p e n] by (auto simp: numbered_def)

lemma register_hooks:
  assumes "registry_ok m" "register p e h q m = (i, m')"
  obtains r where "mset (all_hooks m') = add_mset r (mset (all_hooks m))" "h_id r = i" "h_plugin r = p" "h_event r = e"
    "h_handler r = h" "h_priority r = normalizeHookPriority q" "i = hook_text p e (m_next m)"
    "m_hooks m' = js_put e (sort_key h_priority (chain_of e m @ [r])) (m_hooks m)"
proof -
  define r where "r = \<lparr>h_id = i, h_plugin = p, h_event = e, h_handler = h, h_priority = normalizeHookPriority q\<rparr>"
  have "mset (all_hooks m') + mset (chain_of e m) = mset (all_hooks m) + mset (chain_of e m @ [r])"
    using all_hooks_put [OF registry_okD(1) [OF assms(1)], of e "sort_key h_priority (chain_of e m @ [r])"] assms(2)
    by (auto simp: register_def Let_def r_def all_hooks_def)
  then have "mset (all_hooks m') = add_mset r (mset (all_hooks m))"
    by simp
  then show thesis
    using assms(2) by (intro that) (auto simp: r_def register_def Let_def)
qed

lemma register_ok:
  assumes "registry_ok m"
  shows "registry_ok (snd (register p e h q m))"
proof -
  obtain i m' where m': "register p e h q m = (i, m')"
    by fastforce
  obtain r where r: "mset (all_hooks m') = add_mset r (mset (all_hooks m))" "h_id r = i" "h_plugin r = p" "h_event r = e"
      "h_priority r = normalizeHookPriority q" "i = hook_text p e (m_next m)"
      "m_hooks m' = js_put e (sort_key h_priority (chain_of e m @ [r])) (m_hooks m)"
    using register_hooks [OF assms m'] by metis
  have set: "set (all_hooks m') = insert r (set (all_hooks m))"
    using arg_cong [OF r(1), of set_mset] by simp
  have new: "i \<notin> h_id ` set (all_hooks m)"
    using registry_okD(3) [OF assms] fresh_hook_id [of "m_next m" _ p e] unfolding r(6) by (metis imageE)
  have "registry_ok m'"
  proof (rule registry_okI [OF assms r(7)])
    show "chain_ok e (sort_key h_priority (chain_of e m @ [r]))"
      using chain_of_ok [OF assms, of e] r(4) by (simp add: chain_ok_def)
    show "\<forall>j. count (image_mset h_id (mset (all_hooks m'))) j \<le> 1"
      using registry_okD(2) [OF assms] new r(2) by (auto simp: r(1) count_eq_zero_iff)
    show "\<forall>s \<in> set (all_hooks m'). numbered (m_next m') s"
      using registry_okD(3) [OF assms] m' r(2-6) unfolding set
      by (auto simp: numbered_Suc register_def Let_def) (auto simp: numbered_def)
    have "set (plugin_ids k m') = set (plugin_ids k m) \<union> (if k = p then {i} else {})" for k
      using m' by (auto simp: register_def Let_def)
    then show "set (plugin_ids k m') = h_id ` {s \<in> set (all_hooks m'). h_plugin s = k}" for k
      using registry_okD(4) [OF assms, of k] r(2,3) unfolding set by auto
  qed
  then show ?thesis
    by (simp add: m')
qed

lemma chain_with_Some:
  assumes "registry_ok m" "chain_with i m = Some (e, c)"
  obtains r where "c = chain_of e m" "r \<in> set c" "h_id r = i" "find (\<lambda>r. h_id r = i) c = Some r"
    "mset c = add_mset r (mset (splice_id i c))"
    "\<And>q. mset (assign_priority i q c) = add_mset (r\<lparr>h_priority := q\<rparr>) (mset (splice_id i c))"
    "set (splice_id i c) \<subseteq> set c" "sorted (map h_priority c) \<Longrightarrow> sorted (map h_priority (splice_id i c))"
proof -
  have in_m: "(e, c) \<in> set (m_hooks m)" "i \<in> h_id ` set c"
    using assms(2) by (auto simp: chain_with_def find_Some_iff in_set_conv_nth)
  have "c = chain_of e m"
    using in_m(1) registry_okD(1) [OF assms(1)] by (simp add: chain_of_def)
  moreover have "\<exists>r \<in> set c. h_id r = i \<and> find (\<lambda>r. h_id r = i) c = Some r \<and> mset c = add_mset r (mset (splice_id i c))
      \<and> (\<forall>q. mset (assign_priority i q c) = add_mset (r\<lparr>h_priority := q\<rparr>) (mset (splice_id i c)))" if "i \<in> h_id ` set c" for c
    using that by (induction c) (auto split: if_splits)
  moreover have "set (splice_id i c) \<subseteq> set c" for c
    by (induction c) auto
  moreover have "sorted (map h_priority (splice_id i c))" if "sorted (map h_priority c)" for c
    using that
  proof (induction c)
    case (Cons r c)
    moreover have "set (splice_id i c) \<subseteq> set c"
      by (induction c) auto
    ultimately show ?case
      by auto
  qed simp
  ultimately show thesis
    using in_m(2) that by metis
qed

lemma drop_part:
  assumes "i \<notin> h_id ` A" "h_id r = i"
  shows "h_id ` {s \<in> insert r A. h_plugin s = k} - (if k = h_plugin r then {i} else {}) = h_id ` {s \<in> A. h_plugin s = k}"
proof (cases "k = h_plugin r")
  case True
  then have "{s \<in> insert r A. h_plugin s = k} = insert r {s \<in> A. h_plugin s = k}"
    by auto
  moreover have "i \<notin> h_id ` {s \<in> A. h_plugin s = k}"
    using assms(1) by auto
  ultimately show ?thesis
    using assms(2) True by simp
next
  case False
  then have "{s \<in> insert r A. h_plugin s = k} = {s \<in> A. h_plugin s = k}"
    by auto
  with False show ?thesis
    by simp
qed

lemma unregister_hooks:
  assumes "registry_ok m"
  shows "mset (all_hooks (unregister i m)) = filter_mset (\<lambda>r. h_id r \<noteq> i) (mset (all_hooks m)) \<and> registry_ok (unregister i m)"
proof (cases "chain_with i m")
  case None
  then have "i \<notin> h_id ` set (all_hooks m)"
    by (fastforce simp: chain_with_def find_None_iff all_hooks_def)
  then have "filter_mset (\<lambda>r. h_id r \<noteq> i) (mset (all_hooks m)) = mset (all_hooks m)"
    by (intro filter_mset_eq_conv [THEN iffD2]) auto
  with None assms show ?thesis
    by (simp add: unregister_def)
next
  case (Some ec)
  then obtain e c where ec: "chain_with i m = Some (e, c)"
    by (cases ec) simp
  obtain r where r: "c = chain_of e m" "r \<in> set c" "h_id r = i" "find (\<lambda>r. h_id r = i) c = Some r"
      "mset c = add_mset r (mset (splice_id i c))" "set (splice_id i c) \<subseteq> set c"
      "sorted (map h_priority c) \<Longrightarrow> sorted (map h_priority (splice_id i c))"
    using chain_with_Some [OF assms ec] by metis
  define m' where "m' = unregister i m"
  have hooks: "m_hooks m' = js_put e (splice_id i c) (m_hooks m)"
    by (simp add: m'_def unregister_def ec Let_def)
  have all: "mset (all_hooks m) = add_mset r (mset (all_hooks m'))"
    using all_hooks_put [OF registry_okD(1) [OF assms], of e "splice_id i c"] r(1,5) hooks by (simp add: all_hooks_def)
  have others: "i \<notin> h_id ` set (all_hooks m')"
    using registry_okD(2) [OF assms, of i] r(3) by (auto simp: all count_eq_zero_iff)
  have set: "set (all_hooks m) = insert r (set (all_hooks m'))"
    using arg_cong [OF all, of set_mset] by simp
  have filtered: "filter_mset (\<lambda>r. h_id r \<noteq> i) (mset (all_hooks m)) = mset (all_hooks m')"
    using others r(3) unfolding all by (simp add: filter_mset_eq_conv) (metis imageI)
  have "registry_ok m'"
  proof (rule registry_okI [OF assms hooks])
    show "chain_ok e (splice_id i c)"
      using chain_of_ok [OF assms, of e] r(1,6,7) by (auto simp: chain_ok_def)
    show "\<forall>j. count (image_mset h_id (mset (all_hooks m'))) j \<le> 1"
      using registry_okD(2) [OF assms] unfolding all by (metis (no_types, lifting) count_add_mset image_mset_add_mset le_trans le_SucI Suc_leD order_refl)
    show "\<forall>s \<in> set (all_hooks m'). numbered (m_next m') s"
      using registry_okD(3) [OF assms] set by (simp add: m'_def unregister_def ec Let_def)
    have tracked: "map_of (m_plugins m) (h_plugin r) \<noteq> None"
    proof
      assume "map_of (m_plugins m) (h_plugin r) = None"
      then show False
        using registry_okD(4) [OF assms, of "h_plugin r"] set by (auto simp: plugin_ids_def)
    qed
    show "set (plugin_ids k m') = h_id ` {s \<in> set (all_hooks m'). h_plugin s = k}" for k
    proof -
      have "set (plugin_ids k m') = set (plugin_ids k m) - (if k = h_plugin r then {i} else {})"
        using tracked r(4) by (auto simp: m'_def unregister_def ec Let_def plugin_ids_def)
      then show ?thesis
        unfolding registry_okD(4) [OF assms, of k] set using drop_part [OF others r(3), of k] by (rule trans)
    qed
  qed
  with filtered show ?thesis
    by (simp add: m'_def)
qed

lemma plugin_part:
  assumes "(\<lambda>s. (h_id s, h_plugin s)) ` A = (\<lambda>s. (h_id s, h_plugin s)) ` B"
  shows "h_id ` {s \<in> A. h_plugin s = k} = h_id ` {s \<in> B. h_plugin s = k}"
proof -
  have part: "h_id ` {s \<in> C. h_plugin s = k} = {x. (x, k) \<in> (\<lambda>s. (h_id s, h_plugin s)) ` C}" for C
    by auto
  show ?thesis
    unfolding part assms ..
qed

lemma setPriority_hooks:
  assumes "registry_ok m"
  shows "image_mset (h_priority_update (\<lambda>_. 0)) (mset (all_hooks (setPriority i q m)))
      = image_mset (h_priority_update (\<lambda>_. 0)) (mset (all_hooks m)) \<and> registry_ok (setPriority i q m)"
proof (cases "chain_with i m")
  case None
  with assms show ?thesis
    by (simp add: setPriority_def)
next
  case (Some ec)
  then obtain e c where ec: "chain_with i m = Some (e, c)"
    by (cases ec) simp
  define v where "v = normalizeHookPriority q"
  obtain r where r: "c = chain_of e m" "r \<in> set c" "h_id r = i" "mset c = add_mset r (mset (splice_id i c))"
      "mset (assign_priority i v c) = add_mset (r\<lparr>h_priority := v\<rparr>) (mset (splice_id i c))"
    using chain_with_Some [OF assms ec] by metis
  define m' where "m' = setPriority i q m"
  define new where "new = sort_key h_priority (assign_priority i v c)"
  have m': "m' = m\<lparr>m_hooks := js_put e new (m_hooks m)\<rparr>"
    by (simp add: m'_def new_def v_def setPriority_def ec)
  have "mset (all_hooks m') + mset c = mset (all_hooks m) + mset (assign_priority i v c)"
    using all_hooks_put [OF registry_okD(1) [OF assms], of e new] r(1) by (simp add: m' all_hooks_def new_def)
  then have all: "add_mset r (mset (all_hooks m')) = add_mset (r\<lparr>h_priority := v\<rparr>) (mset (all_hooks m))"
    unfolding r(4,5) by simp
  have same: "image_mset f (mset (all_hooks m')) = image_mset f (mset (all_hooks m))"
    if "f (r\<lparr>h_priority := v\<rparr>) = f r" for f :: "hook_registration \<Rightarrow> 'a"
    using arg_cong [OF all, of "image_mset f"] that by simp
  have sets: "f ` set (all_hooks m') = f ` set (all_hooks m)"
    if "f (r\<lparr>h_priority := v\<rparr>) = f r" for f :: "hook_registration \<Rightarrow> 'a"
    using arg_cong [OF same [OF that], of set_mset] by simp
  have "registry_ok m'"
  proof (rule registry_okI [OF assms])
    show "m_hooks m' = js_put e new (m_hooks m)"
      by (simp add: m')
    have "set (assign_priority i v c) \<subseteq> insert (r\<lparr>h_priority := v\<rparr>) (set c)"
      using arg_cong [OF r(4), of set_mset] arg_cong [OF r(5), of set_mset] by auto
    then show "chain_ok e new"
      using chain_of_ok [OF assms, of e] r(1,2) by (auto simp: chain_ok_def new_def)
    show "\<forall>j. count (image_mset h_id (mset (all_hooks m'))) j \<le> 1"
      using registry_okD(2) [OF assms] same [of h_id] by simp
    have "(\<lambda>s. numbered (m_next m) s) ` set (all_hooks m') = (\<lambda>s. numbered (m_next m) s) ` set (all_hooks m)"
      by (rule sets) (simp add: numbered_def)
    then show "\<forall>s \<in> set (all_hooks m'). numbered (m_next m') s"
      using registry_okD(3) [OF assms] by (simp add: m') (metis (mono_tags, lifting) imageE image_eqI)
    have "(\<lambda>s. (h_id s, h_plugin s)) ` set (all_hooks m') = (\<lambda>s. (h_id s, h_plugin s)) ` set (all_hooks m)"
      by (rule sets) simp
    then have "h_id ` {s \<in> set (all_hooks m'). h_plugin s = k} = h_id ` {s \<in> set (all_hooks m). h_plugin s = k}" for k
      by (rule plugin_part)
    then show "set (plugin_ids k m') = h_id ` {s \<in> set (all_hooks m'). h_plugin s = k}" for k
      using registry_okD(4) [OF assms, of k] by (simp add: m')
  qed
  with same [of "h_priority_update (\<lambda>_. 0)"] show ?thesis
    by (simp add: m'_def)
qed

text \<open>The early return of \<^verbatim>\<open>unregisterPlugin\<close> leaves nothing behind: a plugin with a registration is tracked.\<close>

lemma unregisterPlugin_hooks:
  assumes "registry_ok m"
  shows "all_hooks (unregisterPlugin p m) = filter (\<lambda>r. h_plugin r \<noteq> p) (all_hooks m)
    \<and> chain_of e (unregisterPlugin p m) = filter (\<lambda>r. h_plugin r \<noteq> p) (chain_of e m)"
proof (cases "map_of (m_plugins m) p")
  case None
  then have "set (plugin_ids p m) = {}"
    by (simp add: plugin_ids_def)
  then have none: "\<forall>r \<in> set (all_hooks m). h_plugin r \<noteq> p"
    using registry_okD(4) [OF assms, of p] by auto
  moreover have "set (chain_of e m) \<subseteq> set (all_hooks m)"
    by (cases "map_of (m_hooks m) e") (force simp: chain_of_def all_hooks_def dest: map_of_SomeD)+
  ultimately show ?thesis
    using None by (auto simp: unregisterPlugin_def intro!: filter_True [symmetric])
next
  case (Some s)
  have "concat (map snd (map (\<lambda>(e, c). (e, filter P c)) hs)) = filter P (concat (map snd hs))"
    and "map_of (map (\<lambda>(e, c). (e, filter P c)) hs) e = map_option (filter P) (map_of hs e)"
    for P and hs :: "(hook_event \<times> hook_registration list) list"
    by (induction hs) auto
  with Some show ?thesis
    by (auto simp: unregisterPlugin_def all_hooks_def chain_of_def split: option.split)
qed

lemma unregisterPlugin_ok:
  assumes "registry_ok m"
  shows "registry_ok (unregisterPlugin p m)"
proof (cases "map_of (m_plugins m) p")
  case None
  with assms show ?thesis
    by (simp add: unregisterPlugin_def)
next
  case (Some s)
  define m' where "m' = unregisterPlugin p m"
  have m': "m' = m\<lparr>m_hooks := map (\<lambda>(e, c). (e, filter (\<lambda>r. h_plugin r \<noteq> p) c)) (m_hooks m), m_plugins := js_delete p (m_plugins m)\<rparr>"
    using Some by (simp add: m'_def unregisterPlugin_def)
  have all: "all_hooks m' = filter (\<lambda>r. h_plugin r \<noteq> p) (all_hooks m)"
    using unregisterPlugin_hooks [OF assms] by (simp add: m'_def)
  have "map fst (m_hooks m') = map fst (m_hooks m)"
    by (simp add: m' case_prod_beta comp_def)
  moreover have "\<forall>(e, c) \<in> set (m_hooks m'). chain_ok e c"
    using assms unfolding registry_ok_def m' by (fastforce simp: chain_ok_def sorted_filter)
  moreover have "distinct (map h_id (all_hooks m'))"
    using assms unfolding registry_ok_def all by (simp add: distinct_map_filter)
  moreover have "set (plugin_ids k m') = h_id ` {r \<in> set (all_hooks m'). h_plugin r = k}" for k
    using registry_okD(4) [OF assms, of k] unfolding all by (auto simp: m' plugin_ids_def)
  ultimately have "registry_ok m'"
    using assms registry_okD(3) [OF assms] unfolding registry_ok_def by (simp add: all) (simp add: m')
  then show ?thesis
    by (simp add: m'_def)
qed

section \<open>Runs\<close>

text \<open>The managers that registrations, their moves and their removals lead to.\<close>

inductive registry_run :: "hook_manager \<Rightarrow> bool" where
  empty: "registry_run no_hooks"
| adds: "registry_run m \<Longrightarrow> registry_run (snd (register p e h q m))"
| removes: "registry_run m \<Longrightarrow> registry_run (unregister i m)"
| moves: "registry_run m \<Longrightarrow> registry_run (setPriority i q m)"
| leaves: "registry_run m \<Longrightarrow> registry_run (unregisterPlugin p m)"

lemma no_hooks_ok: "registry_ok no_hooks"
  by (simp add: registry_ok_def no_hooks_def all_hooks_def plugin_ids_def)

lemma registry_run_ok: "registry_run m \<Longrightarrow> registry_ok m"
  by (induction rule: registry_run.induct)
    (simp_all add: no_hooks_ok register_ok unregister_hooks setPriority_hooks unregisterPlugin_ok)

text \<open>
  C38: the registry stays consistent. However plugins register, move and remove hooks, every chain is in the order of the
  priorities, no two registrations share an id, and removing a plugin takes exactly its registrations out of every chain and
  leaves the others in their order, although the removal returns early when the second map does not know the plugin.
\<close>

theorem plugin_leaves_nothing:
  assumes "registry_run m"
  shows "sorted (map h_priority (chain_of e m)) \<and> distinct (map h_id (all_hooks m))
    \<and> chain_of e (unregisterPlugin p m) = filter (\<lambda>r. h_plugin r \<noteq> p) (chain_of e m)
    \<and> p \<notin> h_plugin ` set (all_hooks (unregisterPlugin p m)) \<and> getPluginEvents p (unregisterPlugin p m) = []"
proof -
  have ok: "registry_ok m"
    using assms by (rule registry_run_ok)
  have gone: "p \<notin> h_plugin ` set (all_hooks (unregisterPlugin p m))"
    using unregisterPlugin_hooks [OF ok, of p] by auto
  then have "getPluginEvents p (unregisterPlugin p m) = []"
    by (force simp: getPluginEvents_def all_hooks_def filter_empty_conv)
  with gone show ?thesis
    using ok chain_of_ok [OF ok, of e] unregisterPlugin_hooks [OF ok, of p e] by (simp add: registry_ok_def chain_ok_def)
qed

text \<open>Two plugins on one event, the second before the first.\<close>

theorem plugin_leaves_nothing_witness:
  "let m = snd (register ''b'' Message_sent 2 (Some 5) (snd (register ''a'' Message_sent 1 None no_hooks)))
   in sorted (map h_priority (chain_of Message_sent m)) \<and> map h_plugin (chain_of Message_sent m) = [''b'', ''a'']
     \<and> map h_plugin (chain_of Message_sent (unregisterPlugin ''b'' m)) = [''a'']"
proof -
  define m where "m = snd (register ''b'' Message_sent 2 (Some 5) (snd (register ''a'' Message_sent 1 None no_hooks)))"
  have run: "registry_run m"
    unfolding m_def by (intro registry_run.intros)
  have "map h_plugin (chain_of Message_sent m) = [''b'', ''a'']"
    by (simp add: m_def register_def Let_def no_hooks_def chain_of_def normalizeHookPriority_def)
  with plugin_leaves_nothing [OF run, of Message_sent "''b''"] show ?thesis
    unfolding Let_def m_def [symmetric] by (auto simp: filter_map comp_def dest: arg_cong [of _ _ "map h_plugin"])
qed

end
