(* ===== verification/Hook_Chain.thy ===== *)
theory Hook_Chain
  imports Hook_Registry
begin

text \<open>
  The execution of a hook chain (\<^verbatim>\<open>src/src/core/hooks/hook-manager.service.ts\<close>), the results it adopts
  (\<^verbatim>\<open>hook-results.ts\<close>) and the gate in front of every send (\<^verbatim>\<open>sending-gate.ts\<close>).

  What a handler does is the plugin's: it is a tree of the calls it makes on the manager, each continued by its result, and
  ends in an answer or a throw. A handler may fire events (through the services it calls), register, move and remove hooks;
  what other tasks do to the registry while it is awaited is part of its tree, since the tree is arbitrary. Data are
  values: a handler that mutates the object it is given is not covered.
\<close>

section \<open>Results and contexts\<close>

text \<open>
  A handler's result: whether its \<open>continue\<close> is truthy, its data (\<open>None\<close> is \<open>undefined\<close>) and whether it
  reports an error. The timestamp of the context is left out.
\<close>

record hook_result =
  r_continue :: bool
  r_data :: "json option"
  r_error :: bool

record hook_options =
  o_session :: "string option"
  o_source :: string
  o_accept :: "(json \<Rightarrow> bool) option"

record hook_context =
  c_event :: hook_event
  c_data :: "json option"
  c_session :: "string option"
  c_source :: string

datatype handler_run =
    Answer hook_result
  | Throw
  | Fire hook_event "json option" hook_options "bool \<times> json option \<Rightarrow> handler_run"
  | Add_hook string hook_event nat "rat option" "string \<Rightarrow> handler_run"
  | Remove_hook string handler_run
  | Move_hook string "rat option" handler_run
  | Remove_plugin string handler_run

type_synonym handlers = "nat \<Rightarrow> hook_context \<Rightarrow> handler_run"

definition isPlainObject :: "json option \<Rightarrow> bool" where
  "isPlainObject v \<longleftrightarrow> (case v of Some (JObj fs) \<Rightarrow> True | _ \<Rightarrow> False)"

definition is_text :: "json option \<Rightarrow> bool" where
  "is_text v \<longleftrightarrow> (case v of Some (JStr s) \<Rightarrow> True | _ \<Rightarrow> False)"

definition isMessagePayload :: "json \<Rightarrow> bool" where
  "isMessagePayload d \<longleftrightarrow> isPlainObject (Some d) \<and> is_text (field_of (Some d) ''id'') \<and> is_text (field_of (Some d) ''chatId'')"

definition isWebhookBeforeResult :: "json \<Rightarrow> bool" where
  "isWebhookBeforeResult d \<longleftrightarrow> isPlainObject (Some d) \<and> isPlainObject (field_of (Some d) ''payload'')"

definition HOOK_RESULT_ACCEPT :: "hook_event \<Rightarrow> (json \<Rightarrow> bool) option" where
  "HOOK_RESULT_ACCEPT e =
     (if e = Message_received \<or> e = Message_sent then Some isMessagePayload
      else if e = Webhook_before then Some isWebhookBeforeResult else None)"

section \<open>Scopes in flight\<close>

text \<open>
  The asynchronous context of a call is a list of references to event sets, which the manager's calls fill and clear.
\<close>

type_synonym scopes = "nat list"

definition isInFlight :: "scopes \<Rightarrow> hook_event \<Rightarrow> hook_manager \<Rightarrow> bool" where
  "isInFlight st e m \<longleftrightarrow> (\<exists>j \<in> set st. e \<in> set (m_scopes m ! j))"

definition currentInFlight :: "scopes \<Rightarrow> hook_manager \<Rightarrow> hook_event list" where
  "currentInFlight st m = js_set (concat (map (\<lambda>j. m_scopes m ! j) st))"

definition runInFlight ::
    "scopes \<Rightarrow> hook_event list \<Rightarrow> (scopes \<Rightarrow> hook_manager \<Rightarrow> ('a \<times> hook_manager) option) \<Rightarrow> hook_manager \<Rightarrow> ('a \<times> hook_manager) option" where
  "runInFlight st events fn m =
     (let i = length (m_scopes m);
          scopes = filter (\<lambda>j. m_scopes m ! j \<noteq> []) st @ [i]
      in case fn scopes (m\<lparr>m_scopes := m_scopes m @ [js_set events]\<rparr>) of
           None \<Rightarrow> None
         | Some (r, m') \<Rightarrow> Some (r, m'\<lparr>m_scopes := (m_scopes m')[i := []]\<rparr>))"

section \<open>The chain\<close>

text \<open>
  The outcome of an execution and the record of its calls: the registration, the data it was given, the context's scopes and
  its answer (\<open>None\<close>: it threw or rejected).
\<close>

record exchange =
  x_id :: string
  x_data :: "json option"
  x_scopes :: scopes
  x_answer :: "hook_result option"

type_synonym executed = "(bool \<times> json option) \<times> exchange list"

primrec perform ::
    "handler_run \<Rightarrow> (hook_event \<Rightarrow> json option \<Rightarrow> hook_options \<Rightarrow> hook_manager \<Rightarrow> (executed \<times> hook_manager) option)
     \<Rightarrow> hook_manager \<Rightarrow> (hook_result option \<times> hook_manager) option" where
  "perform (Answer r) ex m = Some (Some r, m)"
| "perform Throw ex m = Some (None, m)"
| "perform (Fire e d os k) ex m = (case ex e d os m of None \<Rightarrow> None | Some ((r, _), m') \<Rightarrow> perform (k r) ex m')"
| "perform (Add_hook p e h q k) ex m = (let (i, m') = register p e h q m in perform (k i) ex m')"
| "perform (Remove_hook i k) ex m = perform k ex (unregister i m)"
| "perform (Move_hook i q k) ex m = perform k ex (setPriority i q m)"
| "perform (Remove_plugin p k) ex m = perform k ex (unregisterPlugin p m)"

text \<open>The data after an answer: an error or an unusable result keeps the previous ones.\<close>

definition adopted :: "hook_options \<Rightarrow> hook_result option \<Rightarrow> json option \<Rightarrow> json option" where
  "adopted os ans d =
     (case ans of
        None \<Rightarrow> d
      | Some r \<Rightarrow>
          (case r_data r of
             None \<Rightarrow> d
           | Some v \<Rightarrow> if r_error r \<or> (case o_accept os of None \<Rightarrow> False | Some acc \<Rightarrow> \<not> acc v) then d else Some v))"

definition vetoed :: "hook_result option \<Rightarrow> bool" where
  "vetoed ans \<longleftrightarrow> (case ans of None \<Rightarrow> False | Some r \<Rightarrow> \<not> r_continue r)"

primrec run_chain ::
    "hook_registration list \<Rightarrow> handlers \<Rightarrow> (hook_event \<Rightarrow> json option \<Rightarrow> hook_options \<Rightarrow> hook_manager \<Rightarrow> (executed \<times> hook_manager) option)
     \<Rightarrow> scopes \<Rightarrow> hook_event \<Rightarrow> hook_options \<Rightarrow> json option \<Rightarrow> hook_manager \<Rightarrow> (executed \<times> hook_manager) option" where
  "run_chain [] hs ex st e os d m = Some (((True, d), []), m)"
| "run_chain (r # rs) hs ex st e os d m =
     (case perform (hs (h_handler r) \<lparr>c_event = e, c_data = d, c_session = o_session os, c_source = o_source os\<rparr>) ex m of
        None \<Rightarrow> None
      | Some (ans, m') \<Rightarrow>
          let d' = adopted os ans d;
              x = \<lparr>x_id = h_id r, x_data = d, x_scopes = st, x_answer = ans\<rparr>
          in if vetoed ans then Some (((False, d'), [x]), m')
             else (case run_chain rs hs ex st e os d' m' of
                     None \<Rightarrow> None
                   | Some ((res, xs), m'') \<Rightarrow> Some ((res, x # xs), m'')))"

text \<open>The chain of an execution is the one registered when it starts.\<close>

definition runHandlers ::
    "handlers \<Rightarrow> (hook_event \<Rightarrow> json option \<Rightarrow> hook_options \<Rightarrow> hook_manager \<Rightarrow> (executed \<times> hook_manager) option)
     \<Rightarrow> scopes \<Rightarrow> hook_event \<Rightarrow> json option \<Rightarrow> hook_options \<Rightarrow> hook_manager \<Rightarrow> (executed \<times> hook_manager) option" where
  "runHandlers hs ex st e d os m = run_chain (chain_of e m) hs ex st e os d m"

text \<open>The fuel bounds the nesting of executions; \<open>None\<close> is running out of it.\<close>

primrec execute ::
    "nat \<Rightarrow> handlers \<Rightarrow> scopes \<Rightarrow> hook_event \<Rightarrow> json option \<Rightarrow> hook_options \<Rightarrow> hook_manager \<Rightarrow> (executed \<times> hook_manager) option" where
  "execute 0 hs st e d os m = None"
| "execute (Suc n) hs st e d os m =
     (if isInFlight st e m then Some (((True, d), []), m)
      else runInFlight st [e] (\<lambda>st' m'. runHandlers hs (\<lambda>e d os m. execute n hs st' e d os m) st' e d os m') m)"

section \<open>The sending gate\<close>

datatype gate_error = Blocked_by_plugin | No_usable_input

definition gate_envelope :: "string \<Rightarrow> string \<Rightarrow> json \<Rightarrow> json" where
  "gate_envelope sessionId type input = JObj [(''sessionId'', JStr sessionId), (''input'', input), (''type'', JStr type)]"

definition gate_options :: "string \<Rightarrow> string \<Rightarrow> hook_options" where
  "gate_options sessionId source = \<lparr>o_session = Some sessionId, o_source = source, o_accept = None\<rparr>"

definition gate_reply :: "json \<Rightarrow> bool \<times> json option \<Rightarrow> gate_error + json" where
  "gate_reply input reply =
     (if \<not> fst reply then Inl Blocked_by_plugin
      else case snd reply of
             None \<Rightarrow> Inr input
           | Some v \<Rightarrow> if \<not> is_object (field_of (Some v) ''input'') then Inl No_usable_input
                       else Inr (the (field_of (Some v) ''input'')))"

definition applySendingGate ::
    "nat \<Rightarrow> handlers \<Rightarrow> scopes \<Rightarrow> string \<Rightarrow> string \<Rightarrow> json \<Rightarrow> string \<Rightarrow> hook_manager
     \<Rightarrow> ((gate_error + json) \<times> exchange list \<times> hook_manager) option" where
  "applySendingGate n hs st sessionId type input source m =
     (case execute n hs st Message_sending (Some (gate_envelope sessionId type input)) (gate_options sessionId source) m of
        None \<Rightarrow> None
      | Some ((reply, xs), m') \<Rightarrow> Some (gate_reply input reply, xs, m'))"

section \<open>Executions return\<close>

text \<open>
  A computation is tame above the scopes \<open>ss\<close> when it returns from every manager that holds them and cleared ones after
  them, leaves its own scopes cleared and keeps the registry consistent.
\<close>

definition tame :: "hook_event list list \<Rightarrow> (hook_manager \<Rightarrow> ('a \<times> hook_manager) option) \<Rightarrow> bool" where
  "tame ss f \<longleftrightarrow> (\<forall>m k. m_scopes m = ss @ replicate k [] \<longrightarrow>
     (\<exists>r m' k'. f m = Some (r, m') \<and> m_scopes m' = ss @ replicate k' [] \<and> (registry_ok m \<longrightarrow> registry_ok m')))"

lemma tameD:
  assumes "tame ss f" "m_scopes m = ss @ replicate k []"
  obtains r m' k' where "f m = Some (r, m')" "m_scopes m' = ss @ replicate k' []" "registry_ok m \<Longrightarrow> registry_ok m'"
  using assms unfolding tame_def by blast

lemma registry_scopes [simp]:
  "m_scopes (snd (register p e h q m)) = m_scopes m" "m_scopes (unregister i m) = m_scopes m"
  "m_scopes (setPriority i q m) = m_scopes m" "m_scopes (unregisterPlugin p m) = m_scopes m"
  by (auto simp: register_def unregister_def setPriority_def unregisterPlugin_def Let_def split: option.split)

lemma registry_ok_scopes [simp]: "registry_ok (m\<lparr>m_scopes := ss\<rparr>) = registry_ok m"
  by (simp add: registry_ok_def all_hooks_def)

lemma tame_perform:
  assumes "\<And>e d os. tame ss (ex e d os)"
  shows "tame ss (perform t ex)"
  unfolding tame_def
proof (intro allI impI)
  fix m :: hook_manager and k
  show "\<exists>r m' k'. perform t ex m = Some (r, m') \<and> m_scopes m' = ss @ replicate k' [] \<and> (registry_ok m \<longrightarrow> registry_ok m')"
    if "m_scopes m = ss @ replicate k []"
    using that
  proof (induction t arbitrary: m k)
    case (Fire e d os t)
    obtain r xs m' k' where m': "ex e d os m = Some ((r, xs), m')" "m_scopes m' = ss @ replicate k' []" "registry_ok m \<Longrightarrow> registry_ok m'"
      by (rule tameD [OF assms [of e d os] Fire.prems]) (metis surj_pair)
    show ?case
      using Fire.IH [OF rangeI m'(2), of r] m'(1,3) by auto
  next
    case (Add_hook p e h q t)
    obtain i m' where m': "register p e h q m = (i, m')"
      by fastforce
    have "m_scopes m' = ss @ replicate k []" "registry_ok m \<Longrightarrow> registry_ok m'"
      using registry_scopes(1) [of p e h q m] register_ok [of m p e h q] Add_hook.prems by (simp_all add: m')
    then show ?case
      using Add_hook.IH [OF rangeI, of m' k i] by (auto simp: m')
  next
    case (Remove_hook i t)
    have "m_scopes (unregister i m) = ss @ replicate k []"
      using Remove_hook.prems by simp
    from Remove_hook.IH [OF this] show ?case
      by (auto simp: unregister_hooks)
  next
    case (Move_hook i q t)
    have "m_scopes (setPriority i q m) = ss @ replicate k []"
      using Move_hook.prems by simp
    from Move_hook.IH [OF this] show ?case
      by (auto simp: setPriority_hooks)
  next
    case (Remove_plugin p t)
    have "m_scopes (unregisterPlugin p m) = ss @ replicate k []"
      using Remove_plugin.prems by simp
    from Remove_plugin.IH [OF this] show ?case
      by (auto simp: unregisterPlugin_ok)
  qed auto
qed

lemma tame_run_chain:
  assumes "\<And>e d os. tame ss (ex e d os)"
  shows "tame ss (run_chain rs hs ex st e os d)"
proof (induction rs arbitrary: d)
  case Nil
  then show ?case
    by (auto simp: tame_def)
next
  case (Cons r rs)
  let ?run = "hs (h_handler r) \<lparr>c_event = e, c_data = d, c_session = o_session os, c_source = o_source os\<rparr>"
  show ?case
    unfolding tame_def
  proof (intro allI impI)
    fix m :: hook_manager and k
    assume m: "m_scopes m = ss @ replicate k []"
    obtain ans m1 k1 where 1: "perform ?run ex m = Some (ans, m1)" "m_scopes m1 = ss @ replicate k1 []" "registry_ok m \<Longrightarrow> registry_ok m1"
      by (rule tameD [OF tame_perform [of ss ex, OF assms] m]) blast
    obtain res xs m2 k2 where 2: "run_chain rs hs ex st e os (adopted os ans d) m1 = Some ((res, xs), m2)"
        "m_scopes m2 = ss @ replicate k2 []" "registry_ok m1 \<Longrightarrow> registry_ok m2"
      by (rule tameD [OF Cons.IH [of "adopted os ans d"] 1(2)]) (metis surj_pair)
    show "\<exists>r' m' k'. run_chain (r # rs) hs ex st e os d m = Some (r', m') \<and> m_scopes m' = ss @ replicate k' []
        \<and> (registry_ok m \<longrightarrow> registry_ok m')"
      using 1 2 by (cases "vetoed ans") (auto simp: Let_def)
  qed
qed

text \<open>The events not yet in flight in a context.\<close>

definition free_events :: "scopes \<Rightarrow> hook_event list list \<Rightarrow> hook_event list" where
  "free_events st ss = filter (\<lambda>e. \<forall>j \<in> set st. e \<notin> set (ss ! j)) KNOWN_HOOK_EVENTS"

definition valid_scopes :: "scopes \<Rightarrow> hook_event list list \<Rightarrow> bool" where
  "valid_scopes st ss \<longleftrightarrow> (\<forall>j \<in> set st. j < length ss)"

lemma all_events_known: "e \<in> set KNOWN_HOOK_EVENTS"
  by (cases e) (simp_all add: KNOWN_HOOK_EVENTS_def)

lemma free_events_bound: "length (free_events st ss) \<le> 20"
proof -
  have "length (free_events st ss) \<le> length KNOWN_HOOK_EVENTS"
    by (simp add: free_events_def)
  then show ?thesis
    by (simp add: KNOWN_HOOK_EVENTS_def)
qed

lemma inner_scopes:
  assumes "valid_scopes st ss" "\<not> isInFlight st e m" "m_scopes m = ss @ replicate k []"
  defines "ss' \<equiv> m_scopes m @ [js_set [e]]" and "st' \<equiv> filter (\<lambda>j. m_scopes m ! j \<noteq> []) st @ [length (m_scopes m)]"
  shows "valid_scopes st' ss'" "length (free_events st' ss') < length (free_events st ss)"
proof -
  have old: "ss' ! j = ss ! j" "m_scopes m ! j = ss ! j" if "j \<in> set st" for j
    using assms(1,3) that by (auto simp: ss'_def valid_scopes_def nth_append)
  have new: "ss' ! length (m_scopes m) = [e]"
    by (simp add: ss'_def js_set.simps)
  show "valid_scopes st' ss'"
    using assms(1,3) by (auto simp: st'_def ss'_def valid_scopes_def)
  have "f \<in> set (free_events st ss)" if f: "f \<in> set (free_events st' ss')" for f
  proof -
    have "f \<notin> set (ss ! j)" if "j \<in> set st" for j
      using f old [OF that] that by (cases "m_scopes m ! j = []") (auto simp: free_events_def st'_def)
    with f show ?thesis
      by (simp add: free_events_def)
  qed
  then have sub: "set (free_events st' ss') \<subseteq> set (free_events st ss)"
    by blast
  have "e \<in> set (free_events st ss)"
    using assms(2) old all_events_known [of e] by (simp add: free_events_def isInFlight_def)
  moreover have "e \<notin> set (free_events st' ss')"
    using new by (simp add: free_events_def st'_def)
  ultimately have "e \<in> set (free_events st ss) - set (free_events st' ss')"
    by blast
  with sub have "card (set (free_events st' ss')) < card (set (free_events st ss))"
    by (intro psubset_card_mono) auto
  moreover have "distinct (free_events s t)" for s t
    unfolding free_events_def by (intro distinct_filter) (simp add: KNOWN_HOOK_EVENTS_def)
  ultimately show "length (free_events st' ss') < length (free_events st ss)"
    by (simp add: distinct_card)
qed

lemma cleared_scope:
  fixes x :: "'a list"
  shows "(ss @ replicate k [] @ x # replicate k' [])[length ss + k := []] = ss @ replicate (k + Suc k') []"
proof -
  have "replicate (k + Suc k') ([] :: 'a list) = replicate k [] @ [] # replicate k' []"
    unfolding replicate_add by simp
  moreover have "(ss @ replicate k [] @ x # replicate k' [])[length ss + k := []] = ss @ replicate k [] @ [] # replicate k' []"
    by (simp add: list_update_append)
  ultimately show ?thesis
    by (simp only:)
qed

lemma execute_opens:
  assumes below: "\<And>st ss e d os. valid_scopes st ss \<Longrightarrow> length (free_events st ss) < n \<Longrightarrow> tame ss (execute n hs st e d os)"
    and st: "valid_scopes st ss" "length (free_events st ss) < Suc n" and m: "m_scopes m = ss @ replicate k []" "\<not> isInFlight st e m"
  obtains r m' k' where "execute (Suc n) hs st e d os m = Some (r, m')" "m_scopes m' = ss @ replicate (k + Suc k') []"
    "registry_ok m \<Longrightarrow> registry_ok m'"
proof -
  let ?ss = "m_scopes m @ [js_set [e]]" and ?st = "filter (\<lambda>j. m_scopes m ! j \<noteq> []) st @ [length (m_scopes m)]"
  note inner = inner_scopes [OF st(1) m(2,1)]
  have "tame ?ss (execute n hs ?st e' d' os')" for e' d' os'
    using below [OF inner(1)] inner(2) st(2) by simp
  then have "tame ?ss (run_chain rs hs (\<lambda>e d os. execute n hs ?st e d os) ?st e os d)" for rs
    by (rule tame_run_chain)
  then obtain r m' k' where 1: "runHandlers hs (\<lambda>e d os. execute n hs ?st e d os) ?st e d os (m\<lparr>m_scopes := ?ss\<rparr>) = Some (r, m')"
      "m_scopes m' = ?ss @ replicate k' []" "registry_ok (m\<lparr>m_scopes := ?ss\<rparr>) \<Longrightarrow> registry_ok m'"
    unfolding runHandlers_def by (rule tameD [where k = 0 and m = "m\<lparr>m_scopes := ?ss\<rparr>"]) (simp, blast)
  have "(m_scopes m')[length (m_scopes m) := []] = ss @ replicate (k + Suc k') []"
    using cleared_scope [of ss k] by (simp add: 1(2) m(1))
  with 1 m(2) show thesis
    by (intro that [of r "m'\<lparr>m_scopes := (m_scopes m')[length (m_scopes m) := []]\<rparr>" k']) (simp_all add: runInFlight_def Let_def)
qed

lemma tame_execute:
  "valid_scopes st ss \<Longrightarrow> length (free_events st ss) < n \<Longrightarrow> tame ss (execute n hs st e d os)"
proof (induction n arbitrary: st ss e d os)
  case (Suc n)
  show ?case
    unfolding tame_def
  proof (intro allI impI)
    fix m :: hook_manager and k
    assume m: "m_scopes m = ss @ replicate k []"
    show "\<exists>r m' k'. execute (Suc n) hs st e d os m = Some (r, m') \<and> m_scopes m' = ss @ replicate k' [] \<and> (registry_ok m \<longrightarrow> registry_ok m')"
    proof (cases "isInFlight st e m")
      case True
      with m show ?thesis
        by auto
    next
      case False
      show ?thesis
        by (rule execute_opens [OF Suc.IH Suc.prems m False, where d = d and os = os]) blast+
    qed
  qed
qed simp

subsection \<open>More fuel gives the same\<close>

lemma perform_mono:
  assumes "\<And>e d os m r. ex e d os m = Some r \<Longrightarrow> ex' e d os m = Some r"
  shows "perform t ex m = Some r \<Longrightarrow> perform t ex' m = Some r"
proof (induction t arbitrary: m)
  case (Fire e d os t)
  then show ?case
    using assms by (fastforce split: option.splits)
qed (auto split: prod.splits)

lemma run_chain_mono:
  assumes "\<And>e d os m r. ex e d os m = Some r \<Longrightarrow> ex' e d os m = Some r"
  shows "run_chain rs hs ex st e os d m = Some r \<Longrightarrow> run_chain rs hs ex' st e os d m = Some r"
proof (induction rs arbitrary: d m r)
  case (Cons x rs)
  let ?run = "hs (h_handler x) \<lparr>c_event = e, c_data = d, c_session = o_session os, c_source = o_source os\<rparr>"
  obtain ans m1 where 1: "perform ?run ex m = Some (ans, m1)"
    using Cons.prems by (auto split: option.splits)
  then have 2: "perform ?run ex' m = Some (ans, m1)"
    using perform_mono [of ex ex', OF assms] by blast
  show ?case
  proof (cases "vetoed ans")
    case True
    then show ?thesis
      using Cons.prems 1 2 by (simp add: Let_def)
  next
    case False
    then obtain res xs m2 where "run_chain rs hs ex st e os (adopted os ans d) m1 = Some ((res, xs), m2)"
      using Cons.prems 1 by (auto simp: Let_def split: option.splits)
    with Cons.IH [OF this] False show ?thesis
      using Cons.prems 1 2 by (simp add: Let_def)
  qed
qed simp

lemma execute_mono: "execute n hs st e d os m = Some r \<Longrightarrow> execute (n + k) hs st e d os m = Some r"
proof (induction n arbitrary: st e d os m r)
  case (Suc n)
  show ?case
  proof (cases "isInFlight st e m")
    case False
    with Suc.prems show ?thesis
      using run_chain_mono [OF Suc.IH] by (fastforce simp: runInFlight_def runHandlers_def Let_def split: option.splits)
  qed (use Suc.prems in simp)
qed simp

subsection \<open>What a chain calls\<close>

text \<open>
  The calls of a chain are those of its registrations in their order, each with the data the ones before it left; a
  chain ends early only with a veto.
\<close>

definition chain_log :: "hook_registration list \<Rightarrow> hook_options \<Rightarrow> scopes \<Rightarrow> json option \<Rightarrow> executed \<Rightarrow> bool" where
  "chain_log rs os st d out =
     (case out of ((go, d'), xs) \<Rightarrow>
        map x_id xs = map h_id (take (length xs) rs) \<and> length xs \<le> length rs
        \<and> (go \<longleftrightarrow> (\<forall>x \<in> set xs. \<not> vetoed (x_answer x))) \<and> (go \<longrightarrow> length xs = length rs)
        \<and> (\<forall>x \<in> set (butlast xs). \<not> vetoed (x_answer x))
        \<and> d' = fold (\<lambda>x. adopted os (x_answer x)) xs d \<and> (\<forall>x \<in> set xs. x_scopes x = st))"

lemma run_chain_log:
  "run_chain rs hs ex st e os d m = Some (out, m') \<Longrightarrow> chain_log rs os st d out"
proof (induction rs arbitrary: d m out)
  case Nil
  then show ?case
    by (auto simp: chain_log_def)
next
  case (Cons x rs)
  let ?run = "hs (h_handler x) \<lparr>c_event = e, c_data = d, c_session = o_session os, c_source = o_source os\<rparr>"
  obtain ans m1 where 1: "perform ?run ex m = Some (ans, m1)"
    using Cons.prems by (auto split: option.splits)
  show ?case
  proof (cases "vetoed ans")
    case True
    then show ?thesis
      using Cons.prems 1 by (auto simp: chain_log_def Let_def)
  next
    case False
    then obtain go d' xs where r: "run_chain rs hs ex st e os (adopted os ans d) m1 = Some (((go, d'), xs), m')"
        "out = ((go, d'), \<lparr>x_id = h_id x, x_data = d, x_scopes = st, x_answer = ans\<rparr> # xs)"
      using Cons.prems 1 by (auto simp: Let_def split: option.splits)
    show ?thesis
      using Cons.IH [OF r(1)] False unfolding r(2) chain_log_def by auto
  qed
qed

lemma chain_log_none: "chain_log [] os st d ((True, d), [])"
  by (simp add: chain_log_def)

lemma execute_log:
  assumes "execute n hs st e d os m = Some (out, m')" "\<not> isInFlight st e m"
  shows "chain_log (chain_of e m) os (filter (\<lambda>j. m_scopes m ! j \<noteq> []) st @ [length (m_scopes m)]) d out"
  using assms
  by (cases n) (auto simp: runInFlight_def runHandlers_def Let_def chain_of_def chain_log_none split: option.splits dest!: run_chain_log)

lemma execute_returns:
  assumes "valid_scopes st (m_scopes m)" "21 \<le> n"
  obtains out m' k where "execute n hs st e d os m = Some (out, m')" "m_scopes m' = m_scopes m @ replicate k []"
    "registry_ok m \<Longrightarrow> registry_ok m'" "\<not> isInFlight st e m \<Longrightarrow> 0 < k"
proof (cases "isInFlight st e m")
  case True
  with assms(2) show thesis
    by (cases n) (auto intro: that [of "((True, d), [])" m 0])
next
  case False
  obtain n' where n: "n = Suc n'"
    using assms(2) by (cases n) auto
  have fuel: "length (free_events st (m_scopes m)) < Suc n'"
    using free_events_bound [of st "m_scopes m"] assms(2) by (simp add: n)
  have "m_scopes m = m_scopes m @ replicate 0 []"
    by simp
  from execute_opens [OF tame_execute assms(1) fuel this False] obtain out m' k where "execute n hs st e d os m = Some (out, m')" "m_scopes m' = m_scopes m @ replicate (0 + Suc k) []"
      "registry_ok m \<Longrightarrow> registry_ok m'"
    unfolding n by blast
  then show thesis
    by (rule that) simp_all
qed

lemma in_flight_listed: "set (currentInFlight st m) = {e. isInFlight st e m}"
  by (auto simp: currentInFlight_def isInFlight_def)

text \<open>A chain run with the check of its event leaves data the event can use, if it was given such data.\<close>

lemma accepted_kept:
  assumes "execute n hs st e (Some d) os m = Some (((go, d'), xs), m')" "o_accept os = HOOK_RESULT_ACCEPT e" "HOOK_RESULT_ACCEPT e = Some acc" "acc d"
  shows "\<exists>v. d' = Some v \<and> acc v"
proof (cases "isInFlight st e m")
  case True
  with assms show ?thesis
    by (cases n) auto
next
  case False
  have "\<exists>v. fold (\<lambda>x. adopted os (x_answer x)) xs (Some d) = Some v \<and> acc v"
    using assms(2-4) by (induction xs arbitrary: d) (auto simp: adopted_def split: option.split)
  with execute_log [OF assms(1) False] show ?thesis
    by (simp add: chain_log_def)
qed

section \<open>Properties\<close>

lemma detached_in_flight:
  assumes "valid_scopes st (m_scopes m)" "m_scopes m' = m_scopes m @ replicate k []" "x_scopes x = filter (\<lambda>j. m_scopes m ! j \<noteq> []) st @ [length (m_scopes m)]"
    "0 < k"
  shows "isInFlight (x_scopes x) f m' \<longleftrightarrow> isInFlight st f m"
proof -
  have "m_scopes m' ! length (m_scopes m) = []"
    using assms(2,4) by (simp add: nth_append)
  moreover have "m_scopes m' ! j = m_scopes m ! j" if "j \<in> set st" for j
    using assms(1,2) that by (auto simp: valid_scopes_def nth_append)
  ultimately show ?thesis
    unfolding isInFlight_def assms(3) by (auto; metis empty_iff list.set(1))
qed

text \<open>
  C23: hook chains end. Whatever the handlers do - fire any events to any depth, register, move and remove hooks - an
  execution returns: since an event already in flight is not run again, 21 nested executions are enough for the 20 events, and
  a larger bound gives the same. Every scope the execution opened is cleared when it returns, so work that a handler
  leaves running sees in flight exactly what is in flight around the call, and the registry is still consistent.
\<close>

theorem hook_chains_end:
  assumes "\<forall>j \<in> set st. j < length (m_scopes m)" "registry_ok m"
  shows "\<exists>res xs m'. (\<forall>n \<ge> 21. execute n hs st e d os m = Some ((res, xs), m')) \<and> registry_ok m'
    \<and> (\<forall>f. isInFlight st f m' = isInFlight st f m) \<and> (\<forall>x \<in> set xs. \<forall>f. isInFlight (x_scopes x) f m' = isInFlight st f m)"
proof -
  have st: "valid_scopes st (m_scopes m)"
    using assms(1) by (simp add: valid_scopes_def)
  obtain res xs m' k where r: "execute 21 hs st e d os m = Some ((res, xs), m')" "m_scopes m' = m_scopes m @ replicate k []" "registry_ok m'"
      "\<not> isInFlight st e m \<Longrightarrow> 0 < k"
    using assms(2) by (rule_tac execute_returns [OF st order_refl, of hs e d os]) (metis surj_pair)
  have "execute n hs st e d os m = Some ((res, xs), m')" if "21 \<le> n" for n
    using execute_mono [OF r(1), of "n - 21"] that by simp
  moreover have "isInFlight st f m' = isInFlight st f m" for f
    using st r(2) by (auto simp: isInFlight_def valid_scopes_def nth_append)
  moreover have "isInFlight (x_scopes x) f m' = isInFlight st f m" if x: "x \<in> set xs" for x f
  proof -
    have idle: "\<not> isInFlight st e m"
      using r(1) x by (auto simp: eval_nat_numeral)
    then have "x_scopes x = filter (\<lambda>j. m_scopes m ! j \<noteq> []) st @ [length (m_scopes m)]"
      using execute_log [OF r(1)] x by (cases res) (auto simp: chain_log_def)
    then show ?thesis
      using detached_in_flight [OF st r(2)] r(4) [OF idle] by blast
  qed
  ultimately show ?thesis
    using r(3) by blast
qed

text \<open>A handler of \<^verbatim>\<open>message:sent\<close> that fires \<^verbatim>\<open>message:sent\<close> again.\<close>

theorem hook_chains_end_witness:
  "let m = snd (register ''p'' Message_sent 0 None no_hooks);
       os = \<lparr>o_session = None, o_source = ''t'', o_accept = None\<rparr>;
       hs = \<lambda>_ (c :: hook_context). Fire (c_event c) (c_data c) os (\<lambda>r. Answer \<lparr>r_continue = fst r, r_data = Some JNull, r_error = False\<rparr>)
   in \<exists>xs m'. execute 21 hs [] Message_sent None os m = Some (((True, Some JNull), xs), m') \<and> length xs = 1 \<and> registry_ok m'
     \<and> \<not> isInFlight (x_scopes (hd xs)) Message_sent m'"
proof -
  define m where "m = snd (register ''p'' Message_sent 0 None no_hooks)"
  define os :: hook_options where "os = \<lparr>o_session = None, o_source = ''t'', o_accept = None\<rparr>"
  define hs :: handlers where "hs = (\<lambda>_ c. Fire (c_event c) (c_data c) os (\<lambda>r. Answer \<lparr>r_continue = fst r, r_data = Some JNull, r_error = False\<rparr>))"
  have ok: "registry_ok m"
    by (simp add: m_def register_ok no_hooks_ok)
  have chain: "\<exists>r. chain_of Message_sent m = [r]" "m_scopes m = []" "m_scopes (m\<lparr>m_scopes := ss\<rparr>) = ss"
      "chain_of Message_sent (m\<lparr>m_scopes := ss\<rparr>) = chain_of Message_sent m" for ss
    by (simp_all add: m_def register_def no_hooks_def Let_def chain_of_def)
  obtain res xs m' where r: "\<forall>n \<ge> 21. execute n hs [] Message_sent None os m = Some ((res, xs), m')" "registry_ok m'"
      "\<forall>x \<in> set xs. \<forall>f. isInFlight (x_scopes x) f m' = isInFlight [] f m"
    using hook_chains_end [OF _ ok, of "[]" hs Message_sent None os] by auto
  have "res = (True, Some JNull) \<and> length xs = 1" if "execute (Suc (Suc n)) hs [] Message_sent None os m = Some ((res, xs), m')" for n
    using chain(1) that by (auto simp: runInFlight_def runHandlers_def isInFlight_def chain(2-4) hs_def os_def js_set.simps adopted_def vetoed_def Let_def)
  from this [of 19] r(1) have "res = (True, Some JNull) \<and> length xs = 1"
    by simp
  with r show ?thesis
    unfolding Let_def m_def [symmetric] os_def [symmetric] hs_def [symmetric]
    by (intro exI [of _ xs] exI [of _ m']) (auto simp: isInFlight_def length_Suc_conv)
qed

lemma fold_adopted_Some: "\<exists>v. fold (\<lambda>x. adopted os (x_answer x)) xs (Some d) = Some v"
  by (induction xs arbitrary: d) (auto simp: adopted_def split: option.split)

lemma gate_in_flight:
  assumes "isInFlight st Message_sending m" "0 < n"
  shows "applySendingGate n hs st sessionId type input source m
    = Some (if is_object (Some input) then Inr input else Inl No_usable_input, [], m)"
  using assms by (cases n) (simp_all add: applySendingGate_def gate_reply_def gate_envelope_def)

lemma gate_moderated:
  assumes "\<forall>j \<in> set st. j < length (m_scopes m)" "\<not> isInFlight st Message_sending m" "21 \<le> n"
  obtains res xs m' where "applySendingGate n hs st sessionId type input source m = Some (res, xs, m')"
    "map x_id xs = map h_id (take (length xs) (chain_of Message_sending m))"
    "res = Inl Blocked_by_plugin \<longleftrightarrow> (\<exists>x \<in> set xs. vetoed (x_answer x))"
    "case res of
       Inl _ \<Rightarrow> True
     | Inr content \<Rightarrow> length xs = length (chain_of Message_sending m) \<and> is_object (Some content)
         \<and> field_of (fold (\<lambda>x. adopted (gate_options sessionId source) (x_answer x)) xs (Some (gate_envelope sessionId type input))) ''input''
           = Some content"
proof -
  let ?d = "Some (gate_envelope sessionId type input)" and ?os = "gate_options sessionId source"
  have st: "valid_scopes st (m_scopes m)"
    using assms(1) by (simp add: valid_scopes_def)
  obtain go d' xs m' where r: "execute n hs st Message_sending ?d ?os m = Some (((go, d'), xs), m')"
    by (rule execute_returns [OF st assms(3), of hs Message_sending ?d ?os]) (metis surj_pair)
  have log: "map x_id xs = map h_id (take (length xs) (chain_of Message_sending m))"
      "go \<longleftrightarrow> (\<forall>x \<in> set xs. \<not> vetoed (x_answer x))" "go \<Longrightarrow> length xs = length (chain_of Message_sending m)"
      "d' = fold (\<lambda>x. adopted ?os (x_answer x)) xs ?d"
    using execute_log [OF r assms(2)] by (simp_all add: chain_log_def)
  obtain v where v: "d' = Some v"
    using fold_adopted_Some log(4) by metis
  have "applySendingGate n hs st sessionId type input source m = Some (gate_reply input (go, d'), xs, m')"
    by (simp add: applySendingGate_def r)
  moreover have "gate_reply input (go, d') = Inl Blocked_by_plugin \<longleftrightarrow> (\<exists>x \<in> set xs. vetoed (x_answer x))"
    using log(2) by (simp add: gate_reply_def v)
  moreover have "case gate_reply input (go, d') of
          Inl _ \<Rightarrow> True
        | Inr content \<Rightarrow> length xs = length (chain_of Message_sending m) \<and> is_object (Some content)
            \<and> field_of (fold (\<lambda>x. adopted ?os (x_answer x)) xs ?d) ''input'' = Some content"
    using log(3) unfolding log(4) [symmetric] by (cases "field_of (Some v) ''input''") (auto simp: gate_reply_def v)
  ultimately show ?thesis
    using log(1) that by blast
qed

text \<open>
  C12: the sending gate moderates every send but those made from inside a sending handler. Whatever the handlers do, the
  gate answers. A send made while a sending event is in flight in the same asynchronous context (a handler of the gate that
  sends itself) passes with its own input, if that is an object, and no handler is called. For any other send the gate calls
  the handlers that were registered when it started, in the order of their chain, which is sorted by priority; it blocks
  exactly when a called handler vetoed, and lets a content through only when every registered handler was called and none
  vetoed; the content is then the usable input of the data the handlers left, never the caller's own when they left something
  unusable.
\<close>

theorem sending_gate_moderates:
  assumes "\<forall>j \<in> set st. j < length (m_scopes m)" "registry_ok m" "21 \<le> n"
  shows "\<exists>res xs m'. applySendingGate n hs st sessionId type input source m = Some (res, xs, m')
    \<and> (if isInFlight st Message_sending m
       then xs = [] \<and> m' = m \<and> res = (if is_object (Some input) then Inr input else Inl No_usable_input)
       else sorted (map h_priority (chain_of Message_sending m))
         \<and> map x_id xs = map h_id (take (length xs) (chain_of Message_sending m))
         \<and> (res = Inl Blocked_by_plugin \<longleftrightarrow> (\<exists>x \<in> set xs. vetoed (x_answer x)))
         \<and> (case res of
              Inl _ \<Rightarrow> True
            | Inr content \<Rightarrow> length xs = length (chain_of Message_sending m) \<and> is_object (Some content)
                \<and> field_of (fold (\<lambda>x. adopted (gate_options sessionId source) (x_answer x)) xs (Some (gate_envelope sessionId type input))) ''input''
                  = Some content))"
proof (cases "isInFlight st Message_sending m")
  case True
  then show ?thesis
    using gate_in_flight [of st m n] assms(3) by simp
next
  case False
  have sorted: "sorted (map h_priority (chain_of Message_sending m))"
    using chain_of_ok [OF assms(2)] by (simp add: chain_ok_def)
  show ?thesis
    by (rule gate_moderated [OF assms(1) False assms(3), of hs sessionId type input source]) (use False sorted in simp)
qed

text \<open>A handler that redacts: the redacted text is sent.\<close>

theorem sending_gate_moderates_witness:
  "let m = snd (register ''a'' Message_sending 0 (Some 1) no_hooks);
       redact = JObj [(''text'', JStr ''***'')];
       hs = \<lambda>_ (c :: hook_context). Answer \<lparr>r_continue = True, r_data = Some (JObj [(''input'', redact)]), r_error = False\<rparr>
   in \<exists>xs m'. applySendingGate 21 hs [] ''s'' ''text'' (JObj [(''text'', JStr ''secret'')]) ''t'' m = Some (Inr redact, xs, m')
     \<and> map x_id xs = map h_id (take (length xs) (chain_of Message_sending m)) \<and> length xs = 1"
proof -
  define m where "m = snd (register ''a'' Message_sending 0 (Some 1) no_hooks)"
  define redact where "redact = JObj [(''text'', JStr ''***'')]"
  define hs :: handlers where "hs = (\<lambda>_ c. Answer \<lparr>r_continue = True, r_data = Some (JObj [(''input'', redact)]), r_error = False\<rparr>)"
  define input where "input = JObj [(''text'', JStr ''secret'')]"
  have chain: "\<exists>r. chain_of Message_sending m = [r]" "m_scopes m = []" "m_scopes (m\<lparr>m_scopes := ss\<rparr>) = ss"
      "chain_of Message_sending (m\<lparr>m_scopes := ss\<rparr>) = chain_of Message_sending m" for ss
    by (simp_all add: m_def register_def no_hooks_def Let_def chain_of_def)
  obtain res xs m' where r: "applySendingGate 21 hs [] ''s'' ''text'' input ''t'' m = Some (res, xs, m')"
      "map x_id xs = map h_id (take (length xs) (chain_of Message_sending m))"
    using sending_gate_moderates [of "[]" m 21 hs "''s''" "''text''" input "''t''"] register_ok [OF no_hooks_ok]
    by (auto simp: isInFlight_def m_def)
  have "res = Inr redact \<and> length xs = 1" if "applySendingGate (Suc n) hs [] ''s'' ''text'' input ''t'' m = Some (res, xs, m')" for n
    using chain(1) that
    by (auto simp: applySendingGate_def gate_options_def gate_reply_def runInFlight_def runHandlers_def isInFlight_def chain(2-4)
        hs_def redact_def adopted_def vetoed_def Let_def)
  from this [of 20] r show ?thesis
    unfolding Let_def m_def [symmetric] redact_def [symmetric] hs_def [symmetric] input_def [symmetric] by simp
qed

end
