(* ===== verification/Ingress_Signature.thy ===== *)
theory Ingress_Signature
  imports Complex_Main Json_Text "HOL-Library.Sublist"
begin

text \<open>
  Verification and acknowledgement of inbound provider webhooks: \<^verbatim>\<open>src/src/modules/integration/ingress-signature.ts\<close>,
  \<^verbatim>\<open>ingress-ack.ts\<close> and \<^verbatim>\<open>src/src/common/security/constantTimeEqual.ts\<close>. The digests and the base64 decoder are fields
  of an environment; headers are the request's, with keys in lower case.
\<close>

section \<open>Environment\<close>

text \<open>
  \<open>sha256\<close> is a hash of bytes, \<open>hmac\<close> the keyed one in an encoding, \<open>eq_key\<close> the random key of the process.
\<close>

datatype digest_encoding = Hex | Base64

record crypto =
  sha256 :: "string \<Rightarrow> string"
  hmac :: "string \<Rightarrow> string \<Rightarrow> digest_encoding \<Rightarrow> string"
  unbase64 :: "string \<Rightarrow> string"
  eq_key :: string

definition constantTimeEqual :: "'x crypto_scheme \<Rightarrow> string \<Rightarrow> string \<Rightarrow> bool" where
  "constantTimeEqual cr a b \<longleftrightarrow> sha256 cr (eq_key cr @ a) = sha256 cr (eq_key cr @ b)"

section \<open>Texts\<close>

text \<open>
  One pass of \<open>template.replace(/\{rawBody\}|\{timestamp\}|\{id\}/g, f)\<close>: the token at the leftmost position is replaced, and
  the scan goes on behind it.
\<close>

definition token_at :: "(string \<times> string) list \<Rightarrow> string \<Rightarrow> (string \<times> string) option" where
  "token_at ts s = find (\<lambda>(t, v). prefix t s) ts"

function replace_tokens :: "(string \<times> string) list \<Rightarrow> string \<Rightarrow> string" where
  "replace_tokens ts [] = []"
| "replace_tokens ts (c # s) =
     (case token_at ts (c # s) of
        None \<Rightarrow> c # replace_tokens ts s
      | Some (t, v) \<Rightarrow> v @ replace_tokens ts (drop (length t - 1) s))"
  by pat_completeness auto
termination
  by (relation "measure (\<lambda>(ts, s). length s)") auto

definition template_tokens :: "string \<Rightarrow> string \<Rightarrow> string \<Rightarrow> (string \<times> string) list" where
  "template_tokens rawBody timestamp i = [(''{rawBody}'', rawBody), (''{timestamp}'', timestamp), (''{id}'', i)]"

text \<open>\<open>Number.parseInt(text, 10)\<close>: white space, a sign and the digits in front; \<open>None\<close> is NaN.\<close>

definition parse_int :: "string \<Rightarrow> int option" where
  "parse_int s =
     (let s1 = dropWhile js_ws s;
          neg = (s1 \<noteq> [] \<and> hd s1 = CHR ''-'');
          s2 = (if s1 \<noteq> [] \<and> (hd s1 = CHR ''-'' \<or> hd s1 = CHR ''+'') then tl s1 else s1);
          ds = takeWhile is_digit s2;
          n = foldl (\<lambda>n c. 10 * n + (of_char c - 48)) (0 :: int) ds
      in if ds = [] then None else Some (if neg then - n else n))"

fun starts_with :: "string \<Rightarrow> string \<Rightarrow> bool" where
  "starts_with s p = prefix p s"

section \<open>Signatures\<close>

datatype signature_scheme = Hmac_sha256 | Shared_secret | Standard_webhooks | No_scheme

record signature_spec =
  sg_scheme :: signature_scheme
  sg_header :: "string option"
  sg_template :: "string option"
  sg_encoding :: "digest_encoding option"
  sg_prefix :: "string option"
  sg_timestamp :: "string option"
  sg_tolerance :: "rat option"
  sg_dedup :: "string option"

record verify_input =
  vi_body :: string
  vi_headers :: "(string \<times> string) list"
  vi_secret :: string
  vi_now :: int
  vi_instance :: string

datatype refusal_reason =
    Empty_secret | Empty_standard_secret | Empty_standard_key | Missing_standard_header | Invalid_standard_timestamp
  | Stale_timestamp | Standard_mismatch | Missing_timestamp | Missing_signature | Secret_mismatch | Hmac_mismatch

text \<open>
  The host's replay window from the variable as \<open>Number\<close> reads it (\<open>None\<close> is NaN), in seconds.
\<close>

definition resolveIngressTimestampToleranceSec :: "rat option \<Rightarrow> rat" where
  "resolveIngressTimestampToleranceSec parsed =
     (case parsed of
        Some q \<Rightarrow> if q = of_int \<lfloor>q\<rfloor> \<and> 0 < q then q else 300
      | None \<Rightarrow> 300)"

definition header_of :: "(string \<times> string) list \<Rightarrow> string option \<Rightarrow> string option" where
  "header_of hs name = (if truthy name then map_of hs (toLowerCase (the name)) else None)"

definition parseWebhookSecret :: "string \<Rightarrow> string option" where
  "parseWebhookSecret secret =
     (let s0 = trim secret;
          s1 = (if starts_with s0 ''v1,'' then drop 3 s0 else s0);
          s2 = (if starts_with s1 ''whsec_'' then drop 6 s1 else s1)
      in if s2 \<noteq> [] then Some s2 else None)"

definition stale :: "verify_input \<Rightarrow> signature_spec \<Rightarrow> rat option \<Rightarrow> int \<Rightarrow> bool" where
  "stale inp spec hostTolerance ts \<longleftrightarrow>
     (case sg_tolerance spec of Some t \<Rightarrow> t | None \<Rightarrow> resolveIngressTimestampToleranceSec hostTolerance)
       < \<bar>of_int (vi_now inp) / 1000 - of_int ts\<bar>"

text \<open>A candidate of the signature header: \<open>version,signature\<close>.\<close>

definition candidate_matches :: "'x crypto_scheme \<Rightarrow> string \<Rightarrow> string \<Rightarrow> bool" where
  "candidate_matches cr expected candidate =
     (case indexOf (CHR '','') candidate of
        None \<Rightarrow> False
      | Some comma \<Rightarrow> take comma candidate = ''v1'' \<and> constantTimeEqual cr (drop (Suc comma) candidate) expected)"

definition standard_content :: "string \<Rightarrow> string \<Rightarrow> string \<Rightarrow> string" where
  "standard_content i ts body = i @ ''.'' @ ts @ ''.'' @ body"

definition verifyStandardWebhooks ::
    "'x crypto_scheme \<Rightarrow> rat option \<Rightarrow> signature_spec \<Rightarrow> verify_input \<Rightarrow> refusal_reason option" where
  "verifyStandardWebhooks cr hostTolerance spec inp =
     (case parseWebhookSecret (vi_secret inp) of
        None \<Rightarrow> Some Empty_standard_secret
      | Some keyB64 \<Rightarrow>
          let key = unbase64 cr keyB64
          in if key = [] then Some Empty_standard_key
             else
               let i = header_of (vi_headers inp) (Some ''webhook-id'');
                   tsRaw = header_of (vi_headers inp) (Some ''webhook-timestamp'');
                   sigHeader = header_of (vi_headers inp) (Some ''webhook-signature'')
               in if \<not> truthy i \<or> \<not> truthy tsRaw \<or> \<not> truthy sigHeader then Some Missing_standard_header
                  else case parse_int (the tsRaw) of
                         None \<Rightarrow> Some Invalid_standard_timestamp
                       | Some ts \<Rightarrow>
                           if stale inp spec hostTolerance ts then Some Stale_timestamp
                           else
                             let expected = hmac cr key (standard_content (the i) (the tsRaw) (vi_body inp)) Base64
                             in if list_ex (candidate_matches cr expected) (split_on (CHR '' '') (the sigHeader)) then None
                                else Some Standard_mismatch)"

definition signed_content :: "signature_spec \<Rightarrow> verify_input \<Rightarrow> string" where
  "signed_content spec inp =
     (let template = (case sg_template spec of Some t \<Rightarrow> t | None \<Rightarrow> ''{rawBody}'');
          timestamp = (case header_of (vi_headers inp) (sg_timestamp spec) of Some t \<Rightarrow> t | None \<Rightarrow> [])
      in replace_tokens (template_tokens (vi_body inp) timestamp (vi_instance inp)) template)"

definition expected_hmac :: "'x crypto_scheme \<Rightarrow> signature_spec \<Rightarrow> verify_input \<Rightarrow> string" where
  "expected_hmac cr spec inp =
     (case sg_prefix spec of Some p \<Rightarrow> p | None \<Rightarrow> [])
       @ hmac cr (vi_secret inp) (signed_content spec inp) (case sg_encoding spec of Some e \<Rightarrow> e | None \<Rightarrow> Hex)"

text \<open>The check of a declared timestamp header, of the hmac and shared-secret schemes.\<close>

definition timestamp_refusal :: "rat option \<Rightarrow> signature_spec \<Rightarrow> verify_input \<Rightarrow> refusal_reason option" where
  "timestamp_refusal hostTolerance spec inp =
     (if truthy (sg_timestamp spec)
      then case parse_int (case header_of (vi_headers inp) (sg_timestamp spec) of Some t \<Rightarrow> t | None \<Rightarrow> []) of
             None \<Rightarrow> Some Missing_timestamp
           | Some ts \<Rightarrow> if stale inp spec hostTolerance ts then Some Stale_timestamp else None
      else None)"

definition verifyIngressSignature ::
    "'x crypto_scheme \<Rightarrow> rat option \<Rightarrow> signature_spec \<Rightarrow> verify_input \<Rightarrow> refusal_reason option" where
  "verifyIngressSignature cr hostTolerance spec inp =
     (if sg_scheme spec = No_scheme then None
      else if vi_secret inp = [] then Some Empty_secret
      else if sg_scheme spec = Standard_webhooks then verifyStandardWebhooks cr hostTolerance spec inp
      else case timestamp_refusal hostTolerance spec inp of
             Some r \<Rightarrow> Some r
           | None \<Rightarrow>
               let provided = header_of (vi_headers inp) (sg_header spec)
               in if \<not> truthy provided then Some Missing_signature
                  else if sg_scheme spec = Shared_secret
                  then (if constantTimeEqual cr (the provided) (vi_secret inp) then None else Some Secret_mismatch)
                  else if constantTimeEqual cr (the provided) (expected_hmac cr spec inp) then None
                  else Some Hmac_mismatch)"

definition isQueryBorne :: "string \<Rightarrow> (string \<times> string) list \<Rightarrow> bool" where
  "isQueryBorne rawBody query \<longleftrightarrow> rawBody = [] \<and> query \<noteq> []"

definition ingressDeliveryVerified :: "signature_scheme \<Rightarrow> string \<Rightarrow> (string \<times> string) list \<Rightarrow> bool" where
  "ingressDeliveryVerified scheme rawBody query \<longleftrightarrow>
     scheme \<noteq> No_scheme \<and> (scheme = Shared_secret \<or> \<not> isQueryBorne rawBody query)"

section \<open>The acknowledgement\<close>

text \<open>
  A route's declared ack, untyped where the code guards against an unvalidated manifest: a status that is no number, a
  body or a header value that is no string.
\<close>

record ack_spec =
  as_status :: "int option"
  as_body :: "string option"
  as_headers :: "(string \<times> string option) list option"

record ack =
  a_status :: int
  a_body :: "string option"
  a_headers :: "(string \<times> string) list option"

definition renderAck :: "ack_spec option \<Rightarrow> string \<Rightarrow> string \<Rightarrow> string \<Rightarrow> ack" where
  "renderAck spec rawBody timestamp i =
     (case spec of
        None \<Rightarrow> \<lparr>a_status = 202, a_body = Some ''accepted'', a_headers = None\<rparr>
      | Some sp \<Rightarrow>
          \<lparr>a_status = (case as_status sp of Some n \<Rightarrow> n | None \<Rightarrow> 202),
           a_body = map_option (replace_tokens (template_tokens rawBody timestamp i)) (as_body sp),
           a_headers = map_option (List.map_filter (\<lambda>(n, v). map_option (Pair n) v)) (as_headers sp)\<rparr>)"

definition RESERVED_ACK_HEADERS :: "string list" where
  "RESERVED_ACK_HEADERS =
     [''content-type'', ''content-length'', ''transfer-encoding'', ''content-encoding'', ''trailer'',
      ''content-security-policy'', ''x-content-type-options'', ''x-frame-options'', ''strict-transport-security'',
      ''referrer-policy'', ''set-cookie'', ''access-control-allow-origin'', ''access-control-allow-credentials'']"

definition safeAckHeaders :: "(string \<times> string) list option \<Rightarrow> (string \<times> string) list" where
  "safeAckHeaders headers =
     (case headers of
        None \<Rightarrow> []
      | Some hs \<Rightarrow> filter (\<lambda>(n, v). toLowerCase n \<notin> set RESERVED_ACK_HEADERS) hs)"

definition HONORED_ACK_MEDIA_TYPES :: "string list" where
  "HONORED_ACK_MEDIA_TYPES = [''application/json'', ''text/plain'']"

definition ackContentType :: "(string \<times> string) list option \<Rightarrow> string" where
  "ackContentType headers =
     (let declared = (case headers of
                        None \<Rightarrow> None
                      | Some hs \<Rightarrow> map_option snd (find (\<lambda>(n, v). toLowerCase n = ''content-type'') hs))
      in if \<not> truthy declared then ''text/plain''
         else let mediaType = toLowerCase (trim (hd (split_on (CHR '';'') (the declared))))
              in if mediaType \<in> set HONORED_ACK_MEDIA_TYPES then mediaType else ''text/plain'')"

section \<open>What the check admits\<close>

text \<open>
  A template filled in: read from the left, a token stands for its value, put in as it is, and a
  character where no token begins for itself.
\<close>

inductive fills :: "(string \<times> string) list \<Rightarrow> string \<Rightarrow> string \<Rightarrow> bool" for ts where
  empty: "fills ts [] []"
| token: "(t, v) \<in> set ts \<Longrightarrow> fills ts s r \<Longrightarrow> fills ts (t @ s) (v @ r)"
| plain_char: "\<forall>t \<in> fst ` set ts. \<not> prefix t (c # s) \<Longrightarrow> fills ts s r \<Longrightarrow> fills ts (c # s) (c # r)"

lemma token_at_template:
  "token_at (template_tokens b ts i) (CHR ''{'' # s) =
     (if prefix ''rawBody}'' s then Some (''{rawBody}'', b) else if prefix ''timestamp}'' s then Some (''{timestamp}'', ts)
      else if prefix ''id}'' s then Some (''{id}'', i) else None)"
  by (simp add: token_at_def template_tokens_def)

lemma token_at_other: "c \<noteq> CHR ''{'' \<Longrightarrow> token_at (template_tokens b ts i) (c # s) = None"
  by (simp add: token_at_def template_tokens_def)

lemma replace_token:
  assumes "(t, v) \<in> set (template_tokens b ts i)"
  shows "replace_tokens (template_tokens b ts i) (t @ s) = v @ replace_tokens (template_tokens b ts i) s"
proof -
  have "(t, v) \<in> {(''{rawBody}'', b), (''{timestamp}'', ts), (''{id}'', i)}"
    using assms by (simp add: template_tokens_def)
  then show ?thesis
    by (auto simp: token_at_template)
qed

lemma token_at_SomeD: "token_at ts s = Some (t, v) \<Longrightarrow> (t, v) \<in> set ts \<and> prefix t s"
  by (induction ts) (auto simp: token_at_def split: if_splits)

lemma token_at_NoneD: "token_at ts s = None \<Longrightarrow> \<forall>t \<in> fst ` set ts. \<not> prefix t s"
  by (auto simp: token_at_def find_None_iff)

lemma fills_iff: "fills (template_tokens b ts i) s r \<longleftrightarrow> r = replace_tokens (template_tokens b ts i) s" (is "fills ?ts s r \<longleftrightarrow> _")
proof
  show "fills ?ts s r \<Longrightarrow> r = replace_tokens ?ts s"
  proof (induction rule: fills.induct)
    case (plain_char c s r)
    then have "token_at ?ts (c # s) = None"
      using token_at_SomeD [of ?ts "c # s"] by (cases "token_at ?ts (c # s)") (auto, force)
    with plain_char show ?case
      by simp
  qed (simp_all add: replace_token)
next
  have "fills ?ts s (replace_tokens ?ts s)"
  proof (induction ?ts s rule: replace_tokens.induct)
    case (2 c s)
    show ?case
    proof (cases "token_at ?ts (c # s)")
      case None
      then show ?thesis
        using 2 token_at_NoneD [OF None] by (auto intro: fills.plain_char)
    next
      case (Some tv)
      obtain t v where tv: "tv = (t, v)"
        by fastforce
      have t: "(t, v) \<in> set ?ts" "prefix t (c # s)"
        using token_at_SomeD Some tv by auto
      moreover have "t \<noteq> []"
        using t(1) by (auto simp: template_tokens_def)
      ultimately have "c # s = t @ drop (length t - 1) s"
        by (cases t) (auto simp: prefix_def)
      moreover have "fills ?ts (t @ drop (length t - 1) s) (v @ replace_tokens ?ts (drop (length t - 1) s))"
        using 2 Some tv t(1) by (auto intro: fills.token)
      moreover have "replace_tokens ?ts (c # s) = v @ replace_tokens ?ts (drop (length t - 1) s)"
        using Some tv by simp
      ultimately show ?thesis
        by metis
    qed
  qed (simp add: fills.empty)
  then show "r = replace_tokens ?ts s \<Longrightarrow> fills ?ts s r"
    by simp
qed

definition content_of :: "signature_spec \<Rightarrow> verify_input \<Rightarrow> string \<Rightarrow> bool" where
  "content_of spec inp content \<longleftrightarrow>
     fills (template_tokens (vi_body inp) (case header_of (vi_headers inp) (sg_timestamp spec) of Some t \<Rightarrow> t | None \<Rightarrow> []) (vi_instance inp))
       (case sg_template spec of Some t \<Rightarrow> t | None \<Rightarrow> ''{rawBody}'') content"

lemma content_of_iff: "content_of spec inp content \<longleftrightarrow> content = signed_content spec inp"
  by (simp add: content_of_def fills_iff signed_content_def Let_def)

text \<open>The rules of the four schemes, with fresh timestamps where one is declared.\<close>

definition fresh :: "rat option \<Rightarrow> signature_spec \<Rightarrow> verify_input \<Rightarrow> string \<Rightarrow> bool" where
  "fresh hostTolerance spec inp raw \<longleftrightarrow>
     (\<exists>ts. parse_int raw = Some ts \<and>
        \<bar>of_int (vi_now inp) / 1000 - of_int ts\<bar>
          \<le> (case sg_tolerance spec of Some t \<Rightarrow> t | None \<Rightarrow> resolveIngressTimestampToleranceSec hostTolerance))"

definition fresh_if_declared :: "rat option \<Rightarrow> signature_spec \<Rightarrow> verify_input \<Rightarrow> bool" where
  "fresh_if_declared hostTolerance spec inp \<longleftrightarrow>
     (truthy (sg_timestamp spec) \<longrightarrow> (\<exists>raw. header_of (vi_headers inp) (sg_timestamp spec) = Some raw \<and> fresh hostTolerance spec inp raw))"

inductive authentic :: "'x crypto_scheme \<Rightarrow> rat option \<Rightarrow> signature_spec \<Rightarrow> verify_input \<Rightarrow> bool" for cr hostTolerance spec inp where
  unsigned: "sg_scheme spec = No_scheme \<Longrightarrow> authentic cr hostTolerance spec inp"
| secret: "sg_scheme spec = Shared_secret \<Longrightarrow> vi_secret inp \<noteq> [] \<Longrightarrow> fresh_if_declared hostTolerance spec inp \<Longrightarrow>
    header_of (vi_headers inp) (sg_header spec) = Some (vi_secret inp) \<Longrightarrow> authentic cr hostTolerance spec inp"
| signed: "sg_scheme spec = Hmac_sha256 \<Longrightarrow> vi_secret inp \<noteq> [] \<Longrightarrow> fresh_if_declared hostTolerance spec inp \<Longrightarrow>
    header_of (vi_headers inp) (sg_header spec) = Some sig \<Longrightarrow> sig \<noteq> [] \<Longrightarrow> content_of spec inp content \<Longrightarrow>
    sig = (case sg_prefix spec of Some p \<Rightarrow> p | None \<Rightarrow> [])
      @ hmac cr (vi_secret inp) content (case sg_encoding spec of Some e \<Rightarrow> e | None \<Rightarrow> Hex) \<Longrightarrow>
    authentic cr hostTolerance spec inp"
| standard: "sg_scheme spec = Standard_webhooks \<Longrightarrow> vi_secret inp \<noteq> [] \<Longrightarrow> parseWebhookSecret (vi_secret inp) = Some b64 \<Longrightarrow>
    unbase64 cr b64 \<noteq> [] \<Longrightarrow> map_of (vi_headers inp) ''webhook-id'' = Some i \<Longrightarrow> i \<noteq> [] \<Longrightarrow>
    map_of (vi_headers inp) ''webhook-timestamp'' = Some raw \<Longrightarrow> raw \<noteq> [] \<Longrightarrow> fresh hostTolerance spec inp raw \<Longrightarrow>
    map_of (vi_headers inp) ''webhook-signature'' = Some sigs \<Longrightarrow>
    ''v1,'' @ hmac cr (unbase64 cr b64) (i @ ''.'' @ raw @ ''.'' @ vi_body inp) Base64 \<in> set (split_on (CHR '' '') sigs) \<Longrightarrow>
    authentic cr hostTolerance spec inp"

lemma constantTimeEqual_iff: "inj (sha256 cr) \<Longrightarrow> constantTimeEqual cr a b \<longleftrightarrow> a = b"
  by (auto simp: constantTimeEqual_def dest: injD)

lemma candidate_iff:
  assumes "inj (sha256 cr)"
  shows "candidate_matches cr e c \<longleftrightarrow> c = ''v1,'' @ e"
proof -
  have "c = take n c @ CHR '','' # drop (Suc n) c" if "indexOf (CHR '','') c = Some n" for n
    using that
  proof (induction c arbitrary: n)
    case (Cons x c)
    then show ?case
      by (auto split: if_splits option.splits)
  qed simp
  moreover have "indexOf (CHR '','') (''v1,'' @ e) = Some 2"
    by simp
  ultimately show ?thesis
    using assms by (fastforce simp: candidate_matches_def constantTimeEqual_iff split: option.splits)
qed

lemma not_stale: "parse_int raw = Some ts \<Longrightarrow> \<not> stale inp spec tol ts \<longleftrightarrow> fresh tol spec inp raw"
  by (auto simp: stale_def fresh_def not_less)

lemma timestamp_refusal_iff: "timestamp_refusal tol spec inp = None \<longleftrightarrow> fresh_if_declared tol spec inp"
proof (cases "truthy (sg_timestamp spec)")
  case True
  have no: "parse_int [] = None"
    by (simp add: parse_int_def)
  show ?thesis
  proof (cases "header_of (vi_headers inp) (sg_timestamp spec)")
    case None
    with True no show ?thesis
      by (simp add: timestamp_refusal_def fresh_if_declared_def)
  next
    case (Some raw)
    with True show ?thesis
      using not_stale [of raw _ inp spec tol]
      by (cases "parse_int raw") (auto simp: timestamp_refusal_def fresh_if_declared_def fresh_def split: if_splits)
  qed
qed (simp add: timestamp_refusal_def fresh_if_declared_def)

lemma header_of_lower: "n \<noteq> [] \<Longrightarrow> toLowerCase n = n \<Longrightarrow> header_of hs (Some n) = map_of hs n"
  by (simp add: header_of_def)

lemma standard_iff:
  assumes "inj (sha256 cr)" "sg_scheme spec = Standard_webhooks" "vi_secret inp \<noteq> []"
  shows "verifyStandardWebhooks cr tol spec inp = None \<longleftrightarrow> authentic cr tol spec inp"
proof -
  have hs: "header_of (vi_headers inp) (Some ''webhook-id'') = map_of (vi_headers inp) ''webhook-id''"
      "header_of (vi_headers inp) (Some ''webhook-timestamp'') = map_of (vi_headers inp) ''webhook-timestamp''"
      "header_of (vi_headers inp) (Some ''webhook-signature'') = map_of (vi_headers inp) ''webhook-signature''"
    by (rule header_of_lower; code_simp)+
  have "authentic cr tol spec inp \<longleftrightarrow>
      (\<exists>b64 i raw sigs. parseWebhookSecret (vi_secret inp) = Some b64 \<and> unbase64 cr b64 \<noteq> []
        \<and> map_of (vi_headers inp) ''webhook-id'' = Some i \<and> i \<noteq> []
        \<and> map_of (vi_headers inp) ''webhook-timestamp'' = Some raw \<and> raw \<noteq> [] \<and> fresh tol spec inp raw
        \<and> map_of (vi_headers inp) ''webhook-signature'' = Some sigs
        \<and> ''v1,'' @ hmac cr (unbase64 cr b64) (i @ ''.'' @ raw @ ''.'' @ vi_body inp) Base64 \<in> set (split_on (CHR '' '') sigs))"
    using assms(2,3) by (subst authentic.simps) auto
  moreover have "(\<exists>ts. parse_int raw = Some ts \<and> \<not> stale inp spec tol ts) \<longleftrightarrow> fresh tol spec inp raw" for raw
    using not_stale [of raw _ inp spec tol] by (auto simp: fresh_def)
  moreover have "verifyStandardWebhooks cr tol spec inp = None \<longleftrightarrow>
      (\<exists>b64 i raw sigs. parseWebhookSecret (vi_secret inp) = Some b64 \<and> unbase64 cr b64 \<noteq> []
        \<and> map_of (vi_headers inp) ''webhook-id'' = Some i \<and> i \<noteq> []
        \<and> map_of (vi_headers inp) ''webhook-timestamp'' = Some raw \<and> raw \<noteq> []
        \<and> (\<exists>ts. parse_int raw = Some ts \<and> \<not> stale inp spec tol ts)
        \<and> map_of (vi_headers inp) ''webhook-signature'' = Some sigs
        \<and> ''v1,'' @ hmac cr (unbase64 cr b64) (i @ ''.'' @ raw @ ''.'' @ vi_body inp) Base64 \<in> set (split_on (CHR '' '') sigs))"
    unfolding verifyStandardWebhooks_def hs
    by (auto simp: truthy_iff Let_def list_ex_iff candidate_iff [OF assms(1)] standard_content_def split: option.splits if_splits)
  ultimately show ?thesis
    by simp
qed

lemma verify_iff_authentic:
  assumes "inj (sha256 cr)"
  shows "verifyIngressSignature cr tol spec inp = None \<longleftrightarrow> authentic cr tol spec inp"
proof (cases "sg_scheme spec")
  case Hmac_sha256
  then have "authentic cr tol spec inp \<longleftrightarrow> vi_secret inp \<noteq> [] \<and> fresh_if_declared tol spec inp
      \<and> (\<exists>sig. header_of (vi_headers inp) (sg_header spec) = Some sig \<and> sig \<noteq> [] \<and> sig = expected_hmac cr spec inp)"
    unfolding authentic.simps content_of_iff expected_hmac_def by simp
  then show ?thesis
    using Hmac_sha256
    by (auto simp: verifyIngressSignature_def timestamp_refusal_iff [symmetric] constantTimeEqual_iff [OF assms] truthy_iff Let_def split: option.splits)
next
  case Shared_secret
  then show ?thesis
    by (subst authentic.simps)
      (auto simp: verifyIngressSignature_def timestamp_refusal_iff [symmetric] constantTimeEqual_iff [OF assms] truthy_iff Let_def split: option.splits)
next
  case Standard_webhooks
  then show ?thesis
    using standard_iff [OF assms Standard_webhooks, of inp tol]
    by (cases "vi_secret inp = []") (auto simp: verifyIngressSignature_def elim: authentic.cases)
next
  case No_scheme
  then show ?thesis
    by (simp add: verifyIngressSignature_def authentic.unsigned)
qed

section \<open>Properties\<close>

lemma ack_header_rules:
  "ackContentType hs \<in> {''application/json'', ''text/plain''}"
  "(n, v) \<in> set (safeAckHeaders hs) \<Longrightarrow> toLowerCase n \<notin> set RESERVED_ACK_HEADERS"
  by (auto simp: ackContentType_def safeAckHeaders_def HONORED_ACK_MEDIA_TYPES_def Let_def split: option.splits)

text \<open>
  C16: the signature check admits exactly the authentic deliveries. With a hash without collisions (the constant-time
  comparison compares digests), for every route and every delivery: it passes exactly when its route authenticates nothing, or
  the instance has a secret and the declared header is that secret, or is the prefixed HMAC of the signed content, or one
  of the version-1 candidates is the Standard Webhooks signature of id, timestamp and body - with a timestamp in the window
  wherever one is declared. The signed content is the route's template, the raw body when it declares none, with body,
  timestamp and instance id put in for their tokens literally, whatever they contain.
\<close>

theorem ingress_signature_exact:
  assumes "inj (sha256 cr)"
  shows "verifyIngressSignature cr tol spec inp = None \<longleftrightarrow> authentic cr tol spec inp"
  by (rule verify_iff_authentic [OF assms])

text \<open>A body that holds a token itself, signed with the timestamp in front.\<close>

definition demo_crypto :: crypto where
  "demo_crypto = \<lparr>sha256 = (\<lambda>s. s), hmac = (\<lambda>k c e. k @ ''/'' @ c), unbase64 = (\<lambda>s. s), eq_key = ''k''\<rparr>"

definition demo_spec :: signature_spec where
  "demo_spec = \<lparr>sg_scheme = Hmac_sha256, sg_header = Some ''X-Sig'', sg_template = Some ''{timestamp}.{rawBody}'', sg_encoding = None,
     sg_prefix = Some ''v0='', sg_timestamp = Some ''X-Time'', sg_tolerance = None, sg_dedup = None\<rparr>"

definition demo_delivery :: verify_input where
  "demo_delivery = \<lparr>vi_body = ''{id}'', vi_headers = [(''x-sig'', ''v0=s3/100.{id}''), (''x-time'', ''100'')], vi_secret = ''s3'',
     vi_now = 150000, vi_instance = ''prod''\<rparr>"

theorem ingress_signature_exact_witness:
  "authentic demo_crypto None demo_spec demo_delivery
   \<and> \<not> authentic demo_crypto None demo_spec (demo_delivery\<lparr>vi_body := ''{}''\<rparr>)
   \<and> \<not> authentic demo_crypto None (demo_spec\<lparr>sg_template := None\<rparr>) demo_delivery"
proof -
  have inj: "inj (sha256 demo_crypto)"
    by (simp add: demo_crypto_def)
  have "verifyIngressSignature demo_crypto None demo_spec demo_delivery = None"
    "verifyIngressSignature demo_crypto None demo_spec (demo_delivery\<lparr>vi_body := ''{}''\<rparr>) \<noteq> None"
    "verifyIngressSignature demo_crypto None (demo_spec\<lparr>sg_template := None\<rparr>) demo_delivery \<noteq> None"
    by code_simp+
  then show ?thesis
    unfolding ingress_signature_exact [OF inj] by blast
qed

end
