(* ===== verification/Ingress_Admission.thy ===== *)
theory Ingress_Admission
  imports Ingress_Signature Json_Inject Effects "HOL-Library.List_Lexorder"
begin

text \<open>
  The fast-ack pipeline of inbound provider webhooks: \<^verbatim>\<open>src/src/modules/integration/ingress.service.ts\<close> over the preflight
  (\<^verbatim>\<open>ingress-preflight.ts\<close>) and the table of persisted events (\<^verbatim>\<open>ingress-event.service.ts\<close>). Every statement on the table
  may fail, with or without having taken effect, and is preceded by what others do to the table.
\<close>

section \<open>Requests, instances and routes\<close>

record ingress_request =
  q_plugin :: string
  q_instance :: string
  q_route :: string
  q_method :: string
  q_headers :: "(string \<times> string) list"
  q_query :: "(string \<times> string) list"
  q_body :: string
  q_unparsed :: bool

record resolved_instance =
  in_secret :: string
  in_enabled :: bool
  in_scope :: "string option"
  in_verify :: "string option"

text \<open>
  A manifest is third-party JSON: \<open>maxBodyBytes\<close> is a finite number, a text that is not blank (with what \<open>Number\<close> makes of
  it, \<open>None\<close> when that is not finite), or anything else.
\<close>

datatype declared_cap = Number_cap rat | Text_cap "rat option" | No_cap

record response_contract =
  rs_preflight :: "string list"
  rs_ack :: "ack_spec option"

record ingress_route =
  rt_signature :: signature_spec
  rt_challenge :: "(string \<times> string) option"
  rt_cap :: declared_cap
  rt_conversation :: "(string option \<times> string option) option"
  rt_dedup_header :: "string option"
  rt_dedup_body :: bool
  rt_mismatch_new :: bool
  rt_response :: "response_contract option"

text \<open>The persisted payload; \<open>pl_method\<close> is only stored with the row.\<close>

record ingress_payload =
  pl_verified :: bool
  pl_headers :: "(string \<times> string) list"
  pl_query :: "(string \<times> string) list"
  pl_body :: string
  pl_provider :: "string option"
  pl_method :: "string option"

datatype dispatch_state = Pending | Dispatched | Failed

record ingress_event =
  ev_plugin :: string
  ev_instance :: string
  ev_delivery :: string
  ev_route :: string
  ev_payload :: "ingress_payload option"
  ev_hash :: "string option"
  ev_session :: "string option"
  ev_state :: "dispatch_state option"

record ingress_job =
  j_plugin :: string
  j_instance :: string
  j_route :: string
  j_method :: string
  j_delivery :: string
  j_session :: "string option"
  j_conversation :: "string option"
  j_payload :: ingress_payload

text \<open>
  What the service is given: instances and manifests, the rate bucket, the probes of the host (each may be unwired), the
  clock at the check and at the ack, the process's body limit and \<open>JSON.parse\<close>. For the statement numbered n, what
  others do before it, whether it fails, and whether it took effect although it failed.
\<close>

record ingress_env = crypto +
  resolve :: "string \<Rightarrow> string \<Rightarrow> resolved_instance option"
  manifestRoute :: "string \<Rightarrow> string \<Rightarrow> ingress_route option"
  admitInstance :: "(string \<Rightarrow> string \<Rightarrow> bool \<times> (string \<times> string) list) option"
  sessionStatus :: "(string \<Rightarrow> string option) option"
  restorePending :: "string \<Rightarrow> bool"
  deferDispatch :: "string \<Rightarrow> bool"
  checked_at :: int
  acked_at :: int
  body_limit :: rat
  host_tolerance :: "rat option"
  throttled_text :: string
  json_parse :: "string \<Rightarrow> json option"
  others :: "nat \<Rightarrow> ingress_event list \<Rightarrow> ingress_event list"
  fails :: "nat \<Rightarrow> bool"
  takes_effect :: "nat \<Rightarrow> bool"

section \<open>Preflight\<close>

definition retryable503 :: "string \<Rightarrow> ack" where
  "retryable503 body = \<lparr>a_status = 503, a_body = Some body, a_headers = Some [(''Retry-After'', ''5'')]\<rparr>"

definition pluginRestoringRejection :: ack where
  "pluginRestoringRejection = retryable503 ''plugin restoring''"

definition evaluatePreflight :: "ingress_route \<Rightarrow> string option \<Rightarrow> (string \<Rightarrow> string option) option \<Rightarrow> ack option" where
  "evaluatePreflight route scope status =
     (case rt_response route of
        None \<Rightarrow> None
      | Some rs \<Rightarrow>
          if \<exists>check \<in> set (rs_preflight rs). check = ''session-alive'' \<and> truthy scope \<and> scope \<noteq> Some ''*''
               \<and> (case status of None \<Rightarrow> False | Some st \<Rightarrow> st (the scope) = None \<or> st (the scope) = Some ''failed'')
          then Some (retryable503 ''session not ready'') else None)"

section \<open>Delivery ids, conversations and headers\<close>

definition MAX_DELIVERY_ID_LENGTH :: nat where
  "MAX_DELIVERY_ID_LENGTH = 255"

fun join_nul :: "string list \<Rightarrow> string" where
  "join_nul [] = []"
| "join_nul [s] = s"
| "join_nul (s # ss) = s @ CHR 0x00 # join_nul ss"

text \<open>The text whose hash is the id of a delivery without one of its own.\<close>

definition delivery_text :: "ingress_request \<Rightarrow> string" where
  "delivery_text req =
     (let query = sort_key fst (q_query req)
      in join_nul ([q_plugin req, q_instance req, q_route req, q_body req]
           @ (if q_body req = [] \<and> query \<noteq> []
              then [q_method req, json_text (JArr (map (\<lambda>(k, v). JArr [JStr k, JStr v]) query))] else [])))"

definition deriveDeliveryId :: "'x crypto_scheme \<Rightarrow> ingress_request \<Rightarrow> string" where
  "deriveDeliveryId cr req = sha256 cr (delivery_text req)"

definition delivery_id :: "'x crypto_scheme \<Rightarrow> ingress_route \<Rightarrow> ingress_request \<Rightarrow> string" where
  "delivery_id cr route req =
     (let standard = (if sg_scheme (rt_signature route) = Standard_webhooks then ''webhook-id'' else ''x-delivery'');
          name = toLowerCase (case rt_dedup_header route of
                                Some h \<Rightarrow> h
                              | None \<Rightarrow> (case sg_dedup (rt_signature route) of Some h \<Rightarrow> h | None \<Rightarrow> standard));
          headerId = map_option trim (map_of (q_headers req) name)
      in if rt_dedup_body route \<or> \<not> truthy headerId \<or> MAX_DELIVERY_ID_LENGTH < length (the headerId)
         then deriveDeliveryId cr req else the headerId)"

text \<open>A pointer's token: \<open>~1\<close> and \<open>~0\<close> stand for \<open>/\<close> and \<open>~\<close>; another use of \<open>~\<close> is refused.\<close>

fun bad_escape :: "string \<Rightarrow> bool" where
  "bad_escape [] = False"
| "bad_escape (c # s) = ((c = CHR ''~'' \<and> (s = [] \<or> hd s \<notin> {CHR ''0'', CHR ''1''})) \<or> bad_escape s)"

definition unescape_token :: "string \<Rightarrow> string" where
  "unescape_token t = replace_tokens [(''~0'', ''~'')] (replace_tokens [(''~1'', ''/'')] t)"

definition array_index :: "string \<Rightarrow> nat option" where
  "array_index k =
     (if k = ''0'' \<or> (k \<noteq> [] \<and> list_all is_digit k \<and> hd k \<noteq> CHR ''0'')
      then Some (foldl (\<lambda>n c. 10 * n + (of_char c - 48)) 0 k) else None)"

fun pointer_step :: "json \<Rightarrow> string \<Rightarrow> json option" where
  "pointer_step (JObj fs) key = map_of fs key"
| "pointer_step (JArr xs) key =
     (case array_index key of None \<Rightarrow> None | Some n \<Rightarrow> if n < length xs then Some (xs ! n) else None)"
| "pointer_step _ key = None"

fun follow_pointer :: "json \<Rightarrow> string list \<Rightarrow> json option" where
  "follow_pointer v [] = Some v"
| "follow_pointer v (t # ts) =
     (if bad_escape t then None
      else case pointer_step v (unescape_token t) of None \<Rightarrow> None | Some w \<Rightarrow> follow_pointer w ts)"

fun scalar_text :: "json \<Rightarrow> string option" where
  "scalar_text (JStr s) = Some s"
| "scalar_text (JNum n) = Some (int_text n)"
| "scalar_text (JBool b) = Some (if b then ''true'' else ''false'')"
| "scalar_text _ = None"

definition extractConversationId ::
    "(string \<Rightarrow> json option) \<Rightarrow> (string option \<times> string option) option \<Rightarrow> (string \<times> string) list \<Rightarrow> string \<Rightarrow> string option" where
  "extractConversationId parse spec headers rawBody =
     (case spec of
        None \<Rightarrow> None
      | Some (name, pointer) \<Rightarrow>
          if truthy name \<and> truthy (map_of headers (toLowerCase (the name))) then map_of headers (toLowerCase (the name))
          else if truthy pointer
          then (case parse rawBody of
                  None \<Rightarrow> None
                | Some v \<Rightarrow>
                    let p = the pointer;
                        path = (if hd p = CHR ''/'' then tl p else p)
                    in case follow_pointer v (split_on (CHR ''/'') path) of None \<Rightarrow> None | Some w \<Rightarrow> scalar_text w)
          else None)"

definition SENSITIVE_INGRESS_HEADERS :: "string list" where
  "SENSITIVE_INGRESS_HEADERS =
     [''authorization'', ''proxy-authorization'', ''cookie'', ''x-hub-signature'', ''x-hub-signature-256'', ''x-signature'',
      ''x-signature-ed25519'', ''x-webhook-signature'', ''webhook-signature'']"

definition redactSensitiveHeaders :: "(string \<times> string) list \<Rightarrow> string option \<Rightarrow> (string \<times> string) list" where
  "redactSensitiveHeaders headers credential =
     map (\<lambda>(n, v). (n, if toLowerCase n \<in> set SENSITIVE_INGRESS_HEADERS \<or> map_option toLowerCase credential = Some (toLowerCase n)
                        then ''[redacted]'' else v)) headers"

section \<open>The event table\<close>

text \<open>
  \<open>iw_log\<close> records the inserts a request attempted, each with the table it met; \<open>iw_jobs\<close> the deliveries it handed on.
\<close>

record ingress_world =
  iw_rows :: "ingress_event list"
  iw_ticks :: nat
  iw_log :: "(ingress_event \<times> ingress_event list) list"
  iw_jobs :: "ingress_job list"

datatype ingress_error = Storage_failed

type_synonym 'a ing = "(ingress_world, ingress_error, 'a) action"

definition same_delivery :: "ingress_event \<Rightarrow> ingress_event \<Rightarrow> bool" where
  "same_delivery r s \<longleftrightarrow> ev_plugin r = ev_plugin s \<and> ev_instance r = ev_instance s \<and> ev_delivery r = ev_delivery s"

definition known :: "ingress_event list \<Rightarrow> ingress_event \<Rightarrow> bool" where
  "known t r \<longleftrightarrow> (\<exists>s \<in> set t. same_delivery s r)"

text \<open>The insert; a violated unique index is \<open>False\<close>.\<close>

definition recordOrSkip :: "'x ingress_env_scheme \<Rightarrow> ingress_event \<Rightarrow> bool ing" where
  "recordOrSkip env r w =
     (let n = iw_ticks w;
          t = others env n (iw_rows w);
          w1 = w\<lparr>iw_ticks := Suc n, iw_rows := t, iw_log := iw_log w @ [(r, t)]\<rparr>;
          w2 = (if known t r then w1 else w1\<lparr>iw_rows := t @ [r]\<rparr>)
      in if fails env n then (Inl Storage_failed, if takes_effect env n then w2 else w1)
         else (Inr (\<not> known t r), w2))"

definition getPayloadHash :: "'x ingress_env_scheme \<Rightarrow> ingress_event \<Rightarrow> string option ing" where
  "getPayloadHash env r w =
     (let n = iw_ticks w;
          t = others env n (iw_rows w);
          w1 = w\<lparr>iw_ticks := Suc n, iw_rows := t\<rparr>
      in if fails env n then (Inl Storage_failed, w1)
         else (Inr (case find (\<lambda>s. same_delivery s r) t of None \<Rightarrow> None | Some s \<Rightarrow> ev_hash s), w1))"

definition enqueue_job :: "ingress_job \<Rightarrow> unit ing" where
  "enqueue_job j = modify (\<lambda>w. w\<lparr>iw_jobs := iw_jobs w @ [j]\<rparr>)"

section \<open>The pipeline\<close>

definition plain :: "int \<Rightarrow> string \<Rightarrow> ack" where
  "plain n body = \<lparr>a_status = n, a_body = Some body, a_headers = None\<rparr>"

definition effective_cap :: "'x ingress_env_scheme \<Rightarrow> declared_cap \<Rightarrow> rat" where
  "effective_cap env cap =
     (case cap of
        Number_cap q \<Rightarrow> if 0 \<le> q then q else body_limit env
      | Text_cap (Some q) \<Rightarrow> if 0 \<le> q then q else body_limit env
      | _ \<Rightarrow> body_limit env)"

definition verify_of :: "'x ingress_env_scheme \<Rightarrow> resolved_instance \<Rightarrow> ingress_request \<Rightarrow> verify_input" where
  "verify_of env inst req =
     \<lparr>vi_body = q_body req, vi_headers = q_headers req, vi_secret = in_secret inst, vi_now = checked_at env, vi_instance = q_instance req\<rparr>"

definition challenge_reply :: "'x ingress_env_scheme \<Rightarrow> resolved_instance \<Rightarrow> string \<times> string \<Rightarrow> ingress_request \<Rightarrow> ack" where
  "challenge_reply env inst ch req =
     (let token = map_of (q_query req) (fst ch);
          echo = map_of (q_query req) (snd ch)
      in if truthy token \<and> truthy (in_verify inst) \<and> constantTimeEqual env (the token) (the (in_verify inst))
         then plain 200 (case echo of Some e \<Rightarrow> e | None \<Rightarrow> [])
         else plain 403 ''challenge failed'')"

definition refusal_text :: "refusal_reason \<Rightarrow> string" where
  "refusal_text r =
     (case r of
        Empty_secret \<Rightarrow> ''empty ingress secret''
      | Empty_standard_secret \<Rightarrow> ''empty standard-webhooks secret''
      | Empty_standard_key \<Rightarrow> ''standard-webhooks secret decodes to empty key''
      | Missing_standard_header \<Rightarrow> ''missing webhook-id/webhook-timestamp/webhook-signature header''
      | Invalid_standard_timestamp \<Rightarrow> ''invalid webhook-timestamp''
      | Stale_timestamp \<Rightarrow> ''replay: timestamp outside tolerance''
      | Standard_mismatch \<Rightarrow> ''webhook-signature mismatch''
      | Missing_timestamp \<Rightarrow> ''missing/invalid timestamp''
      | Missing_signature \<Rightarrow> ''missing signature header''
      | Secret_mismatch \<Rightarrow> ''shared-secret mismatch''
      | Hmac_mismatch \<Rightarrow> ''hmac mismatch'')"

text \<open>What precedes the first statement: a refusal, or the instance, the route and the bucket's headers.\<close>

definition door ::
    "'x ingress_env_scheme \<Rightarrow> ingress_request \<Rightarrow> ack + (resolved_instance \<times> ingress_route \<times> (string \<times> string) list option)" where
  "door env req =
     (case resolve env (q_plugin req) (q_instance req) of
        None \<Rightarrow> Inl (plain 404 ''unknown instance'')
      | Some inst \<Rightarrow>
          if \<not> in_enabled inst then Inl (plain 404 ''unknown instance'')
          else case manifestRoute env (q_plugin req) (q_route req) of
            None \<Rightarrow> Inl (plain 404 ''unknown route'')
          | Some route \<Rightarrow>
              if q_method req = ''GET'' \<and> rt_challenge route \<noteq> None then Inl (challenge_reply env inst (the (rt_challenge route)) req)
              else if q_unparsed req then Inl (plain 415 ''unsupported ingress content type'')
              else if effective_cap env (rt_cap route) < of_nat (utf8_length (q_body req)) then Inl (plain 413 ''payload too large'')
              else case verifyIngressSignature env (host_tolerance env) (rt_signature route) (verify_of env inst req) of
                Some r \<Rightarrow> Inl (plain 401 (refusal_text r))
              | None \<Rightarrow>
                  let admission = map_option (\<lambda>a. a (q_plugin req) (q_instance req)) (admitInstance env)
                  in if (case admission of None \<Rightarrow> False | Some (ok, _) \<Rightarrow> \<not> ok)
                     then Inl \<lparr>a_status = 429,
                               a_body = Some (json_text (JObj [(''statusCode'', JNum 429), (''message'', JStr (throttled_text env))])),
                               a_headers = Some (foldl (\<lambda>hs (n, v). put_field n v hs) [(''content-type'', ''application/json'')]
                                 (snd (the admission)))\<rparr>
                     else case (if rt_response route \<noteq> None \<and> restorePending env (q_plugin req) then Some pluginRestoringRejection
                                else evaluatePreflight route (in_scope inst) (sessionStatus env)) of
                            Some rejection \<Rightarrow> Inl rejection
                          | None \<Rightarrow> Inr (inst, route, map_option snd admission))"

definition delivery_payload :: "'x ingress_env_scheme \<Rightarrow> ingress_route \<Rightarrow> ingress_request \<Rightarrow> ingress_payload" where
  "delivery_payload env route req =
     (let scheme = sg_scheme (rt_signature route)
      in \<lparr>pl_verified = ingressDeliveryVerified scheme (q_body req) (q_query req),
          pl_headers = redactSensitiveHeaders (q_headers req)
            (if scheme = Shared_secret \<or> scheme = Hmac_sha256 then sg_header (rt_signature route) else None),
          pl_query = q_query req, pl_body = q_body req, pl_provider = None, pl_method = None\<rparr>)"

definition delivery_ack :: "'x ingress_env_scheme \<Rightarrow> ingress_route \<Rightarrow> ingress_request \<Rightarrow> (string \<times> string) list option \<Rightarrow> ack" where
  "delivery_ack env route req rateHeaders =
     (let rendered = renderAck (case rt_response route of None \<Rightarrow> None | Some rs \<Rightarrow> rs_ack rs) (q_body req)
            (int_text (acked_at env div 1000)) (delivery_id env route req)
      in case rateHeaders of
           None \<Rightarrow> rendered
         | Some rate \<Rightarrow>
             rendered\<lparr>a_headers := Some (foldl (\<lambda>hs (n, v). put_field n v hs)
               (case a_headers rendered of None \<Rightarrow> [] | Some hs \<Rightarrow> hs) rate)\<rparr>)"

definition delivery_row :: "'x ingress_env_scheme \<Rightarrow> resolved_instance \<Rightarrow> ingress_request \<Rightarrow> string \<Rightarrow> ingress_payload \<Rightarrow> ingress_event" where
  "delivery_row env inst req i payload =
     \<lparr>ev_plugin = q_plugin req, ev_instance = q_instance req, ev_delivery = i, ev_route = q_route req,
      ev_payload = Some (payload\<lparr>pl_method := Some (q_method req)\<rparr>), ev_hash = Some (sha256 env (q_body req)),
      ev_session = in_scope inst, ev_state = Some Pending\<rparr>"

text \<open>Handing a stored delivery on, unless its plugin must wait: the row stays pending then.\<close>

definition dispatch_stored ::
    "'x ingress_env_scheme \<Rightarrow> resolved_instance \<Rightarrow> ingress_route \<Rightarrow> ingress_request \<Rightarrow> string \<Rightarrow> ingress_payload \<Rightarrow> unit ing" where
  "dispatch_stored env inst route req i payload =
     (if deferDispatch env (q_plugin req) then succeed ()
      else enqueue_job \<lparr>j_plugin = q_plugin req, j_instance = q_instance req, j_route = q_route req, j_method = q_method req,
             j_delivery = i, j_session = in_scope inst,
             j_conversation = extractConversationId (json_parse env) (rt_conversation route) (q_headers req) (q_body req),
             j_payload = payload\<rparr>)"

definition handle :: "'x ingress_env_scheme \<Rightarrow> ingress_request \<Rightarrow> ack ing" where
  "handle env req =
     (case door env req of
        Inl refusal \<Rightarrow> succeed refusal
      | Inr (inst, route, rate) \<Rightarrow>
          let i = delivery_id env route req;
              payload = delivery_payload env route req;
              ack = delivery_ack env route req rate;
              row = delivery_row env inst req i payload
          in await (recordOrSkip env row) (\<lambda>fresh.
               if fresh then await (dispatch_stored env inst route req i payload) (\<lambda>_. succeed ack)
               else await (getPayloadHash env row) (\<lambda>stored.
                 if stored = None \<or> stored = ev_hash row then succeed ack
                 else if \<not> rt_mismatch_new route then succeed ack
                 else
                   let i2 = i @ '':'' @ sha256 env (q_body req);
                       payload2 = payload\<lparr>pl_provider := Some i\<rparr>
                   in await (recordOrSkip env (delivery_row env inst req i2 payload2)) (\<lambda>fresh2.
                        if fresh2 then await (dispatch_stored env inst route req i2 payload2) (\<lambda>_. succeed ack)
                        else succeed ack))))"

section \<open>What the door lets in\<close>

definition admitted :: "'x ingress_env_scheme \<Rightarrow> ingress_request \<Rightarrow> resolved_instance \<Rightarrow> ingress_route \<Rightarrow> bool" where
  "admitted env req inst route \<longleftrightarrow>
     resolve env (q_plugin req) (q_instance req) = Some inst \<and> in_enabled inst
     \<and> manifestRoute env (q_plugin req) (q_route req) = Some route \<and> \<not> q_unparsed req
     \<and> of_nat (utf8_length (q_body req)) \<le> effective_cap env (rt_cap route)
     \<and> authentic env (host_tolerance env) (rt_signature route) (verify_of env inst req)
     \<and> (case admitInstance env of None \<Rightarrow> True | Some a \<Rightarrow> fst (a (q_plugin req) (q_instance req)))
     \<and> evaluatePreflight route (in_scope inst) (sessionStatus env) = None"

definition REFUSAL_STATUSES :: "int list" where
  "REFUSAL_STATUSES = [401, 403, 404, 413, 415, 429, 503]"

text \<open>A GET that answers the route's challenge: it brings the instance's verify token and is echoed.\<close>

definition challenge_met :: "'x ingress_env_scheme \<Rightarrow> ingress_request \<Rightarrow> ack \<Rightarrow> bool" where
  "challenge_met env req resp \<longleftrightarrow>
     q_method req = ''GET''
     \<and> (\<exists>inst route ch token. resolve env (q_plugin req) (q_instance req) = Some inst \<and> in_enabled inst
          \<and> manifestRoute env (q_plugin req) (q_route req) = Some route \<and> rt_challenge route = Some ch
          \<and> in_verify inst = Some token \<and> token \<noteq> [] \<and> map_of (q_query req) (fst ch) = Some token
          \<and> resp = plain 200 (case map_of (q_query req) (snd ch) of Some e \<Rightarrow> e | None \<Rightarrow> []))"

lemma challenge_reply_cases:
  assumes "inj (sha256 env)"
  shows "challenge_reply env inst ch req = plain 403 ''challenge failed'' \<or>
    (\<exists>token. in_verify inst = Some token \<and> token \<noteq> [] \<and> map_of (q_query req) (fst ch) = Some token
       \<and> challenge_reply env inst ch req = plain 200 (case map_of (q_query req) (snd ch) of Some e \<Rightarrow> e | None \<Rightarrow> []))"
  by (auto simp: challenge_reply_def constantTimeEqual_iff [OF assms] truthy_iff Let_def)

lemma door_refuses:
  assumes "inj (sha256 env)" and "door env req = Inl resp"
  shows "a_status resp \<in> set REFUSAL_STATUSES \<or> challenge_met env req resp"
proof (cases "\<exists>inst route ch. resolve env (q_plugin req) (q_instance req) = Some inst \<and> in_enabled inst
    \<and> manifestRoute env (q_plugin req) (q_route req) = Some route \<and> q_method req = ''GET'' \<and> rt_challenge route = Some ch")
  case True
  then obtain inst route ch where c: "resolve env (q_plugin req) (q_instance req) = Some inst" "in_enabled inst"
    "manifestRoute env (q_plugin req) (q_route req) = Some route" "q_method req = ''GET''" "rt_challenge route = Some ch"
    by blast
  then have "resp = challenge_reply env inst ch req"
    using assms(2) by (simp add: door_def)
  with c challenge_reply_cases [OF assms(1), of inst ch req] show ?thesis
    by (cases ch) (auto simp: challenge_met_def plain_def REFUSAL_STATUSES_def)
next
  case False
  with assms(2) have "a_status resp \<in> set REFUSAL_STATUSES"
    by (auto simp: door_def plain_def REFUSAL_STATUSES_def pluginRestoringRejection_def retryable503_def
        evaluatePreflight_def Let_def split: option.splits if_splits prod.splits)
  then show ?thesis ..
qed

lemma door_admits:
  assumes "inj (sha256 env)" "door env req = Inr (inst, route, rate)"
  shows "admitted env req inst route"
proof -
  have "verifyIngressSignature env (host_tolerance env) (rt_signature route) (verify_of env inst req) = None"
    using assms(2) by (auto simp: door_def Let_def split: option.splits if_splits prod.splits)
  then have "authentic env (host_tolerance env) (rt_signature route) (verify_of env inst req)"
    using verify_iff_authentic [OF assms(1)] by blast
  then show ?thesis
    using assms(2) by (auto simp: admitted_def door_def Let_def not_less split: option.splits if_splits prod.splits)
qed

section \<open>Inserts and jobs\<close>

lemma recordOrSkip_result:
  assumes "recordOrSkip env r w = (res, w')"
  obtains t where "iw_log w' = iw_log w @ [(r, t)]" "iw_jobs w' = iw_jobs w" "\<And>b. res = Inr b \<Longrightarrow> b \<longleftrightarrow> \<not> known t r"
    "res = Inr True \<Longrightarrow> iw_rows w' = t @ [r]"
  using assms by (auto simp: recordOrSkip_def Let_def split: if_splits)

lemma getPayloadHash_result:
  assumes "getPayloadHash env r w = (res, w')"
  shows "iw_log w' = iw_log w" "iw_jobs w' = iw_jobs w"
  using assms by (auto simp: getPayloadHash_def Let_def split: if_splits)

lemma dispatch_stored_result:
  assumes "dispatch_stored env inst route req i payload w = (res, w')"
  shows "res = Inr ()" "iw_log w' = iw_log w" "iw_rows w' = iw_rows w"
    "if deferDispatch env (q_plugin req) then iw_jobs w' = iw_jobs w
     else \<exists>j. iw_jobs w' = iw_jobs w @ [j] \<and> j_delivery j = i \<and> j_payload j = payload \<and> j_plugin j = q_plugin req \<and> j_instance j = q_instance req"
  using assms by (auto simp: dispatch_stored_def enqueue_job_def action_defs split: if_splits)

text \<open>
  What a request leaves: the inserts it tried and at most one job, for a row that it stored itself. When
  it is acknowledged, every row it tried to insert was stored already, or is the row it put at the end
  of the table.
\<close>

definition faithful_row :: "'x ingress_env_scheme \<Rightarrow> ingress_route \<Rightarrow> ingress_request \<Rightarrow> ingress_event \<Rightarrow> bool" where
  "faithful_row env route req r \<longleftrightarrow>
     ev_plugin r = q_plugin req \<and> ev_instance r = q_instance req \<and> ev_state r = Some Pending \<and> ev_hash r = Some (sha256 env (q_body req))
     \<and> (\<exists>p. ev_payload r = Some p \<and> pl_body p = q_body req \<and> pl_query p = q_query req \<and> pl_method p = Some (q_method req)
          \<and> pl_headers p = pl_headers (delivery_payload env route req))"

definition job_for :: "ingress_job \<Rightarrow> ingress_event \<Rightarrow> bool" where
  "job_for j r \<longleftrightarrow> j_plugin j = ev_plugin r \<and> j_instance j = ev_instance r \<and> j_delivery j = ev_delivery r
     \<and> (\<exists>p. ev_payload r = Some p \<and> j_payload j = p\<lparr>pl_method := None\<rparr>)"

definition handled :: "'x ingress_env_scheme \<Rightarrow> ingress_route \<Rightarrow> ingress_request \<Rightarrow> ack \<Rightarrow> ingress_error + ack \<Rightarrow> ingress_world \<Rightarrow> bool" where
  "handled env route req ack r w \<longleftrightarrow>
     iw_log w \<noteq> [] \<and> (\<forall>(row, t) \<in> set (iw_log w). faithful_row env route req row) \<and> ev_delivery (fst (hd (iw_log w))) = delivery_id env route req
     \<and> (\<forall>resp. r = Inr resp \<longrightarrow> resp = ack \<and> (\<forall>(row, t) \<in> set (iw_log w). known t row \<or> iw_rows w = t @ [row]))
     \<and> length (iw_jobs w) \<le> 1
     \<and> (\<forall>j \<in> set (iw_jobs w). \<exists>(row, t) \<in> set (iw_log w). \<not> known t row \<and> job_for j row)
     \<and> (\<forall>resp. r = Inr resp \<and> \<not> deferDispatch env (q_plugin req) \<and> (\<exists>(row, t) \<in> set (iw_log w). \<not> known t row) \<longrightarrow> iw_jobs w \<noteq> [])
     \<and> (known (snd (hd (iw_log w))) (fst (hd (iw_log w))) \<and> \<not> rt_mismatch_new route \<longrightarrow> iw_jobs w = [])"

lemma faithful_delivery_row:
  assumes "payload = delivery_payload env route req \<or> payload = (delivery_payload env route req)\<lparr>pl_provider := Some x\<rparr>"
  shows "faithful_row env route req (delivery_row env inst req i payload)"
  using assms by (auto simp: faithful_row_def delivery_row_def delivery_payload_def Let_def)

lemma job_for_delivery_row:
  assumes "payload = delivery_payload env route req \<or> payload = (delivery_payload env route req)\<lparr>pl_provider := Some x\<rparr>"
    "j_delivery j = i" "j_payload j = payload" "j_plugin j = q_plugin req" "j_instance j = q_instance req"
  shows "job_for j (delivery_row env inst req i payload)"
  using assms by (auto simp: job_for_def delivery_row_def delivery_payload_def Let_def)

lemma stored_then_dispatched:
  assumes run: "await (dispatch_stored env inst route req i payload) (\<lambda>_. succeed ack) w = (r, w')"
    and log: "iw_log w = pre @ [(row, t)]" "\<forall>(x, t) \<in> set pre. known t x" "iw_jobs w = []" "\<not> known t row" "iw_rows w = t @ [row]"
    and row: "row = delivery_row env inst req i payload" "payload = delivery_payload env route req \<or> payload = (delivery_payload env route req)\<lparr>pl_provider := Some x\<rparr>"
    and first: "\<forall>(x, t) \<in> set (iw_log w). faithful_row env route req x" "ev_delivery (fst (hd (iw_log w))) = delivery_id env route req"
    and new: "pre \<noteq> [] \<Longrightarrow> rt_mismatch_new route"
  shows "handled env route req ack r w'"
proof -
  obtain res w1 where d: "dispatch_stored env inst route req i payload w = (res, w1)"
    by fastforce
  note dr = dispatch_stored_result [OF d]
  have w': "r = Inr ack" "w' = w1"
    using run d dr(1) by (auto simp: await_def succeed_def)
  have jobs: "if deferDispatch env (q_plugin req) then iw_jobs w1 = [] else \<exists>j. iw_jobs w1 = [j] \<and> job_for j row"
    using dr(4) log(3) job_for_delivery_row [OF row(2)] unfolding row(1) by (auto split: if_splits)
  have "(row, t) \<in> set (iw_log w)"
    by (simp add: log(1))
  moreover have "known (snd (hd (iw_log w))) (fst (hd (iw_log w))) \<Longrightarrow> rt_mismatch_new route"
    using new log(1,4) by (cases pre) auto
  ultimately show ?thesis
    using jobs first log unfolding handled_def w' dr(2,3) by (cases "deferDispatch env (q_plugin req)") (auto; blast)+
qed

lemma duplicate_handled:
  assumes log: "iw_log w = [(row, t)]" "iw_jobs w = []" "faithful_row env route req row" "ev_delivery row = delivery_id env route req"
    and r: "\<And>resp. r = Inr resp \<Longrightarrow> resp = ack \<and> known t row"
  shows "handled env route req ack r w"
  using assms by (auto simp: handled_def)

lemma second_row_handled:
  fixes env :: "'x ingress_env_scheme" and route req
  defines "i \<equiv> delivery_id env route req" and "p2 \<equiv> (delivery_payload env route req)\<lparr>pl_provider := Some (delivery_id env route req)\<rparr>"
  assumes w: "iw_log w = [(row, t1)]" "iw_jobs w = []" "known t1 row" "faithful_row env route req row" "ev_delivery row = i"
    and new: "rt_mismatch_new route"
    and run: "await (recordOrSkip env (delivery_row env inst req k p2)) (\<lambda>fresh2.
      if fresh2 then await (dispatch_stored env inst route req k p2) (\<lambda>_. succeed ack) else succeed ack) w = (r, w')"
  shows "handled env route req ack r w'"
proof -
  let ?row2 = "delivery_row env inst req k p2"
  have faithful: "faithful_row env route req ?row2"
    by (rule faithful_delivery_row [where x = "delivery_id env route req"]) (simp add: p2_def)
  obtain res w3 where 1: "recordOrSkip env ?row2 w = (res, w3)"
    by fastforce
  obtain t2 where t2: "iw_log w3 = [(row, t1), (?row2, t2)]" "iw_jobs w3 = []" "\<And>b. res = Inr b \<Longrightarrow> b \<longleftrightarrow> \<not> known t2 ?row2"
    "res = Inr True \<Longrightarrow> iw_rows w3 = t2 @ [?row2]"
    using recordOrSkip_result [OF 1] w by auto
  show ?thesis
  proof (cases "res = Inr True")
    case True
    then have run3: "await (dispatch_stored env inst route req k p2) (\<lambda>_. succeed ack) w3 = (r, w')"
      using run 1 by (simp add: await_def)
    show ?thesis
      using t2 True w faithful new unfolding i_def
      by (intro stored_then_dispatched [OF run3, where pre = "[(row, t1)]" and row = ?row2 and t = t2 and x = i])
        (auto simp: p2_def i_def)
  next
    case False
    then have "w' = w3" "\<And>resp. r = Inr resp \<Longrightarrow> resp = ack \<and> known t2 ?row2"
      using run 1 t2(3) by (auto simp: await_def succeed_def split: sum.splits)
    then show ?thesis
      using t2(1,2) w faithful by (auto simp: handled_def i_def)
  qed
qed

lemma handle_handled:
  assumes door: "door env req = Inr (inst, route, rate)" and w: "iw_log w = []" "iw_jobs w = []" and run: "handle env req w = (r, w')"
  shows "handled env route req (delivery_ack env route req rate) r w'"
proof -
  let ?i = "delivery_id env route req" and ?p = "delivery_payload env route req" and ?ack = "delivery_ack env route req rate"
  let ?row = "delivery_row env inst req ?i ?p"
  have row: "faithful_row env route req ?row" "ev_delivery ?row = ?i"
    by (rule faithful_delivery_row) (simp_all add: delivery_row_def)
  obtain res1 w1 where 1: "recordOrSkip env ?row w = (res1, w1)"
    by fastforce
  obtain t1 where t1: "iw_log w1 = [(?row, t1)]" "iw_jobs w1 = []" "\<And>b. res1 = Inr b \<Longrightarrow> b \<longleftrightarrow> \<not> known t1 ?row"
    "res1 = Inr True \<Longrightarrow> iw_rows w1 = t1 @ [?row]"
    using recordOrSkip_result [OF 1] w by auto
  obtain res2 w2 where 2: "getPayloadHash env ?row w1 = (res2, w2)"
    by fastforce
  have w2: "iw_log w2 = [(?row, t1)]" "iw_jobs w2 = []"
    using getPayloadHash_result [OF 2] t1 by auto
  define D where "D \<longleftrightarrow> (\<exists>stored. res2 = Inr stored \<and> stored \<noteq> None \<and> stored \<noteq> ev_hash ?row \<and> rt_mismatch_new route)"
  consider e where "res1 = Inl e" | "res1 = Inr True" | "res1 = Inr False" D | "res1 = Inr False" "\<not> D"
    by (cases res1) (metis (full_types))+
  then show ?thesis
  proof cases
    case e: 1
    with run door 1 have "r = Inl e" "w' = w1"
      by (auto simp: handle_def Let_def await_def)
    then show ?thesis
      using duplicate_handled [OF t1(1,2) row, of r ?ack] by simp
  next
    case fresh: 2
    with run door 1 have run2: "await (dispatch_stored env inst route req ?i ?p) (\<lambda>_. succeed ?ack) w1 = (r, w')"
      by (simp add: handle_def Let_def await_def)
    show ?thesis
      using t1 fresh row by (intro stored_then_dispatched [OF run2, where pre = "[]" and row = ?row and t = t1]) auto
  next
    case differs: 3
    show ?thesis
      using run door 1 2 differs [unfolded D_def] w2 row t1(3)
      by (intro second_row_handled [OF w2, where inst = inst and k = "?i @ '':'' @ sha256 env (q_body req)"])
        (auto simp: handle_def Let_def await_def simp del: append_Cons append_Nil)
  next
    case same: 4
    with run door 1 2 D_def have "w' = w2" "\<And>resp. r = Inr resp \<Longrightarrow> resp = ?ack"
      by (cases res2; auto simp: handle_def Let_def await_def succeed_def split: if_splits)+
    then show ?thesis
      using duplicate_handled [OF w2 row, of r ?ack] t1(3) [OF same(1)] by simp
  qed
qed

section \<open>Properties\<close>

text \<open>
  C9: inbound deliveries are authenticated, then stored, then acknowledged and handed on. Whatever others do to the table and
  whichever statements fail, with a hash without collisions, a request that reaches the table was admitted: its instance is
  enabled, its route known, its size within the cap, its signature authentic, the bucket and the preflight passed; any other
  request changes nothing and gets a 4xx or 503, or, if it is a GET with the instance's verify token, the echo its route's
  challenge asks for. An admitted request gets the route's ack or an error. When it gets the ack, each pending row with its
  body that it tried to insert was stored already or is the one it put at the end of the table; it hands on at most one
  delivery, one whose row it stored itself; a delivery already known is not handed on again, and one it stored is handed on
  before the ack unless its plugin must wait.
\<close>

theorem ingress_persists_before_ack:
  assumes "inj (sha256 env)" "iw_log w = []" "iw_jobs w = []" "handle env req w = (r, w')"
  shows "if iw_log w' = [] then w' = w \<and> (\<exists>resp. r = Inr resp
      \<and> (a_status resp \<in> {401, 403, 404, 413, 415, 429, 503} \<or> challenge_met env req resp))
    else \<exists>inst route rate. admitted env req inst route \<and> handled env route req (delivery_ack env route req rate) r w'"
proof (cases "door env req")
  case (Inl resp)
  then have "handle env req w = (Inr resp, w)"
    by (simp add: handle_def succeed_def)
  then show ?thesis
    using assms door_refuses [OF assms(1) Inl] by (auto simp: REFUSAL_STATUSES_def)
next
  case (Inr x)
  then obtain inst route rate where door: "door env req = Inr (inst, route, rate)"
    by (cases x) auto
  have "handled env route req (delivery_ack env route req rate) r w'"
    using handle_handled [OF door assms(2-4)] .
  moreover from this have "iw_log w' \<noteq> []"
    by (simp add: handled_def)
  ultimately show ?thesis
    using door_admits [OF assms(1) door] by auto
qed

text \<open>A signed delivery whose row another node stored just before: it is acknowledged and not handed on.\<close>

definition demo_env :: ingress_env where
  "demo_env = \<lparr>sha256 = (\<lambda>s. s), hmac = (\<lambda>k c e. k @ ''/'' @ c), unbase64 = (\<lambda>s. s), eq_key = ''k'',
     resolve = (\<lambda>_ _. Some \<lparr>in_secret = ''s3'', in_enabled = True, in_scope = None, in_verify = None\<rparr>),
     manifestRoute = (\<lambda>_ _. Some \<lparr>rt_signature = demo_spec, rt_challenge = None, rt_cap = Number_cap 9, rt_conversation = None,
       rt_dedup_header = None, rt_dedup_body = False, rt_mismatch_new = False, rt_response = None\<rparr>),
     admitInstance = None, sessionStatus = None, restorePending = (\<lambda>_. False), deferDispatch = (\<lambda>_. False), checked_at = 150000,
     acked_at = 150000, body_limit = 100, host_tolerance = None, throttled_text = [], json_parse = (\<lambda>_. None),
     others = (\<lambda>n t. if n = 0 then t @ [\<lparr>ev_plugin = ''p'', ev_instance = ''prod'', ev_delivery = ''d1'', ev_route = ''r'', ev_payload = None,
       ev_hash = Some ''{id}'', ev_session = None, ev_state = Some Dispatched\<rparr>] else t),
     fails = (\<lambda>_. False), takes_effect = (\<lambda>_. False)\<rparr>"

definition demo_request :: ingress_request where
  "demo_request = \<lparr>q_plugin = ''p'', q_instance = ''prod'', q_route = ''r'', q_method = ''POST'',
     q_headers = [(''x-sig'', ''v0=s3/100.{id}''), (''x-time'', ''100''), (''x-delivery'', ''d1'')], q_query = [], q_body = ''{id}'', q_unparsed = False\<rparr>"

definition empty_world :: ingress_world where
  "empty_world = \<lparr>iw_rows = [], iw_ticks = 0, iw_log = [], iw_jobs = []\<rparr>"

theorem ingress_persists_before_ack_witness:
  "\<exists>w'. handle demo_env demo_request empty_world = (Inr (plain 202 ''accepted''), w') \<and> length (iw_log w') = 1 \<and> iw_jobs w' = []
     \<and> (\<exists>inst route rate. admitted demo_env demo_request inst route
          \<and> handled demo_env route demo_request (delivery_ack demo_env route demo_request rate) (Inr (plain 202 ''accepted'')) w')"
proof -
  obtain r w' where run: "handle demo_env demo_request empty_world = (r, w')"
    by fastforce
  have "map_sum id (\<lambda>a. (a_status a, a_body a, a_headers a)) (fst (handle demo_env demo_request empty_world)) = Inr (202, Some ''accepted'', None)"
    by code_simp
  then have r: "r = Inr (plain 202 ''accepted'')"
    by (cases r) (auto simp: run plain_def)
  have "length (iw_log (snd (handle demo_env demo_request empty_world))) = 1"
    by code_simp
  then have log: "length (iw_log w') = 1"
    by (simp add: run)
  have "map j_delivery (iw_jobs (snd (handle demo_env demo_request empty_world))) = []"
    by code_simp
  then have jobs: "iw_jobs w' = []"
    by (simp add: run)
  have inj: "inj (sha256 demo_env)" "iw_log empty_world = []" "iw_jobs empty_world = []"
    by (simp_all add: demo_env_def empty_world_def inj_def)
  have "iw_log w' \<noteq> []"
    using log by auto
  with ingress_persists_before_ack [OF inj run] r run log jobs show ?thesis
    by auto
qed

section \<open>Derived ids\<close>

definition no_nul :: "string \<Rightarrow> bool" where
  "no_nul s \<longleftrightarrow> CHR 0x00 \<notin> set s"

lemma nul_split: "no_nul s \<Longrightarrow> no_nul t \<Longrightarrow> s @ CHR 0x00 # x = t @ CHR 0x00 # y \<longleftrightarrow> s = t \<and> x = y"
  unfolding no_nul_def
proof (induction s arbitrary: t)
  case Nil
  then show ?case
    by (cases t) auto
next
  case (Cons c s)
  then show ?case
    by (cases t) auto
qed

lemma nul_last: "no_nul s \<Longrightarrow> s \<noteq> t @ CHR 0x00 # x"
  by (auto simp: no_nul_def)

lemma sorted_query_iff:
  assumes "distinct (map fst xs)" "distinct (map fst ys)"
  shows "sort_key fst xs = sort_key fst ys \<longleftrightarrow> map_of xs = map_of (ys :: (string \<times> string) list)"
proof
  assume "sort_key fst xs = sort_key fst ys"
  then have "set xs = set ys"
    by (metis set_sort)
  then show "map_of xs = map_of ys"
    using assms by (simp add: map_of_inject_set)
next
  assume "map_of xs = map_of ys"
  then have sets: "set xs = set ys"
    using assms by (simp add: map_of_inject_set)
  have dist: "distinct (map fst (sort_key fst zs))" if "distinct (map fst zs)" for zs :: "(string \<times> string) list"
    using that by (metis distinct_sort distinct_map set_sort)
  have "inj_on fst (set (sort_key fst xs) \<union> set (sort_key fst ys))"
    using assms(1) sets by (simp add: distinct_map)
  then show "sort_key fst xs = sort_key fst ys"
    using dist assms sets by (intro map_sorted_distinct_set_unique [of fst]) auto
qed

lemma query_text_iff:
  "json_text (JArr (map (\<lambda>(k, v). JArr [JStr k, JStr v]) xs)) = json_text (JArr (map (\<lambda>(k, v). JArr [JStr k, JStr v]) ys)) \<longleftrightarrow> xs = ys"
proof -
  have "inj (\<lambda>(k, v). JArr [JStr k, JStr v])"
    by (auto simp: inj_def)
  then show ?thesis
    unfolding json_text_inject json.inject by (rule inj_map_eq_map)
qed

definition nul_free_request :: "ingress_request \<Rightarrow> bool" where
  "nul_free_request req \<longleftrightarrow> no_nul (q_plugin req) \<and> no_nul (q_instance req) \<and> no_nul (q_route req) \<and> no_nul (q_body req)
     \<and> no_nul (q_method req) \<and> distinct (map fst (q_query req))"

lemma sort_key_empty [simp]: "sort_key f xs = [] \<longleftrightarrow> xs = []"
  by (metis length_0_conv length_sort)

text \<open>
  C39: derived delivery ids tell deliveries apart exactly. For requests without NUL bytes and a hash without collisions, two
  deliveries without an id of their own share the derived one exactly when plugin, instance, route and body are equal and,
  with an empty body, the queries are equal as maps, and the methods too when there is a query.
\<close>

theorem derived_ids_exact:
  assumes "inj (sha256 cr)" "nul_free_request a" "nul_free_request b"
  shows "deriveDeliveryId cr a = deriveDeliveryId cr b \<longleftrightarrow>
    q_plugin a = q_plugin b \<and> q_instance a = q_instance b \<and> q_route a = q_route b \<and> q_body a = q_body b
    \<and> (q_body a = [] \<longrightarrow> map_of (q_query a) = map_of (q_query b) \<and> (q_query a \<noteq> [] \<longrightarrow> q_method a = q_method b))"
proof -
  define rest where "rest = (\<lambda>req :: ingress_request. if q_body req = [] \<and> q_query req \<noteq> []
      then CHR 0x00 # q_method req @ CHR 0x00 # json_text (JArr (map (\<lambda>(k, v). JArr [JStr k, JStr v]) (sort_key fst (q_query req))))
      else q_body req)"
  have expand: "delivery_text req = q_plugin req @ CHR 0x00 # q_instance req @ CHR 0x00 # q_route req @ CHR 0x00 # rest req" for req
    by (simp add: delivery_text_def rest_def Let_def)
  have "rest a = rest b \<longleftrightarrow> q_body a = q_body b
      \<and> (q_body a = [] \<longrightarrow> map_of (q_query a) = map_of (q_query b) \<and> (q_query a \<noteq> [] \<longrightarrow> q_method a = q_method b))"
  proof (cases "q_body a = [] \<and> q_body b = [] \<and> q_query a \<noteq> [] \<and> q_query b \<noteq> []")
    case True
    with assms(2,3) show ?thesis
      using sorted_query_iff [of "q_query a" "q_query b"]
      by (auto simp: rest_def nul_split query_text_iff nul_free_request_def simp del: json_text.simps)
  next
    case False
    have "map_of (q_query a) = map_of (q_query b) \<Longrightarrow> q_query a = [] \<longleftrightarrow> q_query b = []"
      by (metis map_of_eq_empty_iff)
    moreover have "q_body c \<noteq> CHR 0x00 # x" "CHR 0x00 # x \<noteq> q_body c" if "c = a \<or> c = b" for c x
      using that assms(2,3) nul_last [of "q_body c" "[]" x] by (auto simp: nul_free_request_def)
    ultimately show ?thesis
      using False by (auto simp: rest_def simp del: json_text.simps)
  qed
  then show ?thesis
    using assms by (auto simp: deriveDeliveryId_def inj_eq expand nul_split nul_free_request_def)
qed

text \<open>Two bodiless callbacks of one route that differ in the order of their query, and a third with another value.\<close>

definition demo_callback :: "(string \<times> string) list \<Rightarrow> ingress_request" where
  "demo_callback query = \<lparr>q_plugin = ''p'', q_instance = ''prod'', q_route = ''r'', q_method = ''GET'', q_headers = [], q_query = query, q_body = [],
     q_unparsed = False\<rparr>"

theorem derived_ids_exact_witness:
  "deriveDeliveryId demo_crypto (demo_callback [(''b'', ''2''), (''a'', ''1'')]) = deriveDeliveryId demo_crypto (demo_callback [(''a'', ''1''), (''b'', ''2'')])
   \<and> deriveDeliveryId demo_crypto (demo_callback [(''a'', ''1'')]) \<noteq> deriveDeliveryId demo_crypto (demo_callback [(''a'', ''2'')])"
proof -
  have inj: "inj (sha256 demo_crypto)"
    by (simp add: demo_crypto_def inj_def)
  have free: "nul_free_request (demo_callback q)" if "distinct (map fst q)" for q
    using that by (simp add: nul_free_request_def demo_callback_def no_nul_def)
  have "map_of [(''b'', ''2''), (''a'', ''1'')] = map_of [(''a'', ''1''), (''b'', ''2'')]"
    by auto
  moreover have "map_of [(''a'', ''1'')] \<noteq> map_of [(''a'', ''2'')]"
    by (auto simp: fun_eq_iff)
  ultimately show ?thesis
    using derived_ids_exact [OF inj free free, of "[(''b'', ''2''), (''a'', ''1'')]" "[(''a'', ''1''), (''b'', ''2'')]"]
      derived_ids_exact [OF inj free free, of "[(''a'', ''1'')]" "[(''a'', ''2'')]"]
    by (simp add: demo_callback_def)
qed

end
