(* ===== verification/Ingress_Queue.thy ===== *)
theory Ingress_Queue
  imports Ingress_Admission
begin

text \<open>
  From a stored delivery to the dispatch tier: the queue-or-inline enqueue
  (\<^verbatim>\<open>src/src/modules/integration/ingress-enqueue.service.ts\<close>), the outcome it leaves on the event row
  (\<^verbatim>\<open>ingress-event.service.ts\<close>), the wrapper of the live path (\<^verbatim>\<open>integration.module.ts\<close>) and the queue worker
  (\<^verbatim>\<open>src/src/modules/queue/processors/ingress.processor.ts\<close>).

  Every statement on the two tables and every call of the queue is one step: just before it the others have done what
  they did (\<open>meanwhile\<close>), and it may fail, with or without having taken effect. The queue is the package BullMQ: an add
  under an id the queue holds resolves and changes nothing, whatever the state of that job. Moving a held job to the
  delayed set is taken to succeed.
\<close>

section \<open>Rows, jobs and the world\<close>

record tracked_event = ingress_event +
  te_id :: string
  te_attempts :: nat
  te_last :: "int option"
  te_created :: int
  te_readable :: bool

record job_data =
  jd_plugin :: string
  jd_instance :: string
  jd_route :: string
  jd_method :: "string option"
  jd_delivery :: string
  jd_session :: "string option"
  jd_conversation :: "string option"
  jd_payload :: "ingress_payload option"

record letter_payload =
  lp_route :: "string option"
  lp_method :: "string option"
  lp_conversation :: "string option"
  lp_ingress :: "ingress_payload option"

record dead_letter =
  dl_id :: string
  dl_inbound :: bool
  dl_plugin :: string
  dl_instance :: string
  dl_session :: "string option"
  dl_delivery :: "string option"
  dl_attempts :: int
  dl_error :: string
  dl_payload :: "letter_payload option"
  dl_redriven :: bool
  dl_created :: int
  dl_readable :: bool

datatype job_state = Job_waiting | Job_delayed | Job_active | Job_completed | Job_failed

record queue_job =
  qj_id :: string
  qj_data :: job_data
  qj_state :: job_state
  qj_made :: nat
  qj_attempts :: "nat option"

type_synonym delivery_key = "string \<times> string \<times> string"

definition event_key :: "'x ingress_event_scheme \<Rightarrow> delivery_key" where
  "event_key e = (ev_plugin e, ev_instance e, ev_delivery e)"

definition data_key :: "job_data \<Rightarrow> delivery_key" where
  "data_key d = (jd_plugin d, jd_instance d, jd_delivery d)"

text \<open>
  What is noted of a delivery when it happens: the plugin took it, its instance or session was deleted, its dead letter aged
  out, the worker could neither dead-letter nor re-queue it, or an add was answered by a failed job the queue still held.
\<close>

datatype delivery_note = Taken_by_plugin | Owner_deleted | Letter_expired | Left_in_failed_job | Swallowed_by_failed_job

record ingress_state =
  ig_events :: "tracked_event list"
  ig_letters :: "dead_letter list"
  ig_jobs :: "queue_job list"
  ig_notes :: "(delivery_key \<times> delivery_note) list"
  ig_unreadable :: "(string \<times> int) list"
  ig_ticks :: nat

datatype recovery_error = Store_error bool | Payload_syntax | Redis_down | Shut_down | Hook_threw

type_synonym 'a rec = "(ingress_state, recovery_error, 'a) action"

text \<open>
  \<open>Store_error True\<close> is a failure that \<open>isTransientDbError\<close> takes for "not now". \<open>hex40\<close> is the start of the hex digest of a
  text, \<open>dispatch_result\<close> what the plugin's handler answers (\<open>None\<close>) or throws, \<open>mint\<close> a new row's id.
\<close>

record recovery_env =
  meanwhile :: "nat \<Rightarrow> ingress_state \<Rightarrow> ingress_state"
  stmt_fails :: "nat \<Rightarrow> bool"
  stmt_lands :: "nat \<Rightarrow> bool"
  stmt_transient :: "nat \<Rightarrow> bool"
  redis_fails :: "nat \<Rightarrow> bool"
  redis_lands :: "nat \<Rightarrow> bool"
  time_at :: "nat \<Rightarrow> int"
  mint :: "nat \<Rightarrow> delivery_key \<Rightarrow> string"
  queue_enabled :: bool
  hex40 :: "string \<Rightarrow> string"
  dispatch_result :: "nat \<Rightarrow> job_data \<Rightarrow> string option"
  hook_throws :: "nat \<Rightarrow> bool"
  halted :: "nat \<Rightarrow> bool"
  restoring :: "nat \<Rightarrow> string \<Rightarrow> bool"
  instance_enabled :: "nat \<Rightarrow> string \<Rightarrow> string \<Rightarrow> bool option"
  session_exists :: "nat \<Rightarrow> string \<Rightarrow> bool"
  is_uuid :: "string \<Rightarrow> bool"
  conversation_spec :: "string \<Rightarrow> string \<Rightarrow> (string option \<times> string option) option"
  parse_body :: "string \<Rightarrow> json option"
  max_attempts_env :: "string option"
  retry_delay_env :: "string option"
  rate_limit_text :: string
  sweep_interval_env :: "string option"

definition query :: "'x recovery_env_scheme \<Rightarrow> (ingress_state \<Rightarrow> (recovery_error + 'a) \<times> ingress_state) \<Rightarrow> 'a rec" where
  "query env f s =
     (let n = ig_ticks s; s1 = (meanwhile env n s)\<lparr>ig_ticks := Suc n\<rparr>
      in if stmt_fails env n then (Inl (Store_error (stmt_transient env n)), if stmt_lands env n then snd (f s1) else s1) else f s1)"

definition redis :: "'x recovery_env_scheme \<Rightarrow> (ingress_state \<Rightarrow> (recovery_error + 'a) \<times> ingress_state) \<Rightarrow> 'a rec" where
  "redis env f s =
     (let n = ig_ticks s; s1 = (meanwhile env n s)\<lparr>ig_ticks := Suc n\<rparr>
      in if redis_fails env n then (Inl Redis_down, if redis_lands env n then snd (f s1) else s1) else f s1)"

text \<open>A call of the plugin, of the hooks or of the host: it neither fails by itself nor touches the tables.\<close>

definition outside :: "'x recovery_env_scheme \<Rightarrow> (nat \<Rightarrow> ingress_state \<Rightarrow> (recovery_error + 'a) \<times> ingress_state) \<Rightarrow> 'a rec" where
  "outside env f s = (let n = ig_ticks s in f n ((meanwhile env n s)\<lparr>ig_ticks := Suc n\<rparr>))"

definition aborted :: "'x recovery_env_scheme \<Rightarrow> bool rec" where
  "aborted env = inspect (\<lambda>s. halted env (ig_ticks s))"

definition current_time :: "'x recovery_env_scheme \<Rightarrow> int rec" where
  "current_time env = inspect (\<lambda>s. time_at env (ig_ticks s))"

definition noted :: "delivery_key \<Rightarrow> delivery_note \<Rightarrow> ingress_state \<Rightarrow> ingress_state" where
  "noted k n s = s\<lparr>ig_notes := ig_notes s @ [(k, n)]\<rparr>"

definition change_events :: "(tracked_event \<Rightarrow> bool) \<Rightarrow> (tracked_event \<Rightarrow> tracked_event) \<Rightarrow> ingress_state \<Rightarrow> (recovery_error + nat) \<times> ingress_state" where
  "change_events P g s =
     (Inr (length (filter P (ig_events s))), s\<lparr>ig_events := map (\<lambda>e. if P e then g e else e) (ig_events s)\<rparr>)"

definition change_letters :: "(dead_letter \<Rightarrow> bool) \<Rightarrow> (dead_letter \<Rightarrow> dead_letter) \<Rightarrow> ingress_state \<Rightarrow> (recovery_error + nat) \<times> ingress_state" where
  "change_letters P g s =
     (Inr (length (filter P (ig_letters s))), s\<lparr>ig_letters := map (\<lambda>r. if P r then g r else r) (ig_letters s)\<rparr>)"

section \<open>Job options and ids\<close>

definition resolveNonNegativeIntEnv :: "string option \<Rightarrow> nat \<Rightarrow> nat" where
  "resolveNonNegativeIntEnv raw fallback =
     (case map_option trim raw of
        None \<Rightarrow> fallback
      | Some t \<Rightarrow> if t \<noteq> [] \<and> list_all is_digit t then foldl (\<lambda>n c. 10 * n + (of_char c - 48)) 0 t else fallback)"

definition job_attempts :: "'x recovery_env_scheme \<Rightarrow> nat" where
  "job_attempts env = (let n = resolveNonNegativeIntEnv (max_attempts_env env) 0 in if n = 0 then 3 else n)"

definition retry_delay :: "'x recovery_env_scheme \<Rightarrow> nat" where
  "retry_delay env = resolveNonNegativeIntEnv (retry_delay_env env) 5000"

definition sanitizeIngressJobId :: "'x recovery_env_scheme \<Rightarrow> string \<Rightarrow> string \<Rightarrow> string" where
  "sanitizeIngressJobId env jobId namespace = ''ing-'' @ hex40 env (namespace @ CHR 0x00 # jobId)"

definition queueJobId :: "'x recovery_env_scheme \<Rightarrow> job_data \<Rightarrow> string \<Rightarrow> string" where
  "queueJobId env d jobId = sanitizeIngressJobId env jobId (jd_plugin d @ CHR 0x00 # jd_instance d)"

definition requeuedJobIds :: "string \<Rightarrow> string \<times> string" where
  "requeuedJobIds base = (base @ ''-requeued-1'', base @ ''-requeued-2'')"

text \<open>The pattern \<open>/-requeued-[12]$/\<close> and the id without what it matches.\<close>

definition REQUEUED_JOB_ID :: "string \<Rightarrow> bool" where
  "REQUEUED_JOB_ID i \<longleftrightarrow> drop (length i - 11) i \<in> {''-requeued-1'', ''-requeued-2''}"

definition base_id :: "string \<Rightarrow> string" where
  "base_id i = (if REQUEUED_JOB_ID i then take (length i - 11) i else i)"

definition live_or_completed :: "job_state option \<Rightarrow> bool" where
  "live_or_completed st \<longleftrightarrow> st \<noteq> None \<and> st \<noteq> Some Job_failed"

section \<open>The enqueue service\<close>

definition getJobState :: "'x recovery_env_scheme \<Rightarrow> string \<Rightarrow> job_state option rec" where
  "getJobState env i = redis env (\<lambda>s. (Inr (map_option qj_state (find (\<lambda>j. qj_id j = i) (ig_jobs s))), s))"

definition existingJobState :: "'x recovery_env_scheme \<Rightarrow> job_data \<Rightarrow> string \<Rightarrow> job_state option rec" where
  "existingJobState env d jobId =
     (if \<not> queue_enabled env then succeed None
      else let i = queueJobId env d jobId; (first, second) = requeuedJobIds i
        in recover
          (await (getJobState env i) (\<lambda>state.
             if live_or_completed state then succeed state
             else await (getJobState env first) (\<lambda>copy.
               if live_or_completed copy then succeed copy
               else await (getJobState env second) (\<lambda>copy.
                 if live_or_completed copy then succeed copy else succeed state))))
          (\<lambda>_. succeed None))"

definition queue_add :: "'x recovery_env_scheme \<Rightarrow> string \<Rightarrow> job_data \<Rightarrow> nat option \<Rightarrow> job_state \<Rightarrow> unit rec" where
  "queue_add env i d attempts st =
     redis env (\<lambda>s.
       case find (\<lambda>j. qj_id j = i) (ig_jobs s) of
         Some j \<Rightarrow> (Inr (), if qj_state j = Job_failed then noted (data_key d) Swallowed_by_failed_job s else s)
       | None \<Rightarrow> (Inr (), s\<lparr>ig_jobs := ig_jobs s @
            [\<lparr>qj_id = i, qj_data = d, qj_state = st, qj_made = 0, qj_attempts = attempts\<rparr>]\<rparr>))"

datatype enqueue_outcome = Queued | Dispatched_inline | Dispatch_failed string

definition dispatch_inline :: "'x recovery_env_scheme \<Rightarrow> job_data \<Rightarrow> enqueue_outcome rec" where
  "dispatch_inline env d =
     outside env (\<lambda>n s. case dispatch_result env n d of
         None \<Rightarrow> (Inr Dispatched_inline, noted (data_key d) Taken_by_plugin s)
       | Some error \<Rightarrow> (Inr (Dispatch_failed error), s))"

definition enqueue :: "'x recovery_env_scheme \<Rightarrow> job_data \<Rightarrow> string \<Rightarrow> bool \<Rightarrow> enqueue_outcome rec" where
  "enqueue env d jobId signal =
     (if queue_enabled env then
        await (trying (queue_add env (queueJobId env d jobId) d (Some (job_attempts env)) Job_waiting)) (\<lambda>r.
          case r of
            Inr _ \<Rightarrow> succeed Queued
          | Inl _ \<Rightarrow> await (aborted env) (\<lambda>stop. if signal \<and> stop then throw Shut_down else dispatch_inline env d))
      else dispatch_inline env d)"

definition defersInlineDispatch :: "'x recovery_env_scheme \<Rightarrow> string \<Rightarrow> bool rec" where
  "defersInlineDispatch env plugin = inspect (\<lambda>s. \<not> queue_enabled env \<and> restoring env (ig_ticks s) plugin)"

section \<open>Dead letters\<close>

definition letter_of :: "'x recovery_env_scheme \<Rightarrow> nat \<Rightarrow> job_data \<Rightarrow> int \<Rightarrow> string \<Rightarrow> dead_letter" where
  "letter_of env n d attempts error =
     \<lparr>dl_id = mint env n (data_key d), dl_inbound = True, dl_plugin = jd_plugin d, dl_instance = jd_instance d,
      dl_session = jd_session d, dl_delivery = Some (jd_delivery d), dl_attempts = attempts,
      dl_error = filter (\<lambda>c. c \<noteq> CHR 0x00) error,
      dl_payload = Some \<lparr>lp_route = Some (jd_route d), lp_method = jd_method d, lp_conversation = jd_conversation d,
                          lp_ingress = jd_payload d\<rparr>,
      dl_redriven = False, dl_created = time_at env n, dl_readable = True\<rparr>"

definition save_letter :: "'x recovery_env_scheme \<Rightarrow> job_data \<Rightarrow> int \<Rightarrow> string \<Rightarrow> string rec" where
  "save_letter env d attempts error =
     query env (\<lambda>s. let r = letter_of env (ig_ticks s) d attempts error in (Inr (dl_id r), s\<lparr>ig_letters := ig_letters s @ [r]\<rparr>))"

text \<open>The open dead letters of a delivery, only those with an id below a bound when one is given.\<close>

definition open_letter :: "delivery_key \<Rightarrow> string option \<Rightarrow> dead_letter \<Rightarrow> bool" where
  "open_letter k below r \<longleftrightarrow> dl_inbound r \<and> (dl_plugin r, dl_instance r) = (fst k, fst (snd k)) \<and> dl_delivery r = Some (snd (snd k))
     \<and> \<not> dl_redriven r \<and> (case below of None \<Rightarrow> True | Some b \<Rightarrow> dl_id r < b)"

definition count_open :: "'x recovery_env_scheme \<Rightarrow> delivery_key \<Rightarrow> string option \<Rightarrow> nat rec" where
  "count_open env k below = query env (\<lambda>s. (Inr (length (filter (open_letter k below) (ig_letters s))), s))"

definition retireOpenDeadLetters :: "'x recovery_env_scheme \<Rightarrow> delivery_key \<Rightarrow> nat rec" where
  "retireOpenDeadLetters env k = query env (change_letters (open_letter k None) (\<lambda>r. r\<lparr>dl_redriven := True\<rparr>))"

section \<open>The live path\<close>

definition insert_event :: "'x recovery_env_scheme \<Rightarrow> ingress_event \<Rightarrow> bool rec" where
  "insert_event env e =
     query env (\<lambda>s. if list_ex (\<lambda>x. event_key x = event_key e) (ig_events s) then (Inr False, s)
       else (Inr True, s\<lparr>ig_events := ig_events s @
              [ingress_event.extend e \<lparr>te_id = mint env (ig_ticks s) (event_key e), te_attempts = 0, te_last = None,
                 te_created = time_at env (ig_ticks s), te_readable = True\<rparr>]\<rparr>))"

definition markDispatchOutcome :: "'x recovery_env_scheme \<Rightarrow> delivery_key \<Rightarrow> enqueue_outcome \<Rightarrow> unit rec" where
  "markDispatchOutcome env k outcome =
     (case outcome of
        Dispatch_failed _ \<Rightarrow>
          await (query env (change_events (\<lambda>e. event_key e = k) (\<lambda>e. e\<lparr>te_attempts := te_attempts e + 1\<rparr>))) (\<lambda>_.
          await (current_time env) (\<lambda>now.
          await (query env (change_events (\<lambda>e. event_key e = k) (\<lambda>e. e\<lparr>te_last := Some now\<rparr>))) (\<lambda>_. succeed ())))
      | _ \<Rightarrow>
          await (current_time env) (\<lambda>now.
          await (query env (change_events (\<lambda>e. event_key e = k)
                   (\<lambda>e. e\<lparr>ev_state := Some Dispatched, te_last := Some now, ev_payload := None\<rparr>))) (\<lambda>_. succeed ())))"

definition live_enqueue :: "'x recovery_env_scheme \<Rightarrow> job_data \<Rightarrow> string \<Rightarrow> enqueue_outcome rec" where
  "live_enqueue env d jobId =
     await (enqueue env d jobId False) (\<lambda>result.
     await (recover (markDispatchOutcome env (data_key d) result) (\<lambda>_. succeed ())) (\<lambda>_.
     await (case result of
              Dispatch_failed error \<Rightarrow> recover (await (save_letter env d 1 error) (\<lambda>_. succeed ())) (\<lambda>_. succeed ())
            | _ \<Rightarrow> succeed ()) (\<lambda>_.
       succeed result)))"

definition job_of :: "ingress_job \<Rightarrow> job_data" where
  "job_of j = \<lparr>jd_plugin = j_plugin j, jd_instance = j_instance j, jd_route = j_route j, jd_method = Some (j_method j),
     jd_delivery = j_delivery j, jd_session = j_session j, jd_conversation = j_conversation j, jd_payload = Some (j_payload j)\<rparr>"

text \<open>
  A delivery past the door: its row is stored, and the request that stored it hands the job on, unless its plugin must wait
  for a sweep.
\<close>

definition accept :: "'x recovery_env_scheme \<Rightarrow> ingress_event \<Rightarrow> ingress_job \<Rightarrow> unit rec" where
  "accept env e j =
     await (insert_event env e) (\<lambda>fresh.
       if \<not> fresh then succeed ()
       else await (defersInlineDispatch env (ev_plugin e)) (\<lambda>defer.
         if defer \<and> 0 < resolveNonNegativeIntEnv (sweep_interval_env env) 60000 then succeed () else await (live_enqueue env (job_of j) (j_delivery j)) (\<lambda>_. succeed ())))"

section \<open>The worker\<close>

text \<open>What one run of a job gives the queue.\<close>

datatype run_result = Run_done | Run_delayed int | Run_error string

definition deadLetter :: "'x recovery_env_scheme \<Rightarrow> job_data \<Rightarrow> int \<Rightarrow> string \<Rightarrow> bool \<Rightarrow> unit rec" where
  "deadLetter env d attempts error requeued =
     await (outside env (\<lambda>n s. (if hook_throws env n then Inl Hook_threw else Inr (), s))) (\<lambda>_.
     await (if requeued then count_open env (data_key d) None else succeed 0) (\<lambda>open.
       if 0 < open then succeed () else await (save_letter env d attempts error) (\<lambda>_. succeed ())))"

text \<open>A running job cannot be removed.\<close>

definition queue_remove :: "'x recovery_env_scheme \<Rightarrow> string \<Rightarrow> unit rec" where
  "queue_remove env i =
     redis env (\<lambda>s. (Inr (), s\<lparr>ig_jobs := filter (\<lambda>j. \<not> (qj_id j = i \<and> qj_state j \<noteq> Job_active)) (ig_jobs s)\<rparr>))"

definition deadLetterOrRequeue :: "'x recovery_env_scheme \<Rightarrow> queue_job \<Rightarrow> int \<Rightarrow> string \<Rightarrow> unit rec" where
  "deadLetterOrRequeue env j attempts error =
     recover (deadLetter env (qj_data j) attempts error (REQUEUED_JOB_ID (qj_id j))) (\<lambda>_.
       recover
         (let (first, second) = requeuedJobIds (base_id (qj_id j));
              jobId = (if qj_id j = first then second else first)
          in await (queue_remove env jobId) (\<lambda>_. queue_add env jobId (qj_data j) (qj_attempts j) Job_delayed))
         (\<lambda>_. modify (noted (data_key (qj_data j)) Left_in_failed_job)))"

definition settleRequeued :: "'x recovery_env_scheme \<Rightarrow> job_data \<Rightarrow> unit rec" where
  "settleRequeued env d =
     recover
       (await (query env (change_events (\<lambda>e. event_key e = data_key d) (\<lambda>e. e\<lparr>ev_state := Some Dispatched, ev_payload := None\<rparr>))) (\<lambda>_.
        await (retireOpenDeadLetters env (data_key d)) (\<lambda>_. succeed ())))
       (\<lambda>_. succeed ())"

definition process :: "'x recovery_env_scheme \<Rightarrow> queue_job \<Rightarrow> run_result rec" where
  "process env j =
     (let d = qj_data j
      in await (inspect (\<lambda>s. (restoring env (ig_ticks s) (jd_plugin d), time_at env (ig_ticks s)))) (\<lambda>(held, now).
        if held then let delay = max 1000 (int (retry_delay env)) in succeed (Run_delayed ((now div delay + 1) * delay))
        else await (dispatch_inline env d) (\<lambda>r.
          case r of
            Dispatch_failed error \<Rightarrow>
              await (if (case qj_attempts j of None \<Rightarrow> 1 | Some a \<Rightarrow> a) \<le> qj_made j + 1
                     then deadLetterOrRequeue env j (int (qj_made j) + 1) error else succeed ()) (\<lambda>_.
                succeed (Run_error (if error = rate_limit_text env then ''Ingress dispatch failed: '' @ error else error)))
          | _ \<Rightarrow> await (if REQUEUED_JOB_ID (qj_id j) then settleRequeued env d else succeed ()) (\<lambda>_. succeed Run_done))))"

definition STALL_EXHAUSTION_MESSAGE :: string where
  "STALL_EXHAUSTION_MESSAGE = ''job stalled more than allowable limit''"

definition onWorkerFailed :: "'x recovery_env_scheme \<Rightarrow> queue_job option \<Rightarrow> string option \<Rightarrow> string \<Rightarrow> unit rec" where
  "onWorkerFailed env job deferred message =
     (case job of
        None \<Rightarrow> succeed ()
      | Some j \<Rightarrow>
          if deferred \<noteq> Some STALL_EXHAUSTION_MESSAGE \<or> message \<noteq> STALL_EXHAUSTION_MESSAGE then succeed ()
          else deadLetterOrRequeue env j (int (qj_made j)) message)"

text \<open>
  What the queue does with a job: the worker takes it, and settles it by the result of its run. A run that threw counts
  as an attempt and is retried until the attempts are spent, but an error with the text of a rate limit puts the job back.
\<close>

definition set_job :: "string \<Rightarrow> (queue_job \<Rightarrow> queue_job) \<Rightarrow> ingress_state \<Rightarrow> ingress_state" where
  "set_job i g s = s\<lparr>ig_jobs := map (\<lambda>j. if qj_id j = i then g j else j) (ig_jobs s)\<rparr>"

definition take_job :: "string \<Rightarrow> ingress_state \<Rightarrow> ingress_state" where
  "take_job i = set_job i (\<lambda>j. if qj_state j \<in> {Job_waiting, Job_delayed} then j\<lparr>qj_state := Job_active\<rparr> else j)"

fun settle_job :: "'x recovery_env_scheme \<Rightarrow> run_result \<Rightarrow> queue_job \<Rightarrow> queue_job" where
  "settle_job env Run_done j = j\<lparr>qj_state := Job_completed\<rparr>"
| "settle_job env (Run_delayed _) j = j\<lparr>qj_state := Job_delayed\<rparr>"
| "settle_job env (Run_error error) j =
     (if error = rate_limit_text env then j\<lparr>qj_state := Job_waiting\<rparr>
      else j\<lparr>qj_made := qj_made j + 1,
             qj_state := (if (case qj_attempts j of None \<Rightarrow> 1 | Some a \<Rightarrow> a) \<le> qj_made j + 1 then Job_failed else Job_delayed)\<rparr>)"

definition run_job :: "'x recovery_env_scheme \<Rightarrow> string \<Rightarrow> ingress_state \<Rightarrow> ingress_state" where
  "run_job env i s =
     (case find (\<lambda>j. qj_id j = i \<and> qj_state j = Job_active) (ig_jobs s) of
        None \<Rightarrow> s
      | Some j \<Rightarrow> (case process env j s of (Inr r, s') \<Rightarrow> set_job i (settle_job env r) s' | (Inl _, s') \<Rightarrow> s'))"

definition stall_job :: "'x recovery_env_scheme \<Rightarrow> string \<Rightarrow> ingress_state \<Rightarrow> ingress_state" where
  "stall_job env i s =
     (case find (\<lambda>j. qj_id j = i \<and> qj_state j = Job_active) (ig_jobs s) of
        None \<Rightarrow> s
      | Some j \<Rightarrow> snd (onWorkerFailed env (Some j) (Some STALL_EXHAUSTION_MESSAGE) STALL_EXHAUSTION_MESSAGE
                    (set_job i (\<lambda>j. j\<lparr>qj_state := Job_failed\<rparr>) s)))"

text \<open>\<open>removeOnComplete\<close> and \<open>removeOnFail\<close>: settled jobs go when the queue's limits say so.\<close>

definition prune_jobs :: "(queue_job \<Rightarrow> bool) \<Rightarrow> ingress_state \<Rightarrow> ingress_state" where
  "prune_jobs P s = s\<lparr>ig_jobs := filter (\<lambda>j. qj_state j \<notin> {Job_completed, Job_failed} \<or> \<not> P j) (ig_jobs s)\<rparr>"

section \<open>Ordering\<close>

definition orderingKeyFor :: "job_data \<Rightarrow> string" where
  "orderingKeyFor d = join_nul [jd_plugin d, jd_instance d, case jd_conversation d of None \<Rightarrow> [] | Some c \<Rightarrow> c]"

end
