(* ===== verification/Ingress_Recovery.thy ===== *)
theory Ingress_Recovery
  imports Ingress_Queue "HOL-Library.Product_Lexorder"
begin

text \<open>
  What brings a stranded delivery home: the sweep over pending events and the hand-off of aged ones
  (\<^verbatim>\<open>src/src/modules/integration/ingress-reconciler.service.ts\<close>), the operator's redrive (\<^verbatim>\<open>redrive.service.ts\<close>) and
  retention (\<^verbatim>\<open>integration-retention.service.ts\<close>). Days are of 24 hours.
\<close>

section \<open>The sweep's options and its set of unreadable rows\<close>

record reconciler_opts =
  ro_interval :: nat
  ro_grace :: nat
  ro_batch :: nat
  ro_attempts :: nat

text \<open>The batch size and the budget as \<open>Number\<close> read them: \<open>None\<close> is no integer.\<close>

definition at_least_one :: "int option \<Rightarrow> nat \<Rightarrow> nat" where
  "at_least_one n fallback = (case n of Some i \<Rightarrow> if 1 \<le> i then nat i else fallback | None \<Rightarrow> fallback)"

definition resolveIngressReconcilerOptions :: "string option \<Rightarrow> string option \<Rightarrow> int option \<Rightarrow> int option \<Rightarrow> reconciler_opts" where
  "resolveIngressReconcilerOptions interval grace batch attempts =
     \<lparr>ro_interval = resolveNonNegativeIntEnv interval 60000, ro_grace = resolveNonNegativeIntEnv grace 60000,
      ro_batch = at_least_one batch 50, ro_attempts = at_least_one attempts 5\<rparr>"

definition UNREADABLE_RETRY_MS :: int where
  "UNREADABLE_RETRY_MS = 60 * 60 * 1000"

definition UNREADABLE_REMEMBERED_MAX :: nat where
  "UNREADABLE_REMEMBERED_MAX = 1000"

definition unreadableRows :: "int \<Rightarrow> string list rec" where
  "unreadableRows now =
     await (modify (\<lambda>s. s\<lparr>ig_unreadable := filter (\<lambda>(i, until). now < until) (ig_unreadable s)\<rparr>)) (\<lambda>_.
       inspect (\<lambda>s. map fst (ig_unreadable s)))"

definition rememberUnreadable :: "string \<Rightarrow> int \<Rightarrow> unit rec" where
  "rememberUnreadable i now =
     modify (\<lambda>s. let u = filter (\<lambda>(x, until). x \<noteq> i) (ig_unreadable s) @ [(i, now + UNREADABLE_RETRY_MS)]
       in s\<lparr>ig_unreadable := drop (length u - UNREADABLE_REMEMBERED_MAX) u\<rparr>)"

section \<open>Rows and their dead letters\<close>

text \<open>The rows of a query in ascending order.\<close>

definition ascending :: "('a \<Rightarrow> 'k::linorder) \<Rightarrow> 'a list \<Rightarrow> 'a list" where
  "ascending f rows = foldr (insort_key f) rows []"

text \<open>A row whose stored payload does not parse cannot be read.\<close>

definition read_event :: "'x recovery_env_scheme \<Rightarrow> string \<Rightarrow> tracked_event option rec" where
  "read_event env i =
     query env (\<lambda>s. case find (\<lambda>e. te_id e = i) (ig_events s) of
         None \<Rightarrow> (Inr None, s)
       | Some e \<Rightarrow> (if ev_payload e \<noteq> None \<and> \<not> te_readable e then Inl Payload_syntax else Inr (Some e), s))"

definition resolve_instance :: "'x recovery_env_scheme \<Rightarrow> string \<Rightarrow> string \<Rightarrow> bool option rec" where
  "resolve_instance env p i = query env (\<lambda>s. (Inr (instance_enabled env (ig_ticks s) p i), s))"

definition jobDataFor :: "'x recovery_env_scheme \<Rightarrow> tracked_event \<Rightarrow> job_data" where
  "jobDataFor env e =
     (let p = the (ev_payload e)
      in \<lparr>jd_plugin = ev_plugin e, jd_instance = ev_instance e, jd_route = ev_route e, jd_method = pl_method p,
          jd_delivery = ev_delivery e, jd_session = ev_session e,
          jd_conversation = extractConversationId (parse_body env) (conversation_spec env (ev_plugin e) (ev_route e)) (pl_headers p) (pl_body p),
          jd_payload = Some (p\<lparr>pl_method := None\<rparr>)\<rparr>)"

definition ensureDeadLetterRow :: "'x recovery_env_scheme \<Rightarrow> job_data \<Rightarrow> int \<Rightarrow> string \<Rightarrow> string option rec" where
  "ensureDeadLetterRow env d attempts error =
     await (count_open env (data_key d) None) (\<lambda>existing.
       if 0 < existing then succeed None else await (save_letter env d attempts error) (\<lambda>i. succeed (Some i)))"

text \<open>An update of the event while it is pending, and the state read when the update missed.\<close>

definition mark_pending :: "'x recovery_env_scheme \<Rightarrow> string \<Rightarrow> (tracked_event \<Rightarrow> tracked_event) \<Rightarrow> nat rec" where
  "mark_pending env i g = query env (change_events (\<lambda>e. te_id e = i \<and> ev_state e = Some Pending) g)"

definition read_state :: "'x recovery_env_scheme \<Rightarrow> string \<Rightarrow> dispatch_state option rec" where
  "read_state env i =
     query env (\<lambda>s. (Inr (case find (\<lambda>e. te_id e = i) (ig_events s) of None \<Rightarrow> None | Some e \<Rightarrow> ev_state e), s))"

definition settleDeadLetter :: "'x recovery_env_scheme \<Rightarrow> tracked_event \<Rightarrow> string option \<Rightarrow> nat \<Rightarrow> dispatch_state option rec" where
  "settleDeadLetter env row written marked =
     await (if 0 < marked then succeed (Some Failed) else read_state env (te_id row)) (\<lambda>state.
     await (case written of
              None \<Rightarrow> succeed False
            | Some w \<Rightarrow>
                if state = Some Dispatched then succeed True
                else if state = Some Failed then await (count_open env (event_key row) (Some w)) (\<lambda>open. succeed (0 < open))
                else succeed False) (\<lambda>retire.
     await (if retire
            then query env (change_letters (\<lambda>r. dl_id r = the written \<and> \<not> dl_redriven r) (\<lambda>r. r\<lparr>dl_redriven := True\<rparr>))
            else succeed 0) (\<lambda>_.
       succeed state)))"

definition settledElsewhere :: "'x recovery_env_scheme \<Rightarrow> tracked_event \<Rightarrow> string option \<Rightarrow> nat \<Rightarrow> bool rec" where
  "settledElsewhere env row written marked =
     await (settleDeadLetter env row written marked) (\<lambda>state.
       if state = Some Dispatched then await (count_open env (event_key row) None) (\<lambda>open. succeed (open = 0)) else succeed False)"

section \<open>The sweep\<close>

datatype row_outcome = Replayed | Row_failed | Interrupted

text \<open>The event is dead-lettered and marked failed, its payload retired; both branches of a terminal row share this end.\<close>

definition dead_letter_row ::
    "'x recovery_env_scheme \<Rightarrow> tracked_event \<Rightarrow> int \<Rightarrow> string \<Rightarrow> (tracked_event \<Rightarrow> tracked_event) \<Rightarrow> row_outcome rec" where
  "dead_letter_row env row attempts error g =
     await (ensureDeadLetterRow env (jobDataFor env row) attempts error) (\<lambda>written.
     await (mark_pending env (te_id row) (\<lambda>e. g (e\<lparr>ev_state := Some Failed, ev_payload := None\<rparr>))) (\<lambda>marked.
     await (settledElsewhere env row written marked) (\<lambda>elsewhere.
       succeed (if elsewhere then Replayed else Row_failed))))"

definition reconcileRow :: "'x recovery_env_scheme \<Rightarrow> tracked_event \<Rightarrow> nat \<Rightarrow> int \<Rightarrow> row_outcome rec" where
  "reconcileRow env row maxAttempts now =
     (let d = jobDataFor env row
      in await (existingJobState env d (ev_delivery row)) (\<lambda>existing.
         await (aborted env) (\<lambda>stop.
           if stop then succeed Interrupted
           else if existing = Some Job_failed then
             dead_letter_row env row (int (job_attempts env)) ''ingress queue job failed'' (\<lambda>e. e\<lparr>te_last := Some now\<rparr>)
           else await (if existing \<noteq> None then succeed (Inr Queued) else trying (enqueue env d (ev_delivery row) True)) (\<lambda>result.
             case result of
               Inl e \<Rightarrow> await (aborted env) (\<lambda>stop. if stop then succeed Interrupted else throw e)
             | Inr (Dispatch_failed error) \<Rightarrow>
                 await (aborted env) (\<lambda>stop.
                   if stop then succeed Interrupted
                   else let attempts = te_attempts row + 1
                     in if maxAttempts \<le> attempts then
                          dead_letter_row env row (int attempts) error (\<lambda>e. e\<lparr>te_attempts := attempts, te_last := Some now\<rparr>)
                        else await (query env (change_events (\<lambda>e. te_id e = te_id row)
                                      (\<lambda>e. e\<lparr>te_attempts := attempts, te_last := Some now\<rparr>))) (\<lambda>_. succeed Row_failed))
             | Inr _ \<Rightarrow>
                 await (query env (change_events (\<lambda>e. te_id e = te_id row)
                          (\<lambda>e. e\<lparr>ev_state := Some Dispatched, te_last := Some now, ev_payload := None\<rparr>))) (\<lambda>_.
                 await (retireOpenDeadLetters env (event_key row)) (\<lambda>_. succeed Replayed))))))"

text \<open>What one id of the batch adds to the counts: nothing, a skipped row, or a scanned one (\<open>None\<close> when it threw).\<close>

datatype tally = Passed | Skipped | Scanned "row_outcome option"

definition sweep_row :: "'x recovery_env_scheme \<Rightarrow> nat \<Rightarrow> int \<Rightarrow> int \<Rightarrow> string \<Rightarrow> tally rec" where
  "sweep_row env maxAttempts now cutoff i =
     await (trying (read_event env i)) (\<lambda>r.
       case r of
         Inl e \<Rightarrow> await (if e \<noteq> Store_error True then rememberUnreadable i now else succeed ()) (\<lambda>_. succeed Skipped)
       | Inr None \<Rightarrow> succeed Passed
       | Inr (Some row) \<Rightarrow>
           if ev_state row \<noteq> Some Pending then succeed Passed
           else if (case te_last row of None \<Rightarrow> False | Some t \<Rightarrow> cutoff < t) then succeed Skipped
           else if ev_payload row = None then succeed Skipped
           else recover
             (await (resolve_instance env (ev_plugin row) (ev_instance row)) (\<lambda>enabled.
                if enabled \<noteq> Some True then succeed Skipped
                else await (inspect (\<lambda>s. restoring env (ig_ticks s) (ev_plugin row))) (\<lambda>held.
                  if held then succeed Skipped
                  else await (trying (reconcileRow env row maxAttempts now)) (\<lambda>out.
                    succeed (Scanned (case out of Inl _ \<Rightarrow> None | Inr x \<Rightarrow> Some x))))))
             (\<lambda>_. succeed Skipped))"

record sweep_counts =
  sc_scanned :: nat
  sc_replayed :: nat
  sc_failed :: nat
  sc_skipped :: nat

fun count_row :: "tally \<Rightarrow> sweep_counts \<Rightarrow> sweep_counts" where
  "count_row Passed c = c"
| "count_row Skipped c = c\<lparr>sc_skipped := sc_skipped c + 1\<rparr>"
| "count_row (Scanned (Some Replayed)) c = c\<lparr>sc_scanned := sc_scanned c + 1, sc_replayed := sc_replayed c + 1\<rparr>"
| "count_row (Scanned (Some Row_failed)) c = c\<lparr>sc_scanned := sc_scanned c + 1, sc_failed := sc_failed c + 1\<rparr>"
| "count_row (Scanned _) c = c\<lparr>sc_scanned := sc_scanned c + 1, sc_skipped := sc_skipped c + 1\<rparr>"

fun sweep_rows :: "'x recovery_env_scheme \<Rightarrow> nat \<Rightarrow> int \<Rightarrow> int \<Rightarrow> sweep_counts \<Rightarrow> string list \<Rightarrow> sweep_counts rec" where
  "sweep_rows env maxAttempts now cutoff c [] = succeed c"
| "sweep_rows env maxAttempts now cutoff c (i # is) =
     await (aborted env) (\<lambda>stop.
       if stop then succeed c
       else await (sweep_row env maxAttempts now cutoff i) (\<lambda>t. sweep_rows env maxAttempts now cutoff (count_row t c) is))"

definition sweep_batch :: "'x recovery_env_scheme \<Rightarrow> nat \<Rightarrow> int \<Rightarrow> string list \<Rightarrow> (string \<Rightarrow> bool) \<Rightarrow> string list rec" where
  "sweep_batch env limit cutoff unreadable held =
     query env (\<lambda>s. (Inr (take limit (map te_id (ascending te_created (filter (\<lambda>e.
         ev_state e = Some Pending \<and> te_created e < cutoff \<and> ev_payload e \<noteq> None
         \<and> instance_enabled env (ig_ticks s) (ev_plugin e) (ev_instance e) = Some True
         \<and> te_id e \<notin> set unreadable \<and> \<not> held (ev_plugin e)) (ig_events s))))), s))"

text \<open>One pass; \<open>busy\<close> is a pass or a hand-off in flight.\<close>

definition sweep :: "'x recovery_env_scheme \<Rightarrow> reconciler_opts \<Rightarrow> bool \<Rightarrow> sweep_counts rec" where
  "sweep env opts busy =
     (let none = \<lparr>sc_scanned = 0, sc_replayed = 0, sc_failed = 0, sc_skipped = 0\<rparr>
      in await (aborted env) (\<lambda>stop.
        if busy \<or> stop then succeed none
        else await (current_time env) (\<lambda>now.
          let cutoff = now - int (ro_grace opts)
          in await (unreadableRows now) (\<lambda>unreadable.
             await (inspect (\<lambda>s. restoring env (ig_ticks s))) (\<lambda>held.
             await (sweep_batch env (ro_batch opts) cutoff unreadable held) (\<lambda>ids.
               sweep_rows env (ro_attempts opts) now cutoff none ids))))))"

section \<open>The hand-off of aged events\<close>

definition ownerDeleted :: "'x recovery_env_scheme \<Rightarrow> tracked_event \<Rightarrow> bool rec" where
  "ownerDeleted env row =
     await (resolve_instance env (ev_plugin row) (ev_instance row)) (\<lambda>inst.
       if inst = None then succeed True
       else if truthy (ev_session row) \<and> is_uuid env (the (ev_session row))
       then query env (\<lambda>s. (Inr (\<not> session_exists env (ig_ticks s) (the (ev_session row))), s))
       else succeed False)"

text \<open>The payload of a delivery whose owner is gone is retired without a dead letter.\<close>

definition drop_event :: "tracked_event \<Rightarrow> ingress_state \<Rightarrow> (recovery_error + nat) \<times> ingress_state" where
  "drop_event row s =
     (let P = (\<lambda>e. te_id e = te_id row \<and> ev_state e = Some Pending);
          (r, s') = change_events P (\<lambda>e. e\<lparr>ev_state := Some Failed, ev_payload := None\<rparr>) s
      in (r, if list_ex P (ig_events s) then noted (event_key row) Owner_deleted s' else s'))"

datatype handoff = Row_done | Row_kept | Row_retired | Run_halted

definition handoff_pending :: "'x recovery_env_scheme \<Rightarrow> tracked_event \<Rightarrow> handoff rec" where
  "handoff_pending env row =
     await (ownerDeleted env row) (\<lambda>deleted.
       if deleted then await (query env (drop_event row)) (\<lambda>_. succeed Row_done)
       else let d = jobDataFor env row
         in await (existingJobState env d (ev_delivery row)) (\<lambda>existing.
            await (aborted env) (\<lambda>stop.
              if stop then succeed Run_halted
              else if live_or_completed existing then
                await (mark_pending env (te_id row) (\<lambda>e. e\<lparr>ev_state := Some Dispatched, ev_payload := None\<rparr>)) (\<lambda>settled.
                await (if 0 < settled then retireOpenDeadLetters env (event_key row) else succeed 0) (\<lambda>_. succeed Row_done))
              else
                await (ensureDeadLetterRow env d (int (te_attempts row)) ''not dispatched within the ingress dedup retention window'') (\<lambda>written.
                await (mark_pending env (te_id row) (\<lambda>e. e\<lparr>ev_state := Some Failed, ev_payload := None\<rparr>)) (\<lambda>marked.
                await (if written = None then succeed None else settleDeadLetter env row written marked) (\<lambda>_.
                  succeed (if marked = 0 then Row_done else Row_retired)))))))"

definition handoff_row :: "'x recovery_env_scheme \<Rightarrow> string \<Rightarrow> handoff rec" where
  "handoff_row env i =
     await (aborted env) (\<lambda>stop.
       if stop then succeed Run_halted
       else await (trying (read_event env i)) (\<lambda>r.
         case r of
           Inl _ \<Rightarrow> succeed Row_kept
         | Inr None \<Rightarrow> succeed Row_done
         | Inr (Some row) \<Rightarrow>
             if ev_state row \<noteq> Some Pending then succeed Row_done
             else if ev_payload row = None then succeed Row_kept
             else recover (handoff_pending env row) (\<lambda>_. succeed Row_kept)))"

fun handoff_rows :: "'x recovery_env_scheme \<Rightarrow> nat \<Rightarrow> string list \<Rightarrow> string list \<Rightarrow> (bool \<times> nat \<times> string list) rec" where
  "handoff_rows env retired kept [] = succeed (False, retired, kept)"
| "handoff_rows env retired kept (i # is) =
     await (handoff_row env i) (\<lambda>r.
       case r of
         Run_halted \<Rightarrow> succeed (True, retired, kept)
       | Row_kept \<Rightarrow> handoff_rows env retired (kept @ [i]) is
       | Row_retired \<Rightarrow> handoff_rows env (retired + 1) kept is
       | Row_done \<Rightarrow> handoff_rows env retired kept is)"

definition aged_batch :: "'x recovery_env_scheme \<Rightarrow> nat \<Rightarrow> int \<Rightarrow> string list \<Rightarrow> string list rec" where
  "aged_batch env limit cutoff kept =
     query env (\<lambda>s. (Inr (take limit (map te_id (ascending te_created (filter (\<lambda>e.
         ev_state e = Some Pending \<and> te_created e < cutoff \<and> ev_payload e \<noteq> None \<and> te_id e \<notin> set kept) (ig_events s))))), s))"

fun handoff_batches :: "nat \<Rightarrow> 'x recovery_env_scheme \<Rightarrow> nat \<Rightarrow> int \<Rightarrow> nat \<Rightarrow> string list \<Rightarrow> nat option rec" where
  "handoff_batches 0 env batchSize cutoff retired kept = succeed None"
| "handoff_batches (Suc fuel) env batchSize cutoff retired kept =
     await (aged_batch env batchSize cutoff kept) (\<lambda>ids.
     await (handoff_rows env retired kept ids) (\<lambda>(halt, retired', kept').
       if halt \<or> length ids < batchSize \<or> 10 * batchSize \<le> length kept' then succeed (Some retired')
       else handoff_batches fuel env batchSize cutoff retired' kept'))"

text \<open>
  The hand-off after its wait: the source first awaits a pass of this process that is in flight; what others do in that time
  is left to the steps before the call.
\<close>

definition deadLetterAgedPending :: "nat \<Rightarrow> 'x recovery_env_scheme \<Rightarrow> int \<Rightarrow> nat \<Rightarrow> nat option rec" where
  "deadLetterAgedPending fuel env cutoff batchSize =
     await (aborted env) (\<lambda>stop. if stop then succeed (Some 0) else handoff_batches fuel env batchSize cutoff 0 [])"

section \<open>Redrive\<close>

definition REDRIVE_BATCH_SIZE :: nat where
  "REDRIVE_BATCH_SIZE = 100"

definition isAllSessionsScope :: "string option \<Rightarrow> bool" where
  "isAllSessionsScope scope \<longleftrightarrow> \<not> truthy scope \<or> scope = Some ''*''"

definition redrivable :: "string \<Rightarrow> string \<Rightarrow> string option \<Rightarrow> dead_letter \<Rightarrow> bool" where
  "redrivable p i scope r \<longleftrightarrow> dl_plugin r = p \<and> dl_instance r = i \<and> dl_inbound r \<and> \<not> dl_redriven r
     \<and> (if isAllSessionsScope scope then dl_session r = None \<or> dl_session r = Some ''*'' else dl_session r = scope)"

definition read_letter :: "'x recovery_env_scheme \<Rightarrow> string \<Rightarrow> string \<Rightarrow> string option \<Rightarrow> string \<Rightarrow> dead_letter option rec" where
  "read_letter env p i scope x =
     query env (\<lambda>s. case find (\<lambda>r. dl_id r = x \<and> redrivable p i scope r) (ig_letters s) of
         None \<Rightarrow> (Inr None, s)
       | Some r \<Rightarrow> (if dl_payload r \<noteq> None \<and> \<not> dl_readable r then Inl Payload_syntax else Inr (Some r), s))"

definition redrive_data :: "string \<Rightarrow> string \<Rightarrow> dead_letter \<Rightarrow> job_data" where
  "redrive_data p i r =
     (let stored = (case dl_payload r of None \<Rightarrow> \<lparr>lp_route = None, lp_method = None, lp_conversation = None, lp_ingress = None\<rparr> | Some l \<Rightarrow> l)
      in \<lparr>jd_plugin = p, jd_instance = i, jd_route = (case lp_route stored of None \<Rightarrow> [] | Some x \<Rightarrow> x),
          jd_method = Some (case lp_method stored of None \<Rightarrow> ''POST'' | Some m \<Rightarrow> m),
          jd_delivery = (case dl_delivery r of None \<Rightarrow> dl_id r | Some x \<Rightarrow> x), jd_session = dl_session r,
          jd_conversation = lp_conversation stored, jd_payload = lp_ingress stored\<rparr>)"

text \<open>One dead letter: \<open>None\<close> ends the batch, \<open>Some\<close> tells whether it was redriven.\<close>

definition redrive_settle :: "'x recovery_env_scheme \<Rightarrow> string \<Rightarrow> string \<Rightarrow> dead_letter \<Rightarrow> enqueue_outcome \<Rightarrow> bool rec" where
  "redrive_settle env p i r outcome =
     (case outcome of
        Dispatch_failed error \<Rightarrow>
          await (query env (change_letters (\<lambda>x. dl_id x = dl_id r)
                   (\<lambda>x. x\<lparr>dl_attempts := max 0 (dl_attempts r) + 1, dl_error := filter (\<lambda>c. c \<noteq> CHR 0x00) error\<rparr>))) (\<lambda>_. succeed False)
      | _ \<Rightarrow>
          await (current_time env) (\<lambda>now.
          await (if truthy (dl_delivery r)
                 then query env (change_events (\<lambda>e. event_key e = (p, i, the (dl_delivery r)) \<and> ev_state e = Some Pending)
                        (\<lambda>e. e\<lparr>ev_state := Some Dispatched, te_last := Some now, ev_payload := None\<rparr>))
                 else succeed 0) (\<lambda>_.
          await (query env (change_letters (\<lambda>x. dl_id x = dl_id r) (\<lambda>x. x\<lparr>dl_redriven := True\<rparr>))) (\<lambda>_. succeed True))))"

definition redrive_row :: "'x recovery_env_scheme \<Rightarrow> string \<Rightarrow> string \<Rightarrow> string option \<Rightarrow> string \<Rightarrow> bool option rec" where
  "redrive_row env p i scope x =
     await (aborted env) (\<lambda>stop.
       if stop then succeed None
       else await (trying (read_letter env p i scope x)) (\<lambda>r.
         case r of
           Inl _ \<Rightarrow>
             await (recover (query env (change_letters (\<lambda>y. dl_id y = x) (\<lambda>y. y\<lparr>dl_attempts := dl_attempts y + 1\<rparr>))) (\<lambda>_. succeed 0)) (\<lambda>_.
               succeed (Some False))
         | Inr None \<Rightarrow> succeed (Some False)
         | Inr (Some row) \<Rightarrow>
             await (aborted env) (\<lambda>stop.
               if stop then succeed None
               else await (trying (enqueue env (redrive_data p i row) (''redrive:'' @ dl_id row) True)) (\<lambda>result.
                 case result of
                   Inl e \<Rightarrow> await (aborted env) (\<lambda>stop. if stop then succeed None else throw e)
                 | Inr outcome \<Rightarrow> await (redrive_settle env p i row outcome) (\<lambda>b. succeed (Some b))))))"

fun redrive_rows :: "'x recovery_env_scheme \<Rightarrow> string \<Rightarrow> string \<Rightarrow> string option \<Rightarrow> nat \<Rightarrow> string list \<Rightarrow> nat rec" where
  "redrive_rows env p i scope redriven [] = succeed redriven"
| "redrive_rows env p i scope redriven (x # xs) =
     await (redrive_row env p i scope x) (\<lambda>r.
       case r of
         None \<Rightarrow> succeed redriven
       | Some b \<Rightarrow> redrive_rows env p i scope (if b then redriven + 1 else redriven) xs)"

definition redriveBatch :: "'x recovery_env_scheme \<Rightarrow> string \<Rightarrow> string \<Rightarrow> string option \<Rightarrow> (nat \<times> nat \<times> nat) rec" where
  "redriveBatch env p i scope =
     await (aborted env) (\<lambda>stop.
     await (if stop then succeed []
            else query env (\<lambda>s. (Inr (take REDRIVE_BATCH_SIZE (map dl_id (ascending (\<lambda>r. (dl_attempts r, dl_created r))
                   (filter (redrivable p i scope) (ig_letters s))))), s))) (\<lambda>ids.
     await (redrive_rows env p i scope 0 ids) (\<lambda>redriven.
     await (query env (\<lambda>s. (Inr (length (filter (redrivable p i scope) (ig_letters s))), s))) (\<lambda>remaining.
       succeed (redriven, remaining, REDRIVE_BATCH_SIZE)))))"

section \<open>Retention\<close>

text \<open>The windows as \<open>Number.parseInt\<close> read them.\<close>

definition dedup_days :: "int option \<Rightarrow> int" where
  "dedup_days parsed = (case parsed of None \<Rightarrow> 7 | Some d \<Rightarrow> if d \<le> 0 then 7 else d)"

definition failure_days :: "int option \<Rightarrow> int option" where
  "failure_days parsed = (let d = (case parsed of None \<Rightarrow> 90 | Some d \<Rightarrow> max 0 d) in if 0 < d then Some d else None)"

definition prune_letters :: "int \<Rightarrow> ingress_state \<Rightarrow> (recovery_error + nat) \<times> ingress_state" where
  "prune_letters cutoff s =
     (let gone = filter (\<lambda>r. dl_created r < cutoff) (ig_letters s)
      in (Inr (length gone), s\<lparr>ig_letters := filter (\<lambda>r. \<not> dl_created r < cutoff) (ig_letters s),
            ig_notes := ig_notes s @ map (\<lambda>r. ((dl_plugin r, dl_instance r, the (dl_delivery r)), Letter_expired))
              (filter (\<lambda>r. dl_inbound r \<and> \<not> dl_redriven r \<and> dl_delivery r \<noteq> None) gone)\<rparr>))"

definition prune_events :: "int \<Rightarrow> ingress_state \<Rightarrow> (recovery_error + nat) \<times> ingress_state" where
  "prune_events cutoff s =
     (let old = (\<lambda>e. te_created e < cutoff \<and> (ev_state e \<noteq> Some Pending \<or> ev_payload e = None))
      in (Inr (length (filter old (ig_events s))), s\<lparr>ig_events := filter (\<lambda>e. \<not> old e) (ig_events s)\<rparr>))"

definition pruneOlderThan :: "nat \<Rightarrow> 'x recovery_env_scheme \<Rightarrow> int \<Rightarrow> int option \<Rightarrow> (nat \<times> nat) rec" where
  "pruneOlderThan fuel env eventsDays failuresDays =
     await (current_time env) (\<lambda>now.
     await (case failuresDays of
              None \<Rightarrow> succeed 0
            | Some d \<Rightarrow> recover (query env (prune_letters (now - d * 86400000))) (\<lambda>_. succeed 0)) (\<lambda>failures.
     await (recover (query env (prune_events (now - eventsDays * 86400000))) (\<lambda>_. succeed 0)) (\<lambda>events.
     await (recover (await (deadLetterAgedPending fuel env (now - eventsDays * 86400000) 100) (\<lambda>_. succeed ())) (\<lambda>_. succeed ())) (\<lambda>_.
       succeed (events, failures)))))"

end
