(* ===== verification/Ingress_Levels.thy ===== *)
theory Ingress_Levels
  imports Ingress_Recovery
begin

text \<open>
  How a delivery stands in the tables and the queue, and what the live path, the sweep, the hand-off, the redrive and the
  retention (\<open>Ingress_Queue\<close>, \<open>Ingress_Recovery\<close>) keep of it, whatever the others do between two of their steps, as
  long as they keep it too.
\<close>

section \<open>Ids\<close>

definition is_hex :: "char \<Rightarrow> bool" where
  "is_hex c \<longleftrightarrow> is_digit c \<or> (CHR ''a'' \<le> c \<and> c \<le> CHR ''f'')"

text \<open>
  The keys whose job ids can be told apart: plugin and instance ids without a NUL, which separates the parts of a job id,
  and a delivery id that is not read as the id of a redriven dead letter. A delivery id comes from the provider, and nothing
  in the code keeps it from beginning with \<open>redrive:\<close>; such deliveries are outside the statements below.
\<close>

definition key_ok :: "delivery_key \<Rightarrow> bool" where
  "key_ok k \<longleftrightarrow> no_nul (fst k) \<and> no_nul (fst (snd k)) \<and> take 8 (snd (snd k)) \<noteq> ''redrive:''"

definition base_job_id :: "(string \<Rightarrow> string) \<Rightarrow> string \<Rightarrow> string \<Rightarrow> string \<Rightarrow> string" where
  "base_job_id hx p i raw = ''ing-'' @ hx ((p @ CHR 0x00 # i) @ CHR 0x00 # raw)"

definition copies :: "string \<Rightarrow> string set" where
  "copies b = {b, b @ ''-requeued-1'', b @ ''-requeued-2''}"

text \<open>The texts a delivery's jobs are named after: its own id, or the id of a dead letter of its own.\<close>

definition names :: "(string \<Rightarrow> delivery_key) \<Rightarrow> delivery_key \<Rightarrow> string set" where
  "names born k = {snd (snd k)} \<union> {''redrive:'' @ x | x. born x = k}"

definition job_named :: "(string \<Rightarrow> string) \<Rightarrow> (string \<Rightarrow> delivery_key) \<Rightarrow> delivery_key \<Rightarrow> string \<Rightarrow> bool" where
  "job_named hx born k i \<longleftrightarrow> (\<exists>raw \<in> names born k. i \<in> copies (base_job_id hx (fst k) (fst (snd k)) raw))"

lemma queueJobId_base: "queueJobId env d raw = base_job_id (hex40 env) (jd_plugin d) (jd_instance d) raw"
  by (simp add: queueJobId_def sanitizeIngressJobId_def base_job_id_def)

lemma not_requeued: "list_all is_hex h \<Longrightarrow> \<not> REQUEUED_JOB_ID (''ing-'' @ h)"
proof
  assume h: "list_all is_hex h" and r: "REQUEUED_JOB_ID (''ing-'' @ h)"
  then obtain x where x: "''ing-'' @ h = x @ ''-requeued-'' @ [CHR ''1''] \<or> ''ing-'' @ h = x @ ''-requeued-'' @ [CHR ''2'']"
    unfolding REQUEUED_JOB_ID_def by (metis append_take_drop_id append_Cons append_Nil insert_iff empty_iff)
  obtain g c where g: "h = g @ [CHR ''-'', c] \<or> length h < 2"
    using x by (cases h rule: rev_cases; cases "butlast h" rule: rev_cases) auto
  then show False
    using h x by (auto simp: is_hex_def is_digit_def less_Suc_eq numeral_2_eq_2 length_Suc_conv)
qed

lemma requeued_copy [simp]: "REQUEUED_JOB_ID (b @ ''-requeued-1'')" "REQUEUED_JOB_ID (b @ ''-requeued-2'')"
  "base_id (b @ ''-requeued-1'') = b" "base_id (b @ ''-requeued-2'') = b"
  by (simp_all add: REQUEUED_JOB_ID_def base_id_def)

lemma base_id_copies:
  assumes "\<And>t. list_all is_hex (hx t)" "i \<in> copies (base_job_id hx p j raw)"
  shows "base_id i = base_job_id hx p j raw"
proof -
  have "\<not> REQUEUED_JOB_ID (base_job_id hx p j raw)"
    unfolding base_job_id_def by (rule not_requeued [OF assms(1)])
  then have "base_id (base_job_id hx p j raw) = base_job_id hx p j raw"
    by (simp add: base_id_def)
  then show ?thesis
    using assms(2) unfolding copies_def by (elim insertE) simp_all
qed

lemma base_job_id_inject:
  assumes "inj hx" "no_nul p" "no_nul i" "no_nul p'" "no_nul i'" "base_job_id hx p i raw = base_job_id hx p' i' raw'"
  shows "p = p' \<and> i = i' \<and> raw = raw'"
proof -
  have "(p @ CHR 0x00 # i) @ CHR 0x00 # raw = (p' @ CHR 0x00 # i') @ CHR 0x00 # raw'"
    using assms(1,6) by (simp add: base_job_id_def inj_eq)
  then have "p = p' \<and> i @ CHR 0x00 # raw = i' @ CHR 0x00 # raw'"
    using nul_split [OF assms(2,4)] by simp
  then show ?thesis
    using nul_split [OF assms(3,5)] by simp
qed

text \<open>A job's id tells its delivery.\<close>

lemma names_disjoint: "raw \<in> names born k \<Longrightarrow> raw \<in> names born k' \<Longrightarrow> fst k = fst k' \<Longrightarrow> fst (snd k) = fst (snd k')
    \<Longrightarrow> key_ok k \<Longrightarrow> key_ok k' \<Longrightarrow> k = k'"
proof -
  assume a: "raw \<in> names born k" "raw \<in> names born k'" "fst k = fst k'" "fst (snd k) = fst (snd k')" "key_ok k" "key_ok k'"
  have "take 8 (''redrive:'' @ x) = ''redrive:''" for x
    by simp
  then have "''redrive:'' @ x \<noteq> snd (snd k)" "''redrive:'' @ x \<noteq> snd (snd k')" for x
    using a(5,6) unfolding key_ok_def by metis+
  moreover have "raw = snd (snd k) \<or> (\<exists>x. raw = ''redrive:'' @ x \<and> born x = k)" "raw = snd (snd k') \<or> (\<exists>x. raw = ''redrive:'' @ x \<and> born x = k')"
    using a(1,2) unfolding names_def by blast+
  ultimately show "k = k'"
    using a(3,4) prod_eqI by (metis same_append_eq)
qed

lemma job_named_inject:
  assumes "inj hx" "\<And>t. list_all is_hex (hx t)" "key_ok k" "key_ok k'" "job_named hx born k i" "job_named hx born k' i"
  shows "k = k'"
proof -
  obtain raw raw' where raw: "raw \<in> names born k" "i \<in> copies (base_job_id hx (fst k) (fst (snd k)) raw)"
      "raw' \<in> names born k'" "i \<in> copies (base_job_id hx (fst k') (fst (snd k')) raw')"
    using assms(5,6) by (auto simp: job_named_def)
  then have "base_job_id hx (fst k) (fst (snd k)) raw = base_job_id hx (fst k') (fst (snd k')) raw'"
    using base_id_copies [of hx i] assms(2) by metis
  then have "fst k = fst k' \<and> fst (snd k) = fst (snd k') \<and> raw = raw'"
    using base_job_id_inject [OF assms(1), of "fst k" "fst (snd k)" "fst k'" "fst (snd k')" raw raw'] assms(3,4) by (simp add: key_ok_def)
  then show ?thesis
    using names_disjoint raw(1,3) assms(3,4) by blast
qed

section \<open>How a delivery stands\<close>

text \<open>
  Each id is minted for one delivery (\<open>born\<close>), each job is named after its own delivery, a completed job was taken by its
  plugin, and jobs and dead letters carry what was delivered.
\<close>

definition job_ok :: "(string \<Rightarrow> string) \<Rightarrow> (string \<Rightarrow> delivery_key) \<Rightarrow> queue_job \<Rightarrow> bool" where
  "job_ok hx born j \<longleftrightarrow> key_ok (data_key (qj_data j)) \<and> jd_payload (qj_data j) \<noteq> None \<and> job_named hx born (data_key (qj_data j)) (qj_id j)"

definition letter_key :: "dead_letter \<Rightarrow> delivery_key" where
  "letter_key r = (dl_plugin r, dl_instance r, case dl_delivery r of None \<Rightarrow> dl_id r | Some x \<Rightarrow> x)"

definition carries :: "dead_letter \<Rightarrow> bool" where
  "carries r \<longleftrightarrow> (\<exists>l. dl_payload r = Some l \<and> lp_ingress l \<noteq> None)"

definition letter_ok :: "(string \<Rightarrow> delivery_key) \<Rightarrow> dead_letter \<Rightarrow> bool" where
  "letter_ok born r \<longleftrightarrow> key_ok (letter_key r) \<and> born (dl_id r) = letter_key r \<and> carries r"

definition event_ok :: "(string \<Rightarrow> delivery_key) \<Rightarrow> tracked_event \<Rightarrow> bool" where
  "event_ok born e \<longleftrightarrow> key_ok (event_key e) \<and> born (te_id e) = event_key e"

definition noted_in :: "delivery_key \<Rightarrow> ingress_state \<Rightarrow> bool" where
  "noted_in k s \<longleftrightarrow> (\<exists>n. (k, n) \<in> set (ig_notes s))"

definition live_in :: "delivery_key \<Rightarrow> ingress_state \<Rightarrow> bool" where
  "live_in k s \<longleftrightarrow> (\<exists>j \<in> set (ig_jobs s). data_key (qj_data j) = k \<and> qj_state j \<notin> {Job_completed, Job_failed})"

definition open_in :: "delivery_key \<Rightarrow> string option \<Rightarrow> ingress_state \<Rightarrow> bool" where
  "open_in k b s \<longleftrightarrow> (\<exists>r \<in> set (ig_letters s). open_letter k b r)"

definition dispatched_in :: "delivery_key \<Rightarrow> ingress_state \<Rightarrow> bool" where
  "dispatched_in k s \<longleftrightarrow> (\<exists>e \<in> set (ig_events s). event_key e = k \<and> ev_state e = Some Dispatched)"

definition pending_in :: "delivery_key \<Rightarrow> ingress_state \<Rightarrow> bool" where
  "pending_in k s \<longleftrightarrow> (\<exists>e \<in> set (ig_events s). event_key e = k \<and> ev_state e = Some Pending \<and> ev_payload e \<noteq> None)"

definition tables_ok :: "(string \<Rightarrow> string) \<Rightarrow> (string \<Rightarrow> delivery_key) \<Rightarrow> ingress_state \<Rightarrow> bool" where
  "tables_ok hx born s \<longleftrightarrow> distinct (map event_key (ig_events s)) \<and> list_all (event_ok born) (ig_events s)
     \<and> list_all (letter_ok born) (ig_letters s) \<and> list_all (job_ok hx born) (ig_jobs s)
     \<and> (\<forall>j \<in> set (ig_jobs s). qj_state j = Job_completed \<longrightarrow> noted_in (data_key (qj_data j)) s)"

text \<open>
  The levels of a delivery, in tables that are in order: at 5 the plugin took it, a job will run it, or its end is noted; at 4 an
  open dead letter keeps it; at 3 its event is pending with its payload; at 2 an open dead letter keeps it and the event is
  marked dispatched; at 1 nothing keeps it. An event is only marked dispatched at 5, so a delivery that stood at 3 or
  above, and whose event is now found dispatched, stands at 5. With a bound, only dead letters with a lower id count.
\<close>

definition level :: "(string \<Rightarrow> string) \<Rightarrow> (string \<Rightarrow> delivery_key) \<Rightarrow> delivery_key \<times> string option \<Rightarrow> ingress_state \<Rightarrow> nat" where
  "level hx born i s =
     (let k = fst i; b = snd i
      in if \<not> tables_ok hx born s then 0
         else if noted_in k s \<or> live_in k s then 5
         else if open_in k b s then (if b = None \<and> dispatched_in k s then 2 else 4)
         else if b = None \<and> pending_in k s then 3 else 1)"

lemma level_ge:
  "1 \<le> level hx born i s \<longleftrightarrow> tables_ok hx born s"
  "5 \<le> level hx born (k, c) s \<longleftrightarrow> tables_ok hx born s \<and> (noted_in k s \<or> live_in k s)"
  "4 \<le> level hx born (k, None) s \<longleftrightarrow> tables_ok hx born s \<and> (noted_in k s \<or> live_in k s \<or> open_in k None s \<and> \<not> dispatched_in k s)"
  "4 \<le> level hx born (k, Some b) s \<longleftrightarrow> tables_ok hx born s \<and> (noted_in k s \<or> live_in k s \<or> open_in k (Some b) s)"
  "3 \<le> level hx born (k, None) s \<longleftrightarrow> tables_ok hx born s
     \<and> (noted_in k s \<or> live_in k s \<or> open_in k None s \<and> \<not> dispatched_in k s \<or> \<not> open_in k None s \<and> pending_in k s)"
  "2 \<le> level hx born (k, None) s \<longleftrightarrow> tables_ok hx born s \<and> (noted_in k s \<or> live_in k s \<or> open_in k None s \<or> pending_in k s)"
  by (auto simp: level_def Let_def)

lemma level_pos [simp]: "Suc 0 \<le> level hx born i s \<longleftrightarrow> tables_ok hx born s" "0 < level hx born i s \<longleftrightarrow> tables_ok hx born s"
  by (auto simp: level_def Let_def)

lemma level_keeps_ok: "level hx born i s \<le> level hx born i s' \<Longrightarrow> tables_ok hx born s \<Longrightarrow> tables_ok hx born s'"
  using order_trans [of "Suc 0" "level hx born i s" "level hx born i s'"] by simp

lemma delivery_frame [simp]:
  "noted_in k (s\<lparr>ig_ticks := n\<rparr>) = noted_in k s" "noted_in k (s\<lparr>ig_unreadable := u\<rparr>) = noted_in k s"
  "noted_in k (s\<lparr>ig_events := es\<rparr>) = noted_in k s" "noted_in k (s\<lparr>ig_letters := rs\<rparr>) = noted_in k s"
  "noted_in k (s\<lparr>ig_jobs := js\<rparr>) = noted_in k s"
  "live_in k (s\<lparr>ig_ticks := n\<rparr>) = live_in k s" "live_in k (s\<lparr>ig_unreadable := u\<rparr>) = live_in k s"
  "live_in k (s\<lparr>ig_events := es\<rparr>) = live_in k s" "live_in k (s\<lparr>ig_letters := rs\<rparr>) = live_in k s"
  "live_in k (s\<lparr>ig_notes := ns\<rparr>) = live_in k s"
  "open_in k b (s\<lparr>ig_ticks := n\<rparr>) = open_in k b s" "open_in k b (s\<lparr>ig_unreadable := u\<rparr>) = open_in k b s"
  "open_in k b (s\<lparr>ig_events := es\<rparr>) = open_in k b s" "open_in k b (s\<lparr>ig_jobs := js\<rparr>) = open_in k b s"
  "open_in k b (s\<lparr>ig_notes := ns\<rparr>) = open_in k b s"
  "dispatched_in k (s\<lparr>ig_ticks := n\<rparr>) = dispatched_in k s" "dispatched_in k (s\<lparr>ig_unreadable := u\<rparr>) = dispatched_in k s"
  "dispatched_in k (s\<lparr>ig_letters := rs\<rparr>) = dispatched_in k s" "dispatched_in k (s\<lparr>ig_jobs := js\<rparr>) = dispatched_in k s"
  "dispatched_in k (s\<lparr>ig_notes := ns\<rparr>) = dispatched_in k s"
  "pending_in k (s\<lparr>ig_ticks := n\<rparr>) = pending_in k s" "pending_in k (s\<lparr>ig_unreadable := u\<rparr>) = pending_in k s"
  "pending_in k (s\<lparr>ig_letters := rs\<rparr>) = pending_in k s" "pending_in k (s\<lparr>ig_jobs := js\<rparr>) = pending_in k s"
  "pending_in k (s\<lparr>ig_notes := ns\<rparr>) = pending_in k s"
  by (simp_all add: noted_in_def live_in_def open_in_def dispatched_in_def pending_in_def)

lemma level_frame [simp]:
  "level hx born i (s\<lparr>ig_ticks := n\<rparr>) = level hx born i s" "level hx born i (s\<lparr>ig_unreadable := u\<rparr>) = level hx born i s"
  "tables_ok hx born (s\<lparr>ig_ticks := n\<rparr>) = tables_ok hx born s" "tables_ok hx born (s\<lparr>ig_unreadable := u\<rparr>) = tables_ok hx born s"
  by (simp_all add: level_def tables_ok_def Let_def)

text \<open>How to show that nothing falls: the tables stay in order, and what keeps a delivery goes only when something higher keeps it.\<close>

lemma level_mono:
  assumes ok: "tables_ok hx born s \<Longrightarrow> tables_ok hx born s'"
    and up: "noted_in (fst i) s \<or> live_in (fst i) s \<Longrightarrow> noted_in (fst i) s' \<or> live_in (fst i) s'"
    and op: "tables_ok hx born s \<Longrightarrow> open_in (fst i) (snd i) s \<Longrightarrow> open_in (fst i) (snd i) s' \<or> noted_in (fst i) s' \<or> live_in (fst i) s'"
    and di: "tables_ok hx born s \<Longrightarrow> snd i = None \<Longrightarrow> dispatched_in (fst i) s' \<Longrightarrow> dispatched_in (fst i) s \<or> noted_in (fst i) s' \<or> live_in (fst i) s'"
    and pe: "tables_ok hx born s \<Longrightarrow> snd i = None \<Longrightarrow> pending_in (fst i) s \<Longrightarrow> pending_in (fst i) s' \<and> \<not> dispatched_in (fst i) s'
      \<or> open_in (fst i) None s' \<and> \<not> dispatched_in (fst i) s' \<or> noted_in (fst i) s' \<or> live_in (fst i) s'"
  shows "level hx born i s \<le> level hx born i s'"
proof (cases "tables_ok hx born s")
  case True
  obtain k b where i: "i = (k, b)"
    by fastforce
  show ?thesis
    using ok [OF True] up op [OF True] di [OF True] pe [OF True] True unfolding i level_def Let_def by auto
qed (simp add: level_def)

section \<open>What the statements do\<close>

lemma events_update:
  assumes "\<And>e. e \<in> set (ig_events s) \<Longrightarrow> P e \<Longrightarrow> event_key (g e) = event_key e \<and> te_id (g e) = te_id e"
  shows "tables_ok hx born s \<Longrightarrow> tables_ok hx born (s\<lparr>ig_events := map (\<lambda>e. if P e then g e else e) (ig_events s)\<rparr>)"
proof -
  assume ok: "tables_ok hx born s"
  let ?f = "\<lambda>e. if P e then g e else e"
  have keys: "event_key (?f e) = event_key e" "event_ok born (?f e) = event_ok born e" if "e \<in> set (ig_events s)" for e
    using assms that by (auto simp: event_ok_def)
  from keys(1) have eq: "map (event_key \<circ> ?f) (ig_events s) = map event_key (ig_events s)"
    by (intro map_cong) simp_all
  have "distinct (map event_key (ig_events s))"
    using ok by (simp add: tables_ok_def)
  then have "distinct (map event_key (map ?f (ig_events s)))"
    by (simp only: map_map eq)
  then show ?thesis
    using ok keys(2) unfolding tables_ok_def list_all_iff by (simp del: map_map if_image_distrib)
qed

text \<open>A change of events that leaves the states and the payloads of what is pending, for a delivery that does not stand at 5.\<close>

lemma level_events:
  assumes keys: "\<And>e. e \<in> set (ig_events s) \<Longrightarrow> P e \<Longrightarrow> event_key (g e) = event_key e \<and> te_id (g e) = te_id e"
    and safe: "\<And>e. e \<in> set (ig_events s) \<Longrightarrow> P e \<Longrightarrow> event_key e = fst i \<Longrightarrow> tables_ok hx born s \<Longrightarrow>
       noted_in (fst i) s \<or> live_in (fst i) s
       \<or> ev_state (g e) = ev_state e \<and> ev_payload (g e) = ev_payload e
       \<or> ev_state (g e) \<noteq> Some Dispatched \<and> open_in (fst i) None s \<and> \<not> dispatched_in (fst i) s"
  shows "level hx born i s \<le> level hx born i (s\<lparr>ig_events := map (\<lambda>e. if P e then g e else e) (ig_events s)\<rparr>)"
proof (rule level_mono)
  let ?f = "\<lambda>e. if P e then g e else e" and ?k = "fst i"
  let ?s = "s\<lparr>ig_events := map ?f (ig_events s)\<rparr>"
  show "tables_ok hx born s \<Longrightarrow> tables_ok hx born ?s"
    by (rule events_update [OF keys])
  show "noted_in ?k s \<or> live_in ?k s \<Longrightarrow> noted_in ?k ?s \<or> live_in ?k ?s"
    by simp
  show "open_in ?k (snd i) s \<Longrightarrow> open_in ?k (snd i) ?s \<or> noted_in ?k ?s \<or> live_in ?k ?s"
    by simp
  assume ok: "tables_ok hx born s"
  have dis: "dispatched_in ?k ?s \<Longrightarrow> dispatched_in ?k s \<or> noted_in ?k s \<or> live_in ?k s"
    using keys safe ok unfolding dispatched_in_def by (fastforce split: if_splits)
  then show "dispatched_in ?k ?s \<Longrightarrow> dispatched_in ?k s \<or> noted_in ?k ?s \<or> live_in ?k ?s"
    by simp
  assume pe: "pending_in ?k s"
  then obtain e where e: "e \<in> set (ig_events s)" "event_key e = ?k" "ev_state e = Some Pending" "ev_payload e \<noteq> None"
    by (auto simp: pending_in_def)
  have "\<not> dispatched_in ?k s"
    using ok e by (auto simp: tables_ok_def dispatched_in_def distinct_map inj_on_def)
  then have nd: "\<not> dispatched_in ?k ?s \<or> noted_in ?k s \<or> live_in ?k s"
    using dis by blast
  have "ev_state (?f e) = Some Pending \<and> ev_payload (?f e) \<noteq> None \<or> noted_in ?k s \<or> live_in ?k s \<or> open_in ?k None s"
    using safe [OF e(1) _ e(2) ok] e(3,4) by auto
  moreover have "pending_in ?k ?s" if "ev_state (?f e) = Some Pending \<and> ev_payload (?f e) \<noteq> None"
  proof -
    have "?f e \<in> set (ig_events ?s)"
      using e(1) by (simp del: if_image_distrib)
    moreover have "event_key (?f e) = ?k"
      using keys [OF e(1)] e(2) by simp
    ultimately show ?thesis
      using that unfolding pending_in_def by blast
  qed
  ultimately have "pending_in ?k ?s \<or> noted_in ?k s \<or> live_in ?k s \<or> open_in ?k None s"
    by blast
  then show "pending_in ?k ?s \<and> \<not> dispatched_in ?k ?s \<or> open_in ?k None ?s \<and> \<not> dispatched_in ?k ?s \<or> noted_in ?k ?s \<or> live_in ?k ?s"
    using nd by auto
qed

text \<open>A change of dead letters that keeps them open, or closes some where another keeps the delivery.\<close>

definition same_letter :: "dead_letter \<Rightarrow> dead_letter \<Rightarrow> bool" where
  "same_letter r r' \<longleftrightarrow> dl_id r' = dl_id r \<and> dl_inbound r' = dl_inbound r \<and> dl_plugin r' = dl_plugin r \<and> dl_instance r' = dl_instance r
     \<and> dl_delivery r' = dl_delivery r \<and> dl_payload r' = dl_payload r"

lemma letters_update:
  assumes "\<And>r. P r \<Longrightarrow> same_letter r (g r)"
  shows "tables_ok hx born s \<Longrightarrow> tables_ok hx born (s\<lparr>ig_letters := map (\<lambda>r. if P r then g r else r) (ig_letters s)\<rparr>)"
proof -
  have "letter_ok born (if P r then g r else r) = letter_ok born r" for r
    using assms [of r] by (auto simp: letter_ok_def letter_key_def carries_def same_letter_def split: option.split)
  then show "tables_ok hx born s \<Longrightarrow> tables_ok hx born (s\<lparr>ig_letters := map (\<lambda>r. if P r then g r else r) (ig_letters s)\<rparr>)"
    by (simp add: tables_ok_def list_all_iff del: if_image_distrib)
qed

lemma open_update:
  assumes "\<And>r. P r \<Longrightarrow> same_letter r (g r)" and "open_in k b s"
    and "\<And>r. r \<in> set (ig_letters s) \<Longrightarrow> P r \<Longrightarrow> open_letter k b r \<Longrightarrow> dl_redriven (g r) = dl_redriven r
       \<or> (\<exists>r' \<in> set (ig_letters s). open_letter k b r' \<and> \<not> P r')"
  shows "open_in k b (s\<lparr>ig_letters := map (\<lambda>r. if P r then g r else r) (ig_letters s)\<rparr>)"
proof -
  obtain r where r: "r \<in> set (ig_letters s)" "open_letter k b r"
    using assms(2) by (auto simp: open_in_def)
  have "\<exists>r' \<in> set (ig_letters s). open_letter k b (if P r' then g r' else r')"
  proof (cases "P r \<and> dl_redriven (g r) \<noteq> dl_redriven r")
    case True
    then show ?thesis
      using assms(3) [OF r(1) _ r(2)] by force
  next
    case False
    then have "open_letter k b (if P r then g r else r)"
      using r(2) assms(1) [of r] by (auto simp: open_letter_def same_letter_def split: option.splits)
    then show ?thesis
      using r(1) by blast
  qed
  then show ?thesis
    unfolding open_in_def by (auto simp del: if_image_distrib)
qed

lemma level_letters:
  assumes "\<And>r. P r \<Longrightarrow> same_letter r (g r)"
    and "\<And>r. r \<in> set (ig_letters s) \<Longrightarrow> P r \<Longrightarrow> open_letter (fst i) (snd i) r \<Longrightarrow> tables_ok hx born s \<Longrightarrow>
       noted_in (fst i) s \<or> live_in (fst i) s \<or> dl_redriven (g r) = dl_redriven r
       \<or> (\<exists>r' \<in> set (ig_letters s). open_letter (fst i) (snd i) r' \<and> \<not> P r')"
  shows "level hx born i s \<le> level hx born i (s\<lparr>ig_letters := map (\<lambda>r. if P r then g r else r) (ig_letters s)\<rparr>)"
proof (rule level_mono)
  let ?k = "fst i" and ?s = "s\<lparr>ig_letters := map (\<lambda>r. if P r then g r else r) (ig_letters s)\<rparr>"
  show "tables_ok hx born s \<Longrightarrow> tables_ok hx born ?s"
    by (rule letters_update [OF assms(1)])
  show "noted_in ?k s \<or> live_in ?k s \<Longrightarrow> noted_in ?k ?s \<or> live_in ?k ?s"
    "dispatched_in ?k ?s \<Longrightarrow> dispatched_in ?k s \<or> noted_in ?k ?s \<or> live_in ?k ?s"
    by simp_all
  assume ok: "tables_ok hx born s"
  show "open_in ?k (snd i) ?s \<or> noted_in ?k ?s \<or> live_in ?k ?s" if "open_in ?k (snd i) s"
    using open_update [OF assms(1) that] assms(2) ok by auto
  assume "pending_in ?k s"
  moreover from this have "\<not> dispatched_in ?k s"
    using ok by (auto simp: tables_ok_def dispatched_in_def pending_in_def distinct_map inj_on_def)
  ultimately show "pending_in ?k ?s \<and> \<not> dispatched_in ?k ?s \<or> open_in ?k None ?s \<and> \<not> dispatched_in ?k ?s \<or> noted_in ?k ?s \<or> live_in ?k ?s"
    by simp
qed

text \<open>Rows and jobs that are added, and deliveries whose end is noted.\<close>

lemma level_add_event:
  assumes "event_ok born e" "event_key e \<notin> event_key ` set (ig_events s)" "ev_state e = Some Pending"
  shows "level hx born i s \<le> level hx born i (s\<lparr>ig_events := ig_events s @ [e]\<rparr>)"
  using assms by (intro level_mono) (auto simp: tables_ok_def dispatched_in_def pending_in_def distinct_map inj_on_def)

lemma level_add_letter:
  assumes "letter_ok born r"
  shows "level hx born i s \<le> level hx born i (s\<lparr>ig_letters := ig_letters s @ [r]\<rparr>)"
  using assms by (intro level_mono) (auto simp: tables_ok_def open_in_def dispatched_in_def pending_in_def distinct_map inj_on_def)

lemma level_add_job:
  assumes "job_ok hx born j" "qj_state j \<noteq> Job_completed"
  shows "level hx born i s \<le> level hx born i (s\<lparr>ig_jobs := ig_jobs s @ [j]\<rparr>)"
  using assms by (intro level_mono) (auto simp: tables_ok_def live_in_def dispatched_in_def pending_in_def distinct_map inj_on_def)

lemma pending_not_dispatched: "tables_ok hx born s \<Longrightarrow> pending_in k s \<Longrightarrow> \<not> dispatched_in k s"
  by (auto simp: tables_ok_def dispatched_in_def pending_in_def distinct_map inj_on_def)

lemma noted_noted [simp]:
  "noted_in k (noted k' n s) \<longleftrightarrow> k = k' \<or> noted_in k s" "live_in k (noted k' n s) = live_in k s"
  "open_in k b (noted k' n s) = open_in k b s" "dispatched_in k (noted k' n s) = dispatched_in k s" "pending_in k (noted k' n s) = pending_in k s"
  by (auto simp: noted_def noted_in_def)

lemma tables_ok_noted: "tables_ok hx born s \<Longrightarrow> tables_ok hx born (noted k n s)"
  by (auto simp: tables_ok_def noted_def noted_in_def)

lemma level_noted: "level hx born i s \<le> level hx born i (noted k n s)"
  by (rule level_mono) (auto simp: tables_ok_noted pending_not_dispatched)

text \<open>The jobs of a lookup: found by its id, a job is of the delivery the id names.\<close>

lemma found_job:
  assumes "inj hx" "\<And>t. list_all is_hex (hx t)" "tables_ok hx born s" "key_ok k" "job_named hx born k i"
    and "find (\<lambda>j. qj_id j = i) (ig_jobs s) = Some j"
  shows "data_key (qj_data j) = k" "qj_state j \<noteq> Job_failed \<Longrightarrow> noted_in k s \<or> live_in k s"
proof -
  have j: "j \<in> set (ig_jobs s)" "qj_id j = i"
    using assms(6) by (auto simp: find_Some_iff)
  then have ok: "job_ok hx born j"
    using assms(3) by (auto simp: tables_ok_def list_all_iff)
  then show k: "data_key (qj_data j) = k"
    using job_named_inject [OF assms(1,2) _ assms(4) _ assms(5)] j(2) by (auto simp: job_ok_def)
  show "noted_in k s \<or> live_in k s" if "qj_state j \<noteq> Job_failed"
    using that j(1) k assms(3) by (cases "qj_state j") (auto simp: tables_ok_def live_in_def)
qed

section \<open>Under the others\<close>

lemma await_succeed [simp]: "await (succeed a) f = f a"
  by (simp add: fun_eq_iff await_def succeed_def)

lemma await_inspect: "await (inspect f) g s = g (f s) s"
  by (simp add: await_def inspect_def)

text \<open>Going on at a level that a result gives, of a thing that the result names.\<close>

lemma grades_await_at:
  assumes "\<And>s j. p \<le> lv i s \<Longrightarrow> lv j s \<le> lv j (snd (m s))"
    and "\<And>s a. p \<le> lv i s \<Longrightarrow> fst (m s) = Inr a \<Longrightarrow> Q a \<and> r a \<le> lv (k a) (snd (m s))"
    and "\<And>a. Q a \<Longrightarrow> grades lv (k a) (r a) (f a) (\<lambda>_. 0)"
  shows "grades lv i p (await m f) (\<lambda>_. 0)"
proof (rule gradesI)
  fix s j assume s: "p \<le> lv i s"
  obtain x s' where ms: "m s = (x, s')" by fastforce
  show "lv j s \<le> lv j (snd (await m f s))"
  proof (cases x)
    case (Inl e)
    then show ?thesis
      using assms(1) [OF s, of j] ms by (simp add: await_def)
  next
    case (Inr a)
    then have a: "Q a" "r a \<le> lv (k a) s'"
      using assms(2) [OF s, of a] ms by simp_all
    have "lv j s \<le> lv j s'"
      using assms(1) [OF s, of j] ms by simp
    also have "\<dots> \<le> lv j (snd (f a s'))"
      by (rule gradesD(1) [OF assms(3) [OF a(1)] a(2)])
    finally show ?thesis
      using ms Inr by (simp add: await_def)
  qed
qed simp

lemma grades_index:
  assumes "\<And>s. p \<le> lv i s \<Longrightarrow> p' \<le> lv k s" "grades lv k p' m q"
  shows "grades lv i p m (\<lambda>_. 0)"
  using assms unfolding grades_def by blast

definition reached :: "enqueue_outcome \<Rightarrow> nat" where
  "reached r = (case r of Dispatch_failed _ \<Rightarrow> 0 | _ \<Rightarrow> 5)"

text \<open>
  A scale that what the others do before a step does not lower, and that the count of steps does not matter to: each statement
  and each call of the queue keeps it when its own change does.
\<close>

locale graded_steps =
  fixes env :: "'x recovery_env_scheme" and lv :: "'i \<Rightarrow> ingress_state \<Rightarrow> nat"
  assumes others_raise: "lv i s \<le> lv i (meanwhile env n s)"
    and ticks_keep: "lv i (s\<lparr>ig_ticks := m\<rparr>) = lv i s"
begin

lemma others_reach: "p \<le> lv i s \<Longrightarrow> p \<le> lv i ((meanwhile env n s)\<lparr>ig_ticks := m\<rparr>)"
  using order_trans [OF _ others_raise [of i s n]] by (simp add: ticks_keep)

lemma grades_query:
  assumes "\<And>s j. p \<le> lv i s \<Longrightarrow> lv j s \<le> lv j (snd (f s))"
    and "\<And>s a. p \<le> lv i s \<Longrightarrow> fst (f s) = Inr a \<Longrightarrow> q a \<le> lv i (snd (f s))"
  shows "grades lv i p (query env f) q"
proof (rule gradesI)
  fix s assume p: "p \<le> lv i s"
  let ?s = "(meanwhile env (ig_ticks s) s)\<lparr>ig_ticks := Suc (ig_ticks s)\<rparr>"
  have p': "p \<le> lv i ?s"
    using others_reach p by blast
  show "lv j s \<le> lv j (snd (query env f s))" for j
    using others_raise [of j s "ig_ticks s"] assms(1) [OF p', of j] by (simp add: query_def Let_def ticks_keep)
  show "q a \<le> lv i (snd (query env f s))" if "fst (query env f s) = Inr a" for a
    using assms(2) [OF p', of a] that by (simp add: query_def Let_def split: if_splits)
qed

lemma grades_redis:
  assumes "\<And>s j. p \<le> lv i s \<Longrightarrow> lv j s \<le> lv j (snd (f s))"
    and "\<And>s a. p \<le> lv i s \<Longrightarrow> fst (f s) = Inr a \<Longrightarrow> q a \<le> lv i (snd (f s))"
  shows "grades lv i p (redis env f) q"
proof (rule gradesI)
  fix s assume p: "p \<le> lv i s"
  let ?s = "(meanwhile env (ig_ticks s) s)\<lparr>ig_ticks := Suc (ig_ticks s)\<rparr>"
  have p': "p \<le> lv i ?s"
    using others_reach p by blast
  show "lv j s \<le> lv j (snd (redis env f s))" for j
    using others_raise [of j s "ig_ticks s"] assms(1) [OF p', of j] by (simp add: redis_def Let_def ticks_keep)
  show "q a \<le> lv i (snd (redis env f s))" if "fst (redis env f s) = Inr a" for a
    using assms(2) [OF p', of a] that by (simp add: redis_def Let_def split: if_splits)
qed

lemma grades_outside:
  assumes "\<And>n s j. p \<le> lv i s \<Longrightarrow> lv j s \<le> lv j (snd (f n s))"
    and "\<And>n s a. p \<le> lv i s \<Longrightarrow> fst (f n s) = Inr a \<Longrightarrow> q a \<le> lv i (snd (f n s))"
  shows "grades lv i p (outside env f) q"
proof (rule gradesI)
  fix s assume p: "p \<le> lv i s"
  let ?s = "(meanwhile env (ig_ticks s) s)\<lparr>ig_ticks := Suc (ig_ticks s)\<rparr>"
  have p': "p \<le> lv i ?s"
    using others_reach p by blast
  show "lv j s \<le> lv j (snd (outside env f s))" for j
    using others_raise [of j s "ig_ticks s"] assms(1) [OF p', where j = j] by (simp add: outside_def Let_def ticks_keep) (meson order_trans)
  show "q a \<le> lv i (snd (outside env f s))" if "fst (outside env f s) = Inr a" for a
    using assms(2) [OF p'] that by (simp add: outside_def Let_def ticks_keep)
qed

lemma grades_look: "(\<And>s. snd (f s) = s) \<Longrightarrow> grades lv i p (query env f) (\<lambda>_. 0)"
  by (rule grades_query) simp_all

lemma grades_aborted: "grades lv i p (aborted env) (\<lambda>_. 0)" and grades_time: "grades lv i p (current_time env) (\<lambda>_. 0)"
  unfolding aborted_def current_time_def by (simp_all add: grades_inspect)

end

locale ingress_company =
  fixes env :: "'x recovery_env_scheme" and born :: "string \<Rightarrow> delivery_key"
  assumes inj_ids: "inj (hex40 env)"
    and hex_ids: "list_all is_hex (hex40 env t)"
    and minted: "born (mint env n k) = k"
    and others_keep: "level (hex40 env) born i s \<le> level (hex40 env) born i (meanwhile env n s)"
begin

abbreviation lv :: "delivery_key \<times> string option \<Rightarrow> ingress_state \<Rightarrow> nat" where
  "lv \<equiv> level (hex40 env) born"

abbreviation ok :: "ingress_state \<Rightarrow> bool" where
  "ok \<equiv> tables_ok (hex40 env) born"

end

sublocale ingress_company \<subseteq> graded_steps env "level (hex40 env) born"
  by unfold_locales (simp_all add: others_keep)

context ingress_company
begin

lemma grades_events:
  assumes "\<And>e. event_ok born e \<Longrightarrow> P e \<Longrightarrow> event_key (g e) = event_key e \<and> te_id (g e) = te_id e"
    and "\<And>s e. p \<le> lv i s \<Longrightarrow> ok s \<Longrightarrow> e \<in> set (ig_events s) \<Longrightarrow> event_ok born e \<Longrightarrow> P e \<Longrightarrow>
       noted_in (event_key e) s \<or> live_in (event_key e) s
       \<or> ev_state (g e) = ev_state e \<and> ev_payload (g e) = ev_payload e
       \<or> ev_state (g e) \<noteq> Some Dispatched \<and> open_in (event_key e) None s \<and> \<not> dispatched_in (event_key e) s"
  shows "grades lv i p (query env (change_events P g)) (\<lambda>_. 0)"
proof (rule grades_query)
  fix s j assume p: "p \<le> lv i s"
  show "lv j s \<le> lv j (snd (change_events P g s))"
  proof (cases "ok s")
    case True
    then have e: "event_ok born e" if "e \<in> set (ig_events s)" for e
      using that by (auto simp: tables_ok_def list_all_iff)
    show ?thesis
      unfolding change_events_def snd_conv
    proof (rule level_events)
      fix e assume a: "e \<in> set (ig_events s)" "P e"
      show "event_key (g e) = event_key e \<and> te_id (g e) = te_id e"
        by (rule assms(1) [OF e [OF a(1)] a(2)])
      assume k: "event_key e = fst j"
      show "noted_in (fst j) s \<or> live_in (fst j) s \<or> ev_state (g e) = ev_state e \<and> ev_payload (g e) = ev_payload e
          \<or> ev_state (g e) \<noteq> Some Dispatched \<and> open_in (fst j) None s \<and> \<not> dispatched_in (fst j) s"
        using assms(2) [OF p True a(1) e [OF a(1)] a(2)] unfolding k .
    qed
  qed (simp add: level_def)
qed simp

lemma grades_letters:
  assumes "\<And>r. P r \<Longrightarrow> same_letter r (g r)"
    and "\<And>s r k b. p \<le> lv i s \<Longrightarrow> ok s \<Longrightarrow> r \<in> set (ig_letters s) \<Longrightarrow> letter_ok born r \<Longrightarrow> P r \<Longrightarrow> open_letter k b r \<Longrightarrow>
       noted_in k s \<or> live_in k s \<or> dl_redriven (g r) = dl_redriven r \<or> (\<exists>r' \<in> set (ig_letters s). open_letter k b r' \<and> \<not> P r')"
  shows "grades lv i p (query env (change_letters P g)) (\<lambda>_. 0)"
proof (rule grades_query)
  fix s j assume p: "p \<le> lv i s"
  show "lv j s \<le> lv j (snd (change_letters P g s))"
  proof (cases "ok s")
    case True
    then have r: "letter_ok born r" if "r \<in> set (ig_letters s)" for r
      using that by (auto simp: tables_ok_def list_all_iff)
    show ?thesis
      unfolding change_letters_def snd_conv by (rule level_letters [OF assms(1)]) (use assms(2) [OF p True _ r] in blast)+
  qed (simp add: level_def)
qed simp

lemma grades_retire_open: "grades lv (k, c) 5 (retireOpenDeadLetters env k) (\<lambda>_. 0)"
  unfolding retireOpenDeadLetters_def
proof (rule grades_letters)
  fix s r k' b
  assume "5 \<le> lv (k, c) s" "open_letter k None r" "open_letter k' b r"
  then have "k' = k" "noted_in k s \<or> live_in k s"
    by (simp_all add: open_letter_def prod_eq_iff level_ge(2))
  then show "noted_in k' s \<or> live_in k' s \<or> dl_redriven (r\<lparr>dl_redriven := True\<rparr>) = dl_redriven r
      \<or> (\<exists>r' \<in> set (ig_letters s). open_letter k' b r' \<and> \<not> open_letter k None r')"
    by blast
qed (simp add: same_letter_def)

lemma grades_count_open: "grades lv (k, None) p (count_open env k None) (\<lambda>n. if 0 < n \<and> 3 \<le> p then 4 else 0)"
  unfolding count_open_def
proof (rule grades_query)
  fix s a
  assume p: "p \<le> lv (k, None) s" and a: "fst (Inr (length (filter (open_letter k None) (ig_letters s))), s) = Inr a"
  have "open_in k None s" if "0 < a"
    using a that by (auto simp: open_in_def filter_empty_conv)
  moreover have "3 \<le> lv (k, None) s" if "3 \<le> p"
    using p that by simp
  ultimately show "(if 0 < a \<and> 3 \<le> p then 4 else 0) \<le> lv (k, None) (snd (Inr (length (filter (open_letter k None) (ig_letters s))), s))"
    by (auto simp: level_ge(3,5))
qed simp

lemma grades_count_below: "grades lv (k, Some w) 1 (count_open env k (Some w)) (\<lambda>n. if 0 < n then 4 else 0)"
  unfolding count_open_def
  by (rule grades_query) (auto simp: level_ge(1,4) open_in_def filter_empty_conv)

lemma letter_of_ok:
  assumes "key_ok (data_key d)" "jd_payload d \<noteq> None"
  shows "letter_ok born (letter_of env n d a e)" "open_letter (data_key d) None (letter_of env n d a e)" "born (dl_id (letter_of env n d a e)) = data_key d"
  using assms by (auto simp: letter_ok_def letter_key_def letter_of_def carries_def open_letter_def data_key_def minted)

lemma grades_save_letter:
  assumes "key_ok (data_key d)" "jd_payload d \<noteq> None"
  shows "grades lv (data_key d, None) p (save_letter env d a e) (\<lambda>_. if 3 \<le> p then 4 else if 1 \<le> p then 2 else 0)"
  unfolding save_letter_def Let_def
proof (rule grades_query)
  fix s :: ingress_state and x
  let ?r = "letter_of env (ig_ticks s) d a e" and ?k = "data_key d"
  let ?s = "s\<lparr>ig_letters := ig_letters s @ [?r]\<rparr>"
  assume p: "p \<le> lv (?k, None) s"
  have up: "lv j s \<le> lv j ?s" for j
    by (rule level_add_letter [OF letter_of_ok(1) [OF assms]])
  have op: "open_in ?k None ?s"
    using letter_of_ok(2) [OF assms] by (simp add: open_in_def)
  have "ok ?s" if "1 \<le> p"
    using order_trans [OF that p] level_keeps_ok [OF up [of "(?k, None)"]] by simp
  moreover have "3 \<le> lv (?k, None) s" if "3 \<le> p"
    using p that by simp
  ultimately show "(if 3 \<le> p then 4 else if 1 \<le> p then 2 else 0) \<le> lv (?k, None) (snd (Inr (dl_id ?r), ?s))"
    using op by (auto simp: level_ge(3,5,6) dest: pending_not_dispatched)
next
  fix s :: ingress_state and j
  show "lv j s \<le> lv j (snd (Inr (dl_id (letter_of env (ig_ticks s) d a e)), s\<lparr>ig_letters := ig_letters s @ [letter_of env (ig_ticks s) d a e]\<rparr>))"
    using level_add_letter [OF letter_of_ok(1) [OF assms]] by simp
qed

lemma yields_save_letter: "yields (save_letter env d a e) (\<lambda>w. born w = data_key d)"
  by (auto simp: yields_def save_letter_def query_def Let_def letter_of_def minted split: if_splits)

lemma grades_ensure:
  assumes "key_ok (data_key d)" "jd_payload d \<noteq> None"
  shows "grades lv (data_key d, None) 3 (ensureDeadLetterRow env d a e) (\<lambda>_. 4)"
  unfolding ensureDeadLetterRow_def
  by (intro grades_await [OF grades_count_open] grades_if grades_succeed grades_await [OF grades_save_letter [OF assms]]) auto

lemma yields_ensure: "yields (ensureDeadLetterRow env d a e) (\<lambda>w. case w of None \<Rightarrow> True | Some x \<Rightarrow> born x = data_key d)"
proof -
  have "yields (if 0 < n then succeed None else await (save_letter env d a e) (\<lambda>i. succeed (Some i)))
      (\<lambda>w. case w of None \<Rightarrow> True | Some x \<Rightarrow> born x = data_key d)" for n :: nat
    by (auto intro!: yields_succeed yields_await [OF yields_save_letter])
  then show ?thesis
    unfolding ensureDeadLetterRow_def by (intro yields_await [OF yields_trivial])
qed

lemma row_of: "event_ok born row \<Longrightarrow> event_ok born e \<Longrightarrow> te_id e = te_id row \<Longrightarrow> event_key e = event_key row"
  by (simp add: event_ok_def)

lemma key_updates [simp]:
  "event_key (e\<lparr>ev_state := st\<rparr>) = event_key e" "event_key (e\<lparr>ev_payload := pl\<rparr>) = event_key e"
  "event_key (x\<lparr>te_last := t\<rparr>) = event_key x" "event_key (x\<lparr>te_attempts := n\<rparr>) = event_key x"
  by (simp_all add: event_key_def)

lemma grades_bookkeeping:
  assumes "\<And>e. event_key (g e) = event_key e \<and> te_id (g e) = te_id e \<and> ev_state (g e) = ev_state e \<and> ev_payload (g e) = ev_payload e"
  shows "grades lv i p (query env (change_events P g)) (\<lambda>_. 0)"
  using assms by (intro grades_events) simp_all

text \<open>At 5 an event may be marked in any way, at 4 as failed.\<close>

lemma grades_mark:
  assumes "\<And>e. event_ok born e \<Longrightarrow> P e \<Longrightarrow> event_key e = k" "\<And>e. event_key (g e) = event_key e \<and> te_id (g e) = te_id e"
  shows "grades lv (k, c) 5 (query env (change_events P g)) (\<lambda>_. 0)"
  using assms by (intro grades_events) (auto simp: level_ge(2))

lemma grades_mark_failed:
  assumes "event_ok born row" "\<And>e. event_key (g e) = event_key e \<and> te_id (g e) = te_id e \<and> ev_state (g e) = Some Failed"
  shows "grades lv (event_key row, None) 4 (mark_pending env (te_id row) g) (\<lambda>_. 0)"
  unfolding mark_pending_def
proof (rule grades_events)
  fix s e assume "4 \<le> lv (event_key row, None) s" "event_ok born e" "te_id e = te_id row \<and> ev_state e = Some Pending"
  then show "noted_in (event_key e) s \<or> live_in (event_key e) s \<or> ev_state (g e) = ev_state e \<and> ev_payload (g e) = ev_payload e
      \<or> ev_state (g e) \<noteq> Some Dispatched \<and> open_in (event_key e) None s \<and> \<not> dispatched_in (event_key e) s"
    using row_of [OF assms(1)] assms(2) by (auto simp: level_ge(3))
qed (use assms in blast)

lemma grades_read_state:
  assumes "event_ok born row"
  shows "grades lv (event_key row, None) 3 (read_state env (te_id row)) (\<lambda>st. if st = Some Dispatched then 5 else 0)"
  unfolding read_state_def
proof (rule grades_query)
  fix s :: ingress_state and a
  let ?x = "find (\<lambda>e. te_id e = te_id row) (ig_events s)"
  assume l: "3 \<le> lv (event_key row, None) s" and a: "fst (Inr (case ?x of None \<Rightarrow> None | Some e \<Rightarrow> ev_state e), s) = Inr a"
  have "5 \<le> lv (event_key row, None) s" if "a = Some Dispatched"
  proof -
    obtain e where e: "?x = Some e" "ev_state e = Some Dispatched"
      using a \<open>a = Some Dispatched\<close> by (auto split: option.splits)
    then have "e \<in> set (ig_events s)" "te_id e = te_id row"
      by (auto simp: find_Some_iff)
    moreover have "ok s"
      using l by (simp add: level_ge(5))
    ultimately have "dispatched_in (event_key row) s"
      using e(2) row_of [OF assms] by (auto simp: dispatched_in_def tables_ok_def list_all_iff)
    then show ?thesis
      using l \<open>ok s\<close> by (auto simp: level_ge(2,5) dest: pending_not_dispatched)
  qed
  then show "(if a = Some Dispatched then 5 else 0) \<le> lv (event_key row, None) (snd (Inr (case ?x of None \<Rightarrow> None | Some e \<Rightarrow> ev_state e), s))"
    by simp
qed simp

lemma grades_retire_written:
  assumes "born w = k" "b = Some w \<and> p = 4 \<or> p = 5"
  shows "grades lv (k, b) p (query env (change_letters (\<lambda>r. dl_id r = w \<and> \<not> dl_redriven r) (\<lambda>r. r\<lparr>dl_redriven := True\<rparr>))) (\<lambda>_. 0)"
proof (rule grades_letters)
  fix s r k' b'
  assume a: "p \<le> lv (k, b) s" "letter_ok born r" "dl_id r = w \<and> \<not> dl_redriven r" "open_letter k' b' r"
  have k: "k' = k"
    using a(2-4) assms(1) by (auto simp: letter_ok_def letter_key_def open_letter_def prod_eq_iff)
  consider "noted_in k s \<or> live_in k s" | r' where "r' \<in> set (ig_letters s)" "open_letter k (Some w) r'"
    using a(1) assms(2) by (auto simp: level_ge(2,4) open_in_def)
  then show "noted_in k' s \<or> live_in k' s \<or> dl_redriven (r\<lparr>dl_redriven := True\<rparr>) = dl_redriven r
      \<or> (\<exists>r' \<in> set (ig_letters s). open_letter k' b' r' \<and> \<not> (dl_id r' = w \<and> \<not> dl_redriven r'))"
  proof cases
    case 2
    then have "open_letter k b' r'"
      using a(3,4) by (auto simp: open_letter_def split: option.splits)
    moreover have "dl_id r' \<noteq> w"
      using 2(2) by (auto simp: open_letter_def)
    ultimately show ?thesis
      using 2(1) k by blast
  qed (auto simp: k)
qed (simp add: same_letter_def)

lemma grades_settle:
  assumes row: "event_ok born row" and w: "case written of None \<Rightarrow> True | Some x \<Rightarrow> born x = event_key row"
  shows "grades lv (event_key row, None) 4 (settleDeadLetter env row written marked) (\<lambda>_. 0)"
proof -
  let ?k = "event_key row"
  let ?retire = "\<lambda>retire. if retire then query env (change_letters (\<lambda>r. dl_id r = the written \<and> \<not> dl_redriven r) (\<lambda>r. r\<lparr>dl_redriven := True\<rparr>)) else succeed 0"
  have read: "grades lv (?k, None) 4 (if 0 < marked then succeed (Some Failed) else read_state env (te_id row)) (\<lambda>st. if st = Some Dispatched then 5 else 0)"
    by (intro grades_if grades_succeed grades_weaken [OF grades_read_state [OF row]]) auto
  have five: "grades lv (?k, None) (max 4 5) (await (succeed True) (\<lambda>retire. await (?retire retire) (\<lambda>_. succeed st))) (\<lambda>_. 0)"
    if "written = Some x" for x and st :: "dispatch_state option"
    using w that by (auto intro!: grades_await [OF grades_retire_written] grades_succeed)
  have four: "grades lv (?k, None) 1 (await (await (count_open env ?k (Some x)) (\<lambda>open. succeed (0 < open))) (\<lambda>retire. await (?retire retire) (\<lambda>_. succeed st))) (\<lambda>_. 0)"
    if "written = Some x" for x and st :: "dispatch_state option"
  proof (rule grades_index [where k = "(?k, Some x)" and p' = 1])
    have c: "grades lv (?k, Some x) 1 (await (count_open env ?k (Some x)) (\<lambda>open. succeed (0 < open))) (\<lambda>b. if b then 4 else 0)"
      by (intro grades_await [OF grades_count_below] grades_succeed) auto
    have r: "grades lv (?k, Some x) (max 1 (if b then 4 else 0)) (?retire b) (\<lambda>_. 0)" for b
      using w that by (auto intro!: grades_succeed grades_retire_written)
    show "grades lv (?k, Some x) 1 (await (await (count_open env ?k (Some x)) (\<lambda>open. succeed (0 < open))) (\<lambda>retire. await (?retire retire) (\<lambda>_. succeed st))) (\<lambda>_. 0)"
      by (intro grades_await [OF c] grades_await [OF r] grades_succeed) simp
  qed simp
  have rest: "grades lv (?k, None) (max 4 (if st = Some Dispatched then 5 else 0))
      (await (case written of
                None \<Rightarrow> succeed False
              | Some w \<Rightarrow>
                  if st = Some Dispatched then succeed True
                  else if st = Some Failed then await (count_open env ?k (Some w)) (\<lambda>open. succeed (0 < open))
                  else succeed False) (\<lambda>retire. await (?retire retire) (\<lambda>_. succeed st))) (\<lambda>_. 0)" for st
  proof (cases written)
    case None
    then show ?thesis
      by (auto intro!: grades_succeed)
  next
    case (Some x)
    consider "st = Some Dispatched" | "st = Some Failed" | "st \<noteq> Some Dispatched" "st \<noteq> Some Failed"
      by blast
    then show ?thesis
    proof cases
      case 1
      then show ?thesis
        using five [OF Some] Some by simp
    next
      case 2
      then show ?thesis
        using grades_weaken [OF four [OF Some], of "max 4 0" "\<lambda>_. 0"] Some by simp
    next
      case 3
      then show ?thesis
        using Some by (auto intro!: grades_succeed)
    qed
  qed
  show ?thesis
    unfolding settleDeadLetter_def by (intro grades_await [OF read] rest)
qed

lemma named_self: "job_named (hex40 env) born (data_key d) (queueJobId env d (jd_delivery d))"
  by (auto simp: job_named_def names_def queueJobId_base copies_def data_key_def)

lemma named_copy:
  assumes "job_named hx born k i" "\<And>t. list_all is_hex (hx t)"
  shows "job_named hx born k (fst (requeuedJobIds (base_id i)))" "job_named hx born k (snd (requeuedJobIds (base_id i)))"
proof -
  obtain raw where raw: "raw \<in> names born k" "i \<in> copies (base_job_id hx (fst k) (fst (snd k)) raw)"
    using assms(1) by (auto simp: job_named_def)
  then have "base_id i = base_job_id hx (fst k) (fst (snd k)) raw"
    using base_id_copies assms(2) by blast
  then show "job_named hx born k (fst (requeuedJobIds (base_id i)))" "job_named hx born k (snd (requeuedJobIds (base_id i)))"
    using raw(1) by (auto simp: job_named_def requeuedJobIds_def copies_def)
qed

lemma base_queueJobId: "base_id (queueJobId env d raw) = queueJobId env d raw"
  unfolding queueJobId_base using base_id_copies [of "hex40 env"] hex_ids by (simp add: copies_def)

lemma grades_getJobState:
  assumes "key_ok k" "job_named (hex40 env) born k i"
  shows "grades lv (k, c) 1 (getJobState env i) (\<lambda>st. if live_or_completed st then 5 else 0)"
  unfolding getJobState_def
proof (rule grades_redis)
  fix s :: ingress_state and a
  let ?x = "find (\<lambda>j. qj_id j = i) (ig_jobs s)"
  assume l: "1 \<le> lv (k, c) s" and a: "fst (Inr (map_option qj_state ?x), s) = Inr a"
  have "5 \<le> lv (k, c) s" if live: "live_or_completed a"
  proof -
    obtain j where "?x = Some j" "qj_state j \<noteq> Job_failed"
      using a live by (auto simp: live_or_completed_def)
    then show ?thesis
      using found_job(2) [OF inj_ids hex_ids _ assms, of s j] l by (simp add: level_ge(1,2))
  qed
  then show "(if live_or_completed a then 5 else 0) \<le> lv (k, c) (snd (Inr (map_option qj_state ?x), s))"
    by simp
qed simp

lemma grades_existing:
  assumes "key_ok (data_key d)"
  shows "grades lv (data_key d, c) 1 (existingJobState env d (jd_delivery d)) (\<lambda>st. if live_or_completed st then 5 else 0)"
proof -
  let ?i = "queueJobId env d (jd_delivery d)" and ?k = "data_key d"
  have first: "1 \<le> p \<Longrightarrow> grades lv (?k, c) p (getJobState env (fst (requeuedJobIds ?i))) (\<lambda>st. if live_or_completed st then 5 else 0)"
    and second: "1 \<le> p \<Longrightarrow> grades lv (?k, c) p (getJobState env (snd (requeuedJobIds ?i))) (\<lambda>st. if live_or_completed st then 5 else 0)" for p
    using named_copy [OF named_self [of d] hex_ids] unfolding base_queueJobId
    by (auto intro!: grades_weaken [OF grades_getJobState [OF assms]])
  have none: "\<not> live_or_completed None"
    by (simp add: live_or_completed_def)
  show ?thesis
    unfolding existingJobState_def Let_def case_prod_unfold
    by (intro grades_if grades_succeed grades_recover grades_await [OF grades_getJobState [OF assms named_self]]
        grades_await [OF first] grades_await [OF second]) (auto simp: none)
qed

lemma grades_add:
  assumes "key_ok (data_key d)" "jd_payload d \<noteq> None" "job_named (hex40 env) born (data_key d) i" "st \<notin> {Job_completed, Job_failed}"
  shows "grades lv (data_key d, c) 1 (queue_add env i d a st) (\<lambda>_. 5)"
  unfolding queue_add_def
proof (rule grades_redis)
  fix s :: ingress_state
  let ?j = "\<lparr>qj_id = i, qj_data = d, qj_state = st, qj_made = 0, qj_attempts = a\<rparr>"
  let ?f = "case find (\<lambda>j. qj_id j = i) (ig_jobs s) of
      Some j \<Rightarrow> (Inr (), if qj_state j = Job_failed then noted (data_key d) Swallowed_by_failed_job s else s)
    | None \<Rightarrow> (Inr () :: recovery_error + unit, s\<lparr>ig_jobs := ig_jobs s @ [?j]\<rparr>)"
  assume "1 \<le> lv (data_key d, c) s"
  then have t: "ok s"
    by simp
  have j: "job_ok (hex40 env) born ?j" "qj_state ?j \<noteq> Job_completed"
    using assms by (auto simp: job_ok_def)
  show up: "lv j s \<le> lv j (snd ?f)" for j
    using level_add_job [OF j] level_noted by (auto split: option.split)
  have "ok (snd ?f)"
    by (rule level_keeps_ok [OF up t])
  moreover have "noted_in (data_key d) (snd ?f) \<or> live_in (data_key d) (snd ?f)"
    using found_job(2) [OF inj_ids hex_ids t assms(1,3)] assms(4) by (auto simp: live_in_def split: option.split)
  ultimately show "5 \<le> lv (data_key d, c) (snd ?f)"
    by (simp add: level_ge(2))
qed

lemma grades_inline: "1 \<le> p \<Longrightarrow> grades lv (data_key d, c) p (dispatch_inline env d) reached"
  unfolding dispatch_inline_def
proof (rule grades_outside)
  fix n s x
  let ?f = "case dispatch_result env n d of
      None \<Rightarrow> (Inr Dispatched_inline :: recovery_error + enqueue_outcome, noted (data_key d) Taken_by_plugin s)
    | Some error \<Rightarrow> (Inr (Dispatch_failed error), s)"
  assume p: "1 \<le> p" "p \<le> lv (data_key d, c) s" and x: "fst ?f = Inr x"
  have "ok s"
    using order_trans [OF p] by simp
  then show "reached x \<le> lv (data_key d, c) (snd ?f)"
    using x by (auto simp: reached_def level_ge(2) tables_ok_noted split: option.splits)
qed (simp add: level_noted split: option.split)

lemma named_raw: "raw \<in> names born (data_key d) \<Longrightarrow> job_named (hex40 env) born (data_key d) (queueJobId env d raw)"
  by (auto simp: job_named_def queueJobId_base copies_def data_key_def)

lemma grades_enqueue:
  assumes "key_ok (data_key d)" "jd_payload d \<noteq> None" "raw \<in> names born (data_key d)" "1 \<le> p"
  shows "grades lv (data_key d, c) p (enqueue env d raw signal) reached"
proof -
  have "grades lv (data_key d, c) p (trying (queue_add env (queueJobId env d raw) d (Some (job_attempts env)) Job_waiting))
      (\<lambda>r. case r of Inl e \<Rightarrow> p | Inr _ \<Rightarrow> 5)"
    by (rule grades_trying, rule grades_weaken [OF grades_add [OF assms(1,2) named_raw [OF assms(3)]] assms(4)]) auto
  then show ?thesis
    unfolding enqueue_def using assms(4)
    by (intro grades_if grades_await [where r = "\<lambda>r. case r of Inl e \<Rightarrow> p | Inr _ \<Rightarrow> 5"] grades_case_sum grades_succeed
        grades_await [OF grades_aborted] grades_throw grades_inline) (auto simp: reached_def)
qed

lemma event_data: "data_key (jobDataFor env row) = event_key row" "jd_payload (jobDataFor env row) \<noteq> None" "jd_delivery (jobDataFor env row) = ev_delivery row"
  by (simp_all add: data_key_def jobDataFor_def event_key_def Let_def)

lemma names_self: "ev_delivery row \<in> names born (event_key row)"
  by (simp add: names_def event_key_def)

lemma grades_elsewhere:
  assumes "event_ok born row" "case written of None \<Rightarrow> True | Some x \<Rightarrow> born x = event_key row"
  shows "grades lv (event_key row, None) 4 (settledElsewhere env row written marked) (\<lambda>_. 0)"
  unfolding settledElsewhere_def
  by (intro grades_await [OF grades_settle [OF assms]] grades_if grades_succeed
      grades_await [OF grades_weaken [OF grades_count_open, where q' = "\<lambda>_. 0"]]) auto

lemma grades_dead_letter_row:
  assumes row: "event_ok born row"
    and g: "\<And>e. event_key (g e) = event_key e \<and> te_id (g e) = te_id e \<and> ev_state (g e) = ev_state e"
  shows "grades lv (event_key row, None) 3 (dead_letter_row env row a e g) (\<lambda>_. 0)"
proof -
  have ko: "key_ok (event_key row)"
    using row by (simp add: event_ok_def)
  have ensure: "grades lv (event_key row, None) 3 (ensureDeadLetterRow env (jobDataFor env row) a e) (\<lambda>_. 4)"
    using grades_ensure [of "jobDataFor env row" a e] ko unfolding event_data(1) by (simp add: event_data)
  have mark: "grades lv (event_key row, None) 4 (mark_pending env (te_id row) (\<lambda>e. g (e\<lparr>ev_state := Some Failed, ev_payload := None\<rparr>))) (\<lambda>_. 0)"
    using g by (intro grades_mark_failed [OF row]) simp
  have "grades lv (event_key row, None) (max 3 4) (await (mark_pending env (te_id row) (\<lambda>e. g (e\<lparr>ev_state := Some Failed, ev_payload := None\<rparr>))) (\<lambda>marked.
      await (settledElsewhere env row written marked) (\<lambda>elsewhere. succeed (if elsewhere then Replayed else Row_failed)))) (\<lambda>_. 0)"
    if "case written of None \<Rightarrow> True | Some x \<Rightarrow> born x = event_key row" for written
    using grades_elsewhere [OF row that] mark by (auto intro!: grades_await [OF mark] grades_await [OF grades_elsewhere [OF row that]] grades_succeed)
  then show ?thesis
    unfolding dead_letter_row_def
    by (intro grades_await_where [OF ensure yields_ensure, unfolded event_data(1)]) auto
qed

lemma grades_reconcileRow:
  assumes row: "event_ok born row"
  shows "grades lv (event_key row, None) 3 (reconcileRow env row maxAttempts now) (\<lambda>_. 0)"
proof -
  let ?i = "(event_key row, None)" and ?d = "jobDataFor env row"
  have ko: "key_ok (data_key ?d)"
    using row by (simp add: event_ok_def event_data)
  have existing: "grades lv ?i 3 (existingJobState env ?d (ev_delivery row)) (\<lambda>st. if live_or_completed st then 5 else 0)"
    using grades_weaken [OF grades_existing [OF ko, of None], of 3] by (simp add: event_data)
  have enq: "grades lv ?i 3 (trying (enqueue env ?d (ev_delivery row) True)) (\<lambda>r. case r of Inl e \<Rightarrow> 3 | Inr x \<Rightarrow> reached x)"
    using grades_trying [OF grades_enqueue [OF ko event_data(2), of "ev_delivery row" 3 None True]] names_self [of row]
    by (simp add: event_data)
  have dead: "grades lv ?i p (dead_letter_row env row a e g) (\<lambda>_. 0)"
    if "3 \<le> p" "\<And>e. event_key (g e) = event_key e \<and> te_id (g e) = te_id e \<and> ev_state (g e) = ev_state e" for p a e g
    by (rule grades_weaken [OF grades_dead_letter_row [OF row that(2)] that(1)]) simp
  have settle: "grades lv ?i p (await (query env (change_events (\<lambda>e. te_id e = te_id row)
        (\<lambda>e. e\<lparr>ev_state := Some Dispatched, te_last := Some now, ev_payload := None\<rparr>))) (\<lambda>_.
      await (retireOpenDeadLetters env (event_key row)) (\<lambda>_. succeed Replayed))) (\<lambda>_. 0)" if "5 \<le> p" for p
    using that row_of [OF row]
    by (intro grades_await [OF grades_weaken [OF grades_mark, where q' = "\<lambda>_. 0"]]
        grades_await [OF grades_weaken [OF grades_retire_open, where q' = "\<lambda>_. 0"]] grades_succeed) auto
  have count: "grades lv ?i p (await (query env (change_events (\<lambda>e. te_id e = te_id row) (\<lambda>e. e\<lparr>te_attempts := n, te_last := Some now\<rparr>))) (\<lambda>_. succeed Row_failed)) (\<lambda>_. 0)" for p n
    by (intro grades_await [OF grades_bookkeeping] grades_succeed) simp_all
  have after: "grades lv ?i (max 3 (case r of Inl e \<Rightarrow> 3 | Inr x \<Rightarrow> reached x))
      (case r of
         Inl e \<Rightarrow> await (aborted env) (\<lambda>stop. if stop then succeed Interrupted else throw e)
       | Inr (Dispatch_failed error) \<Rightarrow>
           await (aborted env) (\<lambda>stop.
             if stop then succeed Interrupted
             else let attempts = te_attempts row + 1
               in if maxAttempts \<le> attempts then
                    dead_letter_row env row (int attempts) error (\<lambda>e. e\<lparr>te_attempts := attempts, te_last := Some now\<rparr>)
                  else await (query env (change_events (\<lambda>e. te_id e = te_id row)
                                (\<lambda>e. e\<lparr>te_attempts := attempts, te_last := Some now\<rparr>))) (\<lambda>_. succeed Row_failed))
       | Inr _ \<Rightarrow>
           await (query env (change_events (\<lambda>e. te_id e = te_id row)
                    (\<lambda>e. e\<lparr>ev_state := Some Dispatched, te_last := Some now, ev_payload := None\<rparr>))) (\<lambda>_.
           await (retireOpenDeadLetters env (event_key row)) (\<lambda>_. succeed Replayed))) (\<lambda>_. 0)" for r
  proof (cases r)
    case (Inl e)
    then show ?thesis
      by (auto intro!: grades_await [OF grades_aborted] grades_succeed grades_throw)
  next
    case (Inr x)
    then show ?thesis
    proof (cases x)
      case (Dispatch_failed error)
      then show ?thesis
        using Inr by (auto intro!: grades_await [OF grades_aborted] grades_succeed dead count simp: Let_def reached_def)
    qed (use Inr in \<open>auto intro!: settle simp: reached_def\<close>)
  qed
  show ?thesis
    unfolding reconcileRow_def Let_def [of ?d]
  proof (intro grades_await [OF existing] grades_await [OF grades_aborted] grades_if grades_succeed, goal_cases)
    case (2 st stop)
    then show ?case
      by (intro dead) auto
  next
    case (3 st stop)
    have "grades lv ?i (max (max 3 (if live_or_completed st then 5 else 0)) 0)
        (if st \<noteq> None then succeed (Inr Queued) else trying (enqueue env ?d (ev_delivery row) True)) (\<lambda>r. case r of Inl e \<Rightarrow> 3 | Inr x \<Rightarrow> reached x)"
      using 3 by (auto intro!: grades_succeed grades_weaken [OF enq] simp: reached_def live_or_completed_def split: sum.split)
    then show ?case
      by (rule grades_await) (rule grades_weaken [OF after], auto)
  qed simp_all
qed

text \<open>A row that was read: it is in order, and when it is pending with its payload its delivery stands at 3.\<close>

definition replayable_row :: "tracked_event \<Rightarrow> bool" where
  "replayable_row row \<longleftrightarrow> ev_state row = Some Pending \<and> ev_payload row \<noteq> None"

lemma pending_level:
  assumes "ok s" "row \<in> set (ig_events s)" "replayable_row row"
  shows "3 \<le> lv (event_key row, None) s"
proof -
  have "pending_in (event_key row) s"
    using assms(2,3) by (auto simp: pending_in_def replayable_row_def)
  then show ?thesis
    using assms(1) pending_not_dispatched by (auto simp: level_ge(5))
qed

lemma grades_read_event: "grades lv i p (read_event env x) (\<lambda>_. 0)"
  unfolding read_event_def by (rule grades_look) (simp split: option.split)

lemma read_event_row:
  assumes "1 \<le> lv i s" "read_event env x s = (Inr (Some row), s')"
  shows "event_ok born row \<and> (if replayable_row row then 3 else 1) \<le> lv (event_key row, None) s'"
proof -
  have "lv i s \<le> lv i s'"
    using gradesD(1) [OF grades_read_event assms(1), of i x] assms(2) by simp
  then have "ok s'"
    using level_keeps_ok assms(1) by (simp only: level_ge(1))
  moreover have row: "row \<in> set (ig_events s')"
    using assms(2) by (auto simp: read_event_def query_def Let_def find_Some_iff split: if_splits option.splits)
  ultimately show ?thesis
    using pending_level [OF _ row] by (auto simp: tables_ok_def list_all_iff)
qed

lemma grades_read_row:
  assumes "\<And>e. grades lv i 1 (f (Inl e)) (\<lambda>_. 0)" "grades lv i 1 (f (Inr None)) (\<lambda>_. 0)"
    and "\<And>row. event_ok born row \<Longrightarrow> grades lv (event_key row, None) (if replayable_row row then 3 else 1) (f (Inr (Some row))) (\<lambda>_. 0)"
  shows "grades lv i 1 (await (trying (read_event env x)) f) (\<lambda>_. 0)"
proof (rule grades_await_at [where Q = "\<lambda>a. case a of Inr (Some row) \<Rightarrow> event_ok born row | _ \<Rightarrow> True"
      and k = "\<lambda>a. case a of Inr (Some row) \<Rightarrow> (event_key row, None) | _ \<Rightarrow> i"
      and r = "\<lambda>a. case a of Inr (Some row) \<Rightarrow> if replayable_row row then 3 else 1 | _ \<Rightarrow> 1"])
  fix s :: ingress_state
  assume s: "1 \<le> lv i s"
  obtain r s' where m: "read_event env x s = (r, s')"
    by fastforce
  then have t: "trying (read_event env x) s = (Inr r, s')"
    by (simp add: trying_def)
  have up: "lv j s \<le> lv j s'" for j
    using gradesD(1) [OF grades_read_event s, of j x] m by simp
  then show "lv j s \<le> lv j (snd (trying (read_event env x) s))" for j
    by (simp add: t)
  have "ok s'"
    using level_keeps_ok [OF up] s by simp
  then show "(case a of Inr (Some row) \<Rightarrow> event_ok born row | _ \<Rightarrow> True) \<and>
      (case a of Inr (Some row) \<Rightarrow> if replayable_row row then 3 else 1 | _ \<Rightarrow> 1)
        \<le> lv (case a of Inr (Some row) \<Rightarrow> (event_key row, None) | _ \<Rightarrow> i) (snd (trying (read_event env x) s))"
    if "fst (trying (read_event env x) s) = Inr a" for a
    using that read_event_row [OF s, of x _ s'] m t by (auto split: sum.splits option.splits)
next
  fix a :: "recovery_error + tracked_event option"
  assume q: "case a of Inr (Some row) \<Rightarrow> event_ok born row | _ \<Rightarrow> True"
  show "grades lv (case a of Inr (Some row) \<Rightarrow> (event_key row, None) | _ \<Rightarrow> i)
      (case a of Inr (Some row) \<Rightarrow> if replayable_row row then 3 else 1 | _ \<Rightarrow> 1) (f a) (\<lambda>_. 0)"
  proof (cases a)
    case (Inl e)
    then show ?thesis
      using assms(1) by simp
  next
    case (Inr x)
    then show ?thesis
      using assms(2,3) q by (cases x) simp_all
  qed
qed

lemma grades_from_ok: "grades lv k 1 m q \<Longrightarrow> 1 \<le> p \<Longrightarrow> grades lv i p m (\<lambda>_. 0)"
proof (rule grades_index [where k = k and p' = 1])
  fix s assume "1 \<le> p" "p \<le> lv i s"
  then have "1 \<le> lv i s"
    by (rule order_trans)
  then show "1 \<le> lv k s"
    by (simp only: level_ge(1))
qed

lemma grades_resolve: "grades lv i p (resolve_instance env x y) (\<lambda>_. 0)"
  unfolding resolve_instance_def by (rule grades_look) simp

lemma grades_sweep_row: "grades lv i 1 (sweep_row env maxAttempts now cutoff x) (\<lambda>_. 0)"
proof -
  have remember: "grades lv i p (rememberUnreadable x now) (\<lambda>_. 0)" for p
    unfolding rememberUnreadable_def by (auto intro!: grades_modify simp: Let_def)
  have row: "grades lv (event_key row, None) 3 (trying (reconcileRow env row maxAttempts now)) (\<lambda>_. 0)" if "event_ok born row" for row
    by (rule grades_weaken [OF grades_trying [OF grades_reconcileRow [OF that]] order_refl]) simp
  show ?thesis
    unfolding sweep_row_def
  proof (rule grades_read_row, goal_cases)
    case (3 row)
    show ?case
    proof (cases "replayable_row row")
      case True
      then show ?thesis
        by (auto simp: replayable_row_def intro!: grades_if grades_succeed grades_recover grades_await [OF grades_resolve]
            grades_await [OF grades_inspect [where q = "\<lambda>_. 0"]] grades_await [OF row [OF 3]])
    next
      case False
      then show ?thesis
        by (auto simp: replayable_row_def intro!: grades_succeed)
    qed
  qed (auto intro!: grades_succeed grades_await [OF remember])
qed

lemma grades_sweep_rows: "grades lv i 1 (sweep_rows env maxAttempts now cutoff c xs) (\<lambda>_. 0)"
  by (induction xs arbitrary: c)
    (auto simp del: One_nat_def intro!: grades_succeed grades_await [OF grades_aborted] grades_if grades_await [OF grades_from_ok [OF grades_sweep_row]])

lemma grades_sweep: "grades lv i 1 (sweep env opts busy) (\<lambda>_. 0)"
proof -
  have unreadable: "grades lv i p (unreadableRows now) (\<lambda>_. 0)" for p now
    unfolding unreadableRows_def by (intro grades_await [OF grades_modify [where q = "\<lambda>_. 0"]] grades_inspect) auto
  have batch: "grades lv i p (sweep_batch env n cutoff us held) (\<lambda>_. 0)" for p n cutoff us held
    unfolding sweep_batch_def by (rule grades_look) simp
  show ?thesis
    unfolding sweep_def Let_def
    by (intro grades_await [OF grades_aborted] grades_if grades_succeed grades_await [OF grades_time] grades_await [OF unreadable]
        grades_await [OF grades_inspect [where q = "\<lambda>_. 0"]] grades_await [OF batch] grades_weaken [OF grades_sweep_rows]) simp_all
qed

lemma grades_drop:
  assumes "event_ok born row"
  shows "grades lv i p (query env (drop_event row)) (\<lambda>_. 0)"
proof (rule grades_query)
  fix s :: ingress_state and j
  let ?P = "\<lambda>e. te_id e = te_id row \<and> ev_state e = Some Pending" and ?g = "\<lambda>e :: tracked_event. e\<lparr>ev_state := Some Failed, ev_payload := None\<rparr>"
  let ?n = "if list_ex ?P (ig_events s) then noted (event_key row) Owner_deleted s else s"
  have "lv j s \<le> lv j ?n"
    by (simp add: level_noted)
  also have "\<dots> \<le> lv j (?n\<lparr>ig_events := map (\<lambda>e. if ?P e then ?g e else e) (ig_events ?n)\<rparr>)"
  proof (rule level_events)
    fix e assume e: "e \<in> set (ig_events ?n)" "?P e" "event_key e = fst j" "ok ?n"
    then have "event_ok born e" "e \<in> set (ig_events s)"
      by (auto simp: tables_ok_def list_all_iff noted_def split: if_splits)
    then have "fst j = event_key row" "list_ex ?P (ig_events s)"
      using row_of [OF assms] e by (auto simp: list_ex_iff)
    then show "noted_in (fst j) ?n \<or> live_in (fst j) ?n \<or> ev_state (?g e) = ev_state e \<and> ev_payload (?g e) = ev_payload e
        \<or> ev_state (?g e) \<noteq> Some Dispatched \<and> open_in (fst j) None ?n \<and> \<not> dispatched_in (fst j) ?n"
      by simp
  qed simp
  also have "?n\<lparr>ig_events := map (\<lambda>e. if ?P e then ?g e else e) (ig_events ?n)\<rparr> = snd (drop_event row s)"
    by (simp add: drop_event_def change_events_def noted_def Let_def)
  finally show "lv j s \<le> lv j (snd (drop_event row s))" .
qed simp

lemma grades_handoff_pending:
  assumes row: "event_ok born row"
  shows "grades lv (event_key row, None) 3 (handoff_pending env row) (\<lambda>_. 0)"
proof -
  let ?i = "(event_key row, None)" and ?d = "jobDataFor env row"
  have ko: "key_ok (data_key ?d)"
    using row by (simp add: event_ok_def event_data)
  have owner: "grades lv ?i p (ownerDeleted env row) (\<lambda>_. 0)" for p
    unfolding ownerDeleted_def by (intro grades_await [OF grades_resolve] grades_if grades_succeed grades_look) simp_all
  have existing: "grades lv ?i 3 (existingJobState env ?d (ev_delivery row)) (\<lambda>st. if live_or_completed st then 5 else 0)"
    using grades_weaken [OF grades_existing [OF ko, of None], of 3] by (simp add: event_data)
  have ensure: "grades lv ?i 3 (ensureDeadLetterRow env ?d a e) (\<lambda>_. 4)" for a e
    using grades_ensure [of ?d a e] ko unfolding event_data(1) by (simp add: event_data)
  have failed: "grades lv ?i 4 (mark_pending env (te_id row) (\<lambda>e. e\<lparr>ev_state := Some Failed, ev_payload := None\<rparr>)) (\<lambda>_. 0)"
    by (rule grades_mark_failed [OF row]) simp
  have dispatched: "grades lv ?i 5 (mark_pending env (te_id row) (\<lambda>e. e\<lparr>ev_state := Some Dispatched, ev_payload := None\<rparr>)) (\<lambda>_. 0)"
    unfolding mark_pending_def using row_of [OF row] by (intro grades_mark) auto
  have retire: "grades lv ?i 5 (if b then retireOpenDeadLetters env (event_key row) else succeed 0) (\<lambda>_. 0)" for b
    by (auto intro: grades_retire_open grades_succeed)
  have live: "grades lv ?i 5 (await (mark_pending env (te_id row) (\<lambda>e. e\<lparr>ev_state := Some Dispatched, ev_payload := None\<rparr>)) (\<lambda>settled.
      await (if 0 < settled then retireOpenDeadLetters env (event_key row) else succeed 0) (\<lambda>_. succeed Row_done))) (\<lambda>_. 0)"
    by (rule grades_await [OF dispatched], simp only: max_0R, intro grades_await [OF retire] grades_succeed) simp
  have settle: "grades lv ?i 4 (await (mark_pending env (te_id row) (\<lambda>e. e\<lparr>ev_state := Some Failed, ev_payload := None\<rparr>)) (\<lambda>marked.
      await (if written = None then succeed None else settleDeadLetter env row written marked) (\<lambda>_.
        succeed (if marked = 0 then Row_done else Row_retired)))) (\<lambda>_. 0)"
    if "case written of None \<Rightarrow> True | Some x \<Rightarrow> born x = event_key row" for written
    by (rule grades_await [OF failed])
      (auto intro!: grades_await [OF grades_settle [OF row that]] grades_succeed)
  have dead: "grades lv ?i 3 (await (ensureDeadLetterRow env ?d a e) (\<lambda>written.
      await (mark_pending env (te_id row) (\<lambda>e. e\<lparr>ev_state := Some Failed, ev_payload := None\<rparr>)) (\<lambda>marked.
      await (if written = None then succeed None else settleDeadLetter env row written marked) (\<lambda>_.
        succeed (if marked = 0 then Row_done else Row_retired))))) (\<lambda>_. 0)" for a e
    by (rule grades_await_where [OF ensure yields_ensure, unfolded event_data(1)]) (simp add: settle)
  have existing': "grades lv ?i (max 3 0) (existingJobState env ?d (ev_delivery row)) (\<lambda>st. if live_or_completed st then 5 else 0)"
    using existing by simp
  show ?thesis
    unfolding handoff_pending_def Let_def
  proof (intro grades_await [OF owner] grades_if grades_await [OF grades_drop [OF row]] grades_succeed grades_await [OF existing']
        grades_await [OF grades_aborted], goal_cases)
    case (3 b st stop)
    then show ?case
      by (intro grades_weaken [OF live]) auto
  next
    case (4 b st stop)
    then show ?case
      by (intro grades_weaken [OF dead]) auto
  qed simp_all
qed

lemma grades_handoff_row: "grades lv i 1 (handoff_row env x) (\<lambda>_. 0)"
proof -
  have row: "grades lv (event_key row, None) 3 (recover (handoff_pending env row) (\<lambda>_. succeed Row_kept)) (\<lambda>_. 0)" if "event_ok born row" for row
    by (intro grades_recover grades_handoff_pending [OF that] grades_succeed) simp
  have read: "grades lv i 1 (await (trying (read_event env x)) (\<lambda>r.
      case r of
        Inl _ \<Rightarrow> succeed Row_kept
      | Inr None \<Rightarrow> succeed Row_done
      | Inr (Some row) \<Rightarrow>
          if ev_state row \<noteq> Some Pending then succeed Row_done
          else if ev_payload row = None then succeed Row_kept
          else recover (handoff_pending env row) (\<lambda>_. succeed Row_kept))) (\<lambda>_. 0)"
    by (rule grades_read_row) (auto simp: replayable_row_def intro!: grades_succeed row)
  show ?thesis
    unfolding handoff_row_def by (intro grades_await [OF grades_aborted] grades_if grades_succeed grades_weaken [OF read]) auto
qed

lemma grades_handoff_rows: "grades lv i 1 (handoff_rows env retired kept xs) (\<lambda>_. 0)"
  by (induction xs arbitrary: retired kept)
    (auto simp del: One_nat_def intro!: grades_succeed grades_await [OF grades_from_ok [OF grades_handoff_row]] split: handoff.split)

lemma grades_handoff_batches: "grades lv i 1 (handoff_batches fuel env n cutoff retired kept) (\<lambda>_. 0)"
proof (induction fuel arbitrary: retired kept)
  case (Suc fuel)
  have batch: "grades lv i p (aged_batch env n cutoff kept) (\<lambda>_. 0)" for p kept
    unfolding aged_batch_def by (rule grades_look) simp
  show ?case
    unfolding handoff_batches.simps
    by (intro grades_await [OF batch] grades_await [OF grades_from_ok [OF grades_handoff_rows]] grades_case_prod grades_if grades_succeed
        grades_from_ok [OF Suc.IH]) auto
qed (simp add: grades_succeed)

lemma grades_handoff: "grades lv i 1 (deadLetterAgedPending fuel env cutoff n) (\<lambda>_. 0)"
  unfolding deadLetterAgedPending_def
  by (intro grades_await [OF grades_aborted] grades_if grades_succeed grades_from_ok [OF grades_handoff_batches]) auto

lemma grades_prune: "grades lv i 1 (pruneOlderThan fuel env days fdays) (\<lambda>_. 0)"
proof -
  have letters: "grades lv i p (query env (prune_letters cutoff)) (\<lambda>_. 0)" for p cutoff
  proof (rule grades_query)
    fix s :: ingress_state and j
    show "lv j s \<le> lv j (snd (prune_letters cutoff s))"
      unfolding prune_letters_def Let_def snd_conv
    proof (rule level_mono, goal_cases)
      case 3
      then obtain r where r: "r \<in> set (ig_letters s)" "open_letter (fst j) (snd j) r"
        by (auto simp: open_in_def)
      have "fst j = (dl_plugin r, dl_instance r, the (dl_delivery r))"
        using r(2) by (simp add: open_letter_def prod_eq_iff)
      then show ?case
        using r by (cases "dl_created r < cutoff") (force simp: noted_in_def open_letter_def, auto simp: open_in_def)
    next
      case 5
      then show ?case
        using pending_not_dispatched by simp
    qed (auto simp: tables_ok_def list_all_iff noted_in_def)
  qed simp
  have events: "grades lv i p (query env (prune_events cutoff)) (\<lambda>_. 0)" for p cutoff
  proof (rule grades_query)
    fix s :: ingress_state and j
    show "lv j s \<le> lv j (snd (prune_events cutoff s))"
      unfolding prune_events_def Let_def snd_conv
    proof (rule level_mono, goal_cases)
      case 1
      then show ?case
        by (simp add: tables_ok_def list_all_iff distinct_map_filter)
    next
      case 5
      then have "\<not> dispatched_in (fst j) s"
        using pending_not_dispatched by blast
      then show ?case
        using 5(3) by (auto simp: pending_in_def dispatched_in_def)
    qed (auto simp: dispatched_in_def)
  qed simp
  have old_letters: "grades lv i p (case fdays of None \<Rightarrow> succeed 0 | Some d \<Rightarrow> recover (query env (prune_letters (now - d * 86400000))) (\<lambda>_. succeed 0)) (\<lambda>_. 0)" for p now
    by (auto split: option.split intro!: grades_succeed grades_recover letters)
  have old_events: "grades lv i p (recover (query env (prune_events cutoff)) (\<lambda>_. succeed 0)) (\<lambda>_. 0)" for p cutoff
    by (intro grades_recover events grades_succeed) simp
  have handoff: "1 \<le> p \<Longrightarrow> grades lv i p (recover (await (deadLetterAgedPending fuel env cutoff n) (\<lambda>_. succeed ())) (\<lambda>_. succeed ())) (\<lambda>_. 0)" for p cutoff n
    by (intro grades_recover grades_await [OF grades_from_ok [OF grades_handoff]] grades_succeed) auto
  show ?thesis
    unfolding pruneOlderThan_def
    by (intro grades_await [OF grades_time] grades_await [OF old_letters] grades_await [OF old_events] grades_await [OF handoff] grades_succeed) auto
qed

text \<open>A dead letter that was read for its redrive.\<close>

lemma redrive_key: "dl_plugin r = p \<Longrightarrow> dl_instance r = x \<Longrightarrow> data_key (redrive_data p x r) = letter_key r"
  by (simp add: data_key_def redrive_data_def letter_key_def Let_def split: option.split)

lemma redrive_payload: "letter_ok born r \<Longrightarrow> jd_payload (redrive_data p x r) \<noteq> None"
  by (auto simp: redrive_data_def letter_ok_def carries_def)

lemma grades_letter_redriven:
  assumes r: "letter_ok born r"
  shows "grades lv (letter_key r, None) 5 (query env (change_letters (\<lambda>x. dl_id x = dl_id r) (\<lambda>x. x\<lparr>dl_redriven := True\<rparr>))) (\<lambda>_. 0)"
proof (rule grades_letters)
  fix s y k b
  assume a: "5 \<le> lv (letter_key r, None) s" "letter_ok born y" "dl_id y = dl_id r" "open_letter k b y"
  have "k = letter_key y"
    using a(4) by (simp add: letter_key_def open_letter_def prod_eq_iff)
  then have "k = letter_key r"
    using a(2,3) r by (simp add: letter_ok_def)
  then show "noted_in k s \<or> live_in k s \<or> dl_redriven (y\<lparr>dl_redriven := True\<rparr>) = dl_redriven y
      \<or> (\<exists>r' \<in> set (ig_letters s). open_letter k b r' \<and> dl_id r' \<noteq> dl_id r)"
    using a(1) by (simp add: level_ge(2)) blast
qed (simp add: same_letter_def)

lemma grades_redrive_settle:
  assumes r: "letter_ok born r" "dl_plugin r = p" "dl_instance r = x" and l: "reached outcome \<le> l"
  shows "grades lv (letter_key r, None) l (redrive_settle env p x r outcome) (\<lambda>_. 0)"
proof -
  have event: "grades lv (letter_key r, None) 5 (if truthy (dl_delivery r)
       then query env (change_events (\<lambda>e. event_key e = (p, x, the (dl_delivery r)) \<and> ev_state e = Some Pending)
              (\<lambda>e. e\<lparr>ev_state := Some Dispatched, te_last := Some now, ev_payload := None\<rparr>))
       else succeed 0) (\<lambda>_. 0)" for now
    using r(2,3) by (cases "dl_delivery r") (auto intro!: grades_succeed grades_mark simp: letter_key_def)
  have closed: "5 \<le> l \<Longrightarrow> grades lv (letter_key r, None) l (await (current_time env) (\<lambda>now.
      await (if truthy (dl_delivery r)
             then query env (change_events (\<lambda>e. event_key e = (p, x, the (dl_delivery r)) \<and> ev_state e = Some Pending)
                    (\<lambda>e. e\<lparr>ev_state := Some Dispatched, te_last := Some now, ev_payload := None\<rparr>))
             else succeed 0) (\<lambda>_.
      await (query env (change_letters (\<lambda>x. dl_id x = dl_id r) (\<lambda>x. x\<lparr>dl_redriven := True\<rparr>))) (\<lambda>_. succeed True)))) (\<lambda>_. 0)"
    by (intro grades_await [OF grades_time] grades_await [OF grades_weaken [OF event, where q' = "\<lambda>_. 0"]]
        grades_await [OF grades_weaken [OF grades_letter_redriven [OF r(1)], where q' = "\<lambda>_. 0"]] grades_succeed) auto
  have counted: "grades lv (letter_key r, None) l (query env (change_letters (\<lambda>x. dl_id x = dl_id r)
      (\<lambda>x. x\<lparr>dl_attempts := max 0 (dl_attempts r) + 1, dl_error := filter (\<lambda>c. c \<noteq> CHR 0x00) error\<rparr>))) (\<lambda>_. 0)" for error
    by (rule grades_letters) (simp_all add: same_letter_def)
  show ?thesis
  proof (cases outcome)
    case (Dispatch_failed error)
    then show ?thesis
      unfolding redrive_settle_def by (simp only: enqueue_outcome.case) (intro grades_await [OF counted] grades_succeed, simp)
  qed (use closed l in \<open>simp_all add: redrive_settle_def reached_def\<close>)
qed

lemma grades_read_letter: "grades lv i l (read_letter env p x scope y) (\<lambda>_. 0)"
  unfolding read_letter_def by (rule grades_look) (simp split: option.split)

lemma grades_redrive_row: "grades lv i 1 (redrive_row env p x scope y) (\<lambda>_. 0)"
proof -
  let ?f = "\<lambda>r. case r of
      Inl _ \<Rightarrow>
        await (recover (query env (change_letters (\<lambda>z. dl_id z = y) (\<lambda>z. z\<lparr>dl_attempts := dl_attempts z + 1\<rparr>))) (\<lambda>_. succeed 0)) (\<lambda>_.
          succeed (Some False))
    | Inr None \<Rightarrow> succeed (Some False)
    | Inr (Some row) \<Rightarrow>
        await (aborted env) (\<lambda>stop.
          if stop then succeed None
          else await (trying (enqueue env (redrive_data p x row) (''redrive:'' @ dl_id row) True)) (\<lambda>result.
            case result of
              Inl e \<Rightarrow> await (aborted env) (\<lambda>stop. if stop then succeed None else throw e)
            | Inr outcome \<Rightarrow> await (redrive_settle env p x row outcome) (\<lambda>b. succeed (Some b))))"
  let ?Q = "\<lambda>a. case a of Inr (Some row) \<Rightarrow> letter_ok born row \<and> dl_plugin row = p \<and> dl_instance row = x | _ \<Rightarrow> True"
  let ?k = "\<lambda>a. case a of Inr (Some row) \<Rightarrow> (letter_key row, None) | _ \<Rightarrow> i"
  have bump: "grades lv i 1 (query env (change_letters (\<lambda>z. dl_id z = y) (\<lambda>z. z\<lparr>dl_attempts := dl_attempts z + 1\<rparr>))) (\<lambda>_. 0)"
    by (rule grades_letters) (simp_all add: same_letter_def)
  have row: "grades lv (letter_key r, None) 1 (?f (Inr (Some r))) (\<lambda>_. 0)"
    if r: "letter_ok born r" "dl_plugin r = p" "dl_instance r = x" for r
  proof -
    have key: "data_key (redrive_data p x r) = letter_key r"
      by (rule redrive_key [OF r(2,3)])
    have "''redrive:'' @ dl_id r \<in> names born (letter_key r)" "key_ok (letter_key r)"
      using r(1) by (auto simp: names_def letter_ok_def)
    then have "grades lv (letter_key r, None) 1 (enqueue env (redrive_data p x r) (''redrive:'' @ dl_id r) True) reached"
      using grades_enqueue [of "redrive_data p x r" "''redrive:'' @ dl_id r" 1 None True] redrive_payload [OF r(1)] unfolding key by simp
    note enq = grades_trying [OF this]
    have settle: "grades lv (letter_key r, None) (max 1 (case res of Inl e \<Rightarrow> 1 | Inr a \<Rightarrow> reached a)) (case res of
          Inl e \<Rightarrow> await (aborted env) (\<lambda>stop. if stop then succeed None else throw e)
        | Inr outcome \<Rightarrow> await (redrive_settle env p x r outcome) (\<lambda>b. succeed (Some b))) (\<lambda>_. 0)" for res
      by (cases res) (auto intro!: grades_await [OF grades_aborted] grades_succeed grades_throw grades_await [OF grades_redrive_settle [OF r]])
    have go: "grades lv (letter_key r, None) 1 (await (trying (enqueue env (redrive_data p x r) (''redrive:'' @ dl_id r) True)) (\<lambda>result.
            case result of
              Inl e \<Rightarrow> await (aborted env) (\<lambda>stop. if stop then succeed None else throw e)
            | Inr outcome \<Rightarrow> await (redrive_settle env p x r outcome) (\<lambda>b. succeed (Some b)))) (\<lambda>_. 0)"
      by (rule grades_await [OF enq settle])
    show ?thesis
      unfolding sum.case option.case by (intro grades_await [OF grades_aborted] grades_if grades_succeed grades_weaken [OF go]) auto
  qed
  have read: "grades lv i 1 (await (trying (read_letter env p x scope y)) ?f) (\<lambda>_. 0)"
  proof (rule grades_await_at [where Q = ?Q and k = ?k and r = "\<lambda>_. 1"])
    fix s :: ingress_state
    assume s: "1 \<le> lv i s"
    obtain r s' where m: "read_letter env p x scope y s = (r, s')"
      by fastforce
    then have t: "trying (read_letter env p x scope y) s = (Inr r, s')"
      by (simp add: trying_def)
    have up: "lv j s \<le> lv j s'" for j
      using gradesD(1) [OF grades_read_letter s, of j p x scope y] m by simp
    then show "lv j s \<le> lv j (snd (trying (read_letter env p x scope y) s))" for j
      by (simp add: t)
    have ok: "ok s'"
      using level_keeps_ok [OF up] s by simp
    have "letter_ok born l \<and> dl_plugin l = p \<and> dl_instance l = x" if "r = Inr (Some l)" for l
      using m that ok
      by (auto simp: read_letter_def query_def Let_def find_Some_iff redrivable_def tables_ok_def list_all_iff split: if_splits option.splits)
    then show "?Q a \<and> 1 \<le> lv (?k a) (snd (trying (read_letter env p x scope y) s))"
      if "fst (trying (read_letter env p x scope y) s) = Inr a" for a
      using that ok by (auto simp: t split: sum.splits option.splits)
  next
    fix a :: "recovery_error + dead_letter option"
    assume q: "?Q a"
    show "grades lv (?k a) 1 (?f a) (\<lambda>_. 0)"
    proof (cases a)
      case (Inl e)
      then show ?thesis
        by (auto intro!: grades_await [OF grades_recover [OF bump]] grades_succeed simp del: One_nat_def)
    next
      case (Inr z)
      then show ?thesis
        using row q by (cases z) (auto intro: grades_succeed simp del: One_nat_def)
    qed
  qed
  show ?thesis
    unfolding redrive_row_def by (intro grades_await [OF grades_aborted] grades_if grades_succeed grades_weaken [OF read]) auto
qed

lemma grades_redrive_rows: "grades lv i 1 (redrive_rows env p x scope n ys) (\<lambda>_. 0)"
  by (induction ys arbitrary: n)
    (auto simp del: One_nat_def intro!: grades_succeed grades_await [OF grades_from_ok [OF grades_redrive_row]] split: option.split)

lemma grades_redriveBatch: "grades lv i 1 (redriveBatch env p x scope) (\<lambda>_. 0)"
proof -
  have ids: "grades lv i l (if b then succeed [] else query env (\<lambda>s. (Inr (take REDRIVE_BATCH_SIZE (map dl_id (ascending (\<lambda>r. (dl_attempts r, dl_created r))
       (filter (redrivable p x scope) (ig_letters s))))), s))) (\<lambda>_. 0)" for b l
    by (auto intro!: grades_succeed grades_look)
  have rest: "grades lv i l (query env (\<lambda>s. (Inr (length (filter (redrivable p x scope) (ig_letters s))), s))) (\<lambda>_. 0)" for l
    by (rule grades_look) simp
  show ?thesis
    unfolding redriveBatch_def
    by (intro grades_await [OF grades_aborted] grades_await [OF ids] grades_await [OF grades_from_ok [OF grades_redrive_rows]] grades_await [OF rest]
        grades_succeed) auto
qed

lemma grades_live_enqueue:
  assumes "key_ok (data_key d)" "jd_payload d \<noteq> None"
  shows "grades lv (data_key d, None) 1 (live_enqueue env d (jd_delivery d)) (\<lambda>_. 0)"
proof -
  let ?i = "(data_key d, None)"
  have enq: "grades lv ?i 1 (enqueue env d (jd_delivery d) False) reached"
    using assms by (intro grades_enqueue) (auto simp: names_def data_key_def)
  have mark: "grades lv ?i (max 1 (reached r)) (recover (markDispatchOutcome env (data_key d) r) (\<lambda>_. succeed ())) (\<lambda>_. 0)" for r
  proof (intro grades_recover grades_succeed)
    have at5: "grades lv ?i 5 (await (current_time env) (\<lambda>now. await (query env (change_events (\<lambda>e. event_key e = data_key d)
        (\<lambda>e. e\<lparr>ev_state := Some Dispatched, te_last := Some now, ev_payload := None\<rparr>))) (\<lambda>_. succeed ()))) (\<lambda>_. 0)"
      by (intro grades_await [OF grades_time] grades_await [OF grades_weaken [OF grades_mark, where q' = "\<lambda>_. 0"]] grades_succeed) auto
    show "grades lv ?i (max 1 (reached r)) (markDispatchOutcome env (data_key d) r) (\<lambda>_. 0)"
    proof (cases r)
      case (Dispatch_failed error)
      then show ?thesis
        unfolding markDispatchOutcome_def
        by (auto intro!: grades_await [OF grades_bookkeeping] grades_await [OF grades_time] grades_succeed)
    qed (use at5 in \<open>simp_all add: markDispatchOutcome_def reached_def\<close>)
  qed simp
  have save: "grades lv ?i p (case r of
        Dispatch_failed error \<Rightarrow> recover (await (save_letter env d 1 error) (\<lambda>_. succeed ())) (\<lambda>_. succeed ())
      | _ \<Rightarrow> succeed ()) (\<lambda>_. 0)" for r p
    by (cases r) (auto intro!: grades_succeed grades_recover grades_await [OF grades_weaken [OF grades_save_letter [OF assms], where q' = "\<lambda>_. 0"]])
  show ?thesis
    unfolding live_enqueue_def by (intro grades_await [OF enq] grades_await [OF mark] grades_await [OF save] grades_succeed) simp
qed

end

text \<open>A row as the door stores it, and the job it hands on for it.\<close>

definition stored_for :: "ingress_event \<Rightarrow> ingress_job \<Rightarrow> bool" where
  "stored_for e j \<longleftrightarrow> key_ok (event_key e) \<and> ev_state e = Some Pending \<and> ev_payload e \<noteq> None \<and> job_for j e"

context ingress_company
begin

lemma insert_event_levels:
  assumes e: "stored_for e j" and s: "1 \<le> lv i s"
  shows "lv x s \<le> lv x (snd (insert_event env e s))"
    and "fst (insert_event env e s) = Inr True \<Longrightarrow> 3 \<le> lv (event_key e, None) (snd (insert_event env e s))"
proof -
  define f where "f = (\<lambda>s :: ingress_state. if list_ex (\<lambda>x. event_key x = event_key e) (ig_events s) then (Inr False, s)
       else (Inr True :: recovery_error + bool, s\<lparr>ig_events := ig_events s @
              [ingress_event.extend e \<lparr>te_id = mint env (ig_ticks s) (event_key e), te_attempts = 0, te_last = None,
                 te_created = time_at env (ig_ticks s), te_readable = True\<rparr>]\<rparr>))"
  have f: "insert_event env e = query env f"
    by (simp add: insert_event_def f_def)
  have row: "event_ok born r" "event_key r = event_key e" "ev_state r = Some Pending" "replayable_row r"
    if "r = ingress_event.extend e \<lparr>te_id = mint env n (event_key e), te_attempts = 0, te_last = None, te_created = t, te_readable = True\<rparr>" for r n t
    using that e by (simp_all add: ingress_event.defs event_ok_def event_key_def stored_for_def replayable_row_def minted)
  have up: "lv j s \<le> lv j (snd (f s))" for j s
  proof (cases "list_ex (\<lambda>x. event_key x = event_key e) (ig_events s)")
    case False
    define r where "r = ingress_event.extend e \<lparr>te_id = mint env (ig_ticks s) (event_key e), te_attempts = 0, te_last = None,
        te_created = time_at env (ig_ticks s), te_readable = True\<rparr>"
    have "event_key r \<notin> event_key ` set (ig_events s)"
      using False row(2) [OF r_def] by (auto simp: list_ex_iff)
    then show ?thesis
      using level_add_event [OF row(1) [OF r_def] _ row(3) [OF r_def]] False by (simp add: f_def r_def)
  qed (simp add: f_def)
  show "lv x s \<le> lv x (snd (insert_event env e s))"
    unfolding f by (rule gradesD(1) [OF grades_query s, where q = "\<lambda>_. 0"]) (auto simp: up)
  let ?s = "(meanwhile env (ig_ticks s) s)\<lparr>ig_ticks := Suc (ig_ticks s)\<rparr>"
  have "1 \<le> lv i ?s"
    using others_reach s by blast
  then have ok: "ok (snd (f ?s))"
    using level_keeps_ok [OF up] by simp
  assume "fst (insert_event env e s) = Inr True"
  then have i: "insert_event env e s = f ?s" "fst (f ?s) = Inr True"
    by (auto simp: f query_def Let_def split: if_splits)
  define r where "r = ingress_event.extend e \<lparr>te_id = mint env (ig_ticks ?s) (event_key e), te_attempts = 0, te_last = None,
      te_created = time_at env (ig_ticks ?s), te_readable = True\<rparr>"
  have "r \<in> set (ig_events (snd (f ?s)))"
    using i(2) unfolding f_def r_def by (simp split: if_splits)
  note r = this row(2) [OF r_def] row(4) [OF r_def]
  show "3 \<le> lv (event_key e, None) (snd (insert_event env e s))"
    using pending_level [OF ok r(1,3)] i r(2) by simp
qed

lemma accept_keeps:
  assumes e: "stored_for e j" and s: "1 \<le> lv i s"
  shows "lv x s \<le> lv x (snd (accept env e j s))"
    and "fst (insert_event env e s) = Inr True \<Longrightarrow> 3 \<le> lv (event_key e, None) (snd (accept env e j s))"
proof -
  obtain r s1 where ins: "insert_event env e s = (r, s1)"
    by fastforce
  let ?g = "await (defersInlineDispatch env (ev_plugin e)) (\<lambda>defer.
      if defer \<and> 0 < resolveNonNegativeIntEnv (sweep_interval_env env) 60000 then succeed () else await (live_enqueue env (job_of j) (j_delivery j)) (\<lambda>_. succeed ()))"
  have k: "data_key (job_of j) = event_key e" "jd_payload (job_of j) \<noteq> None" "jd_delivery (job_of j) = j_delivery j"
    using e by (simp_all add: stored_for_def job_for_def data_key_def job_of_def event_key_def)
  have live: "grades lv (event_key e, None) 1 (live_enqueue env (job_of j) (j_delivery j)) (\<lambda>_. 0)"
    using grades_live_enqueue [of "job_of j"] e k by (simp add: stored_for_def)
  have g: "grades lv (event_key e, None) 1 ?g (\<lambda>_. 0)"
    unfolding defersInlineDispatch_def
    by (intro grades_await [OF grades_inspect [where q = "\<lambda>_. 0"]] grades_if grades_succeed grades_await [OF grades_weaken [OF live, where q' = "\<lambda>_. 0"]]) auto
  have up1: "lv x s \<le> lv x s1" for x
    using insert_event_levels(1) [OF e s, of x] ins by simp
  then have s1: "1 \<le> lv (event_key e, None) s1"
    using level_keeps_ok [OF up1] s by (simp only: level_ge(1))
  have run: "snd (accept env e j s) = (if r = Inr True then snd (?g s1) else s1)"
    using ins by (cases r) (auto simp: accept_def await_def [of "insert_event env e"] succeed_def)
  have up2: "lv x s1 \<le> lv x (snd (accept env e j s))" for x
    using gradesD(1) [OF g s1, of x] run by simp
  show "lv x s \<le> lv x (snd (accept env e j s))"
    using up1 up2 order_trans by blast
  show "3 \<le> lv (event_key e, None) (snd (accept env e j s))" if "fst (insert_event env e s) = Inr True"
    using insert_event_levels(2) [OF e s that] up2 [of "(event_key e, None)"] ins order_trans by fastforce
qed

end

end
