(* ===== verification/Ingress_Handoff.thy ===== *)
theory Ingress_Handoff
  imports Ingress_Levels
begin

text \<open>
  The hand-off of aged events comes to its end: its loop reads a batch after the other until one is not full, and every event
  of a batch is settled, or set aside for the next run.
\<close>

section \<open>The events still waiting\<close>

definition awaits_handoff :: "int \<Rightarrow> tracked_event \<Rightarrow> bool" where
  "awaits_handoff cutoff e \<longleftrightarrow> ev_state e = Some Pending \<and> te_created e < cutoff \<and> ev_payload e \<noteq> None"

definition waiting :: "int \<Rightarrow> ingress_state \<Rightarrow> string set" where
  "waiting cutoff s = te_id ` {e \<in> set (ig_events s). awaits_handoff cutoff e}"

text \<open>The scale: ids are primary keys, and at 2 the event of an id waits no more.\<close>

definition handed :: "int \<Rightarrow> string \<Rightarrow> ingress_state \<Rightarrow> nat" where
  "handed cutoff x s = (if \<not> distinct (map te_id (ig_events s)) then 0 else if x \<in> waiting cutoff s then 1 else 2)"

lemma handed_ge: "1 \<le> handed c x s \<longleftrightarrow> distinct (map te_id (ig_events s))"
  "2 \<le> handed c x s \<longleftrightarrow> distinct (map te_id (ig_events s)) \<and> x \<notin> waiting c s"
  by (simp_all add: handed_def)

lemma handed_mono:
  assumes "\<And>x. handed c x s \<le> handed c x s'" "distinct (map te_id (ig_events s))"
  shows "distinct (map te_id (ig_events s'))" "waiting c s' \<subseteq> waiting c s"
proof -
  show "distinct (map te_id (ig_events s'))"
    using order_trans [OF _ assms(1), of 1 undefined] assms(2) by (simp only: handed_ge(1))
  have "x \<notin> waiting c s'" if "x \<notin> waiting c s" for x
    using order_trans [OF _ assms(1), of 2 x] assms(2) that by (auto simp only: handed_ge(2))
  then show "waiting c s' \<subseteq> waiting c s"
    by blast
qed

lemma handed_events: "ig_events s' = ig_events s \<Longrightarrow> handed c x s' = handed c x s"
  by (simp add: handed_def waiting_def)

definition settle_event :: "string \<Rightarrow> (tracked_event \<Rightarrow> tracked_event) \<Rightarrow> tracked_event \<Rightarrow> tracked_event" where
  "settle_event i g e = (if te_id e = i \<and> ev_state e = Some Pending then g e else e)"

lemma handed_settle:
  assumes "\<And>e. te_id (g e) = te_id e" "\<And>e. ev_state (g e) \<noteq> Some Pending" "ig_events s' = map (settle_event i g) (ig_events s)"
  shows "handed c x s \<le> handed c x s'" "1 \<le> handed c i s \<Longrightarrow> 2 \<le> handed c i s'"
proof -
  have id: "te_id (settle_event i g e) = te_id e" for e
    by (simp add: assms(1) settle_event_def)
  then have ids: "map te_id (ig_events s') = map te_id (ig_events s)"
    by (simp add: assms(3))
  have still: "awaits_handoff c (settle_event i g e) \<longleftrightarrow> awaits_handoff c e \<and> te_id e \<noteq> i" for e
    by (auto simp: awaits_handoff_def settle_event_def assms(2))
  have "waiting c s' = waiting c s - {i}"
    unfolding waiting_def assms(3) using id still by (auto simp: image_def)
  then show "handed c x s \<le> handed c x s'" "1 \<le> handed c i s \<Longrightarrow> 2 \<le> handed c i s'"
    by (simp_all add: handed_def ids split: if_splits)
qed

locale lone_handoff =
  fixes env :: "'x recovery_env_scheme" and cutoff :: int
  assumes alone: "meanwhile env n s = s"
begin

abbreviation hv :: "string \<Rightarrow> ingress_state \<Rightarrow> nat" where
  "hv \<equiv> handed cutoff"

end

sublocale lone_handoff \<subseteq> graded_steps env "handed cutoff"
proof
  show "handed cutoff i s \<le> handed cutoff i (meanwhile env n s)" for i s n
    by (simp add: alone)
  show "handed cutoff i (s\<lparr>ig_ticks := m\<rparr>) = handed cutoff i s" for i s m
    by (rule handed_events) simp
qed

context lone_handoff
begin

lemma grades_still:
  assumes "\<And>s. ig_events (snd (f s)) = ig_events s"
  shows "grades hv i p (query env f) (\<lambda>_. 0)" "grades hv i p (redis env f) (\<lambda>_. 0)"
  using handed_events [OF assms] by (auto intro!: grades_query grades_redis)

lemma grades_off:
  assumes "\<And>e. te_id (g e) = te_id e" "\<And>e. ev_state (g e) \<noteq> Some Pending"
    and "\<And>s. ig_events (snd (f s)) = map (settle_event i g) (ig_events s)"
  shows "grades hv i 1 (query env f) (\<lambda>_. 2)"
  by (rule grades_query) (rule handed_settle [OF assms], assumption?)+

lemma grades_mark_off:
  assumes "\<And>e. te_id (g e) = te_id e" "\<And>e. ev_state (g e) \<noteq> Some Pending"
  shows "grades hv i 1 (mark_pending env i g) (\<lambda>_. 2)"
  unfolding mark_pending_def by (rule grades_off [OF assms]) (simp_all add: change_events_def settle_event_def)

lemma grades_drop: "grades hv (te_id row) 1 (query env (drop_event row)) (\<lambda>_. 2)"
  by (rule grades_off [where g = "\<lambda>e. e\<lparr>ev_state := Some Failed, ev_payload := None\<rparr>"])
    (simp_all add: drop_event_def change_events_def settle_event_def noted_def Let_def)

text \<open>The statements on dead letters and the lookups leave the events as they are.\<close>

lemma grades_letters_only:
  "grades hv i p (count_open env k b) (\<lambda>_. 0)" "grades hv i p (save_letter env d a e) (\<lambda>_. 0)" "grades hv i p (retireOpenDeadLetters env k) (\<lambda>_. 0)"
  "grades hv i p (query env (change_letters P g)) (\<lambda>_. 0)" "grades hv i p (read_state env x) (\<lambda>_. 0)" "grades hv i p (getJobState env x) (\<lambda>_. 0)"
  "grades hv i p (resolve_instance env u v) (\<lambda>_. 0)"
  unfolding count_open_def save_letter_def retireOpenDeadLetters_def read_state_def getJobState_def resolve_instance_def change_letters_def
  by (rule grades_still; simp add: Let_def)+

lemma grades_lookups:
  "grades hv i p (ownerDeleted env row) (\<lambda>_. 0)" "grades hv i p (existingJobState env d x) (\<lambda>_. 0)"
  "grades hv i p (ensureDeadLetterRow env d a e) (\<lambda>_. 0)" "grades hv i p (settleDeadLetter env row w m) (\<lambda>_. 0)"
proof -
  show "grades hv i p (ownerDeleted env row) (\<lambda>_. 0)"
    unfolding ownerDeleted_def
    by (intro grades_await [OF grades_letters_only(7)] grades_if grades_succeed grades_look) simp_all
  show "grades hv i p (existingJobState env d x) (\<lambda>_. 0)"
    unfolding existingJobState_def Let_def case_prod_unfold
    by (intro grades_if grades_recover grades_await [OF grades_letters_only(6)] grades_succeed) simp_all
  show "grades hv i p (ensureDeadLetterRow env d a e) (\<lambda>_. 0)"
    unfolding ensureDeadLetterRow_def
    by (intro grades_await [OF grades_letters_only(1)] grades_if grades_await [OF grades_letters_only(2)] grades_succeed) simp_all
  show "grades hv i p (settleDeadLetter env row w m) (\<lambda>_. 0)"
    unfolding settleDeadLetter_def
    by (intro grades_await [where r = "\<lambda>_. 0"] grades_if grades_case_option grades_letters_only grades_succeed) simp_all
qed

lemma grades_handoff_pending: "grades hv (te_id row) 1 (handoff_pending env row) (\<lambda>r. if r = Run_halted then 0 else 2)"
proof -
  have mark: "grades hv (te_id row) 1 (mark_pending env (te_id row) (\<lambda>e. e\<lparr>ev_state := Some st, ev_payload := None\<rparr>)) (\<lambda>_. 2)"
    if "st \<noteq> Pending" for st
    by (rule grades_mark_off) (simp_all add: that)
  show ?thesis
    unfolding handoff_pending_def Let_def
    by (intro grades_await [OF grades_lookups(1)] grades_if grades_await [OF grades_weaken [OF grades_drop, where q' = "\<lambda>_. 2"]]
        grades_await [OF grades_lookups(2)] grades_await [OF grades_aborted] grades_await [OF grades_lookups(3)]
        grades_await [OF grades_weaken [OF mark, where q' = "\<lambda>_. 2"]] grades_await [where r = "\<lambda>_. 0"]
        grades_letters_only grades_lookups(4) grades_succeed) simp_all
qed

text \<open>The row an id names is the only one with it, so one that is gone or settled does not wait.\<close>

lemma waiting_row:
  assumes "distinct (map te_id (ig_events s))" "find (\<lambda>e. te_id e = i) (ig_events s) = r"
    and "case r of None \<Rightarrow> True | Some row \<Rightarrow> ev_state row \<noteq> Some Pending"
  shows "i \<notin> waiting cutoff s"
proof
  assume "i \<in> waiting cutoff s"
  then obtain e where e: "e \<in> set (ig_events s)" "te_id e = i" "ev_state e = Some Pending"
    by (auto simp: waiting_def awaits_handoff_def)
  then obtain row where r: "r = Some row" "row \<in> set (ig_events s)" "te_id row = i"
    using assms(2) by (cases r) (auto simp: find_None_iff find_Some_iff)
  then have "row = e"
    using e assms(1) by (auto simp: distinct_map inj_on_def)
  then show False
    using assms(3) r(1) e(3) by simp
qed

lemma grades_read_event:
  "grades hv i 1 (read_event env i) (\<lambda>r. case r of None \<Rightarrow> 2 | Some row \<Rightarrow> if ev_state row = Some Pending then 0 else 2)"
  unfolding read_event_def
proof (rule grades_query)
  fix s :: ingress_state and j
  let ?f = "case find (\<lambda>e. te_id e = i) (ig_events s) of
         None \<Rightarrow> (Inr None, s)
       | Some e \<Rightarrow> (if ev_payload e \<noteq> None \<and> \<not> te_readable e then Inl Payload_syntax else Inr (Some e), s)"
  show "hv j s \<le> hv j (snd ?f)"
    by (simp split: option.split)
  fix a
  assume a: "1 \<le> hv i s" "fst ?f = Inr a"
  then have "i \<notin> waiting cutoff s" if "case a of None \<Rightarrow> True | Some row \<Rightarrow> ev_state row \<noteq> Some Pending"
    using waiting_row [of s i a] that by (auto simp: handed_ge(1) split: option.splits if_splits simp del: One_nat_def)
  then show "(case a of None \<Rightarrow> 2 | Some row \<Rightarrow> if ev_state row = Some Pending then 0 else 2) \<le> hv i (snd ?f)"
    using a by (auto simp: handed_ge split: option.splits simp del: One_nat_def)
qed

lemma yields_read_event: "yields (trying (read_event env i)) (\<lambda>r. \<forall>row. r = Inr (Some row) \<longrightarrow> te_id row = i)"
  by (auto simp: yields_def trying_def read_event_def query_def Let_def find_Some_iff split: prod.splits option.splits if_splits)

lemma grades_handoff_row: "grades hv i 1 (handoff_row env i) (\<lambda>r. if r = Run_halted \<or> r = Row_kept then 0 else 2)"
proof -
  have pending: "grades hv i p (recover (handoff_pending env row) (\<lambda>_. succeed Row_kept)) (\<lambda>r. if r = Run_halted \<or> r = Row_kept then 0 else 2)"
    if "te_id row = i" "1 \<le> p" for row p
    using that grades_handoff_pending [of row]
    by (intro grades_recover grades_succeed grades_weaken [OF grades_handoff_pending [of row, unfolded that(1)]]) auto
  let ?q = "\<lambda>r. case r of Inl e \<Rightarrow> 1 | Inr None \<Rightarrow> 2 | Inr (Some row) \<Rightarrow> if ev_state row = Some Pending then 0 else (2 :: nat)"
  have read: "grades hv i 1 (trying (read_event env i)) ?q"
    using grades_trying [OF grades_read_event, of i] by (rule grades_weaken) (auto split: sum.split option.split)
  have "grades hv i 1 (if stop then succeed Run_halted else await (trying (read_event env i)) (\<lambda>r.
         case r of
           Inl _ \<Rightarrow> succeed Row_kept
         | Inr None \<Rightarrow> succeed Row_done
         | Inr (Some row) \<Rightarrow>
             if ev_state row \<noteq> Some Pending then succeed Row_done
             else if ev_payload row = None then succeed Row_kept
             else recover (handoff_pending env row) (\<lambda>_. succeed Row_kept))) (\<lambda>r. if r = Run_halted \<or> r = Row_kept then 0 else 2)" for stop
    by (intro grades_if grades_succeed grades_await_where [OF read yields_read_event])
      (auto split: sum.split option.split intro!: grades_succeed grades_if pending)
  then show ?thesis
    unfolding handoff_row_def by (intro grades_await [OF grades_aborted]) (simp add: max_def del: One_nat_def)
qed

text \<open>One batch: no id of it waits any more, but those set aside.\<close>

lemma handoff_row_returns: "never_throws (handoff_row env i)"
proof -
  have "never_throws (trying m)" for m :: "'a rec"
    by (auto simp: never_throws_def trying_def split: prod.split)
  then show ?thesis
    unfolding handoff_row_def aborted_def
    by (intro never_throws_await) (auto intro!: never_throws_await never_throws_recover split: sum.split option.split)
qed

lemma handoff_rows_settle:
  assumes "handoff_rows env retired kept is s = (r, s')" "distinct (map te_id (ig_events s))"
  obtains halt retired' kept' where "r = Inr (halt, retired', kept')" "distinct (map te_id (ig_events s'))" "waiting cutoff s' \<subseteq> waiting cutoff s"
    "set kept \<subseteq> set kept'" "\<not> halt \<Longrightarrow> set is \<inter> waiting cutoff s' \<subseteq> set kept'"
  using assms
proof (induction "is" arbitrary: retired kept s thesis)
  case Nil
  then show ?case
    by (auto simp: succeed_def)
next
  case (Cons i "is")
  obtain x s1 where row: "handoff_row env i s = (Inr x, s1)"
    using never_throwsD [OF handoff_row_returns, of i s] by (metis old.sum.exhaust surj_pair)
  have p: "1 \<le> hv i s"
    using Cons.prems(3) by (simp add: handed_ge(1) del: One_nat_def)
  have "hv y s \<le> hv y s1" for y
    using gradesD(1) [OF grades_handoff_row p, of y] row by simp
  note s1 = handed_mono [OF this Cons.prems(3)]
  have settled: "i \<notin> waiting cutoff s1" if "x \<notin> {Run_halted, Row_kept}"
    using gradesD(2) [OF grades_handoff_row p, of x] row that by (auto simp: handed_ge(2))
  show ?case
  proof (cases "x = Run_halted")
    case True
    then show ?thesis
      using Cons.prems row s1 by (auto simp: await_def succeed_def)
  next
    case False
    let ?kept = "if x = Row_kept then kept @ [i] else kept" and ?retired = "if x = Row_retired then retired + 1 else retired"
    have run: "handoff_rows env ?retired ?kept is s1 = (r, s')"
      using Cons.prems(2) row False by (cases x) (simp_all add: await_def)
    obtain halt retired' kept' where out: "r = Inr (halt, retired', kept')" "distinct (map te_id (ig_events s'))" "waiting cutoff s' \<subseteq> waiting cutoff s1"
        "set ?kept \<subseteq> set kept'" "\<not> halt \<Longrightarrow> set is \<inter> waiting cutoff s' \<subseteq> set kept'"
      using Cons.IH [OF _ run s1(1)] by blast
    show ?thesis
    proof (rule Cons.prems(1) [OF out(1,2)])
      show "waiting cutoff s' \<subseteq> waiting cutoff s" "set kept \<subseteq> set kept'"
        using out(3,4) s1(2) by (auto split: if_splits)
      show "set (i # is) \<inter> waiting cutoff s' \<subseteq> set kept'" if "\<not> halt"
        using out(3,4) out(5) [OF that] settled False by (cases "x = Row_kept") auto
    qed
  qed
qed

lemma aged_batch_ids:
  assumes "aged_batch env n cutoff kept s = (r, s1)"
  shows "ig_events s1 = ig_events s" "r = Inr is \<Longrightarrow> set is \<subseteq> waiting cutoff s - set kept"
proof -
  show "ig_events s1 = ig_events s"
    using assms by (auto simp: aged_batch_def query_def Let_def alone split: if_splits)
  have set: "set (ascending f xs) = set xs" for f :: "tracked_event \<Rightarrow> int" and xs
    by (induction xs) (simp_all add: ascending_def set_insort_key)
  assume "r = Inr is"
  then have "is = take n (map te_id (ascending te_created (filter (\<lambda>e. ev_state e = Some Pending \<and> te_created e < cutoff \<and> ev_payload e \<noteq> None
      \<and> te_id e \<notin> set kept) (ig_events s))))"
    using assms by (auto simp: aged_batch_def query_def Let_def alone split: if_splits)
  then show "set is \<subseteq> waiting cutoff s - set kept"
    using set_take_subset [of n] by (fastforce simp: waiting_def awaits_handoff_def set)
qed

lemma handoff_batches_end:
  assumes "distinct (map te_id (ig_events s))" "card (waiting cutoff s - set kept) < fuel"
  shows "fst (handoff_batches fuel env n cutoff retired kept s) \<noteq> Inr None"
  using assms
proof (induction fuel arbitrary: retired kept s)
  case (Suc fuel)
  obtain r s1 where batch: "aged_batch env n cutoff kept s = (r, s1)"
    by fastforce
  note s1 = aged_batch_ids [OF batch]
  show ?case
  proof (cases r)
    case (Inr "is")
    obtain x s2 where rows: "handoff_rows env retired kept is s1 = (x, s2)"
      by fastforce
    have d: "distinct (map te_id (ig_events s1))"
      using Suc.prems(1) s1(1) by simp
    obtain halt retired' kept' where out: "x = Inr (halt, retired', kept')" "distinct (map te_id (ig_events s2))"
        "waiting cutoff s2 \<subseteq> waiting cutoff s1" "set kept \<subseteq> set kept'" "\<not> halt \<Longrightarrow> set is \<inter> waiting cutoff s2 \<subseteq> set kept'"
      using handoff_rows_settle [OF rows d] by blast
    have run: "handoff_batches (Suc fuel) env n cutoff retired kept s = (if halt \<or> length is < n \<or> 10 * n \<le> length kept' then (Inr (Some retired'), s2)
        else handoff_batches fuel env n cutoff retired' kept' s2)"
      using batch rows Inr out(1) by (simp add: await_def succeed_def)
    show ?thesis
    proof (cases "halt \<or> length is < n \<or> 10 * n \<le> length kept'")
      case False
      then obtain i where i: "i \<in> set is"
        by (cases "is") auto
      then have "i \<in> waiting cutoff s - set kept" "i \<notin> waiting cutoff s2 - set kept'"
        using s1(2) [OF Inr] out(5) False by auto
      moreover have "waiting cutoff s2 - set kept' \<subseteq> waiting cutoff s - set kept"
        using out(3,4) s1(1) by (auto simp: waiting_def)
      moreover have "finite (waiting cutoff s)"
        by (simp add: waiting_def)
      ultimately have "card (waiting cutoff s2 - set kept') < card (waiting cutoff s - set kept)"
        by (intro psubset_card_mono) auto
      then show ?thesis
        using run False Suc.IH [OF out(2)] Suc.prems(2) by simp
    qed (simp only: run, simp)
  qed (use batch in \<open>simp add: await_def\<close>)
qed simp

end

definition alone :: "recovery_env \<Rightarrow> recovery_env" where
  "alone env = env\<lparr>meanwhile := \<lambda>n s. s\<rparr>"

interpretation lone: lone_handoff "alone env" cutoff for env cutoff
  by unfold_locales (simp add: alone_def)

end
