(* ===== verification/Ingress_Runs.thy ===== *)
theory Ingress_Runs
  imports Ingress_Handoff
begin

text \<open>
  What the queue worker of \<open>Ingress_Queue\<close> keeps of a delivery, and runs of all the operations on the deliveries.
\<close>

section \<open>The worker\<close>

text \<open>What keeps a delivery, and what keeps it besides the jobs of one id.\<close>

definition kept :: "delivery_key \<Rightarrow> ingress_state \<Rightarrow> bool" where
  "kept k s \<longleftrightarrow> noted_in k s \<or> live_in k s \<or> open_in k None s \<or> pending_in k s"

definition kept_besides :: "string \<Rightarrow> delivery_key \<Rightarrow> ingress_state \<Rightarrow> bool" where
  "kept_besides i k s \<longleftrightarrow> noted_in k s \<or> open_in k None s
     \<or> (\<exists>j \<in> set (ig_jobs s). data_key (qj_data j) = k \<and> qj_state j \<notin> {Job_completed, Job_failed} \<and> qj_id j \<noteq> i)"

lemma kept_level: "2 \<le> level hx born (k, None) s \<longleftrightarrow> tables_ok hx born s \<and> kept k s"
  by (simp add: level_ge(6) kept_def)

lemma kept_mono:
  assumes "\<And>i. level hx born i s \<le> level hx born i s'" "tables_ok hx born s"
  shows "tables_ok hx born s'" "kept k s \<Longrightarrow> kept k s'"
proof -
  show "tables_ok hx born s'"
    by (rule level_keeps_ok [OF assms])
  show "kept k s'" if "kept k s"
    using order_trans [OF _ assms(1), of 2 "(k, None)"] that assms(2) by (simp add: kept_level)
qed

lemma kept_besides_kept: "kept_besides i k s \<Longrightarrow> kept k s"
  by (auto simp: kept_besides_def kept_def live_in_def)

text \<open>A job changes its state.\<close>

lemma set_job_keeps:
  assumes ok: "tables_ok hx born s"
    and keyed: "\<forall>j \<in> set (ig_jobs s). qj_id j = i \<longrightarrow> data_key (qj_data j) = k"
    and same: "\<forall>j. qj_id (g j) = qj_id j \<and> qj_data (g j) = qj_data j"
    and completed: "\<forall>j. qj_state (g j) = Job_completed \<longrightarrow> qj_state j \<noteq> Job_completed \<longrightarrow> noted_in k s"
  shows "tables_ok hx born (set_job i g s)"
    and "k' \<noteq> k \<Longrightarrow> kept k' s \<Longrightarrow> kept k' (set_job i g s)"
    and "kept_besides i k s \<Longrightarrow> kept k (set_job i g s)"
    and "(\<And>j. qj_state j \<notin> {Job_completed, Job_failed} \<Longrightarrow> qj_state (g j) \<notin> {Job_completed, Job_failed}) \<Longrightarrow> kept k s \<Longrightarrow> kept k (set_job i g s)"
    and "j \<in> set (ig_jobs s) \<Longrightarrow> qj_id j = i \<Longrightarrow> qj_state (g j) \<notin> {Job_completed, Job_failed} \<Longrightarrow> kept k (set_job i g s)"
proof -
  note key = keyed [THEN bspec, THEN mp] and g = same [THEN spec] and completes = completed [THEN spec, THEN mp, THEN mp]
  let ?f = "\<lambda>j. if qj_id j = i then g j else j"
  have id: "qj_id (?f j) = qj_id j" "qj_data (?f j) = qj_data j" for j
    using g by simp_all
  have jobs: "set (ig_jobs (set_job i g s)) = ?f ` set (ig_jobs s)"
    by (simp add: set_job_def del: if_image_distrib)
  have frame: "noted_in x (set_job i g s) = noted_in x s" "open_in x None (set_job i g s) = open_in x None s" "pending_in x (set_job i g s) = pending_in x s" for x
    by (simp_all add: set_job_def)
  have live: "live_in x (set_job i g s)" if "j \<in> set (ig_jobs s)" "data_key (qj_data j) = x" "qj_state (?f j) \<notin> {Job_completed, Job_failed}" for j x
    unfolding live_in_def jobs using that id(2) [of j] by (intro bexI [where x = "?f j"]) (simp_all del: if_image_distrib)
  show "kept k (set_job i g s)" if "j \<in> set (ig_jobs s)" "qj_id j = i" "qj_state (g j) \<notin> {Job_completed, Job_failed}" for j
    using live [OF that(1) key [OF that(1,2)]] that(2,3) by (simp add: kept_def)
  show "kept k' (set_job i g s)" if "k' \<noteq> k" "kept k' s"
  proof -
    have "live_in k' (set_job i g s)" if "live_in k' s"
    proof -
      obtain j where j: "j \<in> set (ig_jobs s)" "data_key (qj_data j) = k'" "qj_state j \<notin> {Job_completed, Job_failed}"
        using \<open>live_in k' s\<close> by (auto simp: live_in_def)
      then have "qj_id j \<noteq> i"
        using key \<open>k' \<noteq> k\<close> by auto
      then show ?thesis
        using live [OF j(1,2)] j(3) by simp
    qed
    then show ?thesis
      using \<open>kept k' s\<close> unfolding kept_def frame by blast
  qed
  show "kept k (set_job i g s)" if "kept_besides i k s"
    using that live [OF _ refl] unfolding kept_def kept_besides_def frame by auto
  show "kept k (set_job i g s)"
    if alive: "\<And>j. qj_state j \<notin> {Job_completed, Job_failed} \<Longrightarrow> qj_state (g j) \<notin> {Job_completed, Job_failed}" and ks: "kept k s"
  proof -
    have "live_in k (set_job i g s)" if l: "live_in k s"
    proof -
      obtain j where j: "j \<in> set (ig_jobs s)" "data_key (qj_data j) = k" "qj_state j \<notin> {Job_completed, Job_failed}"
        using l by (auto simp: live_in_def)
      then show ?thesis
        using live [OF j(1,2)] alive [of j] by simp
    qed
    then show ?thesis
      using ks unfolding kept_def frame by blast
  qed
  have "job_ok hx born (?f j)" if "j \<in> set (ig_jobs s)" for j
    using ok that id [of j] by (simp add: tables_ok_def list_all_iff job_ok_def)
  moreover have "noted_in (data_key (qj_data (?f j))) s" if "j \<in> set (ig_jobs s)" "qj_state (?f j) = Job_completed" for j
    using ok that id(2) [of j] key [OF that(1)] completes [of j] by (cases "qj_id j = i \<and> qj_state j \<noteq> Job_completed") (auto simp: tables_ok_def)
  ultimately show "tables_ok hx born (set_job i g s)"
    using ok unfolding tables_ok_def list_all_iff jobs frame by (auto simp: set_job_def simp del: if_image_distrib)
qed

locale lone_worker = ingress_company +
  assumes alone: "meanwhile env n s = s"
begin

lemma dead_letter_open:
  assumes "key_ok (data_key d)" "jd_payload d \<noteq> None" "deadLetter env d a e b s = (Inr u, s')"
  shows "open_in (data_key d) None s'"
proof -
  have count: "open_in (data_key d) None t'" if "count_open env (data_key d) None t = (Inr n, t')" "0 < n" for t t' n
    using that by (auto simp: count_open_def query_def Let_def open_in_def filter_empty_conv split: if_splits)
  have save: "open_in (data_key d) None t'" if "save_letter env d a e t = (Inr w, t')" for t t' w
    using that letter_of_ok(2) [OF assms(1,2)] by (auto simp: save_letter_def query_def Let_def open_in_def split: if_splits)
  show ?thesis
    using assms(3) count save unfolding deadLetter_def
    by (auto simp: await_def succeed_def split: prod.splits sum.splits if_splits)
qed

lemma grades_deadLetter:
  assumes "key_ok (data_key d)" "jd_payload d \<noteq> None"
  shows "grades lv (data_key d, None) 1 (deadLetter env d a e b) (\<lambda>_. 0)"
proof -
  have hook: "grades lv (data_key d, None) p (outside env (\<lambda>n s. (if hook_throws env n then Inl Hook_threw else Inr (), s))) (\<lambda>_. 0)" for p
    by (rule grades_outside) auto
  have count: "grades lv (data_key d, None) p (if b then count_open env (data_key d) None else succeed 0) (\<lambda>_. 0)" for p
    by (auto intro!: grades_succeed grades_weaken [OF grades_count_open])
  show ?thesis
    unfolding deadLetter_def
    by (intro grades_await [OF hook] grades_await [OF count] grades_if grades_succeed
        grades_await [OF grades_weaken [OF grades_save_letter [OF assms], where q' = "\<lambda>_. 0"]]) auto
qed

lemma lone [simp]: "(meanwhile env n s)\<lparr>ig_ticks := m\<rparr> = s\<lparr>ig_ticks := m\<rparr>"
  by (simp add: alone)

text \<open>The copy: what else the queue held under its id is of the same delivery.\<close>

lemma remove_keeps:
  assumes "ok s" "key_ok k" "job_named (hex40 env) born k i" "queue_remove env i s = (r, s')"
  shows "ok s'" "k' \<noteq> k \<Longrightarrow> kept k' s \<Longrightarrow> kept k' s'"
proof -
  let ?t = "s\<lparr>ig_ticks := Suc (ig_ticks s), ig_jobs := filter (\<lambda>j. \<not> (qj_id j = i \<and> qj_state j \<noteq> Job_active)) (ig_jobs s)\<rparr>"
  have s': "s' = ?t \<or> s' = s\<lparr>ig_ticks := Suc (ig_ticks s)\<rparr>"
    using assms(4) by (auto simp: queue_remove_def redis_def Let_def split: if_splits)
  have "ok ?t"
    using assms(1) by (auto simp: tables_ok_def list_all_iff)
  then show "ok s'"
    using s' assms(1) by auto
  have "live_in k' ?t" if ne: "k' \<noteq> k" and live: "live_in k' s"
  proof -
    obtain j where j: "j \<in> set (ig_jobs s)" "data_key (qj_data j) = k'" "qj_state j \<notin> {Job_completed, Job_failed}"
      using live by (auto simp: live_in_def)
    have "qj_id j \<noteq> i"
      using job_named_inject [OF inj_ids hex_ids _ assms(2) _ assms(3), of k'] j(1,2) assms(1) ne
      by (auto simp: tables_ok_def list_all_iff job_ok_def)
    then show ?thesis
      using j by (auto simp: live_in_def)
  qed
  then show "kept k' s'" if "k' \<noteq> k" "kept k' s"
    using s' that by (auto simp: kept_def)
qed

lemma add_keeps:
  assumes "ok s" "key_ok (data_key d)" "jd_payload d \<noteq> None" "job_named (hex40 env) born (data_key d) i" "i \<noteq> i'"
    and "queue_add env i d a Job_delayed s = (r, s')"
  shows "ok s'" "kept k s \<Longrightarrow> kept k s'" "r = Inr u \<Longrightarrow> kept_besides i' (data_key d) s'"
proof -
  have up: "lv x s \<le> lv x s'" for x
    using gradesD(1) [OF grades_add [OF assms(2-4), of Job_delayed None a], of s x] assms(1,6) by simp
  show "ok s'" "kept k s \<Longrightarrow> kept k s'"
    using kept_mono [OF up assms(1)] by auto
  let ?s = "s\<lparr>ig_ticks := Suc (ig_ticks s)\<rparr>"
  have ok: "ok ?s"
    using assms(1) by simp
  assume "r = Inr u"
  then have s': "s' = (case find (\<lambda>j. qj_id j = i) (ig_jobs s) of
      Some j \<Rightarrow> if qj_state j = Job_failed then noted (data_key d) Swallowed_by_failed_job ?s else ?s
    | None \<Rightarrow> ?s\<lparr>ig_jobs := ig_jobs s @ [\<lparr>qj_id = i, qj_data = d, qj_state = Job_delayed, qj_made = 0, qj_attempts = a\<rparr>]\<rparr>)"
    using assms(6) by (auto simp: queue_add_def redis_def Let_def split: if_splits option.splits)
  show "kept_besides i' (data_key d) s'"
  proof (cases "find (\<lambda>j. qj_id j = i) (ig_jobs s)")
    case None
    then show ?thesis
      using s' assms(5) by (simp add: kept_besides_def)
  next
    case (Some j)
    then have j: "j \<in> set (ig_jobs s)" "qj_id j = i" "data_key (qj_data j) = data_key d"
      using found_job(1) [OF inj_ids hex_ids assms(1,2,4)] by (auto simp: find_Some_iff)
    then show ?thesis
      using s' Some assms(1,5) by (cases "qj_state j") (auto simp: kept_besides_def tables_ok_def)
  qed
qed

lemma requeue_keeps:
  assumes "ok s" "job_ok (hex40 env) born j" "deadLetterOrRequeue env j a e s = (r, s')"
  shows "ok s' \<and> (\<forall>k'. k' \<noteq> data_key (qj_data j) \<longrightarrow> kept k' s \<longrightarrow> kept k' s') \<and> kept_besides (qj_id j) (data_key (qj_data j)) s'"
proof -
  let ?d = "qj_data j" and ?k = "data_key (qj_data j)"
  let ?i = "if qj_id j = fst (requeuedJobIds (base_id (qj_id j))) then snd (requeuedJobIds (base_id (qj_id j))) else fst (requeuedJobIds (base_id (qj_id j)))"
  have j: "key_ok ?k" "jd_payload ?d \<noteq> None" "job_named (hex40 env) born ?k (qj_id j)"
    using assms(2) by (auto simp: job_ok_def)
  have i: "job_named (hex40 env) born ?k ?i"
    using named_copy [OF j(3) hex_ids] by auto
  have "snd (requeuedJobIds b) \<noteq> fst (requeuedJobIds b)" for b
    by (simp add: requeuedJobIds_def)
  then have ne: "?i \<noteq> qj_id j"
    by metis
  have s': "s' = snd (deadLetterOrRequeue env j a e s)"
    using assms(3) by simp
  have requeue: "deadLetterOrRequeue env j a e = recover (deadLetter env ?d a e (REQUEUED_JOB_ID (qj_id j)))
      (\<lambda>_. recover (await (queue_remove env ?i) (\<lambda>_. queue_add env ?i ?d (qj_attempts j) Job_delayed)) (\<lambda>_. modify (noted ?k Left_in_failed_job)))"
    unfolding deadLetterOrRequeue_def Let_def case_prod_unfold by (rule refl)
  obtain x s1 where dead: "deadLetter env ?d a e (REQUEUED_JOB_ID (qj_id j)) s = (x, s1)"
    by fastforce
  have up: "lv y s \<le> lv y s1" for y
    using gradesD(1) [OF grades_deadLetter [OF j(1,2)], of s y a e "REQUEUED_JOB_ID (qj_id j)"] dead assms(1) by simp
  note s1 = kept_mono [OF up assms(1)]
  show ?thesis
  proof (cases x)
    case (Inr u)
    then have "s' = s1" "open_in ?k None s1"
      using assms(3) dead dead_letter_open [OF j(1,2)] by (auto simp: deadLetterOrRequeue_def recover_def)
    then show ?thesis
      using s1 by (auto simp: kept_besides_def)
  next
    case (Inl err)
    obtain y s2 where rem: "queue_remove env ?i s1 = (y, s2)"
      by fastforce
    note s2 = remove_keeps [OF s1(1) j(1) i rem]
    obtain z s3 where add: "queue_add env ?i ?d (qj_attempts j) Job_delayed s2 = (z, s3)"
      by fastforce
    note s3 = add_keeps [OF s2(1) j(1,2) i ne add]
    have "s' = (case y of Inl _ \<Rightarrow> noted ?k Left_in_failed_job s2
        | Inr _ \<Rightarrow> (case z of Inl _ \<Rightarrow> noted ?k Left_in_failed_job s3 | Inr _ \<Rightarrow> s3))"
      using s' dead Inl rem add unfolding requeue by (cases y; cases z) (simp_all add: recover_def await_def modify_def)
    moreover have "kept k' (noted ?k n t)" if "kept k' t" for k' n t
      using that by (auto simp: kept_def)
    moreover have "kept_besides x ?k (noted ?k n t)" for x n t
      by (simp add: kept_besides_def)
    ultimately show ?thesis
      using s1 s2 s3 tables_ok_noted by (cases y; cases z) auto
  qed
qed

lemma job_id_key:
  assumes "ok s" "job_ok (hex40 env) born j" "x \<in> set (ig_jobs s)" "qj_id x = qj_id j"
  shows "data_key (qj_data x) = data_key (qj_data j)"
  using assms job_named_inject [OF inj_ids hex_ids, of "data_key (qj_data x)" "data_key (qj_data j)" born "qj_id j"]
  by (auto simp: tables_ok_def list_all_iff job_ok_def)

lemma settleRequeued_notes: "ig_notes (snd (settleRequeued env d s)) = ig_notes s"
  by (simp add: settleRequeued_def retireOpenDeadLetters_def recover_def await_def succeed_def query_def change_events_def change_letters_def Let_def)

lemma settleRequeued_keeps:
  assumes "ok s" "noted_in (data_key d) s"
  shows "ok (snd (settleRequeued env d s))" "kept k s \<Longrightarrow> kept k (snd (settleRequeued env d s))"
proof -
  have "grades lv (data_key d, None) 5 (settleRequeued env d) (\<lambda>_. 0)"
    unfolding settleRequeued_def
    by (intro grades_recover grades_await [OF grades_mark] grades_await [OF grades_weaken [OF grades_retire_open, where q' = "\<lambda>_. 0"]] grades_succeed) auto
  then have "lv x s \<le> lv x (snd (settleRequeued env d s))" for x
    using gradesD(1) assms by (fastforce simp: level_ge(2))
  then show "ok (snd (settleRequeued env d s))" "kept k s \<Longrightarrow> kept k (snd (settleRequeued env d s))"
    using kept_mono [OF _ assms(1)] by blast+
qed

text \<open>One run of a job, by what its dispatch gave.\<close>

lemma process_runs:
  assumes "process env j s = (r, s')"
  shows "(\<exists>t. r = Inr (Run_delayed t) \<and> s' = s)
    \<or> (r = Inr Run_done \<and> s' = (if REQUEUED_JOB_ID (qj_id j)
        then snd (settleRequeued env (qj_data j) (noted (data_key (qj_data j)) Taken_by_plugin (s\<lparr>ig_ticks := Suc (ig_ticks s)\<rparr>)))
        else noted (data_key (qj_data j)) Taken_by_plugin (s\<lparr>ig_ticks := Suc (ig_ticks s)\<rparr>)))
    \<or> (\<exists>error. r = Inr (Run_error error) \<and> error \<noteq> rate_limit_text env
        \<and> (if (case qj_attempts j of None \<Rightarrow> 1 | Some a \<Rightarrow> a) \<le> qj_made j + 1
           then \<exists>m. s' = snd (deadLetterOrRequeue env j (int (qj_made j) + 1) m (s\<lparr>ig_ticks := Suc (ig_ticks s)\<rparr>))
           else s' = s\<lparr>ig_ticks := Suc (ig_ticks s)\<rparr>))"
proof -
  have safe: "never_throws (settleRequeued env d)" "never_throws (deadLetterOrRequeue env j a e)" for d a e
    unfolding settleRequeued_def deadLetterOrRequeue_def by (intro never_throws_recover never_throws_simps)+
  have ran: "m t = (Inr (), snd (m t))" if "never_throws m" for m :: "unit rec" and t
    using never_throwsD [OF that, of t] by (cases "m t"; cases "fst (m t)") auto
  let ?d = "qj_data j" and ?s = "s\<lparr>ig_ticks := Suc (ig_ticks s)\<rparr>"
  have then_do: "await m f t = f () (snd (m t))" if "never_throws m" for m :: "unit rec" and f :: "unit \<Rightarrow> run_result rec" and t
    unfolding await_def by (subst ran [OF that]) simp
  have inline: "dispatch_inline env ?d s = (case dispatch_result env (ig_ticks s) ?d of
      None \<Rightarrow> (Inr Dispatched_inline, noted (data_key ?d) Taken_by_plugin ?s) | Some error \<Rightarrow> (Inr (Dispatch_failed error), ?s))"
    by (simp add: dispatch_inline_def outside_def Let_def alone)
  show ?thesis
  proof (cases "restoring env (ig_ticks s) (jd_plugin ?d)")
    case True
    then show ?thesis
      using assms by (auto simp: process_def await_def inspect_def succeed_def Let_def)
  next
    case False
    then have run: "process env j s = await (dispatch_inline env ?d) (\<lambda>r.
          case r of
            Dispatch_failed error \<Rightarrow>
              await (if (case qj_attempts j of None \<Rightarrow> 1 | Some a \<Rightarrow> a) \<le> qj_made j + 1
                     then deadLetterOrRequeue env j (int (qj_made j) + 1) error else succeed ()) (\<lambda>_.
                succeed (Run_error (if error = rate_limit_text env then ''Ingress dispatch failed: '' @ error else error)))
          | _ \<Rightarrow> await (if REQUEUED_JOB_ID (qj_id j) then settleRequeued env ?d else succeed ()) (\<lambda>_. succeed Run_done)) s"
      unfolding process_def Let_def await_inspect by (simp only: prod.case if_False)
    show ?thesis
    proof (cases "dispatch_result env (ig_ticks s) ?d")
      case None
      then show ?thesis
        using assms unfolding run by (auto simp: await_def [of "dispatch_inline env ?d"] inline then_do [OF safe(1)] succeed_def split: if_splits)
    next
      case (Some error)
      let ?x = "if error = rate_limit_text env then ''Ingress dispatch failed: '' @ error else error"
      let ?last = "(case qj_attempts j of None \<Rightarrow> 1 | Some a \<Rightarrow> a) \<le> qj_made j + 1"
      have ne: "?x \<noteq> rate_limit_text env"
        by (cases "error = rate_limit_text env") (simp_all del: append_Cons)
      have "process env j s = await (if ?last then deadLetterOrRequeue env j (int (qj_made j) + 1) error else succeed ()) (\<lambda>_. succeed (Run_error ?x)) ?s"
        unfolding run by (simp only: await_def [of "dispatch_inline env ?d"] inline Some option.case prod.case sum.case enqueue_outcome.case)
      also have "\<dots> = (Inr (Run_error ?x), if ?last then snd (deadLetterOrRequeue env j (int (qj_made j) + 1) error ?s) else ?s)"
        by (cases ?last) (simp_all only: if_True if_False then_do [OF safe(2)] await_succeed succeed_def)
      finally show ?thesis
        using assms ne by (intro disjI2 exI [where x = ?x]) (simp only: prod.inject split: if_split, blast)
    qed
  qed
qed

lemma run_job_keeps:
  assumes "ok s"
  shows "ok (run_job env i s) \<and> (kept k s \<longrightarrow> kept k (run_job env i s))"
proof (cases "find (\<lambda>j. qj_id j = i \<and> qj_state j = Job_active) (ig_jobs s)")
  case (Some j)
  then have j: "j \<in> set (ig_jobs s)" "qj_id j = i" "job_ok (hex40 env) born j"
    using assms by (auto simp: find_Some_iff tables_ok_def list_all_iff)
  let ?k = "data_key (qj_data j)" and ?s = "s\<lparr>ig_ticks := Suc (ig_ticks s)\<rparr>"
  obtain r s' where run: "process env j s = (r, s')"
    by fastforce
  have out: "run_job env i s = (case r of Inr x \<Rightarrow> set_job i (settle_job env x) s' | Inl _ \<Rightarrow> s')"
    using Some run by (simp add: run_job_def)
  have key: "\<forall>x \<in> set (ig_jobs t). qj_id x = i \<longrightarrow> data_key (qj_data x) = ?k" if "ok t" for t
    using job_id_key [OF that j(3)] j(2) by simp
  have same: "\<forall>y. qj_id (settle_job env x y) = qj_id y \<and> qj_data (settle_job env x y) = qj_data y" for x
    by (cases x) simp_all
  have okt: "ok ?s" "kept k ?s = kept k s" for k
    using assms by (simp_all add: kept_def)
  consider (delayed) t where "r = Inr (Run_delayed t)" "s' = s"
    | (taken) "r = Inr Run_done" "s' = (if REQUEUED_JOB_ID (qj_id j)
        then snd (settleRequeued env (qj_data j) (noted ?k Taken_by_plugin ?s)) else noted ?k Taken_by_plugin ?s)"
    | (error) error where "r = Inr (Run_error error)" "error \<noteq> rate_limit_text env"
        "if (case qj_attempts j of None \<Rightarrow> 1 | Some a \<Rightarrow> a) \<le> qj_made j + 1
         then \<exists>m. s' = snd (deadLetterOrRequeue env j (int (qj_made j) + 1) m ?s) else s' = ?s"
    using process_runs [OF run] by blast
  then show ?thesis
  proof cases
    case delayed
    have "\<forall>y. qj_state (settle_job env (Run_delayed t) y) = Job_completed \<longrightarrow> qj_state y \<noteq> Job_completed \<longrightarrow> noted_in ?k s"
      by simp
    note keeps = set_job_keeps(1,2,4) [OF assms key [OF assms] same [of "Run_delayed t"] this]
    have "kept ?k s \<Longrightarrow> kept ?k (set_job i (settle_job env (Run_delayed t)) s)"
      by (rule keeps(3)) simp_all
    then show ?thesis
      using keeps(1) keeps(2) [where k' = k] out delayed by (cases "k = ?k") (simp_all del: settle_job.simps)
  next
    case taken
    have n: "ok (noted ?k Taken_by_plugin ?s)" "noted_in ?k (noted ?k Taken_by_plugin ?s)" "kept k s \<Longrightarrow> kept k (noted ?k Taken_by_plugin ?s)" for k
      using tables_ok_noted [OF okt(1)] okt(2) by (auto simp: kept_def)
    have s': "ok s'" "noted_in ?k s'" "kept k s \<Longrightarrow> kept k s'" for k
      using taken(2) n settleRequeued_keeps [OF n(1,2)] settleRequeued_notes by (auto simp: noted_in_def)
    then have b: "kept_besides i ?k s'" and d: "\<forall>y. qj_state (settle_job env Run_done y) = Job_completed \<longrightarrow> qj_state y \<noteq> Job_completed \<longrightarrow> noted_in ?k s'"
      by (simp_all add: kept_besides_def)
    note keeps = set_job_keeps(1-3) [OF s'(1) key [OF s'(1)] same [of Run_done] d]
    show ?thesis
      using keeps(1) keeps(2) [where k' = k] keeps(3) [OF b] s'(3) [of k] out taken(1) by (cases "k = ?k") (simp_all del: settle_job.simps)
  next
    case error
    have c: "\<forall>y. qj_state (settle_job env (Run_error error) y) = Job_completed \<longrightarrow> qj_state y \<noteq> Job_completed \<longrightarrow> noted_in ?k t" for t
      using error(2) by simp
    show ?thesis
    proof (cases "(case qj_attempts j of None \<Rightarrow> 1 | Some a \<Rightarrow> a) \<le> qj_made j + 1")
      case True
      then obtain m where "s' = snd (deadLetterOrRequeue env j (int (qj_made j) + 1) m ?s)"
        using error(3) by auto
      then have s': "ok s'" "\<And>k'. k' \<noteq> ?k \<Longrightarrow> kept k' s \<Longrightarrow> kept k' s'" "kept_besides i ?k s'"
        using requeue_keeps [OF okt(1) j(3), of "int (qj_made j) + 1" m] okt(2) j(2) by (metis prod.collapse)+
      note keeps = set_job_keeps(1-3) [OF s'(1) key [OF s'(1)] same [of "Run_error error"] c]
      show ?thesis
        using keeps(1) keeps(2) [where k' = k] keeps(3) [OF s'(3)] s'(2) [of k] out error(1) by (cases "k = ?k") (simp_all del: settle_job.simps)
    next
      case False
      then have s': "s' = ?s" "qj_state (settle_job env (Run_error error) j) \<notin> {Job_completed, Job_failed}" "j \<in> set (ig_jobs s')"
        using error j(1) by auto
      note keeps = set_job_keeps(1,2,5) [OF okt(1) key [OF okt(1)] same [of "Run_error error"] c]
      show ?thesis
        using keeps(1) keeps(2) [where k' = k] keeps(3) [where j = j] okt(2) [of k] s' out error(1) j(2) by (cases "k = ?k") (simp_all del: settle_job.simps)
    qed
  qed
qed (simp add: run_job_def assms)

lemma stall_job_keeps:
  assumes "ok s"
  shows "ok (stall_job env i s) \<and> (kept k s \<longrightarrow> kept k (stall_job env i s))"
proof (cases "find (\<lambda>j. qj_id j = i \<and> qj_state j = Job_active) (ig_jobs s)")
  case (Some j)
  then have j: "j \<in> set (ig_jobs s)" "qj_id j = i" "job_ok (hex40 env) born j"
    using assms by (auto simp: find_Some_iff tables_ok_def list_all_iff)
  let ?g = "\<lambda>j. j\<lparr>qj_state := Job_failed\<rparr>" and ?k = "data_key (qj_data j)"
  have key: "\<forall>x \<in> set (ig_jobs s). qj_id x = i \<longrightarrow> data_key (qj_data x) = ?k"
    using job_id_key [OF assms j(3)] j(2) by simp
  note failed = set_job_keeps(1,2) [OF assms key, of ?g]
  have s1: "ok (set_job i ?g s)" "k \<noteq> ?k \<Longrightarrow> kept k s \<Longrightarrow> kept k (set_job i ?g s)" for k
    by (rule failed(1), simp_all) (rule failed(2), simp_all)
  let ?s' = "snd (deadLetterOrRequeue env j (int (qj_made j)) STALL_EXHAUSTION_MESSAGE (set_job i ?g s))"
  have "stall_job env i s = ?s'"
    using Some by (simp add: stall_job_def onWorkerFailed_def)
  moreover have "ok ?s' \<and> (\<forall>k'. k' \<noteq> ?k \<longrightarrow> kept k' (set_job i ?g s) \<longrightarrow> kept k' ?s') \<and> kept_besides (qj_id j) ?k ?s'"
    by (rule requeue_keeps [OF s1(1) j(3)]) (rule prod.collapse [symmetric])
  ultimately show ?thesis
    using s1(2) [of k] kept_besides_kept [of "qj_id j" ?k] by metis
qed (simp add: stall_job_def assms)

end

text \<open>Taking a job, and dropping settled ones, keep the levels.\<close>

lemma level_jobs:
  assumes "tables_ok hx born s \<Longrightarrow> tables_ok hx born (s\<lparr>ig_jobs := js\<rparr>)" "\<And>k. live_in k s \<Longrightarrow> live_in k (s\<lparr>ig_jobs := js\<rparr>)"
  shows "level hx born i s \<le> level hx born i (s\<lparr>ig_jobs := js\<rparr>)"
  using assms(2) [of "fst i"] by (intro level_mono assms(1)) (auto simp: pending_not_dispatched)

lemma level_take_job: "level hx born i s \<le> level hx born i (take_job x s)"
proof -
  define f :: "queue_job \<Rightarrow> queue_job" where
    "f = (\<lambda>j. if qj_id j = x then (if qj_state j \<in> {Job_waiting, Job_delayed} then j\<lparr>qj_state := Job_active\<rparr> else j) else j)"
  have f: "qj_id (f j) = qj_id j" "qj_data (f j) = qj_data j" "qj_state (f j) = Job_completed \<longleftrightarrow> qj_state j = Job_completed"
      "qj_state (f j) = Job_failed \<longleftrightarrow> qj_state j = Job_failed" for j
    by (auto simp: f_def)
  have "level hx born i s \<le> level hx born i (s\<lparr>ig_jobs := map f (ig_jobs s)\<rparr>)"
    by (rule level_jobs) (simp_all add: tables_ok_def list_all_iff job_ok_def live_in_def f)
  then show ?thesis
    by (simp only: take_job_def set_job_def f_def)
qed

lemma level_prune_jobs: "level hx born i s \<le> level hx born i (prune_jobs P s)"
  unfolding prune_jobs_def by (rule level_jobs) (auto simp: tables_ok_def list_all_iff live_in_def)

section \<open>Runs\<close>

text \<open>
  The calls that may run between the steps of one another: a request past the door, a pass of the sweep, the hand-off, a
  redrive, a prune, the queue's taking a job and its dropping settled ones.
\<close>

datatype 'e ig_call =
    Accept 'e ingress_event ingress_job
  | Sweep 'e reconciler_opts bool
  | Handoff 'e nat int nat
  | Redrive 'e string string "string option"
  | Prune 'e nat int "int option"
  | Take string
  | Drop_settled "queue_job \<Rightarrow> bool"

fun perform :: "'x recovery_env_scheme ig_call \<Rightarrow> ingress_state \<Rightarrow> ingress_state" where
  "perform (Accept env e j) s = snd (accept env e j s)"
| "perform (Sweep env opts busy) s = snd (sweep env opts busy s)"
| "perform (Handoff env fuel cutoff n) s = snd (deadLetterAgedPending fuel env cutoff n s)"
| "perform (Redrive env p i scope) s = snd (redriveBatch env p i scope s)"
| "perform (Prune env fuel days fdays) s = snd (pruneOlderThan fuel env days fdays s)"
| "perform (Take i) s = take_job i s"
| "perform (Drop_settled P) s = prune_jobs P s"

text \<open>A call with what the others do before each of its steps, made of such plans themselves.\<close>

datatype plan = Plan "nat \<Rightarrow> plan list" "recovery_env ig_call"

definition among :: "(nat \<Rightarrow> (ingress_state \<Rightarrow> ingress_state) list) \<Rightarrow> recovery_env \<Rightarrow> recovery_env" where
  "among fs env = env\<lparr>meanwhile := \<lambda>n. fold (\<lambda>f. f) (fs n)\<rparr>"

primrec follow :: "plan \<Rightarrow> ingress_state \<Rightarrow> ingress_state" where
  "follow (Plan company c) = perform (map_ig_call (among (\<lambda>n. map follow (company n))) c)"

text \<open>
  The worker runs its jobs one at a time, each run to its end, between the calls: a run of a job is not interleaved with the
  statements of a call. (\<open>failing_job_during_sweep_retires_delivery\<close> below shows what such an interleaving can do.)
\<close>

datatype ig_step = Call plan | Run_job recovery_env string | Stall_job recovery_env string

fun take_step :: "ig_step \<Rightarrow> ingress_state \<Rightarrow> ingress_state" where
  "take_step (Call p) s = follow p s"
| "take_step (Run_job env i) s = run_job (alone env) i s"
| "take_step (Stall_job env i) s = stall_job (alone env) i s"

text \<open>
  What is asked of a call: digests of different texts differ, a new row's id names its delivery, and the door hands on the
  row and the job of one delivery.
\<close>

definition sound_ids :: "(string \<Rightarrow> string) \<Rightarrow> (string \<Rightarrow> delivery_key) \<Rightarrow> recovery_env \<Rightarrow> bool" where
  "sound_ids hx born env \<longleftrightarrow> hex40 env = hx \<and> inj hx \<and> (\<forall>t. list_all is_hex (hx t)) \<and> (\<forall>n k. born (mint env n k) = k)"

fun sound_call :: "(recovery_env \<Rightarrow> bool) \<Rightarrow> recovery_env ig_call \<Rightarrow> bool" where
  "sound_call Q (Accept env e j) \<longleftrightarrow> Q env \<and> stored_for e j"
| "sound_call Q (Sweep env opts busy) \<longleftrightarrow> Q env"
| "sound_call Q (Handoff env fuel cutoff n) \<longleftrightarrow> Q env"
| "sound_call Q (Redrive env p i scope) \<longleftrightarrow> Q env"
| "sound_call Q (Prune env fuel days fdays) \<longleftrightarrow> Q env"
| "sound_call Q (Take i) \<longleftrightarrow> True"
| "sound_call Q (Drop_settled P) \<longleftrightarrow> True"

primrec sound_plan :: "(recovery_env \<Rightarrow> bool) \<Rightarrow> plan \<Rightarrow> bool" where
  "sound_plan Q (Plan company c) \<longleftrightarrow> sound_call Q c \<and> (\<forall>n. list_all id (map (sound_plan Q) (company n)))"

fun sound_step :: "(recovery_env \<Rightarrow> bool) \<Rightarrow> ig_step \<Rightarrow> bool" where
  "sound_step Q (Call p) \<longleftrightarrow> sound_plan Q p"
| "sound_step Q (Run_job env i) \<longleftrightarrow> Q env"
| "sound_step Q (Stall_job env i) \<longleftrightarrow> Q env"

lemma company_up:
  assumes "grades (level (hex40 env) born) i 1 m q" "hex40 env = hx" "tables_ok hx born s"
  shows "level hx born i s \<le> level hx born i (snd (m s))"
  using gradesD(1) [OF assms(1), of s i] assms(2,3) by simp

lemma perform_keeps:
  assumes "sound_call Q c" "\<And>env. Q env \<Longrightarrow> ingress_company (f env) born \<and> hex40 (f env) = hx"
  shows "level hx born i s \<le> level hx born i (perform (map_ig_call f c) s)"
proof (cases "tables_ok hx born s")
  case ok: True
  show ?thesis
  proof (cases c)
    case (Accept env e j)
    then have "ingress_company (f env) born" "hex40 (f env) = hx" "stored_for e j"
      using assms by auto
    then show ?thesis
      using ingress_company.accept_keeps(1) [of "f env" born e j i s i] Accept ok by simp
  next
    case (Sweep env opts busy)
    then show ?thesis
      using company_up [OF ingress_company.grades_sweep [OF assms(2) [THEN conjunct1]]] assms ok by simp
  next
    case (Handoff env fuel cutoff n)
    then show ?thesis
      using company_up [OF ingress_company.grades_handoff [OF assms(2) [THEN conjunct1]]] assms ok by simp
  next
    case (Redrive env p x scope)
    then show ?thesis
      using company_up [OF ingress_company.grades_redriveBatch [OF assms(2) [THEN conjunct1]]] assms ok by simp
  next
    case (Prune env fuel days fdays)
    then show ?thesis
      using company_up [OF ingress_company.grades_prune [OF assms(2) [THEN conjunct1]]] assms ok by simp
  qed (simp_all add: level_take_job level_prune_jobs)
qed (simp add: level_def)

lemma among_company:
  assumes "sound_ids hx born env" "\<forall>n. \<forall>f \<in> set (fs n). \<forall>i s. level hx born i s \<le> level hx born i (f s)"
  shows "ingress_company (among fs env) born \<and> hex40 (among fs env) = hx"
proof -
  have "level hx born i s \<le> level hx born i (fold (\<lambda>f. f) (fs n) s)" for i s n
    by (rule fold_raises) (use assms(2) in blast)
  then show ?thesis
    using assms(1) by (simp add: ingress_company_def among_def sound_ids_def)
qed

lemma follow_keeps:
  assumes "sound_plan (sound_ids hx born) p"
  shows "level hx born i s \<le> level hx born i (follow p s)"
  using assms
proof (induction p arbitrary: i s)
  case (Plan company c)
  have "\<forall>n. \<forall>f \<in> set (map follow (company n)). \<forall>i s. level hx born i s \<le> level hx born i (f s)"
    using Plan.prems Plan.IH [OF rangeI] by (simp add: list_all_iff)
  then show ?case
    using perform_keeps [of "sound_ids hx born" c "among (\<lambda>n. map follow (company n))"] among_company Plan.prems by simp
qed

lemma company_of_plan:
  assumes "sound_plan (sound_ids hx born) (Plan company c)" "sound_ids hx born env"
  shows "ingress_company (among (\<lambda>n. map follow (company n)) env) born \<and> hex40 (among (\<lambda>n. map follow (company n)) env) = hx"
  using assms(1) by (intro among_company [OF assms(2)]) (auto simp: list_all_iff follow_keeps)

lemma lone_worker_alone:
  assumes "sound_ids hx born env"
  shows "lone_worker (alone env) born" "hex40 (alone env) = hx"
  using assms by (simp_all add: lone_worker_def ingress_company_def lone_worker_axioms_def alone_def sound_ids_def)

lemma step_keeps:
  assumes "sound_step (sound_ids hx born) x" "tables_ok hx born s"
  shows "tables_ok hx born (take_step x s)" "kept k s \<Longrightarrow> kept k (take_step x s)"
proof -
  have "tables_ok hx born (take_step x s) \<and> (kept k s \<longrightarrow> kept k (take_step x s))"
  proof (cases x)
    case (Call p)
    then show ?thesis
      using kept_mono [OF follow_keeps [of hx born p] assms(2)] assms(1) by auto
  next
    case (Run_job env i)
    then show ?thesis
      using lone_worker.run_job_keeps [OF lone_worker_alone(1) [of hx born env]] lone_worker_alone(2) [of hx born env] assms by auto
  next
    case (Stall_job env i)
    then show ?thesis
      using lone_worker.stall_job_keeps [OF lone_worker_alone(1) [of hx born env]] lone_worker_alone(2) [of hx born env] assms by auto
  qed
  then show "tables_ok hx born (take_step x s)" "kept k s \<Longrightarrow> kept k (take_step x s)"
    by blast+
qed

lemma steps_keep:
  assumes "list_all (sound_step (sound_ids hx born)) xs" "tables_ok hx born s"
  shows "tables_ok hx born (fold take_step xs s)" "kept k s \<Longrightarrow> kept k (fold take_step xs s)"
  using assms by (induction xs arbitrary: s) (auto simp: step_keeps)

section \<open>Ids that name their deliveries\<close>

text \<open>Ids that tell their texts and deliveries apart: two hex digits a character, and a new row's id that spells out its key.\<close>

definition hex_text :: "string \<Rightarrow> string" where
  "hex_text t = concat (map (\<lambda>c. [hex_digit (of_char c div 16), hex_digit (of_char c mod 16)]) t)"

definition spelled :: "nat \<Rightarrow> delivery_key \<Rightarrow> string" where
  "spelled n k = (case k of (p, i, d) \<Rightarrow>
     nat_string n @ CHR ''-'' # replicate (length p) (CHR ''x'') @ CHR ''-'' # replicate (length i) (CHR ''x'') @ CHR ''-'' # p @ i @ d)"

definition spelled_key :: "string \<Rightarrow> delivery_key" where
  "spelled_key x =
     (let a = tl (dropWhile (\<lambda>c. c \<noteq> CHR ''-'') x); p = length (takeWhile (\<lambda>c. c \<noteq> CHR ''-'') a);
          b = tl (dropWhile (\<lambda>c. c \<noteq> CHR ''-'') a); i = length (takeWhile (\<lambda>c. c \<noteq> CHR ''-'') b);
          r = tl (dropWhile (\<lambda>c. c \<noteq> CHR ''-'') b)
      in (take p r, take i (drop p r), drop (p + i) r))"

definition coded :: "recovery_env \<Rightarrow> recovery_env" where
  "coded env = env\<lparr>hex40 := hex_text, mint := spelled\<rparr>"

lemma spelled_key: "spelled_key (spelled n k) = k"
proof -
  obtain p i d where k: "k = (p, i, d)"
    by (cases k)
  have digits: "\<forall>c \<in> set (nat_string n). c \<noteq> CHR ''-''"
    using nat_string_digits [of n] by (auto simp: list_all_iff is_digit_def)
  have cut: "tl (dropWhile (\<lambda>c. c \<noteq> CHR ''-'') (u @ CHR ''-'' # v)) = v" "takeWhile (\<lambda>c. c \<noteq> CHR ''-'') (u @ CHR ''-'' # v) = u"
    if "\<forall>c \<in> set u. c \<noteq> CHR ''-''" for u v
    using that by (simp_all add: dropWhile_append3 takeWhile_append2)
  have x: "\<forall>c \<in> set (replicate m (CHR ''x'')). c \<noteq> CHR ''-''" for m
    by simp
  show ?thesis
    by (simp add: spelled_key_def spelled_def k Let_def cut [OF digits] cut [OF x] del: dropWhile_append takeWhile_append)
qed

lemma hex_digit_inject: "m < 16 \<Longrightarrow> n < 16 \<Longrightarrow> hex_digit m = hex_digit n \<Longrightarrow> m = n"
  by (drule arg_cong [where f = "of_char :: char \<Rightarrow> nat"]) (auto simp: hex_digit_def split: if_splits)

lemma hex_text_sound: "inj hex_text" "list_all is_hex (hex_text t)"
proof -
  have "a = b" if "hex_text a = hex_text b" for a b
    using that
  proof (induction a arbitrary: b)
    case Nil
    then show ?case
      by (cases b) (simp_all add: hex_text_def)
  next
    case (Cons c a)
    then obtain c' b' where b: "b = c' # b'"
      by (cases b) (auto simp: hex_text_def)
    have "of_char c div 16 < (16 :: nat)" for c :: char
      by (simp add: div_less_iff_less_mult)
    then have "of_char c div 16 = (of_char c' div 16 :: nat)" "of_char c mod 16 = (of_char c' mod 16 :: nat)"
      using Cons.prems b by (auto intro!: hex_digit_inject simp: hex_text_def)
    then have "of_char c = (of_char c' :: nat)"
      by (metis div_mult_mod_eq)
    then show ?case
      using Cons b by (simp add: hex_text_def)
  qed
  then show "inj hex_text"
    by (intro injI)
  have "is_hex (hex_digit m)" if "m < 16" for m
    using that by (auto simp: is_hex_def is_digit_def hex_digit_def less_eq_char_def split: if_splits)
  then show "list_all is_hex (hex_text t)"
    by (induction t) (simp_all add: hex_text_def div_less_iff_less_mult)
qed

lemma coded_sound: "sound_ids hex_text spelled_key (coded env)"
  by (simp add: sound_ids_def coded_def hex_text_sound spelled_key)

text \<open>A call while the queue takes and drops jobs, and a worker, under these ids.\<close>

interpretation busy_queue: ingress_company "among (\<lambda>n. map take_job (taken n) @ [prune_jobs (P n)]) (coded env)" spelled_key for taken P env
proof
  let ?e = "among (\<lambda>n. map take_job (taken n) @ [prune_jobs (P n)]) (coded env)"
  have "level hx born i s \<le> level hx born i (fold (\<lambda>f. f) (map take_job (taken n) @ [prune_jobs (P n)]) s)" for hx born i s n
    by (rule fold_raises) (auto intro: level_take_job level_prune_jobs)
  then show "level (hex40 ?e) spelled_key i s \<le> level (hex40 ?e) spelled_key i (meanwhile ?e n s)" for i s n
    by (simp add: among_def)
qed (simp_all add: among_def coded_def hex_text_sound spelled_key)

interpretation worker: lone_worker "alone (coded env)" spelled_key for env
  by (rule lone_worker_alone(1) [OF coded_sound])

section \<open>Properties\<close>

definition ig_start :: ingress_state where
  "ig_start = \<lparr>ig_events = [], ig_letters = [], ig_jobs = [], ig_notes = [], ig_unreadable = [], ig_ticks = 0\<rparr>"

lemma noted_kinds:
  "noted_in k s \<longleftrightarrow> (\<exists>n \<in> {Taken_by_plugin, Owner_deleted, Letter_expired, Left_in_failed_job, Swallowed_by_failed_job}. (k, n) \<in> set (ig_notes s))"
  unfolding noted_in_def by (metis delivery_note.exhaust insertCI)

lemma start_ok: "tables_ok hx born ig_start"
  by (simp add: tables_ok_def ig_start_def)

text \<open>
  C10: no delivery is lost between its stored row and its plugin without a trace, as long as the worker's runs do not overlap
  the other calls. Start from empty tables and take any steps of the pipeline; then a request stores the row of a delivery.
  Whatever follows (statements and calls of the queue that fail with or without taking effect, plugins that throw, shutdown,
  and requests, sweeps, hand-offs, redrives and prunes in any number, nested whole in the gaps between the statements of one
  another to any depth, and between those calls the worker's runs and stalled jobs, each whole), the delivery is accounted for
  afterwards: a job of it is waiting, delayed or running, a dead letter of it is open, its event is pending with its payload,
  or one of five ends was met: the plugin took it, its instance or session was deleted, its dead letter aged out, the worker
  could neither dead-letter nor re-queue it, or an add was answered by a failed job of it.

  Assumed: the 40-digit digests of different texts differ and the id of a new row is minted for its delivery (\<open>sound_ids\<close>),
  plugin and instance ids hold no NUL and the provider's delivery id does not begin with \<open>redrive:\<close> (\<open>key_ok\<close>), and the
  door hands on the row and the job of one delivery (\<open>stored_for\<close>). A run of a job amid the statements of a sweep is
  excluded: \<open>failing_job_during_sweep_retires_delivery\<close> is one that leaves nothing. (A note counts for all deliveries of
  one id, also for one that comes again after its row was pruned.)
\<close>

theorem stored_delivery_accounted:
  assumes "list_all (sound_step (sound_ids hx born)) earlier" and "list_all (sound_step (sound_ids hx born)) later"
    and "sound_plan (sound_ids hx born) (Plan company (Accept env e j))"
    and "fst (insert_event (among (\<lambda>n. map follow (company n)) env) e (fold take_step earlier ig_start)) = Inr True"
  shows "let k = event_key e; s = fold take_step (earlier @ Call (Plan company (Accept env e j)) # later) ig_start
    in live_in k s \<or> open_in k None s \<or> pending_in k s
       \<or> (\<exists>n \<in> {Taken_by_plugin, Owner_deleted, Letter_expired, Left_in_failed_job, Swallowed_by_failed_job}. (k, n) \<in> set (ig_notes s))"
proof -
  let ?s = "fold take_step earlier ig_start" and ?a = "among (\<lambda>n. map follow (company n)) env"
  let ?k = "event_key e" and ?t = "follow (Plan company (Accept env e j)) (fold take_step earlier ig_start)"
  have ok: "tables_ok hx born ?s"
    by (rule steps_keep(1) [OF assms(1) start_ok])
  have "ingress_company ?a born" "hex40 ?a = hx" "stored_for e j"
    using company_of_plan [OF assms(3), of env] assms(3) by auto
  then have "3 \<le> level hx born (?k, None) ?t"
    using ingress_company.accept_keeps(2) [of ?a born e j "(?k, None)" ?s] ok assms(4) by simp
  then have "tables_ok hx born ?t" "kept ?k ?t"
    using kept_level [of hx born ?k ?t] by simp_all
  then have "kept ?k (fold take_step later ?t)"
    using steps_keep(2) [OF assms(2)] by blast
  moreover have "fold take_step (earlier @ Call (Plan company (Accept env e j)) # later) ig_start = fold take_step later ?t"
    by (simp del: follow.simps)
  ultimately show ?thesis
    unfolding kept_def noted_kinds Let_def by metis
qed

definition queue_env :: recovery_env where
  "queue_env = coded \<lparr>meanwhile = (\<lambda>n s. s), stmt_fails = (\<lambda>n. n = 2), stmt_lands = (\<lambda>n. False), stmt_transient = (\<lambda>n. True),
     redis_fails = (\<lambda>n. False), redis_lands = (\<lambda>n. False), time_at = (\<lambda>n. 100000 * int n), mint = spelled,
     queue_enabled = True, hex40 = hex_text, dispatch_result = (\<lambda>n d. Some ''down''), hook_throws = (\<lambda>n. False), halted = (\<lambda>n. False),
     restoring = (\<lambda>n p. False), instance_enabled = (\<lambda>n p i. Some True), session_exists = (\<lambda>n x. True), is_uuid = (\<lambda>x. False),
     conversation_spec = (\<lambda>p r. None), parse_body = (\<lambda>t. None), max_attempts_env = Some ''1'', retry_delay_env = None,
     rate_limit_text = ''bullmq:rateLimitExceeded'', sweep_interval_env = None\<rparr>"

definition one_payload :: ingress_payload where
  "one_payload = \<lparr>pl_verified = True, pl_headers = [], pl_query = [], pl_body = ''{}'', pl_provider = None, pl_method = Some ''POST''\<rparr>"

definition one_event :: ingress_event where
  "one_event = \<lparr>ev_plugin = ''crm'', ev_instance = ''i1'', ev_delivery = ''d1'', ev_route = ''hook'', ev_payload = Some one_payload,
     ev_hash = None, ev_session = None, ev_state = Some Pending\<rparr>"

definition one_job :: ingress_job where
  "one_job = \<lparr>j_plugin = ''crm'', j_instance = ''i1'', j_route = ''hook'', j_method = ''POST'', j_delivery = ''d1'', j_session = None,
     j_conversation = None, j_payload = one_payload\<lparr>pl_method := None\<rparr>\<rparr>"

definition one_id :: string where
  "one_id = queueJobId queue_env (job_of one_job) ''d1''"

definition quick_opts :: reconciler_opts where
  "quick_opts = \<lparr>ro_interval = 9, ro_grace = 9, ro_batch = 5, ro_attempts = 2\<rparr>"

lemma queue_env_sound: "sound_ids hex_text spelled_key queue_env"
  unfolding queue_env_def by (rule coded_sound)

lemma one_stored: "stored_for one_event one_job"
  by (simp add: stored_for_def one_event_def one_job_def one_payload_def job_for_def key_ok_def event_key_def no_nul_def)

text \<open>The outcome of the enqueue is not marked, the job's only attempt fails, and a sweep passes while the queue takes jobs.\<close>

theorem stored_delivery_accounted_witness:
  "let earlier = [Call (Plan (\<lambda>n. []) (Sweep queue_env quick_opts False))];
       later = [Call (Plan (\<lambda>n. []) (Take one_id)), Run_job queue_env one_id,
                Call (Plan (\<lambda>n. [Plan (\<lambda>m. []) (Take one_id)]) (Sweep queue_env quick_opts False))]
   in list_all (sound_step (sound_ids hex_text spelled_key)) (earlier @ later)
      \<and> sound_plan (sound_ids hex_text spelled_key) (Plan (\<lambda>n. []) (Accept queue_env one_event one_job))
      \<and> (let k = (''crm'', ''i1'', ''d1''); s = fold take_step (earlier @ Call (Plan (\<lambda>n. []) (Accept queue_env one_event one_job)) # later) ig_start
          in live_in k s \<or> open_in k None s \<or> pending_in k s
             \<or> (\<exists>n \<in> {Taken_by_plugin, Owner_deleted, Letter_expired, Left_in_failed_job, Swallowed_by_failed_job}. (k, n) \<in> set (ig_notes s)))"
proof -
  let ?earlier = "[Call (Plan (\<lambda>n. []) (Sweep queue_env quick_opts False))]"
  let ?later = "[Call (Plan (\<lambda>n. []) (Take one_id)), Run_job queue_env one_id,
      Call (Plan (\<lambda>n. [Plan (\<lambda>m. []) (Take one_id)]) (Sweep queue_env quick_opts False))]"
  have sound: "list_all (sound_step (sound_ids hex_text spelled_key)) ?earlier" "list_all (sound_step (sound_ids hex_text spelled_key)) ?later"
      "sound_plan (sound_ids hex_text spelled_key) (Plan (\<lambda>n. []) (Accept queue_env one_event one_job))"
    by (simp_all add: queue_env_sound one_stored)
  have stored: "fst (insert_event (among (\<lambda>n. map follow []) queue_env) one_event (fold take_step ?earlier ig_start)) = Inr True"
    by code_simp
  have "event_key one_event = (''crm'', ''i1'', ''d1'')"
    by (simp add: event_key_def one_event_def)
  then show ?thesis
    using stored_delivery_accounted [OF sound stored] sound by (simp only: Let_def list_all_append simp_thms)
qed

text \<open>
  C25: the hand-off of aged events returns. While no other node interferes, and whatever statements and lookups fail, however
  the instances and sessions stand and whenever shutdown begins, its loop takes at most one round more than there are
  aged events when it starts: with that much fuel it returns the number of events it retired, or the error of the
  statement that reads a batch.
\<close>

theorem handoff_returns:
  assumes "distinct (map te_id (ig_events s))" "length (filter (awaits_handoff cutoff) (ig_events s)) < fuel"
  shows "(\<exists>e. fst (deadLetterAgedPending fuel (alone env) cutoff n s) = Inl e) \<or> (\<exists>retired. fst (deadLetterAgedPending fuel (alone env) cutoff n s) = Inr (Some retired))"
proof -
  have "card (waiting cutoff s) \<le> length (filter (awaits_handoff cutoff) (ig_events s))"
    unfolding waiting_def using card_length [of "map te_id (filter (awaits_handoff cutoff) (ig_events s))"] by simp
  then have "fst (handoff_batches fuel (alone env) n cutoff 0 [] s) \<noteq> Inr None"
    using lone.handoff_batches_end [OF assms(1), of cutoff "[]"] assms(2) by simp
  then have "fst (deadLetterAgedPending fuel (alone env) cutoff n s) \<noteq> Inr None"
    by (simp add: deadLetterAgedPending_def aborted_def await_def inspect_def succeed_def)
  then show ?thesis
    by (cases "fst (deadLetterAgedPending fuel (alone env) cutoff n s)") auto
qed

text \<open>One aged event, whose batch of one is full, so that a second round reads an empty batch.\<close>

theorem handoff_returns_witness:
  "let s = snd (insert_event queue_env one_event ig_start)
   in distinct (map te_id (ig_events s)) \<and> length (filter (awaits_handoff 200000) (ig_events s)) = 1
      \<and> ((\<exists>e. fst (deadLetterAgedPending 2 (alone queue_env) 200000 1 s) = Inl e) \<or> (\<exists>retired. fst (deadLetterAgedPending 2 (alone queue_env) 200000 1 s) = Inr (Some retired)))"
proof -
  let ?s = "snd (insert_event queue_env one_event ig_start)"
  have h: "distinct (map te_id (ig_events ?s))" "length (filter (awaits_handoff 200000) (ig_events ?s)) = 1"
    by code_simp+
  then show ?thesis
    using handoff_returns [OF h(1), of 200000 2 queue_env 1] by (simp add: Let_def)
qed

text \<open>
  A lookup of the queue that fails is taken for an empty queue. A delivery's only attempt failed and its dead letter is
  open, its event still pending. The sweep's lookup of the job fails; the add that follows is answered by the failed job the
  queue still holds, and the sweep marks the event dispatched and closes the dead letter: the plugin never took the
  delivery, no job will run it, and neither the event nor the dead letter can be replayed.
\<close>

theorem failed_lookup_retires_delivery:
  "let s = fold take_step [Call (Plan (\<lambda>n. []) (Accept queue_env one_event one_job)), Call (Plan (\<lambda>n. []) (Take one_id)),
         Run_job queue_env one_id,
         Call (Plan (\<lambda>n. []) (Sweep (queue_env\<lparr>redis_fails := \<lambda>n. n = 9\<rparr>) quick_opts False))] ig_start
   in map (\<lambda>e. (ev_state e, ev_payload e)) (ig_events s) = [(Some Dispatched, None)] \<and> map dl_redriven (ig_letters s) = [True]
      \<and> map qj_state (ig_jobs s) = [Job_failed] \<and> map snd (ig_notes s) = [Swallowed_by_failed_job]"
  by code_simp

text \<open>
  A job that fails while a sweep settles its event. The sweep finds the job running and takes it for the owner of the
  delivery; before the sweep marks the event, the job's last attempt fails and dead-letters the delivery; the sweep then
  marks the event dispatched and closes that dead letter. Nothing keeps the delivery, and nothing is noted of it.
\<close>

theorem failing_job_during_sweep_retires_delivery:
  "let s = fold take_step [Call (Plan (\<lambda>n. []) (Accept queue_env one_event one_job)), Call (Plan (\<lambda>n. []) (Take one_id))] ig_start;
       racing = queue_env\<lparr>meanwhile := \<lambda>n. if n = 7 then run_job (alone queue_env) one_id else id\<rparr>;
       s' = perform (Sweep racing quick_opts False) s
   in map qj_state (ig_jobs s) = [Job_active] \<and> map (\<lambda>e. (ev_state e, ev_payload e)) (ig_events s') = [(Some Dispatched, None)]
      \<and> map dl_redriven (ig_letters s') = [True] \<and> map qj_state (ig_jobs s') = [Job_failed] \<and> ig_notes s' = []"
  by code_simp

end
