(* ===== verification/Spec2Isabelle.thy ===== *)
theory Spec2Isabelle
  imports Ssrf_Fetch Api_Guard Pacing_Runs Webhook_Filters Mutation_Guard Concurrency Keyed_Queue Webhook_Retries Send_Idempotency
    Session_Ownership Reconnect Hook_Chain Ingress_Runs
begin

text \<open>
  OpenWA is an HTTP gateway in front of WhatsApp: clients call a REST API with an API key, an engine (one of two
  third-party packages) talks to WhatsApp, and events flow out to webhooks. This development models the parts of the
  backend (\<^verbatim>\<open>src/src\<close>) that carry its own logic and states what makes them correct. Every definition that models code is executable and
  keeps the name of the function it translates; a suffix or another word is used where HOL has the name already.

  \<^bold>\<open>How the parts interact.\<close> A request passes the key guard (\<open>Api_Guard\<close>), which resolves the client's address
  (\<open>Ip\<close>), validates the key (\<open>Auth_Service\<close> over the entity of \<open>Api_Key\<close>) and fences the chats it names
  (\<open>Chat_Scope\<close>, over the identifiers of \<open>Wa_Id\<close> and the lid table of \<open>Lid_Store\<close>). A send asks the governor
  (\<open>Pacing_State\<close>, \<open>Pacing_Cold\<close>, \<open>Send_Pacing\<close>) whether the day's allowance admits it; one with an idempotency key first
  claims the key (\<open>Send_Idempotency\<close>), and its content passes the plugins' gate (\<open>Hook_Chain\<close>). A session's engine runs on the node that holds its lease (\<open>Session_Ownership\<close>), and is
  relaunched after a drop with a growing delay (\<open>Reconnect\<close>). An event from the engine may
  change a stored row only through the mutation guard (\<open>Mutation_Guard\<close>), and goes to the webhooks whose filters match
  (\<open>Webhook_Filters\<close>, \<open>Webhook_Fanout\<close>): an outbox row is written (\<open>Webhook_Store\<close>), a slot taken (\<open>Concurrency\<close>), the
  delivery made or queued (\<open>Webhook_Delivery\<close>), and what is left behind is swept, redriven or worked off
  (\<open>Webhook_Recovery\<close>). A provider's webhook is admitted and stored (\<open>Ingress_Admission\<close>), handed to the queue or run inline
  (\<open>Ingress_Queue\<close>), and what is stranded is swept, handed off or redriven (\<open>Ingress_Recovery\<close>). Requests to a user's URL go through the address guard (\<open>Ssrf_Address\<close>, \<open>Ssrf_Fetch\<close>).

  \<^bold>\<open>The theories.\<close>

  \<^item> \<open>Prelude\<close>: JavaScript strings and collections, errors as values, the lemmas shared by all. \<open>Json\<close>, \<open>Json_Text\<close>: JSON
    values, \<open>JSON.stringify\<close>, UTF-8 lengths, and the shedding of inline media (\<^verbatim>\<open>common/utils/inline-media.ts\<close>).
    \<open>Effects\<close>: asynchronous code as fallible actions on a world, with rules for the level an action leaves a thing at.
  \<^item> \<open>Wa_Id\<close>: \<^verbatim>\<open>engine/identity/wa-id.ts\<close> and \<^verbatim>\<open>jid-candidates.ts\<close>. Parsing, the neutral dialect (a normal form),
    participants, alternates. The contracts a directory of lids offers are the locales \<open>contact_directory_laws\<close> and
    \<open>scope_directory_laws\<close>.
  \<^item> \<open>Lid_Store\<close>: \<^verbatim>\<open>engine/identity/lid-mapping-store.service.ts\<close>. The mirror as a record with its LRU order and reverse
    index, its reads, and its writes cut at their statements, whose outcomes are given; in every reachable state the two
    lookups are one relation, the cap holds, and the reads behind the chat fence answer exactly the stored or held phone.
    It interprets \<open>scope_directory_laws\<close>.
  \<^item> \<open>Chat_Scope\<close>: \<^verbatim>\<open>common/security/chat-scope.ts\<close>, \<^verbatim>\<open>session-scope.ts\<close>, \<^verbatim>\<open>modules/auth/chat-scope.service.ts\<close>. The list
    filter and the guard decide alike, whether the reads of the lid table succeed or fail.
  \<^item> \<open>Ip\<close>: \<^verbatim>\<open>common/utils/ip.ts\<close>. The walk over trusted proxies.
  \<^item> \<open>Ssrf_Address\<close>, \<open>Ssrf_Fetch\<close>: \<^verbatim>\<open>common/security/ssrf-guard.ts\<close>, \<^verbatim>\<open>proxy-dispatcher.ts\<close>. The classifier by numeric value; validation,
    pinning, redirects and what a request contacts directly, through a SOCKS proxy or behind an HTTP proxy. URL parser, resolver and HTTP client are fields of \<open>fetch_env\<close>.
  \<^item> \<open>Api_Key\<close>, \<open>Auth_Service\<close>, \<open>Api_Guard\<close>: \<^verbatim>\<open>modules/auth\<close>. Usage counts and the index of active keys (failed loads included) as step relations;
    the service's operations as atomic statements between which other processes act; the guard with its audit rows.
  \<^item> \<open>Limiters\<close>: \<^verbatim>\<open>modules/events/ws-rate-limit.ts\<close>. Both limiters interpret the locale \<open>keyed_limiter\<close> of a capped LRU
    map of per-subject states, so each answers as its per-subject automaton over the full history while the subjects fit the map.
  \<^item> \<open>Pacing_State\<close>, \<open>Pacing_Cold\<close>, \<open>Send_Pacing\<close>, \<open>Pacing_Runs\<close>: \<^verbatim>\<open>modules/message/send-pacing.service.ts\<close> and its
    configuration. Each check is cut at its awaits into segments that take the answers of the reads; \<open>pacing_step\<close>
    interleaves the segments of any number of sends with the rows they write, and the day's cap is an invariant of it as long as the reads are short.
  \<^item> \<open>Webhook_Filters\<close>: \<^verbatim>\<open>modules/webhook/filters\<close>. Validation and evaluation of stored filters: a validated filter fires
    exactly when what its conditions say (\<open>condition_says\<close>, written without the evaluator) is true of the event.
  \<^item> \<open>Mutation_Guard\<close>: \<^verbatim>\<open>modules/session/message-mutation-guard.ts\<close>. The guard decides as the inductive rules \<open>may_change\<close>.
  \<^item> \<open>Concurrency\<close>, \<open>Keyed_Queue\<close>: \<^verbatim>\<open>common/utils/concurrency-limiter.ts\<close>, \<^verbatim>\<open>keyed-mutation-queue.ts\<close>. The limiter's steps
    keep its count exact; the promise chain refines a first-in-first-out queue per key, and no work stalls.
  \<^item> \<open>Webhook_Store\<close>: \<^verbatim>\<open>modules/webhook/utils/record-delivery-failure.ts\<close> and \<^verbatim>\<open>webhook-outbox.service.ts\<close> over the two tables, and the
    retention prunes of \<^verbatim>\<open>webhook.service.ts\<close>.
    Where an event stands is a level (\<open>standing\<close>): 0 lost, 1 not yet filed, 2 replayable from the outbox, 3 reported
    as unsent, 4 reported as failed, 5 settled (or reported until the row was pruned). The locale \<open>company\<close> assumes that other connections let no event fall,
    and shows that no operation of the store does.
  \<^item> \<open>Webhook_Delivery\<close>: \<^verbatim>\<open>utils/deliver-once.ts\<close> and the delivery half of \<^verbatim>\<open>webhook-delivery.service.ts\<close> (preflight, retry
    loop, queue with its fallback, dispatch, replay), in the locale \<open>delivery_company\<close> that extends \<open>company\<close>.
  \<^item> \<open>Webhook_Recovery\<close>: \<^verbatim>\<open>webhook-reconciler.service.ts\<close>, \<^verbatim>\<open>webhook-redrive.service.ts\<close>,
    \<^verbatim>\<open>modules/queue/processors/webhook.processor.ts\<close>.
  \<^item> \<open>Webhook_Fanout\<close>: idempotency keys and the selection of the subscribed webhooks.
  \<^item> \<open>Webhook_Runs\<close>: the entry points as calls. A call alone interprets the locale (\<open>solo\<close>); hence a call amid a schedule of
    whole calls between its statements does (\<open>crowd\<close>), and no event whose row was written is lost; calls whose statements
    alternate are not covered.
  \<^item> \<open>Webhook_Retries\<close>: the retry loop ends. The locale \<open>capped_hooks\<close> assumes that nobody stores a retry count above a
    cap; it is interpreted on a call alone (\<open>quiet\<close>).
  \<^item> \<open>Json_Inject\<close>: a JSON text determines its value. \<open>Send_Idempotency\<close>: \<^verbatim>\<open>modules/message/idempotency\<close>. The claim, the
    send and the settling of keyed requests on any number of nodes as one step relation over the key table: a key sends
    once, and the fingerprint tells requests apart up to the order of object keys.
  \<^item> \<open>Session_Ownership\<close>: \<^verbatim>\<open>modules/session/session-ownership.service.ts\<close>. Statements and their replies are separate steps,
    so that a reply may be late or lost; no instant lies in the leases two nodes count on.
  \<^item> \<open>Reconnect\<close>: \<^verbatim>\<open>modules/session/reconnect-policy.ts\<close> and the backoff state of \<^verbatim>\<open>session-engine-lifecycle.service.ts\<close>. A
    flapping session keeps backing off.
  \<^item> \<open>Hook_Registry\<close>, \<open>Hook_Chain\<close>: \<^verbatim>\<open>core/hooks\<close>. The registry's two maps stay consistent; whatever handlers do, an
    execution ends, since an event in flight is not run again; the gate in front of a send fails closed, and a send from inside a
    sending handler passes it unmoderated.
  \<^item> \<open>Ingress_Signature\<close>, \<open>Ingress_Admission\<close>: the inbound provider webhooks of \<^verbatim>\<open>modules/integration\<close>. The signature check
    decides as the inductive rules \<open>authentic\<close>; a delivery is stored before it is acknowledged or handed on.
  \<^item> \<open>Ingress_Queue\<close>: \<^verbatim>\<open>ingress-enqueue.service.ts\<close>, the live path's wrapper in \<^verbatim>\<open>integration.module.ts\<close> and the worker
    \<^verbatim>\<open>modules/queue/processors/ingress.processor.ts\<close>, over one state of events, dead letters and jobs. The queue is a list of
    jobs with BullMQ's documented rule that an add under a held id changes nothing. What happens to a delivery (taken by
    the plugin, dropped with its owner, and so on) is noted in \<open>ig_notes\<close>, which no operation reads.
  \<^item> \<open>Ingress_Recovery\<close>: \<^verbatim>\<open>ingress-reconciler.service.ts\<close>, \<^verbatim>\<open>redrive.service.ts\<close>, \<^verbatim>\<open>integration-retention.service.ts\<close>.
  \<^item> \<open>Ingress_Levels\<close>: where a delivery stands is a level from 1 (nothing keeps it) to 5 (a job, or a noted end). The locale
    \<open>graded_steps\<close> is a scale that others do not lower; \<open>ingress_company\<close> is one for \<open>level\<close> by a sublocale, and in it no
    operation of the two theories above but the worker lowers a level. It asks that digests of different texts differ, that the id
    of a new row names its delivery, and that the others keep the levels.
  \<^item> \<open>Ingress_Handoff\<close>: the hand-off's loop ends, in the locale \<open>lone_handoff\<close>, another scale under \<open>graded_steps\<close>.
  \<^item> \<open>Ingress_Runs\<close>: the worker, which may lower a level but keeps a delivery kept when it runs alone (\<open>lone_worker\<close>), and runs
    of all operations: no stored delivery is lost without a trace, but for two races, shown by concrete runs, in which a sweep
    retires a delivery that no plugin took.

  \<^bold>\<open>Environment.\<close> What the sources do not contain is an argument: the answers of hooks, receivers, queue, digests, random
  ids, resolver and clocks are functions of the number of the statement (\<open>ticks\<close>) or of the call, so a theorem covers every
  sequence of answers. Every statement of the webhook and ingress tables may fail, and may be preceded by calls of other
  connections. Digests that name jobs, keys or deliveries, and the one under the constant-time comparison, are taken not to
  collide where a theorem says so.

  \<^bold>\<open>Bounds and fuel.\<close> Recursion is structural but for the retry loop \<open>deliverWebhook\<close>: a webhook's retry count is read
  again before every attempt, so the loop takes fuel; running out is an interruption like a shutdown, and the accounting
  of events holds for every fuel. A fuel of the largest stored retry count is enough, and any larger fuel gives the same
  (\<open>dispatch_ends\<close>); the DTO admits counts up to 5. The hand-off of aged ingress events reads batches until one is not full; one round more than
  there are aged events is enough while it runs alone (\<open>handoff_returns\<close>), and what it keeps of a delivery holds for every
  fuel. The daily cap holds for checks whose reads take less than the admission window of ten
  seconds; a longer read passes the cap, as \<open>slow_read_passes_cap\<close> shows. Numbers that the code keeps as JavaScript
  numbers are \<open>int\<close> or \<open>nat\<close> where they are counters and instants far below \<open>2 ^ 53\<close>.

  \<^bold>\<open>Not modelled.\<close> Log lines, metrics' exposition and timers. The SQL of the lid store's writes and its checks for a second lid; the opt-in stages, session
  gates, shutdown drain and subscription cache around webhook dispatch; the start, the reconnect attempt and the teardown
  of an engine; the promise chain that orders the worker's dispatches of one conversation (the same chain is \<open>Keyed_Queue\<close>).
  A run of the ingress worker is not interleaved with other calls in the accounting of deliveries, the calls of others run
  whole in the gaps of a call there and in the accounting of webhook events, and delivery ids that begin with \<open>redrive:\<close> are
  excluded. The administration of webhooks. Outside the modelled components: the session service, the message projector, the send paths around the
  governor, the plugin host, search, media and storage; the engine adapters (bindings to packages whose
  behaviour is not in the sources), controllers and DTOs (declarations), migrations and start-up, the dashboard, the SDKs
  and the scripts.

  \<^bold>\<open>Order of extension.\<close> The fences of a session's lifecycle; the checks for a second lid; the remaining
  stages of webhook dispatch; the message projector.
\<close>

end
